(* ===== verification/Prelude.thy ===== *)
theory Prelude
  imports Main "HOL-Library.Word"
begin

text \<open>
  Shared vocabulary of the development: the fixed-width integer types, the status codes and the
  alignment macros of \<^verbatim>\<open>include/kernel/kernel.h\<close>, the counting loop
  \<^verbatim>\<open>for (T i = s; i < e; i++)\<close> as a combinator with its C-style unfolding equation, and the
  facts on words and lists that the component theories share.

  Collections: \<open>word_nat\<close> moves a word expression to natural numbers, \<open>pmm_simps\<close>,
  \<open>vmm_simps\<close> and the like (declared in the component theories) unfold the operations of one
  component.
\<close>

unbundle bit_operations_syntax

named_theorems word_nat \<open>rules that read a word expression as a natural number\<close>

section \<open>Integer types and status codes\<close>

type_synonym u8 = "8 word"
type_synonym u16 = "16 word"
type_synonym u32 = "32 word"
type_synonym u64 = "64 word"

datatype kernel_status =
    KERNEL_OK
  | KERNEL_ERROR
  | KERNEL_INVALID_PARAM
  | KERNEL_OUT_OF_MEMORY
  | KERNEL_NOT_IMPLEMENTED
  | KERNEL_ALREADY_MAPPED

text \<open>The numeric value of a status code, as \<^verbatim>\<open>printf("%d", status)\<close> shows it.\<close>

fun status_code :: "kernel_status \<Rightarrow> int" where
  "status_code KERNEL_OK = 0"
| "status_code KERNEL_ERROR = -1"
| "status_code KERNEL_INVALID_PARAM = -2"
| "status_code KERNEL_OUT_OF_MEMORY = -3"
| "status_code KERNEL_NOT_IMPLEMENTED = -4"
| "status_code KERNEL_ALREADY_MAPPED = -5"

text \<open>
  The alignment macros are polymorphic in C; \<open>'a\<close> is the width of the expression. The
  addition wraps, as it does in C on unsigned operands.
\<close>

definition ALIGN_UP :: "'a::len word \<Rightarrow> 'a word \<Rightarrow> 'a word" where
  "ALIGN_UP addr align = (addr + align - 1) AND NOT (align - 1)"

definition ALIGN_DOWN :: "'a::len word \<Rightarrow> 'a word \<Rightarrow> 'a word" where
  "ALIGN_DOWN addr align = addr AND NOT (align - 1)"

abbreviation PAGE_SIZE :: "'a::len word" where
  "PAGE_SIZE \<equiv> 4096"

abbreviation PAGE_ALIGN :: "'a::len word \<Rightarrow> 'a word" where
  "PAGE_ALIGN addr \<equiv> ALIGN_UP addr PAGE_SIZE"

section \<open>Words as natural numbers\<close>

lemma unat_lt [simp]:
  "unat (x :: u8) < 256" "unat (y :: u16) < 65536" "unat (z :: u32) < 4294967296"
  using unsigned_less [of x, where ?'a = nat] unsigned_less [of y, where ?'a = nat]
    unsigned_less [of z, where ?'a = nat]
  by simp_all

lemma unat_add_small [word_nat]:
  "unat x + unat y < 2 ^ LENGTH('a) \<Longrightarrow> unat (x + y :: 'a::len word) = unat x + unat y"
  by (simp add: unat_word_ariths)

lemma unat_mult_small [word_nat]:
  "unat x * unat y < 2 ^ LENGTH('a) \<Longrightarrow> unat (x * y :: 'a::len word) = unat x * unat y"
  by (simp add: unat_word_ariths)

lemma unat_sub_small [word_nat]:
  "unat y \<le> unat x \<Longrightarrow> unat (x - y :: 'a::len word) = unat x - unat y"
  by (simp add: unat_sub word_le_nat_alt)

lemmas [word_nat] = unat_div_distrib unat_mod_distrib word_less_nat_alt word_le_nat_alt

lemma unat_of_nat_small [word_nat]:
  "n < 2 ^ LENGTH('a) \<Longrightarrow> unat (word_of_nat n :: 'a::len word) = n"
  by (simp add: unat_of_nat)

lemma unat_inc_less: "x < y \<Longrightarrow> unat (x + 1 :: 'a::len word) = Suc (unat x)"
proof -
  assume "x < y"
  then have "unat x < unat y" by (simp add: word_less_nat_alt)
  also have "unat y < 2 ^ LENGTH('a)" by (rule unsigned_less)
  finally have "unat x + 1 < 2 ^ LENGTH('a)" using \<open>unat x < unat y\<close>
    unsigned_less [of y, where ?'a = nat] by linarith
  then show ?thesis by (simp add: unat_word_ariths)
qed

lemma unat_inc_le: "x < y \<Longrightarrow> (x + 1 :: 'a::len word) \<le> y"
  by (simp add: word_le_nat_alt unat_inc_less word_less_nat_alt Suc_leI)

text \<open>The measure of a loop that counts up to a bound.\<close>

lemma loop_measure: "x < y \<Longrightarrow> unat y - unat (x + 1 :: 'a::len word) < unat y - unat x"
  by (simp add: unat_inc_less diff_less_mono2 word_less_nat_alt)

lemma loop_measure_8: "x < (8 :: u32) \<Longrightarrow> 8 - unat (x + 1) < 8 - unat x"
  using loop_measure [of x 8] by simp

lemma and_not_mask_eq: "(x AND NOT (mask n) :: 'a::len word) = push_bit n (drop_bit n x)"
  by (rule bit_word_eqI) (auto simp: bit_simps)

lemma unat_and_not_mask: "unat (x AND NOT (mask n) :: 'a::len word) = unat x div 2 ^ n * 2 ^ n"
proof -
  have "unat x div 2 ^ n * 2 ^ n < 2 ^ LENGTH('a)"
    by (rule le_less_trans [OF div_times_less_eq_dividend unsigned_less])
  then show ?thesis
    by (simp only: and_not_mask_eq unsigned_push_bit_eq unat_drop_bit_eq)
      (simp add: push_bit_eq_mult drop_bit_eq_div take_bit_nat_eq_self)
qed

lemma unat_and_mask: "unat (x AND mask n :: 'a::len word) = unat x mod 2 ^ n"
  by (simp only: take_bit_eq_mask [symmetric] unsigned_take_bit_eq) (simp add: take_bit_eq_mod)

lemma page_mask: "(4095 :: 'a::len word) = mask 12"
  by (simp add: mask_eq_exp_minus_1)

lemma ALIGN_DOWN_page: "ALIGN_DOWN x PAGE_SIZE = x AND NOT 4095"
  by (simp add: ALIGN_DOWN_def)

lemma unat_page_base [word_nat]: "unat (x AND NOT 4095 :: 'a::len word) = unat x div 4096 * 4096"
  using unat_and_not_mask [of x 12] by (simp only: page_mask) simp

lemma unat_page_base_minus [word_nat]:
  "unat (x AND - 4096 :: 'a::len word) = unat x div 4096 * 4096"
  using unat_page_base [of x] by simp

lemma unat_page_offset [word_nat]: "unat (x AND 4095 :: 'a::len word) = unat x mod 4096"
  using unat_and_mask [of x 12] by (simp add: page_mask)

lemma unat_ALIGN_UP_page:
  assumes "unat (x :: u32) + 4095 < 2 ^ 32"
  shows "unat (PAGE_ALIGN x) = (unat x + 4095) div 4096 * 4096"
proof -
  have "x + PAGE_SIZE - 1 = x + 4095" by simp
  moreover have "unat (x + 4095) = unat x + 4095"
    using assms by (simp add: unat_word_ariths)
  ultimately show ?thesis
    by (simp add: ALIGN_UP_def unat_page_base_minus add.commute)
qed

section \<open>Counting loops\<close>

text \<open>
  \<open>for_loop s e body st\<close> is \<^verbatim>\<open>for (T i = s; i < e; i++) body\<close> over an unsigned
  type \<open>T\<close>: the equation \<open>for_loop_unfold\<close> is the loop's own unrolling, with the
  increment at the width of \<open>T\<close>.
\<close>

definition for_loop :: "'a::len word \<Rightarrow> 'a word \<Rightarrow> ('a word \<Rightarrow> 's \<Rightarrow> 's) \<Rightarrow> 's \<Rightarrow> 's" where
  "for_loop s e body st = fold (\<lambda>i. body (word_of_nat i)) [unat s..<unat e] st"

lemma for_loop_unfold:
  "for_loop s e body st = (if s < e then for_loop (s + 1) e body (body s st) else st)"
  by (simp add: for_loop_def word_less_nat_alt unat_inc_less upt_conv_Cons)

lemma for_loop_done [simp]: "e \<le> s \<Longrightarrow> for_loop s e body st = st"
  by (subst for_loop_unfold) (simp add: not_less [symmetric])

lemma for_loop_invariant:
  fixes s e :: "'a::len word"
  assumes "P st"
    and "\<And>i st. \<lbrakk>P st; s \<le> i; i < e\<rbrakk> \<Longrightarrow> P (body i st)"
  shows "P (for_loop s e body st)"
proof -
  have "\<forall>st. P st \<longrightarrow> P (fold (\<lambda>i. body (word_of_nat i)) xs st)"
    if "set xs \<subseteq> {unat s..<unat e}" for xs
    using that
  proof (induction xs)
    case (Cons x xs)
    then have "unat s \<le> x" "x < unat e" by auto
    moreover from this have "x < 2 ^ LENGTH('a)"
      by (meson less_trans unsigned_less)
    ultimately have "s \<le> word_of_nat x" "word_of_nat x < e"
      by (simp_all add: word_le_nat_alt word_less_nat_alt unat_of_nat_small)
    with Cons assms(2) show ?case by simp
  qed simp
  with assms(1) show ?thesis by (simp add: for_loop_def)
qed

text \<open>The same rule with the invariant indexed by the loop counter.\<close>

lemma for_loop_counting:
  assumes "P (unat s) st" and "s \<le> e"
    and "\<And>i st. \<lbrakk>P (unat i) st; s \<le> i; i < e\<rbrakk> \<Longrightarrow> P (Suc (unat i)) (body i st)"
  shows "P (unat e) (for_loop s e body st)"
  using assms
proof (induction "unat e - unat s" arbitrary: s st)
  case 0
  then show ?case by (simp add: word_le_nat_alt)
next
  case (Suc n)
  then have less: "s < e" by (simp add: word_less_nat_alt)
  then have "P (unat (s + 1)) (body s st)"
    using Suc.prems by (simp add: unat_inc_less)
  moreover have "n = unat e - unat (s + 1)"
    using Suc.hyps(2) less by (simp add: unat_inc_less)
  ultimately have "P (unat e) (for_loop (s + 1) e body (body s st))"
    using Suc less by (intro Suc.hyps(1)) (auto simp: unat_inc_le unat_inc_less word_le_nat_alt)
  with less show ?case by (subst for_loop_unfold) simp
qed

text \<open>
  A counting loop whose body may fault (\<open>None\<close>) or return from the enclosing function
  (\<open>Some (Some r, st)\<close>). The result \<open>Some (None, st)\<close> is a loop that ran to its end.
\<close>

function for_ret ::
    "'a::len word \<Rightarrow> 'a word \<Rightarrow> ('a word \<Rightarrow> 's \<Rightarrow> ('r option \<times> 's) option) \<Rightarrow> 's \<Rightarrow> ('r option \<times> 's) option" where
  "for_ret s e body st =
     (if s < e
      then case body s st of
             None \<Rightarrow> None
           | Some (Some r, st') \<Rightarrow> Some (Some r, st')
           | Some (None, st') \<Rightarrow> for_ret (s + 1) e body st'
      else Some (None, st))"
  by pat_completeness auto
termination
  by (relation "measure (\<lambda>(s, e, body, st). unat e - unat s)") (auto intro: loop_measure)

declare for_ret.simps [simp del]

text \<open>
  Total correctness: \<open>P k\<close> holds before iteration \<open>k\<close>, \<open>Q\<close> at an early return.
\<close>

lemma for_ret_rule:
  fixes s e :: "'a::len word"
  assumes "P (unat s) st" and "s \<le> e"
    and "\<And>i st. \<lbrakk>P (unat i) st; s \<le> i; i < e\<rbrakk> \<Longrightarrow>
           \<exists>r st'. body i st = Some (r, st') \<and>
                  (case r of None \<Rightarrow> P (Suc (unat i)) st' | Some v \<Rightarrow> Q (unat i) v st')"
  shows "\<exists>r st'. for_ret s e body st = Some (r, st') \<and>
           (case r of None \<Rightarrow> P (unat e) st'
            | Some v \<Rightarrow> \<exists>i. unat s \<le> i \<and> i < unat e \<and> Q i v st')"
  using assms
proof (induction "unat e - unat s" arbitrary: s st)
  case 0
  then have "s = e" by (simp add: word_le_nat_alt word_unat_eq_iff)
  with "0.prems"(1) show ?case by (simp add: for_ret.simps [of e])
next
  case (Suc n)
  then have less: "s < e" by (simp add: word_less_nat_alt)
  then obtain r st' where body: "body s st = Some (r, st')"
    and r: "case r of None \<Rightarrow> P (Suc (unat s)) st' | Some v \<Rightarrow> Q (unat s) v st'"
    using Suc.prems by blast
  show ?case
  proof (cases r)
    case (Some v)
    with body r less show ?thesis
      by (simp add: for_ret.simps [of s]) (auto simp: word_less_nat_alt)
  next
    case None
    have n: "n = unat e - unat (s + 1)" using Suc.hyps(2) less by (simp add: unat_inc_less)
    have P: "P (unat (s + 1)) st'" using r None less by (simp add: unat_inc_less)
    have "\<exists>r st''. for_ret (s + 1) e body st' = Some (r, st'') \<and>
           (case r of None \<Rightarrow> P (unat e) st''
            | Some v \<Rightarrow> \<exists>i. unat (s + 1) \<le> i \<and> i < unat e \<and> Q i v st'')"
    proof (rule Suc.hyps(1) [OF n P unat_inc_le [OF less]])
      fix i :: "'a word" and st
      assume "P (unat i) st" "s + 1 \<le> i" "i < e"
      moreover from this have "s \<le> i" using less by (simp add: word_le_nat_alt unat_inc_less)
      ultimately show "\<exists>r st'. body i st = Some (r, st') \<and>
          (case r of None \<Rightarrow> P (Suc (unat i)) st' | Some v \<Rightarrow> Q (unat i) v st')"
        using Suc.prems(3) by blast
    qed
    then obtain r' st'' where rest: "for_ret (s + 1) e body st' = Some (r', st'')"
      and r': "case r' of None \<Rightarrow> P (unat e) st''
            | Some v \<Rightarrow> \<exists>i. unat (s + 1) \<le> i \<and> i < unat e \<and> Q i v st''" by blast
    have "for_ret s e body st = Some (r', st'')"
      using None body less rest by (simp add: for_ret.simps [of s])
    moreover have "unat s \<le> i" if "unat (s + 1) \<le> i" for i
      using that less by (simp add: unat_inc_less)
    ultimately show ?thesis using r' by (auto split: option.splits)
  qed
qed

text \<open>Partial correctness: what every iteration keeps, a returning loop keeps.\<close>

lemma for_ret_invariant:
  fixes s e :: "'a::len word"
  assumes "P st" and "for_ret s e body st = Some (r, st')"
    and body: "\<And>i st r st'. \<lbrakk>P st; s \<le> i; i < e; body i st = Some (r, st')\<rbrakk> \<Longrightarrow> P st'"
  shows "P st'"
  using assms
proof (induction "unat e - unat s" arbitrary: s st rule: less_induct)
  case less
  show ?case
  proof (cases "s < e")
    case True
    with less.prems(2) obtain r1 st1 where b: "body s st = Some (r1, st1)"
      by (auto simp: for_ret.simps [of s] split: option.splits)
    then have P1: "P st1" using less.prems(1,3) True by blast
    show ?thesis
    proof (cases r1)
      case None
      then have "for_ret (s + 1) e body st1 = Some (r, st')"
        using less.prems(2) True b by (simp add: for_ret.simps [of s])
      moreover have "unat e - unat (s + 1) < unat e - unat s" by (rule loop_measure [OF True])
      moreover have "s \<le> i" if "s + 1 \<le> i" for i
        using that True by (simp add: word_le_nat_alt unat_inc_less)
      ultimately show ?thesis using less.hyps [OF _ P1] less.prems(3) by blast
    next
      case (Some v)
      then show ?thesis using less.prems(2) True b P1 by (simp add: for_ret.simps [of s])
    qed
  next
    case False
    then show ?thesis using less.prems by (simp add: for_ret.simps [of s])
  qed
qed

lemma for_ret_keeps:
  assumes "\<And>i st r st'. body i st = Some (r, st') \<Longrightarrow> f st' = f st"
    and "for_ret s e body st = Some (r, st')"
  shows "f st' = f st"
  by (rule for_ret_invariant [where P = "\<lambda>t. f t = f st", OF _ assms(2)]) (use assms(1) in auto)

end
