(* ===== verification/Bitmap.thy ===== *)
theory Bitmap
  imports Prelude
begin

text \<open>
  The physical page allocator, \<^verbatim>\<open>src/mm/bitmap.c\<close>. The record \<open>pmm\<close> is
  \<^verbatim>\<open>g_physical_allocator\<close>; the memory behind its pointer \<^verbatim>\<open>bits\<close> is the
  byte list \<open>bits\<close> (invariant: \<^verbatim>\<open>size\<close> bytes) and the pointer's value is
  \<open>bits_addr\<close>. A set bit is an allocated page. The record is extensible, so that the
  components above (page tables, heap, address spaces) carry it as a part of their own state.

  C promotes the byte operands of \<^verbatim>\<open>|=\<close> and \<^verbatim>\<open>&=\<close> to int and truncates on
  the store; on eight-bit words the result is the same and is written directly.
\<close>

named_theorems pmm_simps \<open>the definitions of the page allocator\<close>

section \<open>State and operations\<close>

record pmm =
  bits :: "u8 list"
  bits_addr :: u32
  bm_size :: u32
  total_pages :: u32
  free_pages :: u32
  used_pages :: u32

definition bitmap_set_bit :: "u32 \<Rightarrow> 'a pmm_scheme \<Rightarrow> 'a pmm_scheme" where
  "bitmap_set_bit b a =
     (if bm_size a \<le> b div 8 then a
      else a\<lparr>bits := (bits a)[unat (b div 8) :=
              bits a ! unat (b div 8) OR push_bit (unat (b mod 8)) 1]\<rparr>)"

definition bitmap_clear_bit :: "u32 \<Rightarrow> 'a pmm_scheme \<Rightarrow> 'a pmm_scheme" where
  "bitmap_clear_bit b a =
     (if bm_size a \<le> b div 8 then a
      else a\<lparr>bits := (bits a)[unat (b div 8) :=
              bits a ! unat (b div 8) AND NOT (push_bit (unat (b mod 8)) 1)]\<rparr>)"

definition bitmap_test_bit :: "u32 \<Rightarrow> 'a pmm_scheme \<Rightarrow> bool" where
  "bitmap_test_bit b a =
     (if bm_size a \<le> b div 8 then False
      else bits a ! unat (b div 8) AND push_bit (unat (b mod 8)) 1 \<noteq> 0)"

text \<open>\<^verbatim>\<open>(u32)-1\<close>, the "not found" result of the two searches.\<close>

abbreviation NOT_FOUND :: u32 where
  "NOT_FOUND \<equiv> - 1"

text \<open>The inner loop of \<^verbatim>\<open>bitmap_find_free_bit\<close>: the first clear bit of one byte.\<close>

function find_free_in_byte :: "u8 \<Rightarrow> u32 \<Rightarrow> u32 option" where
  "find_free_in_byte v k =
     (if k < 8
      then if v AND push_bit (unat k) 1 = 0 then Some k else find_free_in_byte v (k + 1)
      else None)"
  by pat_completeness auto
termination
  by (relation "measure (\<lambda>(v, k). 8 - unat k)") (auto intro: loop_measure_8)

function find_free_bit_from :: "u32 \<Rightarrow> 'a pmm_scheme \<Rightarrow> u32" where
  "find_free_bit_from byte a =
     (if byte < bm_size a
      then if bits a ! unat byte \<noteq> 0xFF
           then case find_free_in_byte (bits a ! unat byte) 0 of
                  Some k \<Rightarrow> byte * 8 + k
                | None \<Rightarrow> find_free_bit_from (byte + 1) a
           else find_free_bit_from (byte + 1) a
      else NOT_FOUND)"
  by pat_completeness auto
termination
  by (relation "measure (\<lambda>(byte, a). unat (bm_size a) - unat byte)")
    (auto intro: loop_measure)

definition bitmap_find_free_bit :: "'a pmm_scheme \<Rightarrow> u32" where
  "bitmap_find_free_bit a = find_free_bit_from 0 a"

text \<open>
  The inner loop of \<^verbatim>\<open>bitmap_find_free_bits\<close>: \<open>Inl r\<close> is the early return of
  \<open>r\<close>, \<open>Inr found\<close> the counter when the loop over the byte ends.
\<close>

function find_free_bits_byte :: "u32 \<Rightarrow> u32 \<Rightarrow> u32 \<Rightarrow> u32 \<Rightarrow> 'a pmm_scheme \<Rightarrow> u32 + u32" where
  "find_free_bits_byte count byte k found a =
     (if k < 8
      then if bitmap_test_bit (byte * 8 + k) a
           then find_free_bits_byte count byte (k + 1) 0 a
           else if found + 1 = count then Inl (byte * 8 + k + 1 - count)
           else find_free_bits_byte count byte (k + 1) (found + 1) a
      else Inr found)"
  by pat_completeness auto
termination
  by (relation "measure (\<lambda>(count, byte, k, found, a). 8 - unat k)") (auto intro: loop_measure_8)

function find_free_bits_from :: "u32 \<Rightarrow> u32 \<Rightarrow> u32 \<Rightarrow> 'a pmm_scheme \<Rightarrow> u32" where
  "find_free_bits_from count byte found a =
     (if byte < bm_size a
      then if bits a ! unat byte = 0xFF then find_free_bits_from count (byte + 1) 0 a
           else case find_free_bits_byte count byte 0 found a of
                  Inl r \<Rightarrow> r
                | Inr found' \<Rightarrow> find_free_bits_from count (byte + 1) found' a
      else NOT_FOUND)"
  by pat_completeness auto
termination
  by (relation "measure (\<lambda>(count, byte, found, a). unat (bm_size a) - unat byte)")
    (auto intro: loop_measure)

definition bitmap_find_free_bits :: "u32 \<Rightarrow> 'a pmm_scheme \<Rightarrow> u32" where
  "bitmap_find_free_bits count a =
     (if count = 0 then NOT_FOUND else find_free_bits_from count 0 0 a)"

declare find_free_in_byte.simps [simp del] find_free_bit_from.simps [simp del]
  find_free_bits_byte.simps [simp del] find_free_bits_from.simps [simp del]

text \<open>
  The counter updates that the marking and freeing routines repeat. \<open>count_used\<close> is
  \<^verbatim>\<open>used_pages++; if (free_pages > 0) free_pages--;\<close>, \<open>count_free\<close> the converse.
\<close>

definition count_used :: "'a pmm_scheme \<Rightarrow> 'a pmm_scheme" where
  "count_used a = a\<lparr>used_pages := used_pages a + 1,
                    free_pages := (if free_pages a > 0 then free_pages a - 1 else free_pages a)\<rparr>"

definition count_free :: "'a pmm_scheme \<Rightarrow> 'a pmm_scheme" where
  "count_free a = a\<lparr>free_pages := free_pages a + 1,
                    used_pages := (if used_pages a > 0 then used_pages a - 1 else used_pages a)\<rparr>"

definition mark_page_allocated :: "u32 \<Rightarrow> 'a pmm_scheme \<Rightarrow> 'a pmm_scheme" where
  "mark_page_allocated page a =
     (if bitmap_test_bit page a then a else count_used (bitmap_set_bit page a))"

definition mark_page_free :: "u32 \<Rightarrow> 'a pmm_scheme \<Rightarrow> 'a pmm_scheme" where
  "mark_page_free page a =
     (if bitmap_test_bit page a then count_free (bitmap_clear_bit page a) else a)"

text \<open>
  The loop guard \<^verbatim>\<open>page < end_page && page < total_pages\<close> is a bound on the counter by the
  smaller of the two: \<^verbatim>\<open>total_pages\<close> does not change in the loop.
\<close>

definition mark_region_allocated :: "u64 \<Rightarrow> u64 \<Rightarrow> 'a pmm_scheme \<Rightarrow> 'a pmm_scheme" where
  "mark_region_allocated start len a =
     (if len = 0 then a
      else let start_page = ucast (start div PAGE_SIZE);
               end_page = ucast ((start + len + PAGE_SIZE - 1) div PAGE_SIZE)
           in for_loop start_page (min end_page (total_pages a)) mark_page_allocated a)"

definition mark_region_free :: "u64 \<Rightarrow> u64 \<Rightarrow> 'a pmm_scheme \<Rightarrow> 'a pmm_scheme" where
  "mark_region_free start len a =
     (if len = 0 then a
      else let start_page = ucast (ALIGN_UP start PAGE_SIZE div PAGE_SIZE);
               end_page = ucast ((start + len) div PAGE_SIZE)
           in for_loop start_page (min end_page (total_pages a)) mark_page_free a)"

definition pmm_alloc_page :: "'a pmm_scheme \<Rightarrow> u32 \<times> 'a pmm_scheme" where
  "pmm_alloc_page a =
     (if free_pages a = 0 then (0, a)
      else let b = bitmap_find_free_bit a
           in if b = NOT_FOUND then (0, a)
              else let a1 = bitmap_set_bit b a
                   in (b * PAGE_SIZE,
                       a1\<lparr>free_pages := free_pages a1 - 1, used_pages := used_pages a1 + 1\<rparr>))"

definition pmm_alloc_pages :: "u32 \<Rightarrow> 'a pmm_scheme \<Rightarrow> u32 \<times> 'a pmm_scheme" where
  "pmm_alloc_pages count a =
     (if free_pages a < count then (0, a)
      else let start_bit = bitmap_find_free_bits count a
           in if start_bit = NOT_FOUND then (0, a)
              else let a1 = for_loop 0 count (\<lambda>i. bitmap_set_bit (start_bit + i)) a
                   in (start_bit * PAGE_SIZE,
                       a1\<lparr>free_pages := free_pages a1 - count,
                          used_pages := used_pages a1 + count\<rparr>))"

definition pmm_free_page :: "u32 \<Rightarrow> 'a pmm_scheme \<Rightarrow> 'a pmm_scheme" where
  "pmm_free_page addr a = (if addr = 0 then a else mark_page_free (addr div PAGE_SIZE) a)"

definition pmm_free_pages :: "u32 \<Rightarrow> u32 \<Rightarrow> 'a pmm_scheme \<Rightarrow> 'a pmm_scheme" where
  "pmm_free_pages addr count a =
     (if addr = 0 \<or> count = 0 then a
      else let start_bit = addr div PAGE_SIZE
           in for_loop 0 count (\<lambda>i. mark_page_free (start_bit + i)) a)"

definition pmm_get_total_pages :: "'a pmm_scheme \<Rightarrow> u32" where
  "pmm_get_total_pages a = total_pages a"

definition pmm_get_free_pages :: "'a pmm_scheme \<Rightarrow> u32" where
  "pmm_get_free_pages a = free_pages a"

section \<open>The bitmap as a set of pages\<close>

text \<open>
  \<open>page_used a n\<close> reads bit \<open>n\<close> of the bitmap; \<open>capacity\<close> is the number of
  bits it has. \<open>free_frames\<close> is the abstraction of the allocator: the managed pages whose bit is
  clear.
\<close>

definition page_used :: "'a pmm_scheme \<Rightarrow> nat \<Rightarrow> bool" where
  "page_used a n = bit (bits a ! (n div 8)) (n mod 8)"

definition capacity :: "'a pmm_scheme \<Rightarrow> nat" where
  "capacity a = 8 * unat (bm_size a)"

definition free_frames :: "'a pmm_scheme \<Rightarrow> nat set" where
  "free_frames a = {n. n < unat (total_pages a) \<and> \<not> page_used a n}"

definition bitmap_wf :: "'a pmm_scheme \<Rightarrow> bool" where
  "bitmap_wf a \<longleftrightarrow> length (bits a) = unat (bm_size a) \<and> capacity a < 2 ^ 32"

text \<open>
  The invariant of the allocator: the bitmap covers every managed page; the managed pages lie below
  4 GiB, so that a page number times 4096 does not wrap; page 0 and the padding bits behind the last
  managed page are set; and the two counters agree with the bits.
\<close>

definition pmm_inv :: "'a pmm_scheme \<Rightarrow> bool" where
  "pmm_inv a \<longleftrightarrow>
     bitmap_wf a \<and> unat (total_pages a) \<le> capacity a \<and> unat (total_pages a) \<le> 2 ^ 20 \<and>
     (capacity a > 0 \<longrightarrow> page_used a 0) \<and>
     (\<forall>n. unat (total_pages a) \<le> n \<and> n < capacity a \<longrightarrow> page_used a n) \<and>
     unat (free_pages a) = card (free_frames a) \<and>
     unat (used_pages a) + unat (free_pages a) = unat (total_pages a)"

lemma byte_in_range: "bitmap_wf a \<Longrightarrow> bm_size a \<le> b div 8 \<longleftrightarrow> capacity a \<le> unat b"
  unfolding capacity_def by (auto simp: word_nat)

lemma test_bit_iff [pmm_simps]:
  "bitmap_wf a \<Longrightarrow> bitmap_test_bit b a \<longleftrightarrow> unat b < capacity a \<and> page_used a (unat b)"
  by (auto simp: bitmap_test_bit_def byte_in_range page_used_def and_exp_eq_0_iff_not_bit
      unat_div_distrib unat_mod_distrib)

lemma nth_bitmap_update:
  assumes "bitmap_wf a" and "b < capacity a" and "n < capacity a"
  shows "(bits a)[b div 8 := v] ! (n div 8) = (if n div 8 = b div 8 then v else bits a ! (n div 8))"
  using assms by (auto simp: bitmap_wf_def capacity_def nth_list_update less_mult_imp_div_less)

lemma div_mod_8_eq: "(n div 8 = m div 8 \<and> n mod 8 = m mod 8) \<longleftrightarrow> n = (m :: nat)"
  by (metis div_mult_mod_eq)

lemma page_used_set_bit [pmm_simps]:
  assumes "bitmap_wf a" and "n < capacity a"
  shows "page_used (bitmap_set_bit b a) n \<longleftrightarrow> page_used a n \<or> n = unat b"
proof (cases "unat b < capacity a")
  case True
  have "n mod 8 < 8" "unat b mod 8 < 8" by simp_all
  with True assms show ?thesis
    using div_mod_8_eq [of n "unat b"]
    by (auto simp: bitmap_set_bit_def byte_in_range page_used_def unat_div_distrib
        unat_mod_distrib nth_bitmap_update bit_simps)
next
  case False
  with assms show ?thesis by (auto simp: bitmap_set_bit_def byte_in_range)
qed

lemma page_used_clear_bit [pmm_simps]:
  assumes "bitmap_wf a" and "n < capacity a"
  shows "page_used (bitmap_clear_bit b a) n \<longleftrightarrow> page_used a n \<and> n \<noteq> unat b"
proof (cases "unat b < capacity a")
  case True
  have "n mod 8 < 8" "unat b mod 8 < 8" by simp_all
  with True assms show ?thesis
    using div_mod_8_eq [of n "unat b"]
    by (auto simp: bitmap_clear_bit_def byte_in_range page_used_def unat_div_distrib
        unat_mod_distrib nth_bitmap_update bit_simps)
next
  case False
  with assms show ?thesis by (auto simp: bitmap_clear_bit_def byte_in_range)
qed

lemma bit_ops_frame [simp]:
  "bm_size (bitmap_set_bit b a) = bm_size a" "total_pages (bitmap_set_bit b a) = total_pages a"
  "free_pages (bitmap_set_bit b a) = free_pages a" "used_pages (bitmap_set_bit b a) = used_pages a"
  "bits_addr (bitmap_set_bit b a) = bits_addr a" "pmm.more (bitmap_set_bit b a) = pmm.more a"
  "bm_size (bitmap_clear_bit b a) = bm_size a" "total_pages (bitmap_clear_bit b a) = total_pages a"
  "free_pages (bitmap_clear_bit b a) = free_pages a"
  "used_pages (bitmap_clear_bit b a) = used_pages a"
  "bits_addr (bitmap_clear_bit b a) = bits_addr a" "pmm.more (bitmap_clear_bit b a) = pmm.more a"
  "length (bits (bitmap_set_bit b a)) = length (bits a)"
  "length (bits (bitmap_clear_bit b a)) = length (bits a)"
  by (simp_all add: bitmap_set_bit_def bitmap_clear_bit_def)

lemma bit_ops_wf [simp]:
  "bitmap_wf (bitmap_set_bit b a) = bitmap_wf a" "bitmap_wf (bitmap_clear_bit b a) = bitmap_wf a"
  "capacity (bitmap_set_bit b a) = capacity a" "capacity (bitmap_clear_bit b a) = capacity a"
  by (simp_all add: bitmap_wf_def capacity_def)

lemma counter_frame [simp]:
  "page_used (a\<lparr>free_pages := f, used_pages := u\<rparr>) = page_used a"
  "bitmap_wf (a\<lparr>free_pages := f, used_pages := u\<rparr>) = bitmap_wf a"
  "capacity (a\<lparr>free_pages := f, used_pages := u\<rparr>) = capacity a"
  "free_frames (a\<lparr>free_pages := f, used_pages := u\<rparr>) = free_frames a"
  "page_used (a\<lparr>used_pages := u, free_pages := f\<rparr>) = page_used a"
  "bitmap_wf (a\<lparr>used_pages := u, free_pages := f\<rparr>) = bitmap_wf a"
  "capacity (a\<lparr>used_pages := u, free_pages := f\<rparr>) = capacity a"
  "free_frames (a\<lparr>used_pages := u, free_pages := f\<rparr>) = free_frames a"
  by (simp_all add: fun_eq_iff page_used_def bitmap_wf_def capacity_def free_frames_def)

lemma finite_free_frames [simp]: "finite (free_frames a)"
  by (simp add: free_frames_def)

lemma free_frames_set_bit:
  assumes "bitmap_wf a" and "unat (total_pages a) \<le> capacity a"
  shows "free_frames (bitmap_set_bit b a) = free_frames a - {unat b}"
  using assms by (auto simp: free_frames_def page_used_set_bit)

lemma free_frames_clear_bit:
  assumes "bitmap_wf a" and "unat (total_pages a) \<le> capacity a" and "unat b < unat (total_pages a)"
  shows "free_frames (bitmap_clear_bit b a) = insert (unat b) (free_frames a)"
  using assms by (auto simp: free_frames_def page_used_clear_bit)

section \<open>The searches\<close>

lemma unat_NOT_FOUND: "unat NOT_FOUND = 2 ^ 32 - 1"
  by (simp add: unsigned_minus_1_eq_mask mask_eq_exp_minus_1)

lemma find_free_in_byte_spec:
  assumes "k \<le> 8"
  shows "case find_free_in_byte v k of
           None \<Rightarrow> \<forall>i. unat k \<le> i \<and> i < 8 \<longrightarrow> bit v i
         | Some j \<Rightarrow> unat j < 8 \<and> unat k \<le> unat j \<and> \<not> bit v (unat j) \<and>
                     (\<forall>i. unat k \<le> i \<and> i < unat j \<longrightarrow> bit v i)"
  using assms
proof (induction v k rule: find_free_in_byte.induct)
  case (1 v k)
  show ?case
  proof (cases "k < 8 \<and> v AND push_bit (unat k) 1 \<noteq> 0")
    case True
    then have bit: "bit v (unat k)" by (simp add: and_exp_eq_0_iff_not_bit)
    have step: "unat k \<le> i \<longleftrightarrow> i = unat k \<or> unat (k + 1) \<le> i" for i
      using True by (auto simp: unat_inc_less)
    have "find_free_in_byte v k = find_free_in_byte v (k + 1)"
      using True by (simp add: find_free_in_byte.simps [of v k])
    moreover have "k + 1 \<le> 8" using True by (simp add: unat_inc_le)
    ultimately show ?thesis
      using "1.IH" True bit by (auto simp: step unat_inc_less split: option.splits)
  next
    case False
    with "1.prems" show ?thesis
      by (auto simp: find_free_in_byte.simps [of v k] and_exp_eq_0_iff_not_bit word_nat)
  qed
qed

lemma byte_full_iff: "v = (0xFF :: u8) \<longleftrightarrow> (\<forall>i < 8. bit v i)"
proof -
  have "bit (0xFF :: u8) i" if "i < 8" for i
    using that by (auto simp: bit_simps numeral_eq_Suc less_Suc_eq)
  then show ?thesis by (auto simp: bit_eq_iff)
qed

lemma page_used_byte:
  "(\<forall>n. 8 * m \<le> n \<and> n < 8 * Suc m \<longrightarrow> page_used a n) \<longleftrightarrow> (\<forall>i < 8. bit (bits a ! m) i)"
proof
  assume *: "\<forall>n. 8 * m \<le> n \<and> n < 8 * Suc m \<longrightarrow> page_used a n"
  show "\<forall>i < 8. bit (bits a ! m) i"
  proof (intro allI impI)
    fix i :: nat assume "i < 8"
    with * have "page_used a (8 * m + i)" by simp
    with \<open>i < 8\<close> show "bit (bits a ! m) i" by (simp add: page_used_def)
  qed
next
  assume *: "\<forall>i < 8. bit (bits a ! m) i"
  show "\<forall>n. 8 * m \<le> n \<and> n < 8 * Suc m \<longrightarrow> page_used a n"
  proof (intro allI impI)
    fix n assume "8 * m \<le> n \<and> n < 8 * Suc m"
    then have "n div 8 = m" by auto
    with * show "page_used a n" by (simp add: page_used_def)
  qed
qed

lemma byte_full_pages:
  "bits a ! m = 0xFF \<longleftrightarrow> (\<forall>n. 8 * m \<le> n \<and> n < 8 * Suc m \<longrightarrow> page_used a n)"
  by (simp only: byte_full_iff page_used_byte)

text \<open>The single-page search returns the lowest clear bit.\<close>

lemma find_free_bit_from_spec:
  assumes "bitmap_wf a" and "byte \<le> bm_size a"
  shows "(find_free_bit_from byte a = NOT_FOUND \<and>
            (\<forall>n. 8 * unat byte \<le> n \<and> n < capacity a \<longrightarrow> page_used a n)) \<or>
         (8 * unat byte \<le> unat (find_free_bit_from byte a) \<and>
            unat (find_free_bit_from byte a) < capacity a \<and>
            \<not> page_used a (unat (find_free_bit_from byte a)) \<and>
            (\<forall>n. 8 * unat byte \<le> n \<and> n < unat (find_free_bit_from byte a) \<longrightarrow> page_used a n))"
  using assms
proof (induction byte a rule: find_free_bit_from.induct)
  case (1 byte a)
  show ?case
  proof (cases "byte < bm_size a")
    case False
    then have "find_free_bit_from byte a = NOT_FOUND"
      by (simp add: find_free_bit_from.simps [of byte a])
    with False "1.prems" show ?thesis by (auto simp: capacity_def)
  next
    case True
    have inc: "unat (byte + 1) = Suc (unat byte)" using True by (rule unat_inc_less)
    have le: "byte + 1 \<le> bm_size a" using True by (rule unat_inc_le)
    show ?thesis
    proof (cases "bits a ! unat byte = 0xFF")
      case full: True
      have "find_free_bit_from byte a = find_free_bit_from (byte + 1) a"
        using True full by (simp add: find_free_bit_from.simps [of byte a])
      moreover have "8 * unat byte \<le> n \<longleftrightarrow> (8 * unat byte \<le> n \<and> n < 8 * Suc (unat byte)) \<or>
          8 * unat (byte + 1) \<le> n" for n
        using inc by auto
      ultimately show ?thesis
        using "1.IH"(2) True full "1.prems"(1) le byte_full_pages [of a "unat byte"] inc
        by (smt (verit) le_trans mult_le_mono2 le_SucI order_refl)
    next
      case free: False
      then obtain i where "i < 8" "\<not> bit (bits a ! unat byte) i" by (auto simp: byte_full_iff)
      then obtain k where k: "find_free_in_byte (bits a ! unat byte) 0 = Some k"
        using find_free_in_byte_spec [of 0 "bits a ! unat byte"]
        by (auto split: option.splits)
      then have k8: "unat k < 8" and nk: "\<not> bit (bits a ! unat byte) (unat k)"
        and below: "\<And>i. i < unat k \<Longrightarrow> bit (bits a ! unat byte) i"
        using find_free_in_byte_spec [of 0 "bits a ! unat byte"] by auto
      have r: "find_free_bit_from byte a = byte * 8 + k"
        using True free k by (simp add: find_free_bit_from.simps [of byte a])
      have cap: "8 * unat byte + 8 \<le> capacity a" "capacity a < 2 ^ 32"
        using True "1.prems"(1) by (auto simp: capacity_def bitmap_wf_def word_less_nat_alt)
      then have ur: "unat (byte * 8 + k) = 8 * unat byte + unat k"
        using k8 by (simp add: unat_word_ariths)
      have "page_used a n" if lo: "8 * unat byte \<le> n" and hi: "n < 8 * unat byte + unat k" for n
      proof -
        obtain i where i: "n = 8 * unat byte + i" using le_Suc_ex [OF lo] by blast
        with hi k8 have "i < unat k" "i < 8" by simp_all
        with below i show ?thesis by (simp add: page_used_def)
      qed
      with r ur cap k8 nk show ?thesis by (auto simp: page_used_def)
    qed
  qed
qed

lemma bitmap_find_free_bit_spec:
  assumes "bitmap_wf a" and "r = bitmap_find_free_bit a"
  shows "r = NOT_FOUND \<longleftrightarrow> (\<forall>n < capacity a. page_used a n)"
    and "r \<noteq> NOT_FOUND \<Longrightarrow> unat r < capacity a \<and> \<not> page_used a (unat r) \<and>
           (\<forall>n < unat r. page_used a n)"
proof -
  have cap: "capacity a < 2 ^ 32" using assms(1) by (simp add: bitmap_wf_def)
  show "r = NOT_FOUND \<longleftrightarrow> (\<forall>n < capacity a. page_used a n)"
    and "r \<noteq> NOT_FOUND \<Longrightarrow> unat r < capacity a \<and> \<not> page_used a (unat r) \<and>
           (\<forall>n < unat r. page_used a n)"
    using find_free_bit_from_spec [OF assms(1), of 0] assms(2) cap unat_NOT_FOUND
    by (auto simp: bitmap_find_free_bit_def)
qed

text \<open>
  The multi-page search against a reference scan over page numbers: \<open>Inl r\<close> is the first run of
  \<open>count\<close> clear pages, \<open>Inr found\<close> the length of the clear run at the end of the scan. The
  optimised routine skips full bytes and works byte by byte; it computes the same result.
\<close>

fun scan_run :: "(nat \<Rightarrow> bool) \<Rightarrow> nat \<Rightarrow> nat list \<Rightarrow> nat \<Rightarrow> nat + nat" where
  "scan_run used count [] found = Inr found"
| "scan_run used count (n # ns) found =
     (if used n then scan_run used count ns 0
      else if Suc found = count then Inl (Suc n - count)
      else scan_run used count ns (Suc found))"

lemma scan_run_append:
  "scan_run used count (xs @ ys) found =
     (case scan_run used count xs found of Inl r \<Rightarrow> Inl r | Inr f \<Rightarrow> scan_run used count ys f)"
  by (induction xs arbitrary: found) auto

lemma scan_run_all_used:
  "xs \<noteq> [] \<Longrightarrow> (\<And>n. n \<in> set xs \<Longrightarrow> used n) \<Longrightarrow> scan_run used count xs found = Inr 0"
proof (induction xs arbitrary: found)
  case (Cons x xs)
  then show ?case by (cases xs) auto
qed simp

lemma scan_run_found_bound:
  "found < count \<Longrightarrow> scan_run used count xs found = Inr f \<Longrightarrow> f < count"
proof (induction xs arbitrary: found)
  case (Cons x xs)
  then consider "used x" | "\<not> used x" "Suc found < count" by (auto split: if_splits)
  then show ?case using Cons by cases auto
qed simp

lemma scan_run_found_le: "scan_run used count xs found = Inr f \<Longrightarrow> f \<le> found + length xs"
  by (induction xs arbitrary: found) (fastforce split: if_splits)+

lemma scan_run_spec:
  assumes "found < count" and "found \<le> m" and "m \<le> N"
    and "\<And>i. m - found \<le> i \<Longrightarrow> i < m \<Longrightarrow> \<not> used i"
  shows "case scan_run used count [m..<N] found of
           Inl r \<Rightarrow> r + count \<le> N \<and> (\<forall>i. r \<le> i \<and> i < r + count \<longrightarrow> \<not> used i)
         | Inr f \<Rightarrow> \<forall>s. m - found \<le> s \<and> s + count \<le> N \<longrightarrow> (\<exists>i. s \<le> i \<and> i < s + count \<and> used i)"
  using assms
proof (induction "N - m" arbitrary: m found)
  case 0
  then show ?case by auto
next
  case (Suc d)
  then have "m < N" by simp
  then have upt: "[m..<N] = m # [Suc m..<N]" by (simp add: upt_conv_Cons)
  show ?case
  proof (cases "used m")
    case True
    have hit: "\<exists>i. s \<le> i \<and> i < s + count \<and> used i" if "m - found \<le> s" "s \<le> m" for s
      using that True Suc.prems(1,2) by (intro exI [of _ m]) auto
    have "case scan_run used count [Suc m..<N] 0 of
           Inl r \<Rightarrow> r + count \<le> N \<and> (\<forall>i. r \<le> i \<and> i < r + count \<longrightarrow> \<not> used i)
         | Inr f \<Rightarrow> \<forall>s. Suc m - 0 \<le> s \<and> s + count \<le> N \<longrightarrow> (\<exists>i. s \<le> i \<and> i < s + count \<and> used i)"
      using Suc.hyps(2) Suc.prems(1) \<open>m < N\<close> by (intro Suc.hyps(1)) auto
    with True upt hit show ?thesis
      by (auto split: sum.splits) (metis not_less_eq_eq)
  next
    case False
    have run: "\<not> used i" if "m - found \<le> i" "i < Suc m" for i
      using that False Suc.prems(4) by (cases "i = m") auto
    show ?thesis
    proof (cases "Suc found = count")
      case True
      with False upt run \<open>m < N\<close> Suc.prems(2) show ?thesis by auto
    next
      case False': False
      have "case scan_run used count [Suc m..<N] (Suc found) of
           Inl r \<Rightarrow> r + count \<le> N \<and> (\<forall>i. r \<le> i \<and> i < r + count \<longrightarrow> \<not> used i)
         | Inr f \<Rightarrow> \<forall>s. Suc m - Suc found \<le> s \<and> s + count \<le> N \<longrightarrow>
                       (\<exists>i. s \<le> i \<and> i < s + count \<and> used i)"
        using Suc.hyps(2) Suc.prems(1,2) \<open>m < N\<close> False' run by (intro Suc.hyps(1)) auto
      with False False' upt show ?thesis by (auto split: sum.splits)
    qed
  qed
qed

lemma find_free_bits_byte_eq:
  assumes "bitmap_wf a" and "8 * unat byte + 8 \<le> capacity a" and "k \<le> 8" and "found < count"
    and "unat found \<le> 8 * unat byte + unat k"
  shows "find_free_bits_byte count byte k found a =
           map_sum word_of_nat word_of_nat
             (scan_run (page_used a) (unat count)
               [8 * unat byte + unat k..<8 * unat byte + 8] (unat found))"
  using assms
proof (induction count byte k found a rule: find_free_bits_byte.induct)
  case (1 count byte k found a)
  show ?case
  proof (cases "k < 8")
    case False
    with "1.prems"(3) have "k = 8" by simp
    then show ?thesis by (subst find_free_bits_byte.simps) simp
  next
    case True
    have cap: "capacity a < 2 ^ 32" using "1.prems"(1) by (simp add: bitmap_wf_def)
    have k: "unat k < 8" using True by (simp add: word_less_nat_alt)
    have idx: "unat (byte * 8 + k) = 8 * unat byte + unat k"
      using "1.prems"(2) cap k by (simp add: unat_word_ariths)
    have test: "bitmap_test_bit (byte * 8 + k) a = page_used a (8 * unat byte + unat k)"
      using "1.prems"(1,2) k idx by (simp add: test_bit_iff)
    have upt: "[8 * unat byte + unat k..<8 * unat byte + 8] =
        (8 * unat byte + unat k) # [8 * unat byte + unat (k + 1)..<8 * unat byte + 8]"
      using k True by (simp add: upt_conv_Cons unat_inc_less)
    have inc: "k + 1 \<le> 8" using True by (simp add: unat_inc_le)
    have uf: "unat (found + 1) = Suc (unat found)" using "1.prems"(4) by (rule unat_inc_less)
    have eq: "found + 1 = count \<longleftrightarrow> Suc (unat found) = unat count"
      using uf by (metis word_unat_eq_iff)
    have pos: "0 < count" using "1.prems"(4) by (auto simp: word_less_nat_alt)
    have start: "byte * 8 + k + 1 - count = word_of_nat (Suc (8 * unat byte + unat k) - unat count)"
      if "unat count \<le> Suc (8 * unat byte + unat k)"
      using that by (simp add: of_nat_diff mult.commute)
    have IH1: "page_used a (8 * unat byte + unat k) \<Longrightarrow> ?thesis"
      using "1.IH"(1) True test "1.prems" inc pos upt
      by (simp add: find_free_bits_byte.simps [of count byte k found a])
    have IH2: "\<lbrakk>\<not> page_used a (8 * unat byte + unat k); found + 1 \<noteq> count\<rbrakk> \<Longrightarrow> ?thesis"
      using "1.IH"(2) True test "1.prems" inc upt uf eq unat_inc_le [OF "1.prems"(4)]
      by (simp add: unat_inc_less [OF True] find_free_bits_byte.simps [of count byte k found a])
    have "?thesis" if "\<not> page_used a (8 * unat byte + unat k)" "found + 1 = count"
      using that True test upt eq start "1.prems"(5)
      by (simp add: find_free_bits_byte.simps [of count byte k found a])
    with IH1 IH2 show ?thesis by blast
  qed
qed

lemma find_free_bits_from_eq:
  assumes "bitmap_wf a" and "byte \<le> bm_size a" and "found < count" and "unat found \<le> 8 * unat byte"
  shows "find_free_bits_from count byte found a =
           (case scan_run (page_used a) (unat count) [8 * unat byte..<capacity a] (unat found) of
              Inl r \<Rightarrow> word_of_nat r
            | Inr f \<Rightarrow> NOT_FOUND)"
  using assms
proof (induction count byte found a rule: find_free_bits_from.induct)
  case (1 count byte found a)
  show ?case
  proof (cases "byte < bm_size a")
    case False
    with "1.prems"(2) have "byte = bm_size a" by simp
    then show ?thesis
      by (subst find_free_bits_from.simps) (simp add: capacity_def)
  next
    case True
    let ?b = "8 * unat byte"
    let ?scan = "scan_run (page_used a) (unat count)"
    have inc: "unat (byte + 1) = Suc (unat byte)" "byte + 1 \<le> bm_size a"
      using True by (simp_all add: unat_inc_less unat_inc_le)
    have cap: "?b + 8 \<le> capacity a" using True by (simp add: capacity_def word_less_nat_alt)
    have pos: "0 < count" using "1.prems"(3) by (auto simp: word_less_nat_alt)
    have "[?b..<capacity a] = [?b..<?b + 8] @ [8 * unat (byte + 1)..<capacity a]"
    proof -
      obtain c where "capacity a = (?b + 8) + c" using le_Suc_ex [OF cap] by blast
      moreover have "8 * unat (byte + 1) = ?b + 8" using inc(1) by simp
      ultimately show ?thesis by (simp only: upt_add_eq_append [OF le_add1])
    qed
    then have split: "?scan [?b..<capacity a] (unat found) =
        (case ?scan [?b..<?b + 8] (unat found) of
           Inl r \<Rightarrow> Inl r | Inr f \<Rightarrow> ?scan [8 * unat (byte + 1)..<capacity a] f)"
      by (simp add: scan_run_append)
    show ?thesis
    proof (cases "bits a ! unat byte = 0xFF")
      case full: True
      then have "?scan [?b..<?b + 8] (unat found) = Inr 0"
        by (intro scan_run_all_used) (auto simp: byte_full_pages)
      moreover have "find_free_bits_from count byte found a = find_free_bits_from count (byte + 1) 0 a"
        using True full by (simp add: find_free_bits_from.simps [of count byte found a])
      ultimately show ?thesis
        using "1.IH"(1) True full "1.prems" inc pos split by simp
    next
      case free: False
      have inner: "find_free_bits_byte count byte 0 found a =
          map_sum word_of_nat word_of_nat (?scan [?b..<?b + 8] (unat found))"
        using find_free_bits_byte_eq [of a byte 0 found count] "1.prems" cap by simp
      show ?thesis
      proof (cases "?scan [?b..<?b + 8] (unat found)")
        case (Inl r)
        with True free inner split show ?thesis
          by (simp add: find_free_bits_from.simps [of count byte found a])
      next
        case (Inr f)
        have f: "f < unat count" "f \<le> 8 * unat (byte + 1)"
          using Inr "1.prems"(3,4) inc scan_run_found_bound [OF _ Inr] scan_run_found_le [OF Inr]
          by (auto simp: word_less_nat_alt)
        then have uf: "unat (word_of_nat f :: u32) = f"
          by (simp add: unat_of_nat order.strict_trans [OF _ unat_lt(3)])
        with True free inner split Inr f "1.IH"(2) "1.prems" inc show ?thesis
          by (simp add: find_free_bits_from.simps [of count byte found a] word_less_nat_alt)
      qed
    qed
  qed
qed

text \<open>
  What the multi-page search promises: a start of \<open>count\<close> consecutive clear bits inside the
  bitmap, or "not found" exactly when there is no such run.
\<close>

lemma bitmap_find_free_bits_spec:
  assumes "bitmap_wf a" and "0 < count" and "r = bitmap_find_free_bits count a"
  shows "r = NOT_FOUND \<longleftrightarrow>
           \<not> (\<exists>s. s + unat count \<le> capacity a \<and> (\<forall>i. s \<le> i \<and> i < s + unat count \<longrightarrow> \<not> page_used a i))"
    and "r \<noteq> NOT_FOUND \<Longrightarrow> unat r + unat count \<le> capacity a \<and>
           (\<forall>i. unat r \<le> i \<and> i < unat r + unat count \<longrightarrow> \<not> page_used a i)"
proof -
  let ?scan = "scan_run (page_used a) (unat count) [0..<capacity a] 0"
  have cap: "capacity a < 2 ^ 32" using assms(1) by (simp add: bitmap_wf_def)
  have pos: "0 < unat count" using assms(2) by (simp add: word_less_nat_alt)
  have r: "r = (case ?scan of Inl r \<Rightarrow> word_of_nat r | Inr f \<Rightarrow> NOT_FOUND)"
    using find_free_bits_from_eq [of a 0 0 count] assms
    by (simp add: bitmap_find_free_bits_def)
  have spec: "case ?scan of
        Inl r \<Rightarrow> r + unat count \<le> capacity a \<and> (\<forall>i. r \<le> i \<and> i < r + unat count \<longrightarrow> \<not> page_used a i)
      | Inr f \<Rightarrow> \<forall>s. 0 - 0 \<le> s \<and> s + unat count \<le> capacity a \<longrightarrow>
                    (\<exists>i. s \<le> i \<and> i < s + unat count \<and> page_used a i)"
    using pos by (intro scan_run_spec) auto
  have found: "unat r = n \<and> r \<noteq> NOT_FOUND" if "?scan = Inl n" for n
  proof -
    have "n < capacity a" using that spec pos by auto
    then have n: "n < 2 ^ 32 - 1" using cap by simp
    have "unat r = n" using that r n by (simp add: unat_of_nat)
    with n show ?thesis using unat_NOT_FOUND by auto
  qed
  show "r = NOT_FOUND \<longleftrightarrow>
         \<not> (\<exists>s. s + unat count \<le> capacity a \<and> (\<forall>i. s \<le> i \<and> i < s + unat count \<longrightarrow> \<not> page_used a i))"
    using spec found r by (cases ?scan) auto
  show "r \<noteq> NOT_FOUND \<Longrightarrow> unat r + unat count \<le> capacity a \<and>
         (\<forall>i. unat r \<le> i \<and> i < unat r + unat count \<longrightarrow> \<not> page_used a i)"
    using spec found r by (cases ?scan) auto
qed

section \<open>Allocation and release\<close>

text \<open>
  Every operation of the allocator turns a set \<open>S\<close> of free pages into used ones, or the converse,
  and moves the counters by the size of \<open>S\<close>; these two lemmas carry the invariant over.
\<close>

lemma pmm_inv_allocate:
  assumes inv: "pmm_inv a" and wf: "bitmap_wf b"
    and same: "capacity b = capacity a" "total_pages b = total_pages a"
    and used: "\<And>n. n < capacity a \<Longrightarrow> page_used b n \<longleftrightarrow> page_used a n \<or> n \<in> S"
    and S: "S \<subseteq> free_frames a"
    and counters: "unat (free_pages b) + card S = unat (free_pages a)"
      "unat (used_pages b) = unat (used_pages a) + card S"
  shows "free_frames b = free_frames a - S" and "pmm_inv b"
proof -
  have fin: "finite S" using S by (rule finite_subset) simp
  show free: "free_frames b = free_frames a - S"
    using inv same used unfolding free_frames_def pmm_inv_def by fastforce
  have "card (free_frames b) = card (free_frames a) - card S"
    using fin S by (simp add: free card_Diff_subset)
  with inv wf same used counters S show "pmm_inv b"
    unfolding pmm_inv_def free_frames_def by auto
qed

lemma pmm_inv_release:
  assumes inv: "pmm_inv a" and wf: "bitmap_wf b"
    and same: "capacity b = capacity a" "total_pages b = total_pages a"
    and used: "\<And>n. n < capacity a \<Longrightarrow> page_used b n \<longleftrightarrow> page_used a n \<and> n \<noteq> m"
    and m: "0 < m" "m < unat (total_pages a)" "page_used a m"
    and counters: "unat (free_pages b) = Suc (unat (free_pages a))"
      "Suc (unat (used_pages b)) = unat (used_pages a)"
  shows "free_frames b = insert m (free_frames a)" and "pmm_inv b"
proof -
  show free: "free_frames b = insert m (free_frames a)"
    using inv same used m unfolding free_frames_def pmm_inv_def by fastforce
  have "m \<notin> free_frames a" using m by (simp add: free_frames_def)
  then have "card (free_frames b) = Suc (card (free_frames a))" by (simp add: free)
  with inv wf same used counters m show "pmm_inv b"
    unfolding pmm_inv_def by auto
qed

lemma pmm_inv_facts:
  assumes "pmm_inv a"
  shows "bitmap_wf a" "unat (total_pages a) \<le> capacity a" "unat (total_pages a) \<le> 2 ^ 20"
    "capacity a < 2 ^ 32" "unat (free_pages a) = card (free_frames a)"
    "n < capacity a \<Longrightarrow> \<not> page_used a n \<Longrightarrow> n \<in> free_frames a \<and> 0 < n"
    "n \<in> free_frames a \<Longrightarrow> 0 < n \<and> n < unat (total_pages a) \<and> n < 2 ^ 20"
    "unat (used_pages a) + unat (free_pages a) = unat (total_pages a)"
proof -
  show facts: "bitmap_wf a" "unat (total_pages a) \<le> capacity a" "unat (total_pages a) \<le> 2 ^ 20"
    "capacity a < 2 ^ 32" "unat (free_pages a) = card (free_frames a)"
    "unat (used_pages a) + unat (free_pages a) = unat (total_pages a)"
    using assms by (auto simp: pmm_inv_def bitmap_wf_def)
  show "n < capacity a \<Longrightarrow> \<not> page_used a n \<Longrightarrow> n \<in> free_frames a \<and> 0 < n"
    using assms unfolding pmm_inv_def free_frames_def by (cases n) (auto, metis not_le)
  show "n \<in> free_frames a \<Longrightarrow> 0 < n \<and> n < unat (total_pages a) \<and> n < 2 ^ 20"
    using assms facts(2,3) unfolding pmm_inv_def free_frames_def by (cases n) auto
qed

lemma unat_page_addr: "unat n < 2 ^ 20 \<Longrightarrow> unat (n * PAGE_SIZE :: u32) = unat n * 4096"
  by (simp add: unat_word_ariths)

lemma pmm_alloc_page_cases:
  assumes inv: "pmm_inv a" and ret: "pmm_alloc_page a = (p, a')"
  obtains (fail) "p = 0" "a' = a" "free_frames a = {}"
  | (ok) n where "n \<in> free_frames a" "\<And>m. m \<in> free_frames a \<Longrightarrow> n \<le> m" "p \<noteq> 0"
      "unat p = n * 4096" "free_frames a' = free_frames a - {n}" "pmm_inv a'"
      "total_pages a' = total_pages a"
proof (cases "free_frames a = {}")
  case True
  then have "free_pages a = 0" using pmm_inv_facts(5) [OF inv] by (simp add: unat_eq_zero)
  with ret True fail show ?thesis by (simp add: pmm_alloc_page_def)
next
  case False
  note facts = pmm_inv_facts [OF inv]
  have fp: "free_pages a \<noteq> 0" using False facts(5) by (auto simp: card_gt_0_iff)
  let ?r = "bitmap_find_free_bit a"
  obtain m where "m \<in> free_frames a" using False by blast
  then have "m < capacity a" "\<not> page_used a m"
    using facts(2) by (auto simp: free_frames_def)
  then have nf: "?r \<noteq> NOT_FOUND" using bitmap_find_free_bit_spec(1) [OF facts(1)] by blast
  then have r: "unat ?r < capacity a" "\<not> page_used a (unat ?r)" "\<And>n. n < unat ?r \<Longrightarrow> page_used a n"
    using bitmap_find_free_bit_spec(2) [OF facts(1) refl] by blast+
  then have free: "unat ?r \<in> free_frames a" using facts(6) by blast
  let ?a1 = "bitmap_set_bit ?r a"
  have eq: "p = ?r * PAGE_SIZE"
      "a' = ?a1\<lparr>free_pages := free_pages a - 1, used_pages := used_pages a + 1\<rparr>"
    using ret fp nf by (simp_all add: pmm_alloc_page_def Let_def)
  have lt: "0 < unat ?r" "unat ?r < 2 ^ 20" using facts(7) [OF free] by simp_all
  then have p: "unat p = unat ?r * 4096" using eq(1) by (simp add: unat_page_addr)
  have counters: "unat (free_pages a') + card {unat ?r} = unat (free_pages a)"
      "unat (used_pages a') = unat (used_pages a) + card {unat ?r}"
    using eq(2) fp facts(3,8) by (auto simp: unat_word_ariths unat_minus_one unat_gt_0)
  have "free_frames a' = free_frames a - {unat ?r}" "pmm_inv a'"
    using free counters facts(1) eq(2)
    by (intro pmm_inv_allocate [OF inv, where S = "{unat ?r}"]; simp add: page_used_set_bit)+
  with free r(3) p lt eq(2) show ?thesis
    by (intro ok [of "unat ?r"]) (auto simp: free_frames_def not_less [symmetric])
qed

text \<open>\<open>same_shape\<close>: what no bit or counter operation touches.\<close>

definition same_shape :: "'a pmm_scheme \<Rightarrow> 'a pmm_scheme \<Rightarrow> bool" where
  "same_shape a b \<longleftrightarrow> bm_size b = bm_size a \<and> total_pages b = total_pages a \<and>
     bits_addr b = bits_addr a \<and> pmm.more b = pmm.more a \<and> length (bits b) = length (bits a)"

lemma same_shape_refl [simp]: "same_shape a a"
  by (simp add: same_shape_def)

lemma same_shape_trans: "same_shape a b \<Longrightarrow> same_shape b c \<Longrightarrow> same_shape a c"
  by (simp add: same_shape_def)

lemma same_shape_eqs:
  "same_shape a b \<Longrightarrow> capacity b = capacity a" "same_shape a b \<Longrightarrow> total_pages b = total_pages a"
  "same_shape a b \<Longrightarrow> bitmap_wf b = bitmap_wf a"
  by (simp_all add: same_shape_def capacity_def bitmap_wf_def)

lemma same_shape_bit [simp]:
  "same_shape a (bitmap_set_bit k b) = same_shape a b"
  "same_shape a (bitmap_clear_bit k b) = same_shape a b"
  "same_shape a (b\<lparr>free_pages := f, used_pages := u\<rparr>) = same_shape a b"
  "same_shape a (b\<lparr>used_pages := u, free_pages := f\<rparr>) = same_shape a b"
  by (simp_all add: same_shape_def)

lemma set_bits_loop:
  fixes s count :: u32
  assumes wf: "bitmap_wf a" and room: "unat s + unat count \<le> capacity a"
  defines "b \<equiv> for_loop 0 count (\<lambda>i. bitmap_set_bit (s + i)) a"
  shows "same_shape a b" "free_pages b = free_pages a" "used_pages b = used_pages a"
    "\<And>n. n < capacity a \<Longrightarrow>
       page_used b n \<longleftrightarrow> page_used a n \<or> n \<in> {unat s..<unat s + unat count}"
proof -
  let ?P = "\<lambda>k b. same_shape a b \<and> free_pages b = free_pages a \<and> used_pages b = used_pages a \<and>
     (\<forall>n < capacity a. page_used b n \<longleftrightarrow> page_used a n \<or> n \<in> {unat s..<unat s + k})"
  have "?P (unat count) b"
    unfolding b_def
  proof (rule for_loop_counting [where P = ?P])
    fix i st assume P: "?P (unat i) st" and "i < count"
    then have "unat (s + i) = unat s + unat i"
      using room wf by (auto simp: unat_word_ariths word_less_nat_alt bitmap_wf_def)
    with P wf show "?P (Suc (unat i)) (bitmap_set_bit (s + i) st)"
      by (auto simp: page_used_set_bit same_shape_eqs)
  qed auto
  then show "same_shape a b" "free_pages b = free_pages a" "used_pages b = used_pages a"
    "\<And>n. n < capacity a \<Longrightarrow> page_used b n \<longleftrightarrow> page_used a n \<or> n \<in> {unat s..<unat s + unat count}"
    by blast+
qed

lemma pmm_alloc_pages_cases:
  assumes inv: "pmm_inv a" and ret: "pmm_alloc_pages count a = (p, a')"
  obtains (fail) "p = 0" "a' = a"
      "count = 0 \<or> \<not> (\<exists>s. {s..<s + unat count} \<subseteq> free_frames a)"
  | (ok) n where "0 < count" "{n..<n + unat count} \<subseteq> free_frames a" "p \<noteq> 0" "unat p = n * 4096"
      "free_frames a' = free_frames a - {n..<n + unat count}" "pmm_inv a'"
      "total_pages a' = total_pages a"
proof -
  note facts = pmm_inv_facts [OF inv]
  let ?r = "bitmap_find_free_bits count a"
  let ?S = "{unat ?r..<unat ?r + unat count}"
  show thesis
  proof (cases "count = 0")
    case True
    with ret fail show thesis by (auto simp: pmm_alloc_pages_def bitmap_find_free_bits_def)
  next
    case False
    then have pos: "0 < count" "0 < unat count" by (auto simp: word_neq_0_conv unat_gt_0)
    note spec = bitmap_find_free_bits_spec [OF facts(1) pos(1) refl]
    have run: "s + unat count \<le> capacity a \<and> (\<forall>i. s \<le> i \<and> i < s + unat count \<longrightarrow> \<not> page_used a i)"
      if "{s..<s + unat count} \<subseteq> free_frames a" for s
    proof -
      have "s + unat count - 1 \<in> free_frames a" using that pos by auto
      with that facts(2) show ?thesis by (auto simp: free_frames_def subset_iff)
    qed
    show thesis
    proof (cases "free_pages a < count \<or> ?r = NOT_FOUND")
      case True
      have "\<not> {s..<s + unat count} \<subseteq> free_frames a" for s
      proof
        assume sub: "{s..<s + unat count} \<subseteq> free_frames a"
        then have "unat count \<le> card (free_frames a)"
          using card_mono [OF finite_free_frames sub] by simp
        with facts(5) have "count \<le> free_pages a" by (simp add: word_le_nat_alt)
        with True have "?r = NOT_FOUND" by (auto dest: leD)
        with spec(1) run [OF sub] show False by blast
      qed
      with True ret fail show thesis by (auto simp: pmm_alloc_pages_def Let_def split: if_splits)
    next
      case False
      let ?b = "for_loop 0 count (\<lambda>i. bitmap_set_bit (?r + i)) a"
      have r: "unat ?r + unat count \<le> capacity a" "\<And>i. i \<in> ?S \<Longrightarrow> \<not> page_used a i"
        using spec(2) False by auto
      note loop = set_bits_loop [OF facts(1) r(1)]
      have sub: "?S \<subseteq> free_frames a" using r facts(6) by fastforce
      have "unat ?r \<in> free_frames a" using sub pos(2) by auto
      then have lt: "0 < unat ?r" "unat ?r < 2 ^ 20" using facts(7) by blast+
      have eq: "p = ?r * PAGE_SIZE"
          "a' = ?b\<lparr>free_pages := free_pages a - count, used_pages := used_pages a + count\<rparr>"
        using ret False loop(2,3) by (simp_all add: pmm_alloc_pages_def Let_def)
      have p: "unat p = unat ?r * 4096" using eq(1) lt by (simp add: unat_page_addr)
      have le: "unat count \<le> unat (free_pages a)" using False by (auto simp: word_le_nat_alt not_less)
      then have counters: "unat (free_pages a') + card ?S = unat (free_pages a)"
          "unat (used_pages a') = unat (used_pages a) + card ?S"
        using eq(2) facts(3,8) by (auto simp: unat_word_ariths unat_sub_small)
      have "free_frames a' = free_frames a - ?S" "pmm_inv a'"
        using sub counters facts(1) loop eq(2)
        by (intro pmm_inv_allocate [OF inv, where S = ?S]; simp add: same_shape_eqs)+
      with pos sub p lt eq(2) loop(1) show thesis
        by (intro ok [of "unat ?r"]) (auto simp: same_shape_eqs)
    qed
  qed
qed

lemma mark_page_free_spec:
  assumes inv: "pmm_inv a" and b: "0 < unat b" "unat b < unat (total_pages a)"
  shows "free_frames (mark_page_free b a) = insert (unat b) (free_frames a)"
    and "pmm_inv (mark_page_free b a)" and "same_shape a (mark_page_free b a)"
proof -
  note facts = pmm_inv_facts [OF inv]
  have "free_frames (mark_page_free b a) = insert (unat b) (free_frames a) \<and>
        pmm_inv (mark_page_free b a) \<and> same_shape a (mark_page_free b a)"
  proof (cases "page_used a (unat b)")
    case False
    then have "mark_page_free b a = a" using facts(1) by (simp add: mark_page_free_def test_bit_iff)
    moreover have "unat b \<in> free_frames a" using False b by (simp add: free_frames_def)
    ultimately show ?thesis using inv by (simp add: insert_absorb)
  next
    case True
    have "free_frames a \<subseteq> {0..<unat (total_pages a)} - {unat b}"
      using True by (auto simp: free_frames_def)
    with b(2) have "free_frames a \<subset> {0..<unat (total_pages a)}" by fastforce
    then have "card (free_frames a) < unat (total_pages a)"
      using psubset_card_mono [of "{0..<unat (total_pages a)}" "free_frames a"] by simp
    then have used: "0 < unat (used_pages a)" "unat (free_pages a) < 2 ^ 20"
      using facts(3,5,8) by linarith+
    let ?b = "count_free (bitmap_clear_bit b a)"
    have eq: "mark_page_free b a = ?b"
      using True b facts by (simp add: mark_page_free_def test_bit_iff)
    have counters: "unat (free_pages ?b) = Suc (unat (free_pages a))"
        "Suc (unat (used_pages ?b)) = unat (used_pages a)"
      using used by (auto simp: count_free_def unat_word_ariths unat_gt_0 word_gt_0 unat_minus_one)
    have "free_frames ?b = insert (unat b) (free_frames a)" "pmm_inv ?b"
      using b True counters facts(1)
      by (intro pmm_inv_release [OF inv]; simp add: count_free_def page_used_clear_bit)+
    then show ?thesis using eq by (simp add: count_free_def)
  qed
  then show "free_frames (mark_page_free b a) = insert (unat b) (free_frames a)"
    and "pmm_inv (mark_page_free b a)" and "same_shape a (mark_page_free b a)"
    by blast+
qed

lemma mark_page_allocated_spec:
  assumes inv: "pmm_inv a" and b: "unat b < unat (total_pages a)"
  shows "free_frames (mark_page_allocated b a) = free_frames a - {unat b}"
    and "pmm_inv (mark_page_allocated b a)" and "same_shape a (mark_page_allocated b a)"
proof -
  note facts = pmm_inv_facts [OF inv]
  have "free_frames (mark_page_allocated b a) = free_frames a - {unat b} \<and>
        pmm_inv (mark_page_allocated b a) \<and> same_shape a (mark_page_allocated b a)"
  proof (cases "page_used a (unat b)")
    case True
    then have "mark_page_allocated b a = a"
      using facts(1,2) b by (simp add: mark_page_allocated_def test_bit_iff)
    moreover have "unat b \<notin> free_frames a" using True by (simp add: free_frames_def)
    ultimately show ?thesis using inv by simp
  next
    case False
    then have mem: "unat b \<in> free_frames a" using b by (simp add: free_frames_def)
    then have "0 < card (free_frames a)" by (auto simp: card_gt_0_iff)
    then have free: "0 < unat (free_pages a)" using facts(5) by simp
    let ?b = "count_used (bitmap_set_bit b a)"
    have eq: "mark_page_allocated b a = ?b"
      using False facts(1) by (simp add: mark_page_allocated_def test_bit_iff)
    have counters: "unat (free_pages ?b) + card {unat b} = unat (free_pages a)"
        "unat (used_pages ?b) = unat (used_pages a) + card {unat b}"
      using free facts(3,8)
      by (auto simp: count_used_def unat_word_ariths unat_gt_0 word_gt_0 unat_minus_one)
    have "free_frames ?b = free_frames a - {unat b}" "pmm_inv ?b"
      using mem counters facts(1)
      by (intro pmm_inv_allocate [OF inv, where S = "{unat b}"];
          simp add: count_used_def page_used_set_bit)+
    then show ?thesis using eq by (simp add: count_used_def)
  qed
  then show "free_frames (mark_page_allocated b a) = free_frames a - {unat b}"
    and "pmm_inv (mark_page_allocated b a)" and "same_shape a (mark_page_allocated b a)"
    by blast+
qed

text \<open>The two loops over a page range, for any range inside the managed pages.\<close>

lemma mark_pages_allocated_loop:
  fixes s e :: u32
  assumes inv: "pmm_inv a" and e: "unat e \<le> unat (total_pages a)"
  shows "free_frames (for_loop s e mark_page_allocated a) = free_frames a - {unat s..<unat e}"
    and "pmm_inv (for_loop s e mark_page_allocated a)"
    and "same_shape a (for_loop s e mark_page_allocated a)"
proof -
  let ?P = "\<lambda>k b. pmm_inv b \<and> same_shape a b \<and> free_frames b = free_frames a - {unat s..<k}"
  have "?P (unat e) (for_loop s e mark_page_allocated a)" if "s \<le> e"
  proof (rule for_loop_counting [where P = ?P, OF _ that])
    fix i b assume P: "?P (unat i) b" and i: "s \<le> i" "i < e"
    then have "unat i < unat (total_pages b)"
      using e by (auto simp: same_shape_eqs word_less_nat_alt)
    with P i show "?P (Suc (unat i)) (mark_page_allocated i b)"
      using mark_page_allocated_spec [of b i] same_shape_trans
      by (auto simp: word_le_nat_alt less_Suc_eq)
  qed (use inv in simp)
  moreover have "?P (unat e) (for_loop s e mark_page_allocated a)" if "\<not> s \<le> e"
    using that inv by (simp add: word_le_nat_alt)
  ultimately show "free_frames (for_loop s e mark_page_allocated a) = free_frames a - {unat s..<unat e}"
    and "pmm_inv (for_loop s e mark_page_allocated a)"
    and "same_shape a (for_loop s e mark_page_allocated a)"
    by blast+
qed

lemma mark_pages_free_loop:
  fixes s count :: u32
  assumes inv: "pmm_inv a" and s: "0 < unat s" and e: "unat s + unat count \<le> unat (total_pages a)"
  shows "free_frames (for_loop 0 count (\<lambda>i. mark_page_free (s + i)) a) =
           free_frames a \<union> {unat s..<unat s + unat count}"
    and "pmm_inv (for_loop 0 count (\<lambda>i. mark_page_free (s + i)) a)"
    and "same_shape a (for_loop 0 count (\<lambda>i. mark_page_free (s + i)) a)"
proof -
  let ?P = "\<lambda>k b. pmm_inv b \<and> same_shape a b \<and>
              free_frames b = free_frames a \<union> {unat s..<unat s + k}"
  have "?P (unat count) (for_loop 0 count (\<lambda>i. mark_page_free (s + i)) a)"
  proof (rule for_loop_counting [where P = ?P])
    fix i b assume P: "?P (unat i) b" and i: "i < count"
    then have si: "unat (s + i) = unat s + unat i"
      using e pmm_inv_facts(3) [OF inv] by (simp add: unat_word_ariths word_less_nat_alt)
    then have "0 < unat (s + i)" "unat (s + i) < unat (total_pages b)"
      using P i s e by (auto simp: same_shape_eqs word_less_nat_alt)
    then have "free_frames (mark_page_free (s + i) b) = insert (unat (s + i)) (free_frames b)"
      "pmm_inv (mark_page_free (s + i) b)" "same_shape b (mark_page_free (s + i) b)"
      using mark_page_free_spec P by blast+
    moreover have "{unat s..<unat s + Suc (unat i)} =
        insert (unat s + unat i) {unat s..<unat s + unat i}" by auto
    ultimately show "?P (Suc (unat i)) (mark_page_free (s + i) b)"
      using P si same_shape_trans by auto
  qed (use inv in auto)
  then show "free_frames (for_loop 0 count (\<lambda>i. mark_page_free (s + i)) a) =
           free_frames a \<union> {unat s..<unat s + unat count}"
    and "pmm_inv (for_loop 0 count (\<lambda>i. mark_page_free (s + i)) a)"
    and "same_shape a (for_loop 0 count (\<lambda>i. mark_page_free (s + i)) a)"
    by blast+
qed

section \<open>The contract of a page allocator\<close>

text \<open>
  What the clients of the allocator (page tables, heap, slabs, address spaces) rely on.
  \<open>frames s\<close> is the set of free page numbers, \<open>managed s\<close> their upper bound.
\<close>

locale page_allocator =
  fixes inv :: "'s \<Rightarrow> bool"
    and frames :: "'s \<Rightarrow> nat set"
    and managed :: "'s \<Rightarrow> nat"
    and alloc :: "'s \<Rightarrow> u32 \<times> 's"
    and release :: "u32 \<Rightarrow> 's \<Rightarrow> 's"
  assumes frames_bound: "\<lbrakk>inv s; n \<in> frames s\<rbrakk> \<Longrightarrow> 0 < n \<and> n < managed s \<and> n < 2 ^ 20"
    and alloc_fail: "\<lbrakk>inv s; alloc s = (0, s')\<rbrakk> \<Longrightarrow> s' = s \<and> frames s = {}"
    and alloc_ok: "\<lbrakk>inv s; alloc s = (p, s'); p \<noteq> 0\<rbrakk> \<Longrightarrow>
          inv s' \<and> managed s' = managed s \<and>
          (\<exists>n \<in> frames s. unat p = n * 4096 \<and> frames s' = frames s - {n})"
    and release_ok: "\<lbrakk>inv s; 4096 \<le> unat p; unat p div 4096 < managed s\<rbrakk> \<Longrightarrow>
          inv (release p s) \<and> managed (release p s) = managed s \<and>
          frames (release p s) = insert (unat p div 4096) (frames s)"
begin

lemma alloc_inv: "inv s \<Longrightarrow> alloc s = (p, s') \<Longrightarrow> inv s'"
  by (metis alloc_fail alloc_ok)

lemma alloc_progress: "inv s \<Longrightarrow> frames s \<noteq> {} \<Longrightarrow> fst (alloc s) \<noteq> 0"
  by (metis alloc_fail prod.collapse)

lemma alloc_page_aligned:
  assumes "inv s" "alloc s = (p, s')" "p \<noteq> 0"
  shows "p AND NOT 4095 = p" "unat p div 4096 \<in> frames s" "unat p div 4096 \<notin> frames s'"
proof -
  obtain n where n: "n \<in> frames s" "unat p = n * 4096" "frames s' = frames s - {n}"
    using alloc_ok [OF assms] by blast
  then show "unat p div 4096 \<in> frames s" "unat p div 4096 \<notin> frames s'" by simp_all
  show "p AND NOT 4095 = p" using n(2) by (simp only: word_unat_eq_iff unat_page_base) simp
qed

text \<open>Two pages that are handed out one after the other are different pages.\<close>

lemma alloc_twice_distinct:
  assumes "inv s" "alloc s = (p, s1)" "alloc s1 = (q, s2)" "p \<noteq> 0" "q \<noteq> 0"
  shows "unat p div 4096 \<noteq> unat q div 4096"
  using alloc_page_aligned [OF assms(1,2,4)]
    alloc_page_aligned [OF alloc_inv [OF assms(1,2)] assms(3,5)] by metis

text \<open>Giving a page back restores the free set.\<close>

lemma alloc_release:
  assumes "inv s" "alloc s = (p, s')" "p \<noteq> 0"
  shows "frames (release p s') = frames s" "inv (release p s')"
proof -
  obtain n where n: "n \<in> frames s" "unat p = n * 4096" "frames s' = frames s - {n}"
      "inv s'" "managed s' = managed s"
    using alloc_ok [OF assms] by blast
  moreover have "0 < n" "n < managed s'" using frames_bound [OF assms(1) n(1)] n(5) by auto
  ultimately show "frames (release p s') = frames s" "inv (release p s')"
    using release_ok [of s' p] by auto
qed

end

lemma pmm_free_page_spec:
  assumes "pmm_inv a" and "4096 \<le> unat p" and "unat p div 4096 < unat (total_pages a)"
  shows "pmm_inv (pmm_free_page p a) \<and> total_pages (pmm_free_page p a) = total_pages a \<and>
         free_frames (pmm_free_page p a) = insert (unat p div 4096) (free_frames a)"
proof -
  have p: "unat (p div 4096) = unat p div 4096" "p \<noteq> 0"
    using assms(2) by (auto simp: unat_div_distrib)
  then have "0 < unat (p div 4096)" "unat (p div 4096) < unat (total_pages a)"
    using assms(2,3) by auto
  from mark_page_free_spec [OF assms(1) this] p show ?thesis
    by (simp add: pmm_free_page_def same_shape_eqs)
qed

interpretation pmm: page_allocator pmm_inv free_frames "\<lambda>a. unat (total_pages a)"
  pmm_alloc_page pmm_free_page
proof unfold_locales
  fix s :: "'a pmm_scheme" and n
  show "\<lbrakk>pmm_inv s; n \<in> free_frames s\<rbrakk> \<Longrightarrow> 0 < n \<and> n < unat (total_pages s) \<and> n < 2 ^ 20"
    by (rule pmm_inv_facts(7))
next
  fix s s' :: "'a pmm_scheme"
  assume "pmm_inv s" "pmm_alloc_page s = (0, s')"
  then show "s' = s \<and> free_frames s = {}" by (rule pmm_alloc_page_cases) auto
next
  fix s s' :: "'a pmm_scheme" and p
  assume "pmm_inv s" "pmm_alloc_page s = (p, s')" "p \<noteq> 0"
  then show "pmm_inv s' \<and> unat (total_pages s') = unat (total_pages s) \<and>
     (\<exists>n \<in> free_frames s. unat p = n * 4096 \<and> free_frames s' = free_frames s - {n})"
    using pmm_alloc_page_cases [of s p s'] by metis
next
  fix s :: "'a pmm_scheme" and p :: u32
  assume "pmm_inv s" "4096 \<le> unat p" "unat p div 4096 < unat (total_pages s)"
  then show "pmm_inv (pmm_free_page p s) \<and>
     unat (total_pages (pmm_free_page p s)) = unat (total_pages s) \<and>
     free_frames (pmm_free_page p s) = insert (unat p div 4096) (free_frames s)"
    using pmm_free_page_spec [of s p] by simp
qed

lemma pmm_free_pages_spec:
  assumes inv: "pmm_inv a" and p: "4096 \<le> unat p" "unat p mod 4096 = 0"
    and room: "unat p div 4096 + unat count \<le> unat (total_pages a)"
  shows "pmm_inv (pmm_free_pages p count a)"
    and "free_frames (pmm_free_pages p count a) =
           free_frames a \<union> {unat p div 4096..<unat p div 4096 + unat count}"
proof -
  have s: "unat (p div 4096) = unat p div 4096" "p \<noteq> 0"
    using p(1) by (auto simp: unat_div_distrib)
  then have "0 < unat (p div 4096)" "unat (p div 4096) + unat count \<le> unat (total_pages a)"
    using p(1) room by auto
  note loop = mark_pages_free_loop [OF inv this]
  show "pmm_inv (pmm_free_pages p count a)"
    "free_frames (pmm_free_pages p count a) =
       free_frames a \<union> {unat p div 4096..<unat p div 4096 + unat count}"
    using loop s inv by (auto simp: pmm_free_pages_def Let_def)
qed

section \<open>Clients of the allocator\<close>

text \<open>
  Any sequence of calls, with the set \<open>S\<close> of the pages the callers hold: a page is only given back
  by a caller that holds it.
\<close>

inductive client_step :: "pmm \<times> nat set \<Rightarrow> pmm \<times> nat set \<Rightarrow> bool" where
  alloc: "\<lbrakk>pmm_alloc_page a = (p, a'); p \<noteq> 0\<rbrakk> \<Longrightarrow>
            client_step (a, S) (a', insert (unat p div 4096) S)"
| alloc_run: "\<lbrakk>pmm_alloc_pages count a = (p, a'); p \<noteq> 0\<rbrakk> \<Longrightarrow>
            client_step (a, S) (a', S \<union> {unat p div 4096..<unat p div 4096 + unat count})"
| no_page: "pmm_alloc_page a = (0, a') \<Longrightarrow> client_step (a, S) (a', S)"
| no_run: "pmm_alloc_pages count a = (0, a') \<Longrightarrow> client_step (a, S) (a', S)"
| release: "\<lbrakk>n \<in> S; unat p = n * 4096\<rbrakk> \<Longrightarrow> client_step (a, S) (pmm_free_page p a, S - {n})"

inductive_cases client_stepE: "client_step (a, S) s'"

text \<open>Free pages and held pages are disjoint, and together they are always the same pages.\<close>

definition client_inv :: "nat set \<Rightarrow> pmm \<times> nat set \<Rightarrow> bool" where
  "client_inv F s \<longleftrightarrow> (case s of (a, S) \<Rightarrow>
     pmm_inv a \<and> S \<inter> free_frames a = {} \<and> S \<union> free_frames a = F \<and> (\<forall>n \<in> F. 0 < n \<and> n < unat (total_pages a)))"

lemma client_step_inv:
  assumes "client_step s s'" and "client_inv F s"
  shows "client_inv F s'"
  using assms
proof (induction rule: client_step.induct)
  case (alloc a p a' S)
  then have inv: "pmm_inv a" by (simp add: client_inv_def)
  from inv alloc(1) show ?case
    by (cases rule: pmm_alloc_page_cases) (use alloc in \<open>auto simp: client_inv_def\<close>)
next
  case (alloc_run count a p a' S)
  then have inv: "pmm_inv a" by (simp add: client_inv_def)
  from inv alloc_run(1) show ?case
  proof (cases rule: pmm_alloc_pages_cases)
    case fail
    with alloc_run(2) show ?thesis by simp
  next
    case (ok n)
    then have "unat p div 4096 = n" by simp
    with ok alloc_run(3) show ?thesis by (auto simp: client_inv_def)
  qed
next
  case (no_page a a' S)
  then have inv: "pmm_inv a" by (simp add: client_inv_def)
  from inv no_page(1) show ?case
    by (cases rule: pmm_alloc_page_cases) (use no_page in auto)
next
  case (no_run count a a' S)
  then have inv: "pmm_inv a" by (simp add: client_inv_def)
  from inv no_run(1) show ?case
    by (cases rule: pmm_alloc_pages_cases) (use no_run in auto)
next
  case (release n S p a)
  then have inv: "pmm_inv a" and n: "0 < n" "n < unat (total_pages a)" "n \<notin> free_frames a"
    by (auto simp: client_inv_def)
  then have "4096 \<le> unat p" "unat p div 4096 < unat (total_pages a)" "unat p div 4096 = n"
    using release(2) by simp_all
  with pmm_free_page_spec [OF inv, of p] release n show ?case by (auto simp: client_inv_def)
qed

section \<open>Properties\<close>

text \<open>A small allocator, for concrete instances: 8 pages of which 0 to 2 are in use.\<close>

definition small_pmm :: pmm where
  "small_pmm = \<lparr>bits = [7], bits_addr = 0x2000, bm_size = 1, total_pages = 8, free_pages = 5, used_pages = 3\<rparr>"

lemma free_frames_list:
  "free_frames a = set (filter (\<lambda>n. \<not> page_used a n) [0..<unat (total_pages a)])"
  by (auto simp: free_frames_def)

lemma small_pmm_free: "free_frames small_pmm = {3, 4, 5, 6, 7}"
proof -
  have "filter (\<lambda>n. \<not> page_used small_pmm n) [0..<8] = [3, 4, 5, 6, 7]" by code_simp
  moreover have "unat (total_pages small_pmm) = 8" by (simp add: small_pmm_def)
  ultimately show ?thesis unfolding free_frames_list by (simp only: list.set)
qed

lemma small_pmm_inv: "pmm_inv small_pmm"
  unfolding pmm_inv_def small_pmm_free
  by (auto simp: small_pmm_def bitmap_wf_def capacity_def page_used_def)

text \<open>Property C1. No page is handed out twice and none is lost: over any sequence of
  \<^verbatim>\<open>pmm_alloc_page\<close>, \<^verbatim>\<open>pmm_alloc_pages\<close> and \<^verbatim>\<open>pmm_free_page\<close> by callers that return only pages they
  hold, the held pages and the free pages stay disjoint, together they are the pages that were free
  at the start, and the counter of free pages is exact.
\<close>

theorem no_double_allocation:
  assumes "pmm_inv a0" and "client_step\<^sup>*\<^sup>* (a0, {}) (a, S)"
  shows "pmm_inv a \<and> S \<inter> free_frames a = {} \<and> S \<union> free_frames a = free_frames a0 \<and>
         unat (pmm_get_free_pages a) = card (free_frames a)"
proof -
  have "client_inv (free_frames a0) (a0, {})"
    using assms(1) pmm_inv_facts(7) [OF assms(1)] by (simp add: client_inv_def)
  with assms(2) have "client_inv (free_frames a0) (a, S)"
    by (induction rule: rtranclp_induct) (auto intro: client_step_inv)
  then show ?thesis using pmm_inv_facts(5) by (auto simp: client_inv_def pmm_get_free_pages_def)
qed

theorem no_double_allocation_witness:
  "\<exists>a. client_step\<^sup>*\<^sup>* (small_pmm, {}) (a, {3}) \<and> free_frames a = {4, 5, 6, 7}"
proof -
  obtain p a where ret: "pmm_alloc_page small_pmm = (p, a)" by fastforce
  have "pmm_alloc_page small_pmm = (0x3000, small_pmm\<lparr>bits := [15], free_pages := 4, used_pages := 4\<rparr>)"
    by code_simp
  with ret have "client_step (small_pmm, {}) (a, {3})" using client_step.alloc [OF ret, of "{}"] by simp
  then have steps: "client_step\<^sup>*\<^sup>* (small_pmm, {}) (a, {3})" by blast
  from no_double_allocation [OF small_pmm_inv steps]
  have "{3} \<inter> free_frames a = {}" "{3} \<union> free_frames a = free_frames small_pmm"
    by simp_all
  then have "free_frames a = free_frames small_pmm - {3}" by blast
  then have "free_frames a = {4, 5, 6, 7}" by (simp add: small_pmm_free)
  with steps show ?thesis by blast
qed

text \<open>
  \<^verbatim>\<open>pmm_alloc_page\<close> returns 0, and changes nothing, exactly when no page is free; otherwise
  it takes the lowest free page.
\<close>

theorem pmm_alloc_page_lowest:
  assumes "pmm_inv a"
  shows "if free_frames a = {} then pmm_alloc_page a = (0, a)
         else \<exists>p a'. pmm_alloc_page a = (p, a') \<and> unat p = Min (free_frames a) * 4096 \<and> p \<noteq> 0 \<and>
                     free_frames a' = free_frames a - {Min (free_frames a)} \<and> pmm_inv a'"
proof -
  obtain p a' where ret: "pmm_alloc_page a = (p, a')" by fastforce
  from assms ret show ?thesis
  proof (cases rule: pmm_alloc_page_cases)
    case (ok n)
    then have "Min (free_frames a) = n" by (intro Min_eqI) auto
    with ok ret show ?thesis by auto
  qed (simp add: ret)
qed

theorem pmm_alloc_page_lowest_witness:
  "pmm_inv small_pmm \<and> (\<exists>p a'. pmm_alloc_page small_pmm = (p, a') \<and> unat p = 3 * 4096)"
  using pmm_alloc_page_lowest [OF small_pmm_inv] small_pmm_inv by (auto simp: small_pmm_free)

text \<open>Property C10. \<^verbatim>\<open>pmm_alloc_pages\<close> finds a contiguous run whenever one exists: it returns 0, and changes
  nothing, exactly when no run of \<open>count\<close> free pages exists, and otherwise allocates such a run.
\<close>

theorem pmm_alloc_pages_complete:
  assumes "pmm_inv a" and "count \<noteq> 0"
  shows "if \<exists>n. {n..<n + unat count} \<subseteq> free_frames a
         then \<exists>p a' n. pmm_alloc_pages count a = (p, a') \<and> p \<noteq> 0 \<and> unat p = n * 4096 \<and>
                {n..<n + unat count} \<subseteq> free_frames a \<and>
                free_frames a' = free_frames a - {n..<n + unat count} \<and> pmm_inv a'
         else pmm_alloc_pages count a = (0, a)"
proof -
  obtain p a' where ret: "pmm_alloc_pages count a = (p, a')" by fastforce
  from assms(1) ret show ?thesis
  proof (cases rule: pmm_alloc_pages_cases)
    case (ok n)
    with ret show ?thesis by auto
  qed (use ret assms(2) in simp)
qed

theorem pmm_alloc_pages_complete_witness:
  "\<exists>p a' n. pmm_alloc_pages 5 small_pmm = (p, a') \<and> p \<noteq> 0 \<and> unat p = n * 4096 \<and> {n..<n + 5} \<subseteq> {3, 4, 5, 6, 7}"
proof -
  have "{3..<3 + unat (5 :: u32)} \<subseteq> free_frames small_pmm" by (auto simp: small_pmm_free)
  then have "\<exists>n. {n..<n + unat (5 :: u32)} \<subseteq> free_frames small_pmm" by blast
  then show ?thesis using pmm_alloc_pages_complete [OF small_pmm_inv, of 5]
    by (simp add: small_pmm_free) blast
qed

text \<open>Property C11. The byte-skipping search of \<^verbatim>\<open>bitmap_find_free_bits\<close> gives the same answer as the plain
  scan of one page after the other that counts consecutive free pages.
\<close>

theorem bitmap_find_free_bits_scan:
  assumes "bitmap_wf a" and "count \<noteq> 0"
  shows "bitmap_find_free_bits count a =
           (case scan_run (page_used a) (unat count) [0..<capacity a] 0 of
              Inl r \<Rightarrow> word_of_nat r | Inr _ \<Rightarrow> NOT_FOUND)"
proof -
  have "0 < count" using assms(2) by (simp add: word_neq_0_conv)
  then show ?thesis using find_free_bits_from_eq [OF assms(1), of 0 0 count] assms(2)
    by (simp add: bitmap_find_free_bits_def)
qed

theorem bitmap_find_free_bits_scan_witness:
  "bitmap_find_free_bits 2 small_pmm =
     (case scan_run (page_used small_pmm) 2 [0..<8] 0 of Inl r \<Rightarrow> word_of_nat r | Inr _ \<Rightarrow> NOT_FOUND)"
proof -
  have "bitmap_wf small_pmm" by (rule pmm_inv_facts(1) [OF small_pmm_inv])
  moreover have "capacity small_pmm = 8" by (simp add: capacity_def small_pmm_def)
  ultimately show ?thesis using bitmap_find_free_bits_scan [of small_pmm 2] by simp
qed

text \<open>
  Giving back a page restores the set of free pages and the invariant:
  \<^verbatim>\<open>pmm_free_page\<close> after \<^verbatim>\<open>pmm_alloc_page\<close> is the identity on what is free.
\<close>

theorem pmm_alloc_free_roundtrip:
  assumes "pmm_inv a" and "pmm_alloc_page a = (p, a')" and "p \<noteq> 0"
  shows "free_frames (pmm_free_page p a') = free_frames a \<and> pmm_inv (pmm_free_page p a')"
  using pmm.alloc_release [OF assms] by blast

theorem pmm_alloc_free_roundtrip_witness:
  "free_frames (pmm_free_page 0x3000 (snd (pmm_alloc_page small_pmm))) = {3, 4, 5, 6, 7}"
proof -
  have "pmm_alloc_page small_pmm = (0x3000, small_pmm\<lparr>bits := [15], free_pages := 4, used_pages := 4\<rparr>)"
    by code_simp
  from pmm_alloc_free_roundtrip [OF small_pmm_inv this] this show ?thesis by (simp add: small_pmm_free)
qed

text \<open>
  What the missing checks of \<^verbatim>\<open>pmm_free_page\<close> allow: any address in page 0 but 0 itself frees
  page 0, in every state of a non-empty allocator; the next \<^verbatim>\<open>pmm_alloc_page\<close> then marks page 0 used and
  returns 0, which its callers take for "out of memory", while the counter of free pages shows pages left.
\<close>

theorem pmm_free_page_zero_page:
  assumes "pmm_inv a" and "0 < total_pages a" and "0 < unat addr" "unat addr < 4096"
  shows "\<not> pmm_inv (pmm_free_page addr a) \<and> fst (pmm_alloc_page (pmm_free_page addr a)) = 0 \<and>
         unat (pmm_get_free_pages (pmm_free_page addr a)) = Suc (card (free_frames a))"
proof -
  note facts = pmm_inv_facts [OF assms(1)]
  let ?b = "bitmap_clear_bit 0 a" and ?c = "pmm_free_page addr a"
  have cap: "0 < capacity a" using facts(2) assms(2) by (simp add: word_less_nat_alt)
  then have used: "page_used a 0" using assms(1) by (simp add: pmm_inv_def)
  have "addr div PAGE_SIZE = 0" using assms(4) by (simp add: word_unat_eq_iff unat_div_distrib)
  then have c: "?c = count_free ?b"
    using assms(3) cap used facts(1) by (auto simp: pmm_free_page_def mark_page_free_def test_bit_iff)
  have wf: "bitmap_wf ?c" "capacity ?c = capacity a" "\<not> page_used ?c 0"
    using facts(1) cap by (simp_all add: c count_free_def page_used_clear_bit)
  have "free_pages ?c = free_pages a + 1" by (simp add: c count_free_def)
  then have fp: "unat (free_pages ?c) = Suc (card (free_frames a))"
    using facts(3,5,8) by (simp add: unat_word_ariths)
  have "\<not> pmm_inv ?c" using wf cap by (auto simp: pmm_inv_def)
  moreover have "bitmap_find_free_bit ?c = 0"
    using bitmap_find_free_bit_spec [OF wf(1) refl] wf cap
    by (metis gr0I unat_eq_zero)
  then have "fst (pmm_alloc_page ?c) = 0" by (simp add: pmm_alloc_page_def Let_def)
  ultimately show ?thesis using fp by (simp add: pmm_get_free_pages_def)
qed

theorem pmm_free_page_zero_page_witness:
  "\<not> pmm_inv (pmm_free_page 0x10 small_pmm) \<and> fst (pmm_alloc_page (pmm_free_page 0x10 small_pmm)) = 0"
  using pmm_free_page_zero_page [OF small_pmm_inv, of "0x10"] by (simp add: small_pmm_def)

end
