(* ===== verification/Multiboot.thy ===== *)
theory Multiboot
  imports Prelude
begin

text \<open>
  What the boot loader hands over, \<^verbatim>\<open>src/arch/i386/multiboot.c\<close> and
  \<^verbatim>\<open>include/arch/i386/multiboot.h\<close>, and the BIOS memory map of
  \<^verbatim>\<open>src/arch/i386/e820.c\<close>.

  The records hold the fields the kernel reads. The boot loader's memory is an input: \<open>rd p\<close> is the
  memory-map entry at address \<open>p\<close>. Both walkers of the map (here and in
  \<^verbatim>\<open>pmm_init\<close>) step from an entry to the next by its own \<^verbatim>\<open>size\<close> field, in
  32-bit arithmetic, so a map with a hostile size can make them loop for ever; the walk is therefore
  a partial function whose \<open>None\<close> is "does not return".
\<close>

section \<open>Boot information\<close>

record multiboot_info =
  mb_flags :: u32
  mem_lower :: u32
  mem_upper :: u32
  mods_count :: u32
  mods_addr :: u32
  mmap_length :: u32
  mmap_addr :: u32

record mmap_entry =
  me_size :: u32
  me_addr :: u64
  me_len :: u64
  me_type :: u32

record mb_module =
  mod_start :: u32
  mod_end :: u32

abbreviation MULTIBOOT_BOOTLOADER_MAGIC :: u32 where
  "MULTIBOOT_BOOTLOADER_MAGIC \<equiv> 0x2BADB002"

abbreviation MULTIBOOT_INFO_MODS :: u32 where
  "MULTIBOOT_INFO_MODS \<equiv> 0x8"

abbreviation MULTIBOOT_INFO_MEM_MAP :: u32 where
  "MULTIBOOT_INFO_MEM_MAP \<equiv> 0x40"

abbreviation MULTIBOOT_MEMORY_AVAILABLE :: u32 where
  "MULTIBOOT_MEMORY_AVAILABLE \<equiv> 1"

text \<open>\<^verbatim>\<open>g_multiboot_magic\<close> and \<^verbatim>\<open>g_multiboot_info\<close>; \<open>None\<close> is the null pointer.\<close>

record multiboot_state =
  g_multiboot_magic :: u32
  g_multiboot_info :: "multiboot_info option"

definition multiboot_init ::
    "u32 \<Rightarrow> multiboot_info option \<Rightarrow> multiboot_state \<Rightarrow> kernel_status \<times> multiboot_state" where
  "multiboot_init magic mbi s =
     (if mbi = None then (KERNEL_INVALID_PARAM, s)
      else if magic \<noteq> MULTIBOOT_BOOTLOADER_MAGIC then (KERNEL_ERROR, s)
      else (KERNEL_OK, s\<lparr>g_multiboot_magic := magic, g_multiboot_info := mbi\<rparr>))"

definition multiboot_get_memory_size :: "multiboot_state \<Rightarrow> u32" where
  "multiboot_get_memory_size s =
     (case g_multiboot_info s of
        None \<Rightarrow> 0
      | Some mbi \<Rightarrow> if mb_flags mbi AND 1 = 0 then 0 else mem_lower mbi + mem_upper mbi)"

definition multiboot_get_info :: "multiboot_state \<Rightarrow> multiboot_info option" where
  "multiboot_get_info s = g_multiboot_info s"

section \<open>Walking the memory map\<close>

text \<open>The entries that \<^verbatim>\<open>while ((u32)mmap < mmap_addr + mmap_length)\<close> visits, in order.\<close>

partial_function (option) mmap_walk :: "(u32 \<Rightarrow> mmap_entry) \<Rightarrow> u32 \<Rightarrow> u32 \<Rightarrow> mmap_entry list option" where
  "mmap_walk rd p e =
     (if p < e
      then Option.bind (mmap_walk rd (p + me_size (rd p) + 4) e) (\<lambda>es. Some (rd p # es))
      else Some [])"

text \<open>Enough for the walk to return: no step inside the map wraps around the address space.\<close>

definition mmap_no_wrap :: "(u32 \<Rightarrow> mmap_entry) \<Rightarrow> u32 \<Rightarrow> u32 \<Rightarrow> bool" where
  "mmap_no_wrap rd s e \<longleftrightarrow> (\<forall>p. s \<le> p \<and> p < e \<longrightarrow> unat p + unat (me_size (rd p)) + 4 < 2 ^ 32)"

lemma mmap_walk_returns:
  assumes "mmap_no_wrap rd s e"
  shows "\<exists>es. mmap_walk rd s e = Some es"
  using assms
proof (induction "unat e - unat s" arbitrary: s rule: less_induct)
  case less
  show ?case
  proof (cases "s < e")
    case True
    let ?n = "s + me_size (rd s) + 4"
    have "unat s + unat (me_size (rd s)) + 4 < 2 ^ 32"
      using less.prems True by (auto simp: mmap_no_wrap_def)
    then have n: "unat ?n = unat s + unat (me_size (rd s)) + 4"
      by (simp add: unat_word_ariths)
    then have "unat e - unat ?n < unat e - unat s" using True by (simp add: word_less_nat_alt)
    moreover have "mmap_no_wrap rd ?n e"
      using less.prems n by (auto simp: mmap_no_wrap_def word_le_nat_alt)
    ultimately obtain es where "mmap_walk rd ?n e = Some es" using less.hyps by blast
    with True show ?thesis by (simp add: mmap_walk.simps [of rd s e])
  next
    case False
    then show ?thesis by (simp add: mmap_walk.simps [of rd s e])
  qed
qed

text \<open>
  Conversely, an entry whose \<^verbatim>\<open>size\<close> is \<^verbatim>\<open>0xFFFFFFFC\<close> steps to itself, and the walk
  does not return.
\<close>

lemma mmap_walk_stuck:
  assumes "me_size (rd s) = - 4" and "s < e"
  shows "mmap_walk rd s e = None"
proof (rule ccontr)
  assume "mmap_walk rd s e \<noteq> None"
  then obtain es where "mmap_walk rd s e = Some es" by auto
  moreover have "mmap_walk rd q e' = Some es \<Longrightarrow> \<not> (q = s \<and> e' = e)" for q e' es
  proof (rule mmap_walk.raw_induct [where P = "\<lambda>r q e' es. r = rd \<longrightarrow> \<not> (q = s \<and> e' = e)",
        THEN mp, of rd q e' es])
    fix f r q e' es
    assume IH: "\<And>r q e' es. f r q e' = Some es \<Longrightarrow> r = rd \<longrightarrow> \<not> (q = s \<and> e' = e)"
      and eq: "(if q < e' then Option.bind (f r (q + me_size (r q) + 4) e') (\<lambda>es. Some (r q # es))
               else Some []) = Some es"
    show "r = rd \<longrightarrow> \<not> (q = s \<and> e' = e)"
    proof (intro impI notI)
      assume "r = rd" and "q = s \<and> e' = e"
      with eq assms have "Option.bind (f rd s e) (\<lambda>es. Some (rd s # es)) = Some es" by simp
      then obtain es' where "f rd s e = Some es'" by (auto simp: bind_eq_Some_conv)
      with IH show False by blast
    qed
  qed auto
  ultimately show False by blast
qed

section \<open>The E820 memory map\<close>

abbreviation E820_MAX_ENTRIES :: nat where
  "E820_MAX_ENTRIES \<equiv> 128"

abbreviation E820_TYPE_USABLE :: u32 where
  "E820_TYPE_USABLE \<equiv> 1"

abbreviation E820_TYPE_RESERVED :: u32 where
  "E820_TYPE_RESERVED \<equiv> 2"

record e820_entry =
  base_addr :: u64
  e_length :: u64
  e_type :: u32
  e_extended :: u32

text \<open>
  \<^verbatim>\<open>g_e820_map\<close>: the list holds the first \<^verbatim>\<open>entry_count\<close> entries of the array, so
  \<^verbatim>\<open>entry_count\<close> is its length.
\<close>

type_synonym e820_map = "e820_entry list"

definition e820_reset :: "e820_map \<Rightarrow> e820_map" where
  "e820_reset m = []"

definition e820_add_entry :: "u64 \<Rightarrow> u64 \<Rightarrow> u32 \<Rightarrow> u32 \<Rightarrow> e820_map \<Rightarrow> e820_map" where
  "e820_add_entry base len ty ext m =
     (if E820_MAX_ENTRIES \<le> length m then m
      else m @ [\<lparr>base_addr = base, e_length = len, e_type = ty, e_extended = ext\<rparr>])"

definition e820_add_mmap :: "mmap_entry \<Rightarrow> e820_map \<Rightarrow> e820_map" where
  "e820_add_mmap me m =
     e820_add_entry (me_addr me) (me_len me)
       (if me_type me = 0 then E820_TYPE_RESERVED else me_type me) 0 m"

definition e820_detect_memory ::
    "(u32 \<Rightarrow> mmap_entry) \<Rightarrow> multiboot_state \<Rightarrow> e820_map \<Rightarrow> (kernel_status \<times> e820_map) option" where
  "e820_detect_memory rd s m =
     (case multiboot_get_info s of
        None \<Rightarrow> Some (KERNEL_INVALID_PARAM, m)
      | Some mbi \<Rightarrow>
          if mb_flags mbi AND MULTIBOOT_INFO_MEM_MAP = 0 then Some (KERNEL_ERROR, m)
          else Option.bind (mmap_walk rd (mmap_addr mbi) (mmap_addr mbi + mmap_length mbi))
                 (\<lambda>es. Some (KERNEL_OK, fold e820_add_mmap es (e820_reset m))))"

definition e820_init ::
    "(u32 \<Rightarrow> mmap_entry) \<Rightarrow> multiboot_state \<Rightarrow> e820_map \<Rightarrow> (kernel_status \<times> e820_map) option" where
  "e820_init rd s m = e820_detect_memory rd s m"

definition e820_get_total_usable_memory :: "e820_map \<Rightarrow> u64" where
  "e820_get_total_usable_memory m =
     fold (\<lambda>e total. if e_type e = E820_TYPE_USABLE then total + e_length e else total) m 0"

definition e820_get_highest_address :: "e820_map \<Rightarrow> u64" where
  "e820_get_highest_address m =
     fold (\<lambda>e mx. if base_addr e + e_length e > mx then base_addr e + e_length e else mx) m 0"

text \<open>The index of the entry whose address \<^verbatim>\<open>e820_find_region\<close> returns.\<close>

fun e820_find_region :: "u64 \<Rightarrow> e820_map \<Rightarrow> nat option" where
  "e820_find_region a [] = None"
| "e820_find_region a (e # m) =
     (if base_addr e \<le> a \<and> a < base_addr e + e_length e then Some 0
      else map_option Suc (e820_find_region a m))"

fun e820_usable_in :: "u64 \<Rightarrow> u64 \<Rightarrow> e820_map \<Rightarrow> bool" where
  "e820_usable_in base len [] = False"
| "e820_usable_in base len (e # m) =
     (if e_type e \<noteq> E820_TYPE_USABLE then e820_usable_in base len m
      else if base_addr e \<le> base \<and> base + len \<le> base_addr e + e_length e then True
      else e820_usable_in base len m)"

definition e820_is_usable_region :: "u64 \<Rightarrow> u64 \<Rightarrow> e820_map \<Rightarrow> bool" where
  "e820_is_usable_region base len m = (if len = 0 then False else e820_usable_in base len m)"

definition e820_type_to_string :: "u32 \<Rightarrow> string" where
  "e820_type_to_string ty =
     (if ty = 1 then ''USABLE''
      else if ty = 2 then ''RESERVED''
      else if ty = 3 then ''ACPI_RECLAIM''
      else if ty = 4 then ''ACPI_NVS''
      else if ty = 5 then ''BAD_MEMORY''
      else if ty = 7 then ''PMEM''
      else if ty = 12 then ''PRAM''
      else ''UNKNOWN'')"

text \<open>The map never outgrows its array, and holds the first 128 entries of the boot loader's map.\<close>

lemma e820_fold_add:
  assumes "length m \<le> E820_MAX_ENTRIES"
  shows "fold e820_add_mmap es m =
    m @ map (\<lambda>me. \<lparr>base_addr = me_addr me, e_length = me_len me,
                   e_type = (if me_type me = 0 then E820_TYPE_RESERVED else me_type me),
                   e_extended = 0\<rparr>)
            (take (E820_MAX_ENTRIES - length m) es)"
  using assms
proof (induction es arbitrary: m)
  case (Cons me es)
  show ?case
  proof (cases "E820_MAX_ENTRIES - length m")
    case 0
    with Cons show ?thesis by (simp add: e820_add_mmap_def e820_add_entry_def)
  next
    case (Suc k)
    then have "127 - length m = k" "length m < 128" by simp_all
    with Cons Suc show ?thesis by (simp add: e820_add_mmap_def e820_add_entry_def)
  qed
qed simp

section \<open>Properties\<close>

definition e820_of :: "mmap_entry \<Rightarrow> e820_entry" where
  "e820_of me = \<lparr>base_addr = me_addr me, e_length = me_len me,
     e_type = (if me_type me = 0 then E820_TYPE_RESERVED else me_type me), e_extended = 0\<rparr>"

text \<open>A boot loader's map with two entries of the usual size, the second usable.\<close>

definition small_map :: "u32 \<Rightarrow> mmap_entry" where
  "small_map p = (if p = 0x9000 then \<lparr>me_size = 20, me_addr = 0, me_len = 0x9F000, me_type = 2\<rparr>
                  else \<lparr>me_size = 20, me_addr = 0x100000, me_len = 0x700000, me_type = 1\<rparr>)"

definition small_mbi :: multiboot_info where
  "small_mbi = \<lparr>mb_flags = 0x40, mem_lower = 0, mem_upper = 0, mods_count = 0, mods_addr = 0,
     mmap_length = 48, mmap_addr = 0x9000\<rparr>"

lemma small_map_no_wrap: "mmap_no_wrap small_map 0x9000 0x9030"
  by (auto simp: mmap_no_wrap_def small_map_def word_le_nat_alt word_less_nat_alt)



text \<open>A memory map in which some reachable entry has size \<^verbatim>\<open>0xFFFFFFFC\<close> makes the walk step from
  the entry to itself: the detection loop does not return.
\<close>

theorem mmap_walk_diverges:
  assumes "mmap_addr mbi < mmap_addr mbi + mmap_length mbi" and "me_size (rd (mmap_addr mbi)) = 0xFFFFFFFC"
    and "multiboot_get_info s = Some mbi" and "mb_flags mbi AND MULTIBOOT_INFO_MEM_MAP \<noteq> 0"
  shows "e820_init rd s m = None"
proof -
  have "mmap_walk rd (mmap_addr mbi) (mmap_addr mbi + mmap_length mbi) = None"
    by (rule mmap_walk_stuck) (use assms in simp_all)
  with assms(3,4) show ?thesis by (simp add: e820_init_def e820_detect_memory_def)
qed

theorem mmap_walk_diverges_witness:
  "e820_init (\<lambda>_. \<lparr>me_size = 0xFFFFFFFC, me_addr = 0, me_len = 0, me_type = 1\<rparr>)
     \<lparr>g_multiboot_magic = 0, g_multiboot_info = Some small_mbi\<rparr> [] = None"
  by (rule mmap_walk_diverges [of small_mbi]) (simp_all add: small_mbi_def multiboot_get_info_def)

text \<open>
  \<^verbatim>\<open>e820_is_usable_region\<close> answers whether one usable entry contains the whole region, for
  regions and entries that end inside the 64-bit address space.
\<close>

theorem e820_is_usable_region_exact:
  assumes "unat base + unat len < 2 ^ 64"
    and "\<And>e. e \<in> set m \<Longrightarrow> unat (base_addr e) + unat (e_length e) < 2 ^ 64"
  shows "e820_is_usable_region base len m \<longleftrightarrow> len \<noteq> 0 \<and>
           (\<exists>e \<in> set m. e_type e = E820_TYPE_USABLE \<and>
              {unat base..<unat base + unat len} \<subseteq>
              {unat (base_addr e)..<unat (base_addr e) + unat (e_length e)})"
proof (cases "len = 0")
  case False
  then have pos: "0 < unat len" by (simp add: unat_gt_0)
  have contains: "base_addr e \<le> base \<and> base + len \<le> base_addr e + e_length e \<longleftrightarrow>
      {unat base..<unat base + unat len} \<subseteq> {unat (base_addr e)..<unat (base_addr e) + unat (e_length e)}"
    if "e \<in> set m" for e
  proof -
    have "unat (base_addr e + e_length e) = unat (base_addr e) + unat (e_length e)"
      "unat (base + len) = unat base + unat len"
      using assms(1) assms(2) [OF that] by (simp_all add: unat_word_ariths)
    then show ?thesis using pos by (simp add: word_le_nat_alt atLeastLessThan_subset_iff)
  qed
  have "e820_usable_in base len xs \<longleftrightarrow> (\<exists>e \<in> set xs. e_type e = E820_TYPE_USABLE \<and>
      base_addr e \<le> base \<and> base + len \<le> base_addr e + e_length e)" for xs
    by (induction xs) auto
  with contains False show ?thesis by (auto simp: e820_is_usable_region_def)
qed (simp add: e820_is_usable_region_def)

theorem e820_is_usable_region_exact_witness:
  "e820_is_usable_region 0x200000 0x1000 [e820_of (small_map 0x9018)] \<and>
   \<not> e820_is_usable_region 0x7FFFFF 2 [e820_of (small_map 0x9018)]"
  using e820_is_usable_region_exact [of "0x200000" "0x1000" "[e820_of (small_map 0x9018)]"]
    e820_is_usable_region_exact [of "0x7FFFFF" "2" "[e820_of (small_map 0x9018)]"]
  by (simp add: e820_of_def small_map_def)

end
