(* ===== verification/Pmm_Init.thy ===== *)
theory Pmm_Init
  imports Bitmap Multiboot
begin

text \<open>
  \<^verbatim>\<open>pmm_init\<close> of \<^verbatim>\<open>src/mm/bitmap.c\<close>: from the boot loader's memory map to a bitmap that
  satisfies the allocator's invariant.

  Inputs beside the boot information: \<open>rd\<close> and \<open>md\<close> read a memory-map entry and a module
  descriptor at an address, \<open>mbi_ptr\<close> is the address of the information structure, and
  \<open>kernel_end\<close> the address of the linker symbol \<^verbatim>\<open>_kernel_end\<close>.
\<close>

section \<open>Model\<close>

definition max_available :: "mmap_entry list \<Rightarrow> u64" where
  "max_available mmap =
     fold (\<lambda>me mx. if me_type me = MULTIBOOT_MEMORY_AVAILABLE
                   then (let e = me_addr me + me_len me in if e > mx then e else mx) else mx) mmap 0"

definition free_available :: "u32 \<Rightarrow> u32 \<Rightarrow> mmap_entry \<Rightarrow> 'a pmm_scheme \<Rightarrow> 'a pmm_scheme" where
  "free_available bitmap_addr sz me a =
     (if me_type me = MULTIBOOT_MEMORY_AVAILABLE \<and> 0x100000 \<le> me_addr me
      then let start_page = ucast (ALIGN_UP (me_addr me) PAGE_SIZE div PAGE_SIZE);
               end_page = ucast ((me_addr me + me_len me) div PAGE_SIZE)
           in for_loop start_page end_page
                (\<lambda>page a. let page_addr = page * PAGE_SIZE
                          in if bitmap_addr \<le> page_addr \<and> page_addr < bitmap_addr + sz then a
                             else mark_page_free page a) a
      else a)"

definition reserve_modules :: "(u32 \<Rightarrow> mb_module) \<Rightarrow> multiboot_info \<Rightarrow> 'a pmm_scheme \<Rightarrow> 'a pmm_scheme" where
  "reserve_modules md mb a =
     (if mb_flags mb AND MULTIBOOT_INFO_MODS \<noteq> 0
      then for_loop 0 (mods_count mb)
             (\<lambda>i. let m = md (mods_addr mb + i * 16)
                  in mark_region_allocated (ucast (mod_start m)) (ucast (mod_end m - mod_start m))) a
      else a)"

text \<open>\<^verbatim>\<open>sizeof(multiboot_info_t)\<close> of the packed structure.\<close>

abbreviation sizeof_multiboot_info :: u64 where
  "sizeof_multiboot_info \<equiv> 116"

definition pmm_reset :: "u32 \<Rightarrow> u32 \<Rightarrow> 'a pmm_scheme \<Rightarrow> 'a pmm_scheme" where
  "pmm_reset tot kernel_end a =
     (let bitmap_bytes = (tot + 7) div 8;
          sz = PAGE_ALIGN bitmap_bytes
      in a\<lparr>total_pages := tot, bm_size := sz, bits_addr := PAGE_ALIGN kernel_end,
           bits := replicate (unat sz) 0xFF, free_pages := 0, used_pages := tot\<rparr>)"

definition pmm_init ::
    "(u32 \<Rightarrow> mmap_entry) \<Rightarrow> (u32 \<Rightarrow> mb_module) \<Rightarrow> u32 \<Rightarrow> multiboot_info \<Rightarrow> u32 \<Rightarrow> 'a pmm_scheme \<Rightarrow>
     (kernel_status \<times> 'a pmm_scheme) option" where
  "pmm_init rd md mbi_ptr mb kernel_end a =
     (if mb_flags mb AND MULTIBOOT_INFO_MEM_MAP = 0 then Some (KERNEL_ERROR, a)
      else Option.bind (mmap_walk rd (mmap_addr mb) (mmap_addr mb + mmap_length mb)) (\<lambda>mmap.
        let tot = ucast (max_available mmap div PAGE_SIZE);
            a0 = pmm_reset tot kernel_end a;
            a1 = mark_region_allocated 0 0x100000 a0;
            a2 = mark_region_allocated (ucast (bits_addr a0)) (ucast (bm_size a0)) a1;
            a3 = fold (free_available (bits_addr a0) (bm_size a0)) mmap a2;
            a4 = mark_region_allocated (ucast mbi_ptr) sizeof_multiboot_info a3;
            a5 = mark_region_allocated (ucast (mmap_addr mb)) (ucast (mmap_length mb)) a4;
            a6 = reserve_modules md mb a5;
            a7 = mark_region_allocated 0x100000 (ucast (kernel_end - 0x100000)) a6
        in Some (KERNEL_OK, a7)))"

section \<open>Regions and pages\<close>

text \<open>The pages that a byte range touches, and the pages that lie wholly inside it.\<close>

definition pages_touching :: "nat \<Rightarrow> nat \<Rightarrow> nat set" where
  "pages_touching start len =
     (if len = 0 then {} else {start div 4096..<(start + len + 4095) div 4096})"

definition pages_inside :: "nat \<Rightarrow> nat \<Rightarrow> nat set" where
  "pages_inside start len = {(start + 4095) div 4096..<(start + len) div 4096}"

lemma unat_ucast_small: "unat x < 2 ^ 32 \<Longrightarrow> unat (ucast (x :: u64) :: u32) = unat x"
  by (simp add: unsigned_ucast_eq take_bit_nat_eq_self)

lemma mark_region_allocated_spec:
  assumes inv: "pmm_inv a" and bound: "unat start + unat len \<le> 2 ^ 32"
  shows "free_frames (mark_region_allocated start len a) =
           free_frames a - pages_touching (unat start) (unat len)"
    and "pmm_inv (mark_region_allocated start len a)"
    and "same_shape a (mark_region_allocated start len a)"
proof -
  let ?s = "ucast (start div PAGE_SIZE) :: u32"
  let ?e = "ucast ((start + len + PAGE_SIZE - 1) div PAGE_SIZE) :: u32"
  have s: "unat ?s = unat start div 4096"
    using bound by (subst unat_ucast_small) (simp_all add: unat_div_distrib)
  have "unat (start + len + PAGE_SIZE - 1) = unat start + unat len + 4095"
  proof -
    have "start + len + PAGE_SIZE - 1 = start + len + 4095" by simp
    then show ?thesis using bound by (simp only:) (simp add: unat_word_ariths)
  qed
  then have e: "unat ?e = (unat start + unat len + 4095) div 4096"
    using bound by (subst unat_ucast_small) (simp_all add: unat_div_distrib)
  have min: "unat (min ?e (total_pages a)) = min (unat ?e) (unat (total_pages a))"
    by (simp add: min_def word_le_nat_alt)
  let ?loop = "for_loop ?s (min ?e (total_pages a)) mark_page_allocated a"
  have eq: "mark_region_allocated start len a = (if len = 0 then a else ?loop)"
    by (simp add: mark_region_allocated_def Let_def)
  have le: "unat (min ?e (total_pages a)) \<le> unat (total_pages a)" by (simp only: min)
  note loop = mark_pages_allocated_loop [OF inv le, of ?s]
  have "free_frames a - {unat ?s..<min (unat ?e) (unat (total_pages a))} =
        free_frames a - {unat ?s..<unat ?e}"
    by (auto simp: free_frames_def)
  then have "free_frames ?loop =
      free_frames a - {unat start div 4096..<(unat start + unat len + 4095) div 4096}"
    using loop(1) by (simp only: min s e)
  then show "free_frames (mark_region_allocated start len a) =
           free_frames a - pages_touching (unat start) (unat len)"
    by (simp add: eq pages_touching_def unat_eq_zero)
  show "pmm_inv (mark_region_allocated start len a)"
    "same_shape a (mark_region_allocated start len a)"
    using inv loop(2,3) by (simp_all add: eq)
qed

lemma for_loop_filtered_free:
  fixes s e :: u32
  assumes inv: "pmm_inv a" and s: "0 < unat s" and e: "unat e \<le> unat (total_pages a)"
  shows "free_frames (for_loop s e (\<lambda>p b. if C p then b else mark_page_free p b) a) =
           free_frames a \<union> {n. unat s \<le> n \<and> n < unat e \<and> \<not> C (word_of_nat n)}"
    and "pmm_inv (for_loop s e (\<lambda>p b. if C p then b else mark_page_free p b) a)"
    and "same_shape a (for_loop s e (\<lambda>p b. if C p then b else mark_page_free p b) a)"
proof -
  let ?F = "\<lambda>k. {n. unat s \<le> n \<and> n < k \<and> \<not> C (word_of_nat n)}"
  let ?P = "\<lambda>k b. pmm_inv b \<and> same_shape a b \<and> free_frames b = free_frames a \<union> ?F k"
  let ?loop = "for_loop s e (\<lambda>p b. if C p then b else mark_page_free p b) a"
  have "?P (unat e) ?loop" if "s \<le> e"
  proof (rule for_loop_counting [where P = ?P, OF _ that])
    fix i b assume P: "?P (unat i) b" and i: "s \<le> i" "i < e"
    then have lt: "0 < unat i" "unat i < unat (total_pages b)"
      using s e by (auto simp: same_shape_eqs word_less_nat_alt word_le_nat_alt)
    have F: "?F (Suc (unat i)) = (if C i then ?F (unat i) else insert (unat i) (?F (unat i)))"
      using i by (auto simp: word_le_nat_alt less_Suc_eq)
    from mark_page_free_spec [OF _ lt] P
    have "pmm_inv (mark_page_free i b)" "same_shape b (mark_page_free i b)"
      "free_frames (mark_page_free i b) = insert (unat i) (free_frames b)" by blast+
    with P F show "?P (Suc (unat i)) (if C i then b else mark_page_free i b)"
      using same_shape_trans by auto
  qed (use inv in auto)
  moreover have "?P (unat e) ?loop" if "\<not> s \<le> e"
    using that inv by (auto simp: word_le_nat_alt)
  ultimately show "free_frames ?loop = free_frames a \<union> ?F (unat e)" "pmm_inv ?loop"
    "same_shape a ?loop"
    by blast+
qed

text \<open>The pages of the bitmap itself.\<close>

definition bitmap_pages :: "u32 \<Rightarrow> u32 \<Rightarrow> nat set" where
  "bitmap_pages addr sz = {n. unat addr \<le> n * 4096 \<and> n * 4096 < unat addr + unat sz}"

definition usable_pages :: "mmap_entry \<Rightarrow> nat set" where
  "usable_pages me =
     (if me_type me = MULTIBOOT_MEMORY_AVAILABLE \<and> 0x100000 \<le> me_addr me
      then pages_inside (unat (me_addr me)) (unat (me_len me)) else {})"

lemma free_available_spec:
  assumes inv: "pmm_inv a"
    and bound: "me_type me = MULTIBOOT_MEMORY_AVAILABLE \<Longrightarrow>
          unat (me_addr me) + unat (me_len me) \<le> 2 ^ 32 \<and>
          (unat (me_addr me) + unat (me_len me)) div 4096 \<le> unat (total_pages a)"
    and room: "unat addr + unat sz < 2 ^ 32"
  shows "free_frames (free_available addr sz me a) =
           free_frames a \<union> (usable_pages me - bitmap_pages addr sz)"
    and "pmm_inv (free_available addr sz me a)" and "same_shape a (free_available addr sz me a)"
proof -
  let ?goal = "free_frames (free_available addr sz me a) =
           free_frames a \<union> (usable_pages me - bitmap_pages addr sz) \<and>
           pmm_inv (free_available addr sz me a) \<and> same_shape a (free_available addr sz me a)"
  have ?goal
  proof (cases "me_type me = MULTIBOOT_MEMORY_AVAILABLE \<and> 0x100000 \<le> me_addr me")
    case False
    then show ?thesis using inv by (auto simp: free_available_def usable_pages_def)
  next
    case True
    let ?s = "ucast (ALIGN_UP (me_addr me) PAGE_SIZE div PAGE_SIZE) :: u32"
    let ?e = "ucast ((me_addr me + me_len me) div PAGE_SIZE) :: u32"
    let ?C = "\<lambda>page. addr \<le> page * PAGE_SIZE \<and> page * PAGE_SIZE < addr + sz"
    have b: "unat (me_addr me) + unat (me_len me) \<le> 2 ^ 32"
        "(unat (me_addr me) + unat (me_len me)) div 4096 \<le> unat (total_pages a)"
        "0x100000 \<le> unat (me_addr me)"
      using bound True by (auto simp: word_le_nat_alt)
    have "unat (ALIGN_UP (me_addr me) PAGE_SIZE) = (unat (me_addr me) + 4095) div 4096 * 4096"
    proof -
      have "me_addr me + PAGE_SIZE - 1 = me_addr me + 4095" by simp
      moreover have "unat (me_addr me + 4095) = unat (me_addr me) + 4095"
        using b(1) by (simp add: unat_word_ariths)
      ultimately show ?thesis
        by (simp only: ALIGN_UP_def) (simp add: unat_page_base_minus add.commute)
    qed
    then have s: "unat ?s = (unat (me_addr me) + 4095) div 4096"
      using b(1) by (subst unat_ucast_small) (simp_all add: unat_div_distrib)
    have e: "unat ?e = (unat (me_addr me) + unat (me_len me)) div 4096"
      using b(1) by (subst unat_ucast_small) (simp_all add: unat_div_distrib unat_word_ariths)
    have C: "?C (word_of_nat n) \<longleftrightarrow> n \<in> bitmap_pages addr sz" if "n < unat ?e" for n
    proof -
      have "n < 2 ^ 20" using that e b(2) pmm_inv_facts(3) [OF inv] by simp
      then have "unat (word_of_nat n * PAGE_SIZE :: u32) = n * 4096"
        by (simp add: unat_word_ariths unat_of_nat)
      moreover have "unat (addr + sz) = unat addr + unat sz" using room by (simp add: unat_add_small)
      ultimately show ?thesis by (simp add: bitmap_pages_def word_le_nat_alt word_less_nat_alt)
    qed
    have eq: "free_available addr sz me a =
        for_loop ?s ?e (\<lambda>p b. if ?C p then b else mark_page_free p b) a"
      using True by (simp add: free_available_def Let_def)
    have "{n. unat ?s \<le> n \<and> n < unat ?e \<and> \<not> ?C (word_of_nat n)} =
        {n. unat ?s \<le> n \<and> n < unat ?e \<and> n \<notin> bitmap_pages addr sz}"
      using C by blast
    also have "\<dots> = usable_pages me - bitmap_pages addr sz"
      using True by (auto simp: s e usable_pages_def pages_inside_def)
    finally have "{n. unat ?s \<le> n \<and> n < unat ?e \<and> \<not> ?C (word_of_nat n)} =
        usable_pages me - bitmap_pages addr sz" .
    with for_loop_filtered_free [OF inv, of ?s ?e ?C] s e b eq show ?thesis by simp
  qed
  then show "free_frames (free_available addr sz me a) =
           free_frames a \<union> (usable_pages me - bitmap_pages addr sz)"
    "pmm_inv (free_available addr sz me a)" "same_shape a (free_available addr sz me a)"
    by blast+
qed

lemma fold_free_available_spec:
  assumes "pmm_inv a" and room: "unat addr + unat sz < 2 ^ 32"
    and "\<And>me. me \<in> set mmap \<Longrightarrow> me_type me = MULTIBOOT_MEMORY_AVAILABLE \<Longrightarrow>
          unat (me_addr me) + unat (me_len me) \<le> 2 ^ 32 \<and>
          (unat (me_addr me) + unat (me_len me)) div 4096 \<le> unat (total_pages a)"
  shows "free_frames (fold (free_available addr sz) mmap a) =
           free_frames a \<union> (\<Union>(usable_pages ` set mmap) - bitmap_pages addr sz) \<and>
         pmm_inv (fold (free_available addr sz) mmap a) \<and>
         same_shape a (fold (free_available addr sz) mmap a)"
  using assms(1,3)
proof (induction mmap arbitrary: a)
  case (Cons me mmap)
  have step: "free_frames (free_available addr sz me a) =
           free_frames a \<union> (usable_pages me - bitmap_pages addr sz)"
    "pmm_inv (free_available addr sz me a)" "same_shape a (free_available addr sz me a)"
    using free_available_spec [OF Cons.prems(1) _ room] Cons.prems(2) by auto
  have "total_pages (free_available addr sz me a) = total_pages a"
    using step(3) by (rule same_shape_eqs)
  with Cons.IH [OF step(2)] Cons.prems(2) step same_shape_trans [OF step(3)]
  show ?case by auto
qed simp

section \<open>The allocator after initialisation\<close>

text \<open>What the boot loader is expected to deliver: no usable region reaches beyond 4 GiB.\<close>

definition available_ok :: "mmap_entry list \<Rightarrow> bool" where
  "available_ok mmap \<longleftrightarrow>
     (\<forall>me \<in> set mmap. me_type me = MULTIBOOT_MEMORY_AVAILABLE \<longrightarrow>
        unat (me_addr me) + unat (me_len me) \<le> 2 ^ 32)"

lemma max_available_upper:
  assumes "me \<in> set mmap" and "me_type me = MULTIBOOT_MEMORY_AVAILABLE"
  shows "me_addr me + me_len me \<le> max_available mmap"
proof -
  let ?f = "\<lambda>me (mx :: u64). if me_type me = MULTIBOOT_MEMORY_AVAILABLE
              then (let e = me_addr me + me_len me in if e > mx then e else mx) else mx"
  have mono: "mx \<le> fold ?f es mx" for es mx
    by (induction es arbitrary: mx) (auto simp: Let_def intro: order.trans less_imp_le)
  have "me \<in> set es \<Longrightarrow> me_addr me + me_len me \<le> fold ?f es mx" for es mx
  proof (induction es arbitrary: mx)
    case (Cons x es)
    then show ?case
      using assms(2) mono [of "?f me mx" es] by (auto simp: Let_def intro: order.trans split: if_splits)
  qed simp
  with assms(1) show ?thesis by (simp add: max_available_def)
qed

lemma max_available_le:
  assumes "available_ok mmap"
  shows "unat (max_available mmap) \<le> 2 ^ 32"
proof -
  let ?f = "\<lambda>me (mx :: u64). if me_type me = MULTIBOOT_MEMORY_AVAILABLE
              then (let e = me_addr me + me_len me in if e > mx then e else mx) else mx"
  have "available_ok es \<Longrightarrow> unat mx \<le> 2 ^ 32 \<Longrightarrow> unat (fold ?f es mx) \<le> 2 ^ 32" for es mx
    by (induction es arbitrary: mx) (auto simp: available_ok_def Let_def unat_word_ariths)
  then show ?thesis using assms by (simp add: max_available_def)
qed

lemma pmm_reset_inv:
  assumes "unat tot \<le> 2 ^ 20"
  shows "pmm_inv (pmm_reset tot ke a)" and "free_frames (pmm_reset tot ke a) = {}"
    and "total_pages (pmm_reset tot ke a) = tot"
    and "unat (bm_size (pmm_reset tot ke a)) = ((unat tot + 7) div 8 + 4095) div 4096 * 4096"
proof -
  let ?a = "pmm_reset tot ke a"
  have "unat (tot + 7) = unat tot + 7" using assms by (simp add: unat_word_ariths)
  then have bb: "unat ((tot + 7) div 8) = (unat tot + 7) div 8" by (simp add: unat_div_distrib)
  then have "unat ((tot + 7) div 8) + 4095 < 2 ^ 32" using assms by simp
  then show sz: "unat (bm_size ?a) = ((unat tot + 7) div 8 + 4095) div 4096 * 4096"
    using bb by (simp add: pmm_reset_def unat_ALIGN_UP_page)
  have cap: "unat tot \<le> capacity ?a" "capacity ?a < 2 ^ 32"
    using sz assms by (auto simp: capacity_def)
  have bits: "bits ?a = replicate (unat (bm_size ?a)) 0xFF" by (simp add: pmm_reset_def Let_def)
  have used: "page_used ?a n" if "n < capacity ?a" for n
  proof -
    have "n div 8 < unat (bm_size ?a)" using that by (simp add: capacity_def less_mult_imp_div_less)
    then have "bits ?a ! (n div 8) = 0xFF" by (simp add: bits)
    then show ?thesis using byte_full_iff [of "bits ?a ! (n div 8)"] by (simp add: page_used_def)
  qed
  show tot: "total_pages ?a = tot" by (simp add: pmm_reset_def Let_def)
  show free: "free_frames ?a = {}" using used cap tot by (auto simp: free_frames_def)
  have "free_pages ?a = 0" "used_pages ?a = tot" by (simp_all add: pmm_reset_def Let_def)
  with used cap tot free assms bits show "pmm_inv ?a"
    by (simp add: pmm_inv_def bitmap_wf_def)
qed

definition module_pages :: "(u32 \<Rightarrow> mb_module) \<Rightarrow> multiboot_info \<Rightarrow> nat \<Rightarrow> nat set" where
  "module_pages md mb i =
     (let m = md (mods_addr mb + word_of_nat i * 16)
      in pages_touching (unat (mod_start m)) (unat (mod_end m - mod_start m)))"

definition all_module_pages :: "(u32 \<Rightarrow> mb_module) \<Rightarrow> multiboot_info \<Rightarrow> nat set" where
  "all_module_pages md mb =
     (if mb_flags mb AND MULTIBOOT_INFO_MODS \<noteq> 0
      then \<Union>(module_pages md mb ` {..<unat (mods_count mb)}) else {})"

definition modules_ok :: "(u32 \<Rightarrow> mb_module) \<Rightarrow> multiboot_info \<Rightarrow> bool" where
  "modules_ok md mb \<longleftrightarrow>
     (\<forall>i < unat (mods_count mb). let m = md (mods_addr mb + word_of_nat i * 16)
        in mod_start m \<le> mod_end m)"

lemma unat_ucast_up: "unat (ucast (x :: u32) :: u64) = unat x"
proof -
  have "unat x < 2 ^ 64" by (rule less_trans [OF unat_lt(3)]) simp
  then show ?thesis by (simp add: unsigned_ucast_eq take_bit_nat_eq_self)
qed

lemma reserve_modules_spec:
  assumes inv: "pmm_inv a" and ok: "modules_ok md mb"
  shows "free_frames (reserve_modules md mb a) = free_frames a - all_module_pages md mb"
    and "pmm_inv (reserve_modules md mb a)" and "same_shape a (reserve_modules md mb a)"
proof -
  let ?body = "\<lambda>i. let m = md (mods_addr mb + i * 16)
                in mark_region_allocated (ucast (mod_start m)) (ucast (mod_end m - mod_start m))"
  let ?P = "\<lambda>k b. pmm_inv b \<and> same_shape a b \<and>
              free_frames b = free_frames a - \<Union>(module_pages md mb ` {..<k})"
  have loop: "?P (unat (mods_count mb)) (for_loop 0 (mods_count mb) ?body a)"
  proof (rule for_loop_counting [where P = ?P])
    fix i b assume P: "?P (unat i) b" and i: "i < mods_count mb"
    let ?m = "md (mods_addr mb + i * 16)"
    have le: "unat (mod_start ?m) \<le> unat (mod_end ?m)"
      using ok i by (auto simp: modules_ok_def Let_def word_less_nat_alt word_le_nat_alt)
    then have "unat (mod_end ?m - mod_start ?m) = unat (mod_end ?m) - unat (mod_start ?m)"
      by (rule unat_sub_small)
    then have bound: "unat (ucast (mod_start ?m) :: u64) + unat (ucast (mod_end ?m - mod_start ?m) :: u64)
        \<le> 2 ^ 32"
      using le by (simp add: unat_ucast_up less_imp_le)
    have "pages_touching (unat (mod_start ?m)) (unat (mod_end ?m - mod_start ?m)) =
        module_pages md mb (unat i)"
      by (simp add: module_pages_def Let_def)
    with mark_region_allocated_spec [OF _ bound, of b] P same_shape_trans
    show "?P (Suc (unat i)) (?body i b)"
      by (auto simp: unat_ucast_up Let_def lessThan_Suc)
  qed (use inv in auto)
  show "free_frames (reserve_modules md mb a) = free_frames a - all_module_pages md mb"
    "pmm_inv (reserve_modules md mb a)" "same_shape a (reserve_modules md mb a)"
    using loop inv by (auto simp: reserve_modules_def all_module_pages_def)
qed

lemma pmm_init_spec:
  assumes flag: "mb_flags mb AND MULTIBOOT_INFO_MEM_MAP \<noteq> 0"
    and walk: "mmap_walk rd (mmap_addr mb) (mmap_addr mb + mmap_length mb) = Some mmap"
    and avail: "available_ok mmap" and mods: "modules_ok md mb"
    and kend: "0x100000 \<le> kernel_end" "unat kernel_end + 0x21000 < 2 ^ 32"
    and mbi: "unat mbi_ptr + 116 \<le> 2 ^ 32"
    and map: "unat (mmap_addr mb) + unat (mmap_length mb) \<le> 2 ^ 32"
  obtains a' where
    "pmm_init rd md mbi_ptr mb kernel_end a = Some (KERNEL_OK, a')"
    "pmm_inv a'"
    "free_frames a' = \<Union>(usable_pages ` set mmap) - bitmap_pages (bits_addr a') (bm_size a')
       - pages_touching (unat mbi_ptr) 116
       - pages_touching (unat (mmap_addr mb)) (unat (mmap_length mb))
       - all_module_pages md mb
       - pages_touching 0x100000 (unat kernel_end - 0x100000)"
    "bits_addr a' = PAGE_ALIGN kernel_end"
proof -
  let ?tot = "ucast (max_available mmap div PAGE_SIZE) :: u32"
  define a0 where "a0 = pmm_reset ?tot kernel_end a"
  define a1 where "a1 = mark_region_allocated 0 0x100000 a0"
  define a2 where "a2 = mark_region_allocated (ucast (bits_addr a0)) (ucast (bm_size a0)) a1"
  define a3 where "a3 = fold (free_available (bits_addr a0) (bm_size a0)) mmap a2"
  define a4 where "a4 = mark_region_allocated (ucast mbi_ptr) 116 a3"
  define a5 where "a5 = mark_region_allocated (ucast (mmap_addr mb)) (ucast (mmap_length mb)) a4"
  define a6 where "a6 = reserve_modules md mb a5"
  define a7 where "a7 = mark_region_allocated 0x100000 (ucast (kernel_end - 0x100000)) a6"
  have max: "unat (max_available mmap) \<le> 2 ^ 32" by (rule max_available_le [OF avail])
  then have utot: "unat ?tot = unat (max_available mmap) div 4096"
    by (subst unat_ucast_small) (simp_all add: unat_div_distrib)
  then have tot: "unat ?tot \<le> 2 ^ 20" using max by simp
  note reset = pmm_reset_inv [OF tot, of kernel_end a, folded a0_def]
  have sz: "unat (bm_size a0) \<le> 0x20000" using reset(4) tot by (auto simp: div_le_mono)
  have ka: "bits_addr a0 = PAGE_ALIGN kernel_end" by (simp add: a0_def pmm_reset_def Let_def)
  have addr: "unat (bits_addr a0) \<le> unat kernel_end + 4095"
    using kend(2) by (simp add: ka unat_ALIGN_UP_page)
  then have room: "unat (bits_addr a0) + unat (bm_size a0) < 2 ^ 32" using sz kend(2) by simp
  have r1: "free_frames a1 = {}" "pmm_inv a1" "same_shape a0 a1"
    using mark_region_allocated_spec [OF reset(1), of 0 "0x100000"] reset(2) by (auto simp: a1_def)
  have r2: "free_frames a2 = {}" "pmm_inv a2" "same_shape a0 a2"
    using mark_region_allocated_spec [OF r1(2), of "ucast (bits_addr a0)" "ucast (bm_size a0)"]
      room r1 same_shape_trans by (auto simp: a2_def unat_ucast_up)
  have reg: "unat (me_addr me) + unat (me_len me) \<le> 2 ^ 32 \<and>
      (unat (me_addr me) + unat (me_len me)) div 4096 \<le> unat (total_pages a2)"
    if "me \<in> set mmap" "me_type me = MULTIBOOT_MEMORY_AVAILABLE" for me
  proof -
    have le: "unat (me_addr me) + unat (me_len me) \<le> 2 ^ 32"
      using avail that by (auto simp: available_ok_def)
    then have "unat (me_addr me + me_len me) = unat (me_addr me) + unat (me_len me)"
      by (simp add: unat_word_ariths)
    with max_available_upper [OF that]
    have "unat (me_addr me) + unat (me_len me) \<le> unat (max_available mmap)"
      by (simp add: word_le_nat_alt)
    then show ?thesis using le utot reset(3) r2(3) by (simp add: same_shape_eqs div_le_mono)
  qed
  have r3: "free_frames a3 = \<Union>(usable_pages ` set mmap) - bitmap_pages (bits_addr a0) (bm_size a0)"
      "pmm_inv a3" "same_shape a0 a3"
    using fold_free_available_spec [OF r2(2) room, of mmap] reg r2 same_shape_trans
    by (auto simp: a3_def)
  have r4: "free_frames a4 = free_frames a3 - pages_touching (unat mbi_ptr) 116"
      "pmm_inv a4" "same_shape a0 a4"
    using mark_region_allocated_spec [OF r3(2), of "ucast mbi_ptr" 116] mbi r3 same_shape_trans
    by (auto simp: a4_def unat_ucast_up)
  have r5: "free_frames a5 = free_frames a4 - pages_touching (unat (mmap_addr mb)) (unat (mmap_length mb))"
      "pmm_inv a5" "same_shape a0 a5"
    using mark_region_allocated_spec [OF r4(2), of "ucast (mmap_addr mb)" "ucast (mmap_length mb)"]
      map r4 same_shape_trans by (auto simp: a5_def unat_ucast_up)
  have r6: "free_frames a6 = free_frames a5 - all_module_pages md mb" "pmm_inv a6" "same_shape a0 a6"
    using reserve_modules_spec [OF r5(2) mods] r5 same_shape_trans by (auto simp: a6_def)
  have ke: "unat (kernel_end - 0x100000) = unat kernel_end - 0x100000"
    using kend(1) by (subst unat_sub_small) (simp_all add: word_le_nat_alt)
  have "0x100000 \<le> unat kernel_end" using kend(1) by (simp add: word_le_nat_alt)
  then have r7: "free_frames a7 = free_frames a6 - pages_touching 0x100000 (unat kernel_end - 0x100000)"
      "pmm_inv a7" "same_shape a0 a7"
    using mark_region_allocated_spec [OF r6(2), of "0x100000" "ucast (kernel_end - 0x100000)"]
      kend(2) r6 same_shape_trans by (auto simp: a7_def unat_ucast_up ke)
  have "pmm_init rd md mbi_ptr mb kernel_end a = Some (KERNEL_OK, a7)"
    using flag walk
    by (simp add: pmm_init_def Let_def a0_def a1_def a2_def a3_def a4_def a5_def a6_def a7_def)
  moreover have "bits_addr a7 = bits_addr a0" "bm_size a7 = bm_size a0"
    using r7(3) by (simp_all add: same_shape_def)
  ultimately show thesis using that r3 r4 r5 r6 r7 ka by simp
qed

section \<open>Properties\<close>



end
