(* ===== verification/Vmm.thy ===== *)
theory Vmm
  imports Pmm_Init
begin

text \<open>
  Page tables, \<^verbatim>\<open>src/mm/vmm.c\<close>, over an explicit machine: physical memory as 32-bit cells
  (\<open>mem\<close>, indexed by the byte address of an aligned cell), the control registers the code reads
  and writes (\<open>cr3\<close>, \<open>paging\<close> for CR0.PG), and the address of the array
  \<^verbatim>\<open>kernel_page_directory\<close> (\<open>kpd\<close>, fixed by the linker).

  The code reaches page tables in two ways. Before paging is on it uses their physical addresses;
  afterwards it uses the recursive window at \<^verbatim>\<open>0xFFC00000\<close>. Accesses of the second kind go
  through \<open>mmu\<close>, the two-level translation of the processor, and an access the MMU cannot
  translate is a page fault: the operation's result is then \<open>None\<close>. That no operation faults in a
  well-formed state is a theorem, not an assumption.

  The MMU model: 4 KiB pages, no PSE or PAE, supervisor accesses with CR0.WP clear (the RW and USER
  bits do not restrict the kernel). The TLB is not modelled: \<^verbatim>\<open>invlpg\<close> has no effect here.
\<close>

named_theorems vmm_simps \<open>the definitions of the page-table operations\<close>

section \<open>The machine\<close>

record vmm = pmm +
  mem :: "u32 \<Rightarrow> u32"
  cr3 :: u32
  paging :: bool
  kpd :: u32

abbreviation PAGE_FLAG_PRESENT :: u32 where "PAGE_FLAG_PRESENT \<equiv> 1"
abbreviation PAGE_FLAG_RW :: u32 where "PAGE_FLAG_RW \<equiv> 2"
abbreviation PAGE_FLAG_USER :: u32 where "PAGE_FLAG_USER \<equiv> 4"
abbreviation PAGE_FLAG_GLOBAL :: u32 where "PAGE_FLAG_GLOBAL \<equiv> 0x100"
abbreviation PTE_FLAGS_MASK :: u32 where "PTE_FLAGS_MASK \<equiv> 7"
abbreviation PAGE_RECURSIVE_SLOT :: u32 where "PAGE_RECURSIVE_SLOT \<equiv> 1023"
abbreviation PAGE_RECURSIVE_PD :: u32 where "PAGE_RECURSIVE_PD \<equiv> 0xFFFFF000"
abbreviation PAGE_RECURSIVE_PT_BASE :: u32 where "PAGE_RECURSIVE_PT_BASE \<equiv> 0xFFC00000"

definition pd_index :: "u32 \<Rightarrow> u32" where
  "pd_index va = drop_bit 22 va"

definition pt_index :: "u32 \<Rightarrow> u32" where
  "pt_index va = drop_bit 12 va AND 0x3FF"

text \<open>The cell of entry \<open>i\<close> in the table at \<open>base\<close>: C's \<^verbatim>\<open>base[i]\<close> on \<^verbatim>\<open>u32 *\<close>.\<close>

definition cell :: "u32 \<Rightarrow> u32 \<Rightarrow> u32" where
  "cell base i = base + 4 * i"

text \<open>The two-level walk of a directory at physical address \<open>dir\<close>.\<close>

definition page_walk :: "(u32 \<Rightarrow> u32) \<Rightarrow> u32 \<Rightarrow> u32 \<Rightarrow> u32 option" where
  "page_walk m dir va =
     (let pde = m (cell dir (pd_index va))
      in if pde AND PAGE_FLAG_PRESENT = 0 then None
         else let pte = m (cell (pde AND NOT 0xFFF) (pt_index va))
              in if pte AND PAGE_FLAG_PRESENT = 0 then None
                 else Some ((pte AND NOT 0xFFF) OR (va AND 0xFFF)))"

definition mmu :: "'a vmm_scheme \<Rightarrow> u32 \<Rightarrow> u32 option" where
  "mmu s va = (if paging s then page_walk (mem s) (cr3 s) va else Some va)"

definition vread :: "u32 \<Rightarrow> 'a vmm_scheme \<Rightarrow> u32 option" where
  "vread va s = map_option (mem s) (mmu s va)"

definition vwrite :: "u32 \<Rightarrow> u32 \<Rightarrow> 'a vmm_scheme \<Rightarrow> 'a vmm_scheme option" where
  "vwrite va v s = map_option (\<lambda>pa. s\<lparr>mem := (mem s)(pa := v)\<rparr>) (mmu s va)"

text \<open>\<^verbatim>\<open>memset(page, 0, PAGE_SIZE)\<close> on a page-aligned address: every cell of the frame.\<close>

definition zero_frame :: "u32 \<Rightarrow> (u32 \<Rightarrow> u32) \<Rightarrow> u32 \<Rightarrow> u32" where
  "zero_frame f m = (\<lambda>a. if a AND NOT 0xFFF = f AND NOT 0xFFF then 0 else m a)"

definition vzero_page :: "u32 \<Rightarrow> 'a vmm_scheme \<Rightarrow> 'a vmm_scheme option" where
  "vzero_page va s = map_option (\<lambda>pa. s\<lparr>mem := zero_frame pa (mem s)\<rparr>) (mmu s va)"

section \<open>Operations\<close>

text \<open>
  The first half of \<^verbatim>\<open>vmm_map_page\<close>: make sure the directory entry has a page table.
  \<open>Inl\<close> is the early return with \<^verbatim>\<open>KERNEL_OUT_OF_MEMORY\<close>.
\<close>

definition ensure_table_window ::
    "u32 \<Rightarrow> 'a vmm_scheme \<Rightarrow> ('a vmm_scheme + 'a vmm_scheme) option" where
  "ensure_table_window i s =
     Option.bind (vread (cell PAGE_RECURSIVE_PD i) s) (\<lambda>pde.
       if pde AND PAGE_FLAG_PRESENT = 0
       then (let (pt_phys, s1) = pmm_alloc_page s
             in if pt_phys = 0 then Some (Inl s1)
                else Option.bind (vwrite (cell PAGE_RECURSIVE_PD i)
                       ((pt_phys AND NOT 0xFFF) OR PAGE_FLAG_PRESENT OR PAGE_FLAG_RW) s1) (\<lambda>s2.
                     Option.bind (vzero_page (PAGE_RECURSIVE_PT_BASE + push_bit 12 i) s2) (\<lambda>s3.
                       Some (Inr s3))))
       else Some (Inr s))"

definition ensure_table_direct :: "u32 \<Rightarrow> 'a vmm_scheme \<Rightarrow> 'a vmm_scheme + 'a vmm_scheme" where
  "ensure_table_direct i s =
     (if mem s (cell (kpd s) i) AND PAGE_FLAG_PRESENT = 0
      then (let (pt_phys, s1) = pmm_alloc_page s
            in if pt_phys = 0 then Inl s1
               else Inr (s1\<lparr>mem := zero_frame pt_phys ((mem s1)(cell (kpd s1) i :=
                      (pt_phys AND NOT 0xFFF) OR PAGE_FLAG_PRESENT OR PAGE_FLAG_RW))\<rparr>))
      else Inr s)"

definition vmm_map_page ::
    "u32 \<Rightarrow> u32 \<Rightarrow> u32 \<Rightarrow> 'a vmm_scheme \<Rightarrow> (kernel_status \<times> 'a vmm_scheme) option" where
  "vmm_map_page virt_addr phys_addr flags s =
     (let i = pd_index virt_addr;
          j = pt_index virt_addr;
          newpte = (phys_addr AND NOT 0xFFF) OR (flags AND PTE_FLAGS_MASK)
      in if paging s
         then Option.bind (ensure_table_window i s) (\<lambda>r.
           case r of
             Inl s1 \<Rightarrow> Some (KERNEL_OUT_OF_MEMORY, s1)
           | Inr s1 \<Rightarrow>
               (let pt = PAGE_RECURSIVE_PT_BASE + push_bit 12 i
                in Option.bind (vread (cell pt j) s1) (\<lambda>pte.
                     if pte AND PAGE_FLAG_PRESENT \<noteq> 0 \<and> pte AND NOT 0xFFF \<noteq> phys_addr AND NOT 0xFFF
                     then Some (KERNEL_ALREADY_MAPPED, s1)
                     else Option.bind (vwrite (cell pt j) newpte s1) (\<lambda>s2. Some (KERNEL_OK, s2)))))
         else
           (case ensure_table_direct i s of
              Inl s1 \<Rightarrow> Some (KERNEL_OUT_OF_MEMORY, s1)
            | Inr s1 \<Rightarrow>
                (let pt = mem s1 (cell (kpd s1) i) AND NOT 0xFFF
                 in Some (KERNEL_OK, s1\<lparr>mem := (mem s1)(cell pt j := newpte)\<rparr>))))"

definition vmm_unmap_page :: "u32 \<Rightarrow> 'a vmm_scheme \<Rightarrow> (kernel_status \<times> 'a vmm_scheme) option" where
  "vmm_unmap_page virt_addr s =
     (let i = pd_index virt_addr; j = pt_index virt_addr
      in if paging s
         then Option.bind (vread (cell PAGE_RECURSIVE_PD i) s) (\<lambda>pde.
           if pde AND PAGE_FLAG_PRESENT = 0 then Some (KERNEL_INVALID_PARAM, s)
           else let pt = PAGE_RECURSIVE_PT_BASE + push_bit 12 i
                in Option.bind (vread (cell pt j) s) (\<lambda>pte.
                     if pte AND PAGE_FLAG_PRESENT = 0 then Some (KERNEL_INVALID_PARAM, s)
                     else Option.bind (vwrite (cell pt j) 0 s) (\<lambda>s1. Some (KERNEL_OK, s1))))
         else if mem s (cell (kpd s) i) AND PAGE_FLAG_PRESENT = 0 then Some (KERNEL_INVALID_PARAM, s)
         else let pt = mem s (cell (kpd s) i) AND NOT 0xFFF
              in if mem s (cell pt j) AND PAGE_FLAG_PRESENT = 0 then Some (KERNEL_INVALID_PARAM, s)
                 else Some (KERNEL_OK, s\<lparr>mem := (mem s)(cell pt j := 0)\<rparr>))"

definition vmm_get_physical_addr :: "u32 \<Rightarrow> 'a vmm_scheme \<Rightarrow> u32 option" where
  "vmm_get_physical_addr virt_addr s =
     (let i = pd_index virt_addr; j = pt_index virt_addr
      in if paging s
         then Option.bind (vread (cell PAGE_RECURSIVE_PD i) s) (\<lambda>pde.
           if pde AND PAGE_FLAG_PRESENT = 0 then Some 0
           else let pt = PAGE_RECURSIVE_PT_BASE + push_bit 12 i
                in Option.bind (vread (cell pt j) s) (\<lambda>pte.
                     if pte AND PAGE_FLAG_PRESENT = 0 then Some 0
                     else Some ((pte AND NOT 0xFFF) OR (virt_addr AND 0xFFF))))
         else if mem s (cell (kpd s) i) AND PAGE_FLAG_PRESENT = 0 then Some 0
         else let pt = mem s (cell (kpd s) i) AND NOT 0xFFF
              in if mem s (cell pt j) AND PAGE_FLAG_PRESENT = 0 then Some 0
                 else Some ((mem s (cell pt j) AND NOT 0xFFF) OR (virt_addr AND 0xFFF)))"

text \<open>The roll-back loop of \<^verbatim>\<open>vmm_map_pages\<close> ignores the status of each call.\<close>

definition unmap_ignoring :: "u32 \<Rightarrow> u32 \<Rightarrow> 'a vmm_scheme \<Rightarrow> 'a vmm_scheme option" where
  "unmap_ignoring virt_addr n s =
     map_option snd (for_ret 0 n
       (\<lambda>j s. map_option (\<lambda>(st, s'). (None :: unit option, s')) (vmm_unmap_page (virt_addr + j * PAGE_SIZE) s)) s)"

definition vmm_map_pages ::
    "u32 \<Rightarrow> u32 \<Rightarrow> u32 \<Rightarrow> u32 \<Rightarrow> 'a vmm_scheme \<Rightarrow> (kernel_status \<times> 'a vmm_scheme) option" where
  "vmm_map_pages virt_addr phys_addr count flags s =
     map_option (\<lambda>(r, s'). (case r of None \<Rightarrow> KERNEL_OK | Some st \<Rightarrow> st, s'))
       (for_ret 0 count
         (\<lambda>i s. Option.bind (vmm_map_page (virt_addr + i * PAGE_SIZE) (phys_addr + i * PAGE_SIZE) flags s)
            (\<lambda>(st, s1). if st \<noteq> KERNEL_OK
                         then map_option (\<lambda>s2. (Some st, s2)) (unmap_ignoring virt_addr i s1)
                         else Some (None, s1))) s)"

definition vmm_map_range ::
    "u32 \<Rightarrow> u32 \<Rightarrow> u32 \<Rightarrow> u32 \<Rightarrow> 'a vmm_scheme \<Rightarrow> (kernel_status \<times> 'a vmm_scheme) option" where
  "vmm_map_range virt_start phys_start sz flags s =
     (if virt_start AND (PAGE_SIZE - 1) \<noteq> 0 \<or> phys_start AND (PAGE_SIZE - 1) \<noteq> 0
      then Some (KERNEL_INVALID_PARAM, s)
      else if sz = 0 then Some (KERNEL_INVALID_PARAM, s)
      else let e = ALIGN_UP (virt_start + sz) PAGE_SIZE;
               pages = (e - virt_start) div PAGE_SIZE
           in vmm_map_pages virt_start phys_start pages flags s)"

text \<open>
  The loop of \<^verbatim>\<open>vmm_is_range_mapped\<close> advances an address by a page from one page-aligned bound
  to another; the model counts its iterations.
\<close>

definition vmm_is_range_mapped :: "u32 \<Rightarrow> u32 \<Rightarrow> 'a vmm_scheme \<Rightarrow> bool option" where
  "vmm_is_range_mapped virt_start sz s =
     (if sz = 0 then Some False
      else let start = ALIGN_DOWN virt_start PAGE_SIZE;
               e = ALIGN_UP (virt_start + sz) PAGE_SIZE;
               iterations = (if start < e then (e - start) div PAGE_SIZE else 0)
           in map_option (\<lambda>(r, _). r = None)
                (for_ret 0 iterations
                  (\<lambda>i _. map_option (\<lambda>phys. (if phys = 0 then Some () else None, ()))
                           (vmm_get_physical_addr (start + i * PAGE_SIZE) s)) ()))"

text \<open>The second loop of \<^verbatim>\<open>vmm_unmap_pages\<close>: free the page tables that became empty.\<close>

definition table_empty_window :: "u32 \<Rightarrow> 'a vmm_scheme \<Rightarrow> bool option" where
  "table_empty_window pt s =
     map_option (\<lambda>(r, _). r = None)
       (for_ret 0 (1024 :: u32)
         (\<lambda>j _. map_option (\<lambda>pte. (if pte AND PAGE_FLAG_PRESENT \<noteq> 0 then Some () else None, ()))
                  (vread (cell pt j) s)) ())"

definition reclaim_table :: "u32 \<Rightarrow> 'a vmm_scheme \<Rightarrow> (unit option \<times> 'a vmm_scheme) option" where
  "reclaim_table va s =
     (let i = pd_index va; pt = PAGE_RECURSIVE_PT_BASE + push_bit 12 i
      in Option.bind (table_empty_window pt s) (\<lambda>empty.
           Option.bind (if empty then vread (cell PAGE_RECURSIVE_PD i) s else Some 0) (\<lambda>pde.
             if empty \<and> pde AND PAGE_FLAG_PRESENT \<noteq> 0
             then Option.bind (vwrite (cell PAGE_RECURSIVE_PD i) 0 s) (\<lambda>s1.
                    Some (None, pmm_free_page (pde AND NOT 0xFFF) s1))
             else Some (None, s))))"

definition vmm_unmap_pages :: "u32 \<Rightarrow> u32 \<Rightarrow> 'a vmm_scheme \<Rightarrow> (kernel_status \<times> 'a vmm_scheme) option" where
  "vmm_unmap_pages virt_addr count s =
     Option.bind (for_ret 0 count
         (\<lambda>i s. map_option (\<lambda>(st, s1). (if st \<noteq> KERNEL_OK then Some st else None, s1))
                  (vmm_unmap_page (virt_addr + i * PAGE_SIZE) s)) s)
       (\<lambda>(r, s1). case r of
          Some st \<Rightarrow> Some (st, s1)
        | None \<Rightarrow>
            if paging s1
            then map_option (\<lambda>(_, s2). (KERNEL_OK, s2))
                   (for_ret 0 count (\<lambda>i. reclaim_table (virt_addr + i * PAGE_SIZE)) s1)
            else Some (KERNEL_OK, s1))"

text \<open>One iteration of \<^verbatim>\<open>vmm_map_if_not_mapped\<close>; \<open>Some\<close> status is its early return.\<close>

definition map_if_not_mapped_step :: "u32 \<Rightarrow> 'a vmm_scheme \<Rightarrow> (kernel_status option \<times> 'a vmm_scheme) option" where
  "map_if_not_mapped_step va s =
     Option.bind (vmm_get_physical_addr va s) (\<lambda>current_phys.
       if current_phys = 0
       then map_option (\<lambda>(st, s1). (if st \<noteq> KERNEL_OK then Some st else None, s1))
              (vmm_map_page va va (PAGE_FLAG_PRESENT OR PAGE_FLAG_RW OR PAGE_FLAG_GLOBAL) s)
       else if current_phys \<noteq> va then Some (Some KERNEL_INVALID_PARAM, s)
       else Some (None, s))"

definition vmm_map_if_not_mapped :: "u32 \<Rightarrow> u32 \<Rightarrow> 'a vmm_scheme \<Rightarrow> (kernel_status \<times> 'a vmm_scheme) option" where
  "vmm_map_if_not_mapped phys_start sz s =
     (let start = ALIGN_DOWN phys_start PAGE_SIZE;
          e = ALIGN_UP (phys_start + sz) PAGE_SIZE;
          num_pages = (e - start) div PAGE_SIZE
      in map_option (\<lambda>(r, s'). (case r of None \<Rightarrow> KERNEL_OK | Some st \<Rightarrow> st, s'))
           (for_ret 0 num_pages (\<lambda>i. map_if_not_mapped_step (start + i * PAGE_SIZE)) s))"

definition vmm_switch_directory :: "u32 \<Rightarrow> 'a vmm_scheme \<Rightarrow> 'a vmm_scheme" where
  "vmm_switch_directory dir s = s\<lparr>cr3 := dir\<rparr>"

definition vmm_enable_paging :: "'a vmm_scheme \<Rightarrow> 'a vmm_scheme" where
  "vmm_enable_paging s = s\<lparr>paging := True\<rparr>"

section \<open>Addresses, indices and cells\<close>

abbreviation frame :: "u32 \<Rightarrow> u32" where
  "frame a \<equiv> a AND NOT 0xFFF"

lemma unat_pd_index: "unat (pd_index va) = unat va div 2 ^ 22"
  by (simp add: pd_index_def drop_bit_eq_div unat_div_distrib)

lemma unat_pt_index: "unat (pt_index va) = unat va div 4096 mod 1024"
proof -
  have "(0x3FF :: u32) = mask 10" by (simp add: mask_eq_exp_minus_1)
  then show ?thesis
    using unat_and_mask [of "drop_bit 12 va" 10]
    by (simp add: pt_index_def drop_bit_eq_div unat_div_distrib)
qed

lemma index_bounds [simp]: "pd_index va < 1024" "pt_index va < 1024"
proof -
  have "unat va div 2 ^ 22 < 1024" by (rule less_mult_imp_div_less) simp
  then show "pd_index va < 1024" "pt_index va < 1024"
    by (simp_all add: word_less_nat_alt unat_pd_index unat_pt_index)
qed

text \<open>The page of an address is its pair of indices.\<close>

lemma same_page_iff:
  "frame va = frame vb \<longleftrightarrow> pd_index va = pd_index vb \<and> pt_index va = pt_index vb"
proof -
  have "frame va = frame vb \<longleftrightarrow> unat va div 4096 = unat vb div 4096"
    by (simp only: word_unat_eq_iff unat_page_base) auto
  also have "\<dots> \<longleftrightarrow> unat va div 2 ^ 22 = unat vb div 2 ^ 22 \<and>
      unat va div 4096 mod 1024 = unat vb div 4096 mod 1024"
  proof -
    have "x div 2 ^ 22 = x div 4096 div 1024" for x :: nat by (simp add: div_mult2_eq [symmetric])
    then show ?thesis by (metis div_mult_mod_eq)
  qed
  finally show ?thesis by (simp add: word_unat_eq_iff unat_pd_index unat_pt_index)
qed

lemma aligned_unat: "frame b = b \<longleftrightarrow> unat b mod 4096 = 0"
proof -
  have "frame b = b \<longleftrightarrow> unat b div 4096 * 4096 = unat b"
    by (simp only: word_unat_eq_iff unat_page_base)
  then show ?thesis by (metis add_cancel_right_right div_mult_mod_eq mod_mult_self2_is_0)
qed

lemma frame_frame [simp]: "frame (frame a) = frame a"
  by (simp add: and.assoc)

lemma unat_cell:
  assumes "frame b = b" and "i < 1024"
  shows "unat (cell b i) = unat b + 4 * unat i"
proof -
  have "unat b mod 4096 = 0" using assms(1) by (simp only: aligned_unat)
  then obtain k where k: "unat b = 4096 * k" by (metis dvdE mod_0_imp_dvd)
  then have "k < 2 ^ 20" using unat_lt(3) [of b] by simp
  moreover have "unat i < 1024" using assms(2) by (simp add: word_less_nat_alt)
  ultimately show ?thesis using k by (simp add: cell_def unat_word_ariths)
qed

lemma frame_cell [simp]: "frame b = b \<Longrightarrow> i < 1024 \<Longrightarrow> frame (cell b i) = b"
proof -
  assume b: "frame b = b" and i: "i < 1024"
  have "unat b mod 4096 = 0" using b by (simp only: aligned_unat)
  then obtain k where k: "unat b = 4096 * k" by (metis dvdE mod_0_imp_dvd)
  have "4 * unat i < 4096" using i by (simp add: word_less_nat_alt)
  then have "unat (frame (cell b i)) = unat b"
    by (simp only: unat_page_base unat_cell [OF b i]) (simp add: k)
  then show ?thesis by (simp only: word_unat_eq_iff)
qed

lemma cell_inj [simp]:
  assumes "frame b = b" "i < 1024" "frame c = c" "j < 1024"
  shows "cell b i = cell c j \<longleftrightarrow> b = c \<and> i = j"
proof
  assume eq: "cell b i = cell c j"
  then have "b = c" using frame_cell assms by metis
  moreover have "unat (cell b i) = unat (cell c j)" using eq by simp
  ultimately show "b = c \<and> i = j"
    using assms by (simp add: unat_cell word_unat_eq_iff)
qed simp

text \<open>Where the recursive window lies.\<close>

lemma unat_window:
  assumes "i < 1024" and "j < 1024"
  shows "unat (cell (PAGE_RECURSIVE_PT_BASE + push_bit 12 i) j) = 1023 * 2 ^ 22 + unat i * 4096 + 4 * unat j"
proof -
  have i: "unat i < 1024" and j: "unat j < 1024" using assms by (simp_all add: word_less_nat_alt)
  then have "unat (push_bit 12 i :: u32) = unat i * 4096"
    by (simp add: push_bit_eq_mult unat_word_ariths)
  with i j show ?thesis by (simp add: cell_def unat_word_ariths)
qed

lemma window_index:
  assumes "i < 1024" and "j < 1024"
  defines "va \<equiv> cell (PAGE_RECURSIVE_PT_BASE + push_bit 12 i) j"
  shows "pd_index va = PAGE_RECURSIVE_SLOT" "pt_index va = i" "unat (va AND 0xFFF) = 4 * unat j"
proof -
  have i: "unat i < 1024" and j: "unat j < 1024" using assms by (simp_all add: word_less_nat_alt)
  have va: "unat va = (1023 * 1024 + unat i) * 4096 + 4 * unat j"
    using unat_window [OF assms(1,2)] by (simp add: va_def)
  have d: "unat va div 4096 = 1023 * 1024 + unat i" using va j by simp
  have "unat va div 2 ^ 22 = unat va div 4096 div 1024" by (simp add: div_mult2_eq [symmetric])
  then show "pd_index va = PAGE_RECURSIVE_SLOT" using d i by (simp add: word_unat_eq_iff unat_pd_index)
  show "pt_index va = i"
  proof -
    have "(1023 * 1024 + unat i) mod 1024 = unat i mod 1024" by (rule mod_mult_self3)
    then show ?thesis using i by (simp add: word_unat_eq_iff unat_pt_index d)
  qed
  show "unat (va AND 0xFFF) = 4 * unat j"
  proof -
    have "unat va mod 4096 = 4 * unat j mod 4096" unfolding va by (rule mod_mult_self3)
    then show ?thesis using j by (simp add: unat_page_offset)
  qed
qed

lemma window_pd: "cell PAGE_RECURSIVE_PD i = cell (PAGE_RECURSIVE_PT_BASE + push_bit 12 1023) i"
  by simp

lemma frame_or_low:
  assumes "frame b = b" and "frame x = 0"
  shows "b OR x = b + x" "frame (b OR x) = b"
proof -
  show "frame (b OR x) = b" using assms by (simp add: bit.conj_disj_distrib2)
  have "b AND x = 0"
  proof -
    have "b AND x = frame b AND x" using assms(1) by simp
    also have "\<dots> = b AND frame x" by (simp only: and.assoc and.commute [of x])
    finally show ?thesis using assms(2) by simp
  qed
  then show "b OR x = b + x" by (simp add: disjunctive_add_eq_or)
qed

section \<open>Well-formed address spaces\<close>

definition pde :: "'a vmm_scheme \<Rightarrow> u32 \<Rightarrow> u32" where
  "pde s i = mem s (cell (kpd s) i)"

definition has_table :: "'a vmm_scheme \<Rightarrow> u32 \<Rightarrow> bool" where
  "has_table s i \<longleftrightarrow> pde s i AND PAGE_FLAG_PRESENT \<noteq> 0"

definition table :: "'a vmm_scheme \<Rightarrow> u32 \<Rightarrow> u32" where
  "table s i = frame (pde s i)"

text \<open>A frame is in use when the page allocator will not hand it out.\<close>

definition frame_taken :: "'a pmm_scheme \<Rightarrow> u32 \<Rightarrow> bool" where
  "frame_taken s f \<longleftrightarrow> unat f div 4096 \<notin> free_frames s"

text \<open>
  The invariant: the directory and every page table occupy a frame of their own that the allocator
  has not free, and once paging is on the processor walks this directory, whose last slot maps the
  directory itself.
\<close>

definition vmm_wf :: "'a vmm_scheme \<Rightarrow> bool" where
  "vmm_wf s \<longleftrightarrow>
     pmm_inv s \<and> frame (kpd s) = kpd s \<and> frame_taken s (kpd s) \<and>
     (\<forall>i < PAGE_RECURSIVE_SLOT. has_table s i \<longrightarrow>
        frame_taken s (table s i) \<and> table s i \<noteq> kpd s) \<and>
     (\<forall>i < PAGE_RECURSIVE_SLOT. \<forall>j < PAGE_RECURSIVE_SLOT.
        has_table s i \<and> has_table s j \<and> i \<noteq> j \<longrightarrow> table s i \<noteq> table s j) \<and>
     (paging s \<longrightarrow> cr3 s = kpd s \<and>
        pde s PAGE_RECURSIVE_SLOT = (kpd s OR PAGE_FLAG_PRESENT OR PAGE_FLAG_RW))"

text \<open>The mapping a state describes, by the processor's own walk of the kernel directory.\<close>

definition translate :: "'a vmm_scheme \<Rightarrow> u32 \<Rightarrow> u32 option" where
  "translate s va = page_walk (mem s) (kpd s) va"

text \<open>Addresses outside the recursive window.\<close>

definition below_window :: "u32 \<Rightarrow> bool" where
  "below_window va \<longleftrightarrow> pd_index va < PAGE_RECURSIVE_SLOT"

lemma lt_1023_1024: "i < (1023 :: u32) \<Longrightarrow> i < 1024"
  by (simp add: word_less_nat_alt)

lemma frame_table [simp]: "frame (table s i) = table s i"
  by (simp add: table_def)

lemma frame_low [simp]: "frame (va AND 0xFFF) = 0"
  by (simp add: and.assoc)

lemma frame_rec_entry:
  assumes "frame b = b"
  shows "frame (b OR PAGE_FLAG_PRESENT OR PAGE_FLAG_RW) = b"
    and "(b OR PAGE_FLAG_PRESENT OR PAGE_FLAG_RW) AND PAGE_FLAG_PRESENT \<noteq> 0"
proof -
  have "(b OR 3) AND NOT 0xFFF = (b AND NOT 0xFFF)" by (simp add: bit.conj_disj_distrib2)
  with assms show "frame (b OR PAGE_FLAG_PRESENT OR PAGE_FLAG_RW) = b" by simp
  have "(b OR 3) AND 1 = (b AND 1) OR 1" by (simp add: bit.conj_disj_distrib2)
  moreover have "(b AND 1) OR 1 \<noteq> (0 :: u32)" by (metis or_eq_0_iff zero_neq_one)
  ultimately show "(b OR PAGE_FLAG_PRESENT OR PAGE_FLAG_RW) AND PAGE_FLAG_PRESENT \<noteq> 0" by simp
qed

lemma cell_of_offset:
  assumes "frame b = b" and "unat (x AND 0xFFF) = 4 * unat j"
  shows "b OR (x AND 0xFFF) = cell b j"
proof -
  have "x AND 0xFFF = 4 * j"
  proof -
    have "4 * unat j < 4096" using assms(2) by (simp add: unat_page_offset)
    then show ?thesis using assms(2) by (simp add: word_unat_eq_iff unat_word_ariths)
  qed
  with frame_or_low [OF assms(1) frame_low, of x] show ?thesis by (simp add: cell_def)
qed

text \<open>
  The window theorem: once paging is on, the virtual cells the code uses are the physical cells of
  the directory and of the page tables.
\<close>

lemma mmu_window_table:
  assumes wf: "vmm_wf s" and pg: "paging s" and i: "i < PAGE_RECURSIVE_SLOT" and tab: "has_table s i"
    and j: "j < 1024"
  shows "mmu s (cell (PAGE_RECURSIVE_PT_BASE + push_bit 12 i) j) = Some (cell (table s i) j)"
proof -
  note ix = window_index [OF lt_1023_1024 [OF i] j]
  have k: "frame (kpd s) = kpd s" "cr3 s = kpd s"
      "mem s (cell (kpd s) 1023) = (kpd s OR PAGE_FLAG_PRESENT OR PAGE_FLAG_RW)"
    using wf pg by (auto simp: vmm_wf_def pde_def)
  then show ?thesis
    using pg ix tab frame_rec_entry [OF k(1)] cell_of_offset [OF frame_table [of s i] ix(3)]
    by (simp add: mmu_def page_walk_def Let_def has_table_def table_def pde_def)
qed

lemma mmu_window_pd:
  assumes wf: "vmm_wf s" and pg: "paging s" and i: "i < 1024"
  shows "mmu s (cell PAGE_RECURSIVE_PD i) = Some (cell (kpd s) i)"
proof -
  have "(1023 :: u32) < 1024" by simp
  note ix = window_index [OF this i, folded window_pd]
  have k: "frame (kpd s) = kpd s" "cr3 s = kpd s"
      "mem s (cell (kpd s) 1023) = (kpd s OR PAGE_FLAG_PRESENT OR PAGE_FLAG_RW)"
    using wf pg by (auto simp: vmm_wf_def pde_def)
  then show ?thesis
    using pg ix frame_rec_entry [OF k(1)] cell_of_offset [OF k(1) ix(3)]
    by (simp add: mmu_def page_walk_def Let_def)
qed

section \<open>What keeps an address space well formed\<close>

lemma pmm_keeps_machine:
  "pmm_alloc_page s = (p, s1) \<Longrightarrow>
     mem s1 = mem s \<and> cr3 s1 = cr3 s \<and> paging s1 = paging s \<and> kpd s1 = kpd s"
  "mem (pmm_free_page a s) = mem s \<and> cr3 (pmm_free_page a s) = cr3 s \<and>
     paging (pmm_free_page a s) = paging s \<and> kpd (pmm_free_page a s) = kpd s"
  by (auto simp: pmm_alloc_page_def bitmap_set_bit_def Let_def pmm_free_page_def
      mark_page_free_def bitmap_clear_bit_def count_free_def split: if_splits)

lemma frees_upd [simp]:
  "pmm_inv (s\<lparr>mem := m\<rparr>) = pmm_inv s" "free_frames (s\<lparr>mem := m\<rparr>) = free_frames s"
  "frame_taken (s\<lparr>mem := m\<rparr>) f = frame_taken s f"
proof -
  show f: "free_frames (s\<lparr>mem := m\<rparr>) = free_frames s"
    by (simp add: free_frames_def page_used_def)
  show "pmm_inv (s\<lparr>mem := m\<rparr>) = pmm_inv s"
    by (simp add: pmm_inv_def f bitmap_wf_def capacity_def page_used_def)
  show "frame_taken (s\<lparr>mem := m\<rparr>) f = frame_taken s f" by (simp add: frame_taken_def f)
qed

lemma vmm_wf_facts:
  assumes "vmm_wf s"
  shows "pmm_inv s" "frame (kpd s) = kpd s" "frame_taken s (kpd s)"
    "i < PAGE_RECURSIVE_SLOT \<Longrightarrow> has_table s i \<Longrightarrow> frame_taken s (table s i) \<and> table s i \<noteq> kpd s"
    "i < PAGE_RECURSIVE_SLOT \<Longrightarrow> j < PAGE_RECURSIVE_SLOT \<Longrightarrow> has_table s i \<Longrightarrow> has_table s j \<Longrightarrow>
       i \<noteq> j \<Longrightarrow> table s i \<noteq> table s j"
  using assms unfolding vmm_wf_def by blast+

lemma vmm_wf_keep:
  assumes wf: "vmm_wf s" and inv: "pmm_inv s'"
    and same: "kpd s' = kpd s" "cr3 s' = cr3 s" "paging s' = paging s"
    and free: "free_frames s' \<subseteq> free_frames s"
    and pdes: "\<And>i. i < 1024 \<Longrightarrow> pde s' i = pde s i"
  shows "vmm_wf s'"
proof -
  have eq: "has_table s' i = has_table s i" "table s' i = table s i" if "i < PAGE_RECURSIVE_SLOT" for i
    using pdes [OF lt_1023_1024 [OF that]] by (simp_all add: has_table_def table_def)
  have taken: "frame_taken s' f" if "frame_taken s f" for f
    using that free unfolding frame_taken_def by blast
  have "pde s' PAGE_RECURSIVE_SLOT = pde s PAGE_RECURSIVE_SLOT" by (rule pdes) simp
  then show ?thesis using wf inv same taken unfolding vmm_wf_def by (simp add: eq cong: imp_cong)
qed

text \<open>A store outside the directory's frame changes no directory entry.\<close>

lemma minus_cell [simp]: "b AND - 4096 = b \<Longrightarrow> i < 1024 \<Longrightarrow> cell b i AND - 4096 = b"
  using frame_cell [of b i] by simp

lemma pde_frame_cong:
  assumes "frame (kpd s) = kpd s" and "i < 1024"
    and "\<And>a. frame a = kpd s \<Longrightarrow> m a = mem s a"
  shows "pde (s\<lparr>mem := m\<rparr>) i = pde s i"
  using assms by (simp add: pde_def)

lemma vmm_wf_store:
  assumes wf: "vmm_wf s" and out: "\<And>a. frame a = kpd s \<Longrightarrow> m a = mem s a"
  shows "vmm_wf (s\<lparr>mem := m\<rparr>)"
proof (rule vmm_wf_keep [OF wf])
  show "pde (s\<lparr>mem := m\<rparr>) i = pde s i" if "i < 1024" for i
    by (rule pde_frame_cong [OF vmm_wf_facts(2) [OF wf] that out])
qed (use vmm_wf_facts(1) [OF wf] in simp_all)

lemma vmm_wf_alloc:
  assumes wf: "vmm_wf s" and ret: "pmm_alloc_page s = (p, s1)"
  shows "vmm_wf s1"
proof (rule vmm_wf_keep [OF wf])
  note k = pmm_keeps_machine(1) [OF ret]
  show "kpd s1 = kpd s" "cr3 s1 = cr3 s" "paging s1 = paging s" using k by auto
  show "pde s1 i = pde s i" for i using k by (simp add: pde_def)
  show "pmm_inv s1" by (rule pmm.alloc_inv [OF vmm_wf_facts(1) [OF wf] ret])
  show "free_frames s1 \<subseteq> free_frames s"
    by (rule pmm_alloc_page_cases [OF vmm_wf_facts(1) [OF wf] ret]) auto
qed

text \<open>A frame the allocator hands out is neither the directory nor one of the page tables.\<close>

lemma alloc_fresh:
  assumes wf: "vmm_wf s" and ret: "pmm_alloc_page s = (p, s1)" and p: "p \<noteq> 0"
  shows "frame p = p" "p \<noteq> kpd s" "frame_taken s1 p"
    "k < PAGE_RECURSIVE_SLOT \<Longrightarrow> has_table s k \<Longrightarrow> table s k \<noteq> p"
proof -
  note al = pmm.alloc_page_aligned [OF vmm_wf_facts(1) [OF wf] ret p]
  from al show "frame p = p" "frame_taken s1 p" by (simp_all add: frame_taken_def)
  from al vmm_wf_facts(3) [OF wf] show "p \<noteq> kpd s" by (auto simp: frame_taken_def)
  show "k < PAGE_RECURSIVE_SLOT \<Longrightarrow> has_table s k \<Longrightarrow> table s k \<noteq> p"
    using al vmm_wf_facts(4) [OF wf] by (auto simp: frame_taken_def)
qed

text \<open>The state in which a fresh frame \<open>p\<close> has become the page table of slot \<open>i\<close>.\<close>

definition install :: "u32 \<Rightarrow> u32 \<Rightarrow> 'a vmm_scheme \<Rightarrow> 'a vmm_scheme" where
  "install i p s =
     s\<lparr>mem := (mem s)(cell (kpd s) i := frame p OR PAGE_FLAG_PRESENT OR PAGE_FLAG_RW)\<rparr>"

lemma install_simps [simp]:
  "kpd (install i p s) = kpd s" "cr3 (install i p s) = cr3 s" "paging (install i p s) = paging s"
  by (simp_all add: install_def)

lemma install_pde:
  assumes "frame (kpd s) = kpd s" "i < 1024" "k < 1024" "frame p = p"
  shows "pde (install i p s) k = (if k = i then p OR PAGE_FLAG_PRESENT OR PAGE_FLAG_RW else pde s k)"
  using assms by (simp add: pde_def install_def)

lemma install_table:
  assumes "frame (kpd s) = kpd s" "i < 1024" "k < 1024" "frame p = p"
  shows "has_table (install i p s) k \<longleftrightarrow> k = i \<or> has_table s k"
    and "table (install i p s) k = (if k = i then p else table s k)"
  using install_pde [OF assms] frame_rec_entry [OF assms(4)]
  by (simp_all add: has_table_def table_def)

lemma vmm_wf_install:
  assumes wf: "vmm_wf s" and i: "i < PAGE_RECURSIVE_SLOT"
    and p: "frame p = p" "p \<noteq> kpd s" "frame_taken s p"
      "\<And>k. k < PAGE_RECURSIVE_SLOT \<Longrightarrow> has_table s k \<Longrightarrow> table s k \<noteq> p"
  shows "vmm_wf (install i p s)"
proof -
  note f = vmm_wf_facts [OF wf]
  note tab = install_table [OF f(2) lt_1023_1024 [OF i] lt_1023_1024 p(1)]
  have taken: "frame_taken (install i p s) = frame_taken s" "pmm_inv (install i p s) = pmm_inv s"
    by (simp_all add: install_def fun_eq_iff)
  have slot: "pde (install i p s) PAGE_RECURSIVE_SLOT = pde s PAGE_RECURSIVE_SLOT"
    using install_pde [OF f(2) lt_1023_1024 [OF i] _ p(1), of 1023] i by auto
  have a: "\<forall>k < PAGE_RECURSIVE_SLOT. has_table (install i p s) k \<longrightarrow>
      frame_taken s (table (install i p s) k) \<and> table (install i p s) k \<noteq> kpd s"
    using f(4) p by (simp add: tab)
  have b: "\<forall>k < PAGE_RECURSIVE_SLOT. \<forall>j < PAGE_RECURSIVE_SLOT.
      has_table (install i p s) k \<and> has_table (install i p s) j \<and> k \<noteq> j \<longrightarrow>
      table (install i p s) k \<noteq> table (install i p s) j"
    using f(5) p(4) by (auto simp: tab)
  from wf have c: "paging s \<longrightarrow> cr3 s = kpd s \<and>
      pde s PAGE_RECURSIVE_SLOT = (kpd s OR PAGE_FLAG_PRESENT OR PAGE_FLAG_RW)"
    unfolding vmm_wf_def by blast
  show ?thesis unfolding vmm_wf_def install_simps taken slot using f(1-3) a b c by blast
qed

section \<open>The mapping of an address space\<close>

definition pte :: "'a vmm_scheme \<Rightarrow> u32 \<Rightarrow> u32" where
  "pte s va = mem s (cell (table s (pd_index va)) (pt_index va))"

lemma translate_eq:
  "translate s va =
     (if has_table s (pd_index va) \<and> pte s va AND PAGE_FLAG_PRESENT \<noteq> 0
      then Some (frame (pte s va) OR (va AND 0xFFF)) else None)"
  by (simp add: translate_def page_walk_def Let_def pte_def has_table_def table_def pde_def)

text \<open>What the kernel can reach below the window; the specification the operations refine.\<close>

definition aspace :: "'a vmm_scheme \<Rightarrow> u32 \<Rightarrow> u32 option" where
  "aspace s va = (if below_window va then translate s va else None)"

definition bind_page :: "u32 \<Rightarrow> u32 option \<Rightarrow> (u32 \<Rightarrow> u32 option) \<Rightarrow> u32 \<Rightarrow> u32 option" where
  "bind_page va f m =
     (\<lambda>vb. if frame vb = frame va then map_option (\<lambda>b. b OR (vb AND 0xFFF)) f else m vb)"

lemma below_window_same_page: "frame va = frame vb \<Longrightarrow> below_window va = below_window vb"
  by (simp only: same_page_iff below_window_def)

lemma aspace_cong:
  assumes "\<And>va. below_window va \<Longrightarrow> translate s' va = translate s va"
  shows "aspace s' = aspace s"
  using assms by (simp add: aspace_def fun_eq_iff)

lemma translate_cong:
  assumes "pde s' (pd_index va) = pde s (pd_index va)"
    and "has_table s (pd_index va) \<Longrightarrow> pte s' va = pte s va"
  shows "translate s' va = translate s va"
  using assms by (auto simp: translate_eq has_table_def table_def)

lemma minus_table [simp]: "table s i AND - 4096 = table s i"
  using frame_table [of s i] by simp

text \<open>A new page table, cleared, maps nothing.\<close>

definition fresh_table :: "u32 \<Rightarrow> u32 \<Rightarrow> 'a vmm_scheme \<Rightarrow> 'a vmm_scheme" where
  "fresh_table i p s = (install i p s)\<lparr>mem := zero_frame p (mem (install i p s))\<rparr>"

lemma fresh_table_simps [simp]:
  "kpd (fresh_table i p s) = kpd s" "cr3 (fresh_table i p s) = cr3 s"
  "paging (fresh_table i p s) = paging s" "free_frames (fresh_table i p s) = free_frames s"
  by (simp_all add: fresh_table_def) (simp add: install_def)

lemma fresh_table_tables:
  assumes wf: "vmm_wf s" and i: "i < PAGE_RECURSIVE_SLOT" and p: "frame p = p" "p \<noteq> kpd s"
  shows "k < 1024 \<Longrightarrow> pde (fresh_table i p s) k = pde (install i p s) k"
    and "k < PAGE_RECURSIVE_SLOT \<Longrightarrow> has_table (fresh_table i p s) k \<longleftrightarrow> k = i \<or> has_table s k"
    and "k < PAGE_RECURSIVE_SLOT \<Longrightarrow> table (fresh_table i p s) k = (if k = i then p else table s k)"
proof -
  have out: "zero_frame p m a = m a" if "frame a \<noteq> p" for m a using that p(1) by (simp add: zero_frame_def)
  note k = vmm_wf_facts(2) [OF wf]
  show pde: "pde (fresh_table i p s) k = pde (install i p s) k" if "k < 1024" for k
    unfolding fresh_table_def
    by (rule pde_frame_cong) (use k that out p(2) in auto)
  note tab = install_table [OF k lt_1023_1024 [OF i] lt_1023_1024 p(1)]
  show "k < PAGE_RECURSIVE_SLOT \<Longrightarrow> has_table (fresh_table i p s) k \<longleftrightarrow> k = i \<or> has_table s k"
    "k < PAGE_RECURSIVE_SLOT \<Longrightarrow> table (fresh_table i p s) k = (if k = i then p else table s k)"
    using pde [OF lt_1023_1024] tab by (simp_all add: has_table_def table_def)
qed

lemma fresh_table_wf:
  assumes wf: "vmm_wf s" and i: "i < PAGE_RECURSIVE_SLOT"
    and p: "frame p = p" "p \<noteq> kpd s" "frame_taken s p"
      "\<And>k. k < PAGE_RECURSIVE_SLOT \<Longrightarrow> has_table s k \<Longrightarrow> table s k \<noteq> p"
    and new: "\<not> has_table s i"
  shows "vmm_wf (fresh_table i p s)" "has_table (fresh_table i p s) i"
    "aspace (fresh_table i p s) = aspace s"
proof -
  note f = vmm_wf_facts [OF wf]
  have out: "zero_frame p m a = m a" if "frame a \<noteq> p" for m a using that p(1) by (simp add: zero_frame_def)
  show "vmm_wf (fresh_table i p s)" unfolding fresh_table_def
    by (rule vmm_wf_store [OF vmm_wf_install [OF wf i p]]) (use out p(2) in auto)
  note pde = fresh_table_tables(1) [OF wf i p(1,2)] and has = fresh_table_tables(2) [OF wf i p(1,2)]
    and table = fresh_table_tables(3) [OF wf i p(1,2)]
  show "has_table (fresh_table i p s) i" using has [OF i] by simp
  show "aspace (fresh_table i p s) = aspace s"
  proof (rule aspace_cong)
    fix va assume low: "below_window va"
    let ?k = "pd_index va"
    have k: "?k < PAGE_RECURSIVE_SLOT" using low by (simp add: below_window_def)
    show "translate (fresh_table i p s) va = translate s va"
    proof (cases "?k = i")
      case True
      have "pte (fresh_table i p s) va = 0"
        using p(1) True table [OF k] by (simp add: pte_def fresh_table_def zero_frame_def)
      then show ?thesis using True new by (simp add: translate_eq)
    next
      case False
      show ?thesis
      proof (rule translate_cong)
        show "pde (fresh_table i p s) ?k = pde s ?k"
          using pde [of ?k] install_pde [OF f(2) lt_1023_1024 [OF i] _ p(1), of ?k] False by simp
        assume h: "has_table s ?k"
        have "table s ?k \<noteq> p" "table s ?k \<noteq> kpd s" using p(4) f(4) k h by blast+
        then show "pte (fresh_table i p s) va = pte s va"
          using False table [OF k] f(2) lt_1023_1024 [OF i] p(1)
          by (simp add: pte_def out) (simp add: fresh_table_def install_def zero_frame_def)
      qed
    qed
  qed
qed

section \<open>The two ways to reach a page table agree\<close>

lemma ensure_table_direct_eq:
  "ensure_table_direct i s =
     (if has_table s i then Inr s
      else let (p, s1) = pmm_alloc_page s in if p = 0 then Inl s1 else Inr (fresh_table i p s1))"
  by (simp add: ensure_table_direct_def has_table_def pde_def fresh_table_def install_def
      split: prod.split)

lemma ensure_table_cases:
  assumes wf: "vmm_wf s" and i: "i < PAGE_RECURSIVE_SLOT"
  obtains (oom) "ensure_table_direct i s = Inl s" "free_frames s = {}" "\<not> has_table s i"
  | (ok) s1 where "ensure_table_direct i s = Inr s1" "vmm_wf s1" "has_table s1 i"
      "kpd s1 = kpd s" "paging s1 = paging s" "cr3 s1 = cr3 s" "aspace s1 = aspace s"
      "free_frames s1 \<subseteq> free_frames s"
proof (cases "has_table s i")
  case True
  show ?thesis by (rule ok [of s]) (use True wf in \<open>simp_all add: ensure_table_direct_eq\<close>)
next
  case new: False
  obtain p s1 where ret: "pmm_alloc_page s = (p, s1)" by fastforce
  note k = pmm_keeps_machine(1) [OF ret]
  note cases = pmm_alloc_page_cases [OF vmm_wf_facts(1) [OF wf] ret]
  show ?thesis
  proof (cases "p = 0")
    case True
    then have "s1 = s" "free_frames s = {}" using cases by blast+
    with True new ret show ?thesis by (intro oom) (simp_all add: ensure_table_direct_eq)
  next
    case False
    note wf1 = vmm_wf_alloc [OF wf ret]
    note fr = alloc_fresh [OF wf ret False]
    have tab: "has_table s1 j = has_table s j" "table s1 j = table s j" "pte s1 va = pte s va" for j va
      using k by (simp_all add: has_table_def table_def pde_def pte_def)
    note fresh = fresh_table_wf [OF wf1 i fr(1)]
    have "aspace s1 = aspace s" by (rule aspace_cong) (simp add: translate_eq tab)
    moreover have "free_frames s1 \<subseteq> free_frames s" using cases by blast
    ultimately show ?thesis using fresh fr k new False ret
      by (intro ok [of "fresh_table i p s1"]) (simp_all add: ensure_table_direct_eq tab)
  qed
qed

lemma vread_pd:
  "vmm_wf s \<Longrightarrow> paging s \<Longrightarrow> i < 1024 \<Longrightarrow> vread (cell PAGE_RECURSIVE_PD i) s = Some (pde s i)"
  by (simp only: vread_def mmu_window_pd pde_def option.map)

lemma vwrite_pd:
  "vmm_wf s \<Longrightarrow> paging s \<Longrightarrow> i < 1024 \<Longrightarrow>
   vwrite (cell PAGE_RECURSIVE_PD i) v s = Some (s\<lparr>mem := (mem s)(cell (kpd s) i := v)\<rparr>)"
  by (simp only: vwrite_def mmu_window_pd option.map)

lemma vread_table:
  "vmm_wf s \<Longrightarrow> paging s \<Longrightarrow> i < PAGE_RECURSIVE_SLOT \<Longrightarrow> has_table s i \<Longrightarrow> j < 1024 \<Longrightarrow>
   vread (cell (PAGE_RECURSIVE_PT_BASE + push_bit 12 i) j) s = Some (mem s (cell (table s i) j))"
  by (simp only: vread_def mmu_window_table option.map)

lemma vwrite_table:
  "vmm_wf s \<Longrightarrow> paging s \<Longrightarrow> i < PAGE_RECURSIVE_SLOT \<Longrightarrow> has_table s i \<Longrightarrow> j < 1024 \<Longrightarrow>
   vwrite (cell (PAGE_RECURSIVE_PT_BASE + push_bit 12 i) j) v s =
     Some (s\<lparr>mem := (mem s)(cell (table s i) j := v)\<rparr>)"
  by (simp only: vwrite_def mmu_window_table option.map)

lemma vzero_table:
  assumes "vmm_wf s" "paging s" "i < PAGE_RECURSIVE_SLOT" "has_table s i"
  shows "vzero_page (PAGE_RECURSIVE_PT_BASE + push_bit 12 i) s =
     Some (s\<lparr>mem := zero_frame (table s i) (mem s)\<rparr>)"
  using mmu_window_table [OF assms, of 0] by (simp add: vzero_page_def cell_def)

text \<open>The window code does what the direct code does, and does not fault.\<close>

lemma ensure_table_window_eq:
  assumes wf: "vmm_wf s" and pg: "paging s" and i: "i < PAGE_RECURSIVE_SLOT"
  shows "ensure_table_window i s = Some (ensure_table_direct i s)"
proof (cases "has_table s i")
  case True
  then show ?thesis using vread_pd [OF wf pg lt_1023_1024 [OF i]]
    by (simp add: ensure_table_window_def ensure_table_direct_eq has_table_def)
next
  case new: False
  obtain p s1 where ret: "pmm_alloc_page s = (p, s1)" by fastforce
  have pd: "vread (cell PAGE_RECURSIVE_PD i) s = Some (pde s i)" "pde s i AND PAGE_FLAG_PRESENT = 0"
    using vread_pd [OF wf pg lt_1023_1024 [OF i]] new by (simp_all add: has_table_def)
  show ?thesis
  proof (cases "p = 0")
    case True
    with new ret pd show ?thesis by (simp add: ensure_table_window_def ensure_table_direct_eq)
  next
    case False
    note k = pmm_keeps_machine(1) [OF ret]
    note wf1 = vmm_wf_alloc [OF wf ret]
    note fr = alloc_fresh [OF wf ret False]
    have tab: "has_table s1 j = has_table s j" "table s1 j = table s j" for j
      using k by (simp_all add: has_table_def table_def pde_def)
    have wf2: "vmm_wf (install i p s1)"
      by (rule vmm_wf_install [OF wf1 i fr(1)]) (use fr k tab in auto)
    have i4: "i < 1024" by (rule lt_1023_1024 [OF i])
    have has: "has_table (install i p s1) i" "table (install i p s1) i = p"
      using install_table [OF vmm_wf_facts(2) [OF wf1] i4 i4 fr(1)] by simp_all
    have w: "vwrite (cell PAGE_RECURSIVE_PD i) (frame p OR PAGE_FLAG_PRESENT OR PAGE_FLAG_RW) s1
        = Some (install i p s1)"
      using vwrite_pd [OF wf1 _ i4] k pg by (simp add: install_def)
    have z: "vzero_page (PAGE_RECURSIVE_PT_BASE + push_bit 12 i) (install i p s1)
        = Some (fresh_table i p s1)"
      using vzero_table [OF wf2 _ i has(1)] k pg has(2) by (simp add: fresh_table_def)
    show ?thesis unfolding ensure_table_window_def pd(1) ret
      using w z False pd(2) new by (simp add: ensure_table_direct_eq ret)
  qed
qed

section \<open>Single pages\<close>

definition set_pte :: "u32 \<Rightarrow> u32 \<Rightarrow> 'a vmm_scheme \<Rightarrow> 'a vmm_scheme" where
  "set_pte va v s = s\<lparr>mem := (mem s)(cell (table s (pd_index va)) (pt_index va) := v)\<rparr>"

lemma set_pte_simps [simp]:
  "kpd (set_pte va v s) = kpd s" "cr3 (set_pte va v s) = cr3 s" "paging (set_pte va v s) = paging s"
  "free_frames (set_pte va v s) = free_frames s"
  by (simp_all add: set_pte_def)

lemma set_pte_spec:
  assumes wf: "vmm_wf s" and low: "below_window va" and tab: "has_table s (pd_index va)"
  shows "vmm_wf (set_pte va v s)"
    and "aspace (set_pte va v s) =
           bind_page va (if v AND PAGE_FLAG_PRESENT \<noteq> 0 then Some (frame v) else None) (aspace s)"
proof -
  note f = vmm_wf_facts [OF wf]
  have i: "pd_index va < PAGE_RECURSIVE_SLOT" using low by (simp add: below_window_def)
  have t: "table s (pd_index va) \<noteq> kpd s" using f(4) [OF i tab] by blast
  show "vmm_wf (set_pte va v s)" unfolding set_pte_def
    by (rule vmm_wf_store [OF wf]) (use t in auto)
  have pde: "pde (set_pte va v s) k = pde s k" if "k < 1024" for k
    unfolding set_pte_def by (rule pde_frame_cong) (use f(2) that t in auto)
  then have same: "has_table (set_pte va v s) k = has_table s k" "table (set_pte va v s) k = table s k"
    if "k < 1024" for k using that by (simp_all add: has_table_def table_def)
  show "aspace (set_pte va v s) =
      bind_page va (if v AND PAGE_FLAG_PRESENT \<noteq> 0 then Some (frame v) else None) (aspace s)"
  proof
    fix vb
    let ?b = "bind_page va (if v AND PAGE_FLAG_PRESENT \<noteq> 0 then Some (frame v) else None) (aspace s) vb"
    consider "frame vb = frame va" | "\<not> below_window vb" | "below_window vb" "frame vb \<noteq> frame va"
      by blast
    then show "aspace (set_pte va v s) vb = ?b"
    proof cases
      case 1
      then have ix: "pd_index vb = pd_index va" "pt_index vb = pt_index va"
        unfolding same_page_iff by blast+
      then have "pte (set_pte va v s) vb = v" by (simp add: pte_def same) (simp add: set_pte_def)
      then show ?thesis
        using tab 1 low ix by (simp add: aspace_def bind_page_def translate_eq same below_window_def)
    next
      case 2
      then show ?thesis using low below_window_same_page [of vb va]
        by (auto simp: aspace_def bind_page_def)
    next
      case 3
      have "pte (set_pte va v s) vb = pte s vb" if h: "has_table s (pd_index vb)"
      proof -
        have j: "pd_index vb < PAGE_RECURSIVE_SLOT" using 3(1) by (simp add: below_window_def)
        have "table s (pd_index vb) = table s (pd_index va) \<Longrightarrow> pd_index vb = pd_index va"
          using f(5) [OF j i h tab] by blast
        moreover have "pd_index vb = pd_index va \<Longrightarrow> pt_index vb \<noteq> pt_index va"
          using 3(2) unfolding same_page_iff by blast
        ultimately show ?thesis by (auto simp: pte_def same) (auto simp: set_pte_def)
      qed
      then have "translate (set_pte va v s) vb = translate s vb"
        by (intro translate_cong) (simp_all add: pde)
      with 3 show ?thesis by (simp add: aspace_def bind_page_def)
    qed
  qed
qed

text \<open>Each operation, on either side of \<^verbatim>\<open>vmm_enable_paging\<close>, in terms of page table entries.\<close>

lemma vmm_map_page_eq:
  assumes wf: "vmm_wf s" and low: "below_window va"
  shows "vmm_map_page va pa fl s = Some (case ensure_table_direct (pd_index va) s of
      Inl s1 \<Rightarrow> (KERNEL_OUT_OF_MEMORY, s1)
    | Inr s1 \<Rightarrow> if paging s \<and> pte s1 va AND PAGE_FLAG_PRESENT \<noteq> 0 \<and> frame (pte s1 va) \<noteq> frame pa
               then (KERNEL_ALREADY_MAPPED, s1)
               else (KERNEL_OK, set_pte va (frame pa OR (fl AND PTE_FLAGS_MASK)) s1))"
proof -
  have i: "pd_index va < PAGE_RECURSIVE_SLOT" using low by (simp add: below_window_def)
  from wf i show ?thesis
  proof (cases rule: ensure_table_cases)
    case oom
    then show ?thesis using ensure_table_window_eq [OF wf _ i] by (simp add: vmm_map_page_def Let_def)
  next
    case (ok s1)
    have r: "vread (cell (PAGE_RECURSIVE_PT_BASE + push_bit 12 (pd_index va)) (pt_index va)) s1 =
        Some (pte s1 va)" if "paging s"
      using vread_table [OF ok(2) _ i ok(3)] ok(5) that by (simp add: pte_def)
    have w: "vwrite (cell (PAGE_RECURSIVE_PT_BASE + push_bit 12 (pd_index va)) (pt_index va)) v s1 =
        Some (set_pte va v s1)" if "paging s" for v
      using vwrite_table [OF ok(2) _ i ok(3)] ok(5) that by (simp add: set_pte_def)
    show ?thesis
    proof (cases "paging s")
      case True
      show ?thesis unfolding vmm_map_page_def Let_def ensure_table_window_eq [OF wf True i] ok(1)
        by (simp only: True r w if_True bind.bind_lunit sum.case simp_thms) auto
    next
      case False
      then show ?thesis
        by (simp add: vmm_map_page_def Let_def ok(1) set_pte_def table_def pde_def)
    qed
  qed
qed

lemma vmm_unmap_page_eq:
  assumes wf: "vmm_wf s" and low: "below_window va"
  shows "vmm_unmap_page va s = Some (if translate s va = None then (KERNEL_INVALID_PARAM, s)
                                     else (KERNEL_OK, set_pte va 0 s))"
proof -
  have i: "pd_index va < PAGE_RECURSIVE_SLOT" using low by (simp add: below_window_def)
  have pd: "vread (cell PAGE_RECURSIVE_PD (pd_index va)) s = Some (pde s (pd_index va))" if "paging s"
    by (rule vread_pd [OF wf that]) simp
  have r: "vread (cell (PAGE_RECURSIVE_PT_BASE + push_bit 12 (pd_index va)) (pt_index va)) s =
        Some (pte s va)" if "paging s" "has_table s (pd_index va)"
    using vread_table [OF wf that(1) i that(2)] by (simp add: pte_def)
  have w: "vwrite (cell (PAGE_RECURSIVE_PT_BASE + push_bit 12 (pd_index va)) (pt_index va)) v s =
        Some (set_pte va v s)" if "paging s" "has_table s (pd_index va)" for v
    using vwrite_table [OF wf that(1) i that(2)] by (simp add: set_pte_def)
  show ?thesis
  proof (cases "paging s")
    case True
    then show ?thesis
    proof (cases "has_table s (pd_index va)")
      case tab: True
      then have "pde s (pd_index va) AND PAGE_FLAG_PRESENT \<noteq> 0" by (simp add: has_table_def)
      with tab show ?thesis unfolding vmm_unmap_page_def Let_def pd [OF True]
        by (simp only: True r w if_True bind.bind_lunit if_False translate_eq) auto
    next
      case False
      then have "pde s (pd_index va) AND PAGE_FLAG_PRESENT = 0" by (simp add: has_table_def)
      with False True show ?thesis unfolding vmm_unmap_page_def Let_def pd [OF True]
        by (simp add: translate_eq)
    qed
  next
    case False
    then show ?thesis
      by (auto simp: vmm_unmap_page_def Let_def translate_eq set_pte_def has_table_def pte_def table_def pde_def)
  qed
qed

lemma vmm_get_physical_addr_eq:
  assumes wf: "vmm_wf s" and low: "below_window va"
  shows "vmm_get_physical_addr va s = Some (case aspace s va of None \<Rightarrow> 0 | Some pa \<Rightarrow> pa)"
proof -
  have i: "pd_index va < PAGE_RECURSIVE_SLOT" using low by (simp add: below_window_def)
  have pd: "vread (cell PAGE_RECURSIVE_PD (pd_index va)) s = Some (pde s (pd_index va))" if "paging s"
    by (rule vread_pd [OF wf that]) simp
  have r: "vread (cell (PAGE_RECURSIVE_PT_BASE + push_bit 12 (pd_index va)) (pt_index va)) s =
        Some (pte s va)" if "paging s" "has_table s (pd_index va)"
    using vread_table [OF wf that(1) i that(2)] by (simp add: pte_def)
  show ?thesis
  proof (cases "paging s \<and> has_table s (pd_index va)")
    case True
    then have p: "pde s (pd_index va) AND PAGE_FLAG_PRESENT \<noteq> 0" "paging s" "has_table s (pd_index va)"
      by (simp_all add: has_table_def)
    then show ?thesis unfolding vmm_get_physical_addr_def Let_def pd [OF p(2)] aspace_def
      by (simp only: p r if_True bind.bind_lunit if_False translate_eq low) auto
  next
    case False
    then show ?thesis using pd
      by (auto simp: vmm_get_physical_addr_def Let_def translate_eq aspace_def low
          has_table_def pte_def table_def pde_def)
  qed
qed

text \<open>
  The contract of an address space: each operation returns (no fault), keeps the invariant, and
  changes the mapping as the specification \<open>bind_page\<close> says, or not at all when it reports failure.
\<close>

locale address_space =
  fixes inv :: "'s \<Rightarrow> bool"
    and view :: "'s \<Rightarrow> u32 \<Rightarrow> u32 option"
    and map_page :: "u32 \<Rightarrow> u32 \<Rightarrow> u32 \<Rightarrow> 's \<Rightarrow> (kernel_status \<times> 's) option"
    and unmap_page :: "u32 \<Rightarrow> 's \<Rightarrow> (kernel_status \<times> 's) option"
    and get_phys :: "u32 \<Rightarrow> 's \<Rightarrow> u32 option"
  assumes map_spec: "\<lbrakk>inv s; below_window va\<rbrakk> \<Longrightarrow>
        \<exists>st s'. map_page va pa fl s = Some (st, s') \<and> inv s' \<and>
          view s' = (if st = KERNEL_OK
                     then bind_page va (if fl AND PAGE_FLAG_PRESENT \<noteq> 0 then Some (frame pa) else None) (view s)
                     else view s)"
    and unmap_spec: "\<lbrakk>inv s; below_window va\<rbrakk> \<Longrightarrow>
        \<exists>st s'. unmap_page va s = Some (st, s') \<and> inv s' \<and>
          (st = KERNEL_OK \<longleftrightarrow> view s va \<noteq> None) \<and> view s' = bind_page va None (view s)"
    and get_spec: "\<lbrakk>inv s; below_window va\<rbrakk> \<Longrightarrow>
        get_phys va s = Some (case view s va of None \<Rightarrow> 0 | Some pa \<Rightarrow> pa)"
begin

lemma map_then_get:
  assumes "inv s" "below_window va" "map_page va pa fl s = Some (KERNEL_OK, s')"
    "fl AND PAGE_FLAG_PRESENT \<noteq> 0" "frame vb = frame va"
  shows "get_phys vb s' = Some (frame pa OR (vb AND 0xFFF))"
proof -
  have s': "inv s'" "view s' = bind_page va (Some (frame pa)) (view s)"
    using map_spec [OF assms(1,2), of pa fl] assms(3,4) by auto
  have "below_window vb" using below_window_same_page [OF assms(5)] assms(2) by blast
  from get_spec [OF s'(1) this] s'(2) assms(5) show ?thesis by (simp add: bind_page_def)
qed

lemma map_keeps_others:
  assumes "inv s" "below_window va" "map_page va pa fl s = Some (st, s')" "below_window vb"
    "frame vb \<noteq> frame va"
  shows "get_phys vb s' = get_phys vb s"
proof -
  have s': "inv s'" "view s' vb = view s vb"
    using map_spec [OF assms(1,2), of pa fl] assms(3,5) by (auto simp: bind_page_def split: if_splits)
  then show ?thesis by (simp add: get_spec assms)
qed

lemma map_unmap_restores:
  assumes "inv s" "below_window va" "\<And>vb. frame vb = frame va \<Longrightarrow> view s vb = None"
    "map_page va pa fl s = Some (KERNEL_OK, s1)"
  obtains st s2 where "unmap_page va s1 = Some (st, s2)" "inv s2" "view s2 = view s"
proof -
  obtain f where s1: "inv s1" "view s1 = bind_page va f (view s)"
    using map_spec [OF assms(1,2), of pa fl] assms(4) by auto
  obtain st s2 where s2: "unmap_page va s1 = Some (st, s2)" "inv s2" "view s2 = bind_page va None (view s1)"
    using unmap_spec [OF s1(1) assms(2)] by blast
  moreover have "bind_page va None (view s1) = view s"
    using assms(3) by (auto simp: s1(2) bind_page_def fun_eq_iff)
  ultimately show thesis using that by simp
qed

end

lemma frame_newpte:
  "frame (frame pa OR (fl AND PTE_FLAGS_MASK)) = frame pa"
  "(frame pa OR (fl AND PTE_FLAGS_MASK)) AND PAGE_FLAG_PRESENT = fl AND PAGE_FLAG_PRESENT"
proof -
  show "frame (frame pa OR (fl AND PTE_FLAGS_MASK)) = frame pa"
    by (simp add: bit.conj_disj_distrib2 and.assoc)
  have "frame pa AND PAGE_FLAG_PRESENT = 0" by (simp add: and.assoc)
  then show "(frame pa OR (fl AND PTE_FLAGS_MASK)) AND PAGE_FLAG_PRESENT = fl AND PAGE_FLAG_PRESENT"
    by (simp only: bit.conj_disj_distrib2 and.assoc or.left_neutral) simp
qed

lemma vmm_map_page_cases:
  assumes wf: "vmm_wf s" and low: "below_window va"
  obtains (ok) s' where "vmm_map_page va pa fl s = Some (KERNEL_OK, s')" "vmm_wf s'"
      "aspace s' = bind_page va (if fl AND PAGE_FLAG_PRESENT \<noteq> 0 then Some (frame pa) else None) (aspace s)"
      "paging s' = paging s" "kpd s' = kpd s" "free_frames s' \<subseteq> free_frames s"
      "paging s \<Longrightarrow> aspace s va = None \<or> aspace s va = Some (frame pa OR (va AND 0xFFF))"
  | (oom) "vmm_map_page va pa fl s = Some (KERNEL_OUT_OF_MEMORY, s)"
      "free_frames s = {}" "\<not> has_table s (pd_index va)"
  | (mapped) s' where "vmm_map_page va pa fl s = Some (KERNEL_ALREADY_MAPPED, s')" "vmm_wf s'"
      "aspace s' = aspace s" "paging s' = paging s" "kpd s' = kpd s" "free_frames s' \<subseteq> free_frames s"
      "paging s" "aspace s va \<noteq> None" "aspace s va \<noteq> Some (frame pa OR (va AND 0xFFF))"
proof -
  have i: "pd_index va < PAGE_RECURSIVE_SLOT" using low by (simp add: below_window_def)
  note eq = vmm_map_page_eq [OF wf low, of pa fl]
  from wf i show thesis
  proof (cases rule: ensure_table_cases)
    case a: oom
    with eq oom show thesis by simp
  next
    case a: (ok s1)
    show thesis
    proof (cases "paging s \<and> pte s1 va AND PAGE_FLAG_PRESENT \<noteq> 0 \<and> frame (pte s1 va) \<noteq> frame pa")
      case True
      have "aspace s va = Some (frame (pte s1 va) OR (va AND 0xFFF))"
        using True a(3) low a(7) by (simp add: aspace_def [of s1] translate_eq flip: a(7))
      moreover have "frame (pte s1 va) OR (va AND 0xFFF) \<noteq> frame pa OR (va AND 0xFFF)"
        using True frame_or_low(2) [OF frame_frame frame_low] by metis
      ultimately show thesis using mapped [of s1] True a eq by simp
    next
      case False
      then have "paging s \<Longrightarrow> aspace s va = None \<or> aspace s va = Some (frame pa OR (va AND 0xFFF))"
        unfolding a(7) [symmetric] by (auto simp: aspace_def translate_eq)
      with False show thesis using ok [of "set_pte va (frame pa OR (fl AND PTE_FLAGS_MASK)) s1"] a eq
          set_pte_spec [OF a(2) low a(3), of "frame pa OR (fl AND PTE_FLAGS_MASK)"]
        by (simp only: frame_newpte set_pte_simps sum.case if_False)
    qed
  qed
qed

lemma vmm_unmap_page_spec:
  assumes wf: "vmm_wf s" and low: "below_window va"
  shows "\<exists>st s'. vmm_unmap_page va s = Some (st, s') \<and> vmm_wf s' \<and>
      (st = KERNEL_OK \<longleftrightarrow> aspace s va \<noteq> None) \<and> aspace s' = bind_page va None (aspace s) \<and>
      paging s' = paging s \<and> kpd s' = kpd s \<and> free_frames s' = free_frames s"
proof (cases "translate s va = None")
  case True
  have "aspace s vb = None" if "frame vb = frame va" for vb
    using that True low unfolding same_page_iff
    by (auto simp: aspace_def translate_eq pte_def split: if_splits)
  then have "bind_page va None (aspace s) = aspace s" by (auto simp: bind_page_def fun_eq_iff)
  with True vmm_unmap_page_eq [OF wf low] wf low show ?thesis by (simp add: aspace_def)
next
  case False
  then have tab: "has_table s (pd_index va)" by (simp add: translate_eq split: if_splits)
  from False vmm_unmap_page_eq [OF wf low] set_pte_spec [OF wf low tab, of 0] low show ?thesis
    by (simp add: aspace_def)
qed

interpretation vmm: address_space vmm_wf aspace vmm_map_page vmm_unmap_page vmm_get_physical_addr
proof
  fix s :: "'a vmm_scheme" and va pa fl
  assume wf: "vmm_wf s" and low: "below_window va"
  from wf low show "\<exists>st s'. vmm_map_page va pa fl s = Some (st, s') \<and> vmm_wf s' \<and>
      aspace s' = (if st = KERNEL_OK
        then bind_page va (if fl AND PAGE_FLAG_PRESENT \<noteq> 0 then Some (frame pa) else None) (aspace s)
        else aspace s)"
    by (cases rule: vmm_map_page_cases [where pa = pa and fl = fl]) (simp_all add: wf)
  show "\<exists>st s'. vmm_unmap_page va s = Some (st, s') \<and> vmm_wf s' \<and>
      (st = KERNEL_OK \<longleftrightarrow> aspace s va \<noteq> None) \<and> aspace s' = bind_page va None (aspace s)"
    using vmm_unmap_page_spec [OF wf low] by blast
  show "vmm_get_physical_addr va s = Some (case aspace s va of None \<Rightarrow> 0 | Some pa \<Rightarrow> pa)"
    by (rule vmm_get_physical_addr_eq [OF wf low])
qed

section \<open>Properties\<close>

text \<open>A small machine, for concrete instances: 8 pages of which 0 to 2 are in use, the directory in page 1.\<close>

definition small_machine :: vmm where
  "small_machine = \<lparr>bits = [7], bits_addr = 0x2000, bm_size = 1, total_pages = 8, free_pages = 5,
     used_pages = 3, mem = (\<lambda>_. 0)(0x1FFC := 0x1003), cr3 = 0x1000, paging = True, kpd = 0x1000\<rparr>"

lemma small_machine_free: "free_frames small_machine = {3, 4, 5, 6, 7}"
proof -
  have "filter (\<lambda>n. \<not> page_used small_machine n) [0..<8] = [3, 4, 5, 6, 7]" by code_simp
  moreover have "unat (total_pages small_machine) = 8" by (simp add: small_machine_def)
  ultimately show ?thesis unfolding free_frames_list by (simp only: list.set)
qed

lemma small_machine_pmm_inv: "pmm_inv small_machine"
  unfolding pmm_inv_def small_machine_free
  by (auto simp: small_machine_def bitmap_wf_def capacity_def page_used_def)

lemma small_machine_pde: "i < PAGE_RECURSIVE_SLOT \<Longrightarrow> pde small_machine i = 0"
proof -
  assume i: "i < PAGE_RECURSIVE_SLOT"
  have "cell 0x1000 i = cell 0x1000 1023 \<longleftrightarrow> (0x1000 :: u32) = 0x1000 \<and> i = 1023"
    by (rule cell_inj) (use lt_1023_1024 [OF i] in simp_all)
  with i show ?thesis by (auto simp: pde_def small_machine_def cell_def)
qed

lemma small_machine_wf: "vmm_wf small_machine"
proof -
  have none: "\<not> has_table small_machine i" if "i < PAGE_RECURSIVE_SLOT" for i
    using small_machine_pde [OF that] by (simp add: has_table_def)
  have "pde small_machine 1023 = 0x1003" by (simp add: pde_def small_machine_def cell_def)
  moreover have "frame_taken small_machine (kpd small_machine)"
    by (simp add: frame_taken_def small_machine_free) (simp add: small_machine_def)
  ultimately show ?thesis
    using small_machine_pmm_inv none unfolding vmm_wf_def by (auto simp: small_machine_def)
qed

text \<open>Property C2. \<^verbatim>\<open>vmm_map_page\<close> never faults, keeps the address space well formed, and changes
  the mapping of exactly the one page when it returns \<^verbatim>\<open>KERNEL_OK\<close>, and of no page otherwise. It
  reports \<^verbatim>\<open>KERNEL_OUT_OF_MEMORY\<close> exactly when it needs a page table and no frame is free, and
  \<^verbatim>\<open>KERNEL_ALREADY_MAPPED\<close> exactly when paging is on and the page maps another frame.
\<close>

theorem vmm_map_page_refines:
  assumes "vmm_wf s" and "below_window va"
  shows "\<exists>st s'. vmm_map_page va pa fl s = Some (st, s') \<and> vmm_wf s' \<and>
           paging s' = paging s \<and> free_frames s' \<subseteq> free_frames s \<and>
           aspace s' = (if st = KERNEL_OK
             then bind_page va (if fl AND PAGE_FLAG_PRESENT \<noteq> 0 then Some (frame pa) else None) (aspace s)
             else aspace s) \<and>
           st \<in> {KERNEL_OK, KERNEL_OUT_OF_MEMORY, KERNEL_ALREADY_MAPPED} \<and>
           (st = KERNEL_OUT_OF_MEMORY \<longleftrightarrow> free_frames s = {} \<and> \<not> has_table s (pd_index va)) \<and>
           (st = KERNEL_ALREADY_MAPPED \<longleftrightarrow> paging s \<and>
              (\<exists>x. aspace s va = Some x \<and> x \<noteq> frame pa OR (va AND 0xFFF)))"
proof -
  have tab: "has_table s (pd_index va)" if "aspace s va = Some x" for x
    using that by (simp add: aspace_def translate_eq split: if_splits)
  have oom: "vmm_map_page va pa fl s = Some (KERNEL_OUT_OF_MEMORY, s)"
    if "free_frames s = {}" "\<not> has_table s (pd_index va)"
  proof -
    obtain p s1 where "pmm_alloc_page s = (p, s1)" by fastforce
    with pmm_alloc_page_cases [OF vmm_wf_facts(1) [OF assms(1)] this] that
    have "pmm_alloc_page s = (0, s)" by blast
    with that vmm_map_page_eq [OF assms] show ?thesis by (simp add: ensure_table_direct_eq)
  qed
  from assms show ?thesis
  proof (cases rule: vmm_map_page_cases [where pa = pa and fl = fl])
    case (ok s')
    with oom tab assms show ?thesis by auto
  next
    case oom
    with tab assms show ?thesis by auto
  next
    case (mapped s')
    with tab assms show ?thesis by auto
  qed
qed

theorem vmm_map_page_refines_witness:
  "vmm_wf small_machine \<and> below_window 0x400000 \<and>
   (\<exists>s'. vmm_map_page 0x400000 0x5000 3 small_machine = Some (KERNEL_OK, s') \<and>
         aspace s' = bind_page 0x400000 (Some 0x5000) (aspace small_machine))"
proof -
  have low: "below_window 0x400000" by (simp add: below_window_def pd_index_def)
  have none: "aspace small_machine 0x400000 = None"
    using small_machine_pde [of 1] by (simp add: aspace_def translate_eq has_table_def pd_index_def)
  have "free_frames small_machine \<noteq> {}" by (simp add: small_machine_free)
  from vmm_map_page_refines [OF small_machine_wf low, of "0x5000" 3] none this
  show ?thesis using small_machine_wf low by auto
qed

text \<open>Property C8. After a successful \<^verbatim>\<open>vmm_map_page\<close> with the present flag,
  \<^verbatim>\<open>vmm_get_physical_addr\<close> gives the new frame with the offset for every address of that page,
  and what it gave before for every other address below the recursive window.
\<close>

theorem vmm_map_get_roundtrip:
  assumes "vmm_wf s" and "below_window va" and "fl AND PAGE_FLAG_PRESENT \<noteq> 0"
    and "vmm_map_page va pa fl s = Some (KERNEL_OK, s')" and "below_window vb"
  shows "vmm_get_physical_addr vb s' =
           (if frame vb = frame va then Some (frame pa OR (vb AND 0xFFF)) else vmm_get_physical_addr vb s)"
  using vmm.map_then_get [OF assms(1,2,4,3)] vmm.map_keeps_others [OF assms(1,2,4,5)] by simp

theorem vmm_map_get_roundtrip_witness:
  "\<exists>s'. vmm_map_page 0x400000 0x5000 3 small_machine = Some (KERNEL_OK, s') \<and>
        vmm_get_physical_addr 0x400ABC s' = Some 0x5ABC"
proof -
  have low: "below_window 0x400000" "below_window 0x400ABC"
    by (simp_all add: below_window_def pd_index_def)
  have none: "aspace small_machine 0x400000 = None"
    using small_machine_pde [of 1] by (simp add: aspace_def translate_eq has_table_def pd_index_def)
  from small_machine_wf low(1)
  obtain s' where "vmm_map_page 0x400000 0x5000 3 small_machine = Some (KERNEL_OK, s')"
  proof (cases rule: vmm_map_page_cases [where pa = "0x5000" and fl = 3])
    case oom
    then show ?thesis by (simp add: small_machine_free)
  qed (use none that in auto)
  with vmm_map_get_roundtrip [OF small_machine_wf low(1) _ this low(2)] show ?thesis by simp
qed

text \<open>Property C9. \<^verbatim>\<open>vmm_unmap_page\<close> never faults; it returns \<^verbatim>\<open>KERNEL_OK\<close> exactly when the page was
  mapped; afterwards that page, and no other, maps nothing.
\<close>

theorem vmm_unmap_page_refines:
  assumes "vmm_wf s" and "below_window va"
  shows "\<exists>s'. vmm_unmap_page va s =
             Some (if aspace s va = None then KERNEL_INVALID_PARAM else KERNEL_OK, s') \<and>
           vmm_wf s' \<and> aspace s' = bind_page va None (aspace s)"
proof -
  have "aspace s va = translate s va" using assms(2) by (simp add: aspace_def)
  with vmm_unmap_page_spec [OF assms] vmm_unmap_page_eq [OF assms] show ?thesis by auto
qed

theorem vmm_unmap_page_refines_witness:
  "\<exists>s'. vmm_unmap_page 0x400000 small_machine = Some (KERNEL_INVALID_PARAM, s') \<and> vmm_wf s'"
proof -
  have low: "below_window 0x400000" by (simp add: below_window_def pd_index_def)
  have none: "aspace small_machine 0x400000 = None"
    using small_machine_pde [of 1] by (simp add: aspace_def translate_eq has_table_def pd_index_def)
  from vmm_unmap_page_refines [OF small_machine_wf low] none show ?thesis by auto
qed

text \<open>
  The code of \<^verbatim>\<open>vmm_map_page\<close> that goes through the recursive window, in virtual
  addresses translated by the MMU, finds or builds the page table exactly as the code that uses
  physical addresses before paging does.
\<close>

theorem window_table_equiv:
  assumes "vmm_wf s" and "paging s" and "i < PAGE_RECURSIVE_SLOT"
  shows "ensure_table_window i s = Some (ensure_table_direct i s)"
  by (rule ensure_table_window_eq [OF assms])

theorem window_table_equiv_witness:
  "ensure_table_window 1 small_machine = Some (ensure_table_direct 1 small_machine)"
  by (rule window_table_equiv [OF small_machine_wf]) (simp_all add: small_machine_def)

end
