(* ===== verification/Vmm_Pages.thy ===== *)
theory Vmm_Pages
  imports Vmm
begin

text \<open>
  The operations of \<^verbatim>\<open>src/mm/vmm.c\<close> on runs of pages: \<^verbatim>\<open>vmm_map_pages\<close> with its roll-back,
  \<^verbatim>\<open>vmm_map_range\<close>, \<^verbatim>\<open>vmm_is_range_mapped\<close>, \<^verbatim>\<open>vmm_unmap_pages\<close> and
  \<^verbatim>\<open>vmm_map_if_not_mapped\<close>. Their effect is stated on the mapping \<open>aspace\<close> of theory \<open>Vmm\<close>:
  \<open>map_run\<close> and \<open>unmap_run\<close> say what a run of pages should become.
\<close>

section \<open>Runs of pages\<close>

text \<open>The specification of a run of \<open>n\<close> pages from \<open>va\<close>, mapped to the frames from \<open>pa\<close> or to nothing.\<close>

definition in_run :: "u32 \<Rightarrow> nat \<Rightarrow> u32 \<Rightarrow> bool" where
  "in_run va n vb \<longleftrightarrow> unat va \<le> unat vb \<and> unat vb < unat va + n * 4096"

definition map_run :: "u32 \<Rightarrow> u32 \<Rightarrow> nat \<Rightarrow> (u32 \<Rightarrow> u32 option) \<Rightarrow> u32 \<Rightarrow> u32 option" where
  "map_run va pa n m = (\<lambda>vb. if in_run va n vb then Some (pa + (vb - va)) else m vb)"

definition unmap_run :: "u32 \<Rightarrow> nat \<Rightarrow> (u32 \<Rightarrow> u32 option) \<Rightarrow> u32 \<Rightarrow> u32 option" where
  "unmap_run va n m = (\<lambda>vb. if in_run va n vb then None else m vb)"

text \<open>The run stays below the recursive window (so it does not wrap either).\<close>

definition run_ok :: "u32 \<Rightarrow> nat \<Rightarrow> bool" where
  "run_ok va n \<longleftrightarrow> frame va = va \<and> unat va + n * 4096 \<le> 1023 * 2 ^ 22"

lemma below_window_unat: "below_window va \<longleftrightarrow> unat va < 1023 * 2 ^ 22"
  by (auto simp: below_window_def word_less_nat_alt unat_pd_index)

lemma aligned_add_pages:
  assumes "frame b = b"
  shows "frame (b + k * 4096) = b + k * 4096"
proof -
  have "unat b mod 4096 = 0" using assms by (simp only: aligned_unat)
  moreover have "unat (b + k * 4096) mod 4096 = (unat b + unat k * 4096) mod 4096"
    by (simp add: unat_word_ariths mod_mod_cancel mod_simps)
  ultimately have "unat (b + k * 4096) mod 4096 = 0" by simp
  then show ?thesis by (simp only: aligned_unat)
qed

lemma frame_split: "frame a + (a AND 0xFFF) = a"
proof -
  have "frame a OR (a AND 0xFFF) = a" by (simp flip: bit.conj_disj_distrib)
  then show ?thesis using frame_or_low(1) [OF frame_frame frame_low, of a a] by simp
qed

lemma unat_run_page:
  assumes "run_ok va n" and "unat i < n"
  shows "unat (va + i * 4096) = unat va + unat i * 4096" "below_window (va + i * 4096)"
    "frame (va + i * 4096) = va + i * 4096"
proof -
  have "unat va + unat i * 4096 < 1023 * 2 ^ 22" using assms by (simp add: run_ok_def)
  then show "unat (va + i * 4096) = unat va + unat i * 4096" by (simp add: unat_word_ariths)
  with \<open>unat va + unat i * 4096 < 1023 * 2 ^ 22\<close> show "below_window (va + i * 4096)"
    by (simp add: below_window_unat)
  show "frame (va + i * 4096) = va + i * 4096"
    using assms aligned_add_pages unfolding run_ok_def by blast
qed

lemma in_run_page:
  assumes "run_ok va n" and "unat i < n"
  shows "frame vb = frame (va + i * 4096) \<longleftrightarrow>
         unat va + unat i * 4096 \<le> unat vb \<and> unat vb < unat va + unat i * 4096 + 4096"
proof -
  note p = unat_run_page [OF assms]
  obtain k where k: "unat va = k * 4096"
    using assms(1) unfolding run_ok_def aligned_unat by (metis mod_0_imp_dvd dvdE mult.commute)
  have "frame vb = frame (va + i * 4096) \<longleftrightarrow> unat vb div 4096 * 4096 = (k + unat i) * 4096"
    unfolding p(3) by (simp only: word_unat_eq_iff unat_page_base p(1)) (simp add: k)
  also have "\<dots> \<longleftrightarrow> (k + unat i) * 4096 \<le> unat vb \<and> unat vb < (k + unat i) * 4096 + 4096"
    using div_nat_eqI [of 4096 "k + unat i" "unat vb"] div_times_less_eq_dividend [of "unat vb" 4096]
      dividend_less_div_times [of 4096 "unat vb"] by auto
  finally show ?thesis by (simp add: k)
qed

lemma in_run_Suc:
  assumes "run_ok va n" and "unat i < n"
  shows "in_run va (Suc (unat i)) vb \<longleftrightarrow> in_run va (unat i) vb \<or> frame vb = frame (va + i * 4096)"
  unfolding in_run_page [OF assms] by (auto simp: in_run_def)

lemma map_run_Suc:
  assumes "run_ok va n" and "unat i < n" and pa: "frame pa = pa"
  shows "bind_page (va + i * 4096) (Some (frame (pa + i * 4096))) (map_run va pa (unat i) m) =
         map_run va pa (Suc (unat i)) m"
proof
  fix vb
  show "bind_page (va + i * 4096) (Some (frame (pa + i * 4096))) (map_run va pa (unat i) m) vb =
        map_run va pa (Suc (unat i)) m vb"
  proof (cases "frame vb = frame (va + i * 4096)")
    case True
    have "vb = va + i * 4096 + (vb AND 0xFFF)"
      using frame_split [of vb] True unat_run_page(3) [OF assms(1,2)] by simp
    then have "pa + (vb - va) = pa + i * 4096 + (vb AND 0xFFF)" by (simp add: algebra_simps)
    also have "\<dots> = (pa + i * 4096) OR (vb AND 0xFFF)"
      using frame_or_low(1) [OF aligned_add_pages [OF pa] frame_low, of i vb] by simp
    finally show ?thesis
      using True in_run_Suc [OF assms(1,2), of vb] aligned_add_pages [OF pa, of i]
      by (simp add: bind_page_def map_run_def)
  next
    case False
    then show ?thesis using in_run_Suc [OF assms(1,2), of vb] by (auto simp: bind_page_def map_run_def)
  qed
qed

lemma unmap_run_Suc:
  assumes "run_ok va n" and "unat i < n"
  shows "bind_page (va + i * 4096) None (unmap_run va (unat i) m) = unmap_run va (Suc (unat i)) m"
  using in_run_Suc [OF assms] by (auto simp: bind_page_def unmap_run_def fun_eq_iff)

lemma run_0 [simp]: "map_run va pa 0 m = m" "unmap_run va 0 m = m"
  by (auto simp: map_run_def unmap_run_def in_run_def fun_eq_iff)

lemma unmap_map_run: "unmap_run va n (map_run va pa n m) = unmap_run va n m"
  by (simp add: map_run_def unmap_run_def fun_eq_iff)

lemma run_ok_mono: "run_ok va n \<Longrightarrow> k \<le> n \<Longrightarrow> run_ok va k"
  by (auto simp: run_ok_def)

section \<open>Mapping a run\<close>

lemma unmap_ignoring_spec:
  assumes wf: "vmm_wf s" and run: "run_ok va (unat n)"
  shows "\<exists>s'. unmap_ignoring va n s = Some s' \<and> vmm_wf s' \<and> aspace s' = unmap_run va (unat n) (aspace s) \<and>
           paging s' = paging s \<and> kpd s' = kpd s \<and> free_frames s' = free_frames s"
proof -
  let ?P = "\<lambda>k s'. vmm_wf s' \<and> aspace s' = unmap_run va k (aspace s) \<and>
              paging s' = paging s \<and> kpd s' = kpd s \<and> free_frames s' = free_frames s"
  let ?body = "\<lambda>j s. map_option (\<lambda>(st, s'). (None :: unit option, s')) (vmm_unmap_page (va + j * PAGE_SIZE) s)"
  have "\<exists>r s'. for_ret 0 n ?body s = Some (r, s') \<and>
      (case r of None \<Rightarrow> ?P (unat n) s' | Some v \<Rightarrow> \<exists>i. unat (0 :: u32) \<le> i \<and> i < unat n \<and> False)"
  proof (rule for_ret_rule)
    fix i :: u32 and s1
    assume P: "?P (unat i) s1" and "i < n"
    then have i: "unat i < unat n" by (simp add: word_less_nat_alt)
    from vmm_unmap_page_spec [OF conjunct1 [OF P] unat_run_page(2) [OF run i]] P
    show "\<exists>r s'. ?body i s1 = Some (r, s') \<and>
        (case r of None \<Rightarrow> ?P (Suc (unat i)) s' | Some v \<Rightarrow> False)"
      by (auto simp flip: unmap_run_Suc [OF run i])
  qed (use wf in simp_all)
  then show ?thesis by (auto simp: unmap_ignoring_def split: option.splits)
qed

text \<open>
  Either every page of the run is mapped, or the run has been rolled back: the pages before the one
  that failed are unmapped and everything else is as it was.
\<close>

lemma vmm_map_pages_spec:
  assumes wf: "vmm_wf s" and run: "run_ok va (unat n)" and pa: "frame pa = pa"
    and fl: "fl AND PAGE_FLAG_PRESENT \<noteq> 0"
  shows "\<exists>st s'. vmm_map_pages va pa n fl s = Some (st, s') \<and> vmm_wf s' \<and>
           paging s' = paging s \<and> kpd s' = kpd s \<and> free_frames s' \<subseteq> free_frames s \<and>
           (if st = KERNEL_OK then aspace s' = map_run va pa (unat n) (aspace s)
            else \<exists>k < unat n. aspace s' = unmap_run va k (aspace s))"
proof -
  let ?keep = "\<lambda>s'. vmm_wf s' \<and> paging s' = paging s \<and> kpd s' = kpd s \<and> free_frames s' \<subseteq> free_frames s"
  let ?P = "\<lambda>k s'. ?keep s' \<and> aspace s' = map_run va pa k (aspace s)"
  let ?Q = "\<lambda>k st s'. ?keep s' \<and> st \<noteq> KERNEL_OK \<and> aspace s' = unmap_run va k (aspace s)"
  let ?body = "\<lambda>i s. Option.bind (vmm_map_page (va + i * PAGE_SIZE) (pa + i * PAGE_SIZE) fl s)
            (\<lambda>(st, s1). if st \<noteq> KERNEL_OK
                         then map_option (\<lambda>s2. (Some st, s2)) (unmap_ignoring va i s1)
                         else Some (None, s1))"
  have "\<exists>r s'. for_ret 0 n ?body s = Some (r, s') \<and>
      (case r of None \<Rightarrow> ?P (unat n) s' | Some v \<Rightarrow> \<exists>i. unat (0 :: u32) \<le> i \<and> i < unat n \<and> ?Q i v s')"
  proof (rule for_ret_rule)
    fix i :: u32 and s1
    assume P: "?P (unat i) s1" and "i < n"
    then have i: "unat i < unat n" by (simp add: word_less_nat_alt)
    have run_i: "run_ok va (unat i)" using run_ok_mono [OF run] i by simp
    have rb: "\<exists>r s'. map_option (\<lambda>s2. (Some st, s2)) (unmap_ignoring va i s2) = Some (r, s') \<and>
        (case r of None \<Rightarrow> ?P (Suc (unat i)) s' | Some v \<Rightarrow> ?Q (unat i) v s')"
      if "?keep s2" "aspace s2 = aspace s1" "st \<noteq> KERNEL_OK" for st s2
      using unmap_ignoring_spec [OF conjunct1 [OF that(1)] run_i] that P by (auto simp: unmap_map_run)
    from P have wf1: "vmm_wf s1" by blast
    from wf1 unat_run_page(2) [OF run i]
    show "\<exists>r s'. ?body i s1 = Some (r, s') \<and>
        (case r of None \<Rightarrow> ?P (Suc (unat i)) s' | Some v \<Rightarrow> ?Q (unat i) v s')"
    proof (cases rule: vmm_map_page_cases [where pa = "pa + i * 4096" and fl = fl])
      case (ok s')
      with P fl show ?thesis by (auto simp: map_run_Suc [OF run i pa, symmetric])
    next
      case oom
      then show ?thesis using rb [of s1 KERNEL_OUT_OF_MEMORY] P by simp
    next
      case (mapped s')
      then have "free_frames s' \<subseteq> free_frames s" using P by blast
      with mapped show ?thesis using rb [of s' KERNEL_ALREADY_MAPPED] P by auto
    qed
  qed (use wf in simp_all)
  then obtain r s' where loop: "for_ret 0 n ?body s = Some (r, s')"
    and post: "case r of None \<Rightarrow> ?P (unat n) s' | Some v \<Rightarrow> \<exists>i. unat (0 :: u32) \<le> i \<and> i < unat n \<and> ?Q i v s'"
    by blast
  have "vmm_map_pages va pa n fl s = Some (case r of None \<Rightarrow> KERNEL_OK | Some st \<Rightarrow> st, s')"
    by (simp add: vmm_map_pages_def loop)
  then show ?thesis using post by (cases r) auto
qed
text \<open>The reclaiming loop of \<^verbatim>\<open>vmm_unmap_pages\<close>, one table at a time.\<close>

definition table_in_use :: "'a vmm_scheme \<Rightarrow> u32 \<Rightarrow> bool" where
  "table_in_use s i \<longleftrightarrow> (\<exists>j < 1024. mem s (cell (table s i) j) AND PAGE_FLAG_PRESENT \<noteq> 0)"

lemma table_empty_window_eq:
  assumes wf: "vmm_wf s" and pg: "paging s" and i: "i < PAGE_RECURSIVE_SLOT" and tab: "has_table s i"
  shows "table_empty_window (PAGE_RECURSIVE_PT_BASE + push_bit 12 i) s = Some (\<not> table_in_use s i)"
proof -
  let ?pt = "PAGE_RECURSIVE_PT_BASE + push_bit 12 i"
  let ?clear = "\<lambda>k. \<forall>j :: u32. unat j < k \<longrightarrow> mem s (cell (table s i) j) AND PAGE_FLAG_PRESENT = 0"
  let ?body = "\<lambda>j _. map_option (\<lambda>pte. (if pte AND PAGE_FLAG_PRESENT \<noteq> 0 then Some () else None, ()))
                  (vread (cell ?pt j) s)"
  have "\<exists>r u. for_ret 0 (1024 :: u32) ?body () = Some (r, u) \<and>
      (case r of None \<Rightarrow> ?clear (unat (1024 :: u32))
       | Some v \<Rightarrow> \<exists>k. unat (0 :: u32) \<le> k \<and> k < unat (1024 :: u32) \<and> table_in_use s i)"
  proof (rule for_ret_rule)
    fix j :: u32 and u :: unit
    assume P: "?clear (unat j)" and j: "j < 1024"
    have "?clear (Suc (unat j))" if "mem s (cell (table s i) j) AND PAGE_FLAG_PRESENT = 0"
      using P that by (metis less_SucE word_unat_eq_iff)
    then show "\<exists>r u'. ?body j u = Some (r, u') \<and>
        (case r of None \<Rightarrow> ?clear (Suc (unat j)) | Some v \<Rightarrow> table_in_use s i)"
      using vread_table [OF wf pg i tab j] j by (auto simp: table_in_use_def)
  qed simp_all
  moreover have "?clear 1024 \<longleftrightarrow> \<not> table_in_use s i"
    by (auto simp: table_in_use_def word_less_nat_alt)
  ultimately show ?thesis
    unfolding table_empty_window_def
    by (auto split: option.splits) (metis not_None_eq old.unit.exhaust)
qed

lemma reclaim_table_in_use:
  assumes "vmm_wf s" "paging s" "below_window va" "has_table s (pd_index va)" "table_in_use s (pd_index va)"
  shows "reclaim_table va s = Some (None, s)"
  using table_empty_window_eq [of s "pd_index va"] assms
  by (simp add: reclaim_table_def Let_def below_window_def)

text \<open>Clearing a directory entry takes its whole table out of the window.\<close>

lemma reclaim_table_empty:
  assumes wf: "vmm_wf s" and pg: "paging s" and low: "below_window va"
    and tab: "has_table s (pd_index va)" and no: "\<not> table_in_use s (pd_index va)"
  obtains s' where "reclaim_table va s = Some (None, s')" "cr3 s' = kpd s" "kpd s' = kpd s" "paging s'"
    "mem s' = (mem s)(cell (kpd s) (pd_index va) := 0)"
proof -
  let ?i = "pd_index va"
  have i: "?i < PAGE_RECURSIVE_SLOT" using low by (simp add: below_window_def)
  let ?s1 = "s\<lparr>mem := (mem s)(cell (kpd s) ?i := 0)\<rparr>"
  have "reclaim_table va s = Some (None, pmm_free_page (frame (pde s ?i)) ?s1)"
    using table_empty_window_eq [OF wf pg i tab] no tab
      vread_pd [OF wf pg lt_1023_1024 [OF i]] vwrite_pd [OF wf pg lt_1023_1024 [OF i]]
    by (simp add: reclaim_table_def Let_def has_table_def)
  moreover have "cr3 s = kpd s" using wf pg by (simp add: vmm_wf_def)
  ultimately show thesis
    using that pmm_keeps_machine(2) [of "frame (pde s ?i)" ?s1] pg by auto
qed

section \<open>Unmapping a run\<close>

lemma set_pte_pde:
  assumes "vmm_wf s" "below_window va" "has_table s (pd_index va)" "k < 1024"
  shows "pde (set_pte va v s) k = pde s k"
  unfolding set_pte_def
  by (rule pde_frame_cong) (use vmm_wf_facts(2,4) [OF assms(1)] assms in \<open>auto simp: below_window_def\<close>)

lemma vmm_unmap_page_pde:
  assumes "vmm_wf s" "below_window va" "vmm_unmap_page va s = Some (st, s')" "k < 1024"
  shows "pde s' k = pde s k" "st \<noteq> KERNEL_OK \<Longrightarrow> st = KERNEL_INVALID_PARAM"
  using assms vmm_unmap_page_eq [OF assms(1,2)] set_pte_pde [OF assms(1,2) _ assms(4), of 0]
  by (auto simp: translate_eq split: if_splits)

definition unmap_loop :: "u32 \<Rightarrow> u32 \<Rightarrow> 'a vmm_scheme \<Rightarrow> (kernel_status option \<times> 'a vmm_scheme) option" where
  "unmap_loop va n s =
     for_ret 0 n (\<lambda>i s. map_option (\<lambda>(st, s1). (if st \<noteq> KERNEL_OK then Some st else None, s1))
                  (vmm_unmap_page (va + i * PAGE_SIZE) s)) s"

lemma unmap_loop_cases:
  assumes wf: "vmm_wf s" and run: "run_ok va (unat n)"
  obtains (all) s' where "unmap_loop va n s = Some (None, s')" "vmm_wf s'"
      "aspace s' = unmap_run va (unat n) (aspace s)" "paging s' = paging s" "kpd s' = kpd s"
      "\<And>k. k < 1024 \<Longrightarrow> pde s' k = pde s k"
      "\<And>i. unat i < unat n \<Longrightarrow> aspace s (va + i * PAGE_SIZE) \<noteq> None"
  | (stop) k s' where "unmap_loop va n s = Some (Some KERNEL_INVALID_PARAM, s')" "vmm_wf s'"
      "k < n" "aspace s (va + k * PAGE_SIZE) = None" "aspace s' = unmap_run va (unat k) (aspace s)"
proof -
  let ?keep = "\<lambda>s'. vmm_wf s' \<and> paging s' = paging s \<and> kpd s' = kpd s \<and> (\<forall>k < 1024. pde s' k = pde s k)"
  let ?P = "\<lambda>k s'. ?keep s' \<and> aspace s' = unmap_run va k (aspace s) \<and>
              (\<forall>i :: u32. unat i < k \<longrightarrow> aspace s (va + i * PAGE_SIZE) \<noteq> None)"
  let ?Q = "\<lambda>k st s'. vmm_wf s' \<and> st = KERNEL_INVALID_PARAM \<and> aspace s' = unmap_run va k (aspace s) \<and>
              aspace s (va + word_of_nat k * PAGE_SIZE) = None"
  let ?body = "\<lambda>i s. map_option (\<lambda>(st, s1). (if st \<noteq> KERNEL_OK then Some st else None, s1))
                  (vmm_unmap_page (va + i * PAGE_SIZE) s)"
  have "\<exists>r s'. for_ret 0 n ?body s = Some (r, s') \<and>
      (case r of None \<Rightarrow> ?P (unat n) s' | Some v \<Rightarrow> \<exists>i. unat (0 :: u32) \<le> i \<and> i < unat n \<and> ?Q i v s')"
  proof (rule for_ret_rule)
    fix i :: u32 and s1
    assume P: "?P (unat i) s1" and "i < n"
    then have i: "unat i < unat n" by (simp add: word_less_nat_alt)
    note pg = unat_run_page [OF run i]
    from P have wf1: "vmm_wf s1" by blast
    obtain st s2 where un: "vmm_unmap_page (va + i * PAGE_SIZE) s1 = Some (st, s2)" "vmm_wf s2"
        "st = KERNEL_OK \<longleftrightarrow> aspace s1 (va + i * PAGE_SIZE) \<noteq> None"
        "aspace s2 = bind_page (va + i * PAGE_SIZE) None (aspace s1)" "paging s2 = paging s1" "kpd s2 = kpd s1"
      using vmm_unmap_page_spec [OF wf1 pg(2)] by blast
    have eq: "aspace s1 (va + i * PAGE_SIZE) = aspace s (va + i * PAGE_SIZE)"
      using P pg(1) by (simp add: unmap_run_def in_run_def)
    note pde = vmm_unmap_page_pde [OF wf1 pg(2) un(1)]
    show "\<exists>r s'. ?body i s1 = Some (r, s') \<and>
        (case r of None \<Rightarrow> ?P (Suc (unat i)) s' | Some v \<Rightarrow> ?Q (unat i) v s')"
    proof (cases "st = KERNEL_OK")
      case True
      have "\<forall>j :: u32. unat j < Suc (unat i) \<longrightarrow> aspace s (va + j * PAGE_SIZE) \<noteq> None"
        using P True un(3) eq by (metis less_SucE word_unat_eq_iff)
      moreover have "aspace s2 = unmap_run va (Suc (unat i)) (aspace s)"
        using un(4) P unmap_run_Suc [OF run i] by simp
      ultimately show ?thesis using True un P pde(1) by simp
    next
      case False
      then have "bind_page (va + i * PAGE_SIZE) None (aspace s1) = aspace s1"
        using vmm_unmap_page_eq [OF wf1 pg(2)] un(1,4) by (auto split: if_splits)
      then show ?thesis using False un P pde(2) [of 0] eq by simp
    qed
  qed (use wf in simp_all)
  then obtain r s' where loop: "unmap_loop va n s = Some (r, s')"
    and post: "case r of None \<Rightarrow> ?P (unat n) s' | Some v \<Rightarrow> \<exists>i. unat (0 :: u32) \<le> i \<and> i < unat n \<and> ?Q i v s'"
    unfolding unmap_loop_def by blast
  show thesis
  proof (cases r)
    case None
    then show thesis using loop post all by auto
  next
    case (Some v)
    with post obtain i where i: "i < unat n" "?Q i v s'" by auto
    have "unat (word_of_nat i :: u32) = i"
      using less_trans [OF i(1) unat_lt(3)] by (simp add: unat_of_nat)
    with i loop Some show thesis by (intro stop [of s' "word_of_nat i"]) (auto simp: word_less_nat_alt)
  qed
qed

text \<open>When every page table of the run also maps a page outside it, the run is unmapped.\<close>

lemma reclaim_loop_idle:
  assumes "\<And>i. i < n \<Longrightarrow> reclaim_table (va + i * PAGE_SIZE) s = Some (None, s)"
  shows "for_ret 0 n (\<lambda>i. reclaim_table (va + i * PAGE_SIZE)) s = Some (None, s)"
proof -
  have "\<exists>r s'. for_ret 0 n (\<lambda>i. reclaim_table (va + i * PAGE_SIZE)) s = Some (r, s') \<and>
      (case r of None \<Rightarrow> s' = s | Some v \<Rightarrow> \<exists>i. unat (0 :: u32) \<le> i \<and> i < unat n \<and> False)"
    by (rule for_ret_rule) (use assms in simp_all)
  then obtain r s' where "for_ret 0 n (\<lambda>i. reclaim_table (va + i * PAGE_SIZE)) s = Some (r, s')"
    "case r of None \<Rightarrow> s' = s | Some v \<Rightarrow> False" by (metis (lifting) option.case_eq_if)
  then show ?thesis by (cases r) simp_all
qed

lemma vmm_unmap_pages_eq:
  "vmm_unmap_pages va n s = Option.bind (unmap_loop va n s)
     (\<lambda>(r, s1). case r of
          Some st \<Rightarrow> Some (st, s1)
        | None \<Rightarrow>
            if paging s1
            then map_option (\<lambda>(_, s2). (KERNEL_OK, s2))
                   (for_ret 0 n (\<lambda>i. reclaim_table (va + i * PAGE_SIZE)) s1)
            else Some (KERNEL_OK, s1))"
  by (simp add: vmm_unmap_pages_def unmap_loop_def)

lemma aspace_some_in_use:
  assumes "aspace s vb \<noteq> None"
  shows "has_table s (pd_index vb)" "table_in_use s (pd_index vb)" "below_window vb"
proof -
  have "translate s vb \<noteq> None" "below_window vb" using assms by (auto simp: aspace_def split: if_splits)
  then show "has_table s (pd_index vb)" "table_in_use s (pd_index vb)" "below_window vb"
    by (auto simp: translate_eq table_in_use_def pte_def split: if_splits intro: exI [of _ "pt_index vb"])
qed

lemma reclaim_table_faults:
  assumes "cr3 s = kpd s" "paging s" "frame (kpd s) = kpd s"
    and slot: "pde s PAGE_RECURSIVE_SLOT = (kpd s OR PAGE_FLAG_PRESENT OR PAGE_FLAG_RW)"
    and gone: "pde s (pd_index va) = 0" and low: "below_window va"
  shows "reclaim_table va s = None"
proof -
  have i: "pd_index va < 1024" and z: "(0 :: u32) < 1024" by simp_all
  note ix = window_index [OF i z]
  have "mmu s (cell (PAGE_RECURSIVE_PT_BASE + push_bit 12 (pd_index va)) 0) = None"
    using assms ix frame_rec_entry [OF assms(3)] by (simp add: mmu_def page_walk_def Let_def pde_def)
  then have "table_empty_window (PAGE_RECURSIVE_PT_BASE + push_bit 12 (pd_index va)) s = None"
    by (simp add: table_empty_window_def for_ret.simps [of 0] vread_def)
  then show ?thesis by (simp add: reclaim_table_def Let_def)
qed

section \<open>Queries and identity mappings\<close>

definition run_mapped :: "(u32 \<Rightarrow> u32 option) \<Rightarrow> u32 \<Rightarrow> nat \<Rightarrow> bool" where
  "run_mapped m va n \<longleftrightarrow>
     (\<forall>i :: u32. unat i < n \<longrightarrow> m (va + i * PAGE_SIZE) \<noteq> None \<and> m (va + i * PAGE_SIZE) \<noteq> Some 0)"

lemma run_mapped_Suc:
  "run_mapped m va (unat (i :: u32)) \<Longrightarrow> m (va + i * PAGE_SIZE) \<noteq> None \<Longrightarrow> m (va + i * PAGE_SIZE) \<noteq> Some 0
   \<Longrightarrow> run_mapped m va (Suc (unat i))"
  unfolding run_mapped_def by (metis less_SucE word_unat_eq_iff)

lemma scan_mapped:
  assumes wf: "vmm_wf s" and run: "run_ok va (unat n)"
  shows "\<exists>r u. for_ret 0 n (\<lambda>i _. map_option (\<lambda>phys. (if phys = 0 then Some () else None, ()))
                           (vmm_get_physical_addr (va + i * PAGE_SIZE) s)) () = Some (r, u) \<and>
           (r = None \<longleftrightarrow> run_mapped (aspace s) va (unat n))"
proof -
  let ?body = "\<lambda>i _. map_option (\<lambda>phys. (if phys = 0 then Some () else None, ()))
                           (vmm_get_physical_addr (va + i * PAGE_SIZE) s)"
  let ?P = "\<lambda>k _. run_mapped (aspace s) va k"
  have "\<exists>r u. for_ret 0 n ?body () = Some (r, u) \<and>
      (case r of None \<Rightarrow> ?P (unat n) u
       | Some v \<Rightarrow> \<exists>i. unat (0 :: u32) \<le> i \<and> i < unat n \<and> \<not> run_mapped (aspace s) va (unat n))"
  proof (rule for_ret_rule)
    fix i :: u32 and u :: unit
    assume P: "?P (unat i) u" and "i < n"
    then have i: "unat i < unat n" by (simp add: word_less_nat_alt)
    let ?p = "va + i * PAGE_SIZE"
    note get = vmm_get_physical_addr_eq [OF wf unat_run_page(2) [OF run i]]
    show "\<exists>r u'. ?body i u = Some (r, u') \<and>
        (case r of None \<Rightarrow> ?P (Suc (unat i)) u' | Some v \<Rightarrow> \<not> run_mapped (aspace s) va (unat n))"
    proof (cases "aspace s ?p = None \<or> aspace s ?p = Some 0")
      case True
      then have "\<not> run_mapped (aspace s) va (unat n)" using i unfolding run_mapped_def by blast
      with True get show ?thesis by auto
    next
      case False
      then have "?P (Suc (unat i)) u" using run_mapped_Suc [OF P] by blast
      with False get show ?thesis by auto
    qed
  qed (simp_all add: run_mapped_def)
  then obtain r u where "for_ret 0 n ?body () = Some (r, u)"
    "case r of None \<Rightarrow> ?P (unat n) u
       | Some v \<Rightarrow> \<exists>i. unat (0 :: u32) \<le> i \<and> i < unat n \<and> \<not> run_mapped (aspace s) va (unat n)" by blast
  then show ?thesis by (cases r) auto
qed

lemma map_if_not_mapped_loop:
  assumes wf: "vmm_wf s" and run: "run_ok va (unat n)"
  shows "\<exists>r s'. for_ret 0 n (\<lambda>i. map_if_not_mapped_step (va + i * PAGE_SIZE)) s = Some (r, s') \<and>
           vmm_wf s' \<and> r \<noteq> Some KERNEL_OK \<and>
           (\<forall>vb. \<not> in_run va (unat n) vb \<longrightarrow> aspace s' vb = aspace s vb) \<and>
           (r = None \<longrightarrow> (\<forall>i :: u32. unat i < unat n \<longrightarrow>
                            aspace s' (va + i * PAGE_SIZE) = Some (va + i * PAGE_SIZE)))"
proof -
  let ?body = "\<lambda>i. map_if_not_mapped_step (va + i * PAGE_SIZE)"
  let ?keep = "\<lambda>s'. vmm_wf s' \<and> (\<forall>vb. \<not> in_run va (unat n) vb \<longrightarrow> aspace s' vb = aspace s vb)"
  let ?id = "\<lambda>k s'. \<forall>i :: u32. unat i < k \<longrightarrow> aspace s' (va + i * PAGE_SIZE) = Some (va + i * PAGE_SIZE)"
  have "\<exists>r s'. for_ret 0 n ?body s = Some (r, s') \<and>
      (case r of None \<Rightarrow> ?keep s' \<and> ?id (unat n) s'
       | Some v \<Rightarrow> \<exists>i. unat (0 :: u32) \<le> i \<and> i < unat n \<and> ?keep s' \<and> v \<noteq> KERNEL_OK)"
  proof (rule for_ret_rule [where P = "\<lambda>k s'. ?keep s' \<and> ?id k s'"])
    fix i :: u32 and s1
    assume P: "?keep s1 \<and> ?id (unat i) s1" and "i < n"
    then have i: "unat i < unat n" by (simp add: word_less_nat_alt)
    let ?p = "va + i * PAGE_SIZE"
    note pg = unat_run_page [OF run i]
    have wf1: "vmm_wf s1" using P by blast
    note get = vmm_get_physical_addr_eq [OF wf1 pg(2)]
    have in_p: "in_run va (unat n) vb" if "frame vb = frame ?p" for vb
      using that in_run_page [OF run i, of vb] i by (auto simp: in_run_def)
    have Suc: "?id (Suc (unat i)) s2" if "?id (unat i) s2" "aspace s2 ?p = Some ?p" for s2
      using that by (metis less_SucE word_unat_eq_iff)
    show "\<exists>r s'. ?body i s1 = Some (r, s') \<and>
        (case r of None \<Rightarrow> ?keep s' \<and> ?id (Suc (unat i)) s'
         | Some v \<Rightarrow> ?keep s' \<and> v \<noteq> KERNEL_OK)"
    proof (cases "aspace s1 ?p = None \<or> aspace s1 ?p = Some 0")
      case unmapped: True
      from wf1 pg(2) show ?thesis
      proof (cases rule: vmm_map_page_cases [where pa = ?p and fl = "PAGE_FLAG_PRESENT OR PAGE_FLAG_RW OR PAGE_FLAG_GLOBAL"])
        case (ok s2)
        have view: "aspace s2 = bind_page ?p (Some (frame ?p)) (aspace s1)" using ok(3) by simp
        have "aspace s2 ?p = Some ?p"
          using frame_split [of ?p] frame_or_low(1) [OF frame_frame frame_low, of ?p ?p]
          by (simp add: view bind_page_def)
        moreover have "?id (unat i) s2"
          unfolding view using P in_run_page [OF run i] unat_run_page(1) [OF run] i
          by (fastforce simp: bind_page_def)
        ultimately have "?id (Suc (unat i)) s2" by (intro Suc)
        moreover have "?keep s2" using P ok(2) in_p by (auto simp: view bind_page_def)
        ultimately show ?thesis using unmapped get ok(1) by (auto simp: map_if_not_mapped_step_def)
      next
        case oom
        then show ?thesis using unmapped get P by (auto simp: map_if_not_mapped_step_def)
      next
        case (mapped s2)
        then show ?thesis using unmapped get P by (auto simp: map_if_not_mapped_step_def)
      qed
    next
      case False
      then show ?thesis using get P Suc [of s1] by (auto simp: map_if_not_mapped_step_def)
    qed
  qed (use wf in simp_all)
  then obtain r s' where "for_ret 0 n ?body s = Some (r, s')"
    "case r of None \<Rightarrow> ?keep s' \<and> ?id (unat n) s'
       | Some v \<Rightarrow> \<exists>i. unat (0 :: u32) \<le> i \<and> i < unat n \<and> ?keep s' \<and> v \<noteq> KERNEL_OK" by blast
  then show ?thesis by (intro exI [of _ r] exI [of _ s']) (cases r, auto)
qed

section \<open>Properties\<close>

lemma page_of_indices:
  assumes "i < 1024" and "j < (1024 :: u32)"
  obtains va where "pd_index va = i" "pt_index va = j"
proof -
  have i: "unat i < 1024" and j: "unat j < 1024" using assms by (simp_all add: word_less_nat_alt)
  let ?va = "i * 0x400000 + j * 4096 :: u32"
  have u: "unat ?va = (unat i * 1024 + unat j) * 4096" using i j by (simp add: unat_word_ariths)
  have d: "unat ?va div 4096 = unat i * 1024 + unat j" by (simp add: u)
  have "unat ?va div 2 ^ 22 = unat ?va div 4096 div 1024" by (simp add: div_mult2_eq [symmetric])
  also have "\<dots> = unat i" using j unfolding d by simp
  finally have "pd_index ?va = i" by (simp only: word_unat_eq_iff unat_pd_index)
  moreover have "pt_index ?va = j" using j by (simp add: word_unat_eq_iff unat_pt_index d)
  ultimately show thesis by (rule that)
qed

text \<open>A machine with one page table, in page 2, that maps two pages at 4 MiB.\<close>

definition mapped_machine :: vmm where
  "mapped_machine = small_machine\<lparr>mem := (\<lambda>_. 0)(0x1FFC := 0x1003, 0x1004 := 0x2003,
     0x2000 := 0x3003, 0x2004 := 0x4003)\<rparr>"

lemma mapped_machine_pde:
  assumes "i < PAGE_RECURSIVE_SLOT"
  shows "pde mapped_machine i = (if i = 1 then 0x2003 else 0)"
proof -
  have i4: "i < 1024" by (rule lt_1023_1024 [OF assms])
  have "cell 0x1000 i = cell 0x1000 j \<longleftrightarrow> i = j" if "j < 1024" for j
    using cell_inj [of "0x1000" i "0x1000" j] i4 that by simp
  from this [of 1023] this [of 1] have "cell 0x1000 i = 0x1FFC \<longleftrightarrow> i = 1023" "cell 0x1000 i = 0x1004 \<longleftrightarrow> i = 1"
    by (simp_all add: cell_def)
  moreover have "cell 0x1000 i \<noteq> 0x2000" "cell 0x1000 i \<noteq> 0x2004"
    using cell_inj [of "0x1000" i "0x2000" 0] cell_inj [of "0x1000" i "0x2000" 1] i4
    by (simp_all add: cell_def)
  ultimately show ?thesis using assms by (auto simp: pde_def mapped_machine_def small_machine_def)
qed

lemma mapped_machine_wf: "vmm_wf mapped_machine"
proof -
  have tab: "has_table mapped_machine i \<longleftrightarrow> i = 1" "table mapped_machine 1 = 0x2000"
    if "i < PAGE_RECURSIVE_SLOT" for i
    using mapped_machine_pde [OF that] mapped_machine_pde [of 1]
    by (simp_all add: has_table_def table_def)
  have free: "free_frames mapped_machine = {3, 4, 5, 6, 7}" "pmm_inv mapped_machine"
    using small_machine_free small_machine_pmm_inv by (simp_all add: mapped_machine_def)
  have "pde mapped_machine 1023 = 0x1003"
    by (simp add: pde_def mapped_machine_def small_machine_def cell_def)
  moreover have "frame_taken mapped_machine 0x1000" "frame_taken mapped_machine 0x2000"
    by (simp_all add: frame_taken_def free)
  moreover have "kpd mapped_machine = 0x1000" "cr3 mapped_machine = 0x1000"
    by (simp_all add: mapped_machine_def small_machine_def)
  ultimately show ?thesis using free(2) tab unfolding vmm_wf_def by auto
qed

lemma mapped_machine_aspace:
  "aspace mapped_machine va \<noteq> None \<longleftrightarrow> pd_index va = 1 \<and> (pt_index va = 0 \<or> pt_index va = 1)"
proof -
  have eq: "cell 0x2000 (pt_index va) = cell 0x2000 j \<longleftrightarrow> pt_index va = j" if "j < 1024" for j
    using cell_inj [of "0x2000" "pt_index va" "0x2000" j] that by simp
  from eq [of 0] eq [of 1] have "cell 0x2000 (pt_index va) = 0x2000 \<longleftrightarrow> pt_index va = 0"
    "cell 0x2000 (pt_index va) = 0x2004 \<longleftrightarrow> pt_index va = 1" by (simp_all add: cell_def)
  moreover have "cell 0x2000 (pt_index va) \<noteq> 0x1FFC" "cell 0x2000 (pt_index va) \<noteq> 0x1004"
    using cell_inj [of "0x2000" "pt_index va" "0x1000" 1023] cell_inj [of "0x2000" "pt_index va" "0x1000" 1]
    by (simp_all add: cell_def)
  moreover have "pd_index va = 1 \<Longrightarrow> table mapped_machine (pd_index va) = 0x2000"
    using mapped_machine_pde [of 1] by (simp add: table_def)
  ultimately show ?thesis
    using mapped_machine_pde [of "pd_index va"]
    by (auto simp: aspace_def translate_eq has_table_def below_window_def pte_def)
       (auto simp: mapped_machine_def small_machine_def split: if_splits)
qed

text \<open>Property C7. \<^verbatim>\<open>vmm_map_pages\<close> on a run that maps nothing yet is all or nothing: it never faults,
  and either every address of the run is mapped to the same offset from \<open>pa\<close>, or an error is
  reported and the mapping is what it was. Nothing outside the run changes.
\<close>

theorem vmm_map_pages_all_or_nothing:
  assumes "vmm_wf s" and "run_ok va (unat n)" and "frame pa = pa" and "fl AND PAGE_FLAG_PRESENT \<noteq> 0"
    and "\<And>vb. in_run va (unat n) vb \<Longrightarrow> aspace s vb = None"
  shows "\<exists>st s'. vmm_map_pages va pa n fl s = Some (st, s') \<and> vmm_wf s' \<and>
           aspace s' = (if st = KERNEL_OK then map_run va pa (unat n) (aspace s) else aspace s)"
proof -
  have "unmap_run va k (aspace s) = aspace s" if "k < unat n" for k
    using that assms(5) by (fastforce simp: unmap_run_def in_run_def)
  with vmm_map_pages_spec [OF assms(1-4)] show ?thesis by (auto split: if_splits)
qed

theorem vmm_map_pages_all_or_nothing_witness:
  "\<exists>st s'. vmm_map_pages 0x400000 0x8000 2 3 small_machine = Some (st, s') \<and> vmm_wf s'"
proof -
  have "aspace small_machine vb = None" for vb
    using small_machine_pde [of "pd_index vb"]
    by (simp add: aspace_def translate_eq has_table_def below_window_def)
  with vmm_map_pages_all_or_nothing [OF small_machine_wf, of "0x400000" 2 "0x8000" 3]
  show ?thesis by (auto simp: run_ok_def)
qed

text \<open>
  \<^verbatim>\<open>vmm_unmap_pages\<close> on a run whose pages are all mapped, and whose page tables each
  also map a page outside the run, succeeds and unmaps exactly the run.
\<close>

theorem vmm_unmap_pages_ok:
  assumes wf: "vmm_wf s" and run: "run_ok va (unat n)"
    and mapped: "\<And>i. i < n \<Longrightarrow> aspace s (va + i * PAGE_SIZE) \<noteq> None"
    and shared: "\<And>i. i < n \<Longrightarrow> \<exists>vb. pd_index vb = pd_index (va + i * PAGE_SIZE) \<and>
                    \<not> in_run va (unat n) vb \<and> aspace s vb \<noteq> None"
  shows "\<exists>s'. vmm_unmap_pages va n s = Some (KERNEL_OK, s') \<and> vmm_wf s' \<and>
           aspace s' = unmap_run va (unat n) (aspace s)"
  using wf run
proof (cases rule: unmap_loop_cases)
  case (stop k s')
  with mapped [OF stop(3)] show ?thesis by simp
next
  case (all s')
  have "reclaim_table (va + i * PAGE_SIZE) s' = Some (None, s')" if i: "i < n" and pg: "paging s'" for i
  proof -
    obtain vb where vb: "pd_index vb = pd_index (va + i * PAGE_SIZE)" "\<not> in_run va (unat n) vb"
      "aspace s vb \<noteq> None" using shared [OF i] by blast
    then have "aspace s' vb \<noteq> None" using all(3) by (simp add: unmap_run_def)
    note use = aspace_some_in_use [OF this, unfolded vb(1)]
    have "below_window (va + i * PAGE_SIZE)"
      using unat_run_page(2) [OF run] i by (simp add: word_less_nat_alt)
    from reclaim_table_in_use [OF all(2) pg this use(1,2)] show ?thesis .
  qed
  then have "paging s' \<Longrightarrow> for_ret 0 n (\<lambda>i. reclaim_table (va + i * PAGE_SIZE)) s' = Some (None, s')"
    by (intro reclaim_loop_idle)
  with all(1-3) show ?thesis by (simp add: vmm_unmap_pages_eq)
qed

theorem vmm_unmap_pages_ok_witness:
  "\<exists>s'. vmm_unmap_pages 0x400000 1 mapped_machine = Some (KERNEL_OK, s') \<and> vmm_wf s'"
proof -
  have ix: "pd_index 0x400000 = 1" "pt_index 0x400000 = 0" "pd_index 0x401000 = 1" "pt_index 0x401000 = 1"
    by (simp_all add: pd_index_def pt_index_def)
  have "\<exists>s'. vmm_unmap_pages 0x400000 1 mapped_machine = Some (KERNEL_OK, s') \<and> vmm_wf s' \<and>
      aspace s' = unmap_run 0x400000 (unat (1 :: u32)) (aspace mapped_machine)"
  proof (rule vmm_unmap_pages_ok [OF mapped_machine_wf])
    fix i :: u32 assume "i < 1"
    then have i: "i = 0" by simp
    show "aspace mapped_machine (0x400000 + i * PAGE_SIZE) \<noteq> None"
      unfolding mapped_machine_aspace using i ix by simp
    have "aspace mapped_machine 0x401000 \<noteq> None" unfolding mapped_machine_aspace using ix by simp
    then show "\<exists>vb. pd_index vb = pd_index (0x400000 + i * PAGE_SIZE) \<and>
        \<not> in_run 0x400000 (unat (1 :: u32)) vb \<and> aspace mapped_machine vb \<noteq> None"
      using i ix by (intro exI [of _ "0x401000"]) (simp add: in_run_def)
  qed (simp add: run_ok_def)
  then show ?thesis by blast
qed

text \<open>Property C13. The other side of it, a fault in the code: when the run holds at least two pages of one
  page table and that table maps nothing else, \<^verbatim>\<open>vmm_unmap_pages\<close> takes a page fault. It frees the
  table at the first page and then reads it again, through the window, for the second.
\<close>

theorem vmm_unmap_pages_faults:
  assumes wf: "vmm_wf s" and pg: "paging s" and run: "run_ok va (unat n)" and n: "2 \<le> n"
    and same: "pd_index (va + PAGE_SIZE) = pd_index va"
    and mapped: "\<And>i. i < n \<Longrightarrow> aspace s (va + i * PAGE_SIZE) \<noteq> None"
    and only: "\<And>vb. pd_index vb = pd_index va \<Longrightarrow> \<not> in_run va (unat n) vb \<Longrightarrow> aspace s vb = None"
  shows "vmm_unmap_pages va n s = None"
  using wf run
proof (cases rule: unmap_loop_cases)
  case (stop k s')
  with mapped [OF stop(3)] show ?thesis by simp
next
  case (all s1)
  have n0: "0 < n" "1 < n" using n by (auto simp: word_less_nat_alt word_le_nat_alt)
  have low: "below_window va" using unat_run_page(2) [OF run, of 0] n0 by (simp add: word_less_nat_alt)
  have "has_table s (pd_index va)" using aspace_some_in_use(1) [OF mapped [OF n0(1)]] by simp
  then have tab: "has_table s1 (pd_index va)" using all(6) [of "pd_index va"] by (simp add: has_table_def)
  have "\<not> table_in_use s1 (pd_index va)"
  proof
    assume "table_in_use s1 (pd_index va)"
    then obtain j where j: "j < 1024" "mem s1 (cell (table s1 (pd_index va)) j) AND PAGE_FLAG_PRESENT \<noteq> 0"
      unfolding table_in_use_def by blast
    obtain vb where ix: "pd_index vb = pd_index va" "pt_index vb = j"
      using page_of_indices [OF _ j(1), of "pd_index va"] by auto
    have "aspace s1 vb \<noteq> None" using tab j low ix by (simp add: aspace_def translate_eq pte_def below_window_def)
    then show False using only [of vb] ix(1) unfolding all(3) unmap_run_def by (auto split: if_splits)
  qed
  then obtain s2 where s2: "reclaim_table va s1 = Some (None, s2)" "cr3 s2 = kpd s1" "kpd s2 = kpd s1"
      "paging s2" "mem s2 = (mem s1)(cell (kpd s1) (pd_index va) := 0)"
    using reclaim_table_empty [OF all(2) _ low tab] all(4) pg by metis
  have k: "frame (kpd s1) = kpd s1" by (rule vmm_wf_facts(2) [OF all(2)])
  have slot: "pde s2 PAGE_RECURSIVE_SLOT = (kpd s2 OR PAGE_FLAG_PRESENT OR PAGE_FLAG_RW)"
    using all(2,4) pg k low s2(3,5) by (auto simp: vmm_wf_def pde_def below_window_def)
  have "reclaim_table (va + PAGE_SIZE) s2 = None"
    by (rule reclaim_table_faults) (use s2 k slot same low in \<open>auto simp: pde_def below_window_def\<close>)
  then have "for_ret 0 n (\<lambda>i. reclaim_table (va + i * PAGE_SIZE)) s1 = None"
    using s2(1) n0 by (simp add: for_ret.simps [of 0] for_ret.simps [of 1])
  with all(1,4) pg show ?thesis by (simp add: vmm_unmap_pages_eq)
qed

theorem vmm_unmap_pages_faults_witness: "vmm_unmap_pages 0x400000 2 mapped_machine = None"
proof (rule vmm_unmap_pages_faults [OF mapped_machine_wf])
  have ix: "pd_index 0x400000 = 1" "pt_index 0x400000 = 0" "pd_index 0x401000 = 1" "pt_index 0x401000 = 1"
    by (simp_all add: pd_index_def pt_index_def)
  fix i :: u32 assume "i < 2"
  then have "i = 0 \<or> i = 1" by (auto simp: word_less_nat_alt word_unat_eq_iff)
  then show "aspace mapped_machine (0x400000 + i * PAGE_SIZE) \<noteq> None"
    unfolding mapped_machine_aspace using ix by auto
next
  fix vb assume pd: "pd_index vb = pd_index 0x400000" and out: "\<not> in_run 0x400000 (unat (2 :: u32)) vb"
  have run: "run_ok 0x400000 2" by (simp add: run_ok_def)
  show "aspace mapped_machine vb = None"
  proof (rule ccontr)
    assume "aspace mapped_machine vb \<noteq> None"
    then have "pt_index vb = 0 \<or> pt_index vb = 1" unfolding mapped_machine_aspace by blast
    then have "frame vb = frame 0x400000 \<or> frame vb = frame (0x400000 + 1 * 4096)"
      unfolding same_page_iff using pd by (simp add: pd_index_def pt_index_def)
    then have "in_run 0x400000 2 vb"
      using in_run_page [OF run, of 0 vb] in_run_page [OF run, of 1 vb] by (auto simp: in_run_def)
    with out show False by simp
  qed
qed (simp_all add: run_ok_def pd_index_def mapped_machine_def small_machine_def)

lemma range_pages:
  fixes va sz :: u32
  assumes "sz \<noteq> 0" and "unat va + unat sz \<le> 1023 * 2 ^ 22"
  defines "e \<equiv> ALIGN_UP (va + sz) PAGE_SIZE"
  shows "ALIGN_DOWN va PAGE_SIZE < e"
    "unat ((e - ALIGN_DOWN va PAGE_SIZE) div PAGE_SIZE) =
       (unat va + unat sz + 4095) div 4096 - unat va div 4096"
    "run_ok (ALIGN_DOWN va PAGE_SIZE) (unat ((e - ALIGN_DOWN va PAGE_SIZE) div PAGE_SIZE))"
proof -
  let ?s = "ALIGN_DOWN va PAGE_SIZE"
  have u: "unat (va + sz) = unat va + unat sz" using assms(2) by (simp add: unat_word_ariths)
  have e: "unat e = (unat va + unat sz + 4095) div 4096 * 4096"
    unfolding e_def using assms(2) u by (subst unat_ALIGN_UP_page) simp_all
  have s: "unat ?s = unat va div 4096 * 4096" by (simp only: ALIGN_DOWN_page unat_page_base)
  have "unat sz > 0" using assms(1) by (simp add: unat_gt_0)
  then have less: "unat va div 4096 < (unat va + unat sz + 4095) div 4096"
    using div_le_mono [of "unat va + 4096" "unat va + unat sz + 4095" 4096] by simp
  then show lt: "?s < e" by (simp add: word_less_nat_alt s e)
  then show n: "unat ((e - ?s) div PAGE_SIZE) = (unat va + unat sz + 4095) div 4096 - unat va div 4096"
    by (simp add: unat_div_distrib unat_sub_small less_imp_le e s flip: diff_mult_distrib)
  have "(unat va + unat sz + 4095) div 4096 \<le> 1023 * 1024" using assms(2) by (simp add: div_le_mono [THEN order_trans])
  then show "run_ok ?s (unat ((e - ?s) div PAGE_SIZE))"
    unfolding run_ok_def n s using less by (simp add: ALIGN_DOWN_page)
qed

text \<open>
  \<^verbatim>\<open>vmm_is_range_mapped\<close>, on a non-empty range below the recursive window, answers
  whether every page the range touches is mapped to a non-zero physical address. (The comment above
  the function asks for a present entry only; a page mapped to physical address 0 counts as unmapped.)
\<close>

theorem vmm_is_range_mapped_correct:
  assumes "vmm_wf s" and "sz \<noteq> 0" and "unat va + unat sz \<le> 1023 * 2 ^ 22"
  shows "vmm_is_range_mapped va sz s =
           Some (run_mapped (aspace s) (frame va) ((unat va + unat sz + 4095) div 4096 - unat va div 4096))"
proof -
  note r = range_pages [OF assms(2,3)]
  from scan_mapped [OF assms(1) r(3)] show ?thesis
    unfolding vmm_is_range_mapped_def Let_def r(2) [symmetric] using assms(2) r(1)
    by (auto simp: ALIGN_DOWN_page)
qed

theorem vmm_is_range_mapped_correct_witness:
  "vmm_is_range_mapped 0x400010 0x1000 mapped_machine = Some True \<and>
   vmm_is_range_mapped 0x400010 0x2000 mapped_machine = Some False"
proof -
  have ix: "pd_index 0x400000 = 1" "pt_index 0x400000 = 0" "pd_index 0x401000 = 1" "pt_index 0x401000 = 1"
    "pt_index 0x402000 = 2" by (simp_all add: pd_index_def pt_index_def)
  have two: "unat i < 2 \<longleftrightarrow> i = 0 \<or> i = 1" for i :: u32 by (auto simp: word_unat_eq_iff)
  have m: "aspace mapped_machine 0x400000 = Some 0x3000" "aspace mapped_machine 0x401000 = Some 0x4000"
    using mapped_machine_pde [of 1] ix
    by (simp_all add: aspace_def translate_eq has_table_def table_def pte_def below_window_def)
       (simp_all add: mapped_machine_def small_machine_def cell_def)
  then have "run_mapped (aspace mapped_machine) 0x400000 2" by (auto simp: run_mapped_def two)
  moreover have "aspace mapped_machine 0x402000 = None"
    using mapped_machine_aspace [of "0x402000"] ix by auto
  then have "\<not> run_mapped (aspace mapped_machine) 0x400000 3"
    unfolding run_mapped_def by (auto intro!: exI [of _ "2 :: u32"])
  ultimately show ?thesis
    using vmm_is_range_mapped_correct [OF mapped_machine_wf, of "0x1000" "0x400010"]
      vmm_is_range_mapped_correct [OF mapped_machine_wf, of "0x2000" "0x400010"] by simp
qed

text \<open>
  \<^verbatim>\<open>vmm_map_if_not_mapped\<close> on a non-empty range below the recursive window never faults
  and changes no mapping outside the pages of the range; when it succeeds, every page of the range is
  mapped at its own address.
\<close>

theorem vmm_map_if_not_mapped_identity:
  assumes wf: "vmm_wf s" and sz: "sz \<noteq> 0" "unat phys + unat sz \<le> 1023 * 2 ^ 22"
  defines "n \<equiv> (unat phys + unat sz + 4095) div 4096 - unat phys div 4096"
  shows "\<exists>st s'. vmm_map_if_not_mapped phys sz s = Some (st, s') \<and> vmm_wf s' \<and>
           (\<forall>vb. \<not> in_run (frame phys) n vb \<longrightarrow> aspace s' vb = aspace s vb) \<and>
           (st = KERNEL_OK \<longrightarrow> (\<forall>i :: u32. unat i < n \<longrightarrow>
              aspace s' (frame phys + i * PAGE_SIZE) = Some (frame phys + i * PAGE_SIZE)))"
proof -
  note r = range_pages [OF sz]
  let ?n = "(ALIGN_UP (phys + sz) PAGE_SIZE - ALIGN_DOWN phys PAGE_SIZE) div PAGE_SIZE"
  have n: "unat ?n = n" unfolding n_def by (rule r(2))
  have start: "ALIGN_DOWN phys PAGE_SIZE = frame phys" by (simp add: ALIGN_DOWN_page)
  obtain q s' where loop: "for_ret 0 ?n (\<lambda>i. map_if_not_mapped_step (ALIGN_DOWN phys PAGE_SIZE + i * PAGE_SIZE)) s
      = Some (q, s')"
    and post: "vmm_wf s'" "q \<noteq> Some KERNEL_OK"
      "\<forall>vb. \<not> in_run (frame phys) n vb \<longrightarrow> aspace s' vb = aspace s vb"
      "q = None \<longrightarrow> (\<forall>i :: u32. unat i < n \<longrightarrow>
         aspace s' (frame phys + i * PAGE_SIZE) = Some (frame phys + i * PAGE_SIZE))"
    using map_if_not_mapped_loop [OF wf r(3), unfolded n] unfolding start by blast
  from loop have "vmm_map_if_not_mapped phys sz s = Some (case q of None \<Rightarrow> KERNEL_OK | Some st \<Rightarrow> st, s')"
    unfolding vmm_map_if_not_mapped_def Let_def by simp
  with post show ?thesis by (cases q) auto
qed

theorem vmm_map_if_not_mapped_identity_witness:
  "\<exists>st s'. vmm_map_if_not_mapped 0x400010 0x1000 mapped_machine = Some (st, s') \<and> vmm_wf s'"
  using vmm_map_if_not_mapped_identity [OF mapped_machine_wf, of "0x1000" "0x400010"] by auto

end
