(* ===== verification/Vmm_Init.thy ===== *)
theory Vmm_Init
  imports Vmm_Pages
begin

text \<open>
  \<^verbatim>\<open>vmm_init\<close> of \<^verbatim>\<open>src/mm/vmm.c\<close>: from a cleared directory to paging with everything the kernel
  uses mapped at its own physical address. The record \<open>vmm_env\<close> holds what the function reads from
  elsewhere: the linker's \<^verbatim>\<open>_kernel_end\<close>, the VBE device and the boot information.
\<close>

section \<open>Model\<close>

record vmm_env =
  env_kernel_end :: u32
  vbe_available :: bool
  framebuffer_addr :: u32
  framebuffer_size :: u32
  video_modes_ptr :: u32
  oem_string_ptr :: u32
  mbi_addr :: u32
  mbi_flags :: u32
  mbi_vbe_control_info :: u32
  mbi_vbe_mode_info :: u32

abbreviation sizeof_mbi :: u32 where "sizeof_mbi \<equiv> 116"
abbreviation sizeof_vbe_control_info :: u32 where "sizeof_vbe_control_info \<equiv> 512"
abbreviation sizeof_vbe_mode_info :: u32 where "sizeof_vbe_mode_info \<equiv> 256"

text \<open>A loop that maps pages at their own address and ignores the status.\<close>

definition map_identity_ignoring :: "u32 \<Rightarrow> u32 \<Rightarrow> 'a vmm_scheme \<Rightarrow> 'a vmm_scheme option" where
  "map_identity_ignoring start n s =
     map_option snd (for_ret 0 n
       (\<lambda>i s. let virt = start + i * PAGE_SIZE
              in map_option (\<lambda>(st, s'). (None :: unit option, s'))
                   (vmm_map_page virt virt (PAGE_FLAG_PRESENT OR PAGE_FLAG_RW) s)) s)"

text \<open>The loop over the allocator's bitmap returns on failure.\<close>

definition map_bitmap :: "'a vmm_scheme \<Rightarrow> (kernel_status option \<times> 'a vmm_scheme) option" where
  "map_bitmap s =
     for_ret 0 (ALIGN_UP (bm_size s) PAGE_SIZE div PAGE_SIZE)
       (\<lambda>i s'. let virt = bits_addr s + i * PAGE_SIZE
              in map_option (\<lambda>(st, s''). (if st \<noteq> KERNEL_OK then Some st else None, s''))
                   (vmm_map_page virt virt (PAGE_FLAG_PRESENT OR PAGE_FLAG_RW) s')) s"

text \<open>The page table of the first 4 MiB, reached by its physical address; \<open>None\<close> when it cannot be had.\<close>

definition low_table :: "'a vmm_scheme \<Rightarrow> (u32 \<times> 'a vmm_scheme) option" where
  "low_table s =
     (if mem s (cell (kpd s) 0) AND PAGE_FLAG_PRESENT = 0
      then (let (low_pt_phys, s1) = pmm_alloc_page s
            in if low_pt_phys = 0 then None
               else Some (low_pt_phys, s1\<lparr>mem := zero_frame low_pt_phys ((mem s1)(cell (kpd s1) 0 :=
                      low_pt_phys OR PAGE_FLAG_PRESENT OR PAGE_FLAG_RW))\<rparr>))
      else Some (mem s (cell (kpd s) 0) AND NOT 0xFFF, s))"

definition fill_low_table :: "u32 \<Rightarrow> 'a vmm_scheme \<Rightarrow> 'a vmm_scheme" where
  "fill_low_table low_pt s =
     for_loop 0 256 (\<lambda>i s.
       if mem s (cell low_pt i) AND PAGE_FLAG_PRESENT = 0
       then s\<lparr>mem := (mem s)(cell low_pt i := i * PAGE_SIZE OR PAGE_FLAG_PRESENT OR PAGE_FLAG_RW)\<rparr>
       else s) s"

definition map_boot_info :: "vmm_env \<Rightarrow> 'a vmm_scheme \<Rightarrow> 'a vmm_scheme option" where
  "map_boot_info env s =
     (if mbi_addr env \<noteq> 0 \<and> mbi_flags env AND push_bit 11 1 \<noteq> 0
      then Option.bind (map_identity_ignoring (mbi_addr env)
                          (ALIGN_UP sizeof_mbi PAGE_SIZE div PAGE_SIZE) s) (\<lambda>s1.
           Option.bind (map_identity_ignoring (mbi_vbe_control_info env)
                          (ALIGN_UP sizeof_vbe_control_info PAGE_SIZE div PAGE_SIZE) s1) (\<lambda>s2.
           Option.bind (map_identity_ignoring (mbi_vbe_mode_info env)
                          (ALIGN_UP sizeof_vbe_mode_info PAGE_SIZE div PAGE_SIZE) s2) (\<lambda>s3.
             let seg = drop_bit 16 (video_modes_ptr env);
                 off = video_modes_ptr env AND 0xFFFF;
                 video_modes_addr = ALIGN_DOWN (seg * 16 + off) PAGE_SIZE;
                 oem_string_addr = ALIGN_DOWN (oem_string_ptr env) PAGE_SIZE
             in Option.bind (vmm_map_page video_modes_addr video_modes_addr
                              (PAGE_FLAG_PRESENT OR PAGE_FLAG_RW) s3) (\<lambda>(_, s4).
                  map_option snd (vmm_map_page oem_string_addr oem_string_addr
                              (PAGE_FLAG_PRESENT OR PAGE_FLAG_RW) s4)))))
      else Some s)"

definition vmm_init :: "vmm_env \<Rightarrow> 'a vmm_scheme \<Rightarrow> (kernel_status \<times> 'a vmm_scheme) option" where
  "vmm_init env s =
     (let s0 = s\<lparr>mem := zero_frame (kpd s) (mem s)\<rparr>;
          kernel_start = 0x100000;
          num_pages = ALIGN_UP (env_kernel_end env - kernel_start) PAGE_SIZE div PAGE_SIZE
      in Option.bind (map_identity_ignoring kernel_start num_pages s0) (\<lambda>s1.
         Option.bind (map_bitmap s1) (\<lambda>(r, s2).
           case r of
             Some st \<Rightarrow> Some (st, s2)
           | None \<Rightarrow>
               Option.bind (if vbe_available env
                            then map_identity_ignoring (framebuffer_addr env)
                                   (ALIGN_UP (framebuffer_size env) PAGE_SIZE div PAGE_SIZE) s2
                            else Some s2) (\<lambda>s3.
                 case low_table s3 of
                   None \<Rightarrow> Some (KERNEL_OUT_OF_MEMORY, s3)
                 | Some (low_pt, s4) \<Rightarrow>
                     Option.bind (map_boot_info env (fill_low_table low_pt s4)) (\<lambda>s5.
                       let s6 = s5\<lparr>mem := (mem s5)(cell (kpd s5) PAGE_RECURSIVE_SLOT :=
                                    kpd s5 OR PAGE_FLAG_PRESENT OR PAGE_FLAG_RW)\<rparr>
                       in Some (KERNEL_OK, vmm_enable_paging (vmm_switch_directory (kpd s6) s6)))))))"

section \<open>Identity mappings grow\<close>

definition identity :: "'a vmm_scheme \<Rightarrow> bool" where
  "identity s \<longleftrightarrow> (\<forall>va pa. aspace s va = Some pa \<longrightarrow> pa = va)"

definition boot_state :: "'a vmm_scheme \<Rightarrow> bool" where
  "boot_state s \<longleftrightarrow> vmm_wf s \<and> \<not> paging s \<and> identity s"

definition grows :: "'a vmm_scheme \<Rightarrow> 'a vmm_scheme \<Rightarrow> bool" where
  "grows s s' \<longleftrightarrow> kpd s' = kpd s \<and> bits_addr s' = bits_addr s \<and> bm_size s' = bm_size s \<and>
     (\<forall>va. aspace s va \<noteq> None \<longrightarrow> aspace s' va \<noteq> None)"

lemma grows_refl [simp]: "grows s s"
  by (simp add: grows_def)

lemma grows_trans: "grows s s' \<Longrightarrow> grows s' s'' \<Longrightarrow> grows s s''"
  by (simp add: grows_def)

lemma frame_or_self: "frame va OR (va AND 0xFFF) = va"
  by (simp flip: bit.conj_disj_distrib)

lemma bind_identity:
  assumes "identity s" "kpd s' = kpd s \<and> bits_addr s' = bits_addr s \<and> bm_size s' = bm_size s"
    and view: "aspace s' = bind_page va (Some (frame va)) (aspace s)"
  shows "identity s'" "grows s s'" "frame vb = frame va \<Longrightarrow> aspace s' vb = Some vb"
proof -
  have same: "frame va OR (vb AND 0xFFF) = vb" if "frame vb = frame va" for vb
    using frame_or_self [of vb] that by simp
  then show "frame vb = frame va \<Longrightarrow> aspace s' vb = Some vb" for vb
    by (simp add: view bind_page_def)
  show "identity s'" using assms(1) same unfolding identity_def view bind_page_def
    by (auto split: if_splits)
  show "grows s s'" using assms(2) unfolding grows_def view bind_page_def by auto
qed

lemma vmm_map_page_bitmap:
  assumes "vmm_wf s" "below_window va" "vmm_map_page va pa fl s = Some (st, s')"
  shows "bits_addr s' = bits_addr s \<and> bm_size s' = bm_size s"
  using assms vmm_map_page_eq [OF assms(1,2), of pa fl]
  by (auto simp: ensure_table_direct_eq set_pte_def fresh_table_def install_def pmm_alloc_page_def
      bitmap_set_bit_def Let_def split: if_splits)

lemma map_identity_page:
  assumes boot: "boot_state s" and low: "below_window va"
  obtains st s' where "vmm_map_page va va (PAGE_FLAG_PRESENT OR PAGE_FLAG_RW) s = Some (st, s')"
    "boot_state s'" "grows s s'" "st = KERNEL_OK \<or> st = KERNEL_OUT_OF_MEMORY"
    "st = KERNEL_OK \<Longrightarrow> aspace s' va = Some va"
proof -
  from boot have b: "vmm_wf s" "\<not> paging s" "identity s" by (simp_all add: boot_state_def)
  from b(1) low show thesis
  proof (cases rule: vmm_map_page_cases [where pa = va and fl = "PAGE_FLAG_PRESENT OR PAGE_FLAG_RW"])
    case (ok s')
    have view: "aspace s' = bind_page va (Some (frame va)) (aspace s)" using ok(3) by simp
    from bind_identity [OF b(3) _ view] ok(5) vmm_map_page_bitmap [OF b(1) low ok(1)] ok b show thesis
      by (intro that [of KERNEL_OK s']) (simp_all add: boot_state_def)
  next
    case oom
    with boot show thesis by (intro that [of KERNEL_OUT_OF_MEMORY s]) simp_all
  next
    case (mapped s')
    with b show thesis by simp
  qed
qed

definition pages_below :: "u32 \<Rightarrow> u32 \<Rightarrow> bool" where
  "pages_below start n \<longleftrightarrow> (\<forall>i < n. below_window (start + i * PAGE_SIZE))"

lemma map_identity_ignoring_spec:
  assumes boot: "boot_state s" and low: "pages_below start n"
  obtains s' where "map_identity_ignoring start n s = Some s'" "boot_state s'" "grows s s'"
proof -
  let ?body = "\<lambda>i s. let virt = start + i * PAGE_SIZE
              in map_option (\<lambda>(st, s'). (None :: unit option, s'))
                   (vmm_map_page virt virt (PAGE_FLAG_PRESENT OR PAGE_FLAG_RW) s)"
  have "\<exists>r s'. for_ret 0 n ?body s = Some (r, s') \<and>
      (case r of None \<Rightarrow> boot_state s' \<and> grows s s'
       | Some v \<Rightarrow> \<exists>i. unat (0 :: u32) \<le> i \<and> i < unat n \<and> False)"
  proof (rule for_ret_rule)
    fix i and s1 :: "'a vmm_scheme"
    assume P: "boot_state s1 \<and> grows s s1" and "i < n"
    then have "below_window (start + i * PAGE_SIZE)" using low by (simp add: pages_below_def)
    with P obtain st s' where
      "vmm_map_page (start + i * PAGE_SIZE) (start + i * PAGE_SIZE) (PAGE_FLAG_PRESENT OR PAGE_FLAG_RW) s1
         = Some (st, s')" "boot_state s'" "grows s1 s'"
      by (metis map_identity_page)
    with P grows_trans show "\<exists>r s'. ?body i s1 = Some (r, s') \<and>
        (case r of None \<Rightarrow> boot_state s' \<and> grows s s' | Some v \<Rightarrow> False)"
      by (auto simp: Let_def)
  qed (use boot in simp_all)
  then obtain r s' where "for_ret 0 n ?body s = Some (r, s')" "case r of None \<Rightarrow> boot_state s' \<and> grows s s' | Some v \<Rightarrow> False"
    by (auto split: option.splits)
  then show thesis using that by (cases r) (simp_all add: map_identity_ignoring_def)
qed

lemma map_bitmap_spec:
  fixes s :: "'a vmm_scheme"
  defines "n \<equiv> ALIGN_UP (bm_size s) PAGE_SIZE div PAGE_SIZE"
  assumes boot: "boot_state s" and low: "pages_below (bits_addr s) n"
  obtains (all) s' where "map_bitmap s = Some (None, s')" "boot_state s'" "grows s s'"
      "\<And>i. i < n \<Longrightarrow> aspace s' (bits_addr s + i * PAGE_SIZE) \<noteq> None"
  | (oom) s' where "map_bitmap s = Some (Some KERNEL_OUT_OF_MEMORY, s')"
proof -
  let ?body = "\<lambda>i s'. let virt = bits_addr s + i * PAGE_SIZE
              in map_option (\<lambda>(st, s''). (if st \<noteq> KERNEL_OK then Some st else None, s''))
                   (vmm_map_page virt virt (PAGE_FLAG_PRESENT OR PAGE_FLAG_RW) s')"
  let ?P = "\<lambda>k s'. boot_state s' \<and> grows s s' \<and>
      (\<forall>i :: u32. unat i < k \<longrightarrow> aspace s' (bits_addr s + i * PAGE_SIZE) \<noteq> None)"
  have "\<exists>r s'. for_ret 0 n ?body s = Some (r, s') \<and>
      (case r of None \<Rightarrow> ?P (unat n) s'
       | Some v \<Rightarrow> \<exists>i. unat (0 :: u32) \<le> i \<and> i < unat n \<and> v = KERNEL_OUT_OF_MEMORY)"
  proof (rule for_ret_rule)
    fix i and s1 :: "'a vmm_scheme"
    assume P: "?P (unat i) s1" and "i < n"
    then have "below_window (bits_addr s + i * PAGE_SIZE)" using low by (simp add: pages_below_def)
    with P obtain st s' where m:
      "vmm_map_page (bits_addr s + i * PAGE_SIZE) (bits_addr s + i * PAGE_SIZE)
         (PAGE_FLAG_PRESENT OR PAGE_FLAG_RW) s1 = Some (st, s')" "boot_state s'" "grows s1 s'"
      "st = KERNEL_OK \<or> st = KERNEL_OUT_OF_MEMORY"
      "st = KERNEL_OK \<Longrightarrow> aspace s' (bits_addr s + i * PAGE_SIZE) = Some (bits_addr s + i * PAGE_SIZE)"
      by (metis map_identity_page)
    have "?P (Suc (unat i)) s'" if "st = KERNEL_OK"
    proof -
      have "aspace s' (bits_addr s + j * PAGE_SIZE) \<noteq> None" if "unat j < Suc (unat i)" for j :: u32
        using that P m(3) m(5) [OF \<open>st = KERNEL_OK\<close>] unfolding grows_def
        by (metis less_SucE option.distinct(1) word_unat_eq_iff)
      then show ?thesis using P m(2,3) grows_trans by blast
    qed
    with m(1,4) show "\<exists>r s'. ?body i s1 = Some (r, s') \<and>
        (case r of None \<Rightarrow> ?P (Suc (unat i)) s' | Some v \<Rightarrow> v = KERNEL_OUT_OF_MEMORY)"
      by (auto simp: Let_def)
  qed (use boot in simp_all)
  then obtain r s' where loop: "map_bitmap s = Some (r, s')"
    and post: "case r of None \<Rightarrow> ?P (unat n) s'
       | Some v \<Rightarrow> \<exists>i. unat (0 :: u32) \<le> i \<and> i < unat n \<and> v = KERNEL_OUT_OF_MEMORY"
    unfolding map_bitmap_def n_def by blast
  show thesis
  proof (cases r)
    case None
    then show thesis using all [of s'] loop post by (simp add: word_less_nat_alt)
  next
    case (Some v)
    then show thesis using oom [of s'] loop post by simp
  qed
qed

section \<open>The first megabyte\<close>

lemma low_table_eq:
  assumes wf: "vmm_wf s"
  shows "low_table s = (case ensure_table_direct 0 s of Inl _ \<Rightarrow> None | Inr s1 \<Rightarrow> Some (table s1 0, s1))"
proof (cases "has_table s 0")
  case True
  then show ?thesis by (simp add: low_table_def ensure_table_direct_eq has_table_def pde_def table_def)
next
  case False
  obtain p s1 where ret: "pmm_alloc_page s = (p, s1)" by fastforce
  show ?thesis
  proof (cases "p = 0")
    case True
    with False ret show ?thesis
      by (simp add: low_table_def ensure_table_direct_eq has_table_def pde_def)
  next
    case new: False
    note fr = alloc_fresh [OF wf ret new]
    note wf1 = vmm_wf_alloc [OF wf ret]
    have "frame (kpd s1) = kpd s1" "p \<noteq> kpd s1"
      using vmm_wf_facts(2) [OF wf1] fr(2) pmm_keeps_machine(1) [OF ret] by simp_all
    then have "pde (fresh_table 0 p s1) 0 = (p OR PAGE_FLAG_PRESENT OR PAGE_FLAG_RW)"
      using fr(1) by (simp add: pde_def fresh_table_def install_def zero_frame_def)
    then have "table (fresh_table 0 p s1) 0 = p"
      using frame_rec_entry(1) [OF fr(1)] by (simp add: table_def)
    moreover have "low_table s = Some (p, fresh_table 0 p s1)"
      using False ret new fr(1)
      by (simp add: low_table_def has_table_def pde_def fresh_table_def install_def)
    ultimately show ?thesis using False ret new by (simp add: ensure_table_direct_eq)
  qed
qed

lemma pd_index_low: "i < (256 :: u32) \<Longrightarrow> pd_index (i * PAGE_SIZE) = 0"
  "i < (256 :: u32) \<Longrightarrow> pt_index (i * PAGE_SIZE) = i"
proof -
  assume "i < (256 :: u32)"
  then have i: "unat i < 256" by (simp add: word_less_nat_alt)
  then have u: "unat (i * PAGE_SIZE) = unat i * 4096" by (simp add: unat_word_ariths)
  show "pd_index (i * PAGE_SIZE) = 0" using i by (simp add: word_unat_eq_iff unat_pd_index u)
  show "pt_index (i * PAGE_SIZE) = i" using i by (simp add: word_unat_eq_iff unat_pt_index u)
qed

lemma fill_low_table_spec:
  assumes boot: "boot_state s" and tab: "has_table s 0"
  shows "boot_state (fill_low_table (table s 0) s)" "grows s (fill_low_table (table s 0) s)"
    "i < 256 \<Longrightarrow> aspace (fill_low_table (table s 0) s) (i * PAGE_SIZE) \<noteq> None"
proof -
  let ?body = "\<lambda>i s'. if mem s' (cell (table s 0) i) AND PAGE_FLAG_PRESENT = 0
       then s'\<lparr>mem := (mem s')(cell (table s 0) i := i * PAGE_SIZE OR PAGE_FLAG_PRESENT OR PAGE_FLAG_RW)\<rparr>
       else s'"
  let ?P = "\<lambda>k s'. boot_state s' \<and> grows s s' \<and> has_table s' 0 \<and> table s' 0 = table s 0 \<and>
      (\<forall>i :: u32. unat i < k \<longrightarrow> aspace s' (i * PAGE_SIZE) \<noteq> None)"
  have "?P (unat (256 :: u32)) (for_loop 0 256 ?body s)"
  proof (rule for_loop_counting)
    fix i :: u32 and s1 :: "'a vmm_scheme"
    assume P: "?P (unat i) s1" and i: "i < 256"
    let ?va = "i * PAGE_SIZE" and ?v = "i * PAGE_SIZE OR PAGE_FLAG_PRESENT OR PAGE_FLAG_RW"
    have wf1: "vmm_wf s1" and tab1: "has_table s1 (pd_index ?va)" and low: "below_window ?va"
      using P pd_index_low [OF i] by (simp_all add: boot_state_def below_window_def)
    have al: "frame ?va = ?va" using aligned_add_pages [of 0 i] by simp
    define s2 where "s2 = ?body i s1"
    have step: "boot_state s2 \<and> grows s1 s2 \<and> has_table s2 0 \<and> table s2 0 = table s1 0 \<and> aspace s2 ?va \<noteq> None"
    proof (cases "pte s1 ?va AND PAGE_FLAG_PRESENT = 0")
      case True
      then have eq: "s2 = set_pte ?va ?v s1"
        using P pd_index_low [OF i] by (simp add: s2_def set_pte_def pte_def)
      have view: "aspace (set_pte ?va ?v s1) = bind_page ?va (Some (frame ?va)) (aspace s1)"
        using set_pte_spec(2) [OF wf1 low tab1, of ?v] frame_rec_entry [OF al] al by simp
      have "identity s1" "\<not> paging s1" using P by (simp_all add: boot_state_def)
      from bind_identity [OF this(1) _ view] this set_pte_spec(1) [OF wf1 low tab1, of ?v]
        set_pte_pde [OF wf1 low tab1, of 0 ?v]
      show ?thesis unfolding eq using tab1 pd_index_low [OF i]
        by (simp add: boot_state_def has_table_def table_def) (simp add: set_pte_def)
    next
      case False
      then have eq: "s2 = s1" using P pd_index_low [OF i] by (simp add: s2_def pte_def)
      have "aspace s1 ?va \<noteq> None" using False tab1 low by (simp add: aspace_def translate_eq)
      then show ?thesis unfolding eq using P by simp
    qed
    have "aspace s2 (j * PAGE_SIZE) \<noteq> None" if "unat j < Suc (unat i)" for j :: u32
      using that P step unfolding grows_def by (metis less_SucE word_unat_eq_iff)
    moreover have "grows s s2" using P step grows_trans by blast
    ultimately show "?P (Suc (unat i)) (?body i s1)" unfolding s2_def [symmetric] using P step by simp
  qed (use boot tab in simp_all)
  then show "boot_state (fill_low_table (table s 0) s)" "grows s (fill_low_table (table s 0) s)"
    "i < 256 \<Longrightarrow> aspace (fill_low_table (table s 0) s) (i * PAGE_SIZE) \<noteq> None"
    unfolding fill_low_table_def by (simp_all add: word_less_nat_alt)
qed

section \<open>Turning paging on\<close>

lemma map_boot_info_spec:
  assumes boot: "boot_state s"
    and low: "pages_below (mbi_addr env) 1" "pages_below (mbi_vbe_control_info env) 1"
      "pages_below (mbi_vbe_mode_info env) 1" "below_window (oem_string_ptr env)"
  obtains s' where "map_boot_info env s = Some s'" "boot_state s'" "grows s s'"
proof (cases "mbi_addr env \<noteq> 0 \<and> mbi_flags env AND push_bit 11 1 \<noteq> 0")
  case False
  then show thesis using that boot by (auto simp: map_boot_info_def)
next
  case True
  obtain s1 where s1: "map_identity_ignoring (mbi_addr env) 1 s = Some s1" "boot_state s1" "grows s s1"
    using map_identity_ignoring_spec [OF boot low(1)] by blast
  obtain s2 where s2: "map_identity_ignoring (mbi_vbe_control_info env) 1 s1 = Some s2" "boot_state s2" "grows s1 s2"
    using map_identity_ignoring_spec [OF s1(2) low(2)] by blast
  obtain s3 where s3: "map_identity_ignoring (mbi_vbe_mode_info env) 1 s2 = Some s3" "boot_state s3" "grows s2 s3"
    using map_identity_ignoring_spec [OF s2(2) low(3)] by blast
  let ?vm = "ALIGN_DOWN (drop_bit 16 (video_modes_ptr env) * 16 + (video_modes_ptr env AND 0xFFFF)) PAGE_SIZE"
  let ?oem = "ALIGN_DOWN (oem_string_ptr env) PAGE_SIZE"
  have "below_window ?vm"
  proof -
    have "unat (drop_bit 16 (video_modes_ptr env) * 16 + (video_modes_ptr env AND 0xFFFF)) < 2 ^ 21"
    proof -
      have a: "unat (drop_bit 16 (video_modes_ptr env)) < 2 ^ 16"
        by (simp add: drop_bit_eq_div unat_div_distrib) (rule less_mult_imp_div_less, simp)
      have "(0xFFFF :: u32) = mask 16" by (simp add: mask_eq_exp_minus_1)
      then have b: "unat (video_modes_ptr env AND 0xFFFF) < 2 ^ 16"
        using unat_and_mask [of "video_modes_ptr env" 16] by simp
      from a b show ?thesis by (simp add: unat_word_ariths)
    qed
    then show ?thesis unfolding below_window_unat ALIGN_DOWN_page
      by (simp only: unat_page_base) (rule le_less_trans [OF div_times_less_eq_dividend], simp)
  qed
  then obtain st4 s4 where s4: "vmm_map_page ?vm ?vm (PAGE_FLAG_PRESENT OR PAGE_FLAG_RW) s3 = Some (st4, s4)"
    "boot_state s4" "grows s3 s4" using map_identity_page [OF s3(2)] by metis
  have "below_window ?oem"
    using low(4) unfolding below_window_unat ALIGN_DOWN_page
    by (simp only: unat_page_base)
  then obtain st5 s5 where s5: "vmm_map_page ?oem ?oem (PAGE_FLAG_PRESENT OR PAGE_FLAG_RW) s4 = Some (st5, s5)"
    "boot_state s5" "grows s4 s5" using map_identity_page [OF s4(2)] by metis
  have n: "ALIGN_UP sizeof_mbi PAGE_SIZE div PAGE_SIZE = 1"
    "ALIGN_UP sizeof_vbe_control_info PAGE_SIZE div PAGE_SIZE = 1"
    "ALIGN_UP sizeof_vbe_mode_info PAGE_SIZE div PAGE_SIZE = 1"
    by (simp_all add: ALIGN_UP_def)
  have "map_boot_info env s = Some s5"
    unfolding map_boot_info_def n Let_def using True s1(1) s2(1) s3(1) s4(1) s5(1) by simp
  moreover have "grows s s5" using s1(3) s2(3) s3(3) s4(3) s5(3) grows_trans by metis
  ultimately show thesis using that s5(2) by blast
qed

lemma cleared_boot_state:
  assumes "pmm_inv s" "frame (kpd s) = kpd s" "frame_taken s (kpd s)" "\<not> paging s"
  shows "boot_state (s\<lparr>mem := zero_frame (kpd s) (mem s)\<rparr>)"
proof -
  let ?s = "s\<lparr>mem := zero_frame (kpd s) (mem s)\<rparr>"
  have none: "\<not> has_table ?s i" if "i < 1024" for i
    using that assms(2) by (simp add: has_table_def pde_def zero_frame_def)
  then have "vmm_wf ?s" using assms lt_1023_1024 by (auto simp: vmm_wf_def)
  moreover have "identity ?s" using none by (auto simp: identity_def aspace_def translate_eq)
  ultimately show ?thesis using assms(4) by (simp add: boot_state_def)
qed

text \<open>The directory's own slot, then \<^verbatim>\<open>CR3\<close> and \<^verbatim>\<open>CR0.PG\<close>.\<close>

definition paging_on :: "'a vmm_scheme \<Rightarrow> 'a vmm_scheme" where
  "paging_on s = vmm_enable_paging (vmm_switch_directory (kpd s)
     (s\<lparr>mem := (mem s)(cell (kpd s) PAGE_RECURSIVE_SLOT := kpd s OR PAGE_FLAG_PRESENT OR PAGE_FLAG_RW)\<rparr>))"

lemma paging_on_spec:
  assumes "boot_state s"
  shows "vmm_wf (paging_on s)" "paging (paging_on s)" "aspace (paging_on s) = aspace s"
proof -
  from assms have wf: "vmm_wf s" by (simp add: boot_state_def)
  note f = vmm_wf_facts [OF wf]
  have pde: "pde (paging_on s) i =
      (if i = PAGE_RECURSIVE_SLOT then kpd s OR PAGE_FLAG_PRESENT OR PAGE_FLAG_RW else pde s i)"
    if "i < 1024" for i
    using that f(2) by (simp add: paging_on_def vmm_enable_paging_def vmm_switch_directory_def pde_def)
  have same: "has_table (paging_on s) i = has_table s i" "table (paging_on s) i = table s i"
    if "i < PAGE_RECURSIVE_SLOT" for i
    using that pde [OF lt_1023_1024 [OF that]] by (auto simp: has_table_def table_def)
  have fields: "kpd (paging_on s) = kpd s" "cr3 (paging_on s) = kpd s" "paging (paging_on s)"
    "bits (paging_on s) = bits s" "total_pages (paging_on s) = total_pages s"
    "bm_size (paging_on s) = bm_size s" "free_pages (paging_on s) = free_pages s"
    "used_pages (paging_on s) = used_pages s"
    by (simp_all add: paging_on_def vmm_enable_paging_def vmm_switch_directory_def)
  have free: "free_frames (paging_on s) = free_frames s"
    by (simp add: free_frames_def page_used_def fields)
  have inv: "pmm_inv (paging_on s)"
    using f(1) by (simp add: pmm_inv_def free bitmap_wf_def capacity_def page_used_def fields)
  show "paging (paging_on s)" by (rule fields)
  show "vmm_wf (paging_on s)"
    using f inv pde [of 1023] by (simp add: vmm_wf_def fields same frame_taken_def free)
  show "aspace (paging_on s) = aspace s"
  proof (rule aspace_cong)
    fix va assume low: "below_window va"
    then have i: "pd_index va < PAGE_RECURSIVE_SLOT" by (simp add: below_window_def)
    show "translate (paging_on s) va = translate s va"
    proof (rule translate_cong)
      show "pde (paging_on s) (pd_index va) = pde s (pd_index va)" using i pde [of "pd_index va"] by auto
      assume "has_table s (pd_index va)"
      then have "table s (pd_index va) \<noteq> kpd s" using f(4) [OF i] by blast
      then show "pte (paging_on s) va = pte s va"
        using same(2) [OF i] f(2)
        by (simp add: pte_def) (simp add: paging_on_def vmm_enable_paging_def vmm_switch_directory_def)
    qed
  qed
qed

text \<open>Where the things to be mapped must lie: below the recursive window.\<close>

definition layout_ok :: "vmm_env \<Rightarrow> 'a vmm_scheme \<Rightarrow> bool" where
  "layout_ok env s \<longleftrightarrow>
     pages_below 0x100000 (ALIGN_UP (env_kernel_end env - 0x100000) PAGE_SIZE div PAGE_SIZE) \<and>
     pages_below (bits_addr s) (ALIGN_UP (bm_size s) PAGE_SIZE div PAGE_SIZE) \<and>
     pages_below (framebuffer_addr env) (ALIGN_UP (framebuffer_size env) PAGE_SIZE div PAGE_SIZE) \<and>
     pages_below (mbi_addr env) 1 \<and> pages_below (mbi_vbe_control_info env) 1 \<and>
     pages_below (mbi_vbe_mode_info env) 1 \<and> below_window (oem_string_ptr env)"

lemma vmm_init_cases:
  assumes pre: "pmm_inv s" "frame (kpd s) = kpd s" "frame_taken s (kpd s)" "\<not> paging s"
    and lay: "layout_ok env s"
  obtains (ok) s' where "vmm_init env s = Some (KERNEL_OK, s')" "vmm_wf s'" "paging s'" "identity s'"
      "\<And>i. i < 256 \<Longrightarrow> aspace s' (i * PAGE_SIZE) \<noteq> None"
      "\<And>i. i < ALIGN_UP (bm_size s) PAGE_SIZE div PAGE_SIZE \<Longrightarrow>
         aspace s' (bits_addr s + i * PAGE_SIZE) \<noteq> None"
  | (oom) s' where "vmm_init env s = Some (KERNEL_OUT_OF_MEMORY, s')"
proof -
  let ?s0 = "s\<lparr>mem := zero_frame (kpd s) (mem s)\<rparr>"
  let ?n = "ALIGN_UP (env_kernel_end env - 0x100000) PAGE_SIZE div PAGE_SIZE"
  let ?fb = "ALIGN_UP (framebuffer_size env) PAGE_SIZE div PAGE_SIZE"
  note low = lay [unfolded layout_ok_def]
  obtain s1 where s1: "map_identity_ignoring 0x100000 ?n ?s0 = Some s1" "boot_state s1" "grows ?s0 s1"
    using map_identity_ignoring_spec [OF cleared_boot_state [OF pre]] low by blast
  have bm: "bits_addr s1 = bits_addr s" "bm_size s1 = bm_size s" using s1(3) by (simp_all add: grows_def)
  have low1: "pages_below (bits_addr s1) (ALIGN_UP (bm_size s1) PAGE_SIZE div PAGE_SIZE)"
    using low bm by simp
  from s1(2) low1 show thesis
  proof (cases rule: map_bitmap_spec)
    case a: (oom s2)
    then have "vmm_init env s = Some (KERNEL_OUT_OF_MEMORY, s2)"
      using s1(1) by (simp add: vmm_init_def Let_def)
    then show thesis by (rule oom)
  next
    case bmp: (all s2)
    obtain s3 where s3: "(if vbe_available env then map_identity_ignoring (framebuffer_addr env) ?fb s2
        else Some s2) = Some s3" "boot_state s3" "grows s2 s3"
      using map_identity_ignoring_spec [OF bmp(2)] low bmp(2) by (metis grows_refl)
    have wf3: "vmm_wf s3" using s3(2) by (simp add: boot_state_def)
    have "(0 :: u32) < PAGE_RECURSIVE_SLOT" by simp
    from wf3 this show thesis
    proof (cases rule: ensure_table_cases)
      case a: oom
      then have "low_table s3 = None" using low_table_eq [OF wf3] by simp
      then have "vmm_init env s = Some (KERNEL_OUT_OF_MEMORY, s3)"
        using s1(1) bmp(1) s3(1) by (simp add: vmm_init_def Let_def)
      then show thesis by (rule oom)
    next
      case t: (ok s4)
      have lt: "low_table s3 = Some (table s4 0, s4)" using low_table_eq [OF wf3] t(1) by simp
      have b4: "boot_state s4" using t s3(2) by (simp add: boot_state_def identity_def)
      define s5 where "s5 = fill_low_table (table s4 0) s4"
      note fill = fill_low_table_spec [OF b4 t(3), folded s5_def]
      obtain s6 where s6: "map_boot_info env s5 = Some s6" "boot_state s6" "grows s5 s6"
        using map_boot_info_spec [OF fill(1)] low by metis
      have ret: "vmm_init env s = Some (KERNEL_OK, paging_on s6)"
        using s1(1) bmp(1) s3(1) lt s6(1)
        by (simp add: vmm_init_def Let_def s5_def paging_on_def)
      note on = paging_on_spec [OF s6(2)]
      have keep: "aspace s2 va \<noteq> None \<Longrightarrow> aspace s6 va \<noteq> None" for va
        using s3(3) t(7) fill(2) s6(3) unfolding grows_def by metis
      show thesis
      proof (rule ok [OF ret on(1,2)])
        show "identity (paging_on s6)" using s6(2) on(3) by (simp add: boot_state_def identity_def)
        show "aspace (paging_on s6) (i * PAGE_SIZE) \<noteq> None" if "i < 256" for i
          using fill(3) [OF that] s6(3) unfolding on(3) grows_def by metis
        show "aspace (paging_on s6) (bits_addr s + i * PAGE_SIZE) \<noteq> None"
          if "i < ALIGN_UP (bm_size s) PAGE_SIZE div PAGE_SIZE" for i
          using keep bmp(4) that unfolding on(3) bm by metis
      qed
    qed
  qed
qed

section \<open>Properties\<close>

text \<open>Property C5. \<^verbatim>\<open>vmm_init\<close> never faults. It returns \<^verbatim>\<open>KERNEL_OK\<close> or \<^verbatim>\<open>KERNEL_OUT_OF_MEMORY\<close>, and on
  success paging is on over a well-formed address space in which every mapping is the identity and
  the first megabyte and the allocator's bitmap are mapped, so the kernel goes on running and every
  later \<^verbatim>\<open>vmm_\<close> call meets its precondition.
\<close>

theorem vmm_init_establishes:
  assumes "pmm_inv s" and "frame (kpd s) = kpd s" and "frame_taken s (kpd s)" and "\<not> paging s"
    and "layout_ok env s"
  shows "\<exists>st s'. vmm_init env s = Some (st, s') \<and> st \<in> {KERNEL_OK, KERNEL_OUT_OF_MEMORY} \<and>
           (st = KERNEL_OK \<longrightarrow> vmm_wf s' \<and> paging s' \<and>
              (\<forall>va pa. aspace s' va = Some pa \<longrightarrow> pa = va) \<and>
              (\<forall>i < 256. aspace s' (i * PAGE_SIZE) = Some (i * PAGE_SIZE)) \<and>
              (\<forall>i < ALIGN_UP (bm_size s) PAGE_SIZE div PAGE_SIZE.
                 aspace s' (bits_addr s + i * PAGE_SIZE) = Some (bits_addr s + i * PAGE_SIZE)))"
  using assms
proof (cases rule: vmm_init_cases)
  case (ok s')
  then have id: "aspace s' va \<noteq> None \<Longrightarrow> aspace s' va = Some va" for va by (auto simp: identity_def)
  show ?thesis
    by (intro exI [of _ KERNEL_OK] exI [of _ s']) (use ok id in \<open>simp add: identity_def\<close>)
qed simp

definition small_env :: vmm_env where
  "small_env = \<lparr>env_kernel_end = 0x101000, vbe_available = False, framebuffer_addr = 0,
     framebuffer_size = 0, video_modes_ptr = 0, oem_string_ptr = 0, mbi_addr = 0x5000, mbi_flags = 0,
     mbi_vbe_control_info = 0, mbi_vbe_mode_info = 0\<rparr>"

lemma pages_below_1: "pages_below a 1 \<longleftrightarrow> below_window a"
proof -
  have "i < 1 \<longleftrightarrow> i = 0" for i :: u32 by (auto simp: word_less_nat_alt word_unat_eq_iff)
  then show ?thesis by (auto simp: pages_below_def)
qed

theorem vmm_init_establishes_witness:
  "\<exists>st s'. vmm_init small_env (small_machine\<lparr>paging := False\<rparr>) = Some (st, s') \<and>
           st \<in> {KERNEL_OK, KERNEL_OUT_OF_MEMORY}"
proof -
  let ?s = "small_machine\<lparr>paging := False\<rparr>"
  have free: "free_frames ?s = free_frames small_machine"
    by (simp add: free_frames_def page_used_def)
  have inv: "pmm_inv ?s"
    using small_machine_pmm_inv by (simp add: pmm_inv_def free bitmap_wf_def capacity_def page_used_def)
  have "frame_taken ?s (kpd ?s)"
    unfolding frame_taken_def free small_machine_free by (simp add: small_machine_def)
  moreover have "layout_ok small_env ?s"
    unfolding layout_ok_def small_env_def small_machine_def
    by (simp add: ALIGN_UP_def pages_below_1 below_window_def pd_index_def) (simp add: pages_below_def)
  ultimately show ?thesis
    using vmm_init_establishes [OF inv, of small_env] by (auto simp: small_machine_def)
qed

end
