(* ===== verification/Vmm_Frames.thy ===== *)
theory Vmm_Frames
  imports Vmm_Init
begin

text \<open>
  What the users of the page tables need to know beyond the mapping: the page-table code changes no
  other part of the kernel's state, takes its page tables from the free frames only, and keeps its
  invariant when a user allocates and gives back frames of its own.
\<close>

section \<open>What the operations leave alone\<close>

text \<open>The number of managed pages, and the state of the rest of the kernel (the record's extension).\<close>

definition rest :: "'a vmm_scheme \<Rightarrow> u32 \<times> 'a" where
  "rest s = (total_pages s, vmm.more s)"

lemma rest_mem [simp]: "rest (s\<lparr>mem := m\<rparr>) = rest s"
  by (simp add: rest_def)

lemma pmm_alloc_page_rest: "pmm_alloc_page s = (p, s1) \<Longrightarrow> rest s1 = rest s"
  by (auto simp: rest_def pmm_alloc_page_def Let_def bitmap_set_bit_def split: if_splits)

lemma ensure_table_rest:
  "ensure_table_window i s = Some (Inl s1) \<Longrightarrow> rest s1 = rest s"
  "ensure_table_window i s = Some (Inr s1) \<Longrightarrow> rest s1 = rest s"
  "ensure_table_direct i s = Inl s1 \<Longrightarrow> rest s1 = rest s"
  "ensure_table_direct i s = Inr s1 \<Longrightarrow> rest s1 = rest s"
  by (auto simp: ensure_table_window_def ensure_table_direct_def vwrite_def vzero_page_def bind_eq_Some_conv
      dest: pmm_alloc_page_rest split: if_splits prod.splits)

lemma vmm_map_page_rest: "vmm_map_page va pa fl s = Some (st, s') \<Longrightarrow> rest s' = rest s"
proof (cases "paging s")
  case True
  assume ret: "vmm_map_page va pa fl s = Some (st, s')"
  with True obtain r where r: "ensure_table_window (pd_index va) s = Some r"
    by (auto simp: vmm_map_page_def Let_def bind_eq_Some_conv)
  show ?thesis
  proof (cases r)
    case (Inl s1)
    with r ret True show ?thesis using ensure_table_rest(1) by (auto simp: vmm_map_page_def Let_def)
  next
    case (Inr s1)
    with r have "rest s1 = rest s" using ensure_table_rest(2) by blast
    with Inr r ret True show ?thesis
      by (auto simp: vmm_map_page_def Let_def vwrite_def bind_eq_Some_conv split: if_splits)
  qed
next
  case False
  assume "vmm_map_page va pa fl s = Some (st, s')"
  with False show ?thesis
    by (auto simp: vmm_map_page_def Let_def dest: ensure_table_rest split: sum.splits)
qed

lemma vmm_unmap_page_rest: "vmm_unmap_page va s = Some (st, s') \<Longrightarrow> rest s' = rest s"
  by (auto simp: vmm_unmap_page_def Let_def vwrite_def bind_eq_Some_conv split: if_splits)

lemma unmap_ignoring_rest: "unmap_ignoring va n s = Some s' \<Longrightarrow> rest s' = rest s"
  unfolding unmap_ignoring_def
  by (auto dest!: vmm_unmap_page_rest elim!: for_ret_keeps [where f = rest, rotated])

lemma vmm_map_pages_rest:
  assumes "vmm_map_pages va pa n fl s = Some (st, s')"
  shows "rest s' = rest s"
proof -
  obtain r where "for_ret 0 n
         (\<lambda>i s. Option.bind (vmm_map_page (va + i * PAGE_SIZE) (pa + i * PAGE_SIZE) fl s)
            (\<lambda>(st, s1). if st \<noteq> KERNEL_OK
                         then map_option (\<lambda>s2. (Some st, s2)) (unmap_ignoring va i s1)
                         else Some (None, s1))) s = Some (r, s')"
    using assms by (auto simp: vmm_map_pages_def)
  then show ?thesis
    by (rule for_ret_keeps [where f = rest, rotated])
       (auto simp: bind_eq_Some_conv dest!: vmm_map_page_rest unmap_ignoring_rest split: if_splits)
qed

lemma vmm_map_if_not_mapped_rest: "vmm_map_if_not_mapped a n s = Some (st, s') \<Longrightarrow> rest s' = rest s"
  unfolding vmm_map_if_not_mapped_def Let_def
  by (auto simp: map_if_not_mapped_step_def bind_eq_Some_conv dest!: vmm_map_page_rest
      elim!: for_ret_keeps [where f = rest, rotated] split: if_splits)

section \<open>Frames that are not page tables\<close>

definition tables_avoid :: "nat set \<Rightarrow> 'a vmm_scheme \<Rightarrow> bool" where
  "tables_avoid R s \<longleftrightarrow> (\<forall>i < PAGE_RECURSIVE_SLOT. has_table s i \<longrightarrow> unat (table s i) div 4096 \<notin> R)"

lemma tables_avoid_pde:
  assumes "\<And>i. i < 1024 \<Longrightarrow> pde s' i = pde s i"
  shows "tables_avoid R s' = tables_avoid R s"
  using assms [OF lt_1023_1024] by (simp add: tables_avoid_def has_table_def table_def)

lemma ensure_table_avoids:
  assumes wf: "vmm_wf s" and i: "i < PAGE_RECURSIVE_SLOT" and av: "tables_avoid R s"
    and R: "R \<inter> free_frames s = {}" and ret: "ensure_table_direct i s = Inr s1"
  shows "tables_avoid R s1"
proof (cases "has_table s i")
  case True
  with ret av show ?thesis by (simp add: ensure_table_direct_eq)
next
  case False
  obtain p s0 where al: "pmm_alloc_page s = (p, s0)" by fastforce
  with ret False have p: "p \<noteq> 0" "s1 = fresh_table i p s0"
    by (auto simp: ensure_table_direct_eq split: if_splits)
  note k = pmm_keeps_machine(1) [OF al] and fr = alloc_fresh [OF wf al p(1)]
  have kp: "p \<noteq> kpd s0" using fr(2) k by simp
  note tab = fresh_table_tables [OF vmm_wf_alloc [OF wf al] i fr(1) kp]
  have "unat p div 4096 \<notin> R"
    using pmm.alloc_page_aligned(2) [OF vmm_wf_facts(1) [OF wf] al p(1)] R by auto
  moreover have "tables_avoid R s0" using av k by (simp add: tables_avoid_def has_table_def table_def pde_def)
  ultimately show ?thesis by (simp add: p(2) tables_avoid_def tab)
qed

lemma vmm_map_page_avoids:
  assumes wf: "vmm_wf s" and low: "below_window va" and av: "tables_avoid R s"
    and R: "R \<inter> free_frames s = {}" and ret: "vmm_map_page va pa fl s = Some (st, s')"
  shows "tables_avoid R s'"
proof -
  have i: "pd_index va < PAGE_RECURSIVE_SLOT" using low by (simp add: below_window_def)
  note eq = vmm_map_page_eq [OF wf low, of pa fl]
  from wf i show ?thesis
  proof (cases rule: ensure_table_cases)
    case oom
    with eq ret av show ?thesis by simp
  next
    case (ok s1)
    note av1 = ensure_table_avoids [OF wf i av R ok(1)]
    have "tables_avoid R (set_pte va v s1)" for v
      using av1 tables_avoid_pde [OF set_pte_pde [OF ok(2) low ok(3)]] by blast
    with eq ret ok(1) av1 show ?thesis by (auto split: if_splits)
  qed
qed

lemma unmap_ignoring_avoids:
  assumes wf: "vmm_wf s" and run: "run_ok va (unat n)" and av: "tables_avoid R s"
    and ret: "unmap_ignoring va n s = Some s'"
  shows "tables_avoid R s'"
proof -
  let ?body = "\<lambda>j s. map_option (\<lambda>(st, s'). (None :: unit option, s')) (vmm_unmap_page (va + j * PAGE_SIZE) s)"
  obtain r where loop: "for_ret 0 n ?body s = Some (r, s')" using ret by (auto simp: unmap_ignoring_def)
  have "vmm_wf s' \<and> tables_avoid R s'"
  proof (rule for_ret_invariant [OF _ loop, where P = "\<lambda>t. vmm_wf t \<and> tables_avoid R t"])
    fix i r and t t' :: "'a vmm_scheme"
    assume t: "vmm_wf t \<and> tables_avoid R t" and "i < n" and b: "?body i t = Some (r, t')"
    then have low: "below_window (va + i * PAGE_SIZE)"
      using unat_run_page(2) [OF run] by (simp add: word_less_nat_alt)
    from t have wft: "vmm_wf t" by blast
    from b obtain st where un: "vmm_unmap_page (va + i * PAGE_SIZE) t = Some (st, t')" by auto
    have "tables_avoid R t' = tables_avoid R t"
      by (rule tables_avoid_pde) (rule vmm_unmap_page_pde(1) [OF wft low un])
    with t un vmm_unmap_page_spec [OF wft low] show "vmm_wf t' \<and> tables_avoid R t'" by auto
  qed (use wf av in blast)
  then show ?thesis by blast
qed

lemma vmm_map_pages_avoids:
  assumes wf: "vmm_wf s" and run: "run_ok va (unat n)" and av: "tables_avoid R s"
    and R: "R \<inter> free_frames s = {}" and ret: "vmm_map_pages va pa n fl s = Some (st, s')"
  shows "tables_avoid R s'"
proof -
  let ?body = "\<lambda>i s. Option.bind (vmm_map_page (va + i * PAGE_SIZE) (pa + i * PAGE_SIZE) fl s)
            (\<lambda>(st, s1). if st \<noteq> KERNEL_OK
                         then map_option (\<lambda>s2. (Some st, s2)) (unmap_ignoring va i s1)
                         else Some (None, s1))"
  obtain r where loop: "for_ret 0 n ?body s = Some (r, s')" using ret by (auto simp: vmm_map_pages_def)
  let ?P = "\<lambda>t. vmm_wf t \<and> tables_avoid R t \<and> R \<inter> free_frames t = {}"
  have "?P s'"
  proof (rule for_ret_invariant [OF _ loop, where P = ?P])
    fix i r and t t' :: "'a vmm_scheme"
    assume t: "?P t" and "i < n" and b: "?body i t = Some (r, t')"
    then have i: "unat i < unat n" by (simp add: word_less_nat_alt)
    note low = unat_run_page(2) [OF run i]
    from t have wft: "vmm_wf t" by blast
    from b obtain st1 t1 where m: "vmm_map_page (va + i * PAGE_SIZE) (pa + i * PAGE_SIZE) fl t = Some (st1, t1)"
      and rest: "(if st1 \<noteq> KERNEL_OK then map_option (\<lambda>s2. (Some st1, s2)) (unmap_ignoring va i t1)
                  else Some (None, t1)) = Some (r, t')"
      by (auto simp: bind_eq_Some_conv)
    have t1: "?P t1"
    proof -
      have "vmm_wf t1 \<and> free_frames t1 \<subseteq> free_frames t"
        using wft low by (cases rule: vmm_map_page_cases [where pa = "pa + i * PAGE_SIZE" and fl = fl]) (use m wft in auto)
      moreover have "tables_avoid R t1" using vmm_map_page_avoids [OF wft low _ _ m] t by blast
      ultimately show ?thesis using t by blast
    qed
    show "?P t'"
    proof (cases "st1 = KERNEL_OK")
      case True
      with rest t1 show ?thesis by simp
    next
      case False
      then have un: "unmap_ignoring va i t1 = Some t'" using rest by auto
      have run_i: "run_ok va (unat i)" using run_ok_mono [OF run] i by simp
      from t1 have wf1: "vmm_wf t1" by blast
      from unmap_ignoring_spec [OF wf1 run_i] un unmap_ignoring_avoids [OF wf1 run_i _ un] t1
      show ?thesis by auto
    qed
  qed (use wf av R in blast)
  then show ?thesis by blast
qed

section \<open>Frames of a user\<close>

lemma pmm_pages_keep_more:
  "pmm_alloc_pages n s = (p, s1) \<Longrightarrow> pmm.more s1 = pmm.more s"
  "pmm.more (pmm_free_pages a n s) = pmm.more s"
proof -
  have "pmm.more (for_loop 0 n (\<lambda>i. bitmap_set_bit (b + i)) s) = pmm.more s" for b
    by (rule for_loop_invariant [where P = "\<lambda>t. pmm.more t = pmm.more s"]) simp_all
  then show "pmm_alloc_pages n s = (p, s1) \<Longrightarrow> pmm.more s1 = pmm.more s"
    by (auto simp: pmm_alloc_pages_def Let_def split: if_splits)
  have "pmm.more (for_loop 0 n (\<lambda>i. mark_page_free (b + i)) s) = pmm.more s" for b
    by (rule for_loop_invariant [where P = "\<lambda>t. pmm.more t = pmm.more s"])
       (simp_all add: mark_page_free_def count_free_def)
  then show "pmm.more (pmm_free_pages a n s) = pmm.more s" by (simp add: pmm_free_pages_def)
qed

lemma pmm_more_machine:
  fixes a b :: "'a vmm_scheme"
  assumes "pmm.more a = pmm.more b"
  shows "mem a = mem b" "cr3 a = cr3 b" "paging a = paging b" "kpd a = kpd b" "vmm.more a = vmm.more b"
  using assms by (cases a; cases b; simp)+

lemma same_machine_aspace:
  fixes a b :: "'a vmm_scheme"
  assumes "pmm.more a = pmm.more b"
  shows "pde a = pde b" "aspace a = aspace b" "tables_avoid R a = tables_avoid R b"
proof -
  note m = pmm_more_machine [OF assms]
  show pde: "pde a = pde b" by (simp add: fun_eq_iff pde_def m)
  then show "tables_avoid R a = tables_avoid R b" by (simp add: tables_avoid_def has_table_def table_def)
  show "aspace a = aspace b" by (simp add: fun_eq_iff aspace_def translate_def m)
qed

lemma vmm_wf_alloc_pages:
  assumes wf: "vmm_wf s" and ret: "pmm_alloc_pages n s = (p, s1)"
  shows "vmm_wf s1"
proof -
  note more = pmm_pages_keep_more(1) [OF ret]
  note m = pmm_more_machine [OF more]
  have "pmm_inv s1 \<and> free_frames s1 \<subseteq> free_frames s"
    by (rule pmm_alloc_pages_cases [OF vmm_wf_facts(1) [OF wf] ret]) (use vmm_wf_facts(1) [OF wf] in auto)
  then show ?thesis
    by (intro vmm_wf_keep [OF wf]) (simp_all add: m same_machine_aspace(1) [OF more])
qed

lemma vmm_wf_free_pages:
  assumes wf: "vmm_wf s" and p: "4096 \<le> unat p" "unat p mod 4096 = 0"
    and room: "unat p div 4096 + unat n \<le> unat (total_pages s)"
    and mine: "tables_avoid {unat p div 4096..<unat p div 4096 + unat n} s"
      "unat (kpd s) div 4096 \<notin> {unat p div 4096..<unat p div 4096 + unat n}"
  shows "vmm_wf (pmm_free_pages p n s)"
proof -
  let ?R = "{unat p div 4096..<unat p div 4096 + unat n}" and ?s = "pmm_free_pages p n s"
  note more = pmm_pages_keep_more(2) [of p n s]
  note m = pmm_more_machine [OF more] and f = vmm_wf_facts [OF wf]
  have inv: "pmm_inv ?s" and free: "free_frames ?s = free_frames s \<union> ?R"
    using pmm_free_pages_spec [OF f(1) p room] by auto
  have tab: "has_table ?s = has_table s" "table ?s = table s"
    by (simp_all add: fun_eq_iff has_table_def table_def same_machine_aspace(1) [OF more])
  have taken: "frame_taken ?s x" if "frame_taken s x" "unat x div 4096 \<notin> ?R" for x
    using that unfolding frame_taken_def free by blast
  have "frame_taken ?s (kpd s)" using taken f(3) mine(2) by blast
  moreover have "frame_taken ?s (table s i)" if "i < PAGE_RECURSIVE_SLOT" "has_table s i" for i
    using taken f(4) that mine(1) unfolding tables_avoid_def by blast
  ultimately show ?thesis
    using wf inv unfolding vmm_wf_def tab m same_machine_aspace(1) [OF more] by blast
qed

end
