(* ===== verification/Heap.thy ===== *)
theory Heap
  imports Vmm_Frames
begin

text \<open>
  The kernel heap, \<^verbatim>\<open>src/mm/heap.c\<close>, on top of the page allocator and the page tables: the record
  \<open>heap\<close> extends the machine of theory \<open>Vmm\<close> with the two static variables of the file and with the
  heap's memory. That memory is typed: \<open>hblk p\<close> is the block header at address \<open>p\<close> and \<open>hmem p\<close> the
  payload byte at \<open>p\<close>; a \<^verbatim>\<open>memset\<close> clears both, and a store to a payload byte does not change a
  header (the callers stay inside what they were given). The loops over \<^verbatim>\<open>next\<close> pointers are partial
  functions whose \<open>None\<close> is "does not return"; that they return is proved from the invariant.
  \<open>None\<close> from the operations of \<open>Vmm\<close> is a page fault, as there.
\<close>

section \<open>State and operations\<close>

record heap_block =
  hb_next :: u32
  hb_prev :: u32
  hb_size :: u32
  hb_free :: bool
  hb_magic :: u32

abbreviation HEAP_MAGIC :: u32 where "HEAP_MAGIC \<equiv> 0xDEADBEEF"
abbreviation HEAP_START :: u32 where "HEAP_START \<equiv> 0xD0000000"
abbreviation INITIAL_HEAP_SIZE :: u32 where "INITIAL_HEAP_SIZE \<equiv> 4 * 1024 * 1024"
abbreviation sizeof_heap_block :: u32 where "sizeof_heap_block \<equiv> 20"

record heap = vmm +
  hblk :: "u32 \<Rightarrow> heap_block"
  hmem :: "u32 \<Rightarrow> u8"
  heap_head :: u32
  heap_current_end :: u32

text \<open>\<^verbatim>\<open>memset(p, 0, n)\<close> on heap memory.\<close>

definition null_block :: heap_block where
  "null_block = \<lparr>hb_next = 0, hb_prev = 0, hb_size = 0, hb_free = False, hb_magic = 0\<rparr>"

definition heap_zero :: "u32 \<Rightarrow> u32 \<Rightarrow> 'a heap_scheme \<Rightarrow> 'a heap_scheme" where
  "heap_zero p n s = s\<lparr>hmem := (\<lambda>x. if x - p < n then 0 else hmem s x),
                       hblk := (\<lambda>x. if x - p < n then null_block else hblk s x)\<rparr>"

text \<open>\<^verbatim>\<open>while (last->next) last = last->next;\<close>\<close>

partial_function (option) last_block :: "(u32 \<Rightarrow> heap_block) \<Rightarrow> u32 \<Rightarrow> u32 option" where
  "last_block H p = (if hb_next (H p) = 0 then Some p else last_block H (hb_next (H p)))"

definition append_block :: "u32 \<Rightarrow> 'a heap_scheme \<Rightarrow> 'a heap_scheme option" where
  "append_block nb s =
     (if heap_head s = 0 then Some (s\<lparr>heap_head := nb\<rparr>)
      else map_option (\<lambda>last.
             let H1 = (hblk s)(last := (hblk s last)\<lparr>hb_next := nb\<rparr>)
             in s\<lparr>hblk := H1(nb := (H1 nb)\<lparr>hb_prev := last\<rparr>)\<rparr>)
           (last_block (hblk s) (heap_head s)))"

text \<open>One of the three attempts of \<^verbatim>\<open>heap_expand\<close>; \<open>Some ()\<close> is its \<^verbatim>\<open>return KERNEL_OK\<close>.\<close>

definition expand_attempt :: "u32 \<Rightarrow> 'a heap_scheme \<Rightarrow> (unit option \<times> 'a heap_scheme) option" where
  "expand_attempt additional_size s =
     (let num_pages = additional_size div PAGE_SIZE;
          (phys_addr, s1) = pmm_alloc_pages num_pages s
      in if phys_addr = 0 then Some (None, s1)
         else Option.bind (vmm_map_pages (heap_current_end s1) phys_addr num_pages
                             (PAGE_FLAG_PRESENT OR PAGE_FLAG_RW) s1) (\<lambda>(status, s2).
           if status \<noteq> KERNEL_OK then Some (None, pmm_free_pages phys_addr num_pages s2)
           else let nb = heap_current_end s2;
                    s3 = heap_zero nb additional_size s2;
                    s4 = s3\<lparr>hblk := (hblk s3)(nb := \<lparr>hb_next = 0, hb_prev = 0,
                           hb_size = additional_size - sizeof_heap_block,
                           hb_free = True, hb_magic = HEAP_MAGIC\<rparr>)\<rparr>
                in map_option (\<lambda>s5. (Some (), s5\<lparr>heap_current_end := heap_current_end s5 + additional_size\<rparr>))
                     (append_block nb s4)))"

definition heap_expand :: "u32 \<Rightarrow> 'a heap_scheme \<Rightarrow> (kernel_status \<times> 'a heap_scheme) option" where
  "heap_expand additional s =
     map_option (\<lambda>(r, s'). (if r = None then KERNEL_OUT_OF_MEMORY else KERNEL_OK, s'))
       (for_ret 0 (3 :: u32)
         (\<lambda>_. expand_attempt (PAGE_ALIGN (additional + sizeof_heap_block))) s)"

text \<open>Absorb the next block: the update that \<^verbatim>\<open>heap_defragment\<close> and \<^verbatim>\<open>kfree\<close> share.\<close>

definition absorb_next :: "u32 \<Rightarrow> (u32 \<Rightarrow> heap_block) \<Rightarrow> u32 \<Rightarrow> heap_block" where
  "absorb_next cur H =
     (let nx = hb_next (H cur);
          H1 = H(cur := (H cur)\<lparr>hb_size := hb_size (H cur) + (sizeof_heap_block + hb_size (H nx))\<rparr>);
          H2 = H1(cur := (H1 cur)\<lparr>hb_next := hb_next (H1 nx)\<rparr>);
          nn = hb_next (H2 cur)
      in if nn \<noteq> 0 then H2(nn := (H2 nn)\<lparr>hb_prev := cur\<rparr>) else H2)"

partial_function (option) defragment_from :: "u32 \<Rightarrow> (u32 \<Rightarrow> heap_block) \<Rightarrow> (u32 \<Rightarrow> heap_block) option" where
  "defragment_from cur H =
     (if cur \<noteq> 0 \<and> hb_next (H cur) \<noteq> 0
      then let nx = hb_next (H cur)
           in if hb_free (H cur) \<and> hb_free (H nx) \<and> hb_magic (H cur) = HEAP_MAGIC \<and> hb_magic (H nx) = HEAP_MAGIC
              then defragment_from cur (absorb_next cur H)
              else defragment_from nx H
      else Some H)"

definition heap_defragment :: "'a heap_scheme \<Rightarrow> 'a heap_scheme option" where
  "heap_defragment s = map_option (\<lambda>H. s\<lparr>hblk := H\<rparr>) (defragment_from (heap_head s) (hblk s))"

definition heap_init :: "'a heap_scheme \<Rightarrow> (kernel_status \<times> 'a heap_scheme) option" where
  "heap_init s = heap_expand INITIAL_HEAP_SIZE (s\<lparr>heap_head := 0, heap_current_end := HEAP_START\<rparr>)"

text \<open>The search loop of \<^verbatim>\<open>kmalloc\<close> (0 when no block fits), and what it does to the block it finds.\<close>

partial_function (option) find_fit :: "u32 \<Rightarrow> (u32 \<Rightarrow> heap_block) \<Rightarrow> u32 \<Rightarrow> u32 option" where
  "find_fit sz H cur =
     (if cur = 0 then Some 0
      else if hb_free (H cur) \<and> sz \<le> hb_size (H cur) \<and> hb_magic (H cur) = HEAP_MAGIC then Some cur
      else find_fit sz H (hb_next (H cur)))"

definition carve :: "u32 \<Rightarrow> u32 \<Rightarrow> (u32 \<Rightarrow> heap_block) \<Rightarrow> u32 \<Rightarrow> heap_block" where
  "carve sz cur H =
     (let H' = (if hb_size (H cur) > sz + sizeof_heap_block
                then let nb = cur + sizeof_heap_block + sz;
                         H1 = H(nb := \<lparr>hb_next = hb_next (H cur), hb_prev = cur,
                                hb_size = hb_size (H cur) - sz - sizeof_heap_block,
                                hb_free = True, hb_magic = HEAP_MAGIC\<rparr>);
                         H2 = H1(cur := (H1 cur)\<lparr>hb_next := nb\<rparr>);
                         nn = hb_next (H2 nb);
                         H3 = (if nn \<noteq> 0 then H2(nn := (H2 nn)\<lparr>hb_prev := nb\<rparr>) else H2)
                     in H3(cur := (H3 cur)\<lparr>hb_size := sz\<rparr>)
                else H)
      in H'(cur := (H' cur)\<lparr>hb_free := False\<rparr>))"

partial_function (option) kmalloc :: "u32 \<Rightarrow> 'a heap_scheme \<Rightarrow> (u32 \<times> 'a heap_scheme) option" where
  "kmalloc sz s =
     (if sz = 0 then Some (0, s)
      else Option.bind (find_fit sz (hblk s) (heap_head s)) (\<lambda>c.
        if c \<noteq> 0 then Some (c + sizeof_heap_block, s\<lparr>hblk := carve sz c (hblk s)\<rparr>)
        else Option.bind (heap_defragment s) (\<lambda>s1.
          Option.bind (find_fit sz (hblk s1) (heap_head s1)) (\<lambda>c.
            if c \<noteq> 0 then Some (c + sizeof_heap_block, s1\<lparr>hblk := carve sz c (hblk s1)\<rparr>)
            else Option.bind (heap_expand (sz + sizeof_heap_block) s1) (\<lambda>(status, s2).
              if status \<noteq> KERNEL_OK then Some (0, s2) else kmalloc sz s2)))))"

definition kcalloc :: "u32 \<Rightarrow> u32 \<Rightarrow> 'a heap_scheme \<Rightarrow> (u32 \<times> 'a heap_scheme) option" where
  "kcalloc num sz s =
     (let total_size = num * sz
      in if total_size = 0 then Some (0, s)
         else map_option (\<lambda>(p, s1). (p, if p \<noteq> 0 then heap_zero p total_size s1 else s1))
                (kmalloc total_size s))"

text \<open>The two merges of \<^verbatim>\<open>kfree\<close>.\<close>

definition merge_with_next :: "u32 \<Rightarrow> (u32 \<Rightarrow> heap_block) \<Rightarrow> u32 \<Rightarrow> heap_block" where
  "merge_with_next b H =
     (let nx = hb_next (H b)
      in if nx \<noteq> 0 \<and> hb_free (H nx) \<and> hb_magic (H nx) = HEAP_MAGIC then absorb_next b H else H)"

definition merge_into_prev :: "u32 \<Rightarrow> (u32 \<Rightarrow> heap_block) \<Rightarrow> u32 \<Rightarrow> heap_block" where
  "merge_into_prev b H =
     (let pv = hb_prev (H b)
      in if pv \<noteq> 0 \<and> hb_free (H pv) \<and> hb_magic (H pv) = HEAP_MAGIC
         then let H2 = H(pv := (H pv)\<lparr>hb_size := hb_size (H pv) + (sizeof_heap_block + hb_size (H b))\<rparr>);
                  H3 = H2(pv := (H2 pv)\<lparr>hb_next := hb_next (H2 b)\<rparr>);
                  nn = hb_next (H3 b)
              in if nn \<noteq> 0 then H3(nn := (H3 nn)\<lparr>hb_prev := hb_prev (H3 b)\<rparr>) else H3
         else H)"

definition kfree :: "u32 \<Rightarrow> 'a heap_scheme \<Rightarrow> 'a heap_scheme" where
  "kfree ptr s =
     (if ptr = 0 then s
      else let b = ptr - sizeof_heap_block;
               H0 = (hblk s)(b := (hblk s b)\<lparr>hb_free := True\<rparr>)
           in s\<lparr>hblk := merge_into_prev b (merge_with_next b H0)\<rparr>)"

definition krealloc :: "u32 \<Rightarrow> u32 \<Rightarrow> 'a heap_scheme \<Rightarrow> (u32 \<times> 'a heap_scheme) option" where
  "krealloc ptr new_size s =
     (if ptr = 0 then kmalloc new_size s
      else if new_size = 0 then Some (0, kfree ptr s)
      else let b = ptr - sizeof_heap_block
           in if hb_magic (hblk s b) \<noteq> HEAP_MAGIC \<or> hb_free (hblk s b) then Some (0, s)
              else map_option (\<lambda>(new_ptr, s1).
                     if new_ptr = 0 then (0, s1)
                     else let copy_size = min (hb_size (hblk s1 b)) new_size;
                              s2 = s1\<lparr>hmem := (\<lambda>x. if x - new_ptr < copy_size
                                     then hmem s1 (ptr + (x - new_ptr)) else hmem s1 x)\<rparr>
                          in (new_ptr, kfree ptr s2))
                   (kmalloc new_size s))"

partial_function (option) sum_blocks :: "(heap_block \<Rightarrow> u32) \<Rightarrow> (u32 \<Rightarrow> heap_block) \<Rightarrow> u32 \<Rightarrow> u32 \<Rightarrow> u32 option" where
  "sum_blocks f H cur acc =
     (if cur = 0 then Some acc else sum_blocks f H (hb_next (H cur)) (acc + f (H cur)))"

definition heap_get_total_size :: "'a heap_scheme \<Rightarrow> u32 option" where
  "heap_get_total_size s = sum_blocks (\<lambda>b. hb_size b + sizeof_heap_block) (hblk s) (heap_head s) 0"

definition heap_get_free_size :: "'a heap_scheme \<Rightarrow> u32 option" where
  "heap_get_free_size s = sum_blocks (\<lambda>b. if hb_free b then hb_size b else 0) (hblk s) (heap_head s) 0"

section \<open>The heap as a tiling\<close>

text \<open>
  The abstraction of the heap is the list of its blocks in address order, each with its payload size
  and whether it is free. The blocks tile the heap: each begins where the one before it ends.
\<close>

type_synonym tile = "nat \<times> bool"

fun extent :: "tile list \<Rightarrow> nat" where
  "extent [] = 0"
| "extent ((sz, fr) # bs) = 20 + sz + extent bs"

text \<open>\<open>chain H pv p bs nx\<close>: from address \<open>p\<close> on, memory holds the blocks \<open>bs\<close>, linked in both directions
  between the block at \<open>pv\<close> and the block at \<open>nx\<close>.\<close>

fun chain :: "(u32 \<Rightarrow> heap_block) \<Rightarrow> u32 \<Rightarrow> nat \<Rightarrow> tile list \<Rightarrow> u32 \<Rightarrow> bool" where
  "chain H pv p [] nx \<longleftrightarrow> True"
| "chain H pv p ((sz, fr) # bs) nx \<longleftrightarrow>
     H (word_of_nat p) = \<lparr>hb_next = (if bs = [] then nx else word_of_nat (p + 20 + sz)), hb_prev = pv,
        hb_size = word_of_nat sz, hb_free = fr, hb_magic = HEAP_MAGIC\<rparr> \<and>
     chain H (word_of_nat p) (p + 20 + sz) bs nx"

text \<open>The address of the last block.\<close>

fun last_addr :: "u32 \<Rightarrow> nat \<Rightarrow> tile list \<Rightarrow> u32" where
  "last_addr pv p [] = pv"
| "last_addr pv p ((sz, fr) # bs) = last_addr (word_of_nat p) (p + 20 + sz) bs"

text \<open>The heap stays between address 1 and the recursive window.\<close>

definition fits :: "nat \<Rightarrow> tile list \<Rightarrow> bool" where
  "fits p bs \<longleftrightarrow> 0 < p \<and> p + extent bs \<le> 0xFFC00000"

text \<open>The payloads in use: address and size.\<close>

fun live :: "nat \<Rightarrow> tile list \<Rightarrow> (nat \<times> nat) set" where
  "live p [] = {}"
| "live p ((sz, fr) # bs) = (if fr then {} else {(p + 20, sz)}) \<union> live (p + 20 + sz) bs"

lemma extent_append [simp]: "extent (xs @ ys) = extent xs + extent ys"
  by (induction xs rule: extent.induct) auto

lemma live_append [simp]: "live p (xs @ ys) = live p xs \<union> live (p + extent xs) ys"
  by (induction p xs rule: live.induct) (auto simp: add.assoc)

lemma live_range: "(a, n) \<in> live p bs \<Longrightarrow> p + 20 \<le> a \<and> a + n \<le> p + extent bs"
  by (induction p bs rule: live.induct) (fastforce split: if_splits)+

text \<open>Two payloads in use do not overlap; there is room for a header between them.\<close>

lemma live_disjoint:
  assumes "(a, n) \<in> live p bs" and "(b, m) \<in> live p bs" and "(a, n) \<noteq> (b, m)"
  shows "a + n + 20 \<le> b \<or> b + m + 20 \<le> a"
  using assms
proof (induction p bs rule: live.induct)
  case (2 p sz fr bs)
  show ?case
  proof (cases "(a, n) \<in> live (p + 20 + sz) bs \<and> (b, m) \<in> live (p + 20 + sz) bs")
    case True
    then show ?thesis using "2.IH" "2.prems"(3) by blast
  next
    case False
    then show ?thesis
      using "2.prems" live_range [of a n "p + 20 + sz" bs] live_range [of b m "p + 20 + sz" bs]
      by (auto split: if_splits)
  qed
qed simp

lemma fits_Cons: "fits p ((sz, fr) # bs) \<Longrightarrow> fits (p + 20 + sz) bs"
  by (simp add: fits_def)

lemma fits_addr:
  assumes "fits p ((sz, fr) # bs)"
  shows "unat (word_of_nat p :: u32) = p" "word_of_nat p \<noteq> (0 :: u32)"
    "unat (word_of_nat sz :: u32) = sz" "unat (word_of_nat (p + 20 + sz) :: u32) = p + 20 + sz"
proof -
  have b: "0 < p" "p + 20 + sz < 2 ^ 32" using assms by (simp_all add: fits_def)
  then show u: "unat (word_of_nat p :: u32) = p" "unat (word_of_nat sz :: u32) = sz"
    "unat (word_of_nat (p + 20 + sz) :: u32) = p + 20 + sz"
    by (simp_all add: unat_of_nat_small del: of_nat_add)
  with b(1) show "word_of_nat p \<noteq> (0 :: u32)" by (metis less_numeral_extra(3) unat_0)
qed

lemma chain_append:
  "chain H pv p (xs @ ys) nx \<longleftrightarrow>
     chain H pv p xs (if ys = [] then nx else word_of_nat (p + extent xs)) \<and>
     chain H (last_addr pv p xs) (p + extent xs) ys nx"
  by (induction H pv p xs nx rule: chain.induct) (auto simp: add.assoc)

text \<open>Only the headers inside the chain matter.\<close>

lemma chain_cong:
  assumes "fits p bs" and "\<And>x. p \<le> unat x \<Longrightarrow> unat x < p + extent bs \<Longrightarrow> H' x = H x"
  shows "chain H' pv p bs nx = chain H pv p bs nx"
  using assms
proof (induction H pv p bs nx rule: chain.induct)
  case (2 H pv p sz fr bs nx)
  have "H' (word_of_nat p) = H (word_of_nat p)"
    by (rule "2.prems"(2)) (use fits_addr [OF "2.prems"(1)] in simp_all)
  moreover have "chain H' (word_of_nat p) (p + 20 + sz) bs nx = chain H (word_of_nat p) (p + 20 + sz) bs nx"
    by (rule "2.IH" [OF fits_Cons [OF "2.prems"(1)]]) (use "2.prems"(2) in simp)
  ultimately show ?case by simp
qed simp

lemma chain_set_prev:
  assumes "fits p bs" and "bs \<noteq> []" and "chain H pv p bs nx"
  shows "chain (H(word_of_nat p := (H (word_of_nat p))\<lparr>hb_prev := pv'\<rparr>)) pv' p bs nx"
proof (cases bs)
  case (Cons b bs')
  obtain sz fr where b: "b = (sz, fr)" by fastforce
  have f: "fits (p + 20 + sz) bs'" using assms(1) by (simp add: Cons b fits_def)
  have "x \<noteq> word_of_nat p" if "p + 20 + sz \<le> unat x" for x :: u32
    using that fits_addr(1) [OF assms(1) [unfolded Cons b]] by auto
  then have "chain (H(word_of_nat p := (H (word_of_nat p))\<lparr>hb_prev := pv'\<rparr>)) (word_of_nat p) (p + 20 + sz) bs' nx
      = chain H (word_of_nat p) (p + 20 + sz) bs' nx"
    by (intro chain_cong [OF f]) simp
  with assms(3) show ?thesis by (simp add: Cons b)
qed (use assms(2) in simp)

lemma chain_head:
  assumes "chain H pv p ((sz, fr) # bs) nx"
  shows "hb_next (H (word_of_nat p)) = (if bs = [] then nx else word_of_nat (p + 20 + sz))"
    "hb_prev (H (word_of_nat p)) = pv" "hb_size (H (word_of_nat p)) = word_of_nat sz"
    "hb_free (H (word_of_nat p)) = fr" "hb_magic (H (word_of_nat p)) = HEAP_MAGIC"
  using assms by simp_all

text \<open>The pointer to a chain.\<close>

definition chain_ptr :: "nat \<Rightarrow> tile list \<Rightarrow> u32" where
  "chain_ptr p bs = (if bs = [] then 0 else word_of_nat p)"

lemma chain_ptr_simps [simp]: "chain_ptr p [] = 0" "chain_ptr p (b # bs) = word_of_nat p"
  by (simp_all add: chain_ptr_def)

section \<open>First fit\<close>

fun fit_split :: "nat \<Rightarrow> tile list \<Rightarrow> (tile list \<times> nat \<times> tile list) option" where
  "fit_split n [] = None"
| "fit_split n ((sz, fr) # bs) =
     (if fr \<and> n \<le> sz then Some ([], sz, bs)
      else map_option (\<lambda>(pre, m, post). ((sz, fr) # pre, m, post)) (fit_split n bs))"

lemma fit_split_Some:
  "fit_split n bs = Some (pre, sz, post) \<Longrightarrow> bs = pre @ (sz, True) # post \<and> n \<le> sz"
  by (induction n bs arbitrary: pre rule: fit_split.induct) (auto split: if_splits)

lemma fit_split_None: "fit_split n bs = None \<longleftrightarrow> (\<forall>sz. (sz, True) \<in> set bs \<longrightarrow> sz < n)"
  by (induction n bs rule: fit_split.induct) (auto simp: not_le)

lemma find_fit_eq:
  assumes "fits p bs" and "chain H pv p bs 0"
  shows "find_fit n H (chain_ptr p bs) =
           Some (case fit_split (unat n) bs of None \<Rightarrow> 0 | Some (pre, sz, post) \<Rightarrow> word_of_nat (p + extent pre))"
  using assms
proof (induction p bs arbitrary: pv rule: live.induct)
  case (2 p sz fr bs)
  note a = fits_addr [OF "2.prems"(1)] and h = chain_head [OF "2.prems"(2)]
  have next_eq: "hb_next (H (word_of_nat p)) = chain_ptr (p + 20 + sz) bs"
    using h(1) by (simp add: chain_ptr_def)
  have le: "n \<le> word_of_nat sz \<longleftrightarrow> unat n \<le> sz" using a(3) by (simp add: word_le_nat_alt)
  have IH: "find_fit n H (chain_ptr (p + 20 + sz) bs) = Some (case fit_split (unat n) bs of None \<Rightarrow> 0
      | Some (pre, m, post) \<Rightarrow> word_of_nat (p + 20 + sz + extent pre))"
    using "2.IH" [OF fits_Cons [OF "2.prems"(1)], of "word_of_nat p"] "2.prems"(2) by simp
  show ?case
  proof (cases "fr \<and> unat n \<le> sz")
    case True
    then show ?thesis using a(2) h(3-5) le by (simp add: find_fit.simps [of n H "word_of_nat p"])
  next
    case False
    then have "find_fit n H (word_of_nat p) = find_fit n H (chain_ptr (p + 20 + sz) bs)"
      using a(2) h(3-5) le next_eq by (auto simp: find_fit.simps [of n H "word_of_nat p"])
    with False IH show ?thesis by (auto simp: add.assoc split: option.splits)
  qed
qed (simp add: find_fit.simps)

text \<open>What \<^verbatim>\<open>kmalloc\<close> makes of the block it takes: the front part in use, the rest a free block.\<close>

definition carve_tile :: "nat \<Rightarrow> nat \<Rightarrow> tile list" where
  "carve_tile n sz = (if n + 20 < sz then [(n, False), (sz - n - 20, True)] else [(sz, False)])"

lemma carve_tile_facts:
  "n \<le> sz \<Longrightarrow> extent (carve_tile n sz) = 20 + sz" "carve_tile n sz \<noteq> []"
  by (simp_all add: carve_tile_def)

lemma carve_split_eq:
  assumes "H c = \<lparr>hb_next = nn, hb_prev = pv, hb_size = sz, hb_free = fr, hb_magic = HEAP_MAGIC\<rparr>"
    and "n + sizeof_heap_block < sz" and "c + sizeof_heap_block + n = nb" and "nb \<noteq> c" "nn \<noteq> nb" "nn \<noteq> c"
  shows "carve n c H = (if nn = 0 then H else H(nn := (H nn)\<lparr>hb_prev := nb\<rparr>))
    (nb := \<lparr>hb_next = nn, hb_prev = c, hb_size = sz - n - sizeof_heap_block, hb_free = True, hb_magic = HEAP_MAGIC\<rparr>,
     c := \<lparr>hb_next = nb, hb_prev = pv, hb_size = n, hb_free = False, hb_magic = HEAP_MAGIC\<rparr>)"
  using assms by (auto simp: carve_def Let_def fun_eq_iff)

lemma carve_chain:
  assumes fit: "fits p ((sz, True) # bs)" and ch: "chain H pv p ((sz, True) # bs) nx"
    and n: "unat n \<le> sz" and nx: "bs = [] \<Longrightarrow> nx = 0"
  shows "chain (carve n (word_of_nat p) H) pv p (carve_tile (unat n) sz @ bs) nx"
    and "\<And>x. \<not> (p \<le> unat x \<and> unat x < p + 20 + sz + extent bs) \<Longrightarrow> carve n (word_of_nat p) H x = H x"
proof -
  let ?c = "word_of_nat p :: u32"
  note a = fits_addr [OF fit] and h = chain_head [OF ch]
  have Hp: "H ?c = \<lparr>hb_next = (if bs = [] then nx else word_of_nat (p + 20 + sz)), hb_prev = pv,
      hb_size = word_of_nat sz, hb_free = True, hb_magic = HEAP_MAGIC\<rparr>" using ch by simp
  have sz: "sz < 0xFFC00000" using fit by (simp add: fits_def)
  have cmp: "word_of_nat sz > n + sizeof_heap_block \<longleftrightarrow> unat n + 20 < sz"
    using n sz a(3) by (simp add: word_less_nat_alt unat_word_ariths)
  have tail: "chain H ?c (p + 20 + sz) bs nx" using ch by simp
  note ft = fits_Cons [OF fit]
  have "chain (carve n ?c H) pv p (carve_tile (unat n) sz @ bs) nx \<and>
      (\<forall>x. \<not> (p \<le> unat x \<and> unat x < p + 20 + sz + extent bs) \<longrightarrow> carve n ?c H x = H x)"
  proof (cases "unat n + 20 < sz")
    case False
    let ?H = "H(?c := (H ?c)\<lparr>hb_free := False\<rparr>)"
    have eq: "carve n ?c H = ?H" using cmp False h(3) by (simp add: carve_def Let_def)
    have "chain ?H ?c (p + 20 + sz) bs nx = chain H ?c (p + 20 + sz) bs nx"
      by (rule chain_cong [OF ft]) (use a(1) in auto)
    then show ?thesis unfolding eq using False tail Hp a(1) by (auto simp: carve_tile_def)
  next
    case True
    let ?q = "p + 20 + unat n" let ?nb = "word_of_nat ?q :: u32"
    let ?rest = "sz - unat n - 20" let ?nn = "if bs = [] then nx else word_of_nat (p + 20 + sz)"
    have q: "?c + sizeof_heap_block + n = ?nb" by simp
    have uq: "unat ?nb = ?q" using True fit by (simp add: unat_of_nat_small fits_def del: of_nat_add)
    have us: "word_of_nat sz - n - sizeof_heap_block = (word_of_nat ?rest :: u32)"
      using True by (simp add: of_nat_diff)
    let ?new = "\<lparr>hb_next = ?nn, hb_prev = ?c, hb_size = word_of_nat ?rest, hb_free = True, hb_magic = HEAP_MAGIC\<rparr>"
    let ?cur = "\<lparr>hb_next = ?nb, hb_prev = pv, hb_size = n, hb_free = False, hb_magic = HEAP_MAGIC\<rparr>"
    let ?H3 = "(if bs = [] then H else H(word_of_nat (p + 20 + sz) := (H (word_of_nat (p + 20 + sz)))\<lparr>hb_prev := ?nb\<rparr>))"
    have "unat ?nb \<noteq> unat ?c" "unat (word_of_nat (p + 20 + sz) :: u32) \<noteq> unat ?nb"
      "unat (word_of_nat (p + 20 + sz) :: u32) \<noteq> unat ?c"
      unfolding a(1,4) uq using True by linarith+
    then have ne: "?nb \<noteq> ?c" "word_of_nat (p + 20 + sz) \<noteq> ?nb" "word_of_nat (p + 20 + sz) \<noteq> ?c" by metis+
    have nz: "bs \<noteq> [] \<Longrightarrow> word_of_nat (p + 20 + sz) \<noteq> (0 :: u32)"
      using a(4) by (metis add_is_0 unat_0 zero_neq_numeral)
    have nn: "?nn \<noteq> ?nb" "?nn \<noteq> ?c" "?nn = 0 \<longleftrightarrow> bs = []"
      using ne nz nx uq a(2) by (auto simp del: of_nat_add)
    have "n + sizeof_heap_block < word_of_nat sz" using cmp True by simp
    from carve_split_eq [where H = H and c = ?c, OF Hp this q ne(1) nn(1,2)]
    have eq: "carve n ?c H = ?H3(?nb := ?new, ?c := ?cur)"
      unfolding us using nn(3) by (cases "bs = []") (simp_all del: of_nat_add)
    have t1: "chain ?H3 ?nb (p + 20 + sz) bs nx"
      using chain_set_prev [OF ft _ tail, of ?nb] by (cases "bs = []") simp_all
    have t2: "chain (?H3(?nb := ?new, ?c := ?cur)) ?nb (p + 20 + sz) bs nx = chain ?H3 ?nb (p + 20 + sz) bs nx"
      by (rule chain_cong [OF ft]) (use a(1) uq True in auto)
    have sum: "p + 20 + unat n + 20 + ?rest = p + 20 + sz" using True by simp
    let ?Hn = "?H3(?nb := ?new, ?c := ?cur)"
    have "chain ?Hn ?nb (p + 20 + unat n + 20 + ?rest) bs nx" unfolding sum using t1 t2 by blast
    then have "chain ?Hn pv p ((unat n, False) # (?rest, True) # bs) nx"
      using ne(1) unfolding chain.simps sum by (simp del: of_nat_add)
    moreover have "bs \<noteq> [] \<Longrightarrow> 0 < extent bs" by (cases bs) auto
    then have "\<forall>x. \<not> (p \<le> unat x \<and> unat x < p + 20 + sz + extent bs) \<longrightarrow> ?Hn x = H x"
      using a(1,4) uq True by (auto simp del: of_nat_add)
    ultimately show ?thesis unfolding eq using True by (simp add: carve_tile_def del: of_nat_add)
  qed
  then show "chain (carve n ?c H) pv p (carve_tile (unat n) sz @ bs) nx"
    "\<And>x. \<not> (p \<le> unat x \<and> unat x < p + 20 + sz + extent bs) \<Longrightarrow> carve n ?c H x = H x" by blast+
qed

section \<open>Merging\<close>

lemma chain_replace:
  assumes "fits p (pre @ mid)" and "chain H pv p (pre @ mid) nx" and "mid \<noteq> []" "mid' \<noteq> []"
    and "chain H' (last_addr pv p pre) (p + extent pre) mid' nx"
    and "\<And>x. \<not> (p + extent pre \<le> unat x \<and> unat x < p + extent pre + extent mid) \<Longrightarrow> H' x = H x"
  shows "chain H' pv p (pre @ mid') nx"
proof -
  have f: "fits p pre" using assms(1) by (simp add: fits_def)
  have "chain H' pv p pre (word_of_nat (p + extent pre)) = chain H pv p pre (word_of_nat (p + extent pre))"
    by (rule chain_cong [OF f]) (use assms(6) in auto)
  then show ?thesis using assms(2-5) by (simp add: chain_append)
qed

lemma absorb_next_eq:
  assumes "H c = \<lparr>hb_next = nx, hb_prev = pv, hb_size = sa, hb_free = fa, hb_magic = HEAP_MAGIC\<rparr>"
    and "H nx = \<lparr>hb_next = nn, hb_prev = c, hb_size = sb, hb_free = fb, hb_magic = HEAP_MAGIC\<rparr>"
    and "nx \<noteq> c" "nn \<noteq> c"
  shows "absorb_next c H = (if nn = 0 then H else H(nn := (H nn)\<lparr>hb_prev := c\<rparr>))
    (c := \<lparr>hb_next = nn, hb_prev = pv, hb_size = sa + (sizeof_heap_block + sb), hb_free = fa, hb_magic = HEAP_MAGIC\<rparr>)"
  using assms by (auto simp: absorb_next_def Let_def fun_eq_iff)

lemma absorb_chain:
  assumes fit: "fits p ((a, fa) # (b, fb) # bs)" and ch: "chain H pv p ((a, fa) # (b, fb) # bs) nx"
    and nx: "bs = [] \<Longrightarrow> nx = 0"
  shows "chain (absorb_next (word_of_nat p) H) pv p ((a + 20 + b, fa) # bs) nx"
    and "\<And>x. \<not> (p \<le> unat x \<and> unat x < p + 20 + a + (20 + b + extent bs)) \<Longrightarrow>
           absorb_next (word_of_nat p) H x = H x"
proof -
  let ?c = "word_of_nat p :: u32" and ?q = "p + 20 + a" and ?r = "p + 20 + a + 20 + b"
  let ?nn = "if bs = [] then nx else word_of_nat ?r"
  note f1 = fits_addr [OF fit] and f2 = fits_addr [OF fits_Cons [OF fit]]
  note ft = fits_Cons [OF fits_Cons [OF fit]]
  have Hc: "H ?c = \<lparr>hb_next = word_of_nat ?q, hb_prev = pv, hb_size = word_of_nat a, hb_free = fa, hb_magic = HEAP_MAGIC\<rparr>"
    and Hq: "H (word_of_nat ?q) = \<lparr>hb_next = ?nn, hb_prev = ?c, hb_size = word_of_nat b, hb_free = fb, hb_magic = HEAP_MAGIC\<rparr>"
    and tail: "chain H (word_of_nat ?q) ?r bs nx"
    using ch by (simp_all del: of_nat_add)
  have "unat (word_of_nat ?q :: u32) \<noteq> unat ?c" "unat (word_of_nat ?r :: u32) \<noteq> unat ?c"
    unfolding f1(1,4) f2(4) by simp_all
  then have ne: "word_of_nat ?q \<noteq> ?c" "word_of_nat ?r \<noteq> ?c" by metis+
  have nz: "word_of_nat ?r \<noteq> (0 :: u32)" using f2(4) by (metis add_is_0 unat_0 zero_neq_numeral)
  have nn: "?nn \<noteq> ?c" "?nn = 0 \<longleftrightarrow> bs = []" using ne nz nx f1(2) by (auto simp del: of_nat_add)
  let ?H1 = "if bs = [] then H else H(word_of_nat ?r := (H (word_of_nat ?r))\<lparr>hb_prev := ?c\<rparr>)"
  let ?H2 = "?H1(?c := \<lparr>hb_next = ?nn, hb_prev = pv, hb_size = word_of_nat (a + 20 + b), hb_free = fa, hb_magic = HEAP_MAGIC\<rparr>)"
  have sz: "word_of_nat a + (sizeof_heap_block + word_of_nat b) = (word_of_nat (a + 20 + b) :: u32)" by simp
  have eq: "absorb_next ?c H = ?H2"
    using absorb_next_eq [where H = H and c = ?c, OF Hc Hq ne(1) nn(1)] nn(2) unfolding sz
    by (cases "bs = []") (simp_all del: of_nat_add)
  have t1: "chain ?H1 ?c ?r bs nx"
    using chain_set_prev [OF ft _ tail, of ?c] by (cases "bs = []") (simp_all del: of_nat_add)
  have "chain ?H2 ?c ?r bs nx = chain ?H1 ?c ?r bs nx"
    by (rule chain_cong [OF ft]) (use f1(1) in \<open>auto simp del: of_nat_add\<close>)
  with t1 have t2: "chain ?H2 ?c ?r bs nx" by blast
  have r: "p + 20 + (a + 20 + b) = ?r" by simp
  from t2 show "chain (absorb_next ?c H) pv p ((a + 20 + b, fa) # bs) nx"
    unfolding eq chain.simps r by (simp del: of_nat_add)
  have "bs \<noteq> [] \<Longrightarrow> 0 < extent bs" by (cases bs) auto
  then show "\<And>x. \<not> (p \<le> unat x \<and> unat x < p + 20 + a + (20 + b + extent bs)) \<Longrightarrow> absorb_next ?c H x = H x"
    unfolding eq using f1(1) f2(4) by (auto simp del: of_nat_add)
qed

text \<open>\<^verbatim>\<open>heap_defragment\<close> merges every run of free blocks.\<close>

function coalesce :: "tile list \<Rightarrow> tile list" where
  "coalesce [] = []"
| "coalesce [b] = [b]"
| "coalesce ((a, fa) # (b, fb) # bs) =
     (if fa \<and> fb then coalesce ((a + 20 + b, True) # bs) else (a, fa) # coalesce ((b, fb) # bs))"
  by pat_completeness auto
termination by (relation "measure length") auto

lemma coalesce_facts [simp]:
  "extent (coalesce bs) = extent bs" "live p (coalesce bs) = live p bs" "coalesce bs = [] \<longleftrightarrow> bs = []"
proof -
  show "extent (coalesce bs) = extent bs" by (induction bs rule: coalesce.induct) auto
  show "live p (coalesce bs) = live p bs"
    by (induction bs arbitrary: p rule: coalesce.induct) (auto simp: add.assoc)
  show "coalesce bs = [] \<longleftrightarrow> bs = []" by (induction bs rule: coalesce.induct) auto
qed

lemma defragment_chain:
  assumes "fits p bs" and "chain H pv p bs 0"
  shows "\<exists>H'. defragment_from (chain_ptr p bs) H = Some H' \<and> chain H' pv p (coalesce bs) 0 \<and>
           (\<forall>x. \<not> (p \<le> unat x \<and> unat x < p + extent bs) \<longrightarrow> H' x = H x)"
  using assms
proof (induction bs arbitrary: p pv H rule: coalesce.induct)
  case 1
  then show ?case by (simp add: defragment_from.simps)
next
  case (2 b)
  then show ?case by (cases b) (simp add: defragment_from.simps)
next
  case (3 a fa b fb bs)
  let ?c = "word_of_nat p :: u32" and ?q = "p + 20 + a"
  note f1 = fits_addr [OF "3.prems"(1)]
  note h = chain_head [OF "3.prems"(2)]
  have tail: "chain H ?c ?q ((b, fb) # bs) 0" using "3.prems"(2) by simp
  note h2 = chain_head [OF tail]
  have nz: "word_of_nat ?q \<noteq> (0 :: u32)" using f1(4) by (metis add_is_0 unat_0 zero_neq_numeral)
  have step: "defragment_from ?c H = (if fa \<and> fb then defragment_from ?c (absorb_next ?c H)
      else defragment_from (word_of_nat ?q) H)"
    using f1(2) nz h h2 by (simp add: defragment_from.simps [of ?c] Let_def del: of_nat_add)
  show ?case
  proof (cases "fa \<and> fb")
    case True
    have fa: "fa = True" using True by simp
    note ab = absorb_chain [OF "3.prems"(1,2) refl]
    have "fits p ((a + 20 + b, True) # bs)" using "3.prems"(1) by (simp add: fits_def)
    from "3.IH"(1) [OF True this ab(1) [unfolded fa]] obtain H' where
      "defragment_from ?c (absorb_next ?c H) = Some H'" "chain H' pv p (coalesce ((a + 20 + b, True) # bs)) 0"
      "\<forall>x. \<not> (p \<le> unat x \<and> unat x < p + extent ((a + 20 + b, True) # bs)) \<longrightarrow> H' x = absorb_next ?c H x"
      by auto
    with step True ab(2) show ?thesis by (auto simp: add.assoc)
  next
    case False
    from "3.IH"(2) [OF False fits_Cons [OF "3.prems"(1)] tail] obtain H' where
      H': "defragment_from (word_of_nat ?q) H = Some H'" "chain H' ?c ?q (coalesce ((b, fb) # bs)) 0"
      "\<forall>x. \<not> (?q \<le> unat x \<and> unat x < ?q + extent ((b, fb) # bs)) \<longrightarrow> H' x = H x"
      by (auto simp del: of_nat_add)
    have "H' ?c = H ?c" using H'(3) f1(1) by simp
    then have "chain H' pv p ((a, fa) # coalesce ((b, fb) # bs)) 0"
      using H'(2) "3.prems"(2) by simp
    with H'(1,3) step False show ?thesis by auto
  qed
qed

section \<open>Release\<close>

text \<open>What \<^verbatim>\<open>kfree\<close> makes of the tiling: the block becomes free and merges with free neighbours.\<close>

fun merge_next :: "nat \<Rightarrow> tile list \<Rightarrow> tile list" where
  "merge_next sz ((m, True) # post) = (sz + 20 + m, True) # post"
| "merge_next sz post = (sz, True) # post"

definition merge_prev :: "tile list \<Rightarrow> tile list \<Rightarrow> tile list" where
  "merge_prev pre bs =
     (if pre \<noteq> [] \<and> snd (last pre)
      then butlast pre @ merge_next (fst (last pre)) bs else pre @ bs)"

definition release_tiles :: "tile list \<Rightarrow> nat \<Rightarrow> tile list \<Rightarrow> tile list" where
  "release_tiles pre sz post = merge_prev pre (merge_next sz post)"

lemma merge_next_facts:
  "extent (merge_next sz post) = 20 + sz + extent post" "live p (merge_next sz post) = live (p + 20 + sz) post"
  "merge_next sz post \<noteq> []" "\<exists>m r. merge_next sz post = (m, True) # r"
  by (induction sz post rule: merge_next.induct) (auto simp: add.assoc)

lemma merge_prev_facts:
  "extent (merge_prev pre ((m, True) # r)) = extent pre + 20 + m + extent r"
  "live p (merge_prev pre ((m, True) # r)) = live p pre \<union> live (p + extent pre + 20 + m) r"
proof -
  have "extent (merge_prev pre ((m, True) # r)) = extent pre + 20 + m + extent r \<and>
      live p (merge_prev pre ((m, True) # r)) = live p pre \<union> live (p + extent pre + 20 + m) r"
  proof (cases pre rule: rev_cases)
    case (snoc pre' b)
    then show ?thesis by (cases b) (auto simp: merge_prev_def add.assoc)
  qed (simp add: merge_prev_def add.assoc)
  then show "extent (merge_prev pre ((m, True) # r)) = extent pre + 20 + m + extent r"
    "live p (merge_prev pre ((m, True) # r)) = live p pre \<union> live (p + extent pre + 20 + m) r" by blast+
qed

lemma release_tiles_facts:
  "extent (release_tiles pre sz post) = extent (pre @ (sz, False) # post)"
  "live p (release_tiles pre sz post) = live p (pre @ (sz, False) # post) - {(p + extent pre + 20, sz)}"
  "release_tiles pre sz post \<noteq> []"
proof -
  obtain m r where m: "merge_next sz post = (m, True) # r" using merge_next_facts(4) by blast
  have e: "20 + m + extent r = 20 + sz + extent post"
    and l: "\<And>q. live (q + 20 + m) r = live (q + 20 + sz) post"
    using merge_next_facts(1,2) [where sz = sz and post = post] by (simp_all add: m)
  show "extent (release_tiles pre sz post) = extent (pre @ (sz, False) # post)"
    unfolding release_tiles_def m merge_prev_facts using e by simp
  have "(p + extent pre + 20, sz) \<notin> live p pre" "(p + extent pre + 20, sz) \<notin> live (p + extent pre + 20 + sz) post"
    using live_range [of "p + extent pre + 20" sz p pre]
      live_range [of "p + extent pre + 20" sz "p + extent pre + 20 + sz" post] by auto
  then show "live p (release_tiles pre sz post) = live p (pre @ (sz, False) # post) - {(p + extent pre + 20, sz)}"
    unfolding release_tiles_def m merge_prev_facts l [of "p + extent pre"] by auto
  show "release_tiles pre sz post \<noteq> []"
    unfolding release_tiles_def m using merge_next_facts(3) by (simp add: merge_prev_def)
qed

lemma last_addr_snoc: "last_addr pv p (xs @ [(k, fr)]) = word_of_nat (p + extent xs)"
  by (induction pv p xs rule: last_addr.induct) (auto simp: add.assoc)

lemma merge_next_chain:
  assumes "fits p ((sz, True) # post)" and "chain H pv p ((sz, True) # post) 0"
  defines "H' \<equiv> merge_with_next (word_of_nat p) H"
  shows "chain H' pv p (merge_next sz post) 0"
    and "\<And>x. \<not> (p \<le> unat x \<and> unat x < p + extent ((sz, True) # post)) \<Longrightarrow> H' x = H x"
proof -
  have "chain H' pv p (merge_next sz post) 0 \<and>
      (\<forall>x. \<not> (p \<le> unat x \<and> unat x < p + extent ((sz, True) # post)) \<longrightarrow> H' x = H x)"
  proof (cases post)
    case Nil
    then show ?thesis using assms(2) by (simp add: H'_def merge_with_next_def Let_def)
  next
    case (Cons b r)
    obtain m fr where b: "b = (m, fr)" by fastforce
    have nx: "hb_next (H (word_of_nat p)) = word_of_nat (p + 20 + sz)"
      and tail: "chain H (word_of_nat p) (p + 20 + sz) ((m, fr) # r) 0"
      using assms(2) by (simp_all add: Cons b)
    have "word_of_nat (p + 20 + sz) \<noteq> (0 :: u32)"
      by (rule fits_addr(2) [OF fits_Cons [OF assms(1) [unfolded Cons b]]])
    with chain_head(4,5) [OF tail] have H': "H' = (if fr then absorb_next (word_of_nat p) H else H)"
      by (simp add: H'_def merge_with_next_def Let_def nx del: of_nat_add)
    show ?thesis
    proof (cases fr)
      case True
      then show ?thesis
        using absorb_chain [OF assms(1,2) [unfolded Cons b] refl] H' by (simp add: Cons b ac_simps)
    next
      case False
      then show ?thesis using assms(2) H' by (simp add: Cons b)
    qed
  qed
  then show "chain H' pv p (merge_next sz post) 0"
    "\<And>x. \<not> (p \<le> unat x \<and> unat x < p + extent ((sz, True) # post)) \<Longrightarrow> H' x = H x" by blast+
qed

lemma merge_into_prev_eq:
  assumes "hb_prev (H b) = pv" and "pv \<noteq> 0 \<Longrightarrow> hb_next (H pv) = b \<and> pv \<noteq> b"
  shows "merge_into_prev b H =
     (if pv \<noteq> 0 \<and> hb_free (H pv) \<and> hb_magic (H pv) = HEAP_MAGIC then absorb_next pv H else H)"
proof (cases "pv = 0")
  case False
  then have "hb_next (H pv) = b" "pv \<noteq> b" using assms(2) by blast+
  then show ?thesis using assms(1) by (simp add: merge_into_prev_def absorb_next_def Let_def)
qed (use assms(1) in \<open>simp add: merge_into_prev_def\<close>)

lemma kfree_chain:
  assumes fit: "fits p (pre @ (sz, False) # post)" and ch: "chain (hblk s) 0 p (pre @ (sz, False) # post) 0"
  defines "ptr \<equiv> word_of_nat (p + extent pre + 20)"
  shows "\<exists>H'. kfree ptr s = s\<lparr>hblk := H'\<rparr> \<and> chain H' 0 p (release_tiles pre sz post) 0 \<and>
           (\<forall>x. \<not> (p \<le> unat x \<and> unat x < p + extent (pre @ (sz, False) # post)) \<longrightarrow> H' x = hblk s x)"
proof -
  let ?q = "p + extent pre" let ?b = "word_of_nat ?q :: u32" let ?H = "hblk s"
  have fq: "fits ?q ((sz, False) # post)" "fits ?q ((sz, True) # post)" using fit by (simp_all add: fits_def)
  note a = fits_addr [OF fq(1)]
  have b: "ptr - sizeof_heap_block = ?b" by (simp add: ptr_def)
  have "unat ptr = ?q + 20" using fq(1) by (simp add: ptr_def unat_of_nat_small fits_def del: of_nat_add)
  then have ptr: "ptr \<noteq> 0" by (metis add_is_0 unat_0 zero_neq_numeral)
  define H0 where "H0 = ?H(?b := (?H ?b)\<lparr>hb_free := True\<rparr>)"
  define H1 where "H1 = merge_with_next ?b H0"
  let ?pv = "last_addr 0 p pre"
  have mid: "chain ?H ?pv ?q ((sz, False) # post) 0" using ch by (simp add: chain_append)
  have "chain H0 (word_of_nat ?q) (?q + 20 + sz) post 0 = chain ?H (word_of_nat ?q) (?q + 20 + sz) post 0"
    by (rule chain_cong [OF fits_Cons [OF fq(1)]]) (use a(1) in \<open>auto simp: H0_def simp del: of_nat_add\<close>)
  then have mid0: "chain H0 ?pv ?q ((sz, True) # post) 0" using mid by (simp add: H0_def del: of_nat_add)
  note m = merge_next_chain [OF fq(2) mid0, folded H1_def]
  have out: "H1 x = ?H x" if "\<not> (?q \<le> unat x \<and> unat x < ?q + extent ((sz, False) # post))" for x
  proof -
    have "x \<noteq> ?b" using that a(1) by (auto simp del: of_nat_add)
    with that show ?thesis using m(2) [of x] by (simp add: H0_def)
  qed
  obtain k r where kr: "merge_next sz post = (k, True) # r" using merge_next_facts(4) by blast
  have ext: "extent ((k, True) # r) = extent ((sz, False) # post)"
    using merge_next_facts(1) [of sz post] by (simp add: kr)
  have c1: "chain H1 0 p (pre @ (k, True) # r) 0"
    by (rule chain_replace [OF fit ch]) (use m(1) out kr in auto)
  have pv: "hb_prev (H1 ?b) = ?pv" using m(1) chain_head(2) by (simp add: kr)
  have kf: "kfree ptr s = s\<lparr>hblk := merge_into_prev ?b H1\<rparr>"
    using ptr b by (simp add: kfree_def Let_def H0_def H1_def del: of_nat_add)
  have rel: "release_tiles pre sz post = merge_prev pre ((k, True) # r)" by (simp add: release_tiles_def kr)
  have fit1: "fits p (pre @ (k, True) # r)" using fit ext by (simp add: fits_def)
  have H1x: "\<forall>x. \<not> (p \<le> unat x \<and> unat x < p + extent (pre @ (sz, False) # post)) \<longrightarrow> H1 x = ?H x"
    using out by auto
  show ?thesis
  proof (cases pre rule: rev_cases)
    case Nil
    then have "merge_into_prev ?b H1 = H1" using pv merge_into_prev_eq [of H1 ?b 0] by simp
    with kf have "kfree ptr s = s\<lparr>hblk := H1\<rparr>" by simp
    with c1 H1x rel Nil show ?thesis by (auto simp: merge_prev_def)
  next
    case (snoc pre' t)
    obtain k' fr' where t: "t = (k', fr')" by fastforce
    let ?w = "p + extent pre'"
    have pvw: "?pv = word_of_nat ?w" by (simp add: snoc t last_addr_snoc del: of_nat_add)
    have qw: "?q = ?w + 20 + k'" by (simp add: snoc t)
    have pre: "pre @ (k, True) # r = pre' @ (k', fr') # (k, True) # r" by (simp add: snoc t)
    have c2: "chain H1 (last_addr 0 p pre') ?w ((k', fr') # (k, True) # r) 0"
      using c1 unfolding pre chain_append by blast
    have fw: "fits ?w ((k', fr') # (k, True) # r)" using fit1 unfolding pre by (simp add: fits_def)
    note hw = chain_head [OF c2] and aw = fits_addr [OF fw]
    have ne: "word_of_nat ?w \<noteq> ?b" using aw(1) a(1) qw by (metis add_is_0 add.assoc add_cancel_right_right zero_neq_numeral)
    have mp: "merge_into_prev ?b H1 = (if fr' then absorb_next (word_of_nat ?w) H1 else H1)"
      using merge_into_prev_eq [of H1 ?b "word_of_nat ?w"] pv pvw hw(1,4,5) aw(2) ne
      by (simp add: qw del: of_nat_add)
    show ?thesis
    proof (cases fr')
      case False
      then have "kfree ptr s = s\<lparr>hblk := H1\<rparr>"
        using kf mp by simp
      with c1 H1x rel False show ?thesis by (auto simp: merge_prev_def snoc t)
    next
      case True
      let ?H2 = "absorb_next (word_of_nat ?w) H1"
      have eq: "kfree ptr s = s\<lparr>hblk := ?H2\<rparr>"
        using kf mp True by simp
      note ab = absorb_chain [OF fw c2 refl]
      have "chain ?H2 0 p (pre' @ (k' + 20 + k, fr') # r) 0"
        by (rule chain_replace [OF fit1 [unfolded pre] c1 [unfolded pre]])
           (use ab in \<open>auto simp: ac_simps simp del: of_nat_add\<close>)
      then have "chain ?H2 0 p (release_tiles pre sz post) 0"
        unfolding rel using True by (simp add: merge_prev_def snoc t)
      moreover have "?H2 x = ?H x" if "\<not> (p \<le> unat x \<and> unat x < p + extent (pre @ (sz, False) # post))" for x
      proof -
        have "p + extent (pre @ (sz, False) # post) = ?w + 20 + k' + (20 + k + extent r)"
          using ext by (simp add: snoc t)
        then have "?H2 x = H1 x" using ab(2) [of x] that by auto
        with H1x that show ?thesis by auto
      qed
      ultimately show ?thesis using eq by blast
    qed
  qed
qed

section \<open>The invariant of the heap, and its growth\<close>

abbreviation HS :: nat where "HS \<equiv> 0xD0000000"

definition heap_inv :: "tile list \<Rightarrow> 'a heap_scheme \<Rightarrow> bool" where
  "heap_inv bs s \<longleftrightarrow> vmm_wf s \<and> fits HS bs \<and> chain (hblk s) 0 HS bs 0 \<and> heap_head s = chain_ptr HS bs \<and>
     unat (heap_current_end s) = HS + extent bs \<and> extent bs mod 4096 = 0 \<and>
     (\<forall>va. in_run HEAP_START (extent bs div 4096) va \<longrightarrow> aspace s va \<noteq> None)"

lemma heap_invD:
  assumes "heap_inv bs s"
  shows "vmm_wf s" "fits HS bs" "chain (hblk s) 0 HS bs 0" "heap_head s = chain_ptr HS bs"
    "unat (heap_current_end s) = HS + extent bs" "extent bs mod 4096 = 0"
    "in_run HEAP_START (extent bs div 4096) va \<Longrightarrow> aspace s va \<noteq> None"
  using assms unfolding heap_inv_def by blast+

lemma last_block_chain:
  assumes "fits p bs" and "chain H pv p bs 0" and "bs \<noteq> []"
  shows "last_block H (word_of_nat p) = Some (last_addr pv p bs)"
  using assms
proof (induction p bs arbitrary: pv rule: live.induct)
  case (2 p sz fr bs)
  show ?case
  proof (cases "bs = []")
    case True
    then show ?thesis using "2.prems" by (simp add: last_block.simps)
  next
    case False
    then obtain b bs' where bs: "bs = b # bs'" by (cases bs) auto
    have nz: "word_of_nat (p + 20 + sz) \<noteq> (0 :: u32)"
      using fits_addr(2) [of "p + 20 + sz" "fst b" "snd b" bs'] fits_Cons [OF "2.prems"(1)] by (simp add: bs)
    have "hb_next (H (word_of_nat p)) = word_of_nat (p + 20 + sz)" using "2.prems"(2) False by simp
    then have "last_block H (word_of_nat p) = last_block H (word_of_nat (p + 20 + sz))"
      using nz by (simp add: last_block.simps [of H "word_of_nat p"] del: of_nat_add)
    with "2.IH" [OF fits_Cons [OF "2.prems"(1)], of "word_of_nat p"] "2.prems"(2) False show ?thesis
      by (simp del: of_nat_add)
  qed
qed simp

text \<open>A block written at the end of the heap and linked there extends the tiling.\<close>

lemma append_block_chain:
  assumes fit: "fits HS (bs @ [(n, True)])" and ch: "chain (hblk s) 0 HS bs 0"
    and head: "heap_head s = chain_ptr HS bs"
  defines "nb \<equiv> word_of_nat (HS + extent bs)"
  assumes new: "hblk s nb = \<lparr>hb_next = 0, hb_prev = 0, hb_size = word_of_nat n, hb_free = True, hb_magic = HEAP_MAGIC\<rparr>"
  obtains H where "append_block nb s = Some (s\<lparr>hblk := H, heap_head := HEAP_START\<rparr>)" "chain H 0 HS (bs @ [(n, True)]) 0"
proof (cases bs rule: rev_cases)
  case Nil
  then have "append_block nb s = Some (s\<lparr>hblk := hblk s, heap_head := HEAP_START\<rparr>)"
    using head by (simp add: append_block_def nb_def)
  with that [of "hblk s"] new Nil show thesis by (simp add: nb_def)
next
  case (snoc bs' b)
  obtain k fr where b: "b = (k, fr)" by fastforce
  let ?H = "hblk s" and ?w = "HS + extent bs'"
  let ?l = "word_of_nat ?w :: u32"
  have fb: "fits HS bs" "fits ?w ((k, fr) # [(n, True)])" using fit by (simp_all add: fits_def snoc b)
  have e: "HS + extent bs = ?w + 20 + k" by (simp add: snoc b)
  note aw = fits_addr [OF fb(2)]
  have ne: "nb \<noteq> ?l" unfolding nb_def e using aw(1,4) by (metis add_is_0 add.assoc add_cancel_right_right zero_neq_numeral)
  have "last_addr 0 HS bs = ?l" by (simp add: snoc b last_addr_snoc del: of_nat_add)
  then have last: "last_block ?H HEAP_START = Some ?l"
    using last_block_chain [OF fb(1) ch] by (simp add: snoc del: of_nat_add)
  let ?H1 = "?H(?l := (?H ?l)\<lparr>hb_next := nb\<rparr>)"
  let ?H2 = "?H1(nb := (?H1 nb)\<lparr>hb_prev := ?l\<rparr>)"
  have ap: "append_block nb s = Some (s\<lparr>hblk := ?H2, heap_head := HEAP_START\<rparr>)"
  proof -
    have hd: "heap_head s = HEAP_START" using head by (simp add: chain_ptr_def snoc)
    then have "s\<lparr>hblk := H, heap_head := HEAP_START\<rparr> = s\<lparr>hblk := H\<rparr>" for H by (cases s) simp
    then show ?thesis using hd last by (simp add: append_block_def Let_def del: of_nat_add)
  qed
  have Hl: "?H ?l = \<lparr>hb_next = 0, hb_prev = last_addr 0 HS bs', hb_size = word_of_nat k, hb_free = fr, hb_magic = HEAP_MAGIC\<rparr>"
    using ch by (simp add: snoc b chain_append del: of_nat_add)
  have c2: "chain ?H2 (last_addr 0 HS bs') ?w ((k, fr) # [(n, True)]) 0"
    using Hl new ne by (simp add: nb_def e del: of_nat_add)
  have "chain ?H2 0 HS bs' (word_of_nat ?w) = chain ?H 0 HS bs' (word_of_nat ?w)"
  proof (rule chain_cong)
    show "fits HS bs'" using fb(1) by (simp add: fits_def snoc)
    fix x :: u32 assume "unat x < HS + extent bs'"
    then have "x \<noteq> ?l" "x \<noteq> nb" using aw(1,4) unfolding nb_def e by auto
    then show "?H2 x = ?H x" by simp
  qed
  moreover have "chain ?H 0 HS bs' (word_of_nat ?w)"
    using ch by (simp add: snoc chain_append del: of_nat_add)
  ultimately have "chain ?H2 0 HS (bs' @ [(k, fr), (n, True)]) 0"
    using c2 unfolding chain_append by (simp del: of_nat_add)
  with ap that snoc b show thesis by simp
qed

lemma heap_more:
  fixes a b :: "'a heap_scheme"
  assumes "vmm.more a = vmm.more b"
  shows "hblk a = hblk b" "hmem a = hmem b" "heap_head a = heap_head b" "heap_current_end a = heap_current_end b"
  using assms by (cases a; cases b; simp)+

lemma pmm_more_vmm_more:
  fixes a b :: "'a heap_scheme"
  shows "pmm.more a = pmm.more b \<Longrightarrow> vmm.more a = vmm.more b"
  by (cases a; cases b; simp)

text \<open>The invariant only looks at the heap's variables, the mapping of the heap and \<open>vmm_wf\<close>.\<close>

lemma heap_inv_transfer:
  assumes inv: "heap_inv bs s" and wf: "vmm_wf s'" and more: "vmm.more s' = vmm.more s"
    and view: "\<And>va. in_run HEAP_START (extent bs div 4096) va \<Longrightarrow> aspace s' va = aspace s va"
  shows "heap_inv bs s'"
  using inv wf view unfolding heap_inv_def heap_more [OF more] by simp

lemma heap_end_run:
  fixes A :: u32
  assumes inv: "heap_inv bs s" and A: "unat A mod 4096 = 0" "HS + extent bs + unat A \<le> 0xFFC00000"
  shows "run_ok (heap_current_end s) (unat (A div PAGE_SIZE))"
    and "unat (A div PAGE_SIZE) * 4096 = unat A"
    and "in_run HEAP_START (extent bs div 4096) va \<Longrightarrow> \<not> in_run (heap_current_end s) k va"
    and "in_run HEAP_START ((extent bs + unat A) div 4096) va \<Longrightarrow>
           in_run HEAP_START (extent bs div 4096) va \<or> in_run (heap_current_end s) (unat (A div PAGE_SIZE)) va"
proof -
  note i = heap_invD [OF inv]
  have hs: "unat HEAP_START = HS" by simp
  have n: "unat (A div PAGE_SIZE) = unat A div 4096" by (simp add: unat_div_distrib)
  show nA: "unat (A div PAGE_SIZE) * 4096 = unat A" using A(1) by (simp add: n mod_eq_0_iff_dvd)
  have e: "extent bs div 4096 * 4096 = extent bs" using i(6) by (simp add: mod_eq_0_iff_dvd)
  have "unat (heap_current_end s) mod 4096 = 0" unfolding i(5) using i(6) by (simp add: mod_eq_0_iff_dvd dvd_add)
  then have "frame (heap_current_end s) = heap_current_end s" by (simp only: aligned_unat)
  then show "run_ok (heap_current_end s) (unat (A div PAGE_SIZE))" using A(2) nA by (simp add: run_ok_def i(5))
  show "in_run HEAP_START (extent bs div 4096) va \<Longrightarrow> \<not> in_run (heap_current_end s) k va"
    unfolding in_run_def e i(5) hs by linarith
  have "4096 dvd extent bs" "4096 dvd unat A" using i(6) A(1) by (simp_all add: mod_eq_0_iff_dvd)
  then have "(extent bs + unat A) div 4096 * 4096 = extent bs + unat A"
    by (intro dvd_div_mult_self dvd_add)
  then show "in_run HEAP_START ((extent bs + unat A) div 4096) va \<Longrightarrow>
           in_run HEAP_START (extent bs div 4096) va \<or> in_run (heap_current_end s) (unat (A div PAGE_SIZE)) va"
    unfolding in_run_def e i(5) nA hs by linarith
qed

lemma outside_new_block:
  fixes x nb A :: u32
  assumes "unat x < unat nb" and "unat nb + unat A \<le> 0xFFC00000"
  shows "\<not> x - nb < A" "x \<noteq> nb"
proof -
  have "unat (x - nb) = unat x + 2 ^ 32 - unat nb"
    using assms by (simp add: unat_sub_if_size word_size)
  then show "\<not> x - nb < A" using assms by (simp add: word_less_nat_alt)
qed (use assms in auto)

lemma new_block_inv:
  assumes inv: "heap_inv bs s" and wf: "vmm_wf s2" and more: "vmm.more s2 = vmm.more s"
    and A: "unat A mod 4096 = 0" "4096 \<le> unat A" "HS + extent bs + unat A \<le> 0xFFC00000"
    and view: "aspace s2 = map_run (heap_current_end s) pa (unat (A div PAGE_SIZE)) (aspace s)"
  defines "nb \<equiv> heap_current_end s2"
  defines "s4 \<equiv> (heap_zero nb A s2)\<lparr>hblk := (hblk (heap_zero nb A s2))(nb := \<lparr>hb_next = 0, hb_prev = 0,
       hb_size = A - sizeof_heap_block, hb_free = True, hb_magic = HEAP_MAGIC\<rparr>)\<rparr>"
  obtains s5 where "append_block nb s4 = Some s5"
    "heap_inv (bs @ [(unat A - 20, True)]) (s5\<lparr>heap_current_end := heap_current_end s5 + A\<rparr>)"
    "\<And>x. unat x < HS + extent bs \<Longrightarrow> hmem s5 x = hmem s x"
proof -
  note i = heap_invD [OF inv] and m = heap_more [OF more] and run = heap_end_run [OF inv A(1,3)]
  have nb: "nb = word_of_nat (HS + extent bs)" "unat nb = HS + extent bs"
    using i(5) unfolding nb_def m by (simp_all add: word_unat_eq_iff unat_of_nat_small i(5) del: of_nat_add)
       (use A(3) in \<open>simp add: unat_of_nat_small del: of_nat_add\<close>)
  have sz: "A - sizeof_heap_block = word_of_nat (unat A - 20)" using A(2) by (simp add: of_nat_diff)
  have fit: "fits HS (bs @ [(unat A - 20, True)])" using A by (simp add: fits_def)
  have old: "hblk s4 x = hblk s x" "hmem s4 x = hmem s x" if "unat x < HS + extent bs" for x
    using outside_new_block [of x nb A] that A(3) by (simp_all add: s4_def heap_zero_def nb(2) m)
  have ch: "chain (hblk s4) 0 HS bs 0"
    using i(3) chain_cong [OF i(2), of "hblk s4" "hblk s"] old by simp
  have new: "hblk s4 nb = \<lparr>hb_next = 0, hb_prev = 0, hb_size = word_of_nat (unat A - 20), hb_free = True, hb_magic = HEAP_MAGIC\<rparr>"
    by (simp add: s4_def sz)
  have head: "heap_head s4 = chain_ptr HS bs" using i(4) by (simp add: s4_def heap_zero_def m)
  obtain H where H: "append_block nb s4 = Some (s4\<lparr>hblk := H, heap_head := HEAP_START\<rparr>)"
      "chain H 0 HS (bs @ [(unat A - 20, True)]) 0"
    using append_block_chain [OF fit ch head] new unfolding nb(1) by metis
  let ?s5 = "s4\<lparr>hblk := H, heap_head := HEAP_START\<rparr>"
  let ?s6 = "?s5\<lparr>heap_current_end := heap_current_end ?s5 + A\<rparr>"
  have fields: "mem ?s6 = mem s2" "kpd ?s6 = kpd s2" "cr3 ?s6 = cr3 s2" "paging ?s6 = paging s2"
    by (simp_all add: s4_def heap_zero_def)
  have "vmm_wf ?s6"
  proof (rule vmm_wf_keep [OF wf])
    have "free_frames ?s6 = free_frames s2" "pmm_inv ?s6 = pmm_inv s2"
      by (simp_all add: s4_def heap_zero_def free_frames_def page_used_def pmm_inv_def bitmap_wf_def capacity_def)
    then show "pmm_inv ?s6" "free_frames ?s6 \<subseteq> free_frames s2" using vmm_wf_facts(1) [OF wf] by simp_all
  qed (use fields in \<open>simp_all add: pde_def\<close>)
  moreover have "aspace ?s6 = aspace s2" by (intro ext) (simp only: aspace_def translate_def fields)
  moreover have "unat (heap_current_end ?s6) = HS + extent bs + unat A"
    using nb(2) A(3) by (simp add: s4_def heap_zero_def nb_def [symmetric] unat_word_ariths)
  moreover have ext: "extent (bs @ [(unat A - 20, True)]) = extent bs + unat A" using A(2) by simp
  moreover have "(extent bs + unat A) mod 4096 = 0" using i(6) A(1) by (simp add: mod_eq_0_iff_dvd dvd_add)
  moreover have "aspace s2 va \<noteq> None" if "in_run HEAP_START ((extent bs + unat A) div 4096) va" for va
    using run(4) [OF that] i(7) by (auto simp: view map_run_def)
  ultimately have "heap_inv (bs @ [(unat A - 20, True)]) ?s6"
    using fit H(2) unfolding heap_inv_def by (simp add: chain_ptr_def)
  with that [OF H(1)] old(2) show thesis by simp
qed

lemma run_subset_bound:
  fixes m n T :: nat
  assumes "{m..<m + n} \<subseteq> {0<..<T}" and "0 < n"
  shows "0 < m" "m + n \<le> T"
proof -
  have "m \<in> {m..<m + n}" "m + n - 1 \<in> {m..<m + n}" using assms(2) by auto
  then have "m \<in> {0<..<T}" "m + n - 1 \<in> {0<..<T}" using assms(1) by blast+
  then show "0 < m" "m + n \<le> T" by auto
qed

text \<open>One attempt either extends the heap by one free block, or leaves it as it was.\<close>

lemma expand_attempt_cases:
  assumes inv: "heap_inv bs s" and A: "unat A mod 4096 = 0" "4096 \<le> unat A" "HS + extent bs + unat A \<le> 0xFFC00000"
  obtains (retry) s' where "expand_attempt A s = Some (None, s')" "heap_inv bs s'" "vmm.more s' = vmm.more s"
  | (grown) s' where "expand_attempt A s = Some (Some (), s')" "heap_inv (bs @ [(unat A - 20, True)]) s'"
      "\<And>x. unat x < HS + extent bs \<Longrightarrow> hmem s' x = hmem s x"
proof -
  note i = heap_invD [OF inv] and run = heap_end_run [OF inv A(1,3)]
  let ?n = "A div PAGE_SIZE"
  obtain p s1 where al: "pmm_alloc_pages ?n s = (p, s1)" by fastforce
  have more1: "pmm.more s1 = pmm.more s" by (rule pmm_pages_keep_more(1) [OF al])
  note m1 = pmm_more_vmm_more [OF more1] and wf1 = vmm_wf_alloc_pages [OF i(1) al]
  from vmm_wf_facts(1) [OF i(1)] al show thesis
  proof (cases rule: pmm_alloc_pages_cases)
    case fail
    then have "expand_attempt A s = Some (None, s)" using al by (simp add: expand_attempt_def)
    with retry inv show thesis by blast
  next
    case (ok m)
    let ?R = "{m..<m + unat ?n}"
    have taken: "tables_avoid ?R s" "unat (kpd s) div 4096 \<notin> ?R"
      using vmm_wf_facts(3,4) [OF i(1)] ok(2) unfolding tables_avoid_def frame_taken_def by blast+
    have av1: "tables_avoid ?R s1" using taken(1) same_machine_aspace(3) [OF more1] by blast
    have R1: "?R \<inter> free_frames s1 = {}" using ok(5) by blast
    have ce: "heap_current_end s1 = heap_current_end s" using heap_more [OF m1] by simp
    have pa: "frame p = p" using ok(4) by (simp only: aligned_unat) simp
    have fl: "(PAGE_FLAG_PRESENT OR PAGE_FLAG_RW) AND PAGE_FLAG_PRESENT \<noteq> 0" by simp
    obtain st s2 where mp: "vmm_map_pages (heap_current_end s) p ?n (PAGE_FLAG_PRESENT OR PAGE_FLAG_RW) s1 = Some (st, s2)"
      and s2: "vmm_wf s2" "kpd s2 = kpd s1"
      and view: "if st = KERNEL_OK then aspace s2 = map_run (heap_current_end s) p (unat ?n) (aspace s1)
            else \<exists>k < unat ?n. aspace s2 = unmap_run (heap_current_end s) k (aspace s1)"
      using vmm_map_pages_spec [OF wf1 run(1) pa fl] by blast
    have rest: "total_pages s2 = total_pages s1" "vmm.more s2 = vmm.more s1"
      using vmm_map_pages_rest [OF mp] by (simp_all add: rest_def)
    have as1: "aspace s1 = aspace s" by (rule same_machine_aspace(2) [OF more1])
    have body: "expand_attempt A s = (if st \<noteq> KERNEL_OK then Some (None, pmm_free_pages p ?n s2)
           else let nb = heap_current_end s2;
                    s3 = heap_zero nb A s2;
                    s4 = s3\<lparr>hblk := (hblk s3)(nb := \<lparr>hb_next = 0, hb_prev = 0,
                           hb_size = A - sizeof_heap_block, hb_free = True, hb_magic = HEAP_MAGIC\<rparr>)\<rparr>
                in map_option (\<lambda>s5. (Some (), s5\<lparr>heap_current_end := heap_current_end s5 + A\<rparr>))
                     (append_block nb s4))"
      using al ok(3) mp by (simp add: expand_attempt_def Let_def ce)
    show thesis
    proof (cases "st = KERNEL_OK")
      case True
      have "aspace s2 = map_run (heap_current_end s) p (unat ?n) (aspace s)" using view True as1 by simp
      from new_block_inv [OF inv s2(1) _ A this] rest(2) m1 obtain s5 where
        s5: "append_block (heap_current_end s2) ((heap_zero (heap_current_end s2) A s2)
            \<lparr>hblk := (hblk (heap_zero (heap_current_end s2) A s2))(heap_current_end s2 := \<lparr>hb_next = 0, hb_prev = 0,
              hb_size = A - sizeof_heap_block, hb_free = True, hb_magic = HEAP_MAGIC\<rparr>)\<rparr>) = Some s5"
        "heap_inv (bs @ [(unat A - 20, True)]) (s5\<lparr>heap_current_end := heap_current_end s5 + A\<rparr>)"
        "\<And>x. unat x < HS + extent bs \<Longrightarrow> hmem s5 x = hmem s x" by metis
      show thesis
        by (rule grown [of "s5\<lparr>heap_current_end := heap_current_end s5 + A\<rparr>"])
           (use body True s5 in \<open>simp_all add: Let_def\<close>)
    next
      case False
      let ?s3 = "pmm_free_pages p ?n s2"
      have more3: "pmm.more ?s3 = pmm.more s2" by (rule pmm_pages_keep_more(2))
      have "?R \<subseteq> {0<..<unat (total_pages s2)}"
        using ok(2) pmm_inv_facts(7) [OF vmm_wf_facts(1) [OF i(1)]] rest(1) ok(7) by fastforce
      moreover have "0 < unat ?n" using run(2) A(2) by (cases "unat ?n") simp_all
      ultimately have bd: "0 < m" "m + unat ?n \<le> unat (total_pages s2)" using run_subset_bound by blast+
      have "vmm_wf ?s3"
      proof (rule vmm_wf_free_pages [OF s2(1)])
        show "tables_avoid {unat p div 4096..<unat p div 4096 + unat ?n} s2"
          using vmm_map_pages_avoids [OF wf1 run(1) av1 R1 mp] ok(4) by simp
        show "unat (kpd s2) div 4096 \<notin> {unat p div 4096..<unat p div 4096 + unat ?n}"
          using taken(2) ok(4) s2(2) pmm_more_machine(4) [OF more1] by simp
      qed (use ok(4) bd in simp_all)
      moreover have "vmm.more ?s3 = vmm.more s" using pmm_more_vmm_more [OF more3] rest(2) m1 by simp
      moreover have "aspace ?s3 va = aspace s va" if "in_run HEAP_START (extent bs div 4096) va" for va
        using view False run(3) [OF that] as1 same_machine_aspace(2) [OF more3] by (auto simp: unmap_run_def)
      ultimately show thesis using retry [of ?s3] heap_inv_transfer [OF inv] body False by simp
    qed
  qed
qed

lemma heap_expand_cases:
  assumes inv: "heap_inv bs s" and small: "HS + extent bs + unat n + 20 + 4095 \<le> 0xFFC00000"
  defines "A \<equiv> (unat n + 20 + 4095) div 4096 * 4096"
  obtains (oom) s' where "heap_expand n s = Some (KERNEL_OUT_OF_MEMORY, s')" "heap_inv bs s'" "hmem s' = hmem s"
  | (ok) s' where "heap_expand n s = Some (KERNEL_OK, s')" "heap_inv (bs @ [(A - 20, True)]) s'"
      "\<And>x. unat x < HS + extent bs \<Longrightarrow> hmem s' x = hmem s x"
proof -
  let ?A = "PAGE_ALIGN (n + sizeof_heap_block)"
  have "unat (n + sizeof_heap_block) = unat n + 20" using small by (simp add: unat_word_ariths)
  then have A: "unat ?A = A" unfolding A_def using small by (subst unat_ALIGN_UP_page) simp_all
  have le: "A \<le> unat n + 20 + 4095" unfolding A_def by (rule div_times_less_eq_dividend)
  have bounds: "unat ?A mod 4096 = 0" "4096 \<le> unat ?A" "HS + extent bs + unat ?A \<le> 0xFFC00000"
    unfolding A using le small by (simp_all add: A_def)
  let ?P = "\<lambda>k :: nat. \<lambda>t. heap_inv bs t \<and> vmm.more t = vmm.more s"
  let ?Q = "\<lambda>t. heap_inv (bs @ [(A - 20, True)]) t \<and> (\<forall>x. unat x < HS + extent bs \<longrightarrow> hmem t x = hmem s x)"
  have "\<exists>r t. for_ret 0 (3 :: u32) (\<lambda>_. expand_attempt ?A) s = Some (r, t) \<and>
      (case r of None \<Rightarrow> ?P (unat (3 :: u32)) t
       | Some v \<Rightarrow> \<exists>i. unat (0 :: u32) \<le> i \<and> i < unat (3 :: u32) \<and> ?Q t)"
  proof (rule for_ret_rule [where P = ?P and Q = "\<lambda>_ _. ?Q"])
    fix i :: u32 and t :: "'a heap_scheme"
    assume t: "?P (unat i) t"
    then have inv_t: "heap_inv bs t" by blast
    from inv_t bounds show "\<exists>r t'. expand_attempt ?A t = Some (r, t') \<and>
        (case r of None \<Rightarrow> ?P (Suc (unat i)) t' | Some v \<Rightarrow> ?Q t')"
    proof (cases rule: expand_attempt_cases)
      case (retry t')
      with t show ?thesis by simp
    next
      case (grown t')
      then show ?thesis using t heap_more(2) [of t s] by (simp add: A)
    qed
  qed (use inv in simp_all)
  then obtain r t where loop: "for_ret 0 (3 :: u32) (\<lambda>_. expand_attempt ?A) s = Some (r, t)"
    and post: "case r of None \<Rightarrow> ?P (unat (3 :: u32)) t
       | Some v \<Rightarrow> \<exists>i. unat (0 :: u32) \<le> i \<and> i < unat (3 :: u32) \<and> ?Q t" by blast
  have ret: "heap_expand n s = Some (if r = None then KERNEL_OUT_OF_MEMORY else KERNEL_OK, t)"
    by (simp add: heap_expand_def loop)
  show thesis
  proof (cases r)
    case None
    with post ret show thesis using oom [of t] heap_more(2) [of t s] by simp
  next
    case (Some v)
    with post have "?Q t" by auto
    with Some ret show thesis using ok [of t] by simp
  qed
qed

section \<open>The allocator\<close>

lemma heap_upd_vmm [simp]:
  fixes s :: "'a heap_scheme"
  shows "vmm_wf (s\<lparr>hblk := H\<rparr>) = vmm_wf s" "aspace (s\<lparr>hblk := H\<rparr>) = aspace s"
    "vmm_wf (s\<lparr>hmem := M\<rparr>) = vmm_wf s" "aspace (s\<lparr>hmem := M\<rparr>) = aspace s"
proof -
  have "vmm_wf (s\<lparr>hblk := H, hmem := M\<rparr>) = vmm_wf s \<and> aspace (s\<lparr>hblk := H, hmem := M\<rparr>) = aspace s"
    for s :: "'a heap_scheme" and H M
    by (simp add: vmm_wf_def pmm_inv_def free_frames_def page_used_def bitmap_wf_def capacity_def
        has_table_def table_def pde_def frame_taken_def fun_eq_iff aspace_def translate_def)
  from this [of "hmem s" H s] this [of M "hblk s" s]
  show "vmm_wf (s\<lparr>hblk := H\<rparr>) = vmm_wf s" "aspace (s\<lparr>hblk := H\<rparr>) = aspace s"
    "vmm_wf (s\<lparr>hmem := M\<rparr>) = vmm_wf s" "aspace (s\<lparr>hmem := M\<rparr>) = aspace s" by simp_all
qed

lemma heap_inv_retile:
  assumes inv: "heap_inv bs s" and "chain H 0 HS bs' 0" and "extent bs' = extent bs" and "bs' = [] \<longleftrightarrow> bs = []"
  shows "heap_inv bs' (s\<lparr>hblk := H\<rparr>)"
  using assms unfolding heap_inv_def by (simp add: fits_def chain_ptr_def)

lemma heap_defragment_inv:
  assumes inv: "heap_inv bs s"
  obtains s' where "heap_defragment s = Some s'" "heap_inv (coalesce bs) s'" "hmem s' = hmem s"
proof -
  note i = heap_invD [OF inv]
  obtain H where "defragment_from (chain_ptr HS bs) (hblk s) = Some H" "chain H 0 HS (coalesce bs) 0"
    using defragment_chain [OF i(2,3)] by blast
  with inv i(4) show thesis
    by (intro that [of "s\<lparr>hblk := H\<rparr>"]) (simp_all add: heap_defragment_def heap_inv_retile)
qed

text \<open>What a successful allocation of \<open>n\<close> bytes does to the heap.\<close>

definition allocated :: "nat \<Rightarrow> tile list \<Rightarrow> 'a heap_scheme \<Rightarrow> u32 \<Rightarrow> tile list \<Rightarrow> 'a heap_scheme \<Rightarrow> bool" where
  "allocated n bs s p bs' s' \<longleftrightarrow> heap_inv bs' s' \<and> p \<noteq> 0 \<and>
     (\<exists>m. n \<le> m \<and> (unat p, m) \<notin> live HS bs \<and> live HS bs' = insert (unat p, m) (live HS bs) \<and>
          unat p + m \<le> HS + extent bs') \<and>
     (\<forall>x. unat x < HS + extent bs \<longrightarrow> hmem s' x = hmem s x)"

lemma carve_inv:
  assumes inv: "heap_inv bs s" and fit: "fit_split (unat sz) bs = Some (pre, m, post)"
  defines "c \<equiv> word_of_nat (HS + extent pre)"
  shows "allocated (unat sz) bs s (c + sizeof_heap_block) (pre @ carve_tile (unat sz) m @ post)
           (s\<lparr>hblk := carve sz c (hblk s)\<rparr>)"
proof -
  note i = heap_invD [OF inv]
  have bs: "bs = pre @ (m, True) # post" and m: "unat sz \<le> m" using fit_split_Some [OF fit] by blast+
  let ?q = "HS + extent pre" and ?t = "carve_tile (unat sz) m"
  have fq: "fits ?q ((m, True) # post)" using i(2) by (simp add: fits_def bs)
  have mid: "chain (hblk s) (last_addr 0 HS pre) ?q ((m, True) # post) 0"
    using i(3) by (simp add: bs chain_append)
  note cv = carve_chain [OF fq mid m refl, folded c_def]
  note ct = carve_tile_facts(1) [OF m] carve_tile_facts(2)
  have "chain (carve sz c (hblk s)) 0 HS (pre @ ?t @ post) 0"
    by (rule chain_replace [OF i(2,3) [unfolded bs]]) (use cv ct in \<open>auto simp: ac_simps\<close>)
  then have inv': "heap_inv (pre @ ?t @ post) (s\<lparr>hblk := carve sz c (hblk s)\<rparr>)"
    by (rule heap_inv_retile [OF inv]) (use ct in \<open>auto simp: bs\<close>)
  have u: "unat (c + sizeof_heap_block) = ?q + 20"
  proof -
    have "unat c = ?q" unfolding c_def by (rule fits_addr(1) [OF fq])
    then show ?thesis using fq by (simp add: unat_word_ariths fits_def)
  qed
  then have nz: "c + sizeof_heap_block \<noteq> 0" by (metis add_is_0 unat_0 zero_neq_numeral)
  let ?n = "if unat sz + 20 < m then unat sz else m"
  have lv: "live HS (pre @ ?t @ post) = insert (?q + 20, ?n) (live HS bs)"
    using m by (auto simp: bs carve_tile_def add.assoc)
  have new: "(?q + 20, ?n) \<notin> live HS bs"
    using live_range [of "?q + 20" ?n HS pre] live_range [of "?q + 20" ?n "?q + 20 + m" post]
    by (auto simp: bs)
  have "?q + 20 + ?n \<le> HS + extent (pre @ ?t @ post)" using ct(1) m by simp
  with inv' nz lv new m show ?thesis unfolding allocated_def u by (intro conjI exI [of _ ?n]) auto
qed

lemma kmalloc_fit:
  assumes inv: "heap_inv bs s" and sz: "sz \<noteq> 0" and fit: "fit_split (unat sz) bs \<noteq> None"
  obtains p s' bs' where "kmalloc sz s = Some (p, s')" "allocated (unat sz) bs s p bs' s'"
proof -
  note i = heap_invD [OF inv]
  obtain pre m post where f: "fit_split (unat sz) bs = Some (pre, m, post)" using fit by auto
  let ?c = "word_of_nat (HS + extent pre) :: u32"
  have "find_fit sz (hblk s) (heap_head s) = Some ?c"
    using find_fit_eq [OF i(2,3), of sz] f by (simp add: i(4))
  moreover have "?c \<noteq> 0"
    using fits_addr(2) [of "HS + extent pre" m True post] i(2) fit_split_Some [OF f] by (simp add: fits_def)
  ultimately have "kmalloc sz s = Some (?c + sizeof_heap_block, s\<lparr>hblk := carve sz ?c (hblk s)\<rparr>)"
    using sz by (simp add: kmalloc.simps [of sz s])
  with carve_inv [OF inv f] show thesis by (rule that [rotated])
qed

lemma kmalloc_cases:
  assumes inv: "heap_inv bs s" and sz: "sz \<noteq> 0" and room: "HS + extent bs + unat sz + 40 + 4095 \<le> 0xFFC00000"
  obtains (ok) p s' bs' where "kmalloc sz s = Some (p, s')" "allocated (unat sz) bs s p bs' s'"
  | (oom) s' where "kmalloc sz s = Some (0, s')" "heap_inv (coalesce bs) s'" "hmem s' = hmem s"
      "\<And>m. (m, True) \<in> set (coalesce bs) \<Longrightarrow> m < unat sz"
proof (cases "fit_split (unat sz) bs")
  case (Some t)
  with kmalloc_fit [OF inv sz] ok show thesis by blast
next
  case None
  note i = heap_invD [OF inv]
  have ff: "find_fit sz (hblk s) (heap_head s) = Some 0"
    using find_fit_eq [OF i(2,3), of sz] None by (simp add: i(4))
  obtain s1 where s1: "heap_defragment s = Some s1" "heap_inv (coalesce bs) s1" "hmem s1 = hmem s"
    using heap_defragment_inv [OF inv] by blast
  note i1 = heap_invD [OF s1(2)]
  have same: "allocated n bs s p bs' s'" if "allocated n (coalesce bs) s1 p bs' s'" for n p bs' s'
    using that s1(3) by (simp add: allocated_def)
  have km: "kmalloc sz s = Option.bind (find_fit sz (hblk s1) (heap_head s1)) (\<lambda>c.
            if c \<noteq> 0 then Some (c + sizeof_heap_block, s1\<lparr>hblk := carve sz c (hblk s1)\<rparr>)
            else Option.bind (heap_expand (sz + sizeof_heap_block) s1) (\<lambda>(status, s2).
              if status \<noteq> KERNEL_OK then Some (0, s2) else kmalloc sz s2))"
    using sz ff s1(1) by (simp add: kmalloc.simps [of sz s])
  show thesis
  proof (cases "fit_split (unat sz) (coalesce bs)")
    case fit: (Some t)
    obtain p s' bs' where k: "kmalloc sz s1 = Some (p, s')" "allocated (unat sz) (coalesce bs) s1 p bs' s'"
      using kmalloc_fit [OF s1(2) sz] fit by blast
    obtain pre m post where t: "t = (pre, m, post)" by (cases t)
    let ?c = "word_of_nat (HS + extent pre) :: u32"
    have f1: "find_fit sz (hblk s1) (heap_head s1) = Some ?c"
      using find_fit_eq [OF i1(2,3), of sz] fit t by (simp add: i1(4))
    have "?c \<noteq> 0"
      using fits_addr(2) [of "HS + extent pre" m True post] i1(2) fit_split_Some [OF fit [unfolded t]]
      by (simp add: fits_def)
    then have "kmalloc sz s = Some (?c + sizeof_heap_block, s1\<lparr>hblk := carve sz ?c (hblk s1)\<rparr>)"
      using km f1 by simp
    with same [OF carve_inv [OF s1(2) fit [unfolded t]]] show thesis by (rule ok [rotated])
  next
    case nofit: None
    have f1: "find_fit sz (hblk s1) (heap_head s1) = Some 0"
      using find_fit_eq [OF i1(2,3), of sz] nofit by (simp add: i1(4))
    have km2: "kmalloc sz s = Option.bind (heap_expand (sz + sizeof_heap_block) s1) (\<lambda>(status, s2).
              if status \<noteq> KERNEL_OK then Some (0, s2) else kmalloc sz s2)"
      using km f1 by simp
    have u: "unat (sz + sizeof_heap_block) = unat sz + 20" using room by (simp add: unat_word_ariths)
    have small: "HS + extent (coalesce bs) + unat (sz + sizeof_heap_block) + 20 + 4095 \<le> 0xFFC00000"
      using room by (simp add: u)
    from s1(2) small show thesis
    proof (cases rule: heap_expand_cases)
      case a: (oom s2)
      with km2 s1(3) nofit show thesis by (intro oom [of s2]) (simp_all add: fit_split_None)
    next
      case grown: (ok s2)
      let ?A = "(unat (sz + sizeof_heap_block) + 20 + 4095) div 4096 * 4096"
      have "unat sz + 40 \<le> ?A"
        using dividend_less_div_times [of 4096 "unat sz + 40 + 4095"] by (simp add: u)
      then have "unat sz \<le> ?A - 20" by simp
      then have "fit_split (unat sz) (coalesce bs @ [(?A - 20, True)]) \<noteq> None"
        unfolding fit_split_None by (auto simp: not_less)
      from kmalloc_fit [OF grown(2) sz this] obtain p s' bs' where
        k: "kmalloc sz s2 = Some (p, s')" "allocated (unat sz) (coalesce bs @ [(?A - 20, True)]) s2 p bs' s'" by blast
      have "allocated (unat sz) (coalesce bs) s1 p bs' s'"
        using k(2) grown(3) by (auto simp: allocated_def)
      with same km2 grown(1) k(1) show thesis by (intro ok [of p s' bs']) simp_all
    qed
  qed
qed

lemma live_split:
  "(a, n) \<in> live p bs \<Longrightarrow> \<exists>pre post. bs = pre @ (n, False) # post \<and> a = p + extent pre + 20"
proof (induction p bs rule: live.induct)
  case (2 p sz fr bs)
  then consider "\<not> fr" "a = p + 20" "n = sz" | "(a, n) \<in> live (p + 20 + sz) bs" by (auto split: if_splits)
  then show ?case
  proof cases
    case 1
    then show ?thesis by (intro exI [of _ "[]"] exI [of _ bs]) simp
  next
    case 2
    with "2.IH" obtain pre post where "bs = pre @ (n, False) # post" "a = p + 20 + sz + extent pre + 20" by blast
    then show ?thesis by (intro exI [of _ "(sz, fr) # pre"] exI [of _ post]) simp
  qed
qed simp

lemma kfree_inv:
  assumes inv: "heap_inv bs s" and use: "(unat p, n) \<in> live HS bs"
  obtains bs' where "heap_inv bs' (kfree p s)" "live HS bs' = live HS bs - {(unat p, n)}"
    "extent bs' = extent bs" "hmem (kfree p s) = hmem s"
proof -
  note i = heap_invD [OF inv]
  obtain pre post where bs: "bs = pre @ (n, False) # post" and p: "unat p = HS + extent pre + 20"
    using live_split [OF use] by blast
  have "p = word_of_nat (HS + extent pre + 20)" using p by (metis of_nat_unat ucast_id)
  then obtain H where H: "kfree p s = s\<lparr>hblk := H\<rparr>" "chain H 0 HS (release_tiles pre n post) 0"
    using kfree_chain [OF i(2,3) [unfolded bs]] by metis
  note rel = release_tiles_facts [where pre = pre and sz = n and post = post]
  show thesis
  proof (rule that [of "release_tiles pre n post"])
    show "heap_inv (release_tiles pre n post) (kfree p s)"
      unfolding H(1) by (rule heap_inv_retile [OF inv H(2)]) (use rel in \<open>simp_all add: bs\<close>)
    show "live HS (release_tiles pre n post) = live HS bs - {(unat p, n)}"
      using rel(2) [of HS] by (simp only: bs p)
  qed (use rel H(1) in \<open>simp_all add: bs\<close>)
qed

text \<open>A block in use has a good header.\<close>

lemma live_header:
  assumes inv: "heap_inv bs s" and use: "(unat p, n) \<in> live HS bs"
  shows "hb_magic (hblk s (p - sizeof_heap_block)) = HEAP_MAGIC" "\<not> hb_free (hblk s (p - sizeof_heap_block))"
    "unat (hb_size (hblk s (p - sizeof_heap_block))) = n" "p \<noteq> 0"
proof -
  note i = heap_invD [OF inv]
  obtain pre post where bs: "bs = pre @ (n, False) # post" and p: "unat p = HS + extent pre + 20"
    using live_split [OF use] by blast
  let ?b = "word_of_nat (HS + extent pre) :: u32"
  have "p = word_of_nat (HS + extent pre + 20)" using p by (metis of_nat_unat ucast_id)
  then have b: "p - sizeof_heap_block = ?b" by simp
  have ch: "chain (hblk s) (last_addr 0 HS pre) (HS + extent pre) ((n, False) # post) 0"
    using i(3) by (simp add: bs chain_append)
  have "fits (HS + extent pre) ((n, False) # post)" using i(2) by (simp add: bs fits_def)
  with chain_head [OF ch] fits_addr(3)
  show "hb_magic (hblk s (p - sizeof_heap_block)) = HEAP_MAGIC" "\<not> hb_free (hblk s (p - sizeof_heap_block))"
    "unat (hb_size (hblk s (p - sizeof_heap_block))) = n" unfolding b by auto
  show "p \<noteq> 0" using p by (metis add_is_0 unat_0 zero_neq_numeral)
qed

lemma heap_inv_hmem [simp]: "heap_inv bs (s\<lparr>hmem := M\<rparr>) = heap_inv bs s"
  by (simp add: heap_inv_def)
text \<open>The payload of a block in use holds no header, so writing to it keeps the tiling.\<close>

lemma heap_zero_payload:
  assumes inv: "heap_inv bs s" and use: "(unat p, m) \<in> live HS bs" and n: "unat n \<le> m"
  shows "heap_inv bs (heap_zero p n s)"
proof -
  note i = heap_invD [OF inv]
  obtain pre post where bs: "bs = pre @ (m, False) # post" and p: "unat p = HS + extent pre + 20"
    using live_split [OF use] by blast
  have bound: "unat p + m \<le> HS + extent bs" "HS + extent bs \<le> 0xFFC00000"
    using live_range [OF use] i(2) by (simp_all add: fits_def)
  let ?H = "hblk (heap_zero p n s)"
  have same: "?H x = hblk s x" if "unat x < unat p \<or> unat p + m \<le> unat x" for x
  proof -
    have "\<not> x - p < n"
    proof (cases "unat x < unat p")
      case True
      then show ?thesis using outside_new_block [of x p n] bound n by simp
    next
      case False
      then have "unat (x - p) = unat x - unat p" by (simp add: unat_sub_small)
      then show ?thesis using that False n by (simp add: word_less_nat_alt)
    qed
    then show ?thesis by (simp add: heap_zero_def)
  qed
  have "chain ?H 0 HS bs 0"
  proof -
    let ?q = "HS + extent pre"
    have f: "fits HS pre" "fits ?q ((m, False) # post)" using i(2) by (simp_all add: bs fits_def)
    have c: "chain (hblk s) 0 HS pre (word_of_nat ?q)" "chain (hblk s) (last_addr 0 HS pre) ?q ((m, False) # post) 0"
      using i(3) by (simp_all add: bs chain_append)
    have "chain ?H 0 HS pre (word_of_nat ?q)"
      using c(1) chain_cong [OF f(1), of ?H "hblk s"] same p by simp
    moreover have "chain ?H (word_of_nat ?q) (?q + 20 + m) post 0 = chain (hblk s) (word_of_nat ?q) (?q + 20 + m) post 0"
      by (rule chain_cong [OF fits_Cons [OF f(2)]]) (use same p in simp)
    moreover have "?H (word_of_nat ?q) = hblk s (word_of_nat ?q)"
      by (rule same) (use p fits_addr(1) [OF f(2)] in simp)
    ultimately show ?thesis using c(2) unfolding bs chain_append by simp
  qed
  then have "heap_inv bs (s\<lparr>hblk := ?H\<rparr>)" by (rule heap_inv_retile [OF inv]) simp_all
  moreover have "heap_zero p n s = (s\<lparr>hblk := ?H\<rparr>)\<lparr>hmem := hmem (heap_zero p n s)\<rparr>" by (simp add: heap_zero_def)
  ultimately show ?thesis by (metis heap_inv_hmem)
qed

section \<open>The contract of dynamic memory\<close>

locale dynamic_memory =
  fixes inv :: "'s \<Rightarrow> bool"
    and used :: "'s \<Rightarrow> (nat \<times> nat) set"
    and room :: "u32 \<Rightarrow> 's \<Rightarrow> bool"
    and bytes :: "'s \<Rightarrow> u32 \<Rightarrow> u8"
    and alloc :: "u32 \<Rightarrow> 's \<Rightarrow> (u32 \<times> 's) option"
    and release :: "u32 \<Rightarrow> 's \<Rightarrow> 's"
  assumes used_disjoint: "\<lbrakk>inv s; (a, n) \<in> used s; (b, m) \<in> used s; (a, n) \<noteq> (b, m)\<rbrakk> \<Longrightarrow>
        a + n \<le> b \<or> b + m \<le> a"
    and alloc_spec: "\<lbrakk>inv s; sz \<noteq> 0; room sz s\<rbrakk> \<Longrightarrow> \<exists>p s'. alloc sz s = Some (p, s') \<and> inv s' \<and>
        (if p = 0 then used s' = used s
         else \<exists>m \<ge> unat sz. (unat p, m) \<notin> used s \<and> used s' = insert (unat p, m) (used s)) \<and>
        (\<forall>a n x. (a, n) \<in> used s \<longrightarrow> a \<le> unat x \<longrightarrow> unat x < a + n \<longrightarrow> bytes s' x = bytes s x)"
    and release_spec: "\<lbrakk>inv s; (unat p, n) \<in> used s\<rbrakk> \<Longrightarrow>
        inv (release p s) \<and> used (release p s) = used s - {(unat p, n)} \<and> bytes (release p s) = bytes s"
begin

text \<open>What is handed out overlaps nothing that is in use.\<close>

lemma alloc_disjoint:
  assumes "inv s" "sz \<noteq> 0" "room sz s" "alloc sz s = Some (p, s')" "p \<noteq> 0" "(a, n) \<in> used s"
  shows "unat p + unat sz \<le> a \<or> a + n \<le> unat p"
proof -
  obtain m where m: "unat sz \<le> m" "(unat p, m) \<notin> used s" "used s' = insert (unat p, m) (used s)" "inv s'"
    using alloc_spec [OF assms(1-3)] assms(4,5) by auto
  then have "(a, n) \<noteq> (unat p, m)" using assms(6) by blast
  with used_disjoint [OF m(4), of a n "unat p" m] m assms(6) show ?thesis by auto
qed

text \<open>Giving back what was just allocated restores what is in use.\<close>

lemma alloc_release:
  assumes "inv s" "sz \<noteq> 0" "room sz s" "alloc sz s = Some (p, s')" "p \<noteq> 0"
  shows "inv (release p s')" "used (release p s') = used s"
proof -
  obtain m where m: "(unat p, m) \<notin> used s" "used s' = insert (unat p, m) (used s)" "inv s'"
    using alloc_spec [OF assms(1-3)] assms(4,5) by auto
  then have "inv (release p s') \<and> used (release p s') = used s' - {(unat p, m)}"
    using release_spec [OF m(3), of p m] by blast
  with m show "inv (release p s')" "used (release p s') = used s" by auto
qed

end

text \<open>The tiling is determined by memory, so the blocks in use are a function of the state.\<close>

lemma chain_unique:
  assumes "fits p bs" "fits p cs" "chain H pv p bs 0" "chain H pv p cs 0" "bs = [] \<longleftrightarrow> cs = []"
  shows "bs = cs"
  using assms
proof (induction p bs arbitrary: pv cs rule: live.induct)
  case (2 p sz fr bs)
  then obtain sz' fr' cs' where cs: "cs = (sz', fr') # cs'" by (cases cs) auto
  note a = fits_addr [OF "2.prems"(1)] and a' = fits_addr [OF "2.prems"(2) [unfolded cs]]
  note h = chain_head [OF "2.prems"(3)] and h' = chain_head [OF "2.prems"(4) [unfolded cs]]
  have eq: "sz' = sz" "fr' = fr" using h(3,4) h'(3,4) a(3) a'(3) by auto
  have nz: "word_of_nat (p + 20 + sz) \<noteq> (0 :: u32)" using a(4) by (metis add_is_0 unat_0 zero_neq_numeral)
  then have "bs = [] \<longleftrightarrow> cs' = []" using h(1) h'(1) by (auto simp: eq simp del: of_nat_add split: if_splits)
  then have "bs = cs'"
    using "2.IH" [of cs' "word_of_nat p"] "2.prems" fits_Cons by (auto simp: cs eq)
  with cs eq show ?case by simp
qed simp

lemma heap_inv_unique: "heap_inv bs s \<Longrightarrow> heap_inv cs s \<Longrightarrow> bs = cs"
  by (rule chain_unique [of HS bs cs "hblk s" 0]) (auto simp: heap_inv_def chain_ptr_def split: if_splits)

definition heap_wf :: "'a heap_scheme \<Rightarrow> bool" where
  "heap_wf s \<longleftrightarrow> (\<exists>bs. heap_inv bs s)"

text \<open>The payloads in use, as pairs of address and size.\<close>

definition heap_used :: "'a heap_scheme \<Rightarrow> (nat \<times> nat) set" where
  "heap_used s = {b. \<exists>bs. heap_inv bs s \<and> b \<in> live HS bs}"

definition heap_room :: "u32 \<Rightarrow> 'a heap_scheme \<Rightarrow> bool" where
  "heap_room sz s \<longleftrightarrow> unat (heap_current_end s) + unat sz + 40 + 4095 \<le> 0xFFC00000"

lemma heap_used_eq: "heap_inv bs s \<Longrightarrow> heap_used s = live HS bs"
  using heap_inv_unique by (auto simp: heap_used_def)

lemma kmalloc_spec:
  assumes wf: "heap_wf s" and sz: "sz \<noteq> 0" and room: "heap_room sz s"
  shows "\<exists>p s'. kmalloc sz s = Some (p, s') \<and> heap_wf s' \<and>
    (if p = 0 then heap_used s' = heap_used s
     else \<exists>m \<ge> unat sz. (unat p, m) \<notin> heap_used s \<and> heap_used s' = insert (unat p, m) (heap_used s)) \<and>
    (\<forall>a n x. (a, n) \<in> heap_used s \<longrightarrow> a \<le> unat x \<longrightarrow> unat x < a + n \<longrightarrow> hmem s' x = hmem s x)"
proof -
  obtain bs where inv: "heap_inv bs s" using wf by (auto simp: heap_wf_def)
  note used = heap_used_eq [OF inv]
  have room': "HS + extent bs + unat sz + 40 + 4095 \<le> 0xFFC00000"
    using room heap_invD(5) [OF inv] by (simp add: heap_room_def)
  have inside: "unat x < HS + extent bs" if "(a, n) \<in> live HS bs" "unat x < a + n" for a n and x :: u32
    using live_range [OF that(1)] that(2) by simp
  from inv sz room' show ?thesis
  proof (cases rule: kmalloc_cases)
    case (ok p s' bs')
    then have inv': "heap_inv bs' s'" by (simp add: allocated_def)
    show ?thesis
      by (intro exI [of _ p] exI [of _ s'])
         (use ok inv' inside in \<open>auto simp: allocated_def used heap_used_eq heap_wf_def\<close>)
  next
    case (oom s')
    then show ?thesis by (auto simp: used heap_used_eq heap_wf_def)
  qed
qed

lemma kfree_spec:
  assumes wf: "heap_wf s" and use: "(unat p, n) \<in> heap_used s"
  shows "heap_wf (kfree p s) \<and> heap_used (kfree p s) = heap_used s - {(unat p, n)} \<and> hmem (kfree p s) = hmem s"
proof -
  obtain bs where inv: "heap_inv bs s" using wf by (auto simp: heap_wf_def)
  note used = heap_used_eq [OF inv]
  obtain bs' where "heap_inv bs' (kfree p s)" "live HS bs' = live HS bs - {(unat p, n)}" "hmem (kfree p s) = hmem s"
    using kfree_inv [OF inv] use used by metis
  then show ?thesis using used heap_used_eq heap_wf_def by metis
qed

interpretation heap: dynamic_memory heap_wf heap_used heap_room hmem kmalloc kfree
proof
  fix s :: "'a heap_scheme" and a n b m
  assume wf: "heap_wf s" and "(a, n) \<in> heap_used s" "(b, m) \<in> heap_used s" "(a, n) \<noteq> (b, m)"
  moreover from wf obtain bs where inv: "heap_inv bs s" by (auto simp: heap_wf_def)
  ultimately show "a + n \<le> b \<or> b + m \<le> a"
    using live_disjoint [of a n HS bs b m] by (auto simp: heap_used_eq [OF inv])
qed (rule kmalloc_spec kfree_spec; assumption)+

lemma heap_wf_hmem [simp]: "heap_wf (s\<lparr>hmem := M\<rparr>) = heap_wf s" "heap_used (s\<lparr>hmem := M\<rparr>) = heap_used s"
  by (simp_all add: heap_wf_def heap_used_def)

lemma heap_zero_wf:
  assumes wf: "heap_wf s" and use: "(unat p, m) \<in> heap_used s" and n: "unat n \<le> m"
  shows "heap_wf (heap_zero p n s)" "heap_used (heap_zero p n s) = heap_used s"
proof -
  obtain bs where inv: "heap_inv bs s" using wf by (auto simp: heap_wf_def)
  have "heap_inv bs (heap_zero p n s)"
    by (rule heap_zero_payload [OF inv _ n]) (use use heap_used_eq [OF inv] in simp)
  with heap_used_eq [OF inv] show "heap_wf (heap_zero p n s)" "heap_used (heap_zero p n s) = heap_used s"
    by (auto simp: heap_wf_def heap_used_eq)
qed

lemma used_bounds:
  assumes wf: "heap_wf s" and use: "(a, n) \<in> heap_used s"
  shows "HS + 20 \<le> a" "a + n \<le> 0xFFC00000" "a + n \<le> unat (heap_current_end s)"
proof -
  obtain bs where inv: "heap_inv bs s" using wf by (auto simp: heap_wf_def)
  note i = heap_invD [OF inv]
  have "(a, n) \<in> live HS bs" using use heap_used_eq [OF inv] by simp
  from live_range [OF this] i(2,5) show "HS + 20 \<le> a" "a + n \<le> 0xFFC00000" "a + n \<le> unat (heap_current_end s)"
    by (simp_all add: fits_def)
qed

lemma used_header:
  assumes wf: "heap_wf s" and use: "(unat p, n) \<in> heap_used s"
  shows "hb_magic (hblk s (p - sizeof_heap_block)) = HEAP_MAGIC" "\<not> hb_free (hblk s (p - sizeof_heap_block))"
    "unat (hb_size (hblk s (p - sizeof_heap_block))) = n" "p \<noteq> 0"
proof -
  obtain bs where inv: "heap_inv bs s" using wf by (auto simp: heap_wf_def)
  have "(unat p, n) \<in> live HS bs" using use heap_used_eq [OF inv] by simp
  from live_header [OF inv this]
  show "hb_magic (hblk s (p - sizeof_heap_block)) = HEAP_MAGIC" "\<not> hb_free (hblk s (p - sizeof_heap_block))"
    "unat (hb_size (hblk s (p - sizeof_heap_block))) = n" "p \<noteq> 0" by blast+
qed

section \<open>Properties\<close>

text \<open>The machine of theory \<open>Vmm\<close> with an empty heap, for concrete instances.\<close>

definition empty_heap :: heap where
  "empty_heap = vmm.extend small_machine (heap.fields (\<lambda>_. null_block) (\<lambda>_. 0) 0 HEAP_START)"

lemma empty_heap_wf: "heap_wf empty_heap" "heap_used empty_heap = {}"
proof -
  have f: "mem empty_heap = mem small_machine" "kpd empty_heap = kpd small_machine" "cr3 empty_heap = cr3 small_machine"
    "paging empty_heap = paging small_machine" "bits empty_heap = bits small_machine"
    "total_pages empty_heap = total_pages small_machine" "bm_size empty_heap = bm_size small_machine"
    "free_pages empty_heap = free_pages small_machine" "used_pages empty_heap = used_pages small_machine"
    "heap_head empty_heap = 0" "heap_current_end empty_heap = HEAP_START"
    by (simp_all add: empty_heap_def small_machine_def vmm.defs heap.defs)
  have "vmm_wf empty_heap = vmm_wf small_machine"
    by (simp add: vmm_wf_def pmm_inv_def free_frames_def page_used_def bitmap_wf_def capacity_def
        has_table_def table_def pde_def frame_taken_def f)
  then have inv: "heap_inv [] empty_heap"
    using small_machine_wf by (auto simp: heap_inv_def fits_def chain_ptr_def f in_run_def)
  then show "heap_wf empty_heap" "heap_used empty_heap = {}"
    by (auto simp: heap_wf_def heap_used_eq)
qed

declare last_block.simps [code] defragment_from.simps [code] find_fit.simps [code] kmalloc.simps [code]
  sum_blocks.simps [code] for_ret.simps [code]

lemma kmalloc_empty_heap: "map_option fst (kmalloc 100 empty_heap) = Some 0xD0000014"
  by code_simp

lemma empty_heap_room: "sz \<le> 0x1000 \<Longrightarrow> heap_room sz empty_heap"
  by (simp add: heap_room_def empty_heap_def vmm.defs heap.defs small_machine_def word_le_nat_alt)

text \<open>After one allocation.\<close>

lemma one_block:
  obtains s m where "kmalloc 100 empty_heap = Some (0xD0000014, s)" "heap_wf s" "heap_used s = {(0xD0000014, m)}" "100 \<le> m"
proof -
  obtain s where s: "kmalloc 100 empty_heap = Some (0xD0000014, s)" using kmalloc_empty_heap by auto
  with kmalloc_spec [OF empty_heap_wf(1), of 100] empty_heap_room [of 100] empty_heap_wf(2)
  show thesis by (auto intro: that)
qed

text \<open>Property C3. \<^verbatim>\<open>kmalloc\<close> returns for every request that fits below the recursive window. It either
  returns a block of at least the size asked for that overlaps no block in use, or \<^verbatim>\<open>NULL\<close>; in both
  cases the heap stays well formed and the blocks in use keep their place and their contents.
\<close>

theorem kmalloc_correct:
  assumes "heap_wf s" and "sz \<noteq> 0" and "heap_room sz s"
  shows "\<exists>p s'. kmalloc sz s = Some (p, s') \<and> heap_wf s' \<and>
    (if p = 0 then heap_used s' = heap_used s
     else (\<exists>m \<ge> unat sz. heap_used s' = insert (unat p, m) (heap_used s)) \<and>
          (\<forall>(a, n) \<in> heap_used s. unat p + unat sz \<le> a \<or> a + n \<le> unat p)) \<and>
    (\<forall>a n x. (a, n) \<in> heap_used s \<longrightarrow> a \<le> unat x \<longrightarrow> unat x < a + n \<longrightarrow> hmem s' x = hmem s x)"
proof -
  obtain p s' where ret: "kmalloc sz s = Some (p, s')" "heap_wf s'"
    "if p = 0 then heap_used s' = heap_used s
     else \<exists>m \<ge> unat sz. (unat p, m) \<notin> heap_used s \<and> heap_used s' = insert (unat p, m) (heap_used s)"
    "\<forall>a n x. (a, n) \<in> heap_used s \<longrightarrow> a \<le> unat x \<longrightarrow> unat x < a + n \<longrightarrow> hmem s' x = hmem s x"
    using kmalloc_spec [OF assms] by blast
  with heap.alloc_disjoint [OF assms ret(1)] show ?thesis by (intro exI [of _ p] exI [of _ s']) auto
qed

theorem kmalloc_correct_witness:
  "heap_room 100 empty_heap \<and> (\<exists>p s'. kmalloc 100 empty_heap = Some (p, s') \<and> heap_wf s')"
  using kmalloc_correct [OF empty_heap_wf(1), of 100] empty_heap_room [of 100] by auto



text \<open>
  \<^verbatim>\<open>kmalloc\<close> followed by \<^verbatim>\<open>kfree\<close> restores the blocks in use.
\<close>

theorem kmalloc_kfree_roundtrip:
  assumes "heap_wf s" and "sz \<noteq> 0" and "heap_room sz s" and "kmalloc sz s = Some (p, s')" and "p \<noteq> 0"
  shows "heap_wf (kfree p s') \<and> heap_used (kfree p s') = heap_used s"
  using heap.alloc_release [OF assms] by blast

theorem kmalloc_kfree_roundtrip_witness:
  "\<exists>s. kmalloc 100 empty_heap = Some (0xD0000014, s) \<and> heap_used (kfree 0xD0000014 s) = heap_used empty_heap"
proof -
  obtain s where s: "kmalloc 100 empty_heap = Some (0xD0000014, s)" using kmalloc_empty_heap by auto
  with kmalloc_kfree_roundtrip [OF empty_heap_wf(1) _ _ s] empty_heap_room [of 100] show ?thesis by simp
qed

text \<open>
  \<^verbatim>\<open>kcalloc\<close> returns, and what it returns is zero in every one of the bytes asked for; the
  blocks in use keep their contents. The hypothesis \<open>unat num * unat sz < 2 ^ 32\<close> is needed: the
  code does not check the product for overflow.
\<close>

theorem kcalloc_zeroed:
  assumes wf: "heap_wf s" and nz: "num * sz \<noteq> 0" and room: "heap_room (num * sz) s"
    and fits: "unat num * unat sz < 2 ^ 32"
  shows "\<exists>p s'. kcalloc num sz s = Some (p, s') \<and> heap_wf s' \<and>
    (p = 0 \<longrightarrow> heap_used s' = heap_used s) \<and>
    (p \<noteq> 0 \<longrightarrow> (\<exists>m \<ge> unat num * unat sz. heap_used s' = insert (unat p, m) (heap_used s)) \<and>
        (\<forall>k. unat k < unat num * unat sz \<longrightarrow> hmem s' (p + k) = 0)) \<and>
    (\<forall>a n x. (a, n) \<in> heap_used s \<longrightarrow> a \<le> unat x \<longrightarrow> unat x < a + n \<longrightarrow> hmem s' x = hmem s x)"
proof -
  have total: "unat (num * sz) = unat num * unat sz" using fits by (simp add: unat_word_ariths)
  obtain p s1 where ret: "kmalloc (num * sz) s = Some (p, s1)" and wf1: "heap_wf s1"
    and used: "if p = 0 then heap_used s1 = heap_used s
     else \<exists>m \<ge> unat (num * sz). (unat p, m) \<notin> heap_used s \<and> heap_used s1 = insert (unat p, m) (heap_used s)"
    and mem: "\<forall>a n x. (a, n) \<in> heap_used s \<longrightarrow> a \<le> unat x \<longrightarrow> unat x < a + n \<longrightarrow> hmem s1 x = hmem s x"
    using kmalloc_spec [OF wf nz room] by blast
  show ?thesis
  proof (cases "p = 0")
    case True
    then have "kcalloc num sz s = Some (0, s1)" using ret nz by (simp add: kcalloc_def Let_def)
    with True wf1 used mem show ?thesis by auto
  next
    case False
    let ?s2 = "heap_zero p (num * sz) s1"
    have kc: "kcalloc num sz s = Some (p, ?s2)" using ret nz False by (simp add: kcalloc_def Let_def)
    obtain m where m: "unat (num * sz) \<le> m" "heap_used s1 = insert (unat p, m) (heap_used s)"
      using used False by auto
    have z: "heap_wf ?s2" "heap_used ?s2 = heap_used s1"
      using heap_zero_wf [OF wf1 _ m(1)] m(2) by blast+
    have zero: "hmem ?s2 (p + k) = 0" if "unat k < unat num * unat sz" for k
      using that total by (simp add: heap_zero_def word_less_nat_alt)
    have keep: "hmem ?s2 x = hmem s x" if b: "(a, n) \<in> heap_used s" "a \<le> unat x" "unat x < a + n" for a n x
    proof -
      have "unat p + unat (num * sz) \<le> a \<or> a + n \<le> unat p"
        by (rule heap.alloc_disjoint [OF wf nz room ret False b(1)])
      moreover have "unat p + m \<le> 0xFFC00000" using used_bounds(2) [OF wf1] m(2) by blast
      ultimately have "\<not> x - p < num * sz"
      proof (elim disjE)
        assume "unat p + unat (num * sz) \<le> a"
        then show ?thesis using b(2) by (simp add: word_less_nat_alt unat_sub_small)
      next
        assume "a + n \<le> unat p"
        then show ?thesis
          using outside_new_block(1) [of x p "num * sz"] b(3) m(1) \<open>unat p + m \<le> 0xFFC00000\<close> by simp
      qed
      then show ?thesis using mem b by (simp add: heap_zero_def)
    qed
    show ?thesis
      by (intro exI [of _ p] exI [of _ ?s2]) (use kc z m total zero keep False in auto)
  qed
qed

theorem kcalloc_zeroed_witness:
  "\<exists>p s'. kcalloc 10 10 empty_heap = Some (p, s') \<and> heap_wf s' \<and> (p \<noteq> 0 \<longrightarrow> hmem s' (p + 99) = 0)"
  using kcalloc_zeroed [OF empty_heap_wf(1), of 10 10] empty_heap_room [of 100] by auto



text \<open>
  \<^verbatim>\<open>heap_init\<close> returns; on success the heap is well formed and nothing is in use. On failure it is
  well formed too (and empty), so that later allocations can try again.
\<close>

theorem heap_init_correct:
  assumes "vmm_wf s"
  shows "\<exists>st s'. heap_init s = Some (st, s') \<and> heap_wf s' \<and> heap_used s' = {} \<and>
           st \<in> {KERNEL_OK, KERNEL_OUT_OF_MEMORY} \<and>
           (st = KERNEL_OK \<longrightarrow> heap_get_free_size s' = Some (4 * 1024 * 1024 + 4096 - 20))"
proof -
  let ?s0 = "s\<lparr>heap_head := 0, heap_current_end := HEAP_START\<rparr>"
  have "vmm_wf ?s0 = vmm_wf s"
    by (simp add: vmm_wf_def pmm_inv_def free_frames_def page_used_def bitmap_wf_def capacity_def
        has_table_def table_def pde_def frame_taken_def)
  then have inv: "heap_inv [] ?s0"
    using assms by (auto simp: heap_inv_def fits_def chain_ptr_def in_run_def)
  have small: "HS + extent [] + unat INITIAL_HEAP_SIZE + 20 + 4095 \<le> 0xFFC00000" by simp
  from inv small show ?thesis
  proof (cases rule: heap_expand_cases)
    case (oom s')
    then have "heap_used s' = {}" by (simp add: heap_used_eq)
    with oom show ?thesis by (auto simp: heap_init_def heap_wf_def)
  next
    case (ok s')
    let ?bs = "[(4198380, True)] :: tile list"
    have bs: "heap_inv ?bs s'" using ok(2) by simp
    then have "heap_used s' = {}" by (simp add: heap_used_eq)
    moreover have "heap_get_free_size s' = Some 4198380"
      using heap_invD(3,4) [OF bs] by (simp add: heap_get_free_size_def sum_blocks.simps)
    ultimately show ?thesis using ok(1) bs by (auto simp: heap_init_def heap_wf_def)
  qed
qed

theorem heap_init_correct_witness:
  "\<exists>st s'. heap_init empty_heap = Some (st, s') \<and> heap_wf s' \<and> heap_used s' = {}"
proof -
  have "vmm_wf empty_heap" using empty_heap_wf(1) heap_invD(1) by (auto simp: heap_wf_def)
  from heap_init_correct [OF this] show ?thesis by blast
qed

end
