(* ===== verification/Vma.thy ===== *)
theory Vma
  imports Heap
begin

text \<open>
  Virtual memory areas, \<^verbatim>\<open>src/mm/vma.c\<close> and \<^verbatim>\<open>include/mm/vma.h\<close>: the sorted singly linked list of areas of
  an address space, on top of the heap. The record \<open>vma_state\<close> extends the heap with a typed view of
  the blocks that hold a \<^verbatim>\<open>vm_area_struct\<close> or an \<^verbatim>\<open>mm_struct\<close>: \<open>areas p\<close> and \<open>mms p\<close> are the structures
  at address \<open>p\<close>. Freeing a block leaves the view as it is, so that a use after free reads the old
  contents. Loops over \<^verbatim>\<open>vm_next\<close> are partial functions; \<open>None\<close> is "does not return" or, from the
  operations of \<open>Vmm\<close>, a page fault. \<^verbatim>\<open>unsigned long\<close> has 32 bits on this target. The debugging output
  of \<^verbatim>\<open>dump_mmap\<close> is not modelled.
\<close>

section \<open>State and operations\<close>

record vm_area_struct =
  vm_start :: u32
  vm_end :: u32
  vm_pgoff :: u32
  vm_flags :: u32
  vm_next :: u32

record mm_struct =
  mmap :: u32
  map_count :: u32

record vma_state = heap +
  areas :: "u32 \<Rightarrow> vm_area_struct"
  mms :: "u32 \<Rightarrow> mm_struct"

abbreviation VM_ANON :: u32 where "VM_ANON \<equiv> push_bit 4 1"
abbreviation VM_RWXS :: u32 where "VM_RWXS \<equiv> push_bit 0 1 OR push_bit 1 1 OR push_bit 2 1 OR push_bit 3 1"
abbreviation VM_MAP_IMMEDIATE :: u32 where "VM_MAP_IMMEDIATE \<equiv> push_bit 16 1"
abbreviation sizeof_mm_struct :: u32 where "sizeof_mm_struct \<equiv> 8"
abbreviation sizeof_vm_area_struct :: u32 where "sizeof_vm_area_struct \<equiv> 20"

definition null_area :: vm_area_struct where
  "null_area = \<lparr>vm_start = 0, vm_end = 0, vm_pgoff = 0, vm_flags = 0, vm_next = 0\<rparr>"

text \<open>\<^verbatim>\<open>PHYS_PFN\<close> and the pages an area spans.\<close>

definition PHYS_PFN :: "u32 \<Rightarrow> u32" where
  "PHYS_PFN addr = drop_bit 12 addr"

definition vma_pages :: "vm_area_struct \<Rightarrow> u32" where
  "vma_pages v = drop_bit 12 (vm_end v - vm_start v)"

text \<open>A field update through a pointer.\<close>

definition set_area :: "u32 \<Rightarrow> (vm_area_struct \<Rightarrow> vm_area_struct) \<Rightarrow> 'a vma_state_scheme \<Rightarrow> 'a vma_state_scheme" where
  "set_area a f s = s\<lparr>areas := (areas s)(a := f (areas s a))\<rparr>"

definition set_mm :: "u32 \<Rightarrow> (mm_struct \<Rightarrow> mm_struct) \<Rightarrow> 'a vma_state_scheme \<Rightarrow> 'a vma_state_scheme" where
  "set_mm mm f s = s\<lparr>mms := (mms s)(mm := f (mms s mm))\<rparr>"

abbreviation SEARCH_START :: u32 where "SEARCH_START \<equiv> 0x20000000"
abbreviation SEARCH_END :: u32 where "SEARCH_END \<equiv> 0xF0000000"

text \<open>The walk of \<^verbatim>\<open>unmapped_area\<close>: \<open>addr\<close> is the candidate, 0 the failure.\<close>

partial_function (option) gap_scan :: "u32 \<Rightarrow> (u32 \<Rightarrow> vm_area_struct) \<Rightarrow> u32 \<Rightarrow> u32 \<Rightarrow> u32 option" where
  "gap_scan need A v addr =
     (if v = 0 then Some (if addr + need < SEARCH_END then addr else 0)
      else if addr < vm_start (A v) \<and> addr \<le> vm_start (A v) \<and> need \<le> vm_start (A v) - addr then Some addr
      else let addr' = (if addr < vm_end (A v) then ALIGN_UP (vm_end (A v)) PAGE_SIZE else addr)
           in if SEARCH_END \<le> addr' + need then Some 0
              else gap_scan need A (vm_next (A v)) addr')"

definition unmapped_area :: "u32 \<Rightarrow> u32 \<Rightarrow> 'a vma_state_scheme \<Rightarrow> u32 option" where
  "unmapped_area mm len s =
     (if mm = 0 \<or> len = 0 then Some 0
      else let need = ALIGN_UP len PAGE_SIZE; v = mmap (mms s mm)
           in if v = 0 then Some (if SEARCH_START + need < SEARCH_END then SEARCH_START else 0)
              else gap_scan need (areas s) v SEARCH_START)"

definition mm_create :: "'a vma_state_scheme \<Rightarrow> (u32 \<times> 'a vma_state_scheme) option" where
  "mm_create s =
     map_option (\<lambda>(mm, s1). if mm = 0 then (0, s1) else (mm, set_mm mm (\<lambda>_. \<lparr>mmap = 0, map_count = 0\<rparr>) s1))
       (kmalloc sizeof_mm_struct s)"

definition vm_area_alloc :: "'a vma_state_scheme \<Rightarrow> (u32 \<times> 'a vma_state_scheme) option" where
  "vm_area_alloc s =
     map_option (\<lambda>(v, s1). if v = 0 then (0, s1)
                           else (v, set_area v (\<lambda>_. null_area) (heap_zero v sizeof_vm_area_struct s1)))
       (kmalloc sizeof_vm_area_struct s)"

definition vm_area_free :: "u32 \<Rightarrow> 'a vma_state_scheme \<Rightarrow> 'a vma_state_scheme" where
  "vm_area_free v s = (if v = 0 then s else kfree v s)"

text \<open>The loop that \<^verbatim>\<open>mm_destroy\<close> and \<^verbatim>\<open>munmap_range\<close> run over the pages of an area.\<close>

definition unmap_area :: "u32 \<Rightarrow> 'a vma_state_scheme \<Rightarrow> 'a vma_state_scheme option" where
  "unmap_area v s = unmap_ignoring (vm_start (areas s v)) (vma_pages (areas s v)) s"

partial_function (option) destroy_from :: "u32 \<Rightarrow> 'a vma_state_scheme \<Rightarrow> 'a vma_state_scheme option" where
  "destroy_from v s =
     (if v = 0 then Some s
      else let nx = vm_next (areas s v)
           in Option.bind (unmap_area v s) (\<lambda>s1. destroy_from nx (vm_area_free v s1)))"

definition mm_destroy :: "u32 \<Rightarrow> 'a vma_state_scheme \<Rightarrow> 'a vma_state_scheme option" where
  "mm_destroy mm s =
     (if mm = 0 then Some s else map_option (kfree mm) (destroy_from (mmap (mms s mm)) s))"

partial_function (option) find_from :: "(u32 \<Rightarrow> vm_area_struct) \<Rightarrow> u32 \<Rightarrow> u32 \<Rightarrow> u32 option" where
  "find_from A addr v =
     (if v = 0 then Some 0
      else if addr < vm_end (A v) then Some v
      else find_from A addr (vm_next (A v)))"

definition find_vma :: "u32 \<Rightarrow> u32 \<Rightarrow> 'a vma_state_scheme \<Rightarrow> u32 option" where
  "find_vma mm addr s = (if mm = 0 then Some 0 else find_from (areas s) addr (mmap (mms s mm)))"

text \<open>The result and \<^verbatim>\<open>*prevp\<close>.\<close>

partial_function (option) find_prev_from ::
    "(u32 \<Rightarrow> vm_area_struct) \<Rightarrow> u32 \<Rightarrow> u32 \<Rightarrow> u32 \<Rightarrow> (u32 \<times> u32) option" where
  "find_prev_from A addr prev v =
     (if v = 0 then Some (0, prev)
      else if addr < vm_end (A v) then Some (v, prev)
      else find_prev_from A addr v (vm_next (A v)))"

definition find_vma_prev :: "u32 \<Rightarrow> u32 \<Rightarrow> 'a vma_state_scheme \<Rightarrow> (u32 \<times> u32) option" where
  "find_vma_prev mm addr s =
     (if mm = 0 then Some (0, 0) else find_prev_from (areas s) addr 0 (mmap (mms s mm)))"

partial_function (option) insert_scan ::
    "(u32 \<Rightarrow> vm_area_struct) \<Rightarrow> u32 \<Rightarrow> u32 \<Rightarrow> u32 \<Rightarrow> (u32 \<times> u32) option" where
  "insert_scan A start prev cur =
     (if cur \<noteq> 0 \<and> vm_start (A cur) < start then insert_scan A start cur (vm_next (A cur))
      else Some (prev, cur))"

text \<open>\<open>True\<close> is the return value 0, \<open>False\<close> is -1.\<close>

definition insert_vm_struct :: "u32 \<Rightarrow> u32 \<Rightarrow> 'a vma_state_scheme \<Rightarrow> (bool \<times> 'a vma_state_scheme) option" where
  "insert_vm_struct mm vma s =
     (if mm = 0 \<or> vma = 0 then Some (False, s)
      else if vm_end (areas s vma) \<le> vm_start (areas s vma) then Some (False, s)
      else if mmap (mms s mm) = 0
      then Some (True, set_mm mm (\<lambda>m. m\<lparr>mmap := vma, map_count := map_count m + 1\<rparr>)
                         (set_area vma (\<lambda>v. v\<lparr>vm_next := 0\<rparr>) s))
      else map_option (\<lambda>(prev, cur).
        if prev \<noteq> 0 \<and> vm_start (areas s vma) < vm_end (areas s prev) then (False, s)
        else if cur \<noteq> 0 \<and> vm_start (areas s cur) < vm_end (areas s vma) then (False, s)
        else if prev = 0
        then let s1 = set_area vma (\<lambda>v. v\<lparr>vm_next := mmap (mms s mm)\<rparr>) s;
                 s2 = set_mm mm (\<lambda>m. m\<lparr>mmap := vma\<rparr>) s1
             in if vm_start (areas s2 (mmap (mms s2 mm))) < vm_end (areas s2 vma) then (False, s2)
                else (True, set_mm mm (\<lambda>m. m\<lparr>map_count := map_count m + 1\<rparr>) s2)
        else let s1 = set_area vma (\<lambda>v. v\<lparr>vm_next := vm_next (areas s prev)\<rparr>) s;
                 s2 = set_area prev (\<lambda>v. v\<lparr>vm_next := vma\<rparr>) s1
             in (True, set_mm mm (\<lambda>m. m\<lparr>map_count := map_count m + 1\<rparr>) s2))
       (insert_scan (areas s) (vm_start (areas s vma)) 0 (mmap (mms s mm))))"

text \<open>The search of \<^verbatim>\<open>remove_vm_struct\<close>: the predecessor of \<open>vma\<close>, or \<open>None\<close> inside when it is not linked.\<close>

partial_function (option) remove_scan ::
    "(u32 \<Rightarrow> vm_area_struct) \<Rightarrow> u32 \<Rightarrow> u32 \<Rightarrow> u32 \<Rightarrow> u32 option option" where
  "remove_scan A vma prev cur =
     (if cur = 0 then Some None
      else if cur = vma then Some (Some prev)
      else remove_scan A vma cur (vm_next (A cur)))"

definition remove_vm_struct :: "u32 \<Rightarrow> u32 \<Rightarrow> 'a vma_state_scheme \<Rightarrow> 'a vma_state_scheme option" where
  "remove_vm_struct mm vma s =
     (if mm = 0 \<or> vma = 0 then Some s
      else map_option (\<lambda>r. case r of
             None \<Rightarrow> s
           | Some prev \<Rightarrow>
               let nx = vm_next (areas s vma);
                   s1 = (if prev = 0 then set_mm mm (\<lambda>m. m\<lparr>mmap := nx\<rparr>) s
                         else set_area prev (\<lambda>v. v\<lparr>vm_next := nx\<rparr>) s)
               in set_area vma (\<lambda>v. v\<lparr>vm_next := 0\<rparr>) (set_mm mm (\<lambda>m. m\<lparr>map_count := map_count m - 1\<rparr>) s1))
        (remove_scan (areas s) vma 0 (mmap (mms s mm))))"

definition split_vma_at :: "u32 \<Rightarrow> u32 \<Rightarrow> u32 \<Rightarrow> 'a vma_state_scheme \<Rightarrow> (u32 \<times> 'a vma_state_scheme) option" where
  "split_vma_at mm vma addr s =
     (if mm = 0 \<or> vma = 0 then Some (0, s)
      else if addr \<le> vm_start (areas s vma) \<or> vm_end (areas s vma) \<le> addr then Some (0, s)
      else map_option (\<lambda>(upper, s1).
        if upper = 0 then (0, s1)
        else let v = areas s1 vma;
                 s2 = set_area upper (\<lambda>u. u\<lparr>vm_flags := vm_flags v,
                        vm_pgoff := vm_pgoff v + PHYS_PFN (addr - vm_start v),
                        vm_start := addr, vm_end := vm_end v\<rparr>) s1;
                 s3 = set_area vma (\<lambda>w. w\<lparr>vm_end := addr\<rparr>) s2;
                 s4 = set_area upper (\<lambda>u. u\<lparr>vm_next := vm_next (areas s3 vma)\<rparr>) s3;
                 s5 = set_area vma (\<lambda>w. w\<lparr>vm_next := upper\<rparr>) s4
             in (upper, set_mm mm (\<lambda>m. m\<lparr>map_count := map_count m + 1\<rparr>) s5))
       (vm_area_alloc s))"

text \<open>One iteration of the loop that maps pages at once; \<open>Some\<close> status is its early return.\<close>

definition mmap_page :: "u32 \<Rightarrow> u32 \<Rightarrow> u32 \<Rightarrow> u32 \<Rightarrow> 'a vma_state_scheme \<Rightarrow>
    (kernel_status option \<times> 'a vma_state_scheme) option" where
  "mmap_page mm vma start i s =
     (let (phys, s1) = pmm_alloc_page s;
          undo = (\<lambda>st s2. Option.bind (unmap_ignoring start i s2) (\<lambda>s3.
             map_option (\<lambda>s4. (Some st, vm_area_free vma s4)) (remove_vm_struct mm vma s3)))
      in if phys = 0 then undo KERNEL_OUT_OF_MEMORY s1
         else Option.bind (vmm_map_page (start + i * PAGE_SIZE) phys (PAGE_FLAG_PRESENT OR PAGE_FLAG_RW) s1)
           (\<lambda>(st, s2). if st \<noteq> KERNEL_OK then undo st (pmm_free_page phys s2) else Some (None, s2)))"

text \<open>The status, and \<^verbatim>\<open>*out_addr\<close> on success.\<close>

definition mmap_anonymous :: "u32 \<Rightarrow> u32 \<Rightarrow> u32 \<Rightarrow> u32 \<Rightarrow> 'a vma_state_scheme \<Rightarrow>
    (kernel_status \<times> u32 option \<times> 'a vma_state_scheme) option" where
  "mmap_anonymous mm addr len flags s =
     (if mm = 0 \<or> len = 0 then Some (KERNEL_INVALID_PARAM, None, s)
      else let start0 = ALIGN_DOWN addr PAGE_SIZE; end0 = ALIGN_UP (addr + len) PAGE_SIZE
      in if end0 \<le> start0 \<and> addr \<noteq> 0 then Some (KERNEL_INVALID_PARAM, None, s)
      else Option.bind (if addr = 0 then unmapped_area mm len s else Some 0) (\<lambda>candidate.
        if addr = 0 \<and> candidate = 0 then Some (KERNEL_OUT_OF_MEMORY, None, s)
        else let start = (if addr = 0 then candidate else start0);
                 e = (if addr = 0 then candidate + ALIGN_UP len PAGE_SIZE else end0)
        in if start = 0 then Some (KERNEL_INVALID_PARAM, None, s)
        else if e \<le> start then Some (KERNEL_INVALID_PARAM, None, s)
        else Option.bind (vm_area_alloc s) (\<lambda>(vma, s1).
          if vma = 0 then Some (KERNEL_OUT_OF_MEMORY, None, s1)
          else let s2 = set_area vma (\<lambda>v. v\<lparr>vm_start := start, vm_end := e,
                          vm_pgoff := drop_bit 12 start, vm_flags := VM_ANON OR (flags AND VM_RWXS)\<rparr>) s1
          in Option.bind (insert_vm_struct mm vma s2) (\<lambda>(ok, s3).
            if \<not> ok then Some (KERNEL_ALREADY_MAPPED, None, vm_area_free vma s3)
            else if flags AND VM_MAP_IMMEDIATE \<noteq> 0
            then map_option (\<lambda>(r, s4). case r of None \<Rightarrow> (KERNEL_OK, Some start, s4) | Some st \<Rightarrow> (st, None, s4))
                   (for_ret 0 (drop_bit 12 (e - start)) (mmap_page mm vma start) s3)
            else Some (KERNEL_OK, Some start, s3)))))"

text \<open>Unlink \<open>v\<close>: \<open>to\<close> becomes the successor of \<open>prev\<close>, or the head of the list.\<close>

definition relink :: "u32 \<Rightarrow> u32 \<Rightarrow> u32 \<Rightarrow> 'a vma_state_scheme \<Rightarrow> 'a vma_state_scheme" where
  "relink mm prev to s =
     set_mm mm (\<lambda>m. m\<lparr>map_count := map_count m - 1\<rparr>)
       (if prev \<noteq> 0 then set_area prev (\<lambda>v. v\<lparr>vm_next := to\<rparr>) s else set_mm mm (\<lambda>m. m\<lparr>mmap := to\<rparr>) s)"

partial_function (option) munmap_from ::
    "u32 \<Rightarrow> u32 \<Rightarrow> u32 \<Rightarrow> u32 \<Rightarrow> 'a vma_state_scheme \<Rightarrow> (kernel_status \<times> 'a vma_state_scheme) option" where
  "munmap_from mm e prev v s =
     (if v \<noteq> 0 \<and> vm_start (areas s v) < e
      then if e < vm_end (areas s v)
           then Option.bind (split_vma_at mm v e s) (\<lambda>(upper, s1).
             if upper = 0 then Some (KERNEL_OUT_OF_MEMORY, s1)
             else map_option (\<lambda>s2. (KERNEL_OK, vm_area_free v (relink mm prev upper s2))) (unmap_area v s1))
           else let nx = vm_next (areas s v)
                in Option.bind (unmap_area v s) (\<lambda>s1.
                     munmap_from mm e prev nx (vm_area_free v (relink mm prev nx s1)))
      else Some (KERNEL_OK, s))"

definition munmap_range :: "u32 \<Rightarrow> u32 \<Rightarrow> u32 \<Rightarrow> 'a vma_state_scheme \<Rightarrow> (kernel_status \<times> 'a vma_state_scheme) option" where
  "munmap_range mm addr len s =
     (if mm = 0 \<or> len = 0 then Some (KERNEL_INVALID_PARAM, s)
      else let start = ALIGN_DOWN addr PAGE_SIZE; e = ALIGN_UP (addr + len) PAGE_SIZE
      in Option.bind (find_vma mm start s) (\<lambda>v.
        if v \<noteq> 0 \<and> vm_start (areas s v) < start \<and> start < vm_end (areas s v)
        then Option.bind (split_vma_at mm v start s) (\<lambda>(upper, s1).
               if upper = 0 then Some (KERNEL_OUT_OF_MEMORY, s1) else munmap_from mm e v upper s1)
        else munmap_from mm e 0 v s))"

section \<open>The list of areas\<close>

lemma set_area_simps [simp]:
  "areas (set_area a f s) = (areas s)(a := f (areas s a))" "mms (set_area a f s) = mms s"
  "areas (set_mm mm g s) = areas s" "mms (set_mm mm g s) = (mms s)(mm := g (mms s mm))"
  by (simp_all add: set_area_def set_mm_def)

lemma kfree_areas [simp]: "areas (kfree p s) = areas s" "mms (kfree p s) = mms s"
  by (simp_all add: kfree_def Let_def)

lemma vm_area_free_simps [simp]: "areas (vm_area_free p s) = areas s" "mms (vm_area_free p s) = mms s"
  by (simp_all add: vm_area_free_def)

text \<open>\<open>area_seg A p as q\<close>: from \<open>p\<close>, the \<^verbatim>\<open>vm_next\<close> pointers lead through the areas \<open>as\<close> to \<open>q\<close>.\<close>

fun area_seg :: "(u32 \<Rightarrow> vm_area_struct) \<Rightarrow> u32 \<Rightarrow> u32 list \<Rightarrow> u32 \<Rightarrow> bool" where
  "area_seg A p [] q \<longleftrightarrow> p = q"
| "area_seg A p (a # as) q \<longleftrightarrow> p = a \<and> a \<noteq> 0 \<and> area_seg A (vm_next (A a)) as q"

text \<open>The areas are not empty, and each ends before the next one begins.\<close>

definition area_ok :: "(u32 \<Rightarrow> vm_area_struct) \<Rightarrow> u32 list \<Rightarrow> bool" where
  "area_ok A as \<longleftrightarrow> sorted_wrt (\<lambda>a b. vm_end (A a) \<le> vm_start (A b)) as \<and>
     (\<forall>a \<in> set as. vm_start (A a) < vm_end (A a))"

definition mm_inv :: "u32 \<Rightarrow> u32 list \<Rightarrow> 'a vma_state_scheme \<Rightarrow> bool" where
  "mm_inv mm as s \<longleftrightarrow> mm \<noteq> 0 \<and> area_seg (areas s) (mmap (mms s mm)) as 0 \<and> area_ok (areas s) as \<and>
     map_count (mms s mm) = of_nat (length as)"

lemma area_seg_append: "area_seg A p (xs @ ys) q \<longleftrightarrow> (\<exists>r. area_seg A p xs r \<and> area_seg A r ys q)"
  by (induction xs arbitrary: p) auto

lemma area_seg_cong:
  "(\<And>a. a \<in> set as \<Longrightarrow> vm_next (A' a) = vm_next (A a)) \<Longrightarrow> area_seg A' p as q = area_seg A p as q"
  by (induction as arbitrary: p) auto

lemma area_seg_null: "area_seg A p as 0 \<Longrightarrow> p = 0 \<longleftrightarrow> as = []"
  by (cases as) auto

lemma area_seg_nonzero: "area_seg A p as q \<Longrightarrow> 0 \<notin> set as"
  by (induction as arbitrary: p) auto

lemma area_seg_hd: "area_seg A p as q \<Longrightarrow> p = hd (as @ [q])"
  by (cases as) auto

lemma area_seg_snoc:
  "area_seg A p (xs @ [x]) q \<longleftrightarrow> area_seg A p xs x \<and> x \<noteq> 0 \<and> vm_next (A x) = q"
  by (auto simp: area_seg_append)

text \<open>Redirecting the last pointer of a segment.\<close>

lemma area_seg_redirect:
  assumes "area_seg A p (xs @ [x]) q" and "x \<notin> set xs"
    and "vm_next (A' x) = r" and "\<And>a. a \<in> set xs \<Longrightarrow> vm_next (A' a) = vm_next (A a)"
  shows "area_seg A' p (xs @ [x]) r"
  using assms area_seg_cong [of xs A' A] by (auto simp: area_seg_snoc)

lemma area_ok_cong:
  "(\<And>a. a \<in> set as \<Longrightarrow> vm_start (A' a) = vm_start (A a) \<and> vm_end (A' a) = vm_end (A a)) \<Longrightarrow>
   area_ok A' as = area_ok A as"
proof -
  assume eq: "\<And>a. a \<in> set as \<Longrightarrow> vm_start (A' a) = vm_start (A a) \<and> vm_end (A' a) = vm_end (A a)"
  then have "sorted_wrt (\<lambda>a b. vm_end (A' a) \<le> vm_start (A' b)) as = sorted_wrt (\<lambda>a b. vm_end (A a) \<le> vm_start (A b)) as"
    by (induction as) auto
  with eq show ?thesis by (auto simp: area_ok_def)
qed

lemma area_ok_append:
  "area_ok A (xs @ ys) \<longleftrightarrow> area_ok A xs \<and> area_ok A ys \<and>
     (\<forall>x \<in> set xs. \<forall>y \<in> set ys. vm_end (A x) \<le> vm_start (A y))"
  by (auto simp: area_ok_def sorted_wrt_append)

lemma area_ok_Cons:
  "area_ok A (x # ys) \<longleftrightarrow> vm_start (A x) < vm_end (A x) \<and> area_ok A ys \<and>
     (\<forall>y \<in> set ys. vm_end (A x) \<le> vm_start (A y))"
  by (auto simp: area_ok_def)

lemma area_ok_Nil [simp]: "area_ok A []"
  by (simp add: area_ok_def)

lemma area_ok_distinct: "area_ok A as \<Longrightarrow> distinct as"
  by (induction as) (auto simp: area_ok_Cons not_less [symmetric])

section \<open>Searching\<close>

lemma find_from_eq:
  "area_seg A v as 0 \<Longrightarrow>
   find_from A addr v = Some (case find (\<lambda>a. addr < vm_end (A a)) as of None \<Rightarrow> 0 | Some a \<Rightarrow> a)"
  by (induction as arbitrary: v) (auto simp: find_from.simps)

text \<open>\<^verbatim>\<open>find_vma_prev\<close> returns what \<^verbatim>\<open>find_vma\<close> returns, and the area before it.\<close>

lemma find_prev_from_eq:
  "area_seg A v as 0 \<Longrightarrow> find_prev_from A addr prev v =
     Some (hd (dropWhile (\<lambda>a. vm_end (A a) \<le> addr) as @ [0]), last (prev # takeWhile (\<lambda>a. vm_end (A a) \<le> addr) as))"
  by (induction as arbitrary: v prev) (auto simp: find_prev_from.simps)

lemma insert_scan_eq:
  "area_seg A cur as 0 \<Longrightarrow> insert_scan A start prev cur =
     Some (last (prev # takeWhile (\<lambda>a. vm_start (A a) < start) as),
           hd (dropWhile (\<lambda>a. vm_start (A a) < start) as @ [0]))"
  by (induction as arbitrary: cur prev) (auto simp: insert_scan.simps)

lemma remove_scan_eq:
  "area_seg A cur as 0 \<Longrightarrow> remove_scan A vma prev cur =
     Some (if vma \<in> set as then Some (last (prev # takeWhile (\<lambda>a. a \<noteq> vma) as)) else None)"
  by (induction as arbitrary: cur prev) (auto simp: remove_scan.simps)

section \<open>Insertion and removal\<close>

lemma dropWhile_hd: "dropWhile P xs \<noteq> [] \<Longrightarrow> \<not> P (hd (dropWhile P xs))"
  by (induction xs) auto

text \<open>The two neighbours decide whether a new area overlaps any.\<close>

lemma overlap_neighbours:
  assumes ok: "area_ok A as" and se: "st < en"
    and pre: "pre = takeWhile (\<lambda>a. vm_start (A a) < st) as" and post: "post = dropWhile (\<lambda>a. vm_start (A a) < st) as"
  shows "(\<forall>a \<in> set as. vm_end (A a) \<le> st \<or> en \<le> vm_start (A a)) \<longleftrightarrow>
     (pre \<noteq> [] \<longrightarrow> vm_end (A (last pre)) \<le> st) \<and> (post \<noteq> [] \<longrightarrow> en \<le> vm_start (A (hd post)))"
    (is "?all \<longleftrightarrow> ?near")
proof
  have split: "as = pre @ post" using pre post by simp
  then have oks: "area_ok A pre" "area_ok A post" using ok by (auto simp: area_ok_append)
  have low: "vm_start (A a) < st" if "a \<in> set pre" for a using that pre by (auto dest: set_takeWhileD)
  { assume ?all
    have "vm_end (A (last pre)) \<le> st" if "pre \<noteq> []"
    proof -
      have in_pre: "last pre \<in> set pre" using that by simp
      then have "vm_start (A (last pre)) < en" using low se by (metis less_trans)
      then have "\<not> en \<le> vm_start (A (last pre))" by simp
      moreover have "last pre \<in> set as" using in_pre split by simp
      ultimately show ?thesis using \<open>?all\<close> by blast
    qed
    moreover have "en \<le> vm_start (A (hd post))" if "post \<noteq> []"
    proof -
      have "hd post \<in> set as" using that split by (metis Un_iff hd_in_set set_append)
      moreover have "\<not> vm_start (A (hd post)) < st"
        using that dropWhile_hd [of "\<lambda>a. vm_start (A a) < st" as] unfolding post by blast
      moreover have "vm_start (A (hd post)) < vm_end (A (hd post))"
        using ok \<open>hd post \<in> set as\<close> by (simp add: area_ok_def)
      ultimately have "\<not> vm_end (A (hd post)) \<le> st" by (metis le_less_trans not_le)
      with \<open>?all\<close> \<open>hd post \<in> set as\<close> show ?thesis by blast
    qed
    ultimately show ?near by blast }
  assume near: ?near
  show ?all
  proof
    fix a assume "a \<in> set as"
    then consider "a \<in> set pre" | "a \<in> set post" using split by auto
    then show "vm_end (A a) \<le> st \<or> en \<le> vm_start (A a)"
    proof cases
      case 1
      then obtain ps p where ps: "pre = ps @ [p]" by (cases pre rule: rev_exhaust) auto
      then have "a = p \<or> vm_end (A a) \<le> vm_start (A p)" using 1 oks(1) by (auto simp: area_ok_append)
      moreover have "vm_start (A p) < st" "vm_end (A p) \<le> st" using ps low near by auto
      ultimately show ?thesis by (metis less_imp_le order_trans)
    next
      case 2
      then obtain q qs where qs: "post = q # qs" by (cases post) auto
      then have "a = q \<or> vm_end (A q) \<le> vm_start (A a)" "vm_start (A q) < vm_end (A q)"
        using 2 oks(2) by (auto simp: area_ok_Cons)
      moreover have "en \<le> vm_start (A q)" using qs near by simp
      ultimately show ?thesis by (metis less_imp_le order_trans)
    qed
  qed
qed

lemma area_ok_insert:
  assumes "area_ok A (pre @ post)" and "\<forall>a \<in> set (pre @ post). vm_end (A a) \<le> vm_start (A v) \<or> vm_end (A v) \<le> vm_start (A a)"
    and "vm_start (A v) < vm_end (A v)"
    and "\<forall>a \<in> set pre. vm_start (A a) < vm_start (A v)" and "\<forall>a \<in> set post. vm_start (A v) \<le> vm_start (A a)"
  shows "area_ok A (pre @ v # post)"
proof -
  have lo: "vm_end (A a) \<le> vm_start (A v)" if a: "a \<in> set pre" for a
  proof -
    have "\<not> vm_end (A v) \<le> vm_start (A a)" using a assms(3,4) by (meson leD less_trans)
    then show ?thesis using a assms(2) by auto
  qed
  have hi: "vm_end (A v) \<le> vm_start (A a)" if a: "a \<in> set post" for a
  proof -
    have "vm_start (A a) < vm_end (A a)" using a assms(1) by (simp add: area_ok_def)
    then have "\<not> vm_end (A a) \<le> vm_start (A v)" using a assms(5) by (meson leD le_less_trans)
    then show ?thesis using a assms(2) by auto
  qed
  show ?thesis using assms(1,3) lo hi by (auto simp: area_ok_append area_ok_Cons)
qed

lemma insert_vm_struct_cases:
  assumes inv: "mm_inv mm as s" and v: "vma \<noteq> 0" "vma \<notin> set as"
    and se: "vm_start (areas s vma) < vm_end (areas s vma)"
  obtains (overlap) "insert_vm_struct mm vma s = Some (False, s)"
      "\<exists>a \<in> set as. vm_start (areas s vma) < vm_end (areas s a) \<and> vm_start (areas s a) < vm_end (areas s vma)"
  | (head) s' where "insert_vm_struct mm vma s = Some (False, s')" "as \<noteq> []"
      "vm_end (areas s vma) \<le> vm_start (areas s (hd as))"
      "s' = set_mm mm (\<lambda>m. m\<lparr>mmap := vma\<rparr>) (set_area vma (\<lambda>w. w\<lparr>vm_next := hd as\<rparr>) s)"
  | (linked) s' pre post where "insert_vm_struct mm vma s = Some (True, s')" "as = pre @ post"
      "mm_inv mm (pre @ vma # post) s'" "as = [] \<or> pre \<noteq> []"
      "\<forall>a \<in> set as. vm_end (areas s a) \<le> vm_start (areas s vma) \<or> vm_end (areas s vma) \<le> vm_start (areas s a)"
      "\<And>a. \<exists>n. areas s' a = (areas s a)\<lparr>vm_next := n\<rparr>"
proof -
  let ?A = "areas s"
  define st en where "st = vm_start (?A vma)" and "en = vm_end (?A vma)"
  define pre post where pre: "pre = takeWhile (\<lambda>a. vm_start (?A a) < st) as"
    and post: "post = dropWhile (\<lambda>a. vm_start (?A a) < st) as"
  have i: "mm \<noteq> 0" "area_seg ?A (mmap (mms s mm)) as 0" "area_ok ?A as" "map_count (mms s mm) = of_nat (length as)"
    using inv by (simp_all add: mm_inv_def)
  have nodes: "0 \<notin> set as" "distinct as" using area_seg_nonzero [OF i(2)] area_ok_distinct [OF i(3)] by auto
  have split: "as = pre @ post" using pre post by simp
  have se': "st < en" using se by (simp add: st_def en_def)
  note near = overlap_neighbours [OF i(3) se' pre post]
  have scan: "insert_scan ?A st 0 (mmap (mms s mm)) = Some (last (0 # pre), hd (post @ [0]))"
    using insert_scan_eq [OF i(2)] pre post by simp
  have prev0: "last (0 # pre) = 0 \<longleftrightarrow> pre = []" using nodes(1) split by (cases pre rule: rev_exhaust) auto
  have cur0: "hd (post @ [0]) = 0 \<longleftrightarrow> post = []" using nodes(1) split by (cases post) auto
  show thesis
  proof (cases "as = []")
    case True
    define s' where "s' = set_mm mm (\<lambda>m. m\<lparr>mmap := vma, map_count := map_count m + 1\<rparr>)
         (set_area vma (\<lambda>w. w\<lparr>vm_next := 0\<rparr>) s)"
    have "insert_vm_struct mm vma s = Some (True, s')"
      using i v se True by (simp add: insert_vm_struct_def s'_def not_le)
    moreover have "mm_inv mm ([] @ vma # []) s'" using i v se True by (simp add: mm_inv_def s'_def area_ok_Cons)
    moreover have "\<exists>n. areas s' a = (?A a)\<lparr>vm_next := n\<rparr>" for a
      by (cases "a = vma") (auto simp: s'_def intro: exI [of _ "vm_next (?A a)"])
    ultimately show thesis using True by (intro linked [of s' "[]" "[]"]) auto
  next
    case False
    then have hd: "mmap (mms s mm) \<noteq> 0" "mmap (mms s mm) = hd as"
      using area_seg_null [OF i(2)] area_seg_hd [OF i(2)] by auto
    have prog: "insert_vm_struct mm vma s =
        (if pre \<noteq> [] \<and> st < vm_end (?A (last pre)) then Some (False, s)
         else if post \<noteq> [] \<and> vm_start (?A (hd post)) < en then Some (False, s)
         else if pre = [] then Some (False, set_mm mm (\<lambda>m. m\<lparr>mmap := vma\<rparr>) (set_area vma (\<lambda>w. w\<lparr>vm_next := hd as\<rparr>) s))
         else Some (True, set_mm mm (\<lambda>m. m\<lparr>map_count := map_count m + 1\<rparr>)
                (set_area (last pre) (\<lambda>w. w\<lparr>vm_next := vma\<rparr>)
                  (set_area vma (\<lambda>w. w\<lparr>vm_next := vm_next (?A (last pre))\<rparr>) s))))"
      using i(1) v(1) se hd scan prev0 cur0 unfolding insert_vm_struct_def
      by (auto simp: Let_def st_def [symmetric] en_def [symmetric] not_le)
    show thesis
    proof (cases "\<forall>a \<in> set as. vm_end (?A a) \<le> st \<or> en \<le> vm_start (?A a)")
      case overlaps: False
      with near have "insert_vm_struct mm vma s = Some (False, s)" unfolding prog by (auto simp: not_le)
      with overlaps show thesis by (intro overlap) (auto simp: st_def en_def not_le)
    next
      case free: True
      with near have clear: "pre \<noteq> [] \<Longrightarrow> vm_end (?A (last pre)) \<le> st" "post \<noteq> [] \<Longrightarrow> en \<le> vm_start (?A (hd post))" by blast+
      show thesis
      proof (cases "pre = []")
        case True
        then have "post = as" using split by simp
        with True clear False prog show thesis by (intro head) (auto simp: en_def not_less)
      next
        case p: False
        then obtain ps p where ps: "pre = ps @ [p]" by (cases pre rule: rev_exhaust) auto
        define s' where "s' = set_mm mm (\<lambda>m. m\<lparr>map_count := map_count m + 1\<rparr>)
                (set_area p (\<lambda>w. w\<lparr>vm_next := vma\<rparr>) (set_area vma (\<lambda>w. w\<lparr>vm_next := vm_next (?A p)\<rparr>) s))"
        have ret: "insert_vm_struct mm vma s = Some (True, s')" unfolding prog using clear p ps
          by (auto simp: s'_def not_less)
        have ne: "p \<noteq> vma" "p \<notin> set ps" "p \<notin> set post" using nodes(2) v(2) split ps by auto
        have A': "areas s' a = (?A a)\<lparr>vm_next := (if a = p then vma else if a = vma then vm_next (?A p) else vm_next (?A a))\<rparr>" for a
          using ne by (simp add: s'_def)
        obtain q where q: "area_seg ?A (mmap (mms s mm)) pre q" "area_seg ?A q post 0"
          using i(2) unfolding split area_seg_append by blast
        have nq: "vm_next (?A p) = q" using q(1) by (simp add: ps area_seg_snoc)
        have "area_seg (areas s') vma (vma # post) 0"
        proof -
          have "area_seg (areas s') q post 0"
            by (subst area_seg_cong [where A = ?A]) (use q(2) v ne split in \<open>auto simp: A'\<close>)
          then show ?thesis using v ne nq by (simp add: A')
        qed
        moreover have "area_seg (areas s') (mmap (mms s mm)) pre vma"
          unfolding ps by (rule area_seg_redirect [OF q(1) [unfolded ps] ne(2)]) (use v split ps ne in \<open>auto simp: A'\<close>)
        moreover have "area_ok (areas s') (pre @ vma # post)"
        proof -
          have "area_ok ?A (pre @ vma # post)"
          proof (rule area_ok_insert)
            show "\<forall>a \<in> set pre. vm_start (?A a) < vm_start (?A vma)" using pre by (auto simp: st_def dest: set_takeWhileD)
            show "\<forall>a \<in> set post. vm_start (?A vma) \<le> vm_start (?A a)"
            proof
              fix a assume "a \<in> set post"
              then obtain x xs where x: "post = x # xs" by (cases post) auto
              have "area_ok ?A post" using i(3) split by (simp add: area_ok_append)
              moreover have "\<not> vm_start (?A x) < st" 
                using dropWhile_hd [of "\<lambda>a. vm_start (?A a) < st" as, folded post] by (simp add: x)
              ultimately show "vm_start (?A vma) \<le> vm_start (?A a)"
                using \<open>a \<in> set post\<close> x by (auto simp: area_ok_Cons st_def not_less dest: less_imp_le intro: order_trans)
            qed
          qed (use i(3) split free se in \<open>auto simp: st_def en_def\<close>)
          then show ?thesis by (subst area_ok_cong [where A = ?A]) (simp_all add: A')
        qed
        ultimately have "mm_inv mm (pre @ vma # post) s'"
          using i by (auto simp: mm_inv_def area_seg_append s'_def split)
        moreover have "\<exists>n. areas s' a = (?A a)\<lparr>vm_next := n\<rparr>" for a unfolding A' by blast
        ultimately show thesis using ret split p free by (intro linked [of s' pre post]) (auto simp: st_def en_def)
      qed
    qed
  qed
qed

section \<open>Allocation leaves the structures alone\<close>

text \<open>\<open>heap.more\<close> is everything above the heap, here the typed views.\<close>

lemma heap_more_cong:
  fixes a b :: "'a heap_scheme"
  shows "vmm.more a = vmm.more b \<Longrightarrow> heap.more a = heap.more b"
  by (cases a; cases b; simp)

lemma append_block_more: "append_block nb s = Some s' \<Longrightarrow> heap.more s' = heap.more s"
  by (auto simp: append_block_def Let_def split: if_splits)

lemma heap_zero_more [simp]: "heap.more (heap_zero p n s) = heap.more s"
  by (simp add: heap_zero_def)

lemma expand_attempt_more:
  fixes s :: "'a heap_scheme"
  assumes "expand_attempt n s = Some (r, s')"
  shows "heap.more s' = heap.more s"
proof -
  obtain p s1 where a: "pmm_alloc_pages (n div PAGE_SIZE) s = (p, s1)" by fastforce
  then have m1: "heap.more s1 = heap.more s"
    using pmm_pages_keep_more heap_more_cong pmm_more_vmm_more by metis
  show ?thesis
  proof (cases "p = 0")
    case True
    then show ?thesis using assms a m1 by (auto simp: expand_attempt_def Let_def)
  next
    case False
    then obtain st s2 where v: "vmm_map_pages (heap_current_end s1) p (n div PAGE_SIZE)
        (PAGE_FLAG_PRESENT OR PAGE_FLAG_RW) s1 = Some (st, s2)"
      using assms a by (auto simp: expand_attempt_def Let_def bind_eq_Some_conv)
    then have m2: "heap.more s2 = heap.more s1"
      using vmm_map_pages_rest heap_more_cong unfolding rest_def by (metis prod.inject)
    show ?thesis
    proof (cases "st = KERNEL_OK")
      case True
      then show ?thesis using assms a v False m1 m2
        by (auto simp: expand_attempt_def Let_def bind_eq_Some_conv dest!: append_block_more)
    next
      case no: False
      have "heap.more (pmm_free_pages p (n div PAGE_SIZE) s2) = heap.more s2"
        using pmm_pages_keep_more heap_more_cong pmm_more_vmm_more by metis
      then show ?thesis using assms a v False no m1 m2 by (auto simp: expand_attempt_def Let_def)
    qed
  qed
qed

lemma heap_expand_more: "heap_expand n s = Some (st, s') \<Longrightarrow> heap.more s' = heap.more s"
  unfolding heap_expand_def by (auto dest: expand_attempt_more elim!: for_ret_keeps [where f = heap.more, rotated])

lemma heap_defragment_more: "heap_defragment s = Some s' \<Longrightarrow> heap.more s' = heap.more s"
  by (auto simp: heap_defragment_def)

lemma kmalloc_more:
  fixes s :: "'a heap_scheme"
  assumes "kmalloc sz s = Some (p, s')"
  shows "heap.more s' = heap.more s"
proof -
  have "heap.more (snd (p, s')) = heap.more s"
  proof (rule kmalloc.raw_induct [where P = "\<lambda>(sz :: u32) (s :: 'a heap_scheme) r. heap.more (snd r) = heap.more s"])
    fix km :: "u32 \<Rightarrow> 'a heap_scheme \<Rightarrow> (u32 \<times> 'a heap_scheme) option" and sz s r
    assume IH: "\<And>sz s r. km sz s = Some r \<Longrightarrow> heap.more (snd r) = heap.more s"
      and body: "(if sz = 0 then Some (0, s)
      else Option.bind (find_fit sz (hblk s) (heap_head s)) (\<lambda>c.
        if c \<noteq> 0 then Some (c + sizeof_heap_block, s\<lparr>hblk := carve sz c (hblk s)\<rparr>)
        else Option.bind (heap_defragment s) (\<lambda>s1.
          Option.bind (find_fit sz (hblk s1) (heap_head s1)) (\<lambda>c.
            if c \<noteq> 0 then Some (c + sizeof_heap_block, s1\<lparr>hblk := carve sz c (hblk s1)\<rparr>)
            else Option.bind (heap_expand (sz + sizeof_heap_block) s1) (\<lambda>(status, s2).
              if status \<noteq> KERNEL_OK then Some (0, s2) else km sz s2))))) = Some r"
    then show "heap.more (snd r) = heap.more s"
      by (auto simp: bind_eq_Some_conv dest!: IH heap_expand_more heap_defragment_more split: if_splits)
  qed (rule assms)
  then show ?thesis by simp
qed

lemma vma_more:
  fixes a b :: "'a vma_state_scheme"
  assumes "heap.more a = heap.more b"
  shows "areas a = areas b" "mms a = mms b"
  using assms by (cases a; cases b; simp)+

lemma vma_upd_vmm [simp]:
  fixes s :: "'a vma_state_scheme"
  shows "vmm_wf (s\<lparr>areas := A\<rparr>) = vmm_wf s" "aspace (s\<lparr>areas := A\<rparr>) = aspace s"
    "vmm_wf (s\<lparr>mms := M\<rparr>) = vmm_wf s" "aspace (s\<lparr>mms := M\<rparr>) = aspace s"
proof -
  have "vmm_wf (s\<lparr>areas := A, mms := M\<rparr>) = vmm_wf s \<and> aspace (s\<lparr>areas := A, mms := M\<rparr>) = aspace s"
    for s :: "'a vma_state_scheme" and A M
    by (simp add: vmm_wf_def pmm_inv_def free_frames_def page_used_def bitmap_wf_def capacity_def
        has_table_def table_def pde_def frame_taken_def fun_eq_iff aspace_def translate_def)
  from this [of "mms s" A s] this [of M "areas s" s]
  show "vmm_wf (s\<lparr>areas := A\<rparr>) = vmm_wf s" "aspace (s\<lparr>areas := A\<rparr>) = aspace s"
    "vmm_wf (s\<lparr>mms := M\<rparr>) = vmm_wf s" "aspace (s\<lparr>mms := M\<rparr>) = aspace s" by simp_all
qed

lemma vma_upd_heap [simp]:
  "heap_inv bs (s\<lparr>areas := A\<rparr>) = heap_inv bs s" "heap_inv bs (s\<lparr>mms := M\<rparr>) = heap_inv bs s"
  by (simp_all add: heap_inv_def)

lemma set_area_heap [simp]:
  "heap_wf (set_area a f s) = heap_wf s" "heap_used (set_area a f s) = heap_used s"
  "heap_wf (set_mm a g s) = heap_wf s" "heap_used (set_mm a g s) = heap_used s"
  by (simp_all add: set_area_def set_mm_def heap_wf_def heap_used_def)

text \<open>Each of the areas lies in a block of its own.\<close>

definition areas_held :: "u32 list \<Rightarrow> 'a heap_scheme \<Rightarrow> bool" where
  "areas_held as s \<longleftrightarrow> (\<forall>a \<in> set as. \<exists>n > 0. (unat a, n) \<in> heap_used s)"

lemma vm_area_alloc_cases:
  assumes wf: "heap_wf s" and room: "heap_room sizeof_vm_area_struct s"
  obtains (oom) s' where "vm_area_alloc s = Some (0, s')" "heap_wf s'" "heap_used s' = heap_used s"
      "areas s' = areas s" "mms s' = mms s"
  | (ok) v s' m where "vm_area_alloc s = Some (v, s')" "v \<noteq> 0" "heap_wf s'" "(unat v, m) \<notin> heap_used s"
      "heap_used s' = insert (unat v, m) (heap_used s)"
      "areas s' = (areas s)(v := null_area)" "mms s' = mms s" "\<And>n. 0 < n \<Longrightarrow> (unat v, n) \<notin> heap_used s" "20 \<le> m"
proof -
  obtain v s1 where k: "kmalloc sizeof_vm_area_struct s = Some (v, s1)" "heap_wf s1"
    "if v = 0 then heap_used s1 = heap_used s
     else \<exists>m \<ge> unat sizeof_vm_area_struct. (unat v, m) \<notin> heap_used s \<and> heap_used s1 = insert (unat v, m) (heap_used s)"
    using kmalloc_spec [OF wf _ room] by fastforce
  note same = vma_more [OF kmalloc_more [OF k(1)]]
  show thesis
  proof (cases "v = 0")
    case True
    then show thesis using k same by (intro oom [of s1]) (auto simp: vm_area_alloc_def)
  next
    case False
    then obtain m where m: "20 \<le> m" "(unat v, m) \<notin> heap_used s" "heap_used s1 = insert (unat v, m) (heap_used s)"
      using k(3) by auto
    let ?s = "set_area v (\<lambda>_. null_area) (heap_zero v sizeof_vm_area_struct s1)"
    have "areas (heap_zero v sizeof_vm_area_struct s1) = areas s1" "mms (heap_zero v sizeof_vm_area_struct s1) = mms s1"
      by (simp_all add: heap_zero_def)
    moreover have "(unat v, n) \<notin> heap_used s" if "0 < n" for n
      using heap.alloc_disjoint [OF wf _ room k(1) False, of "unat v" n] m that by auto
    moreover have "heap_wf ?s" "heap_used ?s = heap_used s1"
      using heap_zero_wf [OF k(2), of v m sizeof_vm_area_struct] m by auto
    ultimately show thesis using k(1) False m same by (intro ok [of v ?s m]) (auto simp: vm_area_alloc_def)
  qed
qed

lemma remove_vm_struct_inv:
  assumes inv: "mm_inv mm (pre @ v # post) s"
  shows "\<exists>s'. remove_vm_struct mm v s = Some s' \<and> mm_inv mm (pre @ post) s' \<and>
           (\<forall>a. \<exists>n. areas s' a = (areas s a)\<lparr>vm_next := n\<rparr>)"
proof -
  let ?A = "areas s" and ?p = "mmap (mms s mm)"
  have i: "mm \<noteq> 0" "area_seg ?A ?p (pre @ v # post) 0" "area_ok ?A (pre @ v # post)"
    "map_count (mms s mm) = of_nat (length (pre @ v # post))" using inv by (simp_all add: mm_inv_def)
  have nz: "v \<noteq> 0" "0 \<notin> set pre" using area_seg_nonzero [OF i(2)] by auto
  have d: "v \<notin> set pre" "v \<notin> set post" "distinct pre" "set pre \<inter> set post = {}"
    using area_ok_distinct [OF i(3)] by auto
  have tw: "takeWhile (\<lambda>a. a \<noteq> v) (pre @ v # post) = pre" using d(1) by (induction pre) auto
  have scan: "remove_scan ?A v 0 ?p = Some (Some (last (0 # pre)))"
    using remove_scan_eq [OF i(2), of v 0] by (simp add: tw)
  have seg: "area_seg ?A ?p pre v" "area_seg ?A (vm_next (?A v)) post 0" using i(2) by (auto simp: area_seg_append)
  have ok: "area_ok ?A (pre @ post)" using i(3) by (auto simp: area_ok_append area_ok_Cons)
  show ?thesis
  proof (cases pre rule: rev_exhaust)
    case Nil
    let ?s = "set_area v (\<lambda>w. w\<lparr>vm_next := 0\<rparr>) (set_mm mm (\<lambda>m. m\<lparr>map_count := map_count m - 1\<rparr>)
                (set_mm mm (\<lambda>m. m\<lparr>mmap := vm_next (?A v)\<rparr>) s))"
    have "remove_vm_struct mm v s = Some ?s" using i(1) nz scan Nil by (simp add: remove_vm_struct_def Let_def)
    moreover have "area_seg (areas ?s) (vm_next (?A v)) post 0"
      by (subst area_seg_cong [where A = ?A]) (use seg(2) d in auto)
    moreover have "area_ok (areas ?s) (pre @ post)" by (subst area_ok_cong [where A = ?A]) (use ok in auto)
    moreover have "\<exists>n. areas ?s a = (?A a)\<lparr>vm_next := n\<rparr>" for a
      by (cases "a = v") (auto intro: exI [of _ "vm_next (?A a)"])
    ultimately show ?thesis using i Nil by (auto simp: mm_inv_def)
  next
    case (snoc ps p)
    then have ne: "p \<noteq> v" "p \<notin> set ps" "p \<notin> set post" "p \<noteq> 0" using d nz by auto
    let ?s = "set_area v (\<lambda>w. w\<lparr>vm_next := 0\<rparr>) (set_mm mm (\<lambda>m. m\<lparr>map_count := map_count m - 1\<rparr>)
                (set_area p (\<lambda>w. w\<lparr>vm_next := vm_next (?A v)\<rparr>) s))"
    have "remove_vm_struct mm v s = Some ?s" using i(1) nz scan snoc ne by (simp add: remove_vm_struct_def Let_def)
    moreover have "area_seg (areas ?s) ?p (ps @ [p]) (vm_next (?A v))"
      by (rule area_seg_redirect [OF seg(1) [unfolded snoc]]) (use ne snoc d in auto)
    moreover have "area_seg (areas ?s) (vm_next (?A v)) post 0"
      by (subst area_seg_cong [where A = ?A]) (use seg(2) d ne in auto)
    moreover have "area_ok (areas ?s) (pre @ post)" by (subst area_ok_cong [where A = ?A]) (use ok in auto)
    moreover have "\<exists>n. areas ?s a = (?A a)\<lparr>vm_next := n\<rparr>" for a
      by (cases "a = v"; cases "a = p") (auto intro: exI [of _ "vm_next (?A a)"])
    ultimately have "remove_vm_struct mm v s = Some ?s \<and> mm_inv mm (pre @ post) ?s \<and>
        (\<forall>a. \<exists>n. areas ?s a = (?A a)\<lparr>vm_next := n\<rparr>)"
      using i unfolding mm_inv_def snoc area_seg_append by auto
    then show ?thesis by blast
  qed
qed

section \<open>Finding a gap\<close>

lemma ALIGN_UP_aligned:
  assumes "unat x mod 4096 = 0"
  shows "ALIGN_UP (x :: u32) PAGE_SIZE = x"
proof -
  obtain k where k: "unat x = 4096 * k" using assms by (auto simp: mod_eq_0_iff_dvd)
  then have "4096 * k < 4294967296" using unat_lt(3) [of x] by simp
  then have "unat x + 4095 < 2 ^ 32" unfolding k by simp
  then have "unat (ALIGN_UP x PAGE_SIZE) = (unat x + 4095) div 4096 * 4096" by (rule unat_ALIGN_UP_page)
  also have "\<dots> = unat x" using assms by (auto elim: dvdE simp: mod_eq_0_iff_dvd)
  finally show ?thesis by (simp add: word_unat_eq_iff)
qed

lemma gap_scan_spec:
  assumes "area_seg A v as 0" and "area_ok A as" and "\<forall>a \<in> set as. unat (vm_end (A a)) mod 4096 = 0"
  shows "\<exists>r. gap_scan need A v addr = Some r \<and> (r \<noteq> 0 \<longrightarrow> addr \<le> r \<and>
     (\<forall>a \<in> set as. vm_end (A a) \<le> r \<or> unat r + unat need \<le> unat (vm_start (A a))))"
  using assms
proof (induction as arbitrary: v addr)
  case Nil
  then show ?case by (simp add: gap_scan.simps)
next
  case (Cons a as)
  then have v: "v = a" "a \<noteq> 0" and seg: "area_seg A (vm_next (A a)) as 0" and ok: "area_ok A as"
    and above: "\<forall>b \<in> set as. vm_end (A a) \<le> vm_start (A b)" and size: "vm_start (A a) < vm_end (A a)"
    and al: "ALIGN_UP (vm_end (A a)) PAGE_SIZE = vm_end (A a)"
    by (auto simp: area_ok_Cons ALIGN_UP_aligned)
  show ?case
  proof (cases "addr < vm_start (A a) \<and> need \<le> vm_start (A a) - addr")
    case True
    then have fit: "unat addr + unat need \<le> unat (vm_start (A a))"
      by (auto simp: word_less_nat_alt word_le_nat_alt unat_sub_small)
    have "unat addr + unat need \<le> unat (vm_start (A b))" if "b \<in> set as" for b
      using fit size above that by (meson le_less_trans less_imp_le order_trans word_le_nat_alt word_less_nat_alt)
    moreover have "gap_scan need A v addr = Some addr"
      by (subst gap_scan.simps) (use True v in \<open>simp add: less_imp_le\<close>)
    ultimately show ?thesis using fit by (intro exI [of _ addr]) auto
  next
    case no: False
    define addr' where "addr' = (if addr < vm_end (A a) then vm_end (A a) else addr)"
    have le: "addr \<le> addr'" "vm_end (A a) \<le> addr'" by (auto simp: addr'_def)
    have step: "gap_scan need A v addr =
        (if SEARCH_END \<le> addr' + need then Some 0 else gap_scan need A (vm_next (A a)) addr')"
      by (subst gap_scan.simps) (use no v in \<open>auto simp: addr'_def al Let_def\<close>)
    obtain r where r: "gap_scan need A (vm_next (A a)) addr' = Some r" "r \<noteq> 0 \<longrightarrow> addr' \<le> r \<and>
       (\<forall>b \<in> set as. vm_end (A b) \<le> r \<or> unat r + unat need \<le> unat (vm_start (A b)))"
      using Cons.IH [OF seg ok, of addr'] Cons.prems(3) by (meson list.set_intros(2))
    show ?thesis
    proof (cases "SEARCH_END \<le> addr' + need")
      case True
      then show ?thesis using step by simp
    next
      case False
      with step r(1) have "gap_scan need A v addr = Some r" by simp
      moreover have "addr \<le> r \<and> vm_end (A a) \<le> r" if "r \<noteq> 0" using r(2) le that by (metis order_trans)
      ultimately show ?thesis using r(2) by auto
    qed
  qed
qed

section \<open>Unmapping whole areas\<close>

lemma unmap_area_spec:
  fixes s :: "'a vma_state_scheme"
  assumes "vmm_wf s" and "run_ok (vm_start (areas s v)) (unat (vma_pages (areas s v)))"
  shows "\<exists>s'. unmap_area v s = Some s' \<and> vmm_wf s' \<and> areas s' = areas s \<and> mms s' = mms s \<and>
     aspace s' = unmap_run (vm_start (areas s v)) (unat (vma_pages (areas s v))) (aspace s)"
proof -
  obtain s' where s': "unmap_ignoring (vm_start (areas s v)) (vma_pages (areas s v)) s = Some s'" "vmm_wf s'"
    "aspace s' = unmap_run (vm_start (areas s v)) (unat (vma_pages (areas s v))) (aspace s)"
    using unmap_ignoring_spec [OF assms] by blast
  have "heap.more s' = heap.more s"
    using unmap_ignoring_rest [OF s'(1)] heap_more_cong unfolding rest_def by (metis prod.inject)
  with s' vma_more show ?thesis unfolding unmap_area_def by blast
qed

lemma set_mm_vmm [simp]:
  "vmm_wf (set_mm mm g s) = vmm_wf s" "aspace (set_mm mm g s) = aspace s"
  "vmm_wf (vm_area_free v s) = vmm_wf s" "aspace (vm_area_free v s) = aspace s"
  by (simp_all add: set_mm_def vm_area_free_def kfree_def Let_def)

text \<open>The pages of a list of areas.\<close>

definition in_area :: "(u32 \<Rightarrow> vm_area_struct) \<Rightarrow> u32 list \<Rightarrow> u32 \<Rightarrow> bool" where
  "in_area A as va \<longleftrightarrow> (\<exists>a \<in> set as. in_run (vm_start (A a)) (unat (vma_pages (A a))) va)"

lemma munmap_from_head:
  assumes "vmm_wf s" and "area_seg (areas s) v (as2 @ as3) 0"
    and "\<forall>a \<in> set as2. vm_start (areas s a) < e \<and> vm_end (areas s a) \<le> e"
    and "as3 = [] \<or> e \<le> vm_start (areas s (hd as3))"
    and "\<forall>a \<in> set as2. run_ok (vm_start (areas s a)) (unat (vma_pages (areas s a)))"
  shows "\<exists>s'. munmap_from mm e 0 v s = Some (KERNEL_OK, s') \<and> vmm_wf s' \<and> areas s' = areas s \<and>
     mmap (mms s' mm) = (if as2 = [] then mmap (mms s mm) else hd (as3 @ [0])) \<and>
     map_count (mms s' mm) = map_count (mms s mm) - of_nat (length as2) \<and>
     aspace s' = (\<lambda>va. if in_area (areas s) as2 va then None else aspace s va)"
  using assms
proof (induction as2 arbitrary: v s)
  case Nil
  then have "v = 0 \<or> e \<le> vm_start (areas s v)" by (cases as3) auto
  then have "munmap_from mm e 0 v s = Some (KERNEL_OK, s)" by (subst munmap_from.simps) auto
  with Nil.prems(1) show ?case by (simp add: in_area_def)
next
  case (Cons a as)
  let ?A = "areas s" and ?nx = "vm_next (areas s a)"
  have v: "v = a" "a \<noteq> 0" and seg: "area_seg ?A ?nx (as @ as3) 0" using Cons.prems(2) by auto
  obtain s1 where s1: "unmap_area a s = Some s1" "vmm_wf s1" "areas s1 = ?A" "mms s1 = mms s"
    "aspace s1 = unmap_run (vm_start (?A a)) (unat (vma_pages (?A a))) (aspace s)"
    using unmap_area_spec [OF Cons.prems(1), of a] Cons.prems(5) by auto
  define s2 where "s2 = vm_area_free a (relink mm 0 ?nx s1)"
  have m2: "vmm_wf s2" "areas s2 = ?A" "aspace s2 = aspace s1" "mmap (mms s2 mm) = ?nx"
    "map_count (mms s2 mm) = map_count (mms s mm) - 1"
    using s1 by (simp_all add: s2_def relink_def)
  have step: "munmap_from mm e 0 v s = munmap_from mm e 0 ?nx s2"
    by (subst munmap_from.simps) (use Cons.prems(3) v s1(1) in \<open>auto simp: not_less [symmetric] Let_def s2_def\<close>)
  have "\<exists>s'. munmap_from mm e 0 ?nx s2 = Some (KERNEL_OK, s') \<and> vmm_wf s' \<and> areas s' = areas s2 \<and>
     mmap (mms s' mm) = (if as = [] then mmap (mms s2 mm) else hd (as3 @ [0])) \<and>
     map_count (mms s' mm) = map_count (mms s2 mm) - of_nat (length as) \<and>
     aspace s' = (\<lambda>va. if in_area (areas s2) as va then None else aspace s2 va)"
    by (rule Cons.IH) (use m2 seg Cons.prems(3-5) in auto)
  then obtain s' where s': "munmap_from mm e 0 ?nx s2 = Some (KERNEL_OK, s')" "vmm_wf s'" "areas s' = ?A"
     "mmap (mms s' mm) = (if as = [] then ?nx else hd (as3 @ [0]))"
     "map_count (mms s' mm) = map_count (mms s mm) - 1 - of_nat (length as)"
     "aspace s' = (\<lambda>va. if in_area ?A as va then None else aspace s1 va)"
    unfolding m2 by blast
  have "?nx = hd (as3 @ [0])" if "as = []" using area_seg_hd [OF seg] that by simp
  with s' step s1(5) show ?case
    by (auto simp: in_area_def unmap_run_def fun_eq_iff algebra_simps)
qed

section \<open>Mapping\<close>

text \<open>A lazy mapping at a given address: allocate, fill in, insert.\<close>

lemma mmap_anonymous_lazy:
  assumes mm: "mm \<noteq> 0" and addr: "addr \<noteq> 0" "len \<noteq> 0" and lazy: "flags AND VM_MAP_IMMEDIATE = 0"
    and start: "start = ALIGN_DOWN addr PAGE_SIZE" "start \<noteq> 0" and e: "e = ALIGN_UP (addr + len) PAGE_SIZE" "start < e"
  shows "mmap_anonymous mm addr len flags s = Option.bind (vm_area_alloc s) (\<lambda>(vma, s1).
     if vma = 0 then Some (KERNEL_OUT_OF_MEMORY, None, s1)
     else Option.bind (insert_vm_struct mm vma
            (set_area vma (\<lambda>v. v\<lparr>vm_start := start, vm_end := e, vm_pgoff := drop_bit 12 start,
               vm_flags := VM_ANON OR (flags AND VM_RWXS)\<rparr>) s1)) (\<lambda>(ok, s3).
       if \<not> ok then Some (KERNEL_ALREADY_MAPPED, None, vm_area_free vma s3)
       else Some (KERNEL_OK, Some start, s3)))"
proof -
  have "\<not> e \<le> start" using e(2) by simp
  then show ?thesis
    using mm addr lazy start(2) unfolding mmap_anonymous_def start(1) [symmetric] e(1) [symmetric]
    by (simp add: Let_def case_prod_beta cong: if_cong)
qed

lemma mm_inv_frame:
  assumes "mm_inv mm as s" and "\<And>a. a \<in> set as \<Longrightarrow> areas s' a = areas s a" and "mms s' mm = mms s mm"
  shows "mm_inv mm as s'"
  using assms area_seg_cong [of as "areas s'" "areas s"] area_ok_cong [of as "areas s'" "areas s"]
  by (simp add: mm_inv_def)

text \<open>The machine of theory \<open>Vmm\<close> with an empty heap and an empty address space at \<^verbatim>\<open>0x5000\<close>.\<close>

definition no_areas :: vma_state where
  "no_areas = heap.extend empty_heap (vma_state.fields (\<lambda>_. null_area) (\<lambda>_. \<lparr>mmap = 0, map_count = 0\<rparr>))"

lemma no_areas_heap: "heap_inv bs no_areas = heap_inv bs empty_heap" "heap_room n no_areas = heap_room n empty_heap"
proof -
  have f: "mem no_areas = mem empty_heap" "kpd no_areas = kpd empty_heap" "cr3 no_areas = cr3 empty_heap"
    "paging no_areas = paging empty_heap" "bits no_areas = bits empty_heap"
    "total_pages no_areas = total_pages empty_heap" "bm_size no_areas = bm_size empty_heap"
    "free_pages no_areas = free_pages empty_heap" "used_pages no_areas = used_pages empty_heap"
    "heap_head no_areas = heap_head empty_heap" "heap_current_end no_areas = heap_current_end empty_heap"
    "hblk no_areas = hblk empty_heap" "hmem no_areas = hmem empty_heap"
    by (simp_all add: no_areas_def heap.defs vma_state.defs)
  have "vmm_wf no_areas = vmm_wf empty_heap" "aspace no_areas = aspace empty_heap"
    by (simp_all add: vmm_wf_def pmm_inv_def free_frames_def page_used_def bitmap_wf_def capacity_def
        has_table_def table_def pde_def frame_taken_def fun_eq_iff aspace_def translate_def f)
  then show "heap_inv bs no_areas = heap_inv bs empty_heap" "heap_room n no_areas = heap_room n empty_heap"
    by (simp_all add: heap_inv_def heap_room_def f)
qed

lemma no_areas_wf: "heap_wf no_areas" "heap_used no_areas = {}" "mm_inv 0x5000 [] no_areas"
  "heap_room sizeof_vm_area_struct no_areas" "areas_held [] no_areas"
  using empty_heap_wf empty_heap_room [of 20]
  by (simp_all add: heap_wf_def heap_used_def no_areas_heap mm_inv_def areas_held_def)
     (simp_all add: no_areas_def heap.defs vma_state.defs)

section \<open>Properties\<close>

text \<open>
  \<^verbatim>\<open>find_vma\<close> returns the first area that ends after the address, and so tells whether the
  address is mapped: some area contains it exactly when the area returned begins at or before it.
\<close>

theorem find_vma_correct:
  assumes "mm_inv mm as s"
  shows "\<exists>v. find_vma mm addr s = Some v \<and>
     (v = 0 \<longleftrightarrow> (\<forall>a \<in> set as. vm_end (areas s a) \<le> addr)) \<and>
     (v \<noteq> 0 \<longrightarrow> v \<in> set as \<and> addr < vm_end (areas s v) \<and>
        ((\<exists>a \<in> set as. vm_start (areas s a) \<le> addr \<and> addr < vm_end (areas s a)) \<longleftrightarrow> vm_start (areas s v) \<le> addr))"
proof -
  let ?A = "areas s"
  have i: "mm \<noteq> 0" "area_seg ?A (mmap (mms s mm)) as 0" "area_ok ?A as" using assms by (simp_all add: mm_inv_def)
  note ret = find_from_eq [OF i(2), of addr]
  show ?thesis
  proof (cases "find (\<lambda>a. addr < vm_end (?A a)) as")
    case None
    then have "find_vma mm addr s = Some 0" using ret i(1) by (simp add: find_vma_def)
    moreover have "\<forall>a \<in> set as. vm_end (?A a) \<le> addr" using None by (auto simp: find_None_iff not_less)
    ultimately show ?thesis by simp
  next
    case (Some v)
    then obtain k where k: "k < length as" "as ! k = v" "addr < vm_end (?A v)" "\<forall>j < k. \<not> addr < vm_end (?A (as ! j))"
      by (auto simp: find_Some_iff)
    then have v: "v \<in> set as" "v \<noteq> 0" using area_seg_nonzero [OF i(2)] nth_mem [of k as] by auto
    have "vm_start (?A v) \<le> addr" if a: "a \<in> set as" "vm_start (?A a) \<le> addr" "addr < vm_end (?A a)" for a
    proof -
      obtain j where j: "j < length as" "as ! j = a" using a(1) by (auto simp: in_set_conv_nth)
      then have "k \<le> j" using k(4) a(3) by (meson not_le)
      then have "a = v \<or> vm_end (?A v) \<le> vm_start (?A a)"
        using i(3) j k(1,2) by (auto simp: area_ok_def sorted_wrt_iff_nth_less le_less)
      then show ?thesis using a k(3) by (metis leD order_trans)
    qed
    with k(3) v have "(\<exists>a \<in> set as. vm_start (?A a) \<le> addr \<and> addr < vm_end (?A a)) \<longleftrightarrow> vm_start (?A v) \<le> addr"
      by blast
    moreover have "find_vma mm addr s = Some v" using ret Some i(1) by (simp add: find_vma_def)
    ultimately show ?thesis using v k(3) by (auto simp: not_less [symmetric])
  qed
qed

text \<open>A space with the areas \<^verbatim>\<open>[0x40000000, 0x40001000)\<close> and \<^verbatim>\<open>[0x40002000, 0x40003000)\<close>.\<close>

definition two_areas :: vma_state where
  "two_areas = no_areas\<lparr>areas := (\<lambda>_. null_area)
     (0x100 := \<lparr>vm_start = 0x40000000, vm_end = 0x40001000, vm_pgoff = 0x40000, vm_flags = 16, vm_next = 0x200\<rparr>,
      0x200 := \<lparr>vm_start = 0x40002000, vm_end = 0x40003000, vm_pgoff = 0x40002, vm_flags = 16, vm_next = 0\<rparr>,
      0x300 := \<lparr>vm_start = 0x40001000, vm_end = 0x40002000, vm_pgoff = 0x40001, vm_flags = 16, vm_next = 0\<rparr>),
     mms := (\<lambda>_. \<lparr>mmap = 0x100, map_count = 2\<rparr>)\<rparr>"

lemma two_areas_inv: "mm_inv 0x5000 [0x100, 0x200] two_areas" "vmm_wf two_areas"
proof -
  show "mm_inv 0x5000 [0x100, 0x200] two_areas" by (simp add: mm_inv_def two_areas_def area_ok_def)
  show "vmm_wf two_areas" using no_areas_wf(1) heap_invD(1) by (auto simp: two_areas_def heap_wf_def)
qed

theorem find_vma_correct_witness:
  "\<exists>v. find_vma 0x5000 0x40002800 two_areas = Some v \<and> v \<in> {0, 0x100, 0x200}"
  using find_vma_correct [OF two_areas_inv(1), of "0x40002800"] by auto

text \<open>\<^verbatim>\<open>insert_vm_struct\<close> of an area that does not begin below the first one: it succeeds exactly
  when the area overlaps none, and then the list is sorted and disjoint with the new area in it and the
  count is right; otherwise nothing changes. No area changes its bounds.
\<close>

theorem insert_vm_struct_sorted:
  assumes "mm_inv mm as s" and "vma \<noteq> 0" "vma \<notin> set as"
    and "vm_start (areas s vma) < vm_end (areas s vma)"
    and "as = [] \<or> vm_start (areas s (hd as)) \<le> vm_start (areas s vma)"
  shows "\<exists>ok s'. insert_vm_struct mm vma s = Some (ok, s') \<and>
     (ok \<longleftrightarrow> (\<forall>a \<in> set as. vm_end (areas s a) \<le> vm_start (areas s vma) \<or> vm_end (areas s vma) \<le> vm_start (areas s a))) \<and>
     (if ok then (\<exists>pre post. as = pre @ post \<and> mm_inv mm (pre @ vma # post) s') \<and>
                 (\<forall>a. \<exists>n. areas s' a = (areas s a)\<lparr>vm_next := n\<rparr>)
      else s' = s)"
  using assms(1-4)
proof (cases rule: insert_vm_struct_cases)
  case overlap
  then show ?thesis by (auto simp: not_le)
next
  case (head s')
  then have "vm_start (areas s (hd as)) \<le> vm_start (areas s vma)" using assms(5) by simp
  with assms(4) have "vm_start (areas s (hd as)) < vm_end (areas s vma)" by (rule le_less_trans [rotated])
  with head(3) show ?thesis by simp
next
  case (linked s' pre post)
  then show ?thesis by (intro exI [of _ True] exI [of _ s']) auto
qed

theorem insert_vm_struct_sorted_witness:
  "\<exists>s'. insert_vm_struct 0x5000 0x300 two_areas = Some (True, s') \<and> (\<exists>as. mm_inv 0x5000 as s')"
proof -
  have ins: "\<exists>ok s'. insert_vm_struct 0x5000 0x300 two_areas = Some (ok, s') \<and>
     (ok \<longleftrightarrow> (\<forall>a \<in> set [0x100, 0x200]. vm_end (areas two_areas a) \<le> vm_start (areas two_areas 0x300) \<or>
                vm_end (areas two_areas 0x300) \<le> vm_start (areas two_areas a))) \<and>
     (if ok then (\<exists>pre post. [0x100, 0x200] = pre @ post \<and> mm_inv 0x5000 (pre @ 0x300 # post) s') \<and>
                 (\<forall>a. \<exists>n. areas s' a = (areas two_areas a)\<lparr>vm_next := n\<rparr>)
      else s' = two_areas)"
    by (rule insert_vm_struct_sorted [OF two_areas_inv(1)]) (simp_all add: two_areas_def)
  have free: "\<forall>a \<in> set [0x100, 0x200]. vm_end (areas two_areas a) \<le> vm_start (areas two_areas 0x300) \<or>
                vm_end (areas two_areas 0x300) \<le> vm_start (areas two_areas a)" by (simp add: two_areas_def)
  from ins show ?thesis unfolding eqTrueI [OF free] by (elim exE conjE) auto
qed

text \<open>
  The address \<^verbatim>\<open>unmapped_area\<close> returns is free: the search returns, and a result other than 0
  lies at or above \<^verbatim>\<open>SEARCH_START\<close> and begins a range of the page-aligned length that overlaps no area.
\<close>

theorem unmapped_area_free:
  assumes "mm_inv mm as s" and "\<forall>a \<in> set as. unat (vm_end (areas s a)) mod 4096 = 0"
  shows "\<exists>r. unmapped_area mm len s = Some r \<and> (r \<noteq> 0 \<longrightarrow> SEARCH_START \<le> r \<and>
     (\<forall>a \<in> set as. vm_end (areas s a) \<le> r \<or>
        unat r + unat (ALIGN_UP len PAGE_SIZE) \<le> unat (vm_start (areas s a))))"
proof -
  have i: "area_seg (areas s) (mmap (mms s mm)) as 0" "area_ok (areas s) as" using assms by (simp_all add: mm_inv_def)
  show ?thesis
  proof (cases "len = 0 \<or> mmap (mms s mm) = 0")
    case True
    then show ?thesis using area_seg_null [OF i(1)] by (auto simp: unmapped_area_def Let_def)
  next
    case False
    then show ?thesis using gap_scan_spec [OF i assms(2), of "ALIGN_UP len PAGE_SIZE" SEARCH_START] assms(1)
      by (simp add: unmapped_area_def Let_def mm_inv_def)
  qed
qed

theorem unmapped_area_free_witness: "\<exists>r. unmapped_area 0x5000 0x2000 two_areas = Some r \<and> (r = 0 \<or> SEARCH_START \<le> r)"
  using unmapped_area_free [OF two_areas_inv(1), of "0x2000"] by (auto simp: two_areas_def)

text \<open>Property C40. \<^verbatim>\<open>munmap_range\<close> of a range that holds the areas \<open>as2\<close> whole and touches no other: it unmaps
  exactly their pages. But it makes the areas after the range the whole list: the areas \<open>as1\<close> below the
  range are lost, although the count still includes them, so that the list is right afterwards exactly
  when there were none.
\<close>

theorem munmap_range_loses_lower_areas:
  assumes inv: "mm_inv mm (as1 @ as2 @ as3) s" and wf: "vmm_wf s" and ne: "as2 \<noteq> []" "len \<noteq> 0"
    and range: "start = ALIGN_DOWN addr PAGE_SIZE" "e = ALIGN_UP (addr + len) PAGE_SIZE"
    and lower: "\<forall>a \<in> set as1. vm_end (areas s a) \<le> start"
    and inside: "\<forall>a \<in> set as2. start \<le> vm_start (areas s a) \<and> vm_end (areas s a) \<le> e"
    and upper: "\<forall>a \<in> set as3. e \<le> vm_start (areas s a)"
    and pages: "\<forall>a \<in> set as2. run_ok (vm_start (areas s a)) (unat (vma_pages (areas s a)))"
    and count: "length (as1 @ as2 @ as3) < 2 ^ 32"
  shows "\<exists>s'. munmap_range mm addr len s = Some (KERNEL_OK, s') \<and>
     area_seg (areas s') (mmap (mms s' mm)) as3 0 \<and> map_count (mms s' mm) = of_nat (length as1 + length as3) \<and>
     aspace s' = (\<lambda>va. if in_area (areas s) as2 va then None else aspace s va) \<and>
     (mm_inv mm as3 s' \<longleftrightarrow> as1 = [])"
proof -
  let ?A = "areas s"
  have i: "mm \<noteq> 0" "area_seg ?A (mmap (mms s mm)) (as1 @ as2 @ as3) 0" "area_ok ?A (as1 @ as2 @ as3)"
    "map_count (mms s mm) = of_nat (length (as1 @ as2 @ as3))" using inv by (simp_all add: mm_inv_def)
  obtain v as2' where v: "as2 = v # as2'" using ne(1) by (cases as2) auto
  have lt: "vm_start (?A a) < e" "start < vm_end (?A a)" if "a \<in> set as2" for a
    using i(3) inside that by (auto simp: area_ok_append area_ok_def intro: less_le_trans le_less_trans)
  have "find (\<lambda>a. start < vm_end (?A a)) (as1 @ as2 @ as3) = Some v"
  proof -
    have "find (\<lambda>a. start < vm_end (?A a)) as1 = None" using lower by (auto simp: find_None_iff not_less)
    then have "find (\<lambda>a. start < vm_end (?A a)) (as1 @ as2 @ as3) = find (\<lambda>a. start < vm_end (?A a)) (as2 @ as3)"
      by (induction as1) (auto split: if_splits)
    then show ?thesis using lt v by simp
  qed
  then have fv: "find_vma mm start s = Some v" using find_from_eq [OF i(2)] i(1) by (simp add: find_vma_def)
  have "\<not> vm_start (?A v) < start" using inside v by (simp add: not_less)
  then have prog: "munmap_range mm addr len s = munmap_from mm e 0 v s"
    using fv i(1) ne(2) range by (simp add: munmap_range_def Let_def)
  have seg: "area_seg ?A v (as2 @ as3) 0" using i(2) v by (auto simp: area_seg_append)
  have "as3 = [] \<or> e \<le> vm_start (?A (hd as3))" using upper by (cases as3) auto
  from munmap_from_head [OF wf seg _ this pages, of mm] inside lt(1) obtain s' where
    s': "munmap_from mm e 0 v s = Some (KERNEL_OK, s')" "areas s' = ?A" "mmap (mms s' mm) = hd (as3 @ [0])"
     "map_count (mms s' mm) = map_count (mms s mm) - of_nat (length as2)"
     "aspace s' = (\<lambda>va. if in_area ?A as2 va then None else aspace s va)" using ne(1) by auto
  obtain q where q: "area_seg ?A q as3 0" using seg by (auto simp: area_seg_append)
  then have list: "area_seg (areas s') (mmap (mms s' mm)) as3 0" using s'(2,3) area_seg_hd [OF q] by simp
  have n: "map_count (mms s' mm) = of_nat (length as1 + length as3)" using s'(4) i(4) by simp
  have "of_nat (length as1 + length as3) = (of_nat (length as3) :: u32) \<longleftrightarrow> as1 = []"
    using count by (simp add: word_unat_eq_iff unat_of_nat_small del: of_nat_add)
  moreover have "area_ok ?A as3" using i(3) by (simp add: area_ok_append)
  ultimately have "mm_inv mm as3 s' \<longleftrightarrow> as1 = []" using i(1) list n s'(2) by (simp add: mm_inv_def del: of_nat_add)
  with list n s' prog show ?thesis by auto
qed

theorem munmap_range_loses_lower_areas_witness:
  "\<exists>s'. munmap_range 0x5000 0x40002000 0x1000 two_areas = Some (KERNEL_OK, s') \<and>
        mmap (mms s' 0x5000) = 0 \<and> map_count (mms s' 0x5000) = 1"
proof -
  have pages: "unat (vma_pages (areas two_areas 0x200)) = 1" by (simp add: vma_pages_def two_areas_def)
  have "\<exists>s'. munmap_range 0x5000 0x40002000 0x1000 two_areas = Some (KERNEL_OK, s') \<and>
     area_seg (areas s') (mmap (mms s' 0x5000)) [] 0 \<and>
     map_count (mms s' 0x5000) = of_nat (length [0x100 :: u32] + length ([] :: u32 list)) \<and>
     aspace s' = (\<lambda>va. if in_area (areas two_areas) [0x200] va then None else aspace two_areas va) \<and>
     (mm_inv 0x5000 [] s' \<longleftrightarrow> [0x100 :: u32] = [])"
    by (rule munmap_range_loses_lower_areas [where start = "0x40002000" and e = "0x40003000"])
       (use two_areas_inv in \<open>simp_all add: pages\<close>, simp_all add: two_areas_def ALIGN_DOWN_def ALIGN_UP_def run_ok_def)
  then show ?thesis by auto
qed

lemma insert_vm_struct_heap:
  assumes "insert_vm_struct mm v s = Some (ok, s')"
  shows "heap_wf s' = heap_wf s" "heap_used s' = heap_used s"
  using assms by (auto simp: insert_vm_struct_def Let_def split: if_splits)

text \<open>The structure is allocated and filled in before the list is touched.\<close>

lemma mmap_alloc_cases:
  assumes inv: "mm_inv mm as s" and wf: "heap_wf s" and room: "heap_room sizeof_vm_area_struct s"
    and held: "areas_held as s" and args: "addr \<noteq> 0" "len \<noteq> 0" "flags AND VM_MAP_IMMEDIATE = 0"
    and range: "start = ALIGN_DOWN addr PAGE_SIZE" "start \<noteq> 0" "e = ALIGN_UP (addr + len) PAGE_SIZE" "start < e"
  obtains (oom) s' where "mmap_anonymous mm addr len flags s = Some (KERNEL_OUT_OF_MEMORY, None, s')"
      "mm_inv mm as s'" "heap_wf s'" "heap_used s' = heap_used s"
  | (ok) v s' m where "mmap_anonymous mm addr len flags s = Option.bind (insert_vm_struct mm v s') (\<lambda>(ok, s3).
        if \<not> ok then Some (KERNEL_ALREADY_MAPPED, None, vm_area_free v s3) else Some (KERNEL_OK, Some start, s3))"
      "mm_inv mm as s'" "v \<noteq> 0" "v \<notin> set as" "vm_start (areas s' v) = start" "vm_end (areas s' v) = e"
      "\<And>a. a \<in> set as \<Longrightarrow> areas s' a = areas s a" "mms s' = mms s" "heap_wf s'"
      "heap_used s' = insert (unat v, m) (heap_used s)" "\<And>n. 0 < n \<Longrightarrow> (unat v, n) \<notin> heap_used s" "20 \<le> m"
proof -
  have mm: "mm \<noteq> 0" using inv by (simp add: mm_inv_def)
  note prog = mmap_anonymous_lazy [OF mm args range, of s]
  from wf room show thesis
  proof (cases rule: vm_area_alloc_cases)
    case a: (oom s')
    then have "mm_inv mm as s'" by (intro mm_inv_frame [OF inv]) auto
    with a prog show thesis by (intro oom [of s']) simp_all
  next
    case a: (ok v s1 m)
    define s2 where "s2 = set_area v (\<lambda>w. w\<lparr>vm_start := start, vm_end := e, vm_pgoff := drop_bit 12 start,
        vm_flags := VM_ANON OR (flags AND VM_RWXS)\<rparr>) s1"
    have fresh: "v \<notin> set as" using a(8) held by (auto simp: areas_held_def)
    then have same: "areas s2 b = areas s b" if "b \<in> set as" for b using that a(6) by (auto simp: s2_def)
    have "mm_inv mm as s2" by (intro mm_inv_frame [OF inv same]) (use a(7) in \<open>simp_all add: s2_def\<close>)
    with prog a fresh same show thesis by (intro ok [of v s2 m]) (simp_all add: s2_def)
  qed
qed



text \<open>\<^verbatim>\<open>mmap_anonymous\<close> of a free range below the first area: it reports \<^verbatim>\<open>KERNEL_ALREADY_MAPPED\<close>,
  and leaves the list headed by the area structure it has just freed. The test for an overlap "with
  the new head" compares the new area with itself.
\<close>

theorem mmap_below_head_dangles:
  assumes inv: "mm_inv mm as s" and wf: "heap_wf s" and room: "heap_room sizeof_vm_area_struct s"
    and held: "areas_held as s" and args: "addr \<noteq> 0" "len \<noteq> 0" "flags AND VM_MAP_IMMEDIATE = 0"
    and range: "start = ALIGN_DOWN addr PAGE_SIZE" "start \<noteq> 0" "e = ALIGN_UP (addr + len) PAGE_SIZE" "start < e"
    and below: "as \<noteq> []" "e \<le> vm_start (areas s (hd as))"
  shows "\<exists>st s'. mmap_anonymous mm addr len flags s = Some (st, None, s') \<and>
     (st = KERNEL_OUT_OF_MEMORY \<or> st = KERNEL_ALREADY_MAPPED \<and>
        (\<exists>v. mmap (mms s' mm) = v \<and> v \<noteq> 0 \<and> v \<notin> set as \<and> (\<forall>n > 0. (unat v, n) \<notin> heap_used s')) \<and>
        map_count (mms s' mm) = map_count (mms s mm))"
proof -
  from inv wf room held args range show ?thesis
  proof (cases rule: mmap_alloc_cases)
    case (oom s')
    then show ?thesis by simp
  next
    case (ok v s2 m)
    note v2 = ok(5,6) and A2 = ok(7) and h2 = ok(9,10)
    have se: "vm_start (areas s2 v) < vm_end (areas s2 v)" using range(4) v2 by simp
    have hd: "e \<le> vm_start (areas s2 (hd as))" using below A2 by simp
    have all: "e \<le> vm_start (areas s2 a)" if "a \<in> set as" for a
    proof -
      have "area_ok (areas s2) (hd as # tl as)" using ok(2) below(1) by (simp add: mm_inv_def)
      then have "a = hd as \<or> vm_end (areas s2 (hd as)) \<le> vm_start (areas s2 a)" "vm_start (areas s2 (hd as)) < vm_end (areas s2 (hd as))"
        using that below(1) by (cases as; auto simp: area_ok_Cons)+
      then show ?thesis using hd order_trans [OF hd order_trans [OF less_imp_le]] by blast
    qed
    from ok(2,3,4) se show ?thesis
    proof (cases rule: insert_vm_struct_cases)
      case overlap
      then obtain a where "a \<in> set as" "vm_start (areas s2 a) < e" using v2 by auto
      with all show ?thesis by (meson leD)
    next
      case (head s3)
      have h3: "heap_wf s3" "(unat v, m) \<in> heap_used s3" "heap_used s3 = heap_used s2"
        using insert_vm_struct_heap [OF head(1)] h2 by auto
      then have "heap_used (vm_area_free v s3) = heap_used s"
        using kfree_spec [OF h3(1,2)] h2(2) ok(3,11,12) by (auto simp: vm_area_free_def)
      moreover have "mmap_anonymous mm addr len flags s = Some (KERNEL_ALREADY_MAPPED, None, vm_area_free v s3)"
        using ok(1) head(1) by simp
      ultimately show ?thesis using head(4) ok(3,4,8,11) by simp
    next
      case (linked s3 pre post)
      then obtain a where a: "a \<in> set pre" "a \<in> set as" using below(1) by (cases pre) auto
      then have "vm_end (areas s3 a) \<le> vm_start (areas s3 v)"
        using linked(3) by (auto simp: mm_inv_def area_ok_append)
      moreover have "vm_start (areas s3 a) < vm_end (areas s3 a)"
        using linked(3) a(1) by (auto simp: mm_inv_def area_ok_def)
      moreover have "vm_start (areas s3 a) = vm_start (areas s2 a)" "vm_start (areas s3 v) = start"
        using linked(6) [of a] linked(6) [of v] v2 by auto
      ultimately have "vm_start (areas s2 a) < start" by (metis less_le_trans)
      also note range(4)
      finally show ?thesis using all [OF a(2)] by simp
    qed
  qed
qed

lemma one_area_held:
  obtains s :: vma_state and m where "heap_wf s" "heap_room sizeof_vm_area_struct s" "heap_used s = {(0xD0000014, m)}" "0 < m"
    "mm_inv 0x5000 [0xD0000014] s" "vm_start (areas s 0xD0000014) = 0x40000000"
proof -
  have "map_option (\<lambda>(p, s). (p, heap_current_end s)) (kmalloc 20 no_areas) = Some (0xD0000014, 0xD0001000)"
    by code_simp
  then obtain s where k: "kmalloc 20 no_areas = Some (0xD0000014, s)" "heap_current_end s = 0xD0001000" by auto
  with kmalloc_spec [OF no_areas_wf(1) _ no_areas_wf(4)] no_areas_wf(2) obtain m where
    m: "heap_wf s" "heap_used s = {(0xD0000014, m)}" "20 \<le> m" by auto
  let ?s = "s\<lparr>areas := (\<lambda>_. null_area\<lparr>vm_start := 0x40000000, vm_end := 0x40001000\<rparr>),
     mms := (\<lambda>_. \<lparr>mmap = 0xD0000014, map_count = 1\<rparr>)\<rparr>"
  have "heap_wf ?s" "heap_used ?s = {(0xD0000014, m)}" using m by (simp_all add: heap_wf_def heap_used_def)
  then show thesis using m(3) k(2)
    by (intro that [of ?s m]) (simp_all add: heap_room_def mm_inv_def area_ok_def null_area_def)
qed

theorem mmap_below_head_dangles_witness:
  "\<exists>(s :: vma_state) st s'. mmap_anonymous 0x5000 0x30000000 0x1000 3 s = Some (st, None, s') \<and>
     (st = KERNEL_OUT_OF_MEMORY \<or> st = KERNEL_ALREADY_MAPPED \<and> (\<forall>n > 0. (unat (mmap (mms s' 0x5000)), n) \<notin> heap_used s'))"
proof -
  obtain s :: vma_state and m where s: "heap_wf s" "heap_room sizeof_vm_area_struct s" "heap_used s = {(0xD0000014, m)}"
    "0 < m" "mm_inv 0x5000 [0xD0000014] s" "vm_start (areas s 0xD0000014) = 0x40000000" by (rule one_area_held)
  have held: "areas_held [0xD0000014] s" using s(3,4) by (auto simp: areas_held_def)
  have "\<exists>st s'. mmap_anonymous 0x5000 0x30000000 0x1000 3 s = Some (st, None, s') \<and>
     (st = KERNEL_OUT_OF_MEMORY \<or> st = KERNEL_ALREADY_MAPPED \<and>
        (\<exists>v. mmap (mms s' 0x5000) = v \<and> v \<noteq> 0 \<and> v \<notin> set [0xD0000014] \<and> (\<forall>n > 0. (unat v, n) \<notin> heap_used s')) \<and>
        map_count (mms s' 0x5000) = map_count (mms s 0x5000))"
    by (rule mmap_below_head_dangles [OF s(5,1,2) held, where start = "0x30000000" and e = "0x30001000"]) (simp_all add: ALIGN_DOWN_def ALIGN_UP_def s(6))
  then show ?thesis by blast
qed

end
