(* ===== verification/Cstring.thy ===== *)
theory Cstring
  imports Prelude
begin

text \<open>
  The C library's string and memory routines, \<^verbatim>\<open>src/lib/libc/string.c\<close>, \<^verbatim>\<open>src/lib/libc/stdlib.c\<close>
  and \<^verbatim>\<open>include/lib/libc/ctype.h\<close>, over a byte memory \<open>u32 \<Rightarrow> u8\<close>; the null pointer is address 0.
  Loops that stop at a terminating zero byte are partial functions (\<open>None\<close>: does not return); loops with
  a counter are total. An \<^verbatim>\<open>int\<close> result is an \<open>int\<close> where it is a difference of bytes and a 32-bit word
  where it accumulates.
\<close>

section \<open>Character classes\<close>

definition isdigit :: "u8 \<Rightarrow> bool" where
  "isdigit c \<longleftrightarrow> 0x30 \<le> c \<and> c \<le> 0x39"

definition isspace :: "u8 \<Rightarrow> bool" where
  "isspace c \<longleftrightarrow> c = 0x20 \<or> c = 0x0C \<or> c = 0x0A \<or> c = 0x0D \<or> c = 0x09 \<or> c = 0x0B"

definition isalpha :: "u8 \<Rightarrow> bool" where
  "isalpha c \<longleftrightarrow> 0x41 \<le> c \<and> c \<le> 0x5A \<or> 0x61 \<le> c \<and> c \<le> 0x7A"

definition toupper :: "u8 \<Rightarrow> u8" where
  "toupper c = (if 0x61 \<le> c \<and> c \<le> 0x7A then c - 0x61 + 0x41 else c)"

section \<open>Strings\<close>

type_synonym memory = "u32 \<Rightarrow> u8"

partial_function (option) strlen_from :: "memory \<Rightarrow> u32 \<Rightarrow> u32 \<Rightarrow> u32 option" where
  "strlen_from m str len = (if m (str + len) \<noteq> 0 then strlen_from m str (len + 1) else Some len)"

definition strlen :: "memory \<Rightarrow> u32 \<Rightarrow> u32 option" where
  "strlen m str = (if str = 0 then Some 0 else strlen_from m str 0)"

partial_function (option) strcmp_from :: "memory \<Rightarrow> u32 \<Rightarrow> u32 \<Rightarrow> int option" where
  "strcmp_from m s1 s2 =
     (if m s1 \<noteq> 0 \<and> m s1 = m s2 then strcmp_from m (s1 + 1) (s2 + 1)
      else Some (uint (m s1) - uint (m s2)))"

definition strcmp :: "memory \<Rightarrow> u32 \<Rightarrow> u32 \<Rightarrow> int option" where
  "strcmp m s1 s2 =
     (if s1 = 0 \<or> s2 = 0 then Some (if s1 = s2 then 0 else if s1 \<noteq> 0 then 1 else - 1)
      else strcmp_from m s1 s2)"

function strncmp_from :: "memory \<Rightarrow> u32 \<Rightarrow> u32 \<Rightarrow> u32 \<Rightarrow> int" where
  "strncmp_from m s1 s2 n =
     (if n > 0 \<and> m s1 \<noteq> 0 \<and> m s1 = m s2 then strncmp_from m (s1 + 1) (s2 + 1) (n - 1)
      else if n = 0 then 0
      else uint (m s1) - uint (m s2))"
  by pat_completeness auto
termination
  by (relation "measure (\<lambda>(m, s1, s2, n). unat n)") (auto simp: word_less_nat_alt unat_sub_small)

declare strncmp_from.simps [simp del]

definition strncmp :: "memory \<Rightarrow> u32 \<Rightarrow> u32 \<Rightarrow> u32 \<Rightarrow> int" where
  "strncmp m s1 s2 n = (if s1 = 0 \<or> s2 = 0 \<or> n = 0 then 0 else strncmp_from m s1 s2 n)"

partial_function (option) strcpy_from :: "u32 \<Rightarrow> u32 \<Rightarrow> memory \<Rightarrow> memory option" where
  "strcpy_from dest src m =
     (let m' = m(dest := m src)
      in if m src \<noteq> 0 then strcpy_from (dest + 1) (src + 1) m' else Some m')"

definition strcpy :: "u32 \<Rightarrow> u32 \<Rightarrow> memory \<Rightarrow> (u32 \<times> memory) option" where
  "strcpy dest src m =
     (if dest = 0 \<or> src = 0 then Some (dest, m)
      else map_option (\<lambda>m'. (dest, m')) (strcpy_from dest src m))"

text \<open>The second loop of \<^verbatim>\<open>strncpy\<close> pads with zero bytes.\<close>

function strncpy_pad :: "u32 \<Rightarrow> u32 \<Rightarrow> memory \<Rightarrow> memory" where
  "strncpy_pad dest n m = (if n > 0 then strncpy_pad (dest + 1) (n - 1) (m(dest := 0)) else m)"
  by pat_completeness auto
termination
  by (relation "measure (\<lambda>(dest, n, m). unat n)") (auto simp: word_less_nat_alt unat_sub_small)

declare strncpy_pad.simps [simp del]

function strncpy_from :: "u32 \<Rightarrow> u32 \<Rightarrow> u32 \<Rightarrow> memory \<Rightarrow> memory" where
  "strncpy_from dest src n m =
     (if n > 0 \<and> m src \<noteq> 0 then strncpy_from (dest + 1) (src + 1) (n - 1) (m(dest := m src))
      else strncpy_pad dest n m)"
  by pat_completeness auto
termination
  by (relation "measure (\<lambda>(dest, src, n, m). unat n)") (auto simp: word_less_nat_alt unat_sub_small)

declare strncpy_from.simps [simp del]

definition strncpy :: "u32 \<Rightarrow> u32 \<Rightarrow> u32 \<Rightarrow> memory \<Rightarrow> u32 \<times> memory" where
  "strncpy dest src n m =
     (if dest = 0 \<or> src = 0 \<or> n = 0 then (dest, m) else (dest, strncpy_from dest src n m))"

partial_function (option) strchr_from :: "memory \<Rightarrow> u32 \<Rightarrow> u8 \<Rightarrow> u32 option" where
  "strchr_from m s c =
     (if m s \<noteq> 0 then (if m s = c then Some s else strchr_from m (s + 1) c)
      else if c = 0 then Some s else Some 0)"

text \<open>The argument \<open>c\<close> is the \<^verbatim>\<open>int\<close> argument as a byte: the callers pass characters.\<close>

definition strchr :: "memory \<Rightarrow> u32 \<Rightarrow> u8 \<Rightarrow> u32 option" where
  "strchr m s c = (if s = 0 then Some 0 else strchr_from m s c)"

section \<open>Memory blocks\<close>

definition memset :: "u32 \<Rightarrow> u8 \<Rightarrow> u32 \<Rightarrow> memory \<Rightarrow> u32 \<times> memory" where
  "memset ptr v num m =
     (if ptr = 0 \<or> num = 0 then (ptr, m)
      else (ptr, for_loop 0 num (\<lambda>i m. m(ptr + i := v)) m))"

definition memcpy :: "u32 \<Rightarrow> u32 \<Rightarrow> u32 \<Rightarrow> memory \<Rightarrow> u32 \<times> memory" where
  "memcpy dest src num m =
     (if dest = 0 \<or> src = 0 \<or> num = 0 then (dest, m)
      else (dest, for_loop 0 num (\<lambda>i m. m(dest + i := m (src + i))) m))"

text \<open>The loop \<^verbatim>\<open>for (size_t i = num; i != 0; i--)\<close>.\<close>

function copy_down :: "u32 \<Rightarrow> u32 \<Rightarrow> u32 \<Rightarrow> memory \<Rightarrow> memory" where
  "copy_down d s i m =
     (if i \<noteq> 0 then copy_down d s (i - 1) (m(d + (i - 1) := m (s + (i - 1)))) else m)"
  by pat_completeness auto
termination
  by (relation "measure (\<lambda>(d, s, i, m). unat i)") (auto simp: unat_minus_one unat_gt_0)

declare copy_down.simps [simp del]

definition memmove :: "u32 \<Rightarrow> u32 \<Rightarrow> u32 \<Rightarrow> memory \<Rightarrow> u32 \<times> memory" where
  "memmove dest src num m =
     (if dest = 0 \<or> src = 0 \<or> num = 0 then (dest, m)
      else if dest < src then (dest, for_loop 0 num (\<lambda>i m. m(dest + i := m (src + i))) m)
      else if src < dest then (dest, copy_down dest src num m)
      else (dest, m))"

definition memcmp :: "memory \<Rightarrow> u32 \<Rightarrow> u32 \<Rightarrow> u32 \<Rightarrow> int" where
  "memcmp m p1 p2 num =
     (if p1 = 0 \<or> p2 = 0 \<or> num = 0 then 0
      else case for_ret 0 num (\<lambda>i _. Some (if m (p1 + i) \<noteq> m (p2 + i)
                                 then Some (uint (m (p1 + i)) - uint (m (p2 + i))) else None, ())) () of
             Some (Some d, _) \<Rightarrow> d
           | _ \<Rightarrow> 0)"

section \<open>Tokens\<close>

text \<open>\<^verbatim>\<open>while (*last && strchr(delim, *last)) last++;\<close> and the loop with the negated test.\<close>

partial_function (option) skip_while :: "bool \<Rightarrow> memory \<Rightarrow> u32 \<Rightarrow> u32 \<Rightarrow> u32 option" where
  "skip_while wanted m delim p =
     (if m p \<noteq> 0
      then Option.bind (strchr m delim (m p)) (\<lambda>r.
             if (r \<noteq> 0) = wanted then skip_while wanted m delim (p + 1) else Some p)
      else Some p)"

text \<open>\<open>saved\<close> is the static variable \<^verbatim>\<open>last\<close>; the result is the token, its new value, and memory.\<close>

definition strtok :: "u32 \<Rightarrow> u32 \<Rightarrow> u32 \<Rightarrow> memory \<Rightarrow> (u32 \<times> u32 \<times> memory) option" where
  "strtok str delim saved m =
     (let p = (if str \<noteq> 0 then str else saved)
      in if p = 0 \<or> m p = 0 then Some (0, p, m)
         else Option.bind (skip_while True m delim p) (\<lambda>start.
           if m start = 0 then Some (0, start, m)
           else map_option (\<lambda>e.
                  if m e \<noteq> 0 then (start, e + 1, m(e := 0)) else (start, 0, m))
                (skip_while False m delim start)))"

section \<open>Numbers\<close>

text \<open>The value of a hexadecimal digit, as \<^verbatim>\<open>strtoul\<close> and \<^verbatim>\<open>hex_to_u32\<close> decide it.\<close>

definition hex_digit :: "u8 \<Rightarrow> u32 option" where
  "hex_digit c =
     (if 0x30 \<le> c \<and> c \<le> 0x39 then Some (ucast (c - 0x30))
      else if 0x61 \<le> c \<and> c \<le> 0x66 then Some (ucast (c - 0x61) + 10)
      else if 0x41 \<le> c \<and> c \<le> 0x46 then Some (ucast (c - 0x41) + 10)
      else None)"

partial_function (option) strtoul_digits :: "memory \<Rightarrow> u32 \<Rightarrow> u32 \<Rightarrow> u32 \<Rightarrow> (u32 \<times> u32) option" where
  "strtoul_digits m base s val =
     (if m s \<noteq> 0
      then case hex_digit (m s) of
             None \<Rightarrow> Some (val, s)
           | Some digit \<Rightarrow> if base \<le> digit then Some (val, s)
                          else strtoul_digits m base (s + 1) (val * base + digit)
      else Some (val, s))"

partial_function (option) skip_blanks :: "memory \<Rightarrow> u32 \<Rightarrow> u32 option" where
  "skip_blanks m s =
     (if m s = 0x20 \<or> m s = 0x09 \<or> m s = 0x0A \<or> m s = 0x0D then skip_blanks m (s + 1) else Some s)"

text \<open>The value and \<^verbatim>\<open>*endptr\<close>.\<close>

definition strtoul :: "memory \<Rightarrow> u32 \<Rightarrow> u32 \<Rightarrow> (u32 \<times> u32) option" where
  "strtoul m str base =
     Option.bind (skip_blanks m str) (\<lambda>s0.
       let s1 = (if m s0 = 0x2B then s0 + 1 else s0);
           (base, s2) =
             (if base = 0
              then (if m s1 = 0x30
                    then (if m (s1 + 1) = 0x78 \<or> m (s1 + 1) = 0x58 then (16, s1 + 2) else (8, s1 + 1))
                    else (10, s1))
              else (base, s1));
           s3 = (if base = 16 \<and> m s2 = 0x30 \<and> (m (s2 + 1) = 0x78 \<or> m (s2 + 1) = 0x58) then s2 + 2 else s2)
       in strtoul_digits m base s3 0)"

partial_function (option) skip_spaces :: "memory \<Rightarrow> u32 \<Rightarrow> u32 option" where
  "skip_spaces m s = (if isspace (m s) then skip_spaces m (s + 1) else Some s)"

partial_function (option) atoi_digits :: "memory \<Rightarrow> u32 \<Rightarrow> u32 \<Rightarrow> u32 option" where
  "atoi_digits m s result =
     (if isdigit (m s) then atoi_digits m (s + 1) (result * 10 + ucast (m s - 0x30)) else Some result)"

text \<open>The \<^verbatim>\<open>int\<close> result as a 32-bit word in two's complement.\<close>

definition atoi :: "memory \<Rightarrow> u32 \<Rightarrow> u32 option" where
  "atoi m nptr =
     (if nptr = 0 then Some 0
      else Option.bind (skip_spaces m nptr) (\<lambda>s.
        let (sign, s1) = (if m s = 0x2B then (1, s + 1) else if m s = 0x2D then (- 1, s + 1) else (1, s))
        in map_option (\<lambda>result. sign * result) (atoi_digits m s1 0)))"

partial_function (option) hex_digits :: "memory \<Rightarrow> u32 \<Rightarrow> u32 \<Rightarrow> u32 option" where
  "hex_digits m str val =
     (if m str \<noteq> 0
      then case hex_digit (m str) of
             None \<Rightarrow> Some val
           | Some d \<Rightarrow> hex_digits m (str + 1) (push_bit 4 val OR d)
      else Some val)"

definition hex_to_u32 :: "memory \<Rightarrow> u32 \<Rightarrow> u32 option" where
  "hex_to_u32 m str =
     hex_digits m (if m str = 0x30 \<and> (m (str + 1) = 0x78 \<or> m (str + 1) = 0x58) then str + 2 else str) 0"

section \<open>What a string is\<close>

text \<open>\<open>cstr m p xs\<close>: at \<open>p\<close> there is the zero-terminated string \<open>xs\<close>.\<close>

fun cstr :: "memory \<Rightarrow> u32 \<Rightarrow> u8 list \<Rightarrow> bool" where
  "cstr m p [] \<longleftrightarrow> m p = 0"
| "cstr m p (x # xs) \<longleftrightarrow> m p = x \<and> x \<noteq> 0 \<and> cstr m (p + 1) xs"

lemma cstr_unique: "cstr m p xs \<Longrightarrow> cstr m p ys \<Longrightarrow> xs = ys"
proof (induction xs arbitrary: p ys)
  case Nil
  then show ?case by (cases ys) auto
next
  case (Cons x xs)
  then show ?case by (cases ys) auto
qed

lemma cstr_append:
  "cstr m p (xs @ ys) \<longleftrightarrow> (\<forall>i < length xs. m (p + of_nat i) = xs ! i \<and> xs ! i \<noteq> 0) \<and> cstr m (p + of_nat (length xs)) ys"
proof (induction xs arbitrary: p)
  case (Cons x xs)
  have "(\<forall>i < length (x # xs). m (p + of_nat i) = (x # xs) ! i \<and> (x # xs) ! i \<noteq> 0) \<longleftrightarrow>
      m p = x \<and> x \<noteq> 0 \<and> (\<forall>i < length xs. m (p + 1 + of_nat i) = xs ! i \<and> xs ! i \<noteq> 0)"
    by (auto simp: less_Suc_eq_0_disj add.assoc)
  with Cons show ?case by (simp add: add.assoc)
qed simp

lemma cstr_nth: "cstr m p xs \<longleftrightarrow>
    (\<forall>i < length xs. m (p + of_nat i) = xs ! i \<and> xs ! i \<noteq> 0) \<and> m (p + of_nat (length xs)) = 0"
  using cstr_append [of m p xs "[]"] by simp

lemma cstr_cong:
  assumes "\<And>i. i \<le> length xs \<Longrightarrow> m' (p + of_nat i) = m (p + of_nat i)"
  shows "cstr m' p xs = cstr m p xs"
  using assms by (simp add: cstr_nth)

section \<open>Searching and comparing\<close>

lemma strlen_from_eq:
  "cstr m (str + len) xs \<Longrightarrow> strlen_from m str len = Some (len + of_nat (length xs))"
proof (induction xs arbitrary: len)
  case (Cons x xs)
  then have "cstr m (str + (len + 1)) xs" by (simp add: add.assoc)
  from Cons.IH [OF this] Cons.prems show ?case by (simp add: strlen_from.simps [of m str len] add.assoc)
qed (simp add: strlen_from.simps)

lemma strchr_from_eq:
  "cstr m s xs \<Longrightarrow> c \<noteq> 0 \<Longrightarrow> strchr_from m s c =
     Some (if c \<in> set xs then s + of_nat (length (takeWhile ((\<noteq>) c) xs)) else 0)"
proof (induction xs arbitrary: s)
  case (Cons x xs)
  then show ?case by (auto simp: strchr_from.simps [of m s c] add.assoc)
qed (simp add: strchr_from.simps)

lemma uint_pos: "x \<noteq> 0 \<Longrightarrow> 0 < uint x"
  by (metis linorder_not_less order_antisym uint_ge_0 unsigned_eq_0_iff)

lemma strcmp_from_eq:
  "cstr m p xs \<Longrightarrow> cstr m q ys \<Longrightarrow> \<exists>d. strcmp_from m p q = Some d \<and>
     (d = 0 \<longleftrightarrow> xs = ys) \<and> (d < 0 \<longleftrightarrow> ord_class.lexordp xs ys)"
proof (induction xs arbitrary: p q ys)
  case Nil
  then show ?case
  proof (cases ys)
    case (Cons y ys')
    then have "m q = y" "y \<noteq> 0" "m p = 0" using Nil by auto
    moreover have "0 < uint y" using \<open>y \<noteq> 0\<close> by (simp add: uint_pos)
    ultimately show ?thesis using Cons by (simp add: strcmp_from.simps)
  qed (simp add: strcmp_from.simps)
next
  case (Cons x xs)
  show ?case
  proof (cases ys)
    case Nil
    have "0 < uint x" using Cons.prems(1) by (simp add: uint_pos)
    then show ?thesis using Cons.prems Nil by (auto simp: strcmp_from.simps)
  next
    case ys: (Cons y ys')
    show ?thesis
    proof (cases "x = y")
      case True
      then have "strcmp_from m p q = strcmp_from m (p + 1) (q + 1)"
        using Cons.prems ys by (simp add: strcmp_from.simps [of m p q])
      then show ?thesis using Cons.IH [of "p + 1" "q + 1" ys'] Cons.prems ys True by auto
    next
      case False
      then have "strcmp_from m p q = Some (uint x - uint y)"
        using Cons.prems ys by (simp add: strcmp_from.simps [of m p q])
      then show ?thesis using False ys by (auto simp: word_less_def word_uint_eq_iff)
    qed
  qed
qed

section \<open>Copying blocks\<close>

text \<open>The specification: every byte of the destination block is the byte the source block had.\<close>

definition block_copy :: "u32 \<Rightarrow> u32 \<Rightarrow> u32 \<Rightarrow> memory \<Rightarrow> memory" where
  "block_copy d s n m = (\<lambda>x. if x - d < n then m (s + (x - d)) else m x)"

lemma offset_eq: "unat (x - d) = unat i \<longleftrightarrow> x = d + (i :: u32)"
  by (metis add_diff_cancel_left' diff_add_cancel add.commute word_unat_eq_iff)

lemma copy_up_eq:
  assumes safe: "\<And>i. i < n \<Longrightarrow> unat i \<le> unat (s + i - d)"
  shows "for_loop 0 n (\<lambda>i m. m(d + i := m (s + i))) m = block_copy d s n m"
proof -
  let ?P = "\<lambda>k t. \<forall>x. t x = (if unat (x - d) < k then m (s + (x - d)) else m x)"
  have "?P (unat n) (for_loop 0 n (\<lambda>i m. m(d + i := m (s + i))) m)"
  proof (rule for_loop_counting [where P = ?P])
    fix i t assume P: "?P (unat i) t" and i: "i < n"
    have "t (s + i) = m (s + i)" using P safe [OF i] by simp
    show "?P (Suc (unat i)) (t(d + i := t (s + i)))"
    proof
      fix x
      show "(t(d + i := t (s + i))) x = (if unat (x - d) < Suc (unat i) then m (s + (x - d)) else m x)"
      proof (cases "x = d + i")
        case True
        then show ?thesis using \<open>t (s + i) = m (s + i)\<close> by simp
      next
        case False
        then have "unat (x - d) < Suc (unat i) \<longleftrightarrow> unat (x - d) < unat i"
          using offset_eq [of x d i] by (auto simp: less_Suc_eq)
        with False P show ?thesis by simp
      qed
    qed
  qed simp_all
  then show ?thesis by (auto simp: block_copy_def fun_eq_iff word_less_nat_alt)
qed

lemma copy_down_eq:
  assumes "s < d" and "unat d + unat n \<le> 2 ^ 32"
  shows "copy_down d s n m = block_copy d s n m"
  using assms(2)
proof (induction "unat n" arbitrary: n m)
  case 0
  then have "n = 0" by (simp add: unat_eq_zero)
  then show ?case by (simp add: copy_down.simps block_copy_def fun_eq_iff)
next
  case (Suc k)
  let ?j = "n - 1" and ?m = "m(d + (n - 1) := m (s + (n - 1)))"
  have nz: "n \<noteq> 0" using Suc.hyps(2) by auto
  then have j: "unat ?j = k" using Suc.hyps(2) by (simp add: unat_minus_one)
  have IH: "copy_down d s ?j ?m = block_copy d s ?j ?m"
    by (rule Suc.hyps(1)) (use j Suc in simp_all)
  have less: "x - d < n \<longleftrightarrow> x - d < ?j \<or> x = d + ?j" for x
    using offset_eq [of x d ?j] Suc.hyps(2) j by (auto simp: word_less_nat_alt)
  have src: "s + (x - d) \<noteq> d + ?j" if "x - d < ?j" for x
  proof -
    have lt: "unat (x - d) < k" "unat s < unat d" using that j assms(1) by (simp_all add: word_less_nat_alt)
    then have "unat (s + (x - d)) = unat s + unat (x - d)" "unat (d + ?j) = unat d + k"
      using Suc.prems Suc.hyps(2) j by (simp_all add: unat_word_ariths)
    then show ?thesis using lt by (metis add_less_mono less_irrefl_nat)
  qed
  have "copy_down d s n m = copy_down d s ?j ?m" using nz by (simp add: copy_down.simps [of d s n])
  also have "\<dots> = block_copy d s n m"
    unfolding IH using less src by (auto simp: block_copy_def fun_eq_iff)
  finally show ?case .
qed

lemma copy_up_safe:
  fixes d s n i :: u32
  assumes "d < s" "unat s + unat n \<le> 2 ^ 32" "i < n"
  shows "unat i \<le> unat (s + i - d)"
proof -
  have "unat (s + i) = unat s + unat i" using assms(2,3) by (simp add: unat_word_ariths word_less_nat_alt)
  moreover have "unat d < unat s" using assms(1) by (simp add: word_less_nat_alt)
  ultimately show ?thesis by (simp add: unat_sub_small)
qed

lemma memcpy_disjoint_safe:
  fixes d s n i :: u32
  assumes "unat s + unat n \<le> unat d \<or> unat d + unat n \<le> unat s"
    and "unat d + unat n \<le> 2 ^ 32" "unat s + unat n \<le> 2 ^ 32" and "i < n"
  shows "unat i \<le> unat (s + i - d)"
  using assms(1)
proof
  assume le: "unat s + unat n \<le> unat d"
  have i: "unat i < unat n" using assms(4) by (simp add: word_less_nat_alt)
  have u: "unat (s + i) = unat s + unat i" using le i less_trans [OF _ unat_lt(3) [of d]] by (simp add: unat_word_ariths)
  have "unat (s + i - d) = unat s + unat i + 2 ^ 32 - unat d"
    using le i u by (simp add: unat_sub_if_size word_size)
  then show ?thesis using assms(2) by simp
next
  assume le: "unat d + unat n \<le> unat s"
  have "d < s"
    using le assms(4) by (simp add: word_less_nat_alt)
  from copy_up_safe [OF this assms(3,4)] show ?thesis .
qed

section \<open>Copying strings\<close>

lemma strcpy_from_eq:
  assumes "cstr m src xs" and "length xs < 2 ^ 32"
    and "\<And>i j. i \<le> length xs \<Longrightarrow> j \<le> length xs \<Longrightarrow> dest + of_nat i \<noteq> src + of_nat j"
  shows "\<exists>m'. strcpy_from dest src m = Some m' \<and> cstr m' dest xs \<and>
           (\<forall>x. (\<forall>i \<le> length xs. x \<noteq> dest + of_nat i) \<longrightarrow> m' x = m x)"
  using assms
proof (induction xs arbitrary: dest src m)
  case Nil
  then show ?case by (simp add: strcpy_from.simps)
next
  case (Cons x xs)
  let ?m = "m(dest := m src)"
  have x: "m src = x" "x \<noteq> 0" using Cons.prems(1) by simp_all
  have ne: "dest \<noteq> src + of_nat j" if "j \<le> length (x # xs)" for j
    using Cons.prems(3) [of 0 j] that by simp
  have tail: "cstr ?m (src + 1) xs"
  proof -
    have "cstr ?m (src + 1) xs = cstr m (src + 1) xs"
    proof (rule cstr_cong)
      fix i assume "i \<le> length xs"
      then have "dest \<noteq> src + of_nat (Suc i)" using ne [of "Suc i"] by simp
      then show "?m (src + 1 + of_nat i) = m (src + 1 + of_nat i)" by (simp add: add.assoc)
    qed
    then show ?thesis using Cons.prems(1) by simp
  qed
  have "\<exists>m'. strcpy_from (dest + 1) (src + 1) ?m = Some m' \<and> cstr m' (dest + 1) xs \<and>
      (\<forall>x. (\<forall>i \<le> length xs. x \<noteq> dest + 1 + of_nat i) \<longrightarrow> m' x = ?m x)"
  proof (rule Cons.IH [OF tail])
    show "dest + 1 + of_nat i \<noteq> src + 1 + of_nat j" if "i \<le> length xs" "j \<le> length xs" for i j
      using Cons.prems(3) [of "Suc i" "Suc j"] that by (simp add: ac_simps)
  qed (use Cons.prems(2) in simp)
  then obtain m' where m': "strcpy_from (dest + 1) (src + 1) ?m = Some m'" "cstr m' (dest + 1) xs"
      "\<And>y. (\<And>i. i \<le> length xs \<Longrightarrow> y \<noteq> dest + 1 + of_nat i) \<Longrightarrow> m' y = ?m y"
    by blast
  have "dest \<noteq> dest + 1 + of_nat i" if "i \<le> length xs" for i
  proof -
    have "unat (of_nat (Suc i) :: u32) = Suc i" using that Cons.prems(2) by (intro unat_of_nat_small) simp
    then have "(of_nat (Suc i) :: u32) \<noteq> 0" by (metis nat.distinct(1) unat_0)
    then show ?thesis by (simp add: add.assoc)
  qed
  then have "m' dest = x" using m'(3) [of dest] x by simp
  moreover have "m' y = m y" if "\<forall>i \<le> length (x # xs). y \<noteq> dest + of_nat i" for y
  proof -
    have "y \<noteq> dest + 1 + of_nat i" if "i \<le> length xs" for i
      using \<open>\<forall>i \<le> length (x # xs). y \<noteq> dest + of_nat i\<close> that by (auto simp: add.assoc dest: spec [of _ "Suc i"])
    moreover have "y \<noteq> dest" using that by (auto dest: spec [of _ 0])
    ultimately show ?thesis using m'(3) [of y] by simp
  qed
  ultimately show ?case using m'(1,2) x by (simp add: strcpy_from.simps [of dest src m] Let_def)
qed

section \<open>Reading numbers\<close>

lemma hex_digit_bound: "hex_digit c = Some d \<Longrightarrow> d < 16"
  by (auto simp: hex_digit_def word_less_nat_alt word_le_nat_alt unat_word_ariths unsigned_ucast_eq
      take_bit_nat_eq_self unat_sub_small split: if_splits)

lemma shift_or_digit:
  assumes "d < (16 :: u32)"
  shows "push_bit 4 v OR d = v * 16 + d"
proof -
  have "\<not> bit d n" if "4 \<le> n" for n
  proof
    assume "bit d n"
    then have "bit (unat d) n" using bit_imp_le_length [of d n] by (simp add: bit_unsigned_iff)
    then have "2 ^ n \<le> unat d" by (metis bit_iff_odd div_less linorder_not_less even_zero)
    moreover have "(2 :: nat) ^ 4 \<le> 2 ^ n" using that by (rule power_increasing) simp
    ultimately show False using assms by (simp add: word_less_nat_alt)
  qed
  then have "push_bit 4 v AND d = 0" by (intro bit_word_eqI) (auto simp: bit_and_iff bit_push_bit_iff)
  then have "push_bit 4 v OR d = push_bit 4 v + d" by (simp add: disjunctive_add_eq_or)
  then show ?thesis by (simp add: push_bit_eq_mult)
qed

lemma hex_digits_strtoul:
  "cstr m p xs \<Longrightarrow> hex_digits m p v = map_option fst (strtoul_digits m 16 p v)"
proof (induction xs arbitrary: p v)
  case Nil
  then show ?case by (simp add: hex_digits.simps strtoul_digits.simps)
next
  case (Cons x xs)
  then have x: "m p = x" "x \<noteq> 0" "cstr m (p + 1) xs" by simp_all
  show ?case
  proof (cases "hex_digit x")
    case None
    with x show ?thesis by (simp add: hex_digits.simps [of m p] strtoul_digits.simps [of m 16 p])
  next
    case (Some d)
    then have d: "d < 16" by (rule hex_digit_bound)
    then have "\<not> 16 \<le> d" by (simp add: not_le)
    with x Some Cons.IH [OF x(3)] shift_or_digit [OF d] show ?thesis
      by (simp add: hex_digits.simps [of m p] strtoul_digits.simps [of m 16 p])
  qed
qed

text \<open>The value of a digit string in a base, most significant digit first.\<close>

fun digits_value :: "nat \<Rightarrow> u8 list \<Rightarrow> nat \<Rightarrow> nat" where
  "digits_value b [] v = v"
| "digits_value b (c # cs) v = digits_value b cs (v * b + (case hex_digit c of Some d \<Rightarrow> unat d | None \<Rightarrow> 0))"

definition digits_of :: "nat \<Rightarrow> u8 list \<Rightarrow> bool" where
  "digits_of b cs \<longleftrightarrow> (\<forall>c \<in> set cs. \<exists>d. hex_digit c = Some d \<and> unat d < b)"

lemma digits_value_snoc:
  "digits_value b (cs @ [c]) v = digits_value b cs v * b + (case hex_digit c of Some d \<Rightarrow> unat d | None \<Rightarrow> 0)"
  by (induction cs arbitrary: v) simp_all

lemma strtoul_digits_value:
  assumes "cstr m p (cs @ rest)" and "digits_of (unat base) cs"
    and "rest \<noteq> [] \<longrightarrow> (case hex_digit (hd rest) of None \<Rightarrow> True | Some d \<Rightarrow> base \<le> d)"
  shows "strtoul_digits m base p (of_nat v) =
           Some (of_nat (digits_value (unat base) cs v), p + of_nat (length cs))"
  using assms
proof (induction cs arbitrary: p v)
  case Nil
  show ?case
  proof (cases rest)
    case Nil
    then show ?thesis using Nil.prems by (simp add: strtoul_digits.simps [of m base p])
  next
    case (Cons r rs)
    then have "m p = r" "r \<noteq> 0" using Nil.prems(1) by simp_all
    then show ?thesis
      using Nil.prems(3) Cons by (cases "hex_digit r") (simp_all add: strtoul_digits.simps [of m base p])
  qed
next
  case (Cons c cs)
  then obtain d where d: "hex_digit c = Some d" "unat d < unat base" by (auto simp: digits_of_def)
  have IH: "strtoul_digits m base (p + 1) (of_nat (v * unat base + unat d)) =
      Some (of_nat (digits_value (unat base) cs (v * unat base + unat d)), p + 1 + of_nat (length cs))"
    by (rule Cons.IH) (use Cons.prems in \<open>simp_all add: digits_of_def\<close>)
  have "m p = c" "c \<noteq> 0" using Cons.prems(1) by simp_all
  moreover have "\<not> base \<le> d" using d(2) by (simp add: word_le_nat_alt)
  moreover have "of_nat v * base + d = of_nat (v * unat base + unat d)" by simp
  ultimately have "strtoul_digits m base p (of_nat v) =
      strtoul_digits m base (p + 1) (of_nat (v * unat base + unat d))"
    using d(1) by (subst strtoul_digits.simps) simp
  with IH d show ?case by (simp add: add.assoc)
qed

text \<open>The whole of \<^verbatim>\<open>strtoul\<close> on a string that begins with digits of the base.\<close>

lemma strtoul_digits_string:
  assumes "cstr m p (cs @ rest)" and "cs \<noteq> []" and "digits_of (unat base) cs" and "base \<noteq> 0" "base < 16"
    and "rest \<noteq> [] \<longrightarrow> (case hex_digit (hd rest) of None \<Rightarrow> True | Some d \<Rightarrow> base \<le> d)"
  shows "strtoul m p base = Some (of_nat (digits_value (unat base) cs 0), p + of_nat (length cs))"
proof -
  obtain c cs' where cs: "cs = c # cs'" using assms(2) by (cases cs) auto
  then have c: "m p = c" using assms(1) by simp
  have "hex_digit c \<noteq> None" using assms(3) cs by (auto simp: digits_of_def)
  then have "c \<noteq> 0x20 \<and> c \<noteq> 0x09 \<and> c \<noteq> 0x0A \<and> c \<noteq> 0x0D \<and> c \<noteq> 0x2B" by (auto simp: hex_digit_def)
  with c have "skip_blanks m p = Some p" "m p \<noteq> 0x2B" by (subst skip_blanks.simps, auto)
  then show ?thesis
    using assms(4,5) strtoul_digits_value [OF assms(1,3,6), of 0] by (auto simp: strtoul_def)
qed

section \<open>Properties\<close>

definition hello :: memory where
  "hello = (\<lambda>_. 0)(100 := 0x68, 101 := 0x69, 200 := 0x68, 201 := 0x6A, 300 := 0x32, 301 := 0x61)"

lemma hello_strings: "cstr hello 100 [0x68, 0x69]" "cstr hello 200 [0x68, 0x6A]" "cstr hello 300 [0x32, 0x61]"
  by (simp_all add: hello_def)

text \<open>
  \<^verbatim>\<open>memmove\<close> moves a block correctly whatever the overlap of source and destination: afterwards
  each byte of the destination is the byte the source had before, and every other byte is unchanged.
\<close>

theorem memmove_overlap:
  assumes "dest \<noteq> 0" "src \<noteq> 0" and "unat dest + unat n \<le> 2 ^ 32" "unat src + unat n \<le> 2 ^ 32"
  shows "memmove dest src n m = (dest, block_copy dest src n m)"
proof -
  consider "n = 0" | "n \<noteq> 0" "dest < src" | "n \<noteq> 0" "src < dest" | "dest = src" by fastforce
  then show ?thesis
  proof cases
    case 1
    then show ?thesis by (simp add: memmove_def block_copy_def)
  next
    case 2
    then show ?thesis using assms copy_up_eq [OF copy_up_safe [OF 2(2) assms(4)]]
      by (simp add: memmove_def)
  next
    case 3
    then show ?thesis using assms copy_down_eq [OF 3(2) assms(3)] by (auto simp: memmove_def)
  next
    case 4
    then show ?thesis using assms by (simp add: memmove_def block_copy_def fun_eq_iff)
  qed
qed

theorem memmove_overlap_witness:
  "snd (memmove 101 100 2 hello) 101 = 0x68 \<and> snd (memmove 101 100 2 hello) 102 = 0x69"
  using memmove_overlap [of 101 100 2 hello] by (simp add: block_copy_def hello_def)

text \<open>
  \<^verbatim>\<open>memcpy\<close> of blocks that do not overlap has the same effect.
\<close>

theorem memcpy_disjoint:
  assumes "dest \<noteq> 0" "src \<noteq> 0" and "unat dest + unat n \<le> 2 ^ 32" "unat src + unat n \<le> 2 ^ 32"
    and "unat src + unat n \<le> unat dest \<or> unat dest + unat n \<le> unat src"
  shows "memcpy dest src n m = (dest, block_copy dest src n m)"
proof (cases "n = 0")
  case True
  then show ?thesis by (simp add: memcpy_def block_copy_def)
next
  case False
  then show ?thesis using assms copy_up_eq [OF memcpy_disjoint_safe [OF assms(5,3,4)]]
    by (simp add: memcpy_def)
qed

theorem memcpy_disjoint_witness: "snd (memcpy 400 100 2 hello) 401 = 0x69"
  using memcpy_disjoint [of 400 100 2 hello] by (simp add: block_copy_def hello_def)

text \<open>
  \<^verbatim>\<open>strcmp\<close> returns for two strings; its result is 0 exactly when they are equal and negative
  exactly when the first comes first in the lexicographic order of unsigned bytes.
\<close>

theorem strcmp_order:
  assumes "p \<noteq> 0" "q \<noteq> 0" and "cstr m p xs" and "cstr m q ys"
  shows "\<exists>d. strcmp m p q = Some d \<and> (d = 0 \<longleftrightarrow> xs = ys) \<and> (d < 0 \<longleftrightarrow> ord_class.lexordp xs ys)"
  using strcmp_from_eq [OF assms(3,4)] assms(1,2) by (simp add: strcmp_def)

theorem strcmp_order_witness: "\<exists>d. strcmp hello 100 200 = Some d \<and> d < 0"
  using strcmp_order [OF _ _ hello_strings(1,2)] by auto

text \<open>
  \<^verbatim>\<open>strcpy\<close> returns, and makes a copy of the string at the destination when the two areas do
  not overlap; nothing outside the destination area changes, and \<^verbatim>\<open>strlen\<close> of the copy is the length.
\<close>

theorem strcpy_copies:
  assumes "dest \<noteq> 0" "src \<noteq> 0" and "cstr m src xs" and "length xs < 2 ^ 32"
    and "\<And>i j. i \<le> length xs \<Longrightarrow> j \<le> length xs \<Longrightarrow> dest + of_nat i \<noteq> src + of_nat j"
  shows "\<exists>m'. strcpy dest src m = Some (dest, m') \<and> cstr m' dest xs \<and>
           strlen m' dest = Some (of_nat (length xs)) \<and>
           (\<forall>x. (\<forall>i \<le> length xs. x \<noteq> dest + of_nat i) \<longrightarrow> m' x = m x)"
proof -
  obtain m' where m': "strcpy_from dest src m = Some m'" "cstr m' dest xs"
    "\<forall>x. (\<forall>i \<le> length xs. x \<noteq> dest + of_nat i) \<longrightarrow> m' x = m x"
    using strcpy_from_eq [OF assms(3-5)] by blast
  then show ?thesis using assms(1,2) strlen_from_eq [of m' dest 0 xs] by (simp add: strcpy_def strlen_def)
qed

theorem strcpy_copies_witness:
  "\<exists>m'. strcpy 400 100 hello = Some (400, m') \<and> cstr m' 400 [0x68, 0x69] \<and> strlen m' 400 = Some 2"
proof -
  have "(400 :: u32) + of_nat i \<noteq> 100 + of_nat j" if "i \<le> 2" "j \<le> 2" for i j
  proof -
    have "i \<in> {0, 1, 2}" "j \<in> {0, 1, 2}" using that by auto
    then show ?thesis by auto
  qed
  then show ?thesis using strcpy_copies [OF _ _ hello_strings(1), of 400] by simp blast
qed

text \<open>
  The two parsers agree: on a string that does not begin with a blank or a sign,
  \<^verbatim>\<open>hex_to_u32\<close> and \<^verbatim>\<open>strtoul\<close> with base 16 return the same value.
\<close>

theorem hex_to_u32_strtoul:
  assumes "cstr m p xs" and "m p \<notin> {0x20, 0x09, 0x0A, 0x0D, 0x2B}"
  shows "hex_to_u32 m p = map_option fst (strtoul m p 16)"
proof -
  have "skip_blanks m p = Some p" using assms(2) by (subst skip_blanks.simps) auto
  moreover have "cstr m (p + 2) (drop 2 xs)" if z: "m p = 0x30" and x: "m (p + 1) = 0x78 \<or> m (p + 1) = 0x58"
  proof -
    obtain ys where xs: "xs = 0x30 # ys" using assms(1) z by (cases xs) auto
    then obtain c zs where "ys = c # zs" using assms(1) x by (cases ys) auto
    with xs assms(1) show ?thesis by (simp add: add.assoc)
  qed
  ultimately show ?thesis
    using assms hex_digits_strtoul [of m p xs 0] hex_digits_strtoul [of m "p + 2" "drop 2 xs" 0]
    by (auto simp: hex_to_u32_def strtoul_def Let_def)
qed

theorem hex_to_u32_strtoul_witness: "hex_to_u32 hello 300 = map_option fst (strtoul hello 300 16)"
  by (rule hex_to_u32_strtoul [OF hello_strings(3)]) (simp add: hello_def)

text \<open>
  \<^verbatim>\<open>strtoul\<close> reads a number in any base up to 16: it returns the value of the longest run of
  digits of that base, modulo \<open>2\<^sup>3\<^sup>2\<close>, and the address of the first character after it.
\<close>

theorem strtoul_value:
  assumes "cstr m p (cs @ rest)" and "cs \<noteq> []" and "digits_of (unat base) cs" and "base \<noteq> 0" "base < 16"
    and "rest \<noteq> [] \<longrightarrow> (case hex_digit (hd rest) of None \<Rightarrow> True | Some d \<Rightarrow> base \<le> d)"
  shows "strtoul m p base = Some (of_nat (digits_value (unat base) cs 0), p + of_nat (length cs))"
  by (rule strtoul_digits_string [OF assms])

theorem strtoul_value_witness: "strtoul hello 300 10 = Some (2, 301)"
proof -
  have "digits_of 10 [0x32]" by (auto simp: digits_of_def hex_digit_def)
  then show ?thesis
    using strtoul_value [of hello 300 "[0x32]" "[0x61]" 10] hello_strings(3)
    by (simp add: hex_digit_def)
qed

end
