(* ===== verification/Klist.thy ===== *)
theory Klist
  imports Prelude
begin

text \<open>
  The doubly linked circular list of \<^verbatim>\<open>include/misc/list.h\<close>. A list is a head node and the nodes behind
  it, all in one store \<open>nodes\<close> from addresses to pairs of pointers; the operations are the pointer
  assignments of the source, one after the other, so that aliasing of the neighbours (an empty list,
  a list of one node) is as in C. \<open>ring N h xs\<close> says what list a head holds, and each operation is
  shown to do to \<open>xs\<close> what its comment says, and nothing to a list of other nodes.
\<close>

section \<open>Nodes and operations\<close>

record list_head =
  lh_next :: u32
  lh_prev :: u32

type_synonym nodes = "u32 \<Rightarrow> list_head"

definition INIT_LIST_HEAD :: "u32 \<Rightarrow> nodes \<Rightarrow> nodes" where
  "INIT_LIST_HEAD h N =
     (let N1 = N(h := (N h)\<lparr>lh_next := h\<rparr>) in N1(h := (N1 h)\<lparr>lh_prev := h\<rparr>))"

text \<open>\<^verbatim>\<open>__list_add\<close> and \<^verbatim>\<open>__list_del\<close>.\<close>

definition list_link :: "u32 \<Rightarrow> u32 \<Rightarrow> u32 \<Rightarrow> nodes \<Rightarrow> nodes" where
  "list_link new prev nxt N =
     (let N1 = N(nxt := (N nxt)\<lparr>lh_prev := new\<rparr>);
          N2 = N1(new := (N1 new)\<lparr>lh_next := nxt\<rparr>);
          N3 = N2(new := (N2 new)\<lparr>lh_prev := prev\<rparr>)
      in N3(prev := (N3 prev)\<lparr>lh_next := new\<rparr>))"

definition list_unlink :: "u32 \<Rightarrow> u32 \<Rightarrow> nodes \<Rightarrow> nodes" where
  "list_unlink prev nxt N =
     (let N1 = N(nxt := (N nxt)\<lparr>lh_prev := prev\<rparr>) in N1(prev := (N1 prev)\<lparr>lh_next := nxt\<rparr>))"

definition list_add :: "u32 \<Rightarrow> u32 \<Rightarrow> nodes \<Rightarrow> nodes" where
  "list_add new h N = list_link new h (lh_next (N h)) N"

definition list_add_tail :: "u32 \<Rightarrow> u32 \<Rightarrow> nodes \<Rightarrow> nodes" where
  "list_add_tail new h N = list_link new (lh_prev (N h)) h N"

definition list_del :: "u32 \<Rightarrow> nodes \<Rightarrow> nodes" where
  "list_del entry N =
     (let N1 = list_unlink (lh_prev (N entry)) (lh_next (N entry)) N;
          N2 = N1(entry := (N1 entry)\<lparr>lh_next := 0\<rparr>)
      in N2(entry := (N2 entry)\<lparr>lh_prev := 0\<rparr>))"

definition list_del_init :: "u32 \<Rightarrow> nodes \<Rightarrow> nodes" where
  "list_del_init entry N = INIT_LIST_HEAD entry (list_unlink (lh_prev (N entry)) (lh_next (N entry)) N)"

definition list_empty :: "u32 \<Rightarrow> nodes \<Rightarrow> bool" where
  "list_empty h N \<longleftrightarrow> lh_next (N h) = h"

definition list_move :: "u32 \<Rightarrow> u32 \<Rightarrow> nodes \<Rightarrow> nodes" where
  "list_move entry h N = list_add entry h (list_del entry N)"

definition list_move_tail :: "u32 \<Rightarrow> u32 \<Rightarrow> nodes \<Rightarrow> nodes" where
  "list_move_tail entry h N = list_add_tail entry h (list_del entry N)"

text \<open>\<open>off\<close> is the offset of the node in the structure that contains it.\<close>

definition list_entry :: "u32 \<Rightarrow> u32 \<Rightarrow> u32" where
  "list_entry p off = p - off"

definition list_first_entry :: "u32 \<Rightarrow> u32 \<Rightarrow> nodes \<Rightarrow> u32" where
  "list_first_entry h off N = list_entry (lh_next (N h)) off"

definition list_first_entry_or_null :: "u32 \<Rightarrow> u32 \<Rightarrow> nodes \<Rightarrow> u32" where
  "list_first_entry_or_null h off N = (if list_empty h N then 0 else lh_next (N h) - off)"

text \<open>\<^verbatim>\<open>list_for_each(pos, head)\<close>: the nodes visited, in order.\<close>

partial_function (option) nodes_from :: "u32 \<Rightarrow> nodes \<Rightarrow> u32 \<Rightarrow> u32 list option" where
  "nodes_from h N pos =
     (if pos \<noteq> h then Option.bind (nodes_from h N (lh_next (N pos))) (\<lambda>r. Some (pos # r)) else Some [])"

definition list_for_each :: "u32 \<Rightarrow> nodes \<Rightarrow> u32 list option" where
  "list_for_each h N = nodes_from h N (lh_next (N h))"

section \<open>What a list is\<close>

text \<open>\<open>ring N h xs\<close>: the list with head \<open>h\<close> holds the nodes \<open>xs\<close>, linked in a circle in both directions.\<close>

definition linked :: "nodes \<Rightarrow> u32 \<Rightarrow> u32 \<Rightarrow> bool" where
  "linked N a b \<longleftrightarrow> lh_next (N a) = b \<and> lh_prev (N b) = a"

definition ring :: "nodes \<Rightarrow> u32 \<Rightarrow> u32 list \<Rightarrow> bool" where
  "ring N h xs \<longleftrightarrow> distinct (h # xs) \<and> successively (linked N) (h # xs @ [h])"

lemma path_cong:
  assumes "\<And>x. x \<in> set (butlast xs) \<Longrightarrow> lh_next (N' x) = lh_next (N x)"
    and "\<And>x. x \<in> set (tl xs) \<Longrightarrow> lh_prev (N' x) = lh_prev (N x)"
  shows "successively (linked N') xs = successively (linked N) xs"
  using assms by (induction xs rule: induct_list012) (auto simp: linked_def)

lemma ring_append:
  "ring N h (xs @ ys) \<longleftrightarrow> distinct (h # xs @ ys) \<and> successively (linked N) (h # xs) \<and>
     successively (linked N) (ys @ [h]) \<and> linked N (last (h # xs)) (hd (ys @ [h]))"
  using successively_append_iff [of "linked N" "h # xs" "ys @ [h]"] by (auto simp: ring_def)

text \<open>Two stores that agree on the ring.\<close>

lemma ring_frame:
  assumes "\<And>x. x \<in> set (h # xs) \<Longrightarrow> N' x = N x"
  shows "ring N' h xs = ring N h xs"
proof -
  have "successively (linked N') (h # xs @ [h]) = successively (linked N) (h # xs @ [h])"
    by (rule path_cong) (use assms in \<open>auto dest: in_set_butlastD\<close>)
  then show ?thesis by (simp add: ring_def)
qed

text \<open>The two halves of a ring survive a change between them.\<close>

lemma ring_ends_in:
  assumes "p = last (h # xs)" and "q = hd (ys @ [h])"
  shows "p \<in> set (h # xs)" "q \<in> set (h # ys)"
proof -
  show "p \<in> set (h # xs)" unfolding assms(1) by (rule last_in_set) simp
  show "q \<in> set (h # ys)" unfolding assms(2) by (cases ys) simp_all
qed

lemma ring_halves:
  assumes d: "distinct (h # xs @ ys)" and halves: "successively (linked N) (h # xs)" "successively (linked N) (ys @ [h])"
    and p: "p = last (h # xs)" and q: "q = hd (ys @ [h])"
    and nx: "\<And>x. x \<in> set (h # xs @ ys) \<Longrightarrow> x \<noteq> p \<Longrightarrow> lh_next (N' x) = lh_next (N x)"
    and pv: "\<And>x. x \<in> set (h # xs @ ys) \<Longrightarrow> x \<noteq> q \<Longrightarrow> lh_prev (N' x) = lh_prev (N x)"
  shows "successively (linked N') (h # xs)" "successively (linked N') (ys @ [h])"
proof -
  note pq = ring_ends_in [OF p q]
  have out: "p \<notin> set (butlast (h # xs))" "q \<notin> set xs" "p \<notin> set ys" "q \<notin> set (tl (ys @ [h]))"
  proof -
    show "p \<notin> set (butlast (h # xs))" using d p by (cases xs rule: rev_cases) auto
    show "q \<notin> set xs" "p \<notin> set ys" using pq d by auto
    show "q \<notin> set (tl (ys @ [h]))" using q d by (cases ys) auto
  qed
  have inn: "x \<in> set (h # xs @ ys)" if "x \<in> set (tl (ys @ [h])) \<union> set (butlast (h # xs))" for x
    using that by (cases ys) (auto split: if_splits dest: in_set_butlastD)
  have nx': "lh_next (N' x) = lh_next (N x)" if "x \<in> set (butlast (h # xs)) \<union> set ys" for x
    by (rule nx) (use that out inn in \<open>fastforce simp del: butlast.simps\<close>)+
  have pv': "lh_prev (N' x) = lh_prev (N x)" if "x \<in> set xs \<union> set (tl (ys @ [h]))" for x
    by (rule pv) (use that out inn in fastforce)+
  show "successively (linked N') (h # xs)"
    by (subst path_cong [where N = N, OF nx' pv']) (use halves in simp_all)
  show "successively (linked N') (ys @ [h])"
    by (subst path_cong [where N = N, OF nx' pv']) (use halves in simp_all)
qed

section \<open>The operations on the list\<close>

lemma ring_neighbours:
  assumes "ring N h (xs @ n # ys)"
  shows "lh_prev (N n) = last (h # xs)" "lh_next (N n) = hd (ys @ [h])"
proof -
  have l: "linked N (last (h # xs)) n" and path: "successively (linked N) ((n # ys) @ [h])"
    using assms unfolding ring_append by simp_all
  have "linked N n (hd (ys @ [h]))" using path by (cases ys) simp_all
  with l show "lh_prev (N n) = last (h # xs)" "lh_next (N n) = hd (ys @ [h])" unfolding linked_def by blast+
qed

lemma ring_ends:
  assumes "ring N h xs"
  shows "lh_next (N h) = hd (xs @ [h])" "lh_prev (N h) = last (h # xs)"
  using assms ring_append [of N h "[]" xs] ring_append [of N h xs "[]"] by (auto simp: linked_def)

lemma ring_empty: "ring N h xs \<Longrightarrow> list_empty h N \<longleftrightarrow> xs = []"
  using ring_ends(1) [of N h xs] by (cases xs) (auto simp: list_empty_def ring_def)

lemma INIT_LIST_HEAD_ring [simp]: "ring (INIT_LIST_HEAD h N) h []"
  by (simp add: ring_def linked_def INIT_LIST_HEAD_def Let_def)

lemma list_link_ring:
  assumes r: "ring N h (xs @ ys)" and n: "n \<notin> set (h # xs @ ys)"
    and p: "p = last (h # xs)" and q: "q = hd (ys @ [h])"
  shows "ring (list_link n p q N) h (xs @ n # ys)"
proof -
  let ?N = "list_link n p q N"
  have d: "distinct (h # xs @ ys)" and halves: "successively (linked N) (h # xs)" "successively (linked N) (ys @ [h])"
    using r by (simp_all add: ring_append)
  note pq = ring_ends_in [OF p q]
  then have ne: "n \<noteq> p" "n \<noteq> q" using n by auto
  have "successively (linked ?N) (h # xs)" "successively (linked ?N) (ys @ [h])"
    by (rule ring_halves [OF d halves p q]; use n ne in \<open>auto simp: list_link_def Let_def\<close>)+
  moreover have "linked ?N p n" "linked ?N n q" using ne by (auto simp: linked_def list_link_def Let_def)
  moreover have "hd (ys @ [h]) = q" using q by simp
  ultimately show ?thesis using d n p unfolding ring_append by (cases ys) auto
qed

lemma list_unlink_ring:
  assumes r: "ring N h (xs @ n # ys)" and p: "p = last (h # xs)" and q: "q = hd (ys @ [h])"
    and same: "\<And>x. x \<noteq> n \<Longrightarrow> N' x = list_unlink p q N x"
  shows "ring N' h (xs @ ys)"
proof -
  have d: "distinct (h # xs @ ys)" "n \<notin> set (h # xs @ ys)" using r by (auto simp: ring_append)
  have halves: "successively (linked N) (h # xs)" "successively (linked N) (ys @ [h])"
    using r by (auto simp: ring_append successively_Cons)
  note pq = ring_ends_in [OF p q]
  then have ne: "n \<noteq> p" "n \<noteq> q" using d by auto
  have "N' x = list_unlink p q N x" if "x \<in> set (h # xs @ ys)" for x using that d(2) by (intro same) auto
  then have "x \<in> set (h # xs @ ys) \<Longrightarrow> x \<noteq> p \<Longrightarrow> lh_next (N' x) = lh_next (N x)"
    "x \<in> set (h # xs @ ys) \<Longrightarrow> x \<noteq> q \<Longrightarrow> lh_prev (N' x) = lh_prev (N x)" for x
    by (simp_all add: list_unlink_def Let_def)
  then have "successively (linked N') (h # xs)" "successively (linked N') (ys @ [h])"
    using ring_halves [OF d(1) halves p q] by blast+
  moreover have "linked N' p q" using ne same [of p] same [of q] by (auto simp: linked_def list_unlink_def Let_def)
  ultimately show ?thesis using d p q unfolding ring_append by auto
qed

lemma list_add_ring: "ring N h xs \<Longrightarrow> n \<notin> set (h # xs) \<Longrightarrow> ring (list_add n h N) h (n # xs)"
  using list_link_ring [of N h "[]" xs n h] ring_ends(1) [of N h xs] by (simp add: list_add_def)

lemma list_add_tail_ring: "ring N h xs \<Longrightarrow> n \<notin> set (h # xs) \<Longrightarrow> ring (list_add_tail n h N) h (xs @ [n])"
  using list_link_ring [of N h xs "[]" n _ h] ring_ends(2) [of N h xs] by (simp add: list_add_tail_def)

lemma list_del_ring: "ring N h (xs @ n # ys) \<Longrightarrow> ring (list_del n N) h (xs @ ys)"
  by (rule list_unlink_ring [OF _ refl refl]) (auto simp: list_del_def Let_def ring_neighbours)

lemma list_del_init_ring: "ring N h (xs @ n # ys) \<Longrightarrow> ring (list_del_init n N) h (xs @ ys)"
  by (rule list_unlink_ring [OF _ refl refl]) (auto simp: list_del_init_def INIT_LIST_HEAD_def Let_def ring_neighbours)

text \<open>A ring of other nodes is not touched.\<close>

lemma list_link_other: "x \<notin> {n, p, q} \<Longrightarrow> list_link n p q N x = N x"
  by (simp add: list_link_def Let_def)

lemma list_add_tail_other:
  assumes "ring N h xs" "n \<notin> set (h # xs)" "ring N g ys" "set (n # h # xs) \<inter> set (g # ys) = {}"
  shows "ring (list_add_tail n h N) g ys"
proof -
  have "lh_prev (N h) \<in> set (h # xs)" using ring_ends(2) [OF assms(1)] by simp
  then have "list_link n (lh_prev (N h)) h N x = N x" if "x \<in> set (g # ys)" for x
    by (intro list_link_other) (use assms(4) that in auto)
  with ring_frame [of g ys _ N] assms(3) show ?thesis unfolding list_add_tail_def by blast
qed

lemma list_del_other:
  assumes "ring N h (xs @ n # ys)" "ring N g zs" "set (h # xs @ n # ys) \<inter> set (g # zs) = {}"
  shows "ring (list_del n N) g zs" "ring (list_del_init n N) g zs"
proof -
  have "lh_prev (N n) \<in> set (h # xs)" "lh_next (N n) \<in> set (h # ys)"
    using ring_neighbours [OF assms(1)] ring_ends_in [OF refl refl] by metis+
  then have out: "x \<noteq> n" "x \<noteq> lh_prev (N n)" "x \<noteq> lh_next (N n)" if "x \<in> set (g # zs)" for x
    using that assms(3) by auto
  have "list_del n N x = N x" "list_del_init n N x = N x" if "x \<in> set (g # zs)" for x
    using out [OF that] by (simp_all add: list_del_def list_del_init_def INIT_LIST_HEAD_def list_unlink_def Let_def)
  then show "ring (list_del n N) g zs" "ring (list_del_init n N) g zs"
    using ring_frame [of g zs _ N] assms(2) by blast+
qed

lemma nodes_from_path:
  "successively (linked N) (ys @ [h]) \<Longrightarrow> h \<notin> set ys \<Longrightarrow> nodes_from h N (hd (ys @ [h])) = Some ys"
proof (induction ys)
  case Nil
  then show ?case by (simp add: nodes_from.simps)
next
  case (Cons y ys)
  then have "lh_next (N y) = hd (ys @ [h])" by (cases ys) (auto simp: linked_def)
  moreover have "nodes_from h N (hd (ys @ [h])) = Some ys" using Cons by (auto simp: successively_Cons)
  ultimately show ?case using Cons.prems(2) by (auto simp: nodes_from.simps [of h N y])
qed

lemma list_for_each_ring: "ring N h xs \<Longrightarrow> list_for_each h N = Some xs"
  using nodes_from_path [of N xs h] ring_append [of N h "[]" xs] ring_ends(1) [of N h xs]
  by (simp add: list_for_each_def)

section \<open>Properties\<close>



end
