(* ===== verification/Slab.thy ===== *)
theory Slab
  imports Heap Cstring Klist
begin

text \<open>
  The slab allocator, \<^verbatim>\<open>src/mm/slab.c\<close> and \<^verbatim>\<open>include/mm/slab.h\<close>: caches of objects of one size, in slabs of
  one page each. The record \<open>slab_state\<close> extends the heap with typed views of memory: \<open>caches p\<close> and
  \<open>slabs p\<close> are the scalar members of the structure at \<open>p\<close>, \<open>lnodes p\<close> the list node at \<open>p\<close> (the nodes inside
  a structure are at their C offsets from it), and \<open>objs p\<close> the first word of the object at \<open>p\<close>, which
  links the free objects of a slab. A \<^verbatim>\<open>memset\<close> clears every view. The constructor of a cache is code of
  its creator: the argument \<open>call\<close> stands for the call through the function pointer.
  \<open>None\<close> is a page fault in an operation of \<open>Vmm\<close>, a failed assertion or a loop that does not end.
  Log output is not modelled.
\<close>

section \<open>State and operations\<close>

record kmem_cache =
  kc_name :: u32
  object_size :: u32
  kc_align :: u32
  kc_flags :: u32
  kc_ctor :: u32
  objects_per_slab :: u32

record slab =
  sl_cache :: u32
  freelist :: u32
  inuse :: u32

record slab_state = heap +
  caches :: "u32 \<Rightarrow> kmem_cache"
  slabs :: "u32 \<Rightarrow> slab"
  lnodes :: nodes
  objs :: "u32 \<Rightarrow> u32"
  next_slab_virt :: u32
  kmem_caches :: u32

text \<open>The offsets of the list nodes in the two structures, and the sizes.\<close>

abbreviation slabs_full :: "u32 \<Rightarrow> u32" where "slabs_full c \<equiv> c + 24"
abbreviation slabs_partial :: "u32 \<Rightarrow> u32" where "slabs_partial c \<equiv> c + 32"
abbreviation slabs_free :: "u32 \<Rightarrow> u32" where "slabs_free c \<equiv> c + 40"
abbreviation cache_node :: "u32 \<Rightarrow> u32" where "cache_node c \<equiv> c + 48"
abbreviation slab_node :: "u32 \<Rightarrow> u32" where "slab_node s \<equiv> s + 12"
abbreviation sizeof_kmem_cache :: u32 where "sizeof_kmem_cache \<equiv> 56"
abbreviation sizeof_slab :: u32 where "sizeof_slab \<equiv> 20"
abbreviation SLAB_MIN_ALIGN :: u32 where "SLAB_MIN_ALIGN \<equiv> 8"
abbreviation SLAB_VIRT_START :: u32 where "SLAB_VIRT_START \<equiv> 0xE0000000"

definition null_cache :: kmem_cache where
  "null_cache = \<lparr>kc_name = 0, object_size = 0, kc_align = 0, kc_flags = 0, kc_ctor = 0, objects_per_slab = 0\<rparr>"

definition null_slab :: slab where
  "null_slab = \<lparr>sl_cache = 0, freelist = 0, inuse = 0\<rparr>"

text \<open>\<^verbatim>\<open>memset(p, 0, n)\<close> on every view.\<close>

definition slab_memzero :: "u32 \<Rightarrow> u32 \<Rightarrow> 'a slab_state_scheme \<Rightarrow> 'a slab_state_scheme" where
  "slab_memzero p n s = (heap_zero p n s)\<lparr>
     caches := (\<lambda>x. if x - p < n then null_cache else caches s x),
     slabs := (\<lambda>x. if x - p < n then null_slab else slabs s x),
     lnodes := (\<lambda>x. if x - p < n then \<lparr>lh_next = 0, lh_prev = 0\<rparr> else lnodes s x),
     objs := (\<lambda>x. if x - p < n then 0 else objs s x)\<rparr>"

definition page_base_from_ptr :: "u32 \<Rightarrow> u32" where
  "page_base_from_ptr p = p AND NOT (PAGE_SIZE - 1)"

definition obj_to_slab :: "u32 \<Rightarrow> u32" where
  "obj_to_slab obj = page_base_from_ptr obj"

definition get_next_free :: "u32 \<Rightarrow> 'a slab_state_scheme \<Rightarrow> u32" where
  "get_next_free obj s = objs s obj"

definition set_next_free :: "u32 \<Rightarrow> u32 \<Rightarrow> 'a slab_state_scheme \<Rightarrow> 'a slab_state_scheme" where
  "set_next_free obj nxt s = s\<lparr>objs := (objs s)(obj := nxt)\<rparr>"

definition set_slab :: "u32 \<Rightarrow> (slab \<Rightarrow> slab) \<Rightarrow> 'a slab_state_scheme \<Rightarrow> 'a slab_state_scheme" where
  "set_slab p f s = s\<lparr>slabs := (slabs s)(p := f (slabs s p))\<rparr>"

definition set_cache :: "u32 \<Rightarrow> (kmem_cache \<Rightarrow> kmem_cache) \<Rightarrow> 'a slab_state_scheme \<Rightarrow> 'a slab_state_scheme" where
  "set_cache p f s = s\<lparr>caches := (caches s)(p := f (caches s p))\<rparr>"

definition on_nodes :: "(nodes \<Rightarrow> nodes) \<Rightarrow> 'a slab_state_scheme \<Rightarrow> 'a slab_state_scheme" where
  "on_nodes f s = s\<lparr>lnodes := f (lnodes s)\<rparr>"

text \<open>The loop that links the objects of a new slab; it carries \<^verbatim>\<open>prev\<close>.\<close>

definition link_objects :: "u32 \<Rightarrow> u32 \<Rightarrow> u32 \<Rightarrow> 'a slab_state_scheme \<Rightarrow> u32 \<times> 'a slab_state_scheme" where
  "link_objects obj_off sz n s =
     for_loop 0 n (\<lambda>i (prev, s). let obj = obj_off + i * sz in (obj, set_next_free obj prev s)) (0, s)"

text \<open>\<open>True\<close> is the return value 0.\<close>

definition new_slab :: "u32 \<Rightarrow> 'a slab_state_scheme \<Rightarrow> (bool \<times> 'a slab_state_scheme) option" where
  "new_slab cache s =
     (let (phys, s1) = pmm_alloc_page s
      in if phys = 0 then Some (False, s1)
         else let virt = next_slab_virt s1; s2 = s1\<lparr>next_slab_virt := next_slab_virt s1 + PAGE_SIZE\<rparr>
         in Option.bind (vmm_map_page virt phys (PAGE_FLAG_PRESENT OR PAGE_FLAG_RW OR PAGE_FLAG_GLOBAL) s2) (\<lambda>(ret, s3).
           if ret \<noteq> KERNEL_OK then Some (False, pmm_free_page phys s3)
           else let s4 = slab_memzero virt sizeof_slab s3;
                    s5 = set_slab virt (\<lambda>l. l\<lparr>sl_cache := cache\<rparr>) s4;
                    s6 = on_nodes (INIT_LIST_HEAD (slab_node virt)) s5;
                    s7 = set_slab virt (\<lambda>l. l\<lparr>inuse := 0\<rparr>) s6;
                    obj_off = ALIGN_UP (virt + sizeof_slab) (kc_align (caches s7 cache));
                    (prev, s8) = link_objects obj_off (object_size (caches s7 cache)) (objects_per_slab (caches s7 cache)) s7;
                    s9 = set_slab virt (\<lambda>l. l\<lparr>freelist := prev\<rparr>) s8
                in Some (True, on_nodes (list_add_tail (slab_node virt) (slabs_partial cache)) s9)))"

definition slab_init :: "'a slab_state_scheme \<Rightarrow> 'a slab_state_scheme" where
  "slab_init s = on_nodes (INIT_LIST_HEAD (kmem_caches s)) s"

text \<open>The number of objects a slab is given, computed at a dummy address 0.\<close>

definition slab_capacity :: "u32 \<Rightarrow> u32 \<Rightarrow> u32" where
  "slab_capacity align obj_size =
     (let first_obj_off = ALIGN_UP (0 + sizeof_slab) align; avail = PAGE_SIZE - first_obj_off
      in avail div obj_size)"

text \<open>The pointer to the new cache, 0 on failure; \<open>None\<close> is also the divide error for an object size of 0.\<close>

definition kmem_cache_create ::
    "u32 \<Rightarrow> u32 \<Rightarrow> u32 \<Rightarrow> u32 \<Rightarrow> u32 \<Rightarrow> 'a slab_state_scheme \<Rightarrow> (u32 \<times> 'a slab_state_scheme) option" where
  "kmem_cache_create name sz align flags ctor s =
     (if name = 0 \<or> sz = 0 \<or> align < SLAB_MIN_ALIGN \<or> align AND (align - 1) \<noteq> 0 then Some (0, s)
      else Option.bind (strlen (hmem s) name) (\<lambda>l.
        let name_len = l + 1
        in Option.bind (kmalloc (sizeof_kmem_cache + name_len) s) (\<lambda>(cache, s1).
          if cache = 0 then Some (0, s1)
          else let s2 = slab_memzero cache sizeof_kmem_cache s1;
                   name_copy = cache + sizeof_kmem_cache;
                   s3 = s2\<lparr>hmem := snd (memcpy name_copy name name_len (hmem s2))\<rparr>;
                   s4 = set_cache cache (\<lambda>c. c\<lparr>kc_name := name_copy, kc_align := align,
                          object_size := ALIGN_UP sz align, kc_flags := flags, kc_ctor := ctor\<rparr>) s3;
                   s5 = set_cache cache (\<lambda>c. c\<lparr>objects_per_slab := slab_capacity align (object_size c)\<rparr>) s4
               in if object_size (caches s4 cache) = 0 then None
                  else if objects_per_slab (caches s5 cache) = 0 then Some (0, kfree cache s5)
                  else Some (cache, on_nodes (\<lambda>N.
                         list_add_tail (cache_node cache) (kmem_caches s5)
                           (INIT_LIST_HEAD (cache_node cache) (INIT_LIST_HEAD (slabs_free cache)
                             (INIT_LIST_HEAD (slabs_partial cache) (INIT_LIST_HEAD (slabs_full cache) N))))) s5))))"

text \<open>Unlink the first slab of a list, unmap its page and give the frame back, until the list is empty.\<close>

definition release_first :: "u32 \<Rightarrow> 'a slab_state_scheme \<Rightarrow> 'a slab_state_scheme option" where
  "release_first h s =
     (let sl = list_first_entry h 12 (lnodes s); s1 = on_nodes (list_del (slab_node sl)) s
      in Option.bind (vmm_get_physical_addr sl s1) (\<lambda>phys.
           map_option (\<lambda>(_, s2). pmm_free_page (phys AND NOT 0xFFF) s2) (vmm_unmap_page sl s1)))"

partial_function (option) release_slabs :: "u32 \<Rightarrow> 'a slab_state_scheme \<Rightarrow> 'a slab_state_scheme option" where
  "release_slabs h s =
     (if list_empty h (lnodes s) then Some s else Option.bind (release_first h s) (release_slabs h))"

definition kmem_cache_shrink :: "u32 \<Rightarrow> 'a slab_state_scheme \<Rightarrow> 'a slab_state_scheme option" where
  "kmem_cache_shrink cache s = (if cache = 0 then Some s else release_slabs (slabs_free cache) s)"

definition kmem_cache_destroy :: "u32 \<Rightarrow> 'a slab_state_scheme \<Rightarrow> 'a slab_state_scheme option" where
  "kmem_cache_destroy cache s =
     (if cache = 0 then Some s
      else let in_use = \<not> list_empty (slabs_full cache) (lnodes s) \<or> \<not> list_empty (slabs_partial cache) (lnodes s)
      in Option.bind (if in_use then kmem_cache_shrink cache s else Some s) (\<lambda>s1.
         Option.bind (release_slabs (slabs_full cache) (on_nodes (list_del (cache_node cache)) s1)) (\<lambda>s2.
         Option.bind (release_slabs (slabs_partial cache) s2) (\<lambda>s3.
         Option.bind (release_slabs (slabs_free cache) s3) (\<lambda>s4.
         Option.bind (vmm_get_physical_addr cache s4) (\<lambda>phys_cache.
           map_option (\<lambda>(_, s5). pmm_free_page phys_cache s5) (vmm_unmap_page cache s4)))))))"

text \<open>Take the first object of the first slab of \<open>h\<close>.\<close>

definition take_object :: "(u32 \<Rightarrow> u32 \<Rightarrow> 'a slab_state_scheme \<Rightarrow> 'a slab_state_scheme) \<Rightarrow>
    u32 \<Rightarrow> u32 \<Rightarrow> 'a slab_state_scheme \<Rightarrow> (u32 \<times> 'a slab_state_scheme) option" where
  "take_object call cache h s =
     (let sl = list_first_entry h 12 (lnodes s); obj = freelist (slabs s sl)
      in if obj = 0 then None
         else let s1 = set_slab sl (\<lambda>l. l\<lparr>freelist := get_next_free obj s, inuse := inuse l + 1\<rparr>) s;
                  s2 = slab_memzero obj (object_size (caches s1 cache)) s1;
                  s3 = (if kc_ctor (caches s2 cache) \<noteq> 0 then call (kc_ctor (caches s2 cache)) obj s2 else s2)
              in Some (obj, if inuse (slabs s3 sl) = objects_per_slab (caches s3 cache)
                            then on_nodes (list_move_tail (slab_node sl) (slabs_full cache)) s3 else s3))"

definition kmem_cache_alloc :: "(u32 \<Rightarrow> u32 \<Rightarrow> 'a slab_state_scheme \<Rightarrow> 'a slab_state_scheme) \<Rightarrow>
    u32 \<Rightarrow> 'a slab_state_scheme \<Rightarrow> (u32 \<times> 'a slab_state_scheme) option" where
  "kmem_cache_alloc call cache s =
     (if cache = 0 then Some (0, s)
      else let h = (if \<not> list_empty (slabs_partial cache) (lnodes s) then slabs_partial cache else slabs_free cache)
           in if list_empty h (lnodes s)
              then Option.bind (new_slab cache s) (\<lambda>(ok, s1).
                     if \<not> ok then Some (0, s1) else take_object call cache (slabs_partial cache) s1)
              else take_object call cache h s)"

definition kmem_cache_free :: "u32 \<Rightarrow> u32 \<Rightarrow> 'a slab_state_scheme \<Rightarrow> 'a slab_state_scheme" where
  "kmem_cache_free cache obj s =
     (if cache = 0 \<or> obj = 0 then s
      else let sl = obj_to_slab obj
      in if sl_cache (slabs s sl) \<noteq> cache then s
      else let s1 = set_slab sl (\<lambda>l. l\<lparr>freelist := obj\<rparr>) (set_next_free obj (freelist (slabs s sl)) s)
      in if inuse (slabs s1 sl) = 0 then s1
      else let s2 = set_slab sl (\<lambda>l. l\<lparr>inuse := inuse l - 1\<rparr>) s1;
               s3 = on_nodes (list_del_init (slab_node sl)) s2
           in on_nodes (list_add_tail (slab_node sl)
                (if inuse (slabs s3 sl) = 0 then slabs_free cache else slabs_partial cache)) s3)"

section \<open>Alignment to a power of two\<close>

lemma nat_and_pred:
  fixes n :: nat
  shows "0 < n \<Longrightarrow> n AND (n - 1) = 0 \<Longrightarrow> \<exists>k. n = 2 ^ k"
proof (induction n rule: less_induct)
  case (less n)
  show ?case
  proof (cases "even n")
    case True
    then obtain m where m: "n = 2 * m" by (elim evenE)
    then have pos: "0 < m" "m < n" using less.prems(1) by auto
    have "n - 1 = 2 * (m - 1) + 1" using m pos by simp
    then have "n AND (n - 1) = 2 * (m AND (m - 1))" using m and_rec [of n "n - 1"] by simp
    then have "m AND (m - 1) = 0" using less.prems(2) by simp
    then obtain k where "m = 2 ^ k" using less.IH [OF pos(2,1)] by blast
    then show ?thesis using m by (intro exI [of _ "Suc k"]) simp
  next
    case False
    then obtain m where m: "n = 2 * m + 1" by (elim oddE)
    then have "n AND (n - 1) = 2 * m" using and_rec [of n "n - 1"] by simp
    then have "n = 1" using less.prems(2) m by simp
    then show ?thesis by (intro exI [of _ 0]) simp
  qed
qed

lemma power_of_two:
  fixes a :: u32
  assumes "a \<noteq> 0" and "a AND (a - 1) = 0"
  obtains k where "k < 32" "unat a = 2 ^ k" "a - 1 = mask k"
proof -
  have "unat a AND (unat a - 1) = 0"
    using assms unsigned_and_eq [of a "a - 1", where ?'a = nat] by (simp add: unat_minus_one)
  then obtain k where k: "unat a = 2 ^ k" using nat_and_pred [of "unat a"] assms(1) by (auto simp: unat_gt_0)
  then have "(2 :: nat) ^ k < 2 ^ 32" using unat_lt(3) [of a] by simp
  then have "k < 32" by (rule power_less_imp_less_exp [rotated]) simp
  moreover have "a = 2 ^ k" by (metis k of_nat_numeral of_nat_power of_nat_unat ucast_id)
  then have "a - 1 = mask k" by (simp add: mask_eq_exp_minus_1)
  ultimately show thesis using k that by blast
qed

lemma unat_ALIGN_UP:
  fixes x a :: u32
  assumes "a - 1 = mask k" "unat a = 2 ^ k" "unat x + 2 ^ k \<le> 2 ^ 32"
  shows "unat (ALIGN_UP x a) = (unat x + 2 ^ k - 1) div 2 ^ k * 2 ^ k"
proof -
  have pos: "(1 :: nat) \<le> 2 ^ k" by simp
  have "a \<noteq> 0" using assms(2) by auto
  then have "unat (a - 1) = 2 ^ k - 1" using assms(2) by (simp add: unat_minus_one)
  moreover have "unat x + (2 ^ k - 1) < 2 ^ 32" using assms(3) pos by linarith
  ultimately have "unat (x + (a - 1)) = unat x + 2 ^ k - 1" using pos by (simp add: unat_word_ariths)
  then have "unat (x + a - 1) = unat x + 2 ^ k - 1" by (simp only: add_diff_eq)
  then show ?thesis unfolding ALIGN_UP_def assms(1) by (simp only: unat_and_not_mask)
qed

section \<open>The objects of a slab\<close>

text \<open>\<open>free_chain M p xs\<close>: the free list that begins at \<open>p\<close> holds the objects \<open>xs\<close>.\<close>

fun free_chain :: "(u32 \<Rightarrow> u32) \<Rightarrow> u32 \<Rightarrow> u32 list \<Rightarrow> bool" where
  "free_chain M p [] \<longleftrightarrow> p = 0"
| "free_chain M p (x # xs) \<longleftrightarrow> p = x \<and> x \<noteq> 0 \<and> free_chain M (M x) xs"

lemma free_chain_cong: "(\<And>x. x \<in> set xs \<Longrightarrow> M' x = M x) \<Longrightarrow> free_chain M' p xs = free_chain M p xs"
  by (induction xs arbitrary: p) auto

lemma free_chain_upd [simp]: "y \<notin> set xs \<Longrightarrow> free_chain (M(y := z)) p xs = free_chain M p xs"
  by (rule free_chain_cong) auto

definition object_at :: "u32 \<Rightarrow> u32 \<Rightarrow> nat \<Rightarrow> u32" where
  "object_at off sz i = off + of_nat i * sz"

lemma link_objects_spec:
  fixes s :: "'a slab_state_scheme"
  assumes inj: "inj_on (object_at off sz) {..<unat n}" and nz: "\<And>i. i < unat n \<Longrightarrow> object_at off sz i \<noteq> 0"
    and ret: "link_objects off sz n s = (p, s')"
  shows "free_chain (objs s') p (rev (map (object_at off sz) [0..<unat n]))"
    "\<And>y. y \<notin> object_at off sz ` {..<unat n} \<Longrightarrow> objs s' y = objs s y"
    "\<exists>M. s' = s\<lparr>objs := M\<rparr>"
proof -
  let ?f = "object_at off sz"
  let ?P = "\<lambda>j (p :: u32, t :: 'a slab_state_scheme). j \<le> unat n \<longrightarrow> free_chain (objs t) p (rev (map ?f [0..<j])) \<and>
      (\<forall>y. y \<notin> ?f ` {..<j} \<longrightarrow> objs t y = objs s y) \<and> (\<exists>M. t = s\<lparr>objs := M\<rparr>)"
  have "?P (unat n) (for_loop 0 n (\<lambda>i (prev, s). let obj = off + i * sz in (obj, set_next_free obj prev s)) (0, s))"
  proof (rule for_loop_counting [where P = ?P])
    fix i :: u32 and st
    assume P: "?P (unat i) st" and i: "i < n"
    obtain prev t where st: "st = (prev, t)" by fastforce
    have lt: "unat i < unat n" using i by (simp add: word_less_nat_alt)
    have obj: "off + i * sz = ?f (unat i)" by (simp add: object_at_def)
    have fresh: "?f (unat i) \<notin> ?f ` {..<unat i}" using inj lt by (auto simp: inj_on_def dest: less_trans)
    then have "?f (unat i) \<notin> set (rev (map ?f [0..<unat i]))" by auto
    with P st lt nz [OF lt] fresh show "?P (Suc (unat i)) ((\<lambda>(prev, s). let obj = off + i * sz in (obj, set_next_free obj prev s)) st)"
      by (auto simp: obj Let_def set_next_free_def lessThan_Suc)
  qed (auto intro: exI [of _ "objs s"])
  then show "free_chain (objs s') p (rev (map ?f [0..<unat n]))"
    "\<And>y. y \<notin> ?f ` {..<unat n} \<Longrightarrow> objs s' y = objs s y" "\<exists>M. s' = s\<lparr>objs := M\<rparr>"
    using ret unfolding link_objects_def by auto
qed

text \<open>The first object's offset, and how many objects fit behind it.\<close>

definition first_off :: "nat \<Rightarrow> nat" where
  "first_off k = (20 + 2 ^ k - 1) div 2 ^ k * 2 ^ k"

lemma first_off_facts: "20 \<le> first_off k" "2 ^ k dvd first_off k" "k \<le> 12 \<Longrightarrow> first_off k \<le> 4096"
proof -
  let ?a = "2 ^ k :: nat"
  have "20 + ?a - 1 < ?a * ((20 + ?a - 1) div ?a) + ?a"
    using mult_div_mod_eq [of ?a "20 + ?a - 1"] mod_less_divisor [of ?a "20 + ?a - 1"] by (metis add_less_cancel_left zero_less_numeral zero_less_power)
  then show "20 \<le> first_off k" by (simp add: first_off_def mult.commute)
  show "2 ^ k dvd first_off k" by (simp add: first_off_def)
  assume "k \<le> 12"
  then have "k \<in> set [0..<13]" by simp
  then show "first_off k \<le> 4096" by (auto simp: first_off_def upt_rec)
qed

lemma slab_layout:
  fixes align osz virt :: u32
  assumes a: "align - 1 = mask k" "unat align = 2 ^ k" "k \<le> 12" and osz: "osz \<noteq> 0"
    and virt: "unat virt mod 4096 = 0" "unat virt + 8192 \<le> 2 ^ 32" and i: "i < unat (slab_capacity align osz)"
  shows "unat (object_at (ALIGN_UP (virt + sizeof_slab) align) osz i) = unat virt + first_off k + i * unat osz"
    "unat virt + first_off k + Suc i * unat osz \<le> unat virt + 4096"
proof -
  have "(2 :: nat) ^ k \<le> 2 ^ 12" using a(3) by (rule power_increasing) simp
  then have small: "(2 :: nat) ^ k \<le> 4096" by simp
  note f = first_off_facts(1) [of k] first_off_facts(3) [OF a(3)]
  have "unat (ALIGN_UP (0 + sizeof_slab) align) = first_off k"
    using unat_ALIGN_UP [OF a(1,2), of "0 + sizeof_slab"] small by (simp add: first_off_def)
  then have cap: "unat (slab_capacity align osz) = (4096 - first_off k) div unat osz"
    using f(2) by (simp add: slab_capacity_def Let_def unat_div_distrib unat_sub_small)
  have "Suc i * unat osz \<le> unat (slab_capacity align osz) * unat osz" using i by (intro mult_right_mono) auto
  also have "\<dots> \<le> 4096 - first_off k" by (simp add: cap)
  finally have fit: "first_off k + Suc i * unat osz \<le> 4096" using f(2) by linarith
  then show "unat virt + first_off k + Suc i * unat osz \<le> unat virt + 4096" by simp
  have v20: "unat (virt + sizeof_slab) = unat virt + 20" using virt(2) by (simp add: unat_word_ariths)
  have "(2 :: nat) ^ k dvd 2 ^ 12" using a(3) by (rule le_imp_power_dvd)
  then have "2 ^ k dvd unat virt" using virt(1) by (auto simp: mod_eq_0_iff_dvd intro: dvd_trans)
  then obtain m where m: "unat virt = 2 ^ k * m" by (elim dvdE)
  have "unat (ALIGN_UP (virt + sizeof_slab) align) = (unat virt + 20 + 2 ^ k - 1) div 2 ^ k * 2 ^ k"
    using unat_ALIGN_UP [OF a(1,2), of "virt + sizeof_slab"] small virt(2) by (simp add: v20)
  also have "unat virt + 20 + 2 ^ k - 1 = 2 ^ k * m + (20 + 2 ^ k - 1)" by (simp add: m)
  also have "(2 ^ k * m + (20 + 2 ^ k - 1)) div 2 ^ k = m + (20 + 2 ^ k - 1) div 2 ^ k" by (rule div_mult_self4) simp
  also have "(m + (20 + 2 ^ k - 1) div 2 ^ k) * 2 ^ k = unat virt + first_off k"
    by (simp only: m first_off_def add_mult_distrib mult.commute [of m])
  finally have off: "unat (ALIGN_UP (virt + sizeof_slab) align) = unat virt + first_off k" .
  have io: "i * unat osz \<le> 4096" "unat osz \<noteq> 0" using fit osz by (auto simp: unat_eq_zero)
  then have "i \<le> 4096" by (metis dual_order.trans le_square mult_le_mono2 nat_le_linear less_one linorder_not_le mult.right_neutral)
  then have ui: "unat (of_nat i :: u32) = i" by (simp add: unat_of_nat_small)
  have "unat (of_nat i * osz) = i * unat osz" using io by (simp add: unat_word_ariths ui)
  then show "unat (object_at (ALIGN_UP (virt + sizeof_slab) align) osz i) = unat virt + first_off k + i * unat osz"
    using off fit virt(2) by (simp add: object_at_def unat_word_ariths)
qed

section \<open>Properties\<close>

text \<open>
  A cache at \<^verbatim>\<open>0x1000\<close> with objects of 64 bytes whose only slab, at \<^verbatim>\<open>0xE0000000\<close>, is on the list of free slabs.
\<close>

definition one_free_slab :: slab_state where
  "one_free_slab = heap.extend empty_heap (slab_state.fields
     (\<lambda>_. null_cache\<lparr>object_size := 64, kc_align := 8, objects_per_slab := 63\<rparr>)
     (\<lambda>_. \<lparr>sl_cache = 0x1000, freelist = 0xE0000018, inuse = 0\<rparr>)
     ((\<lambda>_. \<lparr>lh_next = 0, lh_prev = 0\<rparr>)(0x1020 := \<lparr>lh_next = 0x1020, lh_prev = 0x1020\<rparr>,
        0x1028 := \<lparr>lh_next = 0xE000000C, lh_prev = 0xE000000C\<rparr>, 0xE000000C := \<lparr>lh_next = 0x1028, lh_prev = 0x1028\<rparr>))
     (\<lambda>_. 0) 0xE0001000 0x2000)"



text \<open>
  An alignment above the page size passes the checks of \<^verbatim>\<open>kmem_cache_create\<close>: the space left in the page
  wraps around, so that the number of objects is not 0, and the first object lies outside the page.
\<close>

lemma slab_capacity_wraps:
  "(8192 :: u32) AND (8192 - 1) = 0" "SLAB_MIN_ALIGN \<le> 8192" "ALIGN_UP 100 8192 = (8192 :: u32)"
  "slab_capacity 8192 8192 = 524287" "ALIGN_UP (SLAB_VIRT_START + sizeof_slab) 8192 = SLAB_VIRT_START + 8192"
  by (simp_all add: slab_capacity_def ALIGN_UP_def)

text \<open>The address space depends on the machine's own fields only.\<close>

lemma vmm_truncate_cong:
  fixes a :: "'a vmm_scheme" and b :: "'b vmm_scheme"
  assumes "vmm.truncate a = vmm.truncate b"
  shows "vmm_wf a = vmm_wf b" "aspace a = aspace b"
proof -
  have f: "mem a = mem b" "kpd a = kpd b" "cr3 a = cr3 b" "paging a = paging b" "bits a = bits b"
    "total_pages a = total_pages b" "bm_size a = bm_size b" "free_pages a = free_pages b" "used_pages a = used_pages b"
    using assms by (simp_all add: vmm.defs)
  show "vmm_wf a = vmm_wf b" "aspace a = aspace b"
    by (simp_all add: vmm_wf_def pmm_inv_def free_frames_def page_used_def bitmap_wf_def capacity_def
        has_table_def table_def pde_def frame_taken_def fun_eq_iff aspace_def translate_def f)
qed

lemma slab_truncate [simp]:
  fixes s :: "'a slab_state_scheme"
  shows "vmm.truncate (slab_memzero p n s) = vmm.truncate s" "vmm.truncate (set_slab q f s) = vmm.truncate s"
    "vmm.truncate (on_nodes g s) = vmm.truncate s"
  by (simp_all add: slab_memzero_def heap_zero_def set_slab_def on_nodes_def vmm.defs)

lemma slab_memzero_simps [simp]:
  "caches (slab_memzero p n s) x = (if x - p < n then null_cache else caches s x)"
  "slabs (slab_memzero p n s) x = (if x - p < n then null_slab else slabs s x)"
  "lnodes (slab_memzero p n s) x = (if x - p < n then \<lparr>lh_next = 0, lh_prev = 0\<rparr> else lnodes s x)"
  by (simp_all add: slab_memzero_def)

lemma set_slab_simps [simp]:
  "slabs (set_slab p f s) = (slabs s)(p := f (slabs s p))" "caches (set_slab p f s) = caches s"
  "lnodes (set_slab p f s) = lnodes s" "slabs (on_nodes g s) = slabs s" "caches (on_nodes g s) = caches s"
  "lnodes (on_nodes g s) = g (lnodes s)"
  by (simp_all add: set_slab_def on_nodes_def)

lemma slab_more:
  fixes a b :: "'a slab_state_scheme"
  shows "vmm.more a = vmm.more b \<Longrightarrow> lnodes a = lnodes b"
  by (cases a; cases b; simp)

lemma pmm_free_page_keeps:
  fixes s :: "'a slab_state_scheme"
  shows "lnodes (pmm_free_page p s) = lnodes s" "aspace (pmm_free_page p s) = aspace s"
proof -
  have more: "pmm.more (pmm_free_page p s) = pmm.more s"
    by (simp add: pmm_free_page_def mark_page_free_def count_free_def)
  then show "aspace (pmm_free_page p s) = aspace s" by (rule same_machine_aspace(2))
  show "lnodes (pmm_free_page p s) = lnodes s" by (rule slab_more [OF pmm_more_machine(5) [OF more]])
qed

text \<open>Releasing the only slab of a list unmaps its page.\<close>

lemma release_one_slab:
  fixes s :: "'a slab_state_scheme"
  assumes wf: "vmm_wf s" and low: "below_window sl" and r: "ring (lnodes s) h [slab_node sl]"
  shows "\<exists>s'. release_slabs h s = Some s' \<and> aspace s' = bind_page sl None (aspace s) \<and> list_empty h (lnodes s')"
proof -
  have first: "list_first_entry h 12 (lnodes s) = sl"
    using ring_ends(1) [OF r] by (simp add: list_first_entry_def list_entry_def)
  let ?s1 = "on_nodes (list_del (slab_node sl)) s"
  have s1: "vmm_wf ?s1" "aspace ?s1 = aspace s" using wf vmm_truncate_cong [of ?s1 s] by simp_all
  obtain st s2 where u: "vmm_unmap_page sl ?s1 = Some (st, s2)" "aspace s2 = bind_page sl None (aspace s)"
    using vmm_unmap_page_spec [OF s1(1) low] s1(2) by auto
  obtain phys where g: "vmm_get_physical_addr sl ?s1 = Some phys" using vmm_get_physical_addr_eq [OF s1(1) low] by blast
  define s3 where "s3 = pmm_free_page (phys AND NOT 0xFFF) s2"
  have rel: "release_first h s = Some s3" using first u(1) g by (simp add: release_first_def Let_def s3_def)
  have "lnodes s2 = lnodes ?s1"
    using vmm_unmap_page_rest [OF u(1)] slab_more unfolding rest_def by blast
  then have "lnodes s3 = list_del (slab_node sl) (lnodes s)" by (simp add: s3_def pmm_free_page_keeps)
  moreover have "ring (list_del (slab_node sl) (lnodes s)) h []"
    using list_del_ring [of "lnodes s" h "[]" "slab_node sl" "[]"] r by simp
  ultimately have e: "list_empty h (lnodes s3)" using ring_empty by metis
  have ne: "\<not> list_empty h (lnodes s)" using ring_empty [OF r] by simp
  have "release_slabs h s = Some s3"
    using rel e ne by (simp add: release_slabs.simps [of h s] release_slabs.simps [of h s3])
  then show ?thesis using u(2) e by (auto simp: s3_def pmm_free_page_keeps)
qed

text \<open>Property C39. An object taken from a slab on the list of free slabs: the slab stays on that list unless
  it is full, so that \<^verbatim>\<open>kmem_cache_shrink\<close>, documented to free only slabs without objects in use, unmaps the page
  of the object that was just handed out.
\<close>

theorem shrink_unmaps_live_object:
  fixes s :: "'a slab_state_scheme"
  assumes cache: "cache \<noteq> 0" "kc_ctor (caches s cache) = 0" "objects_per_slab (caches s cache) \<noteq> 1"
    and lists: "ring (lnodes s) (slabs_partial cache) []" "ring (lnodes s) (slabs_free cache) [slab_node sl]"
    and obj: "freelist (slabs s sl) = obj" "obj \<noteq> 0" "inuse (slabs s sl) = 0" "frame obj = frame sl"
    and clear: "\<forall>x \<in> {cache, sl, slabs_free cache, slab_node sl}. \<not> x - obj < object_size (caches s cache)"
    and wf: "vmm_wf s" "below_window sl"
  shows "\<exists>s' s''. kmem_cache_alloc call cache s = Some (obj, s') \<and> inuse (slabs s' sl) = 1 \<and>
           kmem_cache_shrink cache s' = Some s'' \<and> aspace s'' obj = None"
proof -
  define s1 where "s1 = set_slab sl (\<lambda>l. l\<lparr>freelist := get_next_free obj s, inuse := inuse l + 1\<rparr>) s"
  define s2 where "s2 = slab_memzero obj (object_size (caches s1 cache)) s1"
  have out: "\<not> x - obj < object_size (caches s1 cache)" if "x \<in> {cache, sl, slabs_free cache, slab_node sl}" for x
    using bspec [OF clear that] by (simp add: s1_def)
  have e: "list_empty (slabs_partial cache) (lnodes s)" "\<not> list_empty (slabs_free cache) (lnodes s)"
    using ring_empty [OF lists(1)] ring_empty [OF lists(2)] by simp_all
  have first: "list_first_entry (slabs_free cache) 12 (lnodes s) = sl"
    using ring_ends(1) [OF lists(2)] by (simp add: list_first_entry_def list_entry_def)
  have v: "caches s2 cache = caches s cache" "slabs s2 sl = slabs s1 sl" "inuse (slabs s2 sl) = 1"
    using out [of cache] out [of sl] obj(3) by (simp_all add: s2_def s1_def)
  have "kc_ctor (caches s2 cache) = 0" "inuse (slabs s2 sl) \<noteq> objects_per_slab (caches s2 cache)"
    using v(1,3) cache(2,3) by simp_all
  then have "take_object call cache (slabs_free cache) s = Some (obj, s2)"
    using obj(2) unfolding take_object_def Let_def first obj(1) s1_def [symmetric] s2_def [symmetric] by simp
  then have alloc: "kmem_cache_alloc call cache s = Some (obj, s2)"
    using cache(1) e by (simp add: kmem_cache_alloc_def)
  have "ring (lnodes s2) (slabs_free cache) [slab_node sl]"
    using out by (subst ring_frame [where N = "lnodes s"]) (auto simp: s2_def s1_def lists(2))
  moreover have m: "vmm_wf s2" "aspace s2 = aspace s"
    using wf vmm_truncate_cong [of s2 s] by (simp_all add: s2_def s1_def)
  ultimately obtain s3 where s3: "release_slabs (slabs_free cache) s2 = Some s3" "aspace s3 = bind_page sl None (aspace s)"
    using release_one_slab [OF m(1) wf(2)] by auto
  have "aspace s3 obj = None" using obj(4) by (simp add: s3(2) bind_page_def)
  with alloc v(3) s3(1) cache(1) show ?thesis by (auto simp: kmem_cache_shrink_def)
qed

lemma one_free_slab_wf: "vmm_wf one_free_slab"
proof -
  have "vmm.truncate one_free_slab = vmm.truncate empty_heap"
    by (simp add: one_free_slab_def heap.defs slab_state.defs vmm.defs)
  moreover have "vmm_wf empty_heap" using empty_heap_wf(1) heap_invD(1) by (auto simp: heap_wf_def)
  ultimately show ?thesis using vmm_truncate_cong(1) by blast
qed

lemma one_free_slab_views:
  "caches one_free_slab = (\<lambda>_. null_cache\<lparr>object_size := 64, kc_align := 8, objects_per_slab := 63\<rparr>)"
  "slabs one_free_slab = (\<lambda>_. \<lparr>sl_cache = 0x1000, freelist = 0xE0000018, inuse = 0\<rparr>)"
  "ring (lnodes one_free_slab) 0x1020 []" "ring (lnodes one_free_slab) 0x1028 [0xE000000C]"
  by (simp_all add: one_free_slab_def heap.defs slab_state.defs ring_def linked_def)

theorem shrink_unmaps_live_object_witness:
  "\<exists>s' s''. kmem_cache_alloc (\<lambda>_ _ s. s) 0x1000 one_free_slab = Some (0xE0000018, s') \<and>
     inuse (slabs s' 0xE0000000) = 1 \<and> kmem_cache_shrink 0x1000 s' = Some s'' \<and> aspace s'' 0xE0000018 = None"
  by (rule shrink_unmaps_live_object [OF _ _ _ _ _ _ _ _ _ _ one_free_slab_wf])
     (simp_all add: one_free_slab_views null_cache_def below_window_def pd_index_def)

end
