(* ===== verification/Tar.thy ===== *)
theory Tar
  imports Cstring
begin

text \<open>
  The archive reader, \<^verbatim>\<open>src/fs/tar.c\<close> and \<^verbatim>\<open>include/fs/tar.h\<close>, over the byte memory of theory \<open>Cstring\<close>. The
  archive, the path and the local arrays of the functions all lie in that memory; the record
  \<open>tar_frame\<close> holds the addresses of the local arrays \<^verbatim>\<open>buf\<close>, \<^verbatim>\<open>name\<close> and \<^verbatim>\<open>long_name\<close> and of the literal
  \<^verbatim>\<open>"ustar"\<close>, and the functions return the memory they leave. Header fields are at their offsets in the
  packed structure. The loops over the archive are partial functions (\<open>None\<close>: does not return).
  \<^verbatim>\<open>tar_list\<close> gives the lines it prints as values instead of formatted text.
\<close>

section \<open>Operations\<close>

record tar_frame =
  f_buf :: u32
  f_name :: u32
  f_long :: u32
  f_ustar :: u32

abbreviation TAR_BLOCK_SIZE :: u32 where "TAR_BLOCK_SIZE \<equiv> 512"
abbreviation TAR_LONGNAME_MAX :: u32 where "TAR_LONGNAME_MAX \<equiv> 4096"

text \<open>The fields of a header that the code reads.\<close>

abbreviation th_size :: "u32 \<Rightarrow> u32" where "th_size h \<equiv> h + 124"
abbreviation th_chksum :: "u32 \<Rightarrow> u32" where "th_chksum h \<equiv> h + 148"
abbreviation th_typeflag :: "u32 \<Rightarrow> u32" where "th_typeflag h \<equiv> h + 156"
abbreviation th_magic :: "u32 \<Rightarrow> u32" where "th_magic h \<equiv> h + 257"
abbreviation th_prefix :: "u32 \<Rightarrow> u32" where "th_prefix h \<equiv> h + 345"

definition round_up_512 :: "u32 \<Rightarrow> u32" where
  "round_up_512 x = (x + (TAR_BLOCK_SIZE - 1)) AND NOT (TAR_BLOCK_SIZE - 1)"

text \<open>The copy loop of \<^verbatim>\<open>tar_parse_octal\<close>: the index where it stops, and memory.\<close>

function octal_copy :: "u32 \<Rightarrow> u32 \<Rightarrow> u32 \<Rightarrow> u32 \<Rightarrow> memory \<Rightarrow> u32 \<times> memory" where
  "octal_copy buf str n i m =
     (if i < n
      then let c = m (str + i)
           in if c = 0 \<or> c = 0x20 then (i, m) else octal_copy buf str n (i + 1) (m(buf + i := c))
      else (i, m))"
  by pat_completeness auto
termination
  by (relation "measure (\<lambda>(buf, str, n, i, m). unat n - unat i)") (auto intro: loop_measure)

declare octal_copy.simps [simp del]

definition tar_parse_octal :: "u32 \<Rightarrow> u32 \<Rightarrow> u32 \<Rightarrow> memory \<Rightarrow> (u32 \<times> memory) option" where
  "tar_parse_octal buf str len m =
     (let n = (if len < 31 then len else 31);
          (i, m1) = octal_copy buf str n 0 m;
          m2 = m1(buf + i := 0)
      in if i = 0 then Some (0, m2)
         else map_option (\<lambda>(v, _). (v, m2)) (strtoul m2 buf 8))"

definition header_is_zero :: "u32 \<Rightarrow> memory \<Rightarrow> bool" where
  "header_is_zero h m =
     (case for_ret 0 TAR_BLOCK_SIZE (\<lambda>i _. Some (if m (h + i) \<noteq> 0 then Some () else None, ())) () of
        Some (Some _, _) \<Rightarrow> False
      | _ \<Rightarrow> True)"

text \<open>The checksum: the sum of the header bytes with the checksum field read as blanks.\<close>

definition tar_checksum :: "u32 \<Rightarrow> memory \<Rightarrow> u32" where
  "tar_checksum hdr m =
     (let sum1 = for_loop 0 TAR_BLOCK_SIZE (\<lambda>i sum. sum + ucast (m (hdr + i))) 0;
          sum2 = for_loop 0 (8 :: u32) (\<lambda>i sum. sum - ucast (m (th_chksum hdr + i))) sum1
      in sum2 + 0x20 * 8)"

definition tar_validate_header :: "tar_frame \<Rightarrow> u32 \<Rightarrow> memory \<Rightarrow> (bool \<times> memory) option" where
  "tar_validate_header f hdr m =
     (if hdr = 0 then Some (False, m)
      else let sum = tar_checksum hdr m
      in map_option (\<lambda>(chk, m1).
           if chk \<noteq> sum then (False, m1)
           else if m1 (th_magic hdr) \<noteq> 0 \<and> strncmp m1 (th_magic hdr) (f_ustar f) 5 \<noteq> 0 then (False, m1)
           else (True, m1))
         (tar_parse_octal (f_buf f) (th_chksum hdr) 8 m))"

text \<open>The loop that appends the name: the count of characters appended, and memory.\<close>

function append_name :: "u32 \<Rightarrow> u32 \<Rightarrow> u32 \<Rightarrow> u32 \<Rightarrow> memory \<Rightarrow> u32 \<times> memory" where
  "append_name dst src n i m =
     (if i < n \<and> m (src + i) \<noteq> 0 then append_name dst src n (i + 1) (m(dst + i := m (src + i))) else (i, m))"
  by pat_completeness auto
termination
  by (relation "measure (\<lambda>(dst, src, n, i, m). unat n - unat i)") (auto intro: loop_measure)

declare append_name.simps [simp del]

definition build_full_name :: "u32 \<Rightarrow> u32 \<Rightarrow> u32 \<Rightarrow> memory \<Rightarrow> memory option" where
  "build_full_name hdr out out_sz m =
     (let m1 = m(out := 0)
      in if m1 (th_prefix hdr) \<noteq> 0
         then let m2 = snd (strncpy out (th_prefix hdr) (out_sz - 1) m1);
                  m3 = m2(out + (out_sz - 1) := 0)
              in Option.bind (strlen m3 out) (\<lambda>l0.
                   let (l, m4) = (if l0 + 1 < out_sz
                                  then (l0 + 1, m3(out + l0 := 0x2F, out + (l0 + 1) := 0)) else (l0, m3));
                       (i, m5) = append_name (out + l) hdr (out_sz - 1 - l) 0 m4
                   in Some (m5(out + (l + i) := 0)))
         else let m2 = snd (strncpy out hdr (out_sz - 1) m1)
              in Some (m2(out + (out_sz - 1) := 0)))"

text \<open>An \<^verbatim>\<open>'L'\<close> entry: read the long name and skip the entry; \<open>None\<close> inside is the \<^verbatim>\<open>break\<close> for a truncated archive.\<close>

definition read_long_name :: "tar_frame \<Rightarrow> u32 \<Rightarrow> u32 \<Rightarrow> u32 \<Rightarrow> memory \<Rightarrow> (u32 \<times> memory) option" where
  "read_long_name f p e fsize m =
     (let copy_len = (if fsize < TAR_LONGNAME_MAX - 1 then fsize else TAR_LONGNAME_MAX - 1);
          data = p + TAR_BLOCK_SIZE
      in if data + copy_len > e then None
         else let m1 = snd (memcpy (f_long f) data copy_len m);
                  m2 = m1(f_long f + copy_len := 0);
                  skip = TAR_BLOCK_SIZE + round_up_512 fsize
              in if p + skip > e then None else Some (p + skip, m2))"

text \<open>The name of an entry: the long name read before it, or the name in its header.\<close>

definition entry_name :: "tar_frame \<Rightarrow> u32 \<Rightarrow> memory \<Rightarrow> memory option" where
  "entry_name f p m =
     (if m (f_long f) \<noteq> 0
      then Some ((snd (strncpy (f_name f) (f_long f) 255 m))(f_name f + 255 := 0))
      else build_full_name p (f_name f) 256 m)"

text \<open>The bytes of a string, for the lines that \<^verbatim>\<open>tar_list\<close> prints: directory or file, size, name.\<close>

definition string_at :: "memory \<Rightarrow> u32 \<Rightarrow> u8 list option" where
  "string_at m p = map_option (\<lambda>l. map (\<lambda>i. m (p + of_nat i)) [0..<unat l]) (strlen m p)"

partial_function (option) tar_list_from ::
    "tar_frame \<Rightarrow> u32 \<Rightarrow> u32 \<Rightarrow> (bool \<times> u32 \<times> u8 list) list \<Rightarrow> memory \<Rightarrow> (bool \<times> u32 \<times> u8 list) list option" where
  "tar_list_from f e p out m =
     (if p + TAR_BLOCK_SIZE \<le> e \<and> \<not> header_is_zero p m
      then Option.bind (tar_parse_octal (f_buf f) (th_size p) 12 m) (\<lambda>(fsize, m1).
        if m1 (th_typeflag p) = 0x4C
        then case read_long_name f p e fsize m1 of
               None \<Rightarrow> Some out
             | Some (p', m2) \<Rightarrow> tar_list_from f e p' out m2
        else Option.bind (entry_name f p m1) (\<lambda>m2.
          Option.bind (string_at m2 (f_name f)) (\<lambda>nm.
            let m3 = (if m1 (f_long f) \<noteq> 0 then m2(f_long f := 0) else m2);
                out' = out @ [(m3 (th_typeflag p) = 0x35, fsize, nm)];
                skip = TAR_BLOCK_SIZE + round_up_512 fsize
            in if p + skip > e then Some out' else tar_list_from f e (p + skip) out' m3)))
      else Some out)"

definition tar_list :: "tar_frame \<Rightarrow> u32 \<Rightarrow> u32 \<Rightarrow> memory \<Rightarrow> (bool \<times> u32 \<times> u8 list) list option" where
  "tar_list f archive archive_size m = tar_list_from f (archive + archive_size) archive [] (m(f_long f := 0))"

text \<open>The result is the address of the data and \<^verbatim>\<open>*out_size\<close>; \<open>None\<close> inside is \<^verbatim>\<open>NULL\<close>.\<close>

partial_function (option) tar_find_from ::
    "tar_frame \<Rightarrow> u32 \<Rightarrow> u32 \<Rightarrow> u32 \<Rightarrow> memory \<Rightarrow> (u32 \<times> u32) option option" where
  "tar_find_from f e path p m =
     (if p + TAR_BLOCK_SIZE \<le> e \<and> \<not> header_is_zero p m
      then Option.bind (tar_parse_octal (f_buf f) (th_size p) 12 m) (\<lambda>(fsize, m1).
        if m1 (th_typeflag p) = 0x4C
        then case read_long_name f p e fsize m1 of
               None \<Rightarrow> Some None
             | Some (p', m2) \<Rightarrow> tar_find_from f e path p' m2
        else Option.bind (entry_name f p m1) (\<lambda>m2.
          Option.bind (if m2 (th_typeflag p) = 0 \<or> m2 (th_typeflag p) = 0x30
                       then strcmp m2 (f_name f) path else Some 1) (\<lambda>d.
            if d = 0 then Some (Some (p + TAR_BLOCK_SIZE, fsize))
            else let skip = TAR_BLOCK_SIZE + round_up_512 fsize
                 in if p + skip > e then Some None else tar_find_from f e path (p + skip) m2)))
      else Some None)"

definition tar_find :: "tar_frame \<Rightarrow> u32 \<Rightarrow> u32 \<Rightarrow> u32 \<Rightarrow> memory \<Rightarrow> (u32 \<times> u32) option option" where
  "tar_find f archive archive_size path m =
     tar_find_from f (archive + archive_size) path archive (m(f_long f := 0))"

section \<open>Copies into a local array\<close>

text \<open>The addresses of \<open>n\<close> bytes from \<open>d\<close> on are those \<open>x\<close> with \<open>x - d < n\<close>, also across the wrap.\<close>

lemma range_Suc: "0 < (n :: u32) \<Longrightarrow> x - d < n \<longleftrightarrow> x = d \<or> x - (d + 1) < n - 1"
proof -
  assume n: "0 < n"
  have "unat (n - 1) = unat n - 1" "0 < unat n"
    using n by (simp_all add: unat_minus_one word_neq_0_conv word_less_nat_alt)
  then have "y < n \<longleftrightarrow> y = 0 \<or> y - 1 < n - 1" for y :: u32
    using unat_gt_0 [of y] by (cases "y = 0") (auto simp: word_less_nat_alt unat_minus_one)
  from this [of "x - d"] have "x - d < n \<longleftrightarrow> x = d \<or> x - d - 1 < n - 1" by simp
  then show ?thesis by (simp only: diff_diff_eq)
qed

lemma strncpy_pad_eq: "strncpy_pad d n m = (\<lambda>x. if x - d < n then 0 else m x)"
proof (induction d n m rule: strncpy_pad.induct)
  case (1 d n m)
  show ?case
  proof (cases "0 < n")
    case True
    with 1 show ?thesis by (subst strncpy_pad.simps) (simp only: if_True range_Suc, auto simp: fun_eq_iff)
  next
    case False
    then have "n = 0" using word_neq_0_conv by blast
    then show ?thesis by (subst strncpy_pad.simps) simp
  qed
qed

lemma strncpy_from_eq:
  assumes "cstr m s xs" and "length xs < unat n" and "\<And>i. i \<le> length xs \<Longrightarrow> \<not> s + of_nat i - d < n"
  shows "\<exists>m'. strncpy_from d s n m = m' \<and> cstr m' d xs \<and> (\<forall>x. \<not> x - d < n \<longrightarrow> m' x = m x)"
  using assms
proof (induction xs arbitrary: d s n m)
  case Nil
  then have n: "0 < n" by (simp add: word_less_nat_alt)
  have "strncpy_from d s n m = strncpy_pad d n m" using Nil.prems(1) by (subst strncpy_from.simps) simp
  then show ?case using n by (simp add: strncpy_pad_eq)
next
  case (Cons x xs)
  have n: "0 < n" using Cons.prems(2) by (simp add: word_less_nat_alt)
  then have un: "unat (n - 1) = unat n - 1" by (simp add: unat_minus_one word_neq_0_conv)
  have out: "\<not> s + of_nat i - d < n" if "i \<le> Suc (length xs)" for i using Cons.prems(3) that by simp
  have sub: "\<not> y - (d + 1) < n - 1" if "\<not> y - d < n" for y using that range_Suc [OF n] by blast
  have ne: "s + of_nat i \<noteq> d" if "i \<le> Suc (length xs)" for i
    using out [OF that] n by (metis diff_self)
  let ?m = "m(d := m s)"
  have c: "cstr ?m (s + 1) xs"
  proof (subst cstr_cong [where m = m])
    show "?m (s + 1 + of_nat i) = m (s + 1 + of_nat i)" if "i \<le> length xs" for i
      using ne [of "Suc i"] that by (simp add: add.assoc)
  qed (use Cons.prems(1) in simp)
  obtain m' where m': "strncpy_from (d + 1) (s + 1) (n - 1) ?m = m'" "cstr m' (d + 1) xs"
    "\<forall>y. \<not> y - (d + 1) < n - 1 \<longrightarrow> m' y = ?m y"
  proof -
    have "length xs < unat (n - 1)" using Cons.prems(2) un by simp
    moreover have "\<not> s + 1 + of_nat i - (d + 1) < n - 1" if "i \<le> length xs" for i
      using sub [OF out [of "Suc i"]] that by (simp add: add.assoc)
    ultimately show thesis using Cons.IH [OF c] that by blast
  qed
  have "strncpy_from d s n m = m'" using Cons.prems(1) n m'(1) by (subst strncpy_from.simps) simp
  moreover have "m' d = m s"
  proof -
    have "d - (d + 1) = - 1" by simp
    moreover have "\<not> (- 1 :: u32) < n - 1" by (simp add: not_less)
    ultimately show ?thesis using m'(3) by (metis fun_upd_same)
  qed
  moreover have "m' y = m y" if "\<not> y - d < n" for y
  proof -
    have "y \<noteq> d" using that n by auto
    then show ?thesis using m'(3) sub [OF that] by simp
  qed
  ultimately show ?case using m'(2) Cons.prems(1) by auto
qed

lemma octal_copy_eq:
  assumes "i \<le> k" "k \<le> unat n" and "\<And>j. i \<le> j \<Longrightarrow> j < k \<Longrightarrow> m (str + of_nat j) \<noteq> 0 \<and> m (str + of_nat j) \<noteq> 0x20"
    and "k < unat n \<Longrightarrow> m (str + of_nat k) = 0 \<or> m (str + of_nat k) = 0x20"
    and "\<And>j l. j \<le> k \<Longrightarrow> l < k \<Longrightarrow> str + of_nat j \<noteq> buf + of_nat l"
  shows "octal_copy buf str n (of_nat i) m =
     (of_nat k, \<lambda>x. if i \<le> unat (x - buf) \<and> unat (x - buf) < k then m (str + (x - buf)) else m x)"
  using assms
proof (induction "k - i" arbitrary: i m)
  case 0
  then have "i = k" by simp
  moreover have "unat (of_nat k :: u32) = k" using "0.prems"(2) le_less_trans [OF _ unat_lt(3) [of n]] by (simp add: unat_of_nat_small)
  ultimately show ?case using "0.prems"(2,4)
    by (subst octal_copy.simps) (auto simp: word_less_nat_alt Let_def fun_eq_iff)
next
  case (Suc d)
  then have ik: "i < k" by simp
  have small: "k < 2 ^ 32" using Suc.prems(2) le_less_trans [OF _ unat_lt(3) [of n]] by simp
  then have ui: "unat (of_nat i :: u32) = i" using ik by (simp add: unat_of_nat_small)
  let ?m = "m(buf + of_nat i := m (str + of_nat i))"
  have same: "?m (str + of_nat j) = m (str + of_nat j)" if "j \<le> k" for j
    using Suc.prems(5) [OF that ik] by simp
  have step: "octal_copy buf str n (of_nat i) m = octal_copy buf str n (of_nat (Suc i)) ?m"
    using Suc.prems(2) ik ui Suc.prems(3) [of i]
    by (subst octal_copy.simps) (simp add: word_less_nat_alt Let_def add.commute)
  have IH: "octal_copy buf str n (of_nat (Suc i)) ?m =
     (of_nat k, \<lambda>x. if Suc i \<le> unat (x - buf) \<and> unat (x - buf) < k then ?m (str + (x - buf)) else ?m x)"
  proof (rule Suc.hyps(1))
    show "d = k - Suc i" "Suc i \<le> k" "k \<le> unat n" using Suc.hyps(2) ik Suc.prems(2) by simp_all
    show "?m (str + of_nat j) \<noteq> 0 \<and> ?m (str + of_nat j) \<noteq> 0x20" if "Suc i \<le> j" "j < k" for j
      using same [of j] Suc.prems(3) [of j] that by simp
    show "?m (str + of_nat k) = 0 \<or> ?m (str + of_nat k) = 0x20" if "k < unat n"
      using same [of k] Suc.prems(4) that by simp
  qed (rule Suc.prems(5))
  have at_i: "unat (x - buf) = i \<longleftrightarrow> x = buf + of_nat i" for x
    using offset_eq [of x buf "of_nat i"] ui by simp
  have "(if Suc i \<le> unat (x - buf) \<and> unat (x - buf) < k then ?m (str + (x - buf)) else ?m x) =
        (if i \<le> unat (x - buf) \<and> unat (x - buf) < k then m (str + (x - buf)) else m x)" for x
  proof (cases "x = buf + of_nat i")
    case True
    then show ?thesis using ik ui by simp
  next
    case False
    then have "unat (x - buf) \<noteq> i" using at_i by simp
    moreover have "?m (str + (x - buf)) = m (str + (x - buf))" if "unat (x - buf) < k"
      using same [of "unat (x - buf)"] that by simp
    ultimately show ?thesis using False by (auto simp: Suc_le_eq)
  qed
  with step IH show ?case by (simp add: fun_eq_iff del: of_nat_Suc)
qed

section \<open>Archives\<close>

text \<open>What an archive says about one entry, and where the next one begins.\<close>

record tar_entry =
  te_name :: "u8 list"
  te_type :: u8
  te_size :: nat

definition te_skip :: "tar_entry \<Rightarrow> nat" where
  "te_skip x = 512 + (te_size x + 511) div 512 * 512"

text \<open>A size field: 11 octal digits and a blank or a zero byte.\<close>

definition octal_field :: "memory \<Rightarrow> u32 \<Rightarrow> nat \<Rightarrow> bool" where
  "octal_field m str v \<longleftrightarrow> (\<exists>ds. length ds = 11 \<and> digits_of 8 ds \<and> digits_value 8 ds 0 = v \<and>
     (\<forall>i < 11. m (str + of_nat i) = ds ! i) \<and> m (str + 11) \<in> {0, 0x20})"

text \<open>
  \<open>entry_at A m p x\<close>: the header at \<open>p\<close>, inside the addresses \<open>A\<close>, describes the entry \<open>x\<close>: a name of at most 99
  characters in the name field, no prefix, and not a long-name entry.
\<close>

definition entry_at :: "u32 set \<Rightarrow> memory \<Rightarrow> u32 \<Rightarrow> tar_entry \<Rightarrow> bool" where
  "entry_at A m p x \<longleftrightarrow> (\<forall>i < 512. p + of_nat i \<in> A) \<and> p \<noteq> 0 \<and> cstr m p (te_name x) \<and> te_name x \<noteq> [] \<and>
     length (te_name x) \<le> 99 \<and> m (th_prefix p) = 0 \<and> m (th_typeflag p) = te_type x \<and> te_type x \<noteq> 0x4C \<and>
     octal_field m (th_size p) (te_size x)"

fun tar_archive :: "u32 set \<Rightarrow> memory \<Rightarrow> u32 \<Rightarrow> u32 \<Rightarrow> tar_entry list \<Rightarrow> bool" where
  "tar_archive A m e p [] \<longleftrightarrow> \<not> p + TAR_BLOCK_SIZE \<le> e \<or> (\<forall>i < 512. p + of_nat i \<in> A \<and> m (p + of_nat i) = 0)"
| "tar_archive A m e p (x # xs) \<longleftrightarrow> entry_at A m p x \<and> unat p + te_skip x \<le> unat e \<and>
     tar_archive A m e (p + of_nat (te_skip x)) xs"

text \<open>The specification of \<^verbatim>\<open>tar_find\<close>: the first regular file of that name.\<close>

fun find_entry :: "u8 list \<Rightarrow> u32 \<Rightarrow> tar_entry list \<Rightarrow> (u32 \<times> u32) option" where
  "find_entry path p [] = None"
| "find_entry path p (x # xs) =
     (if (te_type x = 0 \<or> te_type x = 0x30) \<and> te_name x = path then Some (p + 512, of_nat (te_size x))
      else find_entry path (p + of_nat (te_skip x)) xs)"

text \<open>The local arrays do not overlap each other or the addresses \<open>A\<close>.\<close>

definition frame_apart :: "tar_frame \<Rightarrow> u32 set \<Rightarrow> bool" where
  "frame_apart f A \<longleftrightarrow> f_name f \<noteq> 0 \<and>
     (\<forall>x \<in> A. \<not> x - f_buf f < 32 \<and> \<not> x - f_name f < 256 \<and> x \<noteq> f_long f) \<and>
     \<not> f_long f - f_buf f < 32 \<and> \<not> f_long f - f_name f < 256"

lemma header_is_zero_eq: "header_is_zero h m \<longleftrightarrow> (\<forall>i < 512. m (h + of_nat i) = 0)"
proof -
  let ?body = "\<lambda>(i :: u32) (_ :: unit). Some (if m (h + i) \<noteq> 0 then Some () else None, ())"
  let ?P = "\<lambda>k (_ :: unit). \<forall>i < k. m (h + of_nat i) = 0"
  have "\<exists>r st. for_ret 0 TAR_BLOCK_SIZE ?body () = Some (r, st) \<and>
     (case r of None \<Rightarrow> ?P (unat TAR_BLOCK_SIZE) st
      | Some v \<Rightarrow> \<exists>i. unat (0 :: u32) \<le> i \<and> i < unat TAR_BLOCK_SIZE \<and> m (h + of_nat i) \<noteq> 0)"
    by (rule for_ret_rule [where P = ?P]) (auto simp: less_Suc_eq)
  then show ?thesis by (auto simp: header_is_zero_def split: option.splits)
qed

lemma octal_field_facts:
  assumes "octal_field m str v"
  obtains ds where "length ds = 11" "digits_of 8 ds" "digits_value 8 ds 0 = v"
    "\<And>i. i < 11 \<Longrightarrow> m (str + of_nat i) = ds ! i \<and> ds ! i \<noteq> 0 \<and> ds ! i \<noteq> 0x20" "m (str + 11) \<in> {0, 0x20}"
proof -
  obtain ds where ds: "length ds = 11" "digits_of 8 ds" "digits_value 8 ds 0 = v"
    "\<forall>i < 11. m (str + of_nat i) = ds ! i" "m (str + 11) \<in> {0, 0x20}" using assms by (auto simp: octal_field_def)
  have "c \<noteq> 0 \<and> c \<noteq> 0x20" if "c \<in> set ds" for c
    using ds(2) that by (auto simp: digits_of_def hex_digit_def)
  with ds show thesis by (intro that [of ds]) auto
qed

lemma tar_parse_octal_eq:
  assumes field: "octal_field m str v" and apart: "\<And>i. i < 12 \<Longrightarrow> \<not> str + of_nat i - buf < 32"
  shows "\<exists>m'. tar_parse_octal buf str 12 m = Some (of_nat v, m') \<and> (\<forall>x. \<not> x - buf < 32 \<longrightarrow> m' x = m x)"
proof -
  obtain ds where ds: "length ds = 11" "digits_of 8 ds" "digits_value 8 ds 0 = v"
    "\<And>i. i < 11 \<Longrightarrow> m (str + of_nat i) = ds ! i \<and> ds ! i \<noteq> 0 \<and> ds ! i \<noteq> 0x20" "m (str + 11) \<in> {0, 0x20}"
    using octal_field_facts [OF field] by metis
  have small: "of_nat l < (32 :: u32)" if "l < 12" for l using that by (simp add: word_less_nat_alt unat_of_nat_small)
  let ?m1 = "\<lambda>x. if 0 \<le> unat (x - buf) \<and> unat (x - buf) < 11 then m (str + (x - buf)) else m x"
  have copy: "octal_copy buf str 12 (of_nat 0) m = (of_nat 11, ?m1)"
  proof (rule octal_copy_eq)
    show "str + of_nat j \<noteq> buf + of_nat l" if "j \<le> 11" "l < 11" for j l
      using apart [of j] small [of l] that by auto
  qed (use ds in auto)
  define m2 where "m2 = ?m1(buf + 11 := 0)"
  have at: "m2 (buf + of_nat i) = ds ! i" if "i < 11" for i
  proof -
    have "(of_nat i :: u32) \<noteq> 11" "unat (of_nat i :: u32) = i"
      using that by (simp_all add: word_unat_eq_iff unat_of_nat_small)
    then show ?thesis using ds(4) that by (simp add: m2_def)
  qed
  have "m2 (buf + of_nat (length ds)) = 0" by (simp add: m2_def ds(1))
  then have "cstr m2 buf (ds @ [])" unfolding append_Nil2 cstr_nth using at ds(1,4) by simp
  then have "strtoul m2 buf 8 = Some (of_nat v, buf + of_nat (length ds))"
    using strtoul_digits_string [of m2 buf ds "[]" 8] ds(1-3) by (cases ds) auto
  moreover have "m2 x = m x" if "\<not> x - buf < 32" for x
  proof -
    have "32 \<le> unat (x - buf)" using that by (simp add: word_less_nat_alt)
    moreover from this have "x \<noteq> buf + 11" by auto
    ultimately show ?thesis by (simp add: m2_def)
  qed
  moreover have "tar_parse_octal buf str 12 m = map_option (\<lambda>(v, _). (v, m2)) (strtoul m2 buf 8)"
    using copy by (simp add: tar_parse_octal_def m2_def Let_def)
  ultimately show ?thesis by auto
qed

lemma entry_at_agree:
  assumes "\<And>x. x \<in> A \<Longrightarrow> m' x = m x" and "entry_at A m p x"
  shows "entry_at A m' p x"
proof -
  have hdr: "p + of_nat i \<in> A" if "i < 512" for i using assms(2) that by (simp add: entry_at_def)
  then have same: "m' (p + of_nat i) = m (p + of_nat i)" if "i < 512" for i using assms(1) that by blast
  have fields: "m' (th_prefix p) = m (th_prefix p)" "m' (th_typeflag p) = m (th_typeflag p)"
    using same [of 345] same [of 156] by simp_all
  have "cstr m' p (te_name x) = cstr m p (te_name x)"
    by (rule cstr_cong) (use assms(2) same in \<open>auto simp: entry_at_def\<close>)
  moreover have sz: "m' (th_size p + of_nat i) = m (th_size p + of_nat i)" if "i < 12" for i
    using same [of "124 + i"] that by (simp add: add.assoc)
  have "octal_field m' (th_size p) v = octal_field m (th_size p) v" for v
    using sz sz [of 11] by (simp add: octal_field_def)
  ultimately show ?thesis using assms(2) fields by (simp add: entry_at_def)
qed

lemma tar_archive_agree:
  assumes "\<And>x. x \<in> A \<Longrightarrow> m' x = m x"
  shows "tar_archive A m e p xs \<Longrightarrow> tar_archive A m' e p xs"
proof (induction xs arbitrary: p)
  case Nil
  then show ?case using assms by auto
next
  case (Cons x xs)
  then show ?case using entry_at_agree [OF assms] by auto
qed

lemma entry_name_eq:
  assumes x: "entry_at A m p x" and f: "frame_apart f A" and long: "m (f_long f) = 0"
  shows "\<exists>m'. entry_name f p m = Some m' \<and> cstr m' (f_name f) (te_name x) \<and>
           (\<forall>y. \<not> y - f_name f < 256 \<longrightarrow> m' y = m y)"
proof -
  let ?o = "f_name f" and ?m1 = "m(f_name f := 0)"
  have hdr: "p + of_nat i \<in> A" if "i < 512" for i using x that by (simp add: entry_at_def)
  have out: "\<not> p + of_nat i - ?o < 256" if "i < 512" for i using f hdr [OF that] by (simp add: frame_apart_def)
  have ne: "p + of_nat i \<noteq> ?o" if "i < 512" for i using out [OF that] by auto
  have e: "length (te_name x) \<le> 99" "cstr m p (te_name x)" "m (th_prefix p) = 0" "p \<noteq> 0"
    using x by (simp_all add: entry_at_def)
  have c1: "cstr ?m1 p (te_name x)"
    by (subst cstr_cong [where m = m]) (use e ne in auto)
  have sub: "\<not> y - ?o < 255" if "\<not> y - ?o < 256" for y :: u32 using that by (simp add: word_less_nat_alt)
  obtain m2 where m2: "strncpy_from ?o p 255 ?m1 = m2" "cstr m2 ?o (te_name x)" "\<forall>y. \<not> y - ?o < 255 \<longrightarrow> m2 y = ?m1 y"
    using strncpy_from_eq [OF c1, of 255 ?o] e(1) sub out by auto
  have "?m1 (th_prefix p) = 0" using e(3) ne [of 345] by simp
  then have "entry_name f p m = Some (m2(?o + 255 := 0))"
    using long m2(1) e(4) f by (simp add: entry_name_def build_full_name_def strncpy_def frame_apart_def Let_def)
  moreover have "cstr (m2(?o + 255 := 0)) ?o (te_name x)"
  proof (subst cstr_cong [where m = m2])
    fix i assume "i \<le> length (te_name x)"
    then have "i < 255" using e(1) by simp
    then have "(of_nat i :: u32) \<noteq> 255" by (simp add: word_unat_eq_iff unat_of_nat_small)
    then show "(m2(?o + 255 := 0)) (?o + of_nat i) = m2 (?o + of_nat i)" by simp
  qed (rule m2(2))
  moreover have "(m2(?o + 255 := 0)) y = m y" if "\<not> y - ?o < 256" for y
  proof -
    have "y \<noteq> ?o + 255" "y \<noteq> ?o" using that by auto
    then show ?thesis using m2(3) sub [OF that] by simp
  qed
  ultimately show ?thesis by blast
qed

lemma round_up_512_eq:
  assumes "v + 511 < 2 ^ 32"
  shows "TAR_BLOCK_SIZE + round_up_512 (of_nat v) = of_nat (512 + (v + 511) div 512 * 512)"
proof -
  have "unat (of_nat v + 511 :: u32) = v + 511" using assms by (simp add: unat_word_ariths unat_of_nat_small)
  then have "unat (round_up_512 (of_nat v)) = (v + 511) div 512 * 512"
    using unat_and_not_mask [of "of_nat v + 511 :: u32" 9] by (simp add: round_up_512_def mask_eq_exp_minus_1)
  then have "round_up_512 (of_nat v) = of_nat ((v + 511) div 512 * 512)"
    by (metis of_nat_unat ucast_id)
  then show ?thesis by simp
qed

section \<open>Properties\<close>

lemma te_skip_ge: "512 \<le> te_skip x"
  by (simp add: te_skip_def)

lemma te_skip_bound: "unat p + te_skip x \<le> unat (e :: u32) \<Longrightarrow> te_size x + 511 < 2 ^ 32"
proof -
  assume "unat p + te_skip x \<le> unat e"
  then have "te_skip x < 4294967296" using unat_lt(3) [of e] by linarith
  moreover have "te_size x + 511 < te_skip x"
    using dividend_less_div_times [of 512 "te_size x + 511"] by (simp add: te_skip_def)
  ultimately show ?thesis by simp
qed

text \<open>What one iteration computes for a plain entry.\<close>

lemma tar_entry_step:
  assumes x: "entry_at A m p x" and apart: "frame_apart f A" and long: "m (f_long f) = 0"
    and path: "cstr m path nm" "path \<noteq> 0" "\<And>i. i \<le> length nm \<Longrightarrow> path + of_nat i \<in> A"
  obtains m1 m2 d where "tar_parse_octal (f_buf f) (th_size p) 12 m = Some (of_nat (te_size x), m1)"
    "entry_name f p m1 = Some m2" "strcmp m2 (f_name f) path = Some d" "d = 0 \<longleftrightarrow> te_name x = nm"
    "m1 (th_typeflag p) = te_type x" "m2 (th_typeflag p) = te_type x" "\<not> header_is_zero p m"
    "\<And>y. y \<in> A \<Longrightarrow> m2 y = m y" "m2 (f_long f) = 0" "cstr m2 path nm"
proof -
  note f = apart [unfolded frame_apart_def]
  have hdr: "p + of_nat i \<in> A" if "i < 512" for i using x that by (simp add: entry_at_def)
  have tf: "th_typeflag p \<in> A" using hdr [of 156] by simp
  obtain m1 where m1: "tar_parse_octal (f_buf f) (th_size p) 12 m = Some (of_nat (te_size x), m1)"
    "\<forall>y. \<not> y - f_buf f < 32 \<longrightarrow> m1 y = m y"
  proof -
    have "\<not> th_size p + of_nat i - f_buf f < 32" if "i < 12" for i
      using f hdr [of "124 + i"] that by (simp add: add.assoc)
    moreover have "octal_field m (th_size p) (te_size x)" using x by (simp add: entry_at_def)
    ultimately show thesis using tar_parse_octal_eq that by blast
  qed
  have same1: "m1 y = m y" if "y \<in> A" for y using m1(2) f that by blast
  have x1: "entry_at A m1 p x" by (rule entry_at_agree [OF same1 x])
  have long1: "m1 (f_long f) = 0" using m1(2) f long by auto
  obtain m2 where m2: "entry_name f p m1 = Some m2" "cstr m2 (f_name f) (te_name x)"
    "\<forall>y. \<not> y - f_name f < 256 \<longrightarrow> m2 y = m1 y" using entry_name_eq [OF x1 apart long1] by blast
  have same2: "m2 y = m y" if "y \<in> A" for y using m2(3) f that same1 by auto
  have long2: "m2 (f_long f) = 0" using m2(3) f long1 by auto
  have path2: "cstr m2 path nm" by (subst cstr_cong [where m = m]) (use same2 path in auto)
  obtain d where d: "strcmp m2 (f_name f) path = Some d" "d = 0 \<longleftrightarrow> te_name x = nm"
    using strcmp_from_eq [OF m2(2) path2] f path(2) by (auto simp: strcmp_def)
  have "m p \<noteq> 0" using x by (cases "te_name x") (auto simp: entry_at_def)
  then have nz: "\<not> header_is_zero p m" unfolding header_is_zero_eq by (auto intro!: exI [of _ 0])
  have type: "m1 (th_typeflag p) = te_type x" "m2 (th_typeflag p) = te_type x"
    using x same1 [OF tf] same2 [OF tf] by (simp_all add: entry_at_def)
  show thesis by (rule that [OF m1(1) m2(1) d type nz same2 long2 path2])
qed

lemma tar_find_from_eq:
  assumes "tar_archive A m e p xs" and "frame_apart f A" and "m (f_long f) = 0"
    and "cstr m path nm" "path \<noteq> 0" "\<And>i. i \<le> length nm \<Longrightarrow> path + of_nat i \<in> A"
  shows "tar_find_from f e path p m = Some (find_entry nm p xs)"
  using assms(1,3,4)
proof (induction xs arbitrary: p m)
  case Nil
  then have "\<not> (p + TAR_BLOCK_SIZE \<le> e \<and> \<not> header_is_zero p m)" by (auto simp: header_is_zero_eq)
  then show ?case by (subst tar_find_from.simps) auto
next
  case (Cons x xs)
  have x: "entry_at A m p x" and fit: "unat p + te_skip x \<le> unat e"
    and rest: "tar_archive A m e (p + of_nat (te_skip x)) xs" using Cons.prems(1) by simp_all
  obtain m1 m2 d where st: "tar_parse_octal (f_buf f) (th_size p) 12 m = Some (of_nat (te_size x), m1)"
    "entry_name f p m1 = Some m2" "strcmp m2 (f_name f) path = Some d" "d = 0 \<longleftrightarrow> te_name x = nm"
    "m1 (th_typeflag p) = te_type x" "m2 (th_typeflag p) = te_type x" "\<not> header_is_zero p m"
    and keep: "\<And>y. y \<in> A \<Longrightarrow> m2 y = m y" "m2 (f_long f) = 0" "cstr m2 path nm"
    using tar_entry_step [OF x assms(2) Cons.prems(2,3) assms(5,6)] by metis
  have type: "te_type x \<noteq> 0x4C" using x by (simp add: entry_at_def)
  have go: "p + TAR_BLOCK_SIZE \<le> e" "\<not> p + of_nat (te_skip x) > e"
  proof -
    have le: "unat p + 512 \<le> unat e" using fit te_skip_ge [of x] by linarith
    then show "p + TAR_BLOCK_SIZE \<le> e" using le_less_trans [OF _ unat_lt(3) [of e]]
      by (simp add: word_le_nat_alt unat_word_ariths)
    have "unat p + te_skip x < 2 ^ 32" using fit le_less_trans [OF _ unat_lt(3) [of e]] by simp
    then have "unat (p + of_nat (te_skip x)) = unat p + te_skip x" by (simp add: unat_word_ariths unat_of_nat_small)
    then show "\<not> p + of_nat (te_skip x) > e" using fit by (simp add: word_less_nat_alt)
  qed
  have skip: "TAR_BLOCK_SIZE + round_up_512 (of_nat (te_size x)) = of_nat (te_skip x)"
    using round_up_512_eq [OF te_skip_bound [OF fit]] by (simp add: te_skip_def)
  have nxt: "tar_find_from f e path (p + of_nat (te_skip x)) m2 = Some (find_entry nm (p + of_nat (te_skip x)) xs)"
    by (rule Cons.IH) (use tar_archive_agree [OF keep(1) rest] keep in simp_all)
  show ?case
    using go st type nxt skip by (subst tar_find_from.simps) (cases "te_type x = 0 \<or> te_type x = 0x30", auto simp: Let_def)
qed

lemma tar_find_eq:
  assumes "tar_archive A m (archive + archive_size) archive xs" and "frame_apart f A"
    and "cstr m path nm" "path \<noteq> 0" "\<And>i. i \<le> length nm \<Longrightarrow> path + of_nat i \<in> A"
  shows "tar_find f archive archive_size path m = Some (find_entry nm archive xs)"
proof -
  have same: "(m(f_long f := 0)) y = m y" if "y \<in> A" for y using assms(2) that by (auto simp: frame_apart_def)
  have "cstr (m(f_long f := 0)) path nm" by (subst cstr_cong [where m = m]) (use same assms in auto)
  from tar_find_from_eq [OF tar_archive_agree [OF same assms(1)] assms(2) _ this assms(4,5)] show ?thesis
    by (simp add: tar_find_def)
qed

text \<open>\<^verbatim>\<open>tar_find\<close> returns, for an archive of plain entries (names of up to 99 characters in the name
  field, no long-name entries) that ends inside the given size: its result is the data and the size of the
  first regular file of that name, or \<^verbatim>\<open>NULL\<close> when there is none.
\<close>

theorem tar_find_first:
  assumes "tar_archive A m (archive + archive_size) archive xs" and "frame_apart f A"
    and "cstr m path nm" "path \<noteq> 0" "\<And>i. i \<le> length nm \<Longrightarrow> path + of_nat i \<in> A"
  shows "tar_find f archive archive_size path m = Some (find_entry nm archive xs)"
  by (rule tar_find_eq [OF assms])

text \<open>
  A plain entry other than the one looked for, whose size field is \<^verbatim>\<open>37777777000\<close> (\<^verbatim>\<open>0xFFFFFE00\<close>), makes
  the search loop forever: the size rounded up and added to the header's block wraps around to 0.
\<close>

theorem tar_find_diverges:
  assumes x: "entry_at A m archive x" and big: "te_size x = 0xFFFFFE00" and other: "te_name x \<noteq> nm"
    and "archive + TAR_BLOCK_SIZE \<le> archive + archive_size" "archive \<le> archive + archive_size"
    and apart: "frame_apart f A"
    and path: "cstr m path nm" "path \<noteq> 0" "\<And>i. i \<le> length nm \<Longrightarrow> path + of_nat i \<in> A"
  shows "tar_find f archive archive_size path m = None"
proof -
  let ?e = "archive + archive_size"
  have skip: "TAR_BLOCK_SIZE + round_up_512 (of_nat (te_size x)) = 0" by (simp add: big round_up_512_def)
  have type: "te_type x \<noteq> 0x4C" using x by (simp add: entry_at_def)
  have stuck: "\<not> (g = f \<and> e = ?e \<and> q = path \<and> p = archive \<and> entry_at A m archive x \<and> m (f_long f) = 0 \<and> cstr m path nm)"
    if "tar_find_from g e q p m = Some y" for g e q p m y
  proof (rule tar_find_from.raw_induct [where P = "\<lambda>g e q p m y. \<not> (g = f \<and> e = ?e \<and> q = path \<and> p = archive \<and>
      entry_at A m archive x \<and> m (f_long f) = 0 \<and> cstr m path nm)", OF _ that])
    fix tf :: "tar_frame \<Rightarrow> u32 \<Rightarrow> u32 \<Rightarrow> u32 \<Rightarrow> memory \<Rightarrow> (u32 \<times> u32) option option" and g e q p m y
    assume IH: "\<And>g e q p m y. tf g e q p m = Some y \<Longrightarrow> \<not> (g = f \<and> e = ?e \<and> q = path \<and> p = archive \<and>
      entry_at A m archive x \<and> m (f_long f) = 0 \<and> cstr m path nm)"
      and body: "(if p + TAR_BLOCK_SIZE \<le> e \<and> \<not> header_is_zero p m
      then Option.bind (tar_parse_octal (f_buf g) (th_size p) 12 m) (\<lambda>(fsize, m1).
        if m1 (th_typeflag p) = 0x4C
        then case read_long_name g p e fsize m1 of
               None \<Rightarrow> Some None
             | Some (p', m2) \<Rightarrow> tf g e q p' m2
        else Option.bind (entry_name g p m1) (\<lambda>m2.
          Option.bind (if m2 (th_typeflag p) = 0 \<or> m2 (th_typeflag p) = 0x30
                       then strcmp m2 (f_name g) q else Some 1) (\<lambda>d.
            if d = 0 then Some (Some (p + TAR_BLOCK_SIZE, fsize))
            else let skip = TAR_BLOCK_SIZE + round_up_512 fsize
                 in if p + skip > e then Some None else tf g e q (p + skip) m2)))
      else Some None) = Some y"
    show "\<not> (g = f \<and> e = ?e \<and> q = path \<and> p = archive \<and> entry_at A m archive x \<and> m (f_long f) = 0 \<and> cstr m path nm)"
    proof
      assume c: "g = f \<and> e = ?e \<and> q = path \<and> p = archive \<and> entry_at A m archive x \<and> m (f_long f) = 0 \<and> cstr m path nm"
      then have x': "entry_at A m archive x" "m (f_long f) = 0" "cstr m path nm" by blast+
      obtain m1 m2 d where st: "tar_parse_octal (f_buf f) (th_size archive) 12 m = Some (of_nat (te_size x), m1)"
        "entry_name f archive m1 = Some m2" "strcmp m2 (f_name f) path = Some d" "d = 0 \<longleftrightarrow> te_name x = nm"
        "m1 (th_typeflag archive) = te_type x" "m2 (th_typeflag archive) = te_type x" "\<not> header_is_zero archive m"
        and keep: "\<And>y. y \<in> A \<Longrightarrow> m2 y = m y" "m2 (f_long f) = 0" "cstr m2 path nm"
        using tar_entry_step [OF x'(1) apart x'(2,3) path(2,3)] by metis
      have "tf f ?e path archive m2 = Some y"
        using body st other type skip assms(4,5) c by (auto simp: Let_def not_less split: if_splits)
      then show False using IH [of f ?e path archive m2 y] entry_at_agree [OF keep(1) x'(1)] keep by blast
    qed
  qed
  have same: "(m(f_long f := 0)) y = m y" if "y \<in> A" for y using apart that by (auto simp: frame_apart_def)
  have "cstr (m(f_long f := 0)) path nm" by (subst cstr_cong [where m = m]) (use same path in auto)
  then have "tar_find_from f ?e path archive (m(f_long f := 0)) \<noteq> Some y" for y
    using stuck [of f ?e path archive "m(f_long f := 0)" y] entry_at_agree [OF same x] by auto
  then show ?thesis unfolding tar_find_def by (cases "tar_find_from f ?e path archive (m(f_long f := 0))") auto
qed

text \<open>Two archives at \<^verbatim>\<open>0x10000\<close> with one file \<^verbatim>\<open>a\<close>, of 1 and of \<^verbatim>\<open>0xFFFFFE00\<close> bytes, and the path \<^verbatim>\<open>a\<close> at \<^verbatim>\<open>0x20000\<close>.\<close>

definition small_tar :: "u8 list \<Rightarrow> memory" where
  "small_tar ds x = (if x = 0x10000 \<or> x = 0x20000 then 0x61 else if x = 0x1009C then 0x30
     else if x - 0x1007C < 11 then ds ! unat (x - 0x1007C) else 0)"

definition small_frame :: tar_frame where
  "small_frame = \<lparr>f_buf = 0x30000, f_name = 0x31000, f_long = 0x32000, f_ustar = 0x33000\<rparr>"

definition tar_addrs :: "u32 set" where
  "tar_addrs = {x. unat x < 0x30000}"

lemma small_frame_apart: "frame_apart small_frame tar_addrs"
proof -
  have "\<not> x - 0x30000 < 32 \<and> \<not> x - 0x31000 < 256 \<and> x \<noteq> 0x32000" if "unat x < 0x30000" for x :: u32
    using that by (auto simp: word_less_nat_alt unat_sub_if_size word_size)
  then show ?thesis by (auto simp: frame_apart_def small_frame_def tar_addrs_def)
qed

lemma small_tar_entry:
  assumes "length ds = 11" "digits_of 8 ds"
  shows "entry_at tar_addrs (small_tar ds) 0x10000 \<lparr>te_name = [0x61], te_type = 0x30, te_size = digits_value 8 ds 0\<rparr>"
proof -
  have u: "unat (0x10000 + of_nat i :: u32) = 0x10000 + i" if "i < 512" for i
    using that by (simp add: unat_word_ariths unat_of_nat_small)
  have "octal_field (small_tar ds) (th_size 0x10000) (digits_value 8 ds 0)"
  proof -
    have "small_tar ds (th_size 0x10000 + of_nat i) = ds ! i" if "i < 11" for i
    proof -
      have i: "unat (of_nat i :: u32) = i" "(of_nat i :: u32) < 11" "(of_nat i :: u32) < 32"
        using that by (simp_all add: unat_of_nat_small word_less_nat_alt)
      moreover have "0x1007C + of_nat i \<noteq> (0x10000 :: u32)" "0x1007C + of_nat i \<noteq> (0x20000 :: u32)"
        "0x1007C + of_nat i \<noteq> (0x1009C :: u32)"
        using that i(1) by (simp_all add: word_unat_eq_iff unat_word_ariths)
      ultimately show ?thesis by (simp add: small_tar_def)
    qed
    then show ?thesis unfolding octal_field_def using assms by (intro exI [of _ ds]) (simp add: small_tar_def)
  qed
  then show ?thesis using u by (simp add: entry_at_def tar_addrs_def small_tar_def)
qed

lemma small_tar_path: "cstr (small_tar ds) 0x20000 [0x61]" "\<And>i. i \<le> 1 \<Longrightarrow> 0x20000 + of_nat i \<in> tar_addrs"
proof -
  show "cstr (small_tar ds) 0x20000 [0x61]" by (simp add: small_tar_def)
  show "0x20000 + of_nat i \<in> tar_addrs" if "i \<le> 1" for i using that by (cases i) (auto simp: tar_addrs_def)
qed

theorem tar_find_first_witness:
  "tar_find small_frame 0x10000 0x400 0x20000 (small_tar [0x30, 0x30, 0x30, 0x30, 0x30, 0x30, 0x30, 0x30, 0x30, 0x30, 0x31]) = Some (Some (0x10200, 1))"
proof -
  let ?ds = "[0x30, 0x30, 0x30, 0x30, 0x30, 0x30, 0x30, 0x30, 0x30, 0x30, 0x31] :: u8 list"
  let ?x = "\<lparr>te_name = [0x61], te_type = 0x30, te_size = digits_value 8 ?ds 0\<rparr>"
  have v: "digits_value 8 ?ds 0 = 1" "digits_of 8 ?ds"
    by (simp_all add: hex_digit_def digits_of_def)
  then have "tar_archive tar_addrs (small_tar ?ds) (0x10000 + 0x400) 0x10000 [?x]"
    using small_tar_entry [of ?ds] by (simp add: te_skip_def)
  from tar_find_first [OF this small_frame_apart small_tar_path(1)] small_tar_path(2) v(1)
  show ?thesis by (auto simp: le_Suc_eq hex_digit_def)
qed

theorem tar_find_diverges_witness:
  "tar_find small_frame 0x10000 0x400 0x20001 (small_tar [0x33, 0x37, 0x37, 0x37, 0x37, 0x37, 0x37, 0x37, 0x30, 0x30, 0x30]) = None"
proof -
  let ?ds = "[0x33, 0x37, 0x37, 0x37, 0x37, 0x37, 0x37, 0x37, 0x30, 0x30, 0x30] :: u8 list"
  have v: "digits_value 8 ?ds 0 = 0xFFFFFE00" "digits_of 8 ?ds"
    by (simp_all add: hex_digit_def digits_of_def)
  have path: "cstr (small_tar ?ds) 0x20001 []" by (simp add: small_tar_def)
  show ?thesis
    by (rule tar_find_diverges [OF small_tar_entry [of ?ds] _ _ _ _ small_frame_apart path])
       (use v in \<open>simp_all add: tar_addrs_def\<close>)
qed

end
