(* ===== verification/Vga_Text.thy ===== *)
theory Vga_Text
  imports Cstring
begin

text \<open>
  The VGA text console, \<^verbatim>\<open>src/drivers/vga_text.c\<close>. The device record has the fields of
  \<^verbatim>\<open>vga_text_device_t\<close>; the text cells are the half-words of a memory \<open>u32 \<Rightarrow> u16\<close> that the field
  \<open>vt_buffer\<close> points into, so cell \<open>i\<close> is at \<open>vt_buffer + 2 * i\<close>. \<^verbatim>\<open>char\<close> is signed, so the cast of a
  character to \<^verbatim>\<open>u16\<close> extends its sign. Strings are in a byte memory, and the local buffers of the number
  printers are at an address that is an argument.

  Specification: a screen of 25 rows with a cursor, on which printing a character is a function of the rows.
  The driver implements it, and changes no half-word outside the 2000 cells.
\<close>

section \<open>The device\<close>

record vga_text_cursor =
  vt_x :: u16
  vt_y :: u16

record vga_text_device =
  vt_width :: u16
  vt_height :: u16
  vt_cursor :: vga_text_cursor
  vt_color :: u8
  vt_buffer :: u32
  vt_initialized :: bool
  vt_mem :: "u32 \<Rightarrow> u16"

datatype vga_text_color =
    VGA_TEXT_COLOR_BLACK | VGA_TEXT_COLOR_BLUE | VGA_TEXT_COLOR_GREEN | VGA_TEXT_COLOR_CYAN
  | VGA_TEXT_COLOR_RED | VGA_TEXT_COLOR_MAGENTA | VGA_TEXT_COLOR_BROWN | VGA_TEXT_COLOR_LIGHT_GREY
  | VGA_TEXT_COLOR_DARK_GREY | VGA_TEXT_COLOR_LIGHT_BLUE | VGA_TEXT_COLOR_LIGHT_GREEN
  | VGA_TEXT_COLOR_LIGHT_CYAN | VGA_TEXT_COLOR_LIGHT_RED | VGA_TEXT_COLOR_LIGHT_MAGENTA
  | VGA_TEXT_COLOR_LIGHT_BROWN | VGA_TEXT_COLOR_WHITE

fun color_code :: "vga_text_color \<Rightarrow> u8" where
  "color_code VGA_TEXT_COLOR_BLACK = 0"
| "color_code VGA_TEXT_COLOR_BLUE = 1"
| "color_code VGA_TEXT_COLOR_GREEN = 2"
| "color_code VGA_TEXT_COLOR_CYAN = 3"
| "color_code VGA_TEXT_COLOR_RED = 4"
| "color_code VGA_TEXT_COLOR_MAGENTA = 5"
| "color_code VGA_TEXT_COLOR_BROWN = 6"
| "color_code VGA_TEXT_COLOR_LIGHT_GREY = 7"
| "color_code VGA_TEXT_COLOR_DARK_GREY = 8"
| "color_code VGA_TEXT_COLOR_LIGHT_BLUE = 9"
| "color_code VGA_TEXT_COLOR_LIGHT_GREEN = 10"
| "color_code VGA_TEXT_COLOR_LIGHT_CYAN = 11"
| "color_code VGA_TEXT_COLOR_LIGHT_RED = 12"
| "color_code VGA_TEXT_COLOR_LIGHT_MAGENTA = 13"
| "color_code VGA_TEXT_COLOR_LIGHT_BROWN = 14"
| "color_code VGA_TEXT_COLOR_WHITE = 15"

abbreviation VGA_MEMORY :: u32 where "VGA_MEMORY \<equiv> 0xB8000"
abbreviation VGA_TEXT_WIDTH :: "'a::len word" where "VGA_TEXT_WIDTH \<equiv> 80"
abbreviation VGA_TEXT_HEIGHT :: "'a::len word" where "VGA_TEXT_HEIGHT \<equiv> 25"

definition vga_make_entry :: "u8 \<Rightarrow> u8 \<Rightarrow> u16" where
  "vga_make_entry c color = scast c OR push_bit 8 (ucast color)"

definition vga_index :: "u16 \<Rightarrow> u16 \<Rightarrow> u32" where
  "vga_index x y = ucast y * VGA_TEXT_WIDTH + ucast x"

text \<open>\<^verbatim>\<open>buffer[idx]\<close>, read and written.\<close>

definition vga_cell :: "u32 \<Rightarrow> vga_text_device \<Rightarrow> u16" where
  "vga_cell idx d = vt_mem d (vt_buffer d + 2 * idx)"

definition set_vga_cell :: "u32 \<Rightarrow> u16 \<Rightarrow> vga_text_device \<Rightarrow> vga_text_device" where
  "set_vga_cell idx v d = d\<lparr>vt_mem := (vt_mem d)(vt_buffer d + 2 * idx := v)\<rparr>"

definition vga_text_scroll_internal :: "vga_text_device \<Rightarrow> vga_text_device" where
  "vga_text_scroll_internal d =
     (let d' = for_loop 0 (VGA_TEXT_HEIGHT - 1) (\<lambda>y.
                 for_loop 0 VGA_TEXT_WIDTH (\<lambda>x d. set_vga_cell (vga_index x y) (vga_cell (vga_index x (y + 1)) d) d)) d
      in for_loop 0 VGA_TEXT_WIDTH (\<lambda>x d.
           set_vga_cell (vga_index x (VGA_TEXT_HEIGHT - 1)) (vga_make_entry 0x20 (vt_color d)) d) d')"

definition vga_text_clear :: "vga_text_device \<Rightarrow> kernel_status \<times> vga_text_device" where
  "vga_text_clear d =
     (if \<not> vt_initialized d then (KERNEL_ERROR, d)
      else let d' = for_loop 0 (VGA_TEXT_WIDTH * VGA_TEXT_HEIGHT)
                      (\<lambda>i d. set_vga_cell i (vga_make_entry 0x20 (vt_color d)) d) d
           in (KERNEL_OK, d'\<lparr>vt_cursor := \<lparr>vt_x = 0, vt_y = 0\<rparr>\<rparr>))"

definition vga_text_make_color :: "vga_text_color \<Rightarrow> vga_text_color \<Rightarrow> u8" where
  "vga_text_make_color fg bg = color_code fg OR push_bit 4 (color_code bg)"

definition vga_text_init :: "vga_text_device \<Rightarrow> kernel_status \<times> vga_text_device" where
  "vga_text_init d =
     vga_text_clear (d\<lparr>vt_width := VGA_TEXT_WIDTH, vt_height := VGA_TEXT_HEIGHT, vt_cursor := \<lparr>vt_x = 0, vt_y = 0\<rparr>,
       vt_color := vga_text_make_color VGA_TEXT_COLOR_LIGHT_GREY VGA_TEXT_COLOR_BLACK,
       vt_buffer := VGA_MEMORY, vt_initialized := True\<rparr>)"

definition vga_text_reset :: "vga_text_device \<Rightarrow> kernel_status \<times> vga_text_device" where
  "vga_text_reset d =
     vga_text_clear (d\<lparr>vt_color := vga_text_make_color VGA_TEXT_COLOR_LIGHT_GREY VGA_TEXT_COLOR_BLACK\<rparr>)"

definition vga_text_set_color :: "u8 \<Rightarrow> vga_text_device \<Rightarrow> kernel_status \<times> vga_text_device" where
  "vga_text_set_color color d =
     (if \<not> vt_initialized d then (KERNEL_ERROR, d) else (KERNEL_OK, d\<lparr>vt_color := color\<rparr>))"

definition vga_text_set_colors ::
    "vga_text_color \<Rightarrow> vga_text_color \<Rightarrow> vga_text_device \<Rightarrow> kernel_status \<times> vga_text_device" where
  "vga_text_set_colors fg bg = vga_text_set_color (vga_text_make_color fg bg)"

definition vga_text_set_cursor :: "u16 \<Rightarrow> u16 \<Rightarrow> vga_text_device \<Rightarrow> kernel_status \<times> vga_text_device" where
  "vga_text_set_cursor x y d =
     (if \<not> vt_initialized d then (KERNEL_ERROR, d)
      else if x \<ge> VGA_TEXT_WIDTH \<or> y \<ge> VGA_TEXT_HEIGHT then (KERNEL_INVALID_PARAM, d)
      else (KERNEL_OK, d\<lparr>vt_cursor := \<lparr>vt_x = x, vt_y = y\<rparr>\<rparr>))"

definition vga_text_get_cursor :: "vga_text_device \<Rightarrow> vga_text_cursor" where
  "vga_text_get_cursor d = vt_cursor d"

text \<open>The sums are of 16-bit values in 32-bit integers, so they do not overflow.\<close>

definition vga_text_move_cursor :: "u16 \<Rightarrow> u16 \<Rightarrow> vga_text_device \<Rightarrow> kernel_status \<times> vga_text_device" where
  "vga_text_move_cursor dx dy d =
     (if \<not> vt_initialized d then (KERNEL_ERROR, d)
      else let new_x = uint (vt_x (vt_cursor d)) + sint dx;
               new_y = uint (vt_y (vt_cursor d)) + sint dy;
               new_x = if new_x < 0 then 0 else new_x;
               new_x = if new_x \<ge> 80 then 79 else new_x;
               new_y = if new_y < 0 then 0 else new_y;
               new_y = if new_y \<ge> 25 then 24 else new_y
           in vga_text_set_cursor (word_of_int new_x) (word_of_int new_y) d)"

definition vga_text_putchar_at :: "u8 \<Rightarrow> u8 \<Rightarrow> u16 \<Rightarrow> u16 \<Rightarrow> vga_text_device \<Rightarrow> kernel_status \<times> vga_text_device" where
  "vga_text_putchar_at c color x y d =
     (if \<not> vt_initialized d then (KERNEL_ERROR, d)
      else if x \<ge> VGA_TEXT_WIDTH \<or> y \<ge> VGA_TEXT_HEIGHT then (KERNEL_INVALID_PARAM, d)
      else (KERNEL_OK, set_vga_cell (vga_index x y) (vga_make_entry c color) d))"

definition vga_text_newline :: "vga_text_device \<Rightarrow> kernel_status \<times> vga_text_device" where
  "vga_text_newline d =
     (if \<not> vt_initialized d then (KERNEL_ERROR, d)
      else let y = vt_y (vt_cursor d) + 1
           in if y \<ge> VGA_TEXT_HEIGHT
              then (KERNEL_OK, vga_text_scroll_internal (d\<lparr>vt_cursor := \<lparr>vt_x = 0, vt_y = VGA_TEXT_HEIGHT - 1\<rparr>\<rparr>))
              else (KERNEL_OK, d\<lparr>vt_cursor := \<lparr>vt_x = 0, vt_y = y\<rparr>\<rparr>))"

text \<open>
  \<^verbatim>\<open>vga_text_putchar\<close> without its tab branch, which calls the function again on spaces: \<open>vga_text_put_one\<close>
  is that inner call, and the whole function is below.
\<close>

definition vga_text_put_one :: "u8 \<Rightarrow> vga_text_device \<Rightarrow> kernel_status \<times> vga_text_device" where
  "vga_text_put_one c d =
     (if \<not> vt_initialized d then (KERNEL_ERROR, d)
      else if c = 0x0A then vga_text_newline d
      else if c = 0x0D then (KERNEL_OK, d\<lparr>vt_cursor := (vt_cursor d)\<lparr>vt_x := 0\<rparr>\<rparr>)
      else if c = 0x08 then
        if vt_x (vt_cursor d) > 0
        then let d = d\<lparr>vt_cursor := (vt_cursor d)\<lparr>vt_x := vt_x (vt_cursor d) - 1\<rparr>\<rparr>
             in (KERNEL_OK, snd (vga_text_putchar_at 0x20 (vt_color d) (vt_x (vt_cursor d)) (vt_y (vt_cursor d)) d))
        else (KERNEL_OK, d)
      else let d = snd (vga_text_putchar_at c (vt_color d) (vt_x (vt_cursor d)) (vt_y (vt_cursor d)) d);
               x = vt_x (vt_cursor d) + 1;
               d = d\<lparr>vt_cursor := (vt_cursor d)\<lparr>vt_x := x\<rparr>\<rparr>
           in if x \<ge> VGA_TEXT_WIDTH then vga_text_newline d else (KERNEL_OK, d))"

text \<open>A loop body that returns \<^verbatim>\<open>KERNEL_ERROR\<close> at the first failing call.\<close>

definition vga_or_error ::
    "(vga_text_device \<Rightarrow> kernel_status \<times> vga_text_device) \<Rightarrow> kernel_status \<times> vga_text_device \<Rightarrow> kernel_status \<times> vga_text_device" where
  "vga_or_error f = (\<lambda>(st, d). if st \<noteq> KERNEL_OK then (st, d)
     else case f d of (st', d') \<Rightarrow> (if st' \<noteq> KERNEL_OK then KERNEL_ERROR else KERNEL_OK, d'))"

definition vga_text_putchar :: "u8 \<Rightarrow> vga_text_device \<Rightarrow> kernel_status \<times> vga_text_device" where
  "vga_text_putchar c d =
     (if vt_initialized d \<and> c = 0x09
      then let spaces = 4 - vt_x (vt_cursor d) mod 4
           in for_loop 0 spaces (\<lambda>i. vga_or_error (vga_text_put_one 0x20)) (KERNEL_OK, d)
      else vga_text_put_one c d)"

definition vga_text_write :: "memory \<Rightarrow> u32 \<Rightarrow> u32 \<Rightarrow> vga_text_device \<Rightarrow> kernel_status \<times> vga_text_device" where
  "vga_text_write m data sz d =
     (if \<not> vt_initialized d \<or> data = 0 then (KERNEL_INVALID_PARAM, d)
      else for_loop 0 sz (\<lambda>i. vga_or_error (vga_text_putchar (m (data + i)))) (KERNEL_OK, d))"

definition vga_text_writestring :: "memory \<Rightarrow> u32 \<Rightarrow> vga_text_device \<Rightarrow> (kernel_status \<times> vga_text_device) option" where
  "vga_text_writestring m str d =
     (if str = 0 then Some (KERNEL_INVALID_PARAM, d)
      else map_option (\<lambda>n. vga_text_write m str n d) (strlen m str))"

text \<open>The number printers fill a local buffer at \<open>buf\<close> from its end.\<close>

definition hex_char :: "u32 \<Rightarrow> u8" where
  "hex_char v = (if v < 10 then 0x30 + ucast v else 0x41 + ucast (v - 10))"

definition hex_fill :: "u32 \<Rightarrow> u32 \<Rightarrow> memory \<Rightarrow> memory" where
  "hex_fill buf value m =
     snd (foldl (\<lambda>(value, m) i. (drop_bit 4 value, m(buf + i := hex_char (value AND 0xF)))) (value, m)
       [9, 8, 7, 6, 5, 4, 3, 2])"

definition vga_text_print_hex :: "u32 \<Rightarrow> memory \<Rightarrow> u32 \<Rightarrow> vga_text_device \<Rightarrow> (kernel_status \<times> vga_text_device) option" where
  "vga_text_print_hex buf m value d =
     (if \<not> vt_initialized d then Some (KERNEL_ERROR, d)
      else vga_text_writestring (hex_fill buf value (m(buf := 0x30, buf + 1 := 0x78, buf + 10 := 0))) buf d)"

function dec_fill :: "u32 \<Rightarrow> u32 \<Rightarrow> u32 \<Rightarrow> memory \<Rightarrow> u32 \<times> memory" where
  "dec_fill buf pos value m =
     (if value > 0 \<and> pos > 0
      then dec_fill buf (pos - 1) (value div 10) (m(buf + (pos - 1) := 0x30 + ucast (value mod 10)))
      else (pos, m))"
  by pat_completeness auto
termination
  by (relation "measure (\<lambda>(buf, pos, value, m). unat pos)") (auto simp: word_less_nat_alt unat_sub_small)

declare dec_fill.simps [simp del]

definition vga_text_print_dec :: "u32 \<Rightarrow> memory \<Rightarrow> u32 \<Rightarrow> vga_text_device \<Rightarrow> (kernel_status \<times> vga_text_device) option" where
  "vga_text_print_dec buf m value d =
     (if \<not> vt_initialized d then Some (KERNEL_ERROR, d)
      else if value = 0 then Some (vga_text_putchar 0x30 d)
      else case dec_fill buf 11 value (m(buf + 11 := 0)) of (pos, m') \<Rightarrow> vga_text_writestring m' (buf + pos) d)"

definition vga_text_scroll_up :: "u16 \<Rightarrow> vga_text_device \<Rightarrow> kernel_status \<times> vga_text_device" where
  "vga_text_scroll_up ls d =
     (if \<not> vt_initialized d then (KERNEL_ERROR, d)
      else (KERNEL_OK, for_loop 0 ls (\<lambda>i. vga_text_scroll_internal) d))"

definition vga_text_get_device :: "vga_text_device \<Rightarrow> vga_text_device option" where
  "vga_text_get_device d = (if vt_initialized d then Some d else None)"

section \<open>The screen\<close>

text \<open>
  The abstract screen: 25 rows of 80 entries, a cursor and a colour. \<open>scr_put\<close> is what printing one character
  does to it.
\<close>

record screen =
  scr_rows :: "u16 list list"
  scr_x :: nat
  scr_y :: nat
  scr_color :: u8

definition scr_newline :: "screen \<Rightarrow> screen" where
  "scr_newline s =
     (if scr_y s = 24 then s\<lparr>scr_x := 0, scr_rows := tl (scr_rows s) @ [replicate 80 (vga_make_entry 0x20 (scr_color s))]\<rparr>
      else s\<lparr>scr_x := 0, scr_y := scr_y s + 1\<rparr>)"

definition scr_write :: "u8 \<Rightarrow> screen \<Rightarrow> screen" where
  "scr_write c s =
     s\<lparr>scr_rows := (scr_rows s)[scr_y s := (scr_rows s ! scr_y s)[scr_x s := vga_make_entry c (scr_color s)]]\<rparr>"

definition scr_advance :: "u8 \<Rightarrow> screen \<Rightarrow> screen" where
  "scr_advance c s =
     (let s = scr_write c s in if scr_x s = 79 then scr_newline s else s\<lparr>scr_x := scr_x s + 1\<rparr>)"

definition scr_put :: "u8 \<Rightarrow> screen \<Rightarrow> screen" where
  "scr_put c s =
     (if c = 0x0A then scr_newline s
      else if c = 0x0D then s\<lparr>scr_x := 0\<rparr>
      else if c = 0x09 then (scr_advance 0x20 ^^ (4 - scr_x s mod 4)) s
      else if c = 0x08 then if scr_x s = 0 then s else scr_write 0x20 (s\<lparr>scr_x := scr_x s - 1\<rparr>)
      else scr_advance c s)"

text \<open>
  The device's view of it: \<open>cell m y x\<close> is the half-word of row \<open>y\<close> and column \<open>x\<close>, and \<open>off_screen\<close> the
  addresses of no cell.
\<close>

definition cell_addr :: "nat \<Rightarrow> nat \<Rightarrow> u32" where
  "cell_addr y x = VGA_MEMORY + 2 * of_nat (y * 80 + x)"

definition vga_rows :: "(u32 \<Rightarrow> u16) \<Rightarrow> u16 list list" where
  "vga_rows m = map (\<lambda>y. map (\<lambda>x. m (cell_addr y x)) [0..<80]) [0..<25]"

definition vga_screen :: "vga_text_device \<Rightarrow> screen" where
  "vga_screen d = \<lparr>scr_rows = vga_rows (vt_mem d), scr_x = unat (vt_x (vt_cursor d)), scr_y = unat (vt_y (vt_cursor d)),
     scr_color = vt_color d\<rparr>"

definition vga_inv :: "vga_text_device \<Rightarrow> bool" where
  "vga_inv d \<longleftrightarrow> vt_initialized d \<and> vt_buffer d = VGA_MEMORY \<and> vt_x (vt_cursor d) < 80 \<and> vt_y (vt_cursor d) < 25"

definition off_screen :: "u32 \<Rightarrow> bool" where
  "off_screen a \<longleftrightarrow> (\<forall>y < 25. \<forall>x < 80. a \<noteq> cell_addr y x)"

lemma unat_cell_addr:
  assumes "y < 25" "x < 80"
  shows "unat (cell_addr y x) = 0xB8000 + 2 * (y * 80 + x)"
proof -
  have n: "y * 80 + x < 2000" using assms by simp
  have "unat (of_nat (y * 80 + x) :: u32) = y * 80 + x" by (rule unat_of_nat_small) (use n in simp)
  with n have "unat (2 * of_nat (y * 80 + x) :: u32) = 2 * (y * 80 + x)" by (subst unat_mult_small) simp_all
  with n show ?thesis unfolding cell_addr_def by (subst unat_add_small) simp_all
qed

lemma cell_addr_inj:
  assumes "y < 25" "x < 80" "y' < 25" "x' < 80"
  shows "cell_addr y x = cell_addr y' x' \<longleftrightarrow> y = y' \<and> x = x'"
proof
  assume "cell_addr y x = cell_addr y' x'"
  then have "y * 80 + x = y' * 80 + x'" using assms unat_cell_addr [of y x] unat_cell_addr [of y' x'] by simp
  then have "(y * 80 + x) div 80 = (y' * 80 + x') div 80" "(y * 80 + x) mod 80 = (y' * 80 + x') mod 80" by simp_all
  with assms show "y = y' \<and> x = x'" by simp
qed simp

lemma vga_index_addr: "VGA_MEMORY + 2 * vga_index x y = cell_addr (unat y) (unat x)"
  by (simp add: vga_index_def cell_addr_def)

lemma vga_rows_length [simp]: "length (vga_rows m) = 25"
  by (simp add: vga_rows_def del: upt_rec_numeral)

lemma vga_row_length [simp]: "y < 25 \<Longrightarrow> length (vga_rows m ! y) = 80"
  by (simp add: vga_rows_def del: upt_rec_numeral)

lemma vga_rows_nth [simp]: "y < 25 \<Longrightarrow> x < 80 \<Longrightarrow> vga_rows m ! y ! x = m (cell_addr y x)"
  by (simp add: vga_rows_def del: upt_rec_numeral)

lemma screen_eqI:
  assumes "length rs = 25" and "\<And>y. y < 25 \<Longrightarrow> length (rs ! y) = 80"
    and "\<And>y x. y < 25 \<Longrightarrow> x < 80 \<Longrightarrow> m (cell_addr y x) = rs ! y ! x"
  shows "vga_rows m = rs"
proof (rule nth_equalityI)
  fix y assume "y < length (vga_rows m)"
  then have "y < 25" by simp
  then show "vga_rows m ! y = rs ! y" using assms by (intro nth_equalityI) simp_all
qed (simp add: assms)

lemma vga_rows_upd:
  assumes "y < 25" "x < 80"
  shows "vga_rows (m(cell_addr y x := v)) = (vga_rows m)[y := (vga_rows m ! y)[x := v]]"
proof (rule screen_eqI)
  fix y' x' :: nat assume "y' < 25" "x' < 80"
  then show "(m(cell_addr y x := v)) (cell_addr y' x') = (vga_rows m)[y := (vga_rows m ! y)[x := v]] ! y' ! x'"
    using assms by (cases "y' = y"; cases "x' = x") (simp_all add: cell_addr_inj)
next
  fix y' :: nat assume "y' < 25"
  then show "length ((vga_rows m)[y := (vga_rows m ! y)[x := v]] ! y') = 80" using assms by (cases "y' = y") simp_all
qed simp

lemma off_screen_upd: "off_screen a \<Longrightarrow> y < 25 \<Longrightarrow> x < 80 \<Longrightarrow> (m(cell_addr y x := v)) a = m a"
  by (auto simp: off_screen_def)

section \<open>Scrolling\<close>

text \<open>One row of the loop copies the next row over it; the loop moves the screen up.\<close>

definition copy_row :: "nat \<Rightarrow> nat \<Rightarrow> (u32 \<Rightarrow> u16) \<Rightarrow> (u32 \<Rightarrow> u16) \<Rightarrow> bool" where
  "copy_row r k m m' \<longleftrightarrow> (\<forall>y < 25. \<forall>x < 80. m' (cell_addr y x) =
       (if y < r \<or> y = r \<and> x < k then m (cell_addr (y + 1) x) else m (cell_addr y x))) \<and> (\<forall>a. off_screen a \<longrightarrow> m' a = m a)"

lemma copy_row_step:
  assumes "copy_row r k m m'" "r < 24" "k < 80"
  shows "copy_row r (Suc k) m (m'(cell_addr r k := m' (cell_addr (r + 1) k)))"
  using assms by (auto simp: copy_row_def cell_addr_inj off_screen_def)

lemma copy_row_next: "copy_row r 80 m m' \<Longrightarrow> copy_row (Suc r) 0 m m'"
  by (auto simp: copy_row_def less_Suc_eq)

lemma scroll_row:
  assumes "copy_row r 0 m (vt_mem d)" "r < 24" "vt_buffer d = VGA_MEMORY"
  shows "\<exists>m'. for_loop 0 VGA_TEXT_WIDTH (\<lambda>x d. set_vga_cell (vga_index x (of_nat r)) (vga_cell (vga_index x (of_nat r + 1)) d) d) d
      = d\<lparr>vt_mem := m'\<rparr> \<and> copy_row r 80 m m'"
proof -
  have r: "unat (of_nat r :: u16) = r" "unat (of_nat r + 1 :: u16) = r + 1"
    using assms(2) by (simp_all add: unat_of_nat_small unat_word_ariths)
  have "\<exists>m'. for_loop 0 (VGA_TEXT_WIDTH :: u16) (\<lambda>x d. set_vga_cell (vga_index x (of_nat r)) (vga_cell (vga_index x (of_nat r + 1)) d) d) d
      = d\<lparr>vt_mem := m'\<rparr> \<and> copy_row r (unat (80 :: u16)) m m'"
  proof (rule for_loop_counting [where P = "\<lambda>k d'. \<exists>m'. d' = d\<lparr>vt_mem := m'\<rparr> \<and> copy_row r k m m'"])
    show "\<exists>m'. d = d\<lparr>vt_mem := m'\<rparr> \<and> copy_row r (unat (0 :: u16)) m m'" using assms(1) by (intro exI [of _ "vt_mem d"]) simp
    fix i :: u16 and e
    assume "\<exists>m'. e = d\<lparr>vt_mem := m'\<rparr> \<and> copy_row r (unat i) m m'" and i: "i < 80"
    then obtain m' where m': "e = d\<lparr>vt_mem := m'\<rparr>" "copy_row r (unat i) m m'" by blast
    have "unat i < 80" using i by (simp add: word_less_nat_alt)
    from copy_row_step [OF m'(2) assms(2) this] m'(1) assms(3) r
    show "\<exists>m'. set_vga_cell (vga_index i (of_nat r)) (vga_cell (vga_index i (of_nat r + 1)) e) e = d\<lparr>vt_mem := m'\<rparr> \<and>
        copy_row r (Suc (unat i)) m m'"
      by (auto simp: set_vga_cell_def vga_cell_def vga_index_addr)
  qed simp
  then show ?thesis by simp
qed

lemma vga_scroll:
  assumes "vt_buffer d = VGA_MEMORY"
  obtains m' where "vga_text_scroll_internal d = d\<lparr>vt_mem := m'\<rparr>"
    and "vga_rows m' = tl (vga_rows (vt_mem d)) @ [replicate 80 (vga_make_entry 0x20 (vt_color d))]"
    and "\<forall>a. off_screen a \<longrightarrow> m' a = vt_mem d a"
proof -
  let ?m = "vt_mem d" and ?b = "vga_make_entry 0x20 (vt_color d)"
  let ?rows = "\<lambda>y. for_loop 0 (VGA_TEXT_WIDTH :: u16) (\<lambda>x d. set_vga_cell (vga_index x y) (vga_cell (vga_index x (y + 1)) d) d)"
  have "\<exists>m1. for_loop 0 (24 :: u16) ?rows d = d\<lparr>vt_mem := m1\<rparr> \<and> copy_row (unat (24 :: u16)) 0 ?m m1"
  proof (rule for_loop_counting [where P = "\<lambda>k d'. \<exists>m'. d' = d\<lparr>vt_mem := m'\<rparr> \<and> copy_row k 0 ?m m'"])
    show "\<exists>m'. d = d\<lparr>vt_mem := m'\<rparr> \<and> copy_row (unat (0 :: u16)) 0 ?m m'"
      by (intro exI [of _ ?m]) (simp add: copy_row_def)
    fix i :: u16 and e
    assume "\<exists>m'. e = d\<lparr>vt_mem := m'\<rparr> \<and> copy_row (unat i) 0 ?m m'" and i: "i < 24"
    then obtain m' where m': "e = d\<lparr>vt_mem := m'\<rparr>" "copy_row (unat i) 0 ?m m'" by blast
    have "unat i < 24" using i by (simp add: word_less_nat_alt)
    from scroll_row [OF _ this, of ?m e] m' assms copy_row_next
    show "\<exists>m'. ?rows i e = d\<lparr>vt_mem := m'\<rparr> \<and> copy_row (Suc (unat i)) 0 ?m m'" by fastforce
  qed simp
  then obtain m1 where m1: "for_loop 0 (24 :: u16) ?rows d = d\<lparr>vt_mem := m1\<rparr>" "copy_row 24 0 ?m m1" by auto
  define fill where "fill = (\<lambda>k m2. (\<forall>y < 25. \<forall>x < 80. m2 (cell_addr y x) = (if y = 24 \<and> x < k then ?b else m1 (cell_addr y x)))
     \<and> (\<forall>a. off_screen a \<longrightarrow> m2 a = m1 a))"
  let ?fill = "for_loop 0 (VGA_TEXT_WIDTH :: u16) (\<lambda>x d. set_vga_cell (vga_index x 24) (vga_make_entry 0x20 (vt_color d)) d)"
  have "\<exists>m'. ?fill (d\<lparr>vt_mem := m1\<rparr>) = d\<lparr>vt_mem := m'\<rparr> \<and> fill (unat (80 :: u16)) m'"
  proof (rule for_loop_counting [where P = "\<lambda>k d'. \<exists>m'. d' = d\<lparr>vt_mem := m'\<rparr> \<and> fill k m'"])
    show "\<exists>m'. d\<lparr>vt_mem := m1\<rparr> = d\<lparr>vt_mem := m'\<rparr> \<and> fill (unat (0 :: u16)) m'"
      by (intro exI [of _ m1]) (simp add: fill_def)
    fix i :: u16 and e
    assume "\<exists>m'. e = d\<lparr>vt_mem := m'\<rparr> \<and> fill (unat i) m'" and i: "i < 80"
    then obtain m' where m': "e = d\<lparr>vt_mem := m'\<rparr>" "fill (unat i) m'" by blast
    have i80: "unat i < 80" using i by (simp add: word_less_nat_alt)
    then have "fill (Suc (unat i)) (m'(cell_addr 24 (unat i) := ?b))"
      using m'(2) by (auto simp: fill_def cell_addr_inj off_screen_def)
    then show "\<exists>m'. set_vga_cell (vga_index i 24) (vga_make_entry 0x20 (vt_color e)) e = d\<lparr>vt_mem := m'\<rparr> \<and> fill (Suc (unat i)) m'"
      using m'(1) assms by (auto simp: set_vga_cell_def vga_index_addr)
  qed simp
  then obtain m2 where m2: "?fill (d\<lparr>vt_mem := m1\<rparr>) = d\<lparr>vt_mem := m2\<rparr>" "fill 80 m2" by auto
  have "vga_text_scroll_internal d = d\<lparr>vt_mem := m2\<rparr>" using m1(1) m2(1) by (simp add: vga_text_scroll_internal_def)
  moreover have "vga_rows m2 = tl (vga_rows ?m) @ [replicate 80 ?b]"
  proof (rule screen_eqI)
    fix y x :: nat assume yx: "y < 25" "x < 80"
    then have "m2 (cell_addr y x) = (if y = 24 then ?b else ?m (cell_addr (y + 1) x))"
      using m1(2) m2(2) by (simp add: fill_def copy_row_def)
    also have "\<dots> = (tl (vga_rows ?m) @ [replicate 80 ?b]) ! y ! x"
      using yx by (cases "y = 24") (simp_all add: nth_append nth_tl)
    finally show "m2 (cell_addr y x) = (tl (vga_rows ?m) @ [replicate 80 ?b]) ! y ! x" .
  next
    fix y :: nat assume "y < 25"
    then show "length ((tl (vga_rows ?m) @ [replicate 80 ?b]) ! y) = 80"
      by (cases "y = 24") (simp_all add: nth_append nth_tl)
  qed simp
  moreover have "\<forall>a. off_screen a \<longrightarrow> m2 a = ?m a" using m1(2) m2(2) by (simp add: fill_def copy_row_def)
  ultimately show ?thesis using that by blast
qed

section \<open>Printing a character\<close>

lemma word_nat_cast: "word_of_nat (unat x) = (x :: 'a::len word)"
  by simp

text \<open>\<open>shows s d d'\<close>: the device went from \<open>d\<close> to \<open>d'\<close>, which shows \<open>s\<close>, without touching any other memory.\<close>

definition vga_shows :: "screen \<Rightarrow> vga_text_device \<Rightarrow> vga_text_device \<Rightarrow> bool" where
  "vga_shows s d d' \<longleftrightarrow> vga_inv d' \<and> vga_screen d' = s \<and> (\<forall>a. off_screen a \<longrightarrow> vt_mem d' a = vt_mem d a)"

lemma vga_shows_refl: "vga_inv d \<Longrightarrow> vga_shows (vga_screen d) d d"
  by (simp add: vga_shows_def)

lemma vga_shows_trans: "vga_shows s d d1 \<Longrightarrow> vga_shows t d1 d2 \<Longrightarrow> vga_shows t d d2"
  by (simp add: vga_shows_def)

lemma vga_write_cell:
  assumes "vga_inv d"
  shows "vga_shows (scr_write c (vga_screen d)) d
    (set_vga_cell (vga_index (vt_x (vt_cursor d)) (vt_y (vt_cursor d))) (vga_make_entry c (vt_color d)) d)"
proof -
  let ?y = "unat (vt_y (vt_cursor d))" and ?x = "unat (vt_x (vt_cursor d))"
  have "?y < 25" "?x < 80" using assms by (simp_all add: vga_inv_def word_less_nat_alt)
  then show ?thesis
    using assms by (simp add: vga_shows_def set_vga_cell_def vga_index_addr vga_inv_def vga_screen_def scr_write_def
        vga_rows_upd) (auto simp: off_screen_def)
qed

lemma vga_newline_shows:
  assumes "vt_initialized d" "vt_buffer d = VGA_MEMORY" "vt_y (vt_cursor d) < 25"
  obtains d' where "vga_text_newline d = (KERNEL_OK, d')" "vga_shows (scr_newline (vga_screen d)) d d'"
proof (cases "vt_y (vt_cursor d) = 24")
  case True
  let ?d = "d\<lparr>vt_cursor := \<lparr>vt_x = 0, vt_y = 24\<rparr>\<rparr>"
  obtain m' where m': "vga_text_scroll_internal ?d = ?d\<lparr>vt_mem := m'\<rparr>"
    "vga_rows m' = tl (vga_rows (vt_mem ?d)) @ [replicate 80 (vga_make_entry 0x20 (vt_color ?d))]"
    "\<forall>a. off_screen a \<longrightarrow> m' a = vt_mem ?d a"
    by (rule vga_scroll [of ?d]) (use assms(2) in simp)
  with True assms that [of "?d\<lparr>vt_mem := m'\<rparr>"] show ?thesis
    by (simp add: vga_text_newline_def vga_shows_def vga_inv_def vga_screen_def scr_newline_def)
next
  case False
  then have y: "unat (vt_y (vt_cursor d)) < 24"
    using assms(3) by (simp add: word_less_nat_alt word_unat_eq_iff)
  then have "unat (vt_y (vt_cursor d) + 1) = unat (vt_y (vt_cursor d)) + 1" by (subst unat_add_small) simp_all
  with y assms that show ?thesis
    by (simp add: vga_text_newline_def vga_shows_def vga_inv_def vga_screen_def scr_newline_def
        word_less_nat_alt word_le_nat_alt)
qed

lemma vga_advance:
  assumes "vga_inv d" and "c \<notin> {0x0A, 0x0D, 0x08}"
  obtains d' where "vga_text_put_one c d = (KERNEL_OK, d')" "vga_shows (scr_advance c (vga_screen d)) d d'"
proof -
  let ?x = "vt_x (vt_cursor d)" and ?y = "vt_y (vt_cursor d)"
  define e where "e = set_vga_cell (vga_index ?x ?y) (vga_make_entry c (vt_color d)) d"
  have x: "unat ?x < 80" "unat (?x + 1) = unat ?x + 1" and y: "unat ?y < 25"
    using assms(1) by (simp_all add: vga_inv_def word_less_nat_alt unat_add_small)
  have e: "vga_shows (scr_write c (vga_screen d)) d e" unfolding e_def by (rule vga_write_cell [OF assms(1)])
  have ec: "vt_cursor e = vt_cursor d" "vt_initialized e" "vt_buffer e = VGA_MEMORY"
    using assms(1) by (simp_all add: e_def set_vga_cell_def vga_inv_def)
  define f where "f = e\<lparr>vt_cursor := (vt_cursor e)\<lparr>vt_x := ?x + 1\<rparr>\<rparr>"
  have put: "vga_text_put_one c d = (if ?x + 1 \<ge> 80 then vga_text_newline f else (KERNEL_OK, f))"
    using assms x y by (auto simp: vga_text_put_one_def vga_text_putchar_at_def e_def [symmetric] vga_inv_def f_def ec
        word_le_nat_alt word_less_nat_alt Let_def)
  have scr: "scr_x (scr_write c (vga_screen d)) = unat ?x" by (simp add: scr_write_def vga_screen_def)
  have se: "vga_screen e = scr_write c (vga_screen d)" using e by (simp add: vga_shows_def)
  show ?thesis
  proof (cases "unat ?x = 79")
    case True
    then have "?x + 1 \<ge> 80" using x by (simp add: word_le_nat_alt)
    moreover obtain d' where d': "vga_text_newline f = (KERNEL_OK, d')" "vga_shows (scr_newline (vga_screen f)) f d'"
      by (rule vga_newline_shows [of f]) (use ec y in \<open>simp_all add: f_def word_less_nat_alt\<close>)
    moreover have "scr_newline (vga_screen f) = scr_newline (scr_write c (vga_screen d))"
      unfolding se [symmetric] by (simp add: f_def vga_screen_def scr_newline_def)
    ultimately show ?thesis
      using that [of d'] put scr True e d'(2) by (simp add: scr_advance_def Let_def vga_shows_def f_def)
  next
    case False
    then have "\<not> ?x + 1 \<ge> 80" using x by (simp add: word_le_nat_alt)
    moreover have "vga_screen f = (scr_write c (vga_screen d))\<lparr>scr_x := unat ?x + 1\<rparr>"
      unfolding se [symmetric] by (simp add: f_def vga_screen_def x(2) ec)
    moreover have "vga_inv f" using ec x y False by (simp add: vga_inv_def f_def word_less_nat_alt)
    ultimately show ?thesis
      using that [of f] put scr False e by (simp add: scr_advance_def Let_def vga_shows_def f_def)
  qed
qed

lemma vga_put_one_shows:
  assumes "vga_inv d" and "c \<noteq> 0x09"
  obtains d' where "vga_text_put_one c d = (KERNEL_OK, d')" "vga_shows (scr_put c (vga_screen d)) d d'"
proof -
  let ?x = "vt_x (vt_cursor d)"
  consider "c = 0x0A" | "c = 0x0D" | "c = 0x08" "?x = 0" | "c = 0x08" "?x \<noteq> 0" | "c \<notin> {0x0A, 0x0D, 0x08}" by auto
  then show ?thesis
  proof cases
    case 1
    then show ?thesis using assms that vga_newline_shows [of d]
      by (simp add: vga_text_put_one_def scr_put_def vga_inv_def) metis
  next
    case 2
    then show ?thesis using assms that
      by (simp add: vga_text_put_one_def scr_put_def vga_inv_def vga_shows_def vga_screen_def)
  next
    case 3
    then show ?thesis using assms that
      by (simp add: vga_text_put_one_def scr_put_def vga_inv_def vga_shows_def vga_screen_def)
  next
    case 4
    define e where "e = d\<lparr>vt_cursor := (vt_cursor d)\<lparr>vt_x := ?x - 1\<rparr>\<rparr>"
    have x: "unat (?x - 1) = unat ?x - 1" using 4(2) by (simp add: unat_minus_one)
    have inv: "vga_inv e"
      using assms(1) x by (auto simp: vga_inv_def e_def word_less_nat_alt)
    then have at: "vga_text_putchar_at 0x20 (vt_color e) (vt_x (vt_cursor e)) (vt_y (vt_cursor e)) e =
        (KERNEL_OK, set_vga_cell (vga_index (vt_x (vt_cursor e)) (vt_y (vt_cursor e))) (vga_make_entry 0x20 (vt_color e)) e)"
      by (simp add: vga_text_putchar_at_def vga_inv_def not_le)
    have "vga_shows (scr_write 0x20 (vga_screen e)) d
        (set_vga_cell (vga_index (vt_x (vt_cursor e)) (vt_y (vt_cursor e))) (vga_make_entry 0x20 (vt_color e)) e)"
      using vga_write_cell [OF inv, of "0x20"] by (simp add: vga_shows_def e_def)
    moreover have "vga_screen e = (vga_screen d)\<lparr>scr_x := scr_x (vga_screen d) - 1\<rparr>" by (simp add: e_def vga_screen_def x)
    moreover have "scr_x (vga_screen d) \<noteq> 0" using 4(2) by (simp add: vga_screen_def unat_eq_zero)
    moreover have "?x > 0" using 4(2) by (simp add: word_neq_0_conv)
    ultimately show ?thesis using that assms(1) 4(1) at
      by (simp add: vga_text_put_one_def scr_put_def vga_inv_def e_def Let_def)
  next
    case 5
    then have "scr_put c (vga_screen d) = scr_advance c (vga_screen d)" using assms(2) by (simp add: scr_put_def)
    with vga_advance [OF assms(1) 5] that show ?thesis by metis
  qed
qed

text \<open>The tab: spaces up to the next column divisible by four.\<close>

lemma vga_spaces:
  assumes "vga_inv d" and "k < 65536"
  shows "\<exists>d'. for_loop 0 (of_nat k :: u16) (\<lambda>i. vga_or_error (vga_text_put_one 0x20)) (KERNEL_OK, d) = (KERNEL_OK, d') \<and>
    vga_shows ((scr_advance 0x20 ^^ k) (vga_screen d)) d d'"
proof -
  let ?P = "\<lambda>k p. \<exists>d'. p = (KERNEL_OK, d') \<and> vga_shows ((scr_advance 0x20 ^^ k) (vga_screen d)) d d'"
  have "?P (unat (of_nat k :: u16)) (for_loop 0 (of_nat k :: u16) (\<lambda>i. vga_or_error (vga_text_put_one 0x20)) (KERNEL_OK, d))"
  proof (rule for_loop_counting [where P = ?P])
    show "?P (unat (0 :: u16)) (KERNEL_OK, d)" using vga_shows_refl [OF assms(1)] by simp
    fix i :: u16 and p
    assume "?P (unat i) p"
    then obtain e where e: "p = (KERNEL_OK, e)" "vga_shows ((scr_advance 0x20 ^^ unat i) (vga_screen d)) d e" by blast
    then obtain e' where "vga_text_put_one 0x20 e = (KERNEL_OK, e')" "vga_shows (scr_advance 0x20 (vga_screen e)) e e'"
      using vga_advance [of e "0x20"] by (auto simp: vga_shows_def)
    with e show "?P (Suc (unat i)) (vga_or_error (vga_text_put_one 0x20) p)"
      using vga_shows_trans by (fastforce simp: vga_or_error_def vga_shows_def)
  qed simp
  then show ?thesis using assms(2) by (simp add: unat_of_nat_small)
qed

lemma vga_putchar_shows:
  assumes "vga_inv d"
  obtains d' where "vga_text_putchar c d = (KERNEL_OK, d')" "vga_shows (scr_put c (vga_screen d)) d d'"
proof (cases "c = 0x09")
  case True
  let ?x = "vt_x (vt_cursor d)"
  have m: "unat (?x mod 4) = unat ?x mod 4" by (simp add: unat_mod_distrib)
  have "unat (?x mod 4) \<le> unat (4 :: u16)" unfolding m by simp
  then have "unat (4 - ?x mod 4) = 4 - unat ?x mod 4" using m by (simp add: unat_sub_small)
  then have "4 - ?x mod 4 = of_nat (4 - unat ?x mod 4)" using word_nat_cast [of "4 - ?x mod 4"] by simp
  moreover have "4 - unat ?x mod 4 < 65536" by (rule le_less_trans [of _ 4]) simp_all
  ultimately obtain d' where "for_loop 0 (4 - ?x mod 4) (\<lambda>i. vga_or_error (vga_text_put_one 0x20)) (KERNEL_OK, d) = (KERNEL_OK, d')"
    "vga_shows ((scr_advance 0x20 ^^ (4 - unat ?x mod 4)) (vga_screen d)) d d'"
    using vga_spaces [OF assms, of "4 - unat ?x mod 4"] by auto
  then show ?thesis using True assms that [of d']
    by (simp add: vga_text_putchar_def vga_inv_def scr_put_def vga_screen_def Let_def)
next
  case False
  then show ?thesis using vga_put_one_shows [OF assms False] that by (auto simp: vga_text_putchar_def)
qed

lemma vga_write_shows:
  assumes "vga_inv d" and "data \<noteq> 0" and "\<And>i. i < length cs \<Longrightarrow> m (data + of_nat i) = cs ! i" and "length cs < 2 ^ 32"
  shows "\<exists>d'. vga_text_write m data (of_nat (length cs)) d = (KERNEL_OK, d') \<and>
    vga_shows (fold scr_put cs (vga_screen d)) d d'"
proof -
  let ?P = "\<lambda>k p. \<exists>d'. p = (KERNEL_OK, d') \<and> vga_shows (fold scr_put (take k cs) (vga_screen d)) d d'"
  let ?body = "\<lambda>i. vga_or_error (vga_text_putchar (m (data + i)))"
  have "?P (unat (of_nat (length cs) :: u32)) (for_loop 0 (of_nat (length cs)) ?body (KERNEL_OK, d))"
  proof (rule for_loop_counting [where P = ?P])
    show "?P (unat (0 :: u32)) (KERNEL_OK, d)" using vga_shows_refl [OF assms(1)] by simp
    fix i :: u32 and p
    assume "?P (unat i) p" and "i < of_nat (length cs)"
    then obtain e where e: "p = (KERNEL_OK, e)" "vga_shows (fold scr_put (take (unat i) cs) (vga_screen d)) d e"
      and i: "unat i < length cs" using assms(4) by (auto simp: word_less_nat_alt unat_of_nat_small)
    have c: "m (data + i) = cs ! unat i" using assms(3) [OF i] by simp
    obtain e' where "vga_text_putchar (cs ! unat i) e = (KERNEL_OK, e')" "vga_shows (scr_put (cs ! unat i) (vga_screen e)) e e'"
      using vga_putchar_shows [of e] e(2) by (auto simp: vga_shows_def)
    with e c i show "?P (Suc (unat i)) (?body i p)"
      using vga_shows_trans by (fastforce simp: vga_or_error_def take_Suc_conv_app_nth vga_shows_def)
  qed simp
  then show ?thesis using assms(1,2,4) by (simp add: vga_text_write_def vga_inv_def unat_of_nat_small)
qed

lemma vga_writestring_shows:
  assumes "vga_inv d" "cstr m str cs" "str \<noteq> 0" "length cs < 2 ^ 32"
  shows "\<exists>d'. vga_text_writestring m str d = Some (KERNEL_OK, d') \<and> vga_shows (fold scr_put cs (vga_screen d)) d d'"
proof -
  have "strlen m str = Some (of_nat (length cs))" using strlen_from_eq [of m str 0 cs] assms(2,3) by (simp add: strlen_def)
  with vga_write_shows [OF assms(1,3) _ assms(4), of m] assms(2,3) show ?thesis
    by (simp add: vga_text_writestring_def cstr_nth)
qed

section \<open>Printing numbers\<close>

lemma hex_digit_decimal:
  assumes "n < 10"
  shows "hex_digit (0x30 + of_nat n) = Some (of_nat n)" "0x30 + of_nat n = (0x30 :: u8) \<longleftrightarrow> n = 0"
proof -
  from assms have "n \<in> {0, 1, 2, 3, 4, 5, 6, 7, 8, 9}" by (auto simp: numeral_eq_Suc)
  then show "hex_digit (0x30 + of_nat n) = Some (of_nat n)" "0x30 + of_nat n = (0x30 :: u8) \<longleftrightarrow> n = 0"
    by (auto simp: hex_digit_def)
qed

text \<open>
  The loop of \<^verbatim>\<open>vga_text_print_dec\<close> leaves before \<open>pos\<close> the decimal digits of the value, without a leading
  zero, and what is at \<open>pos\<close> and after is unchanged.
\<close>

lemma dec_fill_digits:
  assumes "unat value < 10 ^ p" "p < 2 ^ 32"
  shows "\<exists>ds m'. dec_fill buf (of_nat p) value m = (of_nat (p - length ds), m') \<and> length ds \<le> p \<and>
    (\<forall>i < length ds. m' (buf + of_nat (p - length ds + i)) = ds ! i) \<and>
    (\<forall>i. p \<le> i \<and> i < 2 ^ 32 \<longrightarrow> m' (buf + of_nat i) = m (buf + of_nat i)) \<and>
    digits_of 10 ds \<and> digits_value 10 ds 0 = unat value \<and> (value \<noteq> 0 \<longrightarrow> ds \<noteq> [] \<and> hd ds \<noteq> 0x30) \<and> (value = 0 \<longrightarrow> ds = [])"
  using assms
proof (induction p arbitrary: "value" m)
  case 0
  then have "value = 0" by (simp add: unat_eq_zero)
  then show ?case by (intro exI [of _ "[]"] exI [of _ m]) (simp add: dec_fill.simps [of buf 0] digits_of_def)
next
  case (Suc p)
  show ?case
  proof (cases "value = 0")
    case True
    then show ?thesis by (intro exI [of _ "[]"] exI [of _ m]) (simp add: dec_fill.simps [of buf _ 0] digits_of_def)
  next
    case False
    let ?c = "0x30 + ucast (value mod 10) :: u8"
    have pos: "of_nat (Suc p) > (0 :: u32)" "of_nat (Suc p) - 1 = (of_nat p :: u32)"
      using Suc.prems(2) by (simp_all add: word_less_nat_alt unat_of_nat_small del: of_nat_Suc) (simp add: algebra_simps)
    have p: "p < 2 ^ 32" using Suc.prems(2) by simp
    have lt: "unat (value div 10) < 10 ^ p" using Suc.prems(1) by (simp add: unat_div_distrib)
    have c: "?c = 0x30 + of_nat (unat value mod 10)"
    proof -
      have "ucast (value mod 10) = (of_nat (unat (value mod 10)) :: u8)" by (simp only: of_nat_unat)
      then show ?thesis by (simp add: unat_mod_distrib)
    qed
    obtain ds m' where IH: "dec_fill buf (of_nat p) (value div 10) (m(buf + of_nat p := ?c)) = (of_nat (p - length ds), m')"
      "length ds \<le> p" "\<forall>i < length ds. m' (buf + of_nat (p - length ds + i)) = ds ! i"
      "\<forall>i. p \<le> i \<and> i < 2 ^ 32 \<longrightarrow> m' (buf + of_nat i) = (m(buf + of_nat p := ?c)) (buf + of_nat i)"
      "digits_of 10 ds" "digits_value 10 ds 0 = unat (value div 10)" "value div 10 \<noteq> 0 \<longrightarrow> ds \<noteq> [] \<and> hd ds \<noteq> 0x30"
      "value div 10 = 0 \<longrightarrow> ds = []"
      using Suc.IH [OF lt p, of "m(buf + of_nat p := ?c)"] by blast
    have d: "hex_digit ?c = Some (of_nat (unat value mod 10))" "?c = 0x30 \<longleftrightarrow> unat value mod 10 = 0"
      unfolding c by (rule hex_digit_decimal, simp)+
    have tail: "m' (buf + of_nat p) = ?c" using IH(4) Suc.prems(2) by simp
    have other: "of_nat i \<noteq> (of_nat p :: u32)" if "Suc p \<le> i" "i < 2 ^ 32" for i
      using that Suc.prems(2) by (simp add: word_unat_eq_iff unat_of_nat_small)
    show ?thesis
    proof (intro exI [of _ "ds @ [?c]"] exI [of _ m'] conjI)
      show "dec_fill buf (of_nat (Suc p)) value m = (of_nat (Suc p - length (ds @ [?c])), m')"
        using IH(1) False pos by (subst dec_fill.simps) (simp add: word_neq_0_conv del: of_nat_Suc)
      show "\<forall>i < length (ds @ [?c]). m' (buf + of_nat (Suc p - length (ds @ [?c]) + i)) = (ds @ [?c]) ! i"
        using IH(2,3) tail by (auto simp: nth_append less_Suc_eq)
      show "\<forall>i. Suc p \<le> i \<and> i < 2 ^ 32 \<longrightarrow> m' (buf + of_nat i) = m (buf + of_nat i)"
        using IH(4) other by simp
      show "digits_of 10 (ds @ [?c])" using IH(5) d by (auto simp: digits_of_def unat_of_nat)
      have "unat (of_nat (unat value mod 10) :: u32) = unat value mod 10" by (rule unat_of_nat_small) simp
      then show "digits_value 10 (ds @ [?c]) 0 = unat value"
        using IH(6) d by (simp add: digits_value_snoc unat_div_distrib)
      show "value \<noteq> 0 \<longrightarrow> ds @ [?c] \<noteq> [] \<and> hd (ds @ [?c]) \<noteq> 0x30"
      proof (cases "value div 10 = 0")
        case True
        then have "unat value div 10 = 0" by (simp add: word_unat_eq_iff unat_div_distrib)
        then have "unat value mod 10 \<noteq> 0" using False by (auto simp: unat_eq_zero)
        then show ?thesis using IH(8) True d(2) by simp
      next
        case False
        then show ?thesis using IH(7) by simp
      qed
    qed (use IH(2) False in simp_all)
  qed
qed

fun hex_string :: "nat \<Rightarrow> u32 \<Rightarrow> u8 list" where
  "hex_string 0 v = []"
| "hex_string (Suc k) v = hex_string k (drop_bit 4 v) @ [hex_char (v AND 0xF)]"

lemma hex_char_digit: "v < 16 \<Longrightarrow> hex_digit (hex_char v) = Some v"
proof -
  have sixteen: "[0..<16] = [0, 1, 2, 3, 4, 5, 6, 7, 8, 9, 10, 11, 12, 13, 14, 15]" by (simp add: upt_rec)
  have "list_all (\<lambda>n. hex_digit (hex_char (of_nat n)) = Some (of_nat n)) [0..<16]"
    unfolding sixteen by (simp add: hex_char_def hex_digit_def)
  then have "hex_digit (hex_char (of_nat n)) = Some (of_nat n)" if "n < 16" for n using that by (simp add: list_all_iff)
  from this [of "unat v"] show "v < 16 \<Longrightarrow> hex_digit (hex_char v) = Some v" by (simp add: word_less_nat_alt)
qed

lemma low_nibble: "unat (v AND 0xF :: u32) = unat v mod 16" "(v AND 0xF :: u32) < 16"
proof -
  have "(15 :: u32) = mask 4" by (simp add: mask_eq_exp_minus_1)
  then show "unat (v AND 0xF :: u32) = unat v mod 16" using unat_and_mask [of v 4] by simp
  then show "(v AND 0xF :: u32) < 16" by (simp add: word_less_nat_alt)
qed

lemma hex_string_value: "digits_value 16 (hex_string k v) 0 = unat v mod 16 ^ k" "digits_of 16 (hex_string k v)"
  "length (hex_string k v) = k"
proof (induction k arbitrary: v)
  case (Suc k)
  {
    case 1
    have "unat (drop_bit 4 v) = unat v div 16" by (simp add: drop_bit_eq_div unat_div_distrib)
    then show ?case
      using Suc(1) [of "drop_bit 4 v"] hex_char_digit [OF low_nibble(2), of v]
      by (simp add: digits_value_snoc low_nibble mod_mult2_eq)
  next
    case 2
    then show ?case using Suc(2) [of "drop_bit 4 v"] hex_char_digit [OF low_nibble(2), of v]
      by (auto simp: digits_of_def low_nibble)
  next
    case 3
    then show ?case using Suc(3) by simp
  }
qed (simp_all add: digits_of_def)

lemma hex_digit_nonzero: "hex_digit c = Some d \<Longrightarrow> c \<noteq> 0"
  by (auto simp: hex_digit_def)

lemma digits_nonzero: "digits_of b ds \<Longrightarrow> i < length ds \<Longrightarrow> ds ! i \<noteq> 0"
  by (metis digits_of_def hex_digit_nonzero nth_mem)

lemma hex_fill_string:
  "cstr (hex_fill buf v (m(buf := 0x30, buf + 1 := 0x78, buf + 10 := 0))) buf ([0x30, 0x78] @ hex_string 8 v)"
proof -
  have eight: "(8 :: nat) = Suc (Suc (Suc (Suc (Suc (Suc (Suc (Suc 0)))))))" by simp
  have "hex_char x \<noteq> 0" if "x < 16" for x using hex_char_digit [OF that] hex_digit_nonzero by blast
  with low_nibble(2) have nz: "hex_char (x AND 0xF) \<noteq> 0" for x by blast
  show ?thesis unfolding eight
    by (simp add: hex_fill_def nz add.assoc)
qed

lemma dec_fill_string:
  assumes "value \<noteq> 0"
  obtains ds pos m' where "dec_fill buf 11 value (m(buf + 11 := 0)) = (pos, m')" "cstr m' (buf + pos) ds" "pos \<le> 11"
    "length ds \<le> 11" "digits_of 10 ds" "digits_value 10 ds 0 = unat value" "ds \<noteq> []" "hd ds \<noteq> 0x30"
proof -
  have "unat value < 10 ^ 11" by (rule less_trans [OF unat_lt(3)]) simp
  moreover have "(11 :: nat) < 2 ^ 32" by simp
  ultimately obtain ds m' where
    f: "dec_fill buf 11 value (m(buf + 11 := 0)) = (of_nat (11 - length ds), m')" "length ds \<le> 11"
      "\<forall>i < length ds. m' (buf + of_nat (11 - length ds + i)) = ds ! i"
      "\<forall>i. 11 \<le> i \<and> i < 2 ^ 32 \<longrightarrow> m' (buf + of_nat i) = (m(buf + 11 := 0)) (buf + of_nat i)"
      "digits_of 10 ds" "digits_value 10 ds 0 = unat value" "ds \<noteq> []" "hd ds \<noteq> 0x30"
    using dec_fill_digits [of "value" 11 buf "m(buf + 11 := 0)"] assms unfolding of_nat_numeral by blast
  have "m' (buf + of_nat 11) = (m(buf + 11 := 0)) (buf + of_nat 11)" using f(4) by (elim allE [of _ 11]) simp
  then have "m' (buf + of_nat (11 - length ds) + of_nat (length ds)) = 0" using f(2) by (simp add: of_nat_diff)
  moreover have "m' (buf + of_nat (11 - length ds) + of_nat i) = ds ! i" if "i < length ds" for i
    using f(3) that by (simp add: add.assoc)
  ultimately have "cstr m' (buf + of_nat (11 - length ds)) ds"
    using digits_nonzero [OF f(5)] by (simp add: cstr_nth)
  moreover have "of_nat (11 - length ds) \<le> (11 :: u32)" by (simp add: word_le_nat_alt unat_of_nat_small del: of_nat_diff)
  ultimately show ?thesis using that f by blast
qed

section \<open>Properties\<close>

text \<open>\<^verbatim>\<open>vga_text_init\<close> shows a blank screen with the cursor in its corner.\<close>

lemma vga_clear_shows:
  assumes "vt_initialized d" "vt_buffer d = VGA_MEMORY"
  obtains d' where "vga_text_clear d = (KERNEL_OK, d')"
    "vga_shows \<lparr>scr_rows = replicate 25 (replicate 80 (vga_make_entry 0x20 (vt_color d))), scr_x = 0, scr_y = 0, scr_color = vt_color d\<rparr> d d'"
proof -
  let ?b = "vga_make_entry 0x20 (vt_color d)"
  let ?P = "\<lambda>k e. \<exists>m'. e = d\<lparr>vt_mem := m'\<rparr> \<and> (\<forall>i < k. m' (VGA_MEMORY + 2 * of_nat i) = ?b) \<and> (\<forall>a. off_screen a \<longrightarrow> m' a = vt_mem d a)"
  let ?body = "\<lambda>i d. set_vga_cell i (vga_make_entry 0x20 (vt_color d)) d"
  have "?P (unat (2000 :: u32)) (for_loop 0 (2000 :: u32) ?body d)"
  proof (rule for_loop_counting [where P = ?P])
    show "?P (unat (0 :: u32)) d" by (intro exI [of _ "vt_mem d"]) simp
    fix i :: u32 and e
    assume "?P (unat i) e" and i: "i < 2000"
    then obtain m' where m': "e = d\<lparr>vt_mem := m'\<rparr>" "\<forall>j < unat i. m' (VGA_MEMORY + 2 * of_nat j) = ?b"
      "\<forall>a. off_screen a \<longrightarrow> m' a = vt_mem d a" by blast
    have i': "unat i < 2000" using i by (simp add: word_less_nat_alt)
    have cell: "VGA_MEMORY + 2 * i = cell_addr (unat i div 80) (unat i mod 80)"
      unfolding cell_addr_def by (simp only: div_mult_mod_eq word_nat_cast)
    have "unat i div 80 < 25" using i' by (simp add: div_less_iff_less_mult)
    moreover have "unat i mod 80 < 80" by simp
    ultimately have off: "\<not> off_screen (VGA_MEMORY + 2 * i)" unfolding cell off_screen_def by blast
    have "(m'(VGA_MEMORY + 2 * i := ?b)) (VGA_MEMORY + 2 * of_nat j) = ?b" if "j < Suc (unat i)" for j
      using that m'(2) by (cases "j = unat i") simp_all
    with off m'(1,3) assms(2) show "?P (Suc (unat i)) (?body i e)"
      by (intro exI [of _ "m'(VGA_MEMORY + 2 * i := ?b)"]) (auto simp: set_vga_cell_def)
  qed simp
  then obtain m' where m': "for_loop 0 (2000 :: u32) ?body d = d\<lparr>vt_mem := m'\<rparr>"
    "\<forall>i < 2000. m' (VGA_MEMORY + 2 * of_nat i) = ?b" "\<forall>a. off_screen a \<longrightarrow> m' a = vt_mem d a" by auto
  have "vga_rows m' = replicate 25 (replicate 80 ?b)"
  proof (rule screen_eqI)
    fix y x :: nat assume "y < 25" "x < 80"
    then have "m' (cell_addr y x) = ?b" using m'(2) unfolding cell_addr_def by (intro m'(2) [rule_format]) simp
    with \<open>y < 25\<close> \<open>x < 80\<close> show "m' (cell_addr y x) = replicate 25 (replicate 80 ?b) ! y ! x" by simp
  qed simp_all
  with m' assms show ?thesis
    by (intro that [of "d\<lparr>vt_mem := m', vt_cursor := \<lparr>vt_x = 0, vt_y = 0\<rparr>\<rparr>"])
       (simp_all add: vga_text_clear_def vga_shows_def vga_inv_def vga_screen_def)
qed

lemma vga_init_inv: "fst (vga_text_init d) = KERNEL_OK" "vga_inv (snd (vga_text_init d))"
  "vga_screen (snd (vga_text_init d)) =
     \<lparr>scr_rows = replicate 25 (replicate 80 (vga_make_entry 0x20 7)), scr_x = 0, scr_y = 0, scr_color = 7\<rparr>"
proof -
  let ?d = "d\<lparr>vt_width := VGA_TEXT_WIDTH, vt_height := VGA_TEXT_HEIGHT, vt_cursor := \<lparr>vt_x = 0, vt_y = 0\<rparr>,
       vt_color := 7, vt_buffer := VGA_MEMORY, vt_initialized := True\<rparr>"
  have "vga_text_init d = vga_text_clear ?d" by (simp add: vga_text_init_def vga_text_make_color_def)
  moreover obtain d' where "vga_text_clear ?d = (KERNEL_OK, d')"
    "vga_shows \<lparr>scr_rows = replicate 25 (replicate 80 (vga_make_entry 0x20 (vt_color ?d))), scr_x = 0, scr_y = 0, scr_color = vt_color ?d\<rparr> ?d d'"
    by (rule vga_clear_shows [of ?d]) simp_all
  ultimately show "fst (vga_text_init d) = KERNEL_OK" "vga_inv (snd (vga_text_init d))"
    "vga_screen (snd (vga_text_init d)) =
       \<lparr>scr_rows = replicate 25 (replicate 80 (vga_make_entry 0x20 7)), scr_x = 0, scr_y = 0, scr_color = 7\<rparr>"
    by (simp_all add: vga_shows_def)
qed

text \<open>Property C31. The VGA console implements the screen: on an initialized device whose cursor is on the screen,
  \<^verbatim>\<open>vga_text_writestring\<close> returns \<^verbatim>\<open>KERNEL_OK\<close>, shows what the screen shows after printing the characters
  one by one (line feeds, returns, tabs, backspaces, wrapping at the right edge and scrolling at the bottom
  included), keeps the cursor on the screen and changes no half-word of memory outside the 2000 cells.
\<close>

theorem vga_text_writestring_refines:
  assumes "vga_inv d" and "cstr m str cs" and "str \<noteq> 0" and "length cs < 2 ^ 32"
  shows "\<exists>d'. vga_text_writestring m str d = Some (KERNEL_OK, d') \<and>
    vga_screen d' = fold scr_put cs (vga_screen d) \<and>
    vga_inv d' \<and> (\<forall>a. off_screen a \<longrightarrow> vt_mem d' a = vt_mem d a)"
  using vga_writestring_shows [OF assms] by (auto simp: vga_shows_def)

definition vga_boot :: vga_text_device where
  "vga_boot = snd (vga_text_init \<lparr>vt_width = 0, vt_height = 0, vt_cursor = \<lparr>vt_x = 0, vt_y = 0\<rparr>, vt_color = 0, vt_buffer = 0,
     vt_initialized = False, vt_mem = (\<lambda>_. 0)\<rparr>)"

lemma vga_boot_inv: "vga_inv vga_boot" "scr_x (vga_screen vga_boot) = 0" "scr_y (vga_screen vga_boot) = 0"
  "scr_rows (vga_screen vga_boot) = replicate 25 (replicate 80 (vga_make_entry 0x20 7))" "scr_color (vga_screen vga_boot) = 7"
  by (simp_all add: vga_boot_def vga_init_inv)

theorem vga_text_writestring_refines_witness:
  "\<exists>d'. vga_text_writestring hello 100 vga_boot = Some (KERNEL_OK, d') \<and> scr_x (vga_screen d') = 2 \<and>
     scr_rows (vga_screen d') ! 0 ! 1 = 0x769"
proof -
  obtain d' where d': "vga_text_writestring hello 100 vga_boot = Some (KERNEL_OK, d')"
    "vga_screen d' = fold scr_put [0x68, 0x69] (vga_screen vga_boot)"
    using vga_text_writestring_refines [OF vga_boot_inv(1) hello_strings(1)] by auto
  then show ?thesis
    by (auto simp: scr_put_def scr_advance_def scr_write_def vga_boot_inv Let_def vga_make_entry_def)
qed

text \<open>
  The number printers show the number: \<^verbatim>\<open>vga_text_print_dec\<close> prints its decimal digits, without a
  leading zero unless the number is 0, and \<^verbatim>\<open>vga_text_print_hex\<close> prints \<^verbatim>\<open>0x\<close> and eight hexadecimal digits; in
  both cases the digits read back to the number printed.
\<close>

theorem vga_text_print_numbers:
  assumes "vga_inv d" and "buf \<noteq> 0" and "unat buf + 12 < 2 ^ 32"
  shows "(\<exists>d' ds. vga_text_print_dec buf m n d = Some (KERNEL_OK, d') \<and> vga_screen d' = fold scr_put ds (vga_screen d) \<and>
      digits_of 10 ds \<and> digits_value 10 ds 0 = unat n \<and> ds \<noteq> [] \<and> (n \<noteq> 0 \<longrightarrow> hd ds \<noteq> 0x30)) \<and>
    (\<exists>d' ds. vga_text_print_hex buf m n d = Some (KERNEL_OK, d') \<and>
      vga_screen d' = fold scr_put ([0x30, 0x78] @ ds) (vga_screen d) \<and> length ds = 8 \<and> digits_of 16 ds \<and> digits_value 16 ds 0 = unat n)"
proof -
  have init: "vt_initialized d" using assms(1) by (simp add: vga_inv_def)
  have dec: "\<exists>d' ds. vga_text_print_dec buf m n d = Some (KERNEL_OK, d') \<and> vga_screen d' = fold scr_put ds (vga_screen d) \<and>
      digits_of 10 ds \<and> digits_value 10 ds 0 = unat n \<and> ds \<noteq> [] \<and> (n \<noteq> 0 \<longrightarrow> hd ds \<noteq> 0x30)"
  proof (cases "n = 0")
    case True
    obtain d' where "vga_text_putchar 0x30 d = (KERNEL_OK, d')" "vga_shows (scr_put 0x30 (vga_screen d)) d d'"
      by (rule vga_putchar_shows [OF assms(1)])
    then show ?thesis using True init
      by (intro exI [of _ d'] exI [of _ "[0x30]"]) (simp add: vga_text_print_dec_def vga_shows_def digits_of_def hex_digit_def)
  next
    case False
    then obtain ds pos m' where f: "dec_fill buf 11 n (m(buf + 11 := 0)) = (pos, m')" "cstr m' (buf + pos) ds" "pos \<le> 11"
      "length ds \<le> 11" "digits_of 10 ds" "digits_value 10 ds 0 = unat n" "ds \<noteq> []" "hd ds \<noteq> 0x30"
      by (rule dec_fill_string)
    have "unat (buf + pos) = unat buf + unat pos"
      using assms(3) f(3) by (intro unat_add_small) (simp add: word_le_nat_alt)
    moreover have "unat buf > 0" using assms(2) by (simp add: unat_gt_0)
    ultimately have "unat (buf + pos) \<noteq> 0" by simp
    then have "buf + pos \<noteq> 0" by (metis unat_0)
    with vga_writestring_shows [OF assms(1) f(2)] f init False show ?thesis
      by (auto simp: vga_text_print_dec_def vga_shows_def)
  qed
  have "length ([0x30, 0x78] @ hex_string 8 n) < 2 ^ 32" using hex_string_value(3) [of 8 n] by simp
  from vga_writestring_shows [OF assms(1) hex_fill_string assms(2) this, of m] init
  have "\<exists>d' ds. vga_text_print_hex buf m n d = Some (KERNEL_OK, d') \<and>
      vga_screen d' = fold scr_put ([0x30, 0x78] @ ds) (vga_screen d) \<and> length ds = 8 \<and> digits_of 16 ds \<and> digits_value 16 ds 0 = unat n"
    using hex_string_value [of 8 n] by (auto simp: vga_text_print_hex_def vga_shows_def)
  with dec show ?thesis by blast
qed

theorem vga_text_print_numbers_witness:
  "(\<exists>d' ds. vga_text_print_dec 0x1000 hello 1024 vga_boot = Some (KERNEL_OK, d') \<and>
      vga_screen d' = fold scr_put ds (vga_screen vga_boot) \<and> digits_value 10 ds 0 = 1024) \<and>
   (\<exists>d' ds. vga_text_print_hex 0x1000 hello 255 vga_boot = Some (KERNEL_OK, d') \<and>
      vga_screen d' = fold scr_put ([0x30, 0x78] @ ds) (vga_screen vga_boot) \<and> digits_value 16 ds 0 = 255)"
  using vga_text_print_numbers [OF vga_boot_inv(1), of "0x1000" hello 1024]
    vga_text_print_numbers [OF vga_boot_inv(1), of "0x1000" hello 255]
  by (simp del: fold_append) blast

text \<open>
  A character with its top bit set overwrites the colour: the sign extension of \<^verbatim>\<open>(u16)c\<close> sets every bit of the
  attribute byte.
\<close>

lemma vga_make_entry_high: "c \<ge> 0x80 \<Longrightarrow> drop_bit 8 (vga_make_entry c color) = 0xFF"
proof -
  assume "c \<ge> 0x80"
  then have "128 \<le> unat c" by (simp add: word_le_nat_alt)
  then have "128 \<le> uint c" by (metis of_nat_le_iff of_nat_numeral uint_nat)
  then have "bit (uint c) 7" using uint_lt2p [of c]
    by (simp add: bit_iff_odd) presburger
  then have "bit c 7" by (simp add: bit_uint_iff)
  moreover have "(0xFF :: u16) = mask 8" by (simp add: mask_eq_exp_minus_1)
  ultimately show ?thesis unfolding \<open>0xFF = mask 8\<close>
    by (intro bit_word_eqI) (auto simp: vga_make_entry_def bit_simps)
qed

end
