(* ===== verification/Vbe.thy ===== *)
theory Vbe
  imports Cstring
begin

text \<open>
  The framebuffer driver, \<^verbatim>\<open>src/drivers/vbe.c\<close>. The device record has the fields of \<^verbatim>\<open>vbe_device_t\<close> that
  the driver uses and the byte memory its framebuffer pointer leads into; a multi-byte store is little-endian.
  Coordinates are \<^verbatim>\<open>u16\<close> and are added in \<^verbatim>\<open>int\<close> where the code compares them, so those sums do not wrap. The boot
  loader's structures are arguments of \<open>vbe_init\<close>.

  Interface: a surface of pixels, on which writing one pixel is read back at its place and nowhere else. Everything
  the driver draws is shown to be a sequence of such writes, all inside the screen.
\<close>

section \<open>The device\<close>

record vbe_color =
  red :: u8
  green :: u8
  blue :: u8
  alpha :: u8

record vbe_mode_info =
  mode_attributes :: u16
  bytes_per_scanline :: u16
  x_resolution :: u16
  y_resolution :: u16
  bits_per_pixel :: u8
  mi_memory_model :: u8
  mi_red_mask_size :: u8
  mi_red_field_position :: u8
  mi_green_mask_size :: u8
  mi_green_field_position :: u8
  mi_blue_mask_size :: u8
  mi_blue_field_position :: u8
  rsvd_field_position :: u8
  phys_base_ptr :: u32
  lin_bytes_per_scan_line :: u16
  lin_red_mask_size :: u8
  lin_red_field_position :: u8
  lin_green_mask_size :: u8
  lin_green_field_position :: u8
  lin_blue_mask_size :: u8
  lin_blue_field_position :: u8

record vbe_device =
  vd_initialized :: bool
  linear_supported :: bool
  current_mode :: u16
  framebuffer_addr :: u32
  framebuffer_size :: u32
  vd_width :: u16
  vd_height :: u16
  vd_bpp :: u8
  vd_pitch :: u16
  vd_memory_model :: u8
  red_mask_size :: u8
  red_field_position :: u8
  green_mask_size :: u8
  green_field_position :: u8
  blue_mask_size :: u8
  blue_field_position :: u8
  mode_info :: vbe_mode_info
  vd_mem :: memory

abbreviation VBE_COLOR_BLACK :: vbe_color where "VBE_COLOR_BLACK \<equiv> \<lparr>red = 0, green = 0, blue = 0, alpha = 255\<rparr>"
abbreviation VBE_COLOR_WHITE :: vbe_color where "VBE_COLOR_WHITE \<equiv> \<lparr>red = 255, green = 255, blue = 255, alpha = 255\<rparr>"
abbreviation VBE_COLOR_RED :: vbe_color where "VBE_COLOR_RED \<equiv> \<lparr>red = 255, green = 0, blue = 0, alpha = 255\<rparr>"
abbreviation VBE_COLOR_GREEN :: vbe_color where "VBE_COLOR_GREEN \<equiv> \<lparr>red = 0, green = 255, blue = 0, alpha = 255\<rparr>"
abbreviation VBE_COLOR_BLUE :: vbe_color where "VBE_COLOR_BLUE \<equiv> \<lparr>red = 0, green = 0, blue = 255, alpha = 255\<rparr>"
abbreviation VBE_COLOR_CYAN :: vbe_color where "VBE_COLOR_CYAN \<equiv> \<lparr>red = 0, green = 255, blue = 255, alpha = 255\<rparr>"
abbreviation VBE_COLOR_MAGENTA :: vbe_color where "VBE_COLOR_MAGENTA \<equiv> \<lparr>red = 255, green = 0, blue = 255, alpha = 255\<rparr>"
abbreviation VBE_COLOR_YELLOW :: vbe_color where "VBE_COLOR_YELLOW \<equiv> \<lparr>red = 255, green = 255, blue = 0, alpha = 255\<rparr>"

definition vbe_replicate_pixel :: "u32 \<Rightarrow> u8 \<Rightarrow> u32" where
  "vbe_replicate_pixel pixel bpp =
     (if bpp = 32 then pixel
      else if bpp = 16 \<or> bpp = 15 then push_bit 16 pixel OR pixel
      else if bpp = 8 then push_bit 24 pixel OR push_bit 16 pixel OR push_bit 8 pixel OR pixel
      else if bpp = 24 then let rgb = pixel AND 0xFFFFFF in push_bit 8 rgb OR drop_bit 16 rgb
      else pixel)"

text \<open>
  \<open>mbi\<close> is the boot information the loader passed (\<open>None\<close>: the null pointer): its flags, the mode number and
  the mode information it points to.
\<close>

definition vbe_init :: "(u32 \<times> u16 \<times> vbe_mode_info) option \<Rightarrow> vbe_device \<Rightarrow> kernel_status \<times> vbe_device" where
  "vbe_init mbi d =
     (case mbi of
        None \<Rightarrow> (KERNEL_ERROR, d)
      | Some (flags, vbe_mode, mi) \<Rightarrow>
          if flags AND push_bit 11 1 = 0 then (KERNEL_ERROR, d)
          else let d = d\<lparr>mode_info := mi, current_mode := vbe_mode, framebuffer_addr := phys_base_ptr mi,
                         vd_width := x_resolution mi, vd_height := y_resolution mi, vd_bpp := bits_per_pixel mi,
                         vd_pitch := (if bytes_per_scanline mi \<noteq> 0 then bytes_per_scanline mi else lin_bytes_per_scan_line mi),
                         vd_memory_model := mi_memory_model mi,
                         red_mask_size := mi_red_mask_size mi, red_field_position := mi_red_field_position mi,
                         green_mask_size := mi_green_mask_size mi, green_field_position := mi_green_field_position mi,
                         blue_mask_size := mi_blue_mask_size mi, blue_field_position := mi_blue_field_position mi\<rparr>;
                   d = (if lin_red_mask_size mi \<noteq> 0
                        then d\<lparr>red_mask_size := lin_red_mask_size mi, red_field_position := lin_red_field_position mi,
                               green_mask_size := lin_green_mask_size mi, green_field_position := lin_green_field_position mi,
                               blue_mask_size := lin_blue_mask_size mi, blue_field_position := lin_blue_field_position mi\<rparr>
                        else d)
               in (KERNEL_OK, d\<lparr>framebuffer_size := ucast (vd_height d) * ucast (vd_pitch d),
                                 linear_supported := mode_attributes mi AND 0x80 \<noteq> 0, vd_initialized := True\<rparr>))"

definition vbe_is_available :: "vbe_device \<Rightarrow> bool" where
  "vbe_is_available d = vd_initialized d"

definition vbe_set_mode :: "u16 \<Rightarrow> kernel_status" where
  "vbe_set_mode mode = KERNEL_NOT_IMPLEMENTED"

text \<open>The result of \<^verbatim>\<open>vbe_get_mode_info\<close> is what it stores through a non-null pointer.\<close>

definition vbe_get_mode_info :: "u16 \<Rightarrow> vbe_device \<Rightarrow> kernel_status + vbe_mode_info" where
  "vbe_get_mode_info mode d = (if mode \<noteq> current_mode d then Inl KERNEL_INVALID_PARAM else Inr (mode_info d))"

definition vbe_get_framebuffer :: "vbe_device \<Rightarrow> u32" where
  "vbe_get_framebuffer d = framebuffer_addr d"

definition vbe_get_width :: "vbe_device \<Rightarrow> u16" where
  "vbe_get_width d = (if vd_initialized d then vd_width d else 0)"

definition vbe_get_height :: "vbe_device \<Rightarrow> u16" where
  "vbe_get_height d = (if vd_initialized d then vd_height d else 0)"

definition vbe_get_bpp :: "vbe_device \<Rightarrow> u8" where
  "vbe_get_bpp d = (if vd_initialized d then vd_bpp d else 0)"

section \<open>Colours\<close>

text \<open>One component of a pixel: the colour component scaled to its field.\<close>

definition scale_component :: "u8 \<Rightarrow> u8 \<Rightarrow> u32" where
  "scale_component mask_size c =
     (if mask_size \<noteq> 0 then ucast c * (push_bit (unat mask_size) 1 - 1) div 255 else 0)"

definition vbe_color_to_pixel :: "vbe_color \<Rightarrow> vbe_device \<Rightarrow> u32" where
  "vbe_color_to_pixel color d =
     (let r = scale_component (red_mask_size d) (red color);
          g = scale_component (green_mask_size d) (green color);
          b = scale_component (blue_mask_size d) (blue color);
          a = 0
      in push_bit (unat (red_field_position d)) r OR push_bit (unat (green_field_position d)) g
         OR push_bit (unat (blue_field_position d)) b OR push_bit (unat (rsvd_field_position (mode_info d))) a)"

definition field_mask :: "u8 \<Rightarrow> u32" where
  "field_mask mask_size = (if mask_size \<noteq> 0 then push_bit (unat mask_size) 1 - 1 else 1)"

definition unscale_component :: "u8 \<Rightarrow> u8 \<Rightarrow> u32 \<Rightarrow> u8" where
  "unscale_component mask_size pos pixel =
     (let m = field_mask mask_size
      in ucast ((drop_bit (unat pos) pixel AND m) * 255 div (if m \<noteq> 0 then m else 1)))"

definition vbe_pixel_to_color :: "u32 \<Rightarrow> vbe_device \<Rightarrow> vbe_color" where
  "vbe_pixel_to_color pixel d =
     \<lparr>red = unscale_component (red_mask_size d) (red_field_position d) pixel,
      green = unscale_component (green_mask_size d) (green_field_position d) pixel,
      blue = unscale_component (blue_mask_size d) (blue_field_position d) pixel,
      alpha = 255\<rparr>"

section \<open>Pixels\<close>

text \<open>Little-endian stores and loads of \<open>n\<close> bytes.\<close>

primrec store_le :: "nat \<Rightarrow> u32 \<Rightarrow> u32 \<Rightarrow> memory \<Rightarrow> memory" where
  "store_le 0 a v m = m"
| "store_le (Suc n) a v m = store_le n (a + 1) (drop_bit 8 v) (m(a := ucast v))"

primrec load_le :: "nat \<Rightarrow> u32 \<Rightarrow> memory \<Rightarrow> u32" where
  "load_le 0 a m = 0"
| "load_le (Suc n) a m = ucast (m a) OR push_bit 8 (load_le n (a + 1) m)"

text \<open>The \<^verbatim>\<open>switch (bpp)\<close> of the pixel routines: the width in bytes of the access.\<close>

definition pixel_bytes :: "u8 \<Rightarrow> nat option" where
  "pixel_bytes bpp =
     (if bpp = 8 then Some 1
      else if bpp = 15 \<or> bpp = 16 then Some 2
      else if bpp = 24 then Some 3
      else if bpp = 32 then Some 4
      else None)"

definition pixel_offset :: "u16 \<Rightarrow> u16 \<Rightarrow> vbe_device \<Rightarrow> u32" where
  "pixel_offset x y d = ucast y * ucast (vd_pitch d) + ucast x * ucast (vd_bpp d div 8)"

definition vbe_put_pixel :: "u16 \<Rightarrow> u16 \<Rightarrow> vbe_color \<Rightarrow> vbe_device \<Rightarrow> kernel_status \<times> vbe_device" where
  "vbe_put_pixel x y color d =
     (if \<not> vd_initialized d \<or> x \<ge> vd_width d \<or> y \<ge> vd_height d then (KERNEL_INVALID_PARAM, d)
      else let fb = vbe_get_framebuffer d; offset = pixel_offset x y d; pixel = vbe_color_to_pixel color d
           in case pixel_bytes (vd_bpp d) of
                Some n \<Rightarrow> (KERNEL_OK, d\<lparr>vd_mem := store_le n (fb + offset) pixel (vd_mem d)\<rparr>)
              | None \<Rightarrow> (KERNEL_NOT_IMPLEMENTED, d))"

definition vbe_get_pixel :: "u16 \<Rightarrow> u16 \<Rightarrow> vbe_device \<Rightarrow> vbe_color" where
  "vbe_get_pixel x y d =
     (let color = \<lparr>red = 0, green = 0, blue = 0, alpha = 0\<rparr>
      in if \<not> vd_initialized d \<or> x \<ge> vd_width d \<or> y \<ge> vd_height d then color
         else case pixel_bytes (vd_bpp d) of
                Some n \<Rightarrow> vbe_pixel_to_color (load_le n (vbe_get_framebuffer d + pixel_offset x y d) (vd_mem d)) d
              | None \<Rightarrow> color)"

section \<open>Rectangles and lines\<close>

text \<open>One row of \<^verbatim>\<open>vbe_fill_rect\<close>; the two loops for 32 bits differ in C only in how they form the same address.\<close>

definition vbe_fill_line :: "u8 \<Rightarrow> u32 \<Rightarrow> u16 \<Rightarrow> u32 \<Rightarrow> memory \<Rightarrow> memory option" where
  "vbe_fill_line bpp line width pixel m =
     (if bpp = 32 then
        Some (if line AND 3 = 0 then for_loop 0 (ucast width :: u32) (\<lambda>i. store_le 4 (line + 4 * i) pixel) m
              else for_loop 0 (ucast width :: u32) (\<lambda>i. store_le 4 (line + i * 4) pixel) m)
      else if bpp = 24 then
        Some (for_loop 0 (ucast width :: u32)
          (\<lambda>i m. m(line + (i * 3 + 0) := ucast pixel, line + (i * 3 + 1) := ucast (drop_bit 8 pixel),
                   line + (i * 3 + 2) := ucast (drop_bit 16 pixel))) m)
      else if bpp = 15 \<or> bpp = 16 then
        Some (for_loop 0 (ucast width :: u32) (\<lambda>i. store_le 2 (line + 2 * i) pixel) m)
      else if bpp = 8 then Some (snd (memset line (ucast pixel) (ucast width) m))
      else None)"

definition vbe_fill_rect :: "u16 \<Rightarrow> u16 \<Rightarrow> u16 \<Rightarrow> u16 \<Rightarrow> vbe_color \<Rightarrow> vbe_device \<Rightarrow> kernel_status \<times> vbe_device" where
  "vbe_fill_rect x y width height color d =
     (if \<not> vd_initialized d \<or> unat x + unat width > unat (vd_width d) \<or> unat y + unat height > unat (vd_height d) \<or>
         width = 0 \<or> height = 0
      then (KERNEL_INVALID_PARAM, d)
      else let pixel = vbe_color_to_pixel color d;
               fb = vbe_get_framebuffer d;
               offset = ucast y * ucast (vd_pitch d) + ucast x * ucast (vd_bpp d div 8)
           in for_loop 0 height
                (\<lambda>row (st, d). if st \<noteq> KERNEL_OK then (st, d)
                   else case vbe_fill_line (vd_bpp d) (fb + offset + ucast row * ucast (vd_pitch d)) width pixel (vd_mem d) of
                          Some m \<Rightarrow> (KERNEL_OK, d\<lparr>vd_mem := m\<rparr>)
                        | None \<Rightarrow> (KERNEL_NOT_IMPLEMENTED, d))
                (KERNEL_OK, d))"

definition vbe_clear_screen :: "vbe_color \<Rightarrow> vbe_device \<Rightarrow> kernel_status \<times> vbe_device" where
  "vbe_clear_screen color d = vbe_fill_rect 0 0 (vd_width d) (vd_height d) color d"

text \<open>A loop body that returns \<^verbatim>\<open>KERNEL_ERROR\<close> at the first pixel that cannot be drawn.\<close>

definition put_or_error :: "u16 \<Rightarrow> u16 \<Rightarrow> vbe_color \<Rightarrow> kernel_status \<times> vbe_device \<Rightarrow> kernel_status \<times> vbe_device" where
  "put_or_error x y color = (\<lambda>(st, d). if st \<noteq> KERNEL_OK then (st, d)
     else case vbe_put_pixel x y color d of (st', d') \<Rightarrow> (if st' \<noteq> KERNEL_OK then KERNEL_ERROR else KERNEL_OK, d'))"

definition vbe_draw_horizontal_line :: "u16 \<Rightarrow> u16 \<Rightarrow> u16 \<Rightarrow> vbe_color \<Rightarrow> vbe_device \<Rightarrow> kernel_status \<times> vbe_device" where
  "vbe_draw_horizontal_line x y width color d = for_loop 0 width (\<lambda>i. put_or_error (x + i) y color) (KERNEL_OK, d)"

definition vbe_draw_vertical_line :: "u16 \<Rightarrow> u16 \<Rightarrow> u16 \<Rightarrow> vbe_color \<Rightarrow> vbe_device \<Rightarrow> kernel_status \<times> vbe_device" where
  "vbe_draw_vertical_line x y height color d = for_loop 0 height (\<lambda>i. put_or_error x (y + i) color) (KERNEL_OK, d)"

definition vbe_draw_rect :: "u16 \<Rightarrow> u16 \<Rightarrow> u16 \<Rightarrow> u16 \<Rightarrow> vbe_color \<Rightarrow> vbe_device \<Rightarrow> kernel_status \<times> vbe_device" where
  "vbe_draw_rect x y width height color d =
     (case vbe_draw_horizontal_line x y width color d of (st, d) \<Rightarrow>
        if st \<noteq> KERNEL_OK then (st, d)
        else case vbe_draw_horizontal_line x (y + height - 1) width color d of (st, d) \<Rightarrow>
          if st \<noteq> KERNEL_OK then (st, d)
          else case vbe_draw_vertical_line x y height color d of (st, d) \<Rightarrow>
            if st \<noteq> KERNEL_OK then (st, d)
            else vbe_draw_vertical_line (x + width - 1) y height color d)"

text \<open>The loop of \<^verbatim>\<open>vbe_draw_line\<close>; the errors stay below \<open>2 ^ 17\<close>, so \<^verbatim>\<open>int\<close> does not overflow.\<close>

partial_function (option) line_from ::
    "int \<Rightarrow> int \<Rightarrow> int \<Rightarrow> int \<Rightarrow> u16 \<Rightarrow> u16 \<Rightarrow> vbe_color \<Rightarrow> u16 \<Rightarrow> u16 \<Rightarrow> int \<Rightarrow> vbe_device \<Rightarrow> (kernel_status \<times> vbe_device) option" where
  "line_from abs_dx abs_dy sx sy x2 y2 color x1 y1 err d =
     (case vbe_put_pixel x1 y1 color d of (st, d) \<Rightarrow>
        if st \<noteq> KERNEL_OK then Some (KERNEL_ERROR, d)
        else if x1 = x2 \<and> y1 = y2 then Some (KERNEL_OK, d)
        else let e2 = err;
                 (err, x1) = (if e2 > - abs_dx then (err - abs_dy, x1 + word_of_int sx) else (err, x1));
                 (err, y1) = (if e2 < abs_dy then (err + abs_dx, y1 + word_of_int sy) else (err, y1))
             in line_from abs_dx abs_dy sx sy x2 y2 color x1 y1 err d)"

definition vbe_draw_line :: "u16 \<Rightarrow> u16 \<Rightarrow> u16 \<Rightarrow> u16 \<Rightarrow> vbe_color \<Rightarrow> vbe_device \<Rightarrow> (kernel_status \<times> vbe_device) option" where
  "vbe_draw_line x1 y1 x2 y2 color d =
     (let dx = uint x2 - uint x1;
          dy = uint y2 - uint y1;
          abs_dx = (if dx \<ge> 0 then dx else - dx);
          abs_dy = (if dy \<ge> 0 then dy else - dy);
          sx = (if x1 < x2 then 1 else - 1);
          sy = (if y1 < y2 then 1 else - 1);
          err = (if abs_dx > abs_dy then abs_dx div 2 else - (abs_dy div 2))
      in line_from abs_dx abs_dy sx sy x2 y2 color x1 y1 err d)"

text \<open>
  The circle: a pixel outside the screen is skipped, its status is ignored. The arithmetic is on \<^verbatim>\<open>int\<close>; a
  coordinate is cut to 16 bits when it is passed on.
\<close>

definition put_ignoring :: "vbe_color \<Rightarrow> int \<times> int \<Rightarrow> vbe_device \<Rightarrow> vbe_device" where
  "put_ignoring color p d = snd (vbe_put_pixel (word_of_int (fst p)) (word_of_int (snd p)) color d)"

function circle_from :: "int \<Rightarrow> int \<Rightarrow> vbe_color \<Rightarrow> int \<Rightarrow> int \<Rightarrow> int \<Rightarrow> vbe_device \<Rightarrow> vbe_device" where
  "circle_from cx cy color x y err d =
     (if x \<ge> y
      then let d = fold (put_ignoring color) [(cx + x, cy + y), (cx + y, cy + x), (cx - y, cy + x), (cx - x, cy + y),
                     (cx - x, cy - y), (cx - y, cy - x), (cx + y, cy - x), (cx + x, cy - y)] d;
               y = y + 1;
               err = err + (1 + 2 * y)
           in if 2 * (err - x) + 1 > 0 then circle_from cx cy color (x - 1) y (err + (1 - 2 * (x - 1))) d
              else circle_from cx cy color x y err d
      else d)"
  by pat_completeness auto
termination
  by (relation "measure (\<lambda>(cx, cy, color, x, y, err, d). nat (x + 1 - y))") auto

declare circle_from.simps [simp del]

definition vbe_draw_circle :: "u16 \<Rightarrow> u16 \<Rightarrow> u16 \<Rightarrow> vbe_color \<Rightarrow> vbe_device \<Rightarrow> kernel_status \<times> vbe_device" where
  "vbe_draw_circle cx cy radius color d =
     (if \<not> vd_initialized d then (KERNEL_ERROR, d)
      else (KERNEL_OK, circle_from (uint cx) (uint cy) color (uint radius) 0 0 d))"

section \<open>Moving a rectangle\<close>

text \<open>One pixel of the copy, byte by byte at 24 bits.\<close>

definition copy_pixel :: "u8 \<Rightarrow> u32 \<Rightarrow> u32 \<Rightarrow> u16 \<Rightarrow> memory \<Rightarrow> memory option" where
  "copy_pixel bpp dst src col m =
     (if bpp = 8 then Some (m(dst + ucast col := m (src + ucast col)))
      else if bpp = 16 \<or> bpp = 15 then Some (store_le 2 (dst + 2 * ucast col) (load_le 2 (src + 2 * ucast col) m) m)
      else if bpp = 24 then
        let m = m(dst + (ucast col * 3 + 0) := m (src + (ucast col * 3 + 0)));
            m = m(dst + (ucast col * 3 + 1) := m (src + (ucast col * 3 + 1)));
            m = m(dst + (ucast col * 3 + 2) := m (src + (ucast col * 3 + 2)))
        in Some m
      else if bpp = 32 then Some (store_le 4 (dst + 4 * ucast col) (load_le 4 (src + 4 * ucast col) m) m)
      else None)"

definition vbe_blit :: "u16 \<Rightarrow> u16 \<Rightarrow> u16 \<Rightarrow> u16 \<Rightarrow> u16 \<Rightarrow> u16 \<Rightarrow> vbe_device \<Rightarrow> kernel_status \<times> vbe_device" where
  "vbe_blit dst_x dst_y src_x src_y width height d =
     (if \<not> vd_initialized d then (KERNEL_ERROR, d)
      else if unat dst_x + unat width > unat (vd_width d) \<or> unat dst_y + unat height > unat (vd_height d) \<or>
              unat src_x + unat width > unat (vd_width d) \<or> unat src_y + unat height > unat (vd_height d)
      then (KERNEL_INVALID_PARAM, d)
      else let fb = vbe_get_framebuffer d; bpp_bytes = ucast (vd_bpp d div 8)
           in for_loop 0 height (\<lambda>row.
                let src = fb + (ucast src_y + ucast row) * ucast (vd_pitch d) + ucast src_x * bpp_bytes;
                    dst = fb + (ucast dst_y + ucast row) * ucast (vd_pitch d) + ucast dst_x * bpp_bytes
                in for_loop 0 width (\<lambda>col (st, d).
                     if st \<noteq> KERNEL_OK then (st, d)
                     else case copy_pixel (vd_bpp d) dst src col (vd_mem d) of
                            Some m \<Rightarrow> (KERNEL_OK, d\<lparr>vd_mem := m\<rparr>)
                          | None \<Rightarrow> (KERNEL_NOT_IMPLEMENTED, d)))
              (KERNEL_OK, d))"

section \<open>Bytes\<close>

lemma unat_ucast_u32 [simp]: "unat (ucast (x :: u16) :: u32) = unat x" "unat (ucast (y :: u8) :: u32) = unat y"
  using unat_lt(1) [of y] unat_lt(2) [of x] by (simp_all add: unsigned_ucast_eq take_bit_nat_eq_self del: unat_lt)

lemma unat_diff_one: "b \<noteq> a \<Longrightarrow> unat (b - (a + 1) :: u32) = unat (b - a) - 1"
proof -
  assume "b \<noteq> a"
  then have "b - a \<noteq> 0" by simp
  then have "unat (b - a - 1) = unat (b - a) - 1" by (rule unat_minus_one)
  then show ?thesis by (simp add: diff_diff_eq)
qed

lemma store_le_other: "n \<le> unat (b - a) \<Longrightarrow> store_le n a v m b = m b"
proof (induction n arbitrary: a v m)
  case (Suc n)
  then have "b \<noteq> a" by auto
  with Suc show ?case by (simp add: unat_diff_one)
qed simp

lemma load_store_le: "n \<le> 4 \<Longrightarrow> load_le n a (store_le n a v m) = take_bit (8 * n) v"
proof (induction n arbitrary: a v m)
  case (Suc n)
  have "unat (a - (a + 1)) = unat (- 1 :: u32)" by simp
  also have "\<dots> = 2 ^ 32 - 1" by (simp add: unsigned_minus_1_eq_mask mask_eq_exp_minus_1)
  finally have "store_le n (a + 1) (drop_bit 8 v) (m(a := ucast v)) a = ucast v"
    using Suc.prems by (subst store_le_other) simp_all
  then show ?case using Suc by (auto intro!: bit_word_eqI simp: bit_simps)
qed simp

lemma load_le_cong: "(\<And>i. i < n \<Longrightarrow> m (a + of_nat i) = m' (a + of_nat i)) \<Longrightarrow> load_le n a m = load_le n a m'"
proof (induction n arbitrary: a)
  case (Suc n)
  have "load_le n (a + 1) m = load_le n (a + 1) m'"
    by (rule Suc.IH) (use Suc.prems [of "Suc i" for i] in \<open>simp add: add.assoc\<close>)
  then show ?case using Suc.prems [of 0] by simp
qed simp

lemma take_bit_load_le: "n \<le> 4 \<Longrightarrow> take_bit (8 * n) (load_le n a m) = load_le n a m"
proof (induction n arbitrary: a)
  case (Suc n)
  have "take_bit (8 * Suc n) (load_le (Suc n) a m) = ucast (m a) OR push_bit 8 (take_bit (8 * n) (load_le n (a + 1) m))"
  proof (rule bit_word_eqI)
    fix k assume k: "k < LENGTH(32)"
    have "\<not> bit (m a) k" if "8 \<le> k" using that bit_imp_le_length [of "m a" k] by auto
    then show "bit (take_bit (8 * Suc n) (load_le (Suc n) a m)) k =
        bit (ucast (m a) OR push_bit 8 (take_bit (8 * n) (load_le n (a + 1) m))) k"
      by (cases "k < 8") (auto simp: bit_simps)
  qed
  then show ?case using Suc by simp
qed simp

section \<open>Surfaces of pixels\<close>

text \<open>
  The interface of a device that pixels are drawn on: \<open>put\<close> changes one pixel, cut to the depth of the device,
  and what the device has beside its pixels (\<open>others\<close>) stays. A picture is a list of pixels put in order.
\<close>

locale pixel_surface =
  fixes inv :: "'s \<Rightarrow> bool" and inside :: "'s \<Rightarrow> nat \<times> nat \<Rightarrow> bool" and get :: "nat \<times> nat \<Rightarrow> 's \<Rightarrow> 'p"
    and put :: "nat \<times> nat \<Rightarrow> 'p \<Rightarrow> 's \<Rightarrow> 's" and trunc :: "'s \<Rightarrow> 'p \<Rightarrow> 'p" and others :: "'s \<Rightarrow> 'f"
  assumes put_inv: "inv s \<Longrightarrow> inside s p \<Longrightarrow> inv (put p v s)"
    and inside_put: "inside (put p v s) q = inside s q"
    and trunc_put: "trunc (put p v s) = trunc s"
    and get_put: "\<lbrakk>inv s; inside s p; inside s q\<rbrakk> \<Longrightarrow> get q (put p v s) = (if q = p then trunc s v else get q s)"
    and others_put: "\<lbrakk>inv s; inside s p\<rbrakk> \<Longrightarrow> others (put p v s) = others s"
begin

definition paint :: "((nat \<times> nat) \<times> 'p) list \<Rightarrow> 's \<Rightarrow> 's" where
  "paint ps s = fold (\<lambda>(p, v). put p v) ps s"

lemma paint_Nil [simp]: "paint [] s = s"
  by (simp add: paint_def)

lemma paint_Cons: "paint ((p, v) # ps) s = paint ps (put p v s)"
  by (simp add: paint_def)

lemma paint_append: "paint (ps @ qs) s = paint qs (paint ps s)"
  by (simp add: paint_def)

lemma paint_inside: "inside (paint ps s) q = inside s q"
proof (induction ps arbitrary: s)
  case (Cons pv ps)
  then show ?case by (cases pv) (simp add: paint_Cons inside_put)
qed simp

lemma paint_trunc: "trunc (paint ps s) = trunc s"
proof (induction ps arbitrary: s)
  case (Cons pv ps)
  then show ?case by (cases pv) (simp add: paint_Cons trunc_put)
qed simp

lemma paint_keeps:
  assumes "inv s" and "\<forall>p \<in> fst ` set ps. inside s p"
  shows "inv (paint ps s)" and "others (paint ps s) = others s"
proof -
  have "inv (paint ps s) \<and> others (paint ps s) = others s"
    using assms
  proof (induction ps arbitrary: s)
    case (Cons pv ps)
    obtain p v where pv: "pv = (p, v)" by fastforce
    with Cons.IH [of "put p v s"] Cons.prems show ?case by (auto simp: paint_Cons put_inv inside_put others_put)
  qed simp
  then show "inv (paint ps s)" "others (paint ps s) = others s" by simp_all
qed

text \<open>A pixel of the picture shows the last value put there.\<close>

lemma paint_get:
  assumes "inv s" and "\<forall>p \<in> fst ` set ps. inside s p" and "inside s q"
  shows "get q (paint ps s) = (case map_of (rev ps) q of Some v \<Rightarrow> trunc s v | None \<Rightarrow> get q s)"
  using assms(2)
proof (induction ps rule: rev_induct)
  case (snoc pv ps)
  obtain p v where pv: "pv = (p, v)" by fastforce
  have "inv (paint ps s)" by (rule paint_keeps) (use assms(1) snoc.prems in auto)
  with snoc pv assms(3) show ?case
    by (simp add: paint_append paint_Cons get_put paint_inside paint_trunc)
qed simp

lemma paint_uniform:
  assumes "inv s" and "\<forall>p \<in> set ps. inside s p" and "inside s q"
  shows "get q (paint (map (\<lambda>p. (p, v)) ps) s) = (if q \<in> set ps then trunc s v else get q s)"
proof -
  have "map_of (rev (map (\<lambda>p. (p, v)) ps)) q = (if q \<in> set ps then Some v else None)"
    by (induction ps rule: rev_induct) auto
  then show ?thesis using paint_get [of s "map (\<lambda>p. (p, v)) ps" q] assms by (auto simp: image_image)
qed

end

section \<open>The framebuffer as a surface\<close>

text \<open>
  A usable mode: 8, 16, 24 or 32 bits per pixel, scan lines long enough for their pixels and a framebuffer that
  does not reach over the end of the address space.
\<close>

abbreviation vbe_bytes :: "vbe_device \<Rightarrow> nat" where
  "vbe_bytes d \<equiv> unat (vd_bpp d div 8)"

definition vbe_wf :: "vbe_device \<Rightarrow> bool" where
  "vbe_wf d \<longleftrightarrow> vd_initialized d \<and> vd_bpp d \<in> {8, 16, 24, 32} \<and> framebuffer_addr d \<noteq> 0 \<and>
     unat (vd_width d) * vbe_bytes d \<le> unat (vd_pitch d) \<and>
     unat (framebuffer_addr d) + unat (vd_height d) * unat (vd_pitch d) < 2 ^ 32"

definition vbe_inside :: "vbe_device \<Rightarrow> nat \<times> nat \<Rightarrow> bool" where
  "vbe_inside d p \<longleftrightarrow> fst p < unat (vd_width d) \<and> snd p < unat (vd_height d)"

definition pixel_addr :: "vbe_device \<Rightarrow> nat \<times> nat \<Rightarrow> u32" where
  "pixel_addr d p = framebuffer_addr d + pixel_offset (of_nat (fst p)) (of_nat (snd p)) d"

definition vbe_pixel :: "nat \<times> nat \<Rightarrow> vbe_device \<Rightarrow> u32" where
  "vbe_pixel p d = load_le (vbe_bytes d) (pixel_addr d p) (vd_mem d)"

definition set_vbe_pixel :: "nat \<times> nat \<Rightarrow> u32 \<Rightarrow> vbe_device \<Rightarrow> vbe_device" where
  "set_vbe_pixel p v d = d\<lparr>vd_mem := store_le (vbe_bytes d) (pixel_addr d p) v (vd_mem d)\<rparr>"

definition vbe_depth :: "vbe_device \<Rightarrow> u32 \<Rightarrow> u32" where
  "vbe_depth d v = take_bit (8 * vbe_bytes d) v"

text \<open>What is not a pixel: the other fields, and the memory outside the framebuffer.\<close>

definition in_framebuffer :: "vbe_device \<Rightarrow> u32 \<Rightarrow> bool" where
  "in_framebuffer d a \<longleftrightarrow> unat (framebuffer_addr d) \<le> unat a \<and>
     unat a < unat (framebuffer_addr d) + unat (vd_height d) * unat (vd_pitch d)"

definition vbe_others :: "vbe_device \<Rightarrow> vbe_device" where
  "vbe_others d = d\<lparr>vd_mem := (\<lambda>a. if in_framebuffer d a then 0 else vd_mem d a)\<rparr>"

lemma vbe_bytes_cases:
  assumes "vbe_wf d"
  shows "1 \<le> vbe_bytes d" "vbe_bytes d \<le> 4" "pixel_bytes (vd_bpp d) = Some (vbe_bytes d)"
  using assms by (auto simp: vbe_wf_def pixel_bytes_def unat_div_distrib)

lemma pixel_row_end:
  assumes "vbe_wf d" "vbe_inside d (x, y)"
  shows "y * unat (vd_pitch d) + x * vbe_bytes d + vbe_bytes d \<le> unat (vd_height d) * unat (vd_pitch d)"
    and "x * vbe_bytes d + vbe_bytes d \<le> unat (vd_pitch d)"
proof -
  have "x * vbe_bytes d + vbe_bytes d \<le> unat (vd_width d) * vbe_bytes d"
    using assms(2) mult_le_mono1 [of "Suc x" "unat (vd_width d)" "vbe_bytes d"] by (simp add: vbe_inside_def)
  then show row: "x * vbe_bytes d + vbe_bytes d \<le> unat (vd_pitch d)" using assms(1) by (simp add: vbe_wf_def)
  have "y * unat (vd_pitch d) + unat (vd_pitch d) \<le> unat (vd_height d) * unat (vd_pitch d)"
    using assms(2) mult_le_mono1 [of "Suc y" "unat (vd_height d)" "unat (vd_pitch d)"] by (simp add: vbe_inside_def)
  with row show "y * unat (vd_pitch d) + x * vbe_bytes d + vbe_bytes d \<le> unat (vd_height d) * unat (vd_pitch d)" by linarith
qed

lemma unat_pixel_addr:
  assumes "vbe_wf d" "vbe_inside d (x, y)"
  shows "unat (pixel_addr d (x, y)) = unat (framebuffer_addr d) + (y * unat (vd_pitch d) + x * vbe_bytes d)"
proof -
  have x: "x < 65536" and y: "y < 65536"
    using assms(2) less_trans [OF _ unat_lt(2)] by (auto simp: vbe_inside_def)
  have xy: "unat (of_nat x :: u16) = x" "unat (of_nat y :: u16) = y" using x y by (simp_all add: unat_of_nat_small)
  have fb: "unat (framebuffer_addr d) + unat (vd_height d) * unat (vd_pitch d) < 2 ^ 32" using assms(1) by (simp add: vbe_wf_def)
  note bound = pixel_row_end(1) [OF assms]
  have row: "unat (ucast (of_nat y :: u16) * ucast (vd_pitch d) :: u32) = y * unat (vd_pitch d)"
    by (subst unat_mult_small) (use xy bound fb in simp_all)
  have col: "unat (ucast (of_nat x :: u16) * ucast (vd_bpp d div 8) :: u32) = x * vbe_bytes d"
    by (subst unat_mult_small) (use xy bound fb in simp_all)
  have off: "unat (pixel_offset (of_nat x) (of_nat y) d) = y * unat (vd_pitch d) + x * vbe_bytes d"
    unfolding pixel_offset_def by (subst unat_add_small) (use row col bound fb in simp_all)
  show ?thesis unfolding pixel_addr_def fst_conv snd_conv
    by (subst unat_add_small) (use off bound fb in simp_all)
qed

lemma apart_diff:
  assumes "unat a + n \<le> 2 ^ 32" "unat b + k \<le> 2 ^ 32" "unat a + n \<le> unat b \<or> unat b + k \<le> unat a" "i < k"
  shows "n \<le> unat (b + of_nat i - a :: u32)"
proof -
  have i: "i < 2 ^ 32" using assms(2,4) by simp
  have bi: "unat (b + of_nat i) = unat b + i"
    by (subst unat_add_small) (use assms(2,4) i in \<open>simp_all add: unat_of_nat_small\<close>)
  show ?thesis using assms by (auto simp: unat_sub_if_size word_size bi)
qed

lemma pixel_apart:
  assumes "vbe_wf d" "vbe_inside d p" "vbe_inside d q" "p \<noteq> q"
  shows "unat (pixel_addr d p) + vbe_bytes d \<le> unat (pixel_addr d q) \<or> unat (pixel_addr d q) + vbe_bytes d \<le> unat (pixel_addr d p)"
proof -
  obtain x y x' y' where pq: "p = (x, y)" "q = (x', y')" by (cases p, cases q) auto
  have row: "y * unat (vd_pitch d) + unat (vd_pitch d) \<le> y' * unat (vd_pitch d)" if "y < y'" for y y'
    using that mult_le_mono1 [of "Suc y" y' "unat (vd_pitch d)"] by simp
  have col: "x * vbe_bytes d + vbe_bytes d \<le> x' * vbe_bytes d" if "x < x'" for x x'
    using that mult_le_mono1 [of "Suc x" x' "vbe_bytes d"] by simp
  note a = unat_pixel_addr [OF assms(1,2) [unfolded pq]] unat_pixel_addr [OF assms(1,3) [unfolded pq]]
  note e = pixel_row_end(2) [OF assms(1,2) [unfolded pq]] pixel_row_end(2) [OF assms(1,3) [unfolded pq]]
  consider "y < y'" | "y' < y" | "y = y'" "x < x'" | "y = y'" "x' < x" using assms(4) pq by fastforce
  then show ?thesis
  proof cases
    case 1
    then show ?thesis using row [OF 1] a e pq by simp
  next
    case 2
    then show ?thesis using row [OF 2] a e pq by simp
  next
    case 3
    then show ?thesis using col [OF 3(2)] a pq by simp
  next
    case 4
    then show ?thesis using col [OF 4(2)] a pq by simp
  qed
qed

lemma pixel_end:
  assumes "vbe_wf d" "vbe_inside d p"
  shows "unat (pixel_addr d p) + vbe_bytes d \<le> unat (framebuffer_addr d) + unat (vd_height d) * unat (vd_pitch d)"
    and "unat (pixel_addr d p) + vbe_bytes d < 2 ^ 32" and "unat (framebuffer_addr d) \<le> unat (pixel_addr d p)"
proof -
  obtain x y where p: "p = (x, y)" by (cases p)
  show le: "unat (pixel_addr d p) + vbe_bytes d \<le> unat (framebuffer_addr d) + unat (vd_height d) * unat (vd_pitch d)"
    using pixel_row_end(1) [OF assms [unfolded p]] unat_pixel_addr [OF assms [unfolded p]] p by simp
  then show "unat (pixel_addr d p) + vbe_bytes d < 2 ^ 32" using assms(1) by (simp add: vbe_wf_def)
  show "unat (framebuffer_addr d) \<le> unat (pixel_addr d p)" using unat_pixel_addr [OF assms [unfolded p]] p by simp
qed

lemma set_vbe_pixel_simps [simp]:
  "vbe_wf (set_vbe_pixel p v d) = vbe_wf d" "vbe_inside (set_vbe_pixel p v d) = vbe_inside d"
  "vbe_depth (set_vbe_pixel p v d) = vbe_depth d" "pixel_addr (set_vbe_pixel p v d) = pixel_addr d"
  "vd_bpp (set_vbe_pixel p v d) = vd_bpp d" "vbe_color_to_pixel c (set_vbe_pixel p v d) = vbe_color_to_pixel c d"
  by (simp_all add: set_vbe_pixel_def vbe_wf_def vbe_inside_def vbe_depth_def pixel_addr_def pixel_offset_def
      vbe_color_to_pixel_def fun_eq_iff)

interpretation fb: pixel_surface vbe_wf vbe_inside vbe_pixel set_vbe_pixel vbe_depth vbe_others
proof
  fix d p q v
  assume wf: "vbe_wf d" and p: "vbe_inside d p"
  note e = pixel_end [OF wf p]
  show "vbe_others (set_vbe_pixel p v d) = vbe_others d"
  proof -
    have "store_le (vbe_bytes d) (pixel_addr d p) v (vd_mem d) a = vd_mem d a" if "\<not> in_framebuffer d a" for a
    proof (rule store_le_other)
      have "unat (pixel_addr d p) + vbe_bytes d \<le> unat a \<or> unat a + 1 \<le> unat (pixel_addr d p)"
        using that e unfolding in_framebuffer_def by linarith
      moreover have "unat a + 1 \<le> 2 ^ 32" using unsigned_less [of a, where ?'a = nat] by (simp add: Suc_le_eq)
      ultimately show "vbe_bytes d \<le> unat (a - pixel_addr d p)"
        using apart_diff [of "pixel_addr d p" "vbe_bytes d" a 1 0] e by simp
    qed
    then show ?thesis by (simp add: vbe_others_def set_vbe_pixel_def in_framebuffer_def fun_eq_iff)
  qed
  assume q: "vbe_inside d q"
  show "vbe_pixel q (set_vbe_pixel p v d) = (if q = p then vbe_depth d v else vbe_pixel q d)"
  proof (cases "q = p")
    case True
    then show ?thesis using vbe_bytes_cases(2) [OF wf] load_store_le
      by (simp add: vbe_pixel_def vbe_depth_def) (simp add: set_vbe_pixel_def)
  next
    case False
    have "load_le (vbe_bytes d) (pixel_addr d q) (store_le (vbe_bytes d) (pixel_addr d p) v (vd_mem d)) = vbe_pixel q d"
      unfolding vbe_pixel_def
    proof (rule load_le_cong, rule store_le_other)
      fix i assume "i < vbe_bytes d"
      then show "vbe_bytes d \<le> unat (pixel_addr d q + of_nat i - pixel_addr d p)"
        by (rule apart_diff [rotated 3]) (use pixel_apart [OF wf p q] False pixel_end [OF wf q] e in auto)
    qed
    then show ?thesis using False by (simp add: vbe_pixel_def) (simp add: set_vbe_pixel_def)
  qed
qed simp_all

section \<open>Drawing is painting\<close>

lemma vbe_put_pixel_eq:
  assumes "vbe_wf d"
  shows "vbe_put_pixel x y c d =
    (if vbe_inside d (unat x, unat y) then (KERNEL_OK, set_vbe_pixel (unat x, unat y) (vbe_color_to_pixel c d) d)
     else (KERNEL_INVALID_PARAM, d))"
  using assms vbe_bytes_cases(3) [OF assms]
  by (auto simp: vbe_put_pixel_def vbe_inside_def set_vbe_pixel_def pixel_addr_def vbe_get_framebuffer_def vbe_wf_def
      word_le_nat_alt not_less)

lemma for_loop_fold: "w < 2 ^ LENGTH('a) \<Longrightarrow> for_loop 0 (of_nat w :: 'a::len word) body s = fold (\<lambda>i. body (of_nat i)) [0..<w] s"
  by (simp add: for_loop_def unat_of_nat_small)

lemma ucast_of_nat_u32: "n < 65536 \<Longrightarrow> ucast (of_nat n :: u16) = (of_nat n :: u32)"
  by (simp add: word_unat_eq_iff unat_of_nat_small)

lemma pixel_addr_right:
  assumes "x + i < 65536"
  shows "pixel_addr d (x + i, y) = pixel_addr d (x, y) + of_nat i * ucast (vd_bpp d div 8)"
proof -
  have "ucast (of_nat (x + i) :: u16) = (of_nat x + of_nat i :: u32)" "ucast (of_nat x :: u16) = (of_nat x :: u32)"
    using assms ucast_of_nat_u32 [of "x + i"] ucast_of_nat_u32 [of x] by simp_all
  then show ?thesis by (simp only: pixel_addr_def pixel_offset_def fst_conv snd_conv) (simp add: algebra_simps)
qed

lemma pixel_addr_down:
  assumes "y + r < 65536"
  shows "pixel_addr d (x, y + r) = pixel_addr d (x, y) + of_nat r * ucast (vd_pitch d)"
proof -
  have "ucast (of_nat (y + r) :: u16) = (of_nat y + of_nat r :: u32)" "ucast (of_nat y :: u16) = (of_nat y :: u32)"
    using assms ucast_of_nat_u32 [of "y + r"] ucast_of_nat_u32 [of y] by simp_all
  then show ?thesis by (simp only: pixel_addr_def pixel_offset_def fst_conv snd_conv) (simp add: algebra_simps)
qed

text \<open>One row of a filled rectangle.\<close>

definition row_pixels :: "nat \<Rightarrow> nat \<Rightarrow> nat \<Rightarrow> (nat \<times> nat) list" where
  "row_pixels x y w = map (\<lambda>i. (x + i, y)) [0..<w]"

lemma fold_store_paint:
  assumes "\<And>i. i \<in> set is \<Longrightarrow> a i = pixel_addr d (f i)" and "n = vbe_bytes d"
  shows "d\<lparr>vd_mem := fold (\<lambda>i. store_le n (a i) v) is (vd_mem d)\<rparr> = fb.paint (map (\<lambda>i. (f i, v)) is) d"
  using assms(1)
proof (induction "is" rule: rev_induct)
  case (snoc i "is")
  let ?m = "fold (\<lambda>i. store_le n (a i) v) is (vd_mem d)"
  have "fb.paint (map (\<lambda>i. (f i, v)) (is @ [i])) d = set_vbe_pixel (f i) v (d\<lparr>vd_mem := ?m\<rparr>)"
    using snoc by (simp add: fb.paint_append fb.paint_Cons)
  also have "\<dots> = d\<lparr>vd_mem := store_le n (a i) v ?m\<rparr>"
    using snoc.prems assms(2) by (simp add: set_vbe_pixel_def pixel_addr_def pixel_offset_def)
  finally show ?case by simp
qed simp

lemma store_le_three: "store_le 3 a v m = m(a := ucast v, a + 1 := ucast (drop_bit 8 v), a + 2 := ucast (drop_bit 16 v))"
  by (simp add: numeral_eq_Suc add.assoc)

lemma vbe_fill_line_paint:
  assumes "vbe_wf d" "vbe_inside d (x, y)" and "x + unat w \<le> unat (vd_width d)" and "w \<noteq> 0"
  shows "\<exists>m. vbe_fill_line (vd_bpp d) (pixel_addr d (x, y)) w v (vd_mem d) = Some m \<and>
    d\<lparr>vd_mem := m\<rparr> = fb.paint (map (\<lambda>p. (p, v)) (row_pixels x y (unat w))) d"
proof -
  let ?a = "pixel_addr d (x, y)" and ?B = "vbe_bytes d"
  let ?f = "fold (\<lambda>i. store_le ?B (?a + of_nat i * of_nat ?B) v) [0..<unat w] (vd_mem d)"
  have w: "unat w < 2 ^ LENGTH(32)" "(ucast w :: u32) = of_nat (unat w)"
    using unat_lt(2) [of w] by (simp_all del: unat_lt)
  have "x + i < 65536" if "i < unat w" for i using that assms(3) unat_lt(2) [of "vd_width d"] by linarith
  then have "d\<lparr>vd_mem := ?f\<rparr> = fb.paint (map (\<lambda>i. ((x + i, y), v)) [0..<unat w]) d"
    by (intro fold_store_paint) (simp_all add: pixel_addr_right)
  then have paint: "d\<lparr>vd_mem := ?f\<rparr> = fb.paint (map (\<lambda>p. (p, v)) (row_pixels x y (unat w))) d"
    by (simp add: row_pixels_def comp_def)
  have a0: "?a \<noteq> 0"
  proof
    assume "?a = 0"
    then have "unat (framebuffer_addr d) = 0" using pixel_end(3) [OF assms(1,2)] by simp
    then show False using assms(1) by (simp add: vbe_wf_def unat_eq_zero)
  qed
  have w0: "(of_nat (unat w) :: u32) \<noteq> 0"
  proof
    assume "(of_nat (unat w) :: u32) = 0"
    then have "unat (ucast w :: u32) = 0" unfolding w(2) by simp
    then show False using assms(4) by (simp add: unat_eq_zero)
  qed
  have one: "store_le 1 (?a + of_nat i) v = (\<lambda>m. m(?a + of_nat i := ucast v))" for i by (simp add: fun_eq_iff)
  have "vbe_fill_line (vd_bpp d) ?a w v (vd_mem d) = Some ?f"
  proof -
    consider "vd_bpp d = 8" | "vd_bpp d = 16" | "vd_bpp d = 24" | "vd_bpp d = 32" using assms(1) by (auto simp: vbe_wf_def)
    then show ?thesis
    proof cases
      case 1
      then have "?B = 1" by simp
      then show ?thesis using 1 a0 w0 one
        by (simp add: vbe_fill_line_def memset_def w(2) for_loop_fold [OF w(1)] del: of_nat_unat)
    next
      case 2
      then have "?B = 2" by simp
      then show ?thesis using 2
        by (simp add: vbe_fill_line_def w(2) for_loop_fold [OF w(1)] mult.commute del: of_nat_unat)
    next
      case 3
      have "store_le 3 (?a + of_nat i * 3) v = (\<lambda>m. m(?a + of_nat i * 3 := ucast v, ?a + (of_nat i * 3 + 1) := ucast (drop_bit 8 v),
          ?a + (of_nat i * 3 + 2) := ucast (drop_bit 16 v)))" for i
        by (rule ext) (simp only: store_le_three add.assoc)
      then show ?thesis using 3
        by (simp add: vbe_fill_line_def w(2) for_loop_fold [OF w(1)] del: of_nat_unat)
    next
      case 4
      then have "?B = 4" by simp
      then show ?thesis using 4
        by (simp add: vbe_fill_line_def w(2) for_loop_fold [OF w(1)] mult.commute del: of_nat_unat)
    qed
  qed
  with paint show ?thesis by blast
qed

definition rect_pixels :: "nat \<Rightarrow> nat \<Rightarrow> nat \<Rightarrow> nat \<Rightarrow> (nat \<times> nat) list" where
  "rect_pixels x y w h = concat (map (\<lambda>r. row_pixels x (y + r) w) [0..<h])"

lemma rect_pixels_Suc: "rect_pixels x y w (Suc h) = rect_pixels x y w h @ row_pixels x (y + h) w"
  by (simp add: rect_pixels_def)

lemma set_row_pixels: "set (row_pixels x y w) = {x..<x + w} \<times> {y}"
proof -
  have "(\<lambda>i. (x + i, y)) ` {0..<w} = {x..<x + w} \<times> {y}"
  proof (intro subset_antisym subsetI)
    fix p assume "p \<in> {x..<x + w} \<times> {y}"
    then show "p \<in> (\<lambda>i. (x + i, y)) ` {0..<w}" by (intro image_eqI [of _ _ "fst p - x"]) auto
  qed auto
  then show ?thesis by (simp add: row_pixels_def)
qed

lemma set_rect_pixels: "set (rect_pixels x y w h) = {x..<x + w} \<times> {y..<y + h}"
proof (induction h)
  case (Suc h)
  then show ?case by (auto simp: rect_pixels_Suc set_row_pixels)
qed (simp add: rect_pixels_def)

abbreviation solid :: "u32 \<Rightarrow> (nat \<times> nat) list \<Rightarrow> ((nat \<times> nat) \<times> u32) list" where
  "solid v \<equiv> map (\<lambda>p. (p, v))"

lemma paint_fields [simp]:
  "vd_bpp (fb.paint ps d) = vd_bpp d" "vd_pitch (fb.paint ps d) = vd_pitch d" "vd_width (fb.paint ps d) = vd_width d"
  "vd_height (fb.paint ps d) = vd_height d" "framebuffer_addr (fb.paint ps d) = framebuffer_addr d"
  "vd_initialized (fb.paint ps d) = vd_initialized d" "vbe_inside (fb.paint ps d) = vbe_inside d"
  "pixel_addr (fb.paint ps d) = pixel_addr d" "vbe_color_to_pixel c (fb.paint ps d) = vbe_color_to_pixel c d"
  "vbe_depth (fb.paint ps d) = vbe_depth d" "vbe_wf (fb.paint ps d) = vbe_wf d"
proof -
  have "\<exists>m. fb.paint ps d = d\<lparr>vd_mem := m\<rparr>"
  proof (induction ps arbitrary: d)
    case (Cons pv ps)
    obtain p v where "pv = (p, v)" by fastforce
    then show ?case using Cons [of "set_vbe_pixel p v d"] by (auto simp: fb.paint_Cons) (auto simp: set_vbe_pixel_def)
  next
    case Nil
    then show ?case by (intro exI [of _ "vd_mem d"]) simp
  qed
  then obtain m where "fb.paint ps d = d\<lparr>vd_mem := m\<rparr>" by blast
  then show "vd_bpp (fb.paint ps d) = vd_bpp d" "vd_pitch (fb.paint ps d) = vd_pitch d" "vd_width (fb.paint ps d) = vd_width d"
    "vd_height (fb.paint ps d) = vd_height d" "framebuffer_addr (fb.paint ps d) = framebuffer_addr d"
    "vd_initialized (fb.paint ps d) = vd_initialized d" "vbe_inside (fb.paint ps d) = vbe_inside d"
    "pixel_addr (fb.paint ps d) = pixel_addr d" "vbe_color_to_pixel c (fb.paint ps d) = vbe_color_to_pixel c d"
    "vbe_depth (fb.paint ps d) = vbe_depth d" "vbe_wf (fb.paint ps d) = vbe_wf d"
    by (simp_all add: vbe_inside_def pixel_addr_def pixel_offset_def vbe_color_to_pixel_def vbe_depth_def vbe_wf_def fun_eq_iff)
qed

lemma vbe_fill_rect_paint:
  assumes wf: "vbe_wf d" and "unat x + unat w \<le> unat (vd_width d)" "unat y + unat h \<le> unat (vd_height d)" "w \<noteq> 0" "h \<noteq> 0"
  shows "vbe_fill_rect x y w h c d =
    (KERNEL_OK, fb.paint (solid (vbe_color_to_pixel c d) (rect_pixels (unat x) (unat y) (unat w) (unat h))) d)"
proof -
  let ?v = "vbe_color_to_pixel c d"
  let ?line = "framebuffer_addr d + (ucast y * ucast (vd_pitch d) + ucast x * ucast (vd_bpp d div 8))"
  let ?body = "\<lambda>row (st, e). if st \<noteq> KERNEL_OK then (st, e)
                   else case vbe_fill_line (vd_bpp e) (?line + ucast row * ucast (vd_pitch e)) w ?v (vd_mem e) of
                          Some m \<Rightarrow> (KERNEL_OK, e\<lparr>vd_mem := m\<rparr>)
                        | None \<Rightarrow> (KERNEL_NOT_IMPLEMENTED, e)"
  let ?P = "\<lambda>k p. p = (KERNEL_OK, fb.paint (solid ?v (rect_pixels (unat x) (unat y) (unat w) k)) d)"
  have wpos: "0 < unat w" using assms(4) by (simp add: unat_gt_0)
  have "?P (unat h) (for_loop 0 h ?body (KERNEL_OK, d))"
  proof (rule for_loop_counting [where P = ?P])
    show "?P (unat (0 :: u16)) (KERNEL_OK, d)" by (simp add: rect_pixels_def)
    fix r :: u16 and p
    assume p: "?P (unat r) p" and r: "r < h"
    let ?e = "fb.paint (solid ?v (rect_pixels (unat x) (unat y) (unat w) (unat r))) d"
    have rh: "unat r < unat h" using r by (simp add: word_less_nat_alt)
    then have ins: "vbe_inside ?e (unat x, unat y + unat r)" using assms wpos by (simp add: vbe_inside_def)
    have "unat y + unat r < 65536" using rh assms(3) unat_lt(2) [of "vd_height d"] by linarith
    then have addr: "?line + ucast r * ucast (vd_pitch d) = pixel_addr ?e (unat x, unat y + unat r)"
      by (simp add: pixel_addr_down) (simp add: pixel_addr_def pixel_offset_def)
    have "vbe_wf ?e" "unat x + unat w \<le> unat (vd_width ?e)" using assms by simp_all
    from vbe_fill_line_paint [OF this(1) ins this(2) assms(4), of ?v]
    obtain m where m: "vbe_fill_line (vd_bpp d) (pixel_addr ?e (unat x, unat y + unat r)) w ?v (vd_mem ?e) = Some m"
      "?e\<lparr>vd_mem := m\<rparr> = fb.paint (solid ?v (row_pixels (unat x) (unat y + unat r) (unat w))) ?e" by auto
    show "?P (Suc (unat r)) (?body r p)"
      unfolding p using m by (simp add: addr [simplified] rect_pixels_Suc fb.paint_append)
  qed simp
  then show ?thesis using assms by (simp add: vbe_fill_rect_def vbe_wf_def vbe_get_framebuffer_def Let_def)
qed

text \<open>A loop of \<^verbatim>\<open>vbe_put_pixel\<close> calls that stops at the first error draws the pixels before it.\<close>

lemma put_or_error_paint:
  assumes "vbe_wf d" and "\<And>i. i < unat n \<Longrightarrow> vbe_inside d (f i)"
    and "\<And>i. i < n \<Longrightarrow> unat (xs i) = fst (f (unat i)) \<and> unat (ys i) = snd (f (unat i))"
  shows "for_loop 0 n (\<lambda>i. put_or_error (xs i) (ys i) c) (KERNEL_OK, d) =
    (KERNEL_OK, fb.paint (solid (vbe_color_to_pixel c d) (map f [0..<unat n])) d)"
proof -
  let ?P = "\<lambda>k p. p = (KERNEL_OK, fb.paint (solid (vbe_color_to_pixel c d) (map f [0..<k])) d)"
  show ?thesis
  proof (rule for_loop_counting [where P = ?P])
    fix i and p
    assume p: "?P (unat i) p" and i: "i < n"
    then have "vbe_inside d (unat (xs i), unat (ys i))" using assms(2) [of "unat i"] assms(3) [OF i]
      by (simp add: word_less_nat_alt)
    then show "?P (Suc (unat i)) (put_or_error (xs i) (ys i) c p)"
      unfolding p using assms(1) assms(3) [OF i]
      by (simp add: put_or_error_def vbe_put_pixel_eq fb.paint_append fb.paint_Cons)
  qed simp_all
qed

section \<open>Moving is painting\<close>

lemma load_le_byte: "i < n \<Longrightarrow> n \<le> 4 \<Longrightarrow> ucast (drop_bit (8 * i) (load_le n a m)) = m (a + of_nat i)"
proof (induction n arbitrary: a i)
  case (Suc n)
  show ?case
  proof (cases i)
    case 0
    have "ucast (ucast x OR push_bit 8 y :: u32) = x" for x :: u8 and y
      by (auto intro!: bit_word_eqI simp: bit_simps)
    then show ?thesis using 0 by simp
  next
    case (Suc j)
    have "\<not> bit x (8 + k)" for x :: u8 and k using bit_imp_le_length [of x "8 + k"] by auto
    moreover have "j \<le> 2" using Suc Suc.prems by simp
    ultimately have "ucast (drop_bit (8 * Suc j) (ucast x OR push_bit 8 y :: u32)) = (ucast (drop_bit (8 * j) y) :: u8)" for x :: u8 and y
      by (auto intro!: bit_word_eqI simp: bit_simps add.assoc)
    then show ?thesis using Suc.IH [of j "a + 1"] Suc.prems Suc by (simp add: add.assoc)
  qed
qed simp

lemma copy_pixel_eq:
  assumes wf: "vbe_wf d" and p: "vbe_inside d p" and q: "vbe_inside d q"
    and dst: "dst + of_nat (vbe_bytes d) * ucast col = pixel_addr d p"
    and src: "src + of_nat (vbe_bytes d) * ucast col = pixel_addr d q"
  obtains m where "copy_pixel (vd_bpp d) dst src col (vd_mem d) = Some m"
    and "d\<lparr>vd_mem := m\<rparr> = set_vbe_pixel p (vbe_pixel q d) d"
proof -
  let ?m = "vd_mem d" and ?a = "pixel_addr d p" and ?b = "pixel_addr d q" and ?B = "vbe_bytes d"
  have "copy_pixel (vd_bpp d) dst src col ?m = Some (store_le ?B ?a (load_le ?B ?b ?m) ?m)"
  proof -
    consider "vd_bpp d = 8" | "vd_bpp d = 16" | "vd_bpp d = 24" | "vd_bpp d = 32" using wf by (auto simp: vbe_wf_def)
    then show ?thesis
    proof cases
      case 1
      have "ucast (ucast (?m ?b) :: u32) = ?m ?b" by (rule bit_word_eqI) (simp add: bit_simps)
      with 1 show ?thesis using dst src by (simp add: copy_pixel_def)
    next
      case 2
      then show ?thesis using dst src by (simp add: copy_pixel_def)
    next
      case 4
      then show ?thesis using dst src by (simp add: copy_pixel_def)
    next
      case 3
      then have B: "?B = 3" by simp
      have a: "dst + (ucast col * 3 + k) = ?a + k" "src + (ucast col * 3 + k) = ?b + k" for k
        using dst src B by (simp_all add: algebra_simps)
      have byte: "ucast (load_le 3 ?b ?m) = ?m ?b" "ucast (drop_bit 8 (load_le 3 ?b ?m)) = ?m (?b + 1)"
          "ucast (drop_bit 16 (load_le 3 ?b ?m)) = ?m (?b + 2)"
        using load_le_byte [of 0 3 ?b ?m] load_le_byte [of 1 3 ?b ?m] load_le_byte [of 2 3 ?b ?m] by simp_all
      have "?b + 1 \<noteq> ?a \<and> ?b + 2 \<noteq> ?a \<and> ?b + 2 \<noteq> ?a + 1" if "p \<noteq> q"
      proof -
        note e = pixel_end(2) [OF wf p] pixel_end(2) [OF wf q]
        have "unat (?b + 1) = unat ?b + 1" "unat (?b + 2) = unat ?b + 2" "unat (?a + 1) = unat ?a + 1"
          using e B by (simp_all add: unat_add_small)
        with pixel_apart [OF wf p q that] B show ?thesis unfolding word_unat_eq_iff by linarith
      qed
      moreover have "?a = ?b" if "p = q" using that by simp
      ultimately show ?thesis
        unfolding B store_le_three byte using 3
        by (cases "p = q") (auto simp: copy_pixel_def Let_def a a(1) [of 0, simplified] a(2) [of 0, simplified] fun_upd_def fun_eq_iff)
    qed
  qed
  then show ?thesis using that by (simp add: set_vbe_pixel_def vbe_pixel_def)
qed

lemma vbe_pixel_depth: "vbe_wf d \<Longrightarrow> vbe_depth d (vbe_pixel p d) = vbe_pixel p d"
  using vbe_bytes_cases(2) by (simp add: vbe_depth_def vbe_pixel_def take_bit_load_le)

text \<open>The pixels of the destination that the loops of \<^verbatim>\<open>vbe_blit\<close> have written before row \<open>r\<close>, column \<open>k\<close>.\<close>

definition blit_written :: "nat \<Rightarrow> nat \<Rightarrow> nat \<Rightarrow> nat \<Rightarrow> nat \<Rightarrow> nat \<times> nat \<Rightarrow> bool" where
  "blit_written dx dy w r k p \<longleftrightarrow> dx \<le> fst p \<and> fst p < dx + w \<and> dy \<le> snd p \<and>
     (snd p < dy + r \<or> snd p = dy + r \<and> fst p < dx + k)"

definition blit_inv :: "nat \<Rightarrow> nat \<Rightarrow> nat \<Rightarrow> nat \<Rightarrow> nat \<Rightarrow> vbe_device \<Rightarrow> nat \<Rightarrow> nat \<Rightarrow> vbe_device \<Rightarrow> bool" where
  "blit_inv dx dy sx sy w d r k e \<longleftrightarrow> (\<exists>ps. e = fb.paint ps d \<and> (\<forall>p \<in> fst ` set ps. vbe_inside d p)) \<and>
     (dy < sy \<or> dy = sy \<and> dx \<le> sx \<longrightarrow> (\<forall>p. vbe_inside d p \<longrightarrow>
        vbe_pixel p e = (if blit_written dx dy w r k p then vbe_pixel (fst p - dx + sx, snd p - dy + sy) d else vbe_pixel p d)))"

lemma blit_inv_put:
  assumes wf: "vbe_wf d" and e: "blit_inv dx dy sx sy w d r k e" and k: "k < w"
    and p: "vbe_inside d (dx + k, dy + r)" and q: "vbe_inside d (sx + k, sy + r)"
  shows "blit_inv dx dy sx sy w d r (Suc k) (set_vbe_pixel (dx + k, dy + r) (vbe_pixel (sx + k, sy + r) e) e)"
proof -
  let ?p = "(dx + k, dy + r)" and ?q = "(sx + k, sy + r)"
  obtain ps where ps: "e = fb.paint ps d" "\<forall>p \<in> fst ` set ps. vbe_inside d p"
    using e by (auto simp: blit_inv_def)
  have e': "set_vbe_pixel ?p v e = fb.paint (ps @ [(?p, v)]) d" for v by (simp add: ps fb.paint_append fb.paint_Cons)
  have "\<exists>ps. set_vbe_pixel ?p (vbe_pixel ?q e) e = fb.paint ps d \<and> (\<forall>p \<in> fst ` set ps. vbe_inside d p)"
    using ps(2) p e' by (intro exI [of _ "ps @ [(?p, vbe_pixel ?q e)]"]) auto
  moreover have "vbe_pixel s (set_vbe_pixel ?p (vbe_pixel ?q e) e) =
      (if blit_written dx dy w r (Suc k) s then vbe_pixel (fst s - dx + sx, snd s - dy + sy) d else vbe_pixel s d)"
    if ord: "dy < sy \<or> dy = sy \<and> dx \<le> sx" and s: "vbe_inside d s" for s
  proof -
    have px: "vbe_pixel s e = (if blit_written dx dy w r k s then vbe_pixel (fst s - dx + sx, snd s - dy + sy) d else vbe_pixel s d)"
      if "vbe_inside d s" for s using e ord that unfolding blit_inv_def by blast
    have "\<not> blit_written dx dy w r k ?q" using ord by (auto simp: blit_written_def)
    then have "vbe_pixel ?q e = vbe_pixel ?q d" using px [OF q] by simp
    moreover have "vbe_wf e" "vbe_inside e ?p" "vbe_inside e s" using wf p s ps by simp_all
    ultimately have "vbe_pixel s (set_vbe_pixel ?p (vbe_pixel ?q e) e) = (if s = ?p then vbe_pixel ?q d else vbe_pixel s e)"
      using fb.get_put [of e ?p s] vbe_pixel_depth [OF wf, of ?q] ps by simp
    also have "\<dots> = (if blit_written dx dy w r (Suc k) s then vbe_pixel (fst s - dx + sx, snd s - dy + sy) d else vbe_pixel s d)"
      using px [OF s] k by (cases s) (auto simp: blit_written_def add.commute)
    finally show ?thesis .
  qed
  ultimately show ?thesis by (simp add: blit_inv_def)
qed

lemma blit_inv_next: "blit_inv dx dy sx sy w d r w e \<Longrightarrow> blit_inv dx dy sx sy w d (Suc r) 0 e"
proof -
  have "blit_written dx dy w r w p = blit_written dx dy w (Suc r) 0 p" for p by (auto simp: blit_written_def)
  then show "blit_inv dx dy sx sy w d r w e \<Longrightarrow> blit_inv dx dy sx sy w d (Suc r) 0 e" by (simp add: blit_inv_def)
qed

lemma vbe_blit_paint:
  assumes wf: "vbe_wf d"
    and b: "unat dx + unat w \<le> unat (vd_width d)" "unat dy + unat h \<le> unat (vd_height d)"
      "unat sx + unat w \<le> unat (vd_width d)" "unat sy + unat h \<le> unat (vd_height d)"
  obtains e where "vbe_blit dx dy sx sy w h d = (KERNEL_OK, e)"
    and "blit_inv (unat dx) (unat dy) (unat sx) (unat sy) (unat w) d (unat h) 0 e"
proof -
  let ?I = "blit_inv (unat dx) (unat dy) (unat sx) (unat sy) (unat w) d"
  let ?src = "\<lambda>row. framebuffer_addr d + (ucast sy + ucast row) * ucast (vd_pitch d) + ucast sx * ucast (vd_bpp d div 8)"
  let ?dst = "\<lambda>row. framebuffer_addr d + (ucast dy + ucast row) * ucast (vd_pitch d) + ucast dx * ucast (vd_bpp d div 8)"
  let ?body = "\<lambda>row col (st, e). if st \<noteq> KERNEL_OK then (st, e)
                     else case copy_pixel (vd_bpp e) (?dst row) (?src row) col (vd_mem e) of
                            Some m \<Rightarrow> (KERNEL_OK, e\<lparr>vd_mem := m\<rparr>)
                          | None \<Rightarrow> (KERNEL_NOT_IMPLEMENTED, e)"
  let ?P = "\<lambda>r k p. \<exists>e. p = (KERNEL_OK, e) \<and> ?I r k e"
  have addr: "framebuffer_addr d + (ucast y + ucast r) * ucast (vd_pitch d) + ucast x * ucast (vd_bpp d div 8) +
      of_nat (vbe_bytes d) * ucast c = pixel_addr d (unat x + unat c, unat y + unat r)"
    if "unat x + unat c < unat (vd_width d)" "unat y + unat r < unat (vd_height d)" for x c y r :: u16
  proof -
    have "unat x + unat c < 65536" "unat y + unat r < 65536"
      using that unat_lt(2) [of "vd_width d"] unat_lt(2) [of "vd_height d"] by linarith+
    then have "pixel_addr d (unat x + unat c, unat y + unat r) =
        pixel_addr d (unat x, unat y) + of_nat (unat r) * ucast (vd_pitch d) + of_nat (unat c) * ucast (vd_bpp d div 8)"
      by (simp add: pixel_addr_right pixel_addr_down)
    then show ?thesis by (simp add: pixel_addr_def pixel_offset_def algebra_simps)
  qed
  have row: "?P (Suc (unat r)) 0 (for_loop 0 w (?body r) p)" if p: "?P (unat r) 0 p" and r: "r < h" for r p
  proof -
    have rh: "unat r < unat h" using r by (simp add: word_less_nat_alt)
    have "?P (unat r) (unat w) (for_loop 0 w (?body r) p)"
    proof (rule for_loop_counting [where P = "?P (unat r)"])
      fix c :: u16 and p'
      assume "?P (unat r) (unat c) p'" and c: "c < w"
      then obtain e where e: "p' = (KERNEL_OK, e)" "?I (unat r) (unat c) e" by blast
      then obtain ps where ps: "e = fb.paint ps d" by (auto simp: blit_inv_def)
      have cw: "unat c < unat w" using c by (simp add: word_less_nat_alt)
      let ?p = "(unat dx + unat c, unat dy + unat r)" and ?q = "(unat sx + unat c, unat sy + unat r)"
      have ins: "vbe_inside d ?p" "vbe_inside d ?q" using b rh cw by (simp_all add: vbe_inside_def)
      have "vbe_wf e" "vbe_inside e ?p" "vbe_inside e ?q" using wf ins ps by simp_all
      moreover have "?dst r + of_nat (vbe_bytes e) * ucast c = pixel_addr e ?p" "?src r + of_nat (vbe_bytes e) * ucast c = pixel_addr e ?q"
        using addr [of dx c dy r] addr [of sx c sy r] b rh cw ps by simp_all
      ultimately obtain m where m: "copy_pixel (vd_bpp e) (?dst r) (?src r) c (vd_mem e) = Some m"
        "e\<lparr>vd_mem := m\<rparr> = set_vbe_pixel ?p (vbe_pixel ?q e) e" by (rule copy_pixel_eq)
      show "?P (unat r) (Suc (unat c)) (?body r c p')"
        using m e(1) blit_inv_put [OF wf e(2) cw ins] by auto
    qed (use p in simp_all)
    then show ?thesis using blit_inv_next by blast
  qed
  have "?P (unat h) 0 (for_loop 0 h (\<lambda>r. for_loop 0 w (?body r)) (KERNEL_OK, d))"
  proof (rule for_loop_counting [where P = "\<lambda>r. ?P r 0"])
    show "?P (unat (0 :: u16)) 0 (KERNEL_OK, d)"
      by (auto simp: blit_inv_def blit_written_def intro!: exI [of _ "[]"])
    show "?P (Suc (unat i)) 0 (for_loop 0 w (?body i) st)" if "?P (unat i) 0 st" "i < h" for i st
      using row [OF that] .
  qed simp
  then obtain e where "for_loop 0 h (\<lambda>r. for_loop 0 w (?body r)) (KERNEL_OK, d) = (KERNEL_OK, e)" "?I (unat h) 0 e" by blast
  then show ?thesis using that [of e] wf b
    by (simp add: vbe_blit_def vbe_wf_def vbe_get_framebuffer_def Let_def)
qed

section \<open>Confinement\<close>

text \<open>A drawing that keeps the mode and every byte outside the framebuffer.\<close>

definition confined :: "vbe_device \<Rightarrow> vbe_device \<Rightarrow> bool" where
  "confined d e \<longleftrightarrow> vbe_wf e \<and> vbe_others e = vbe_others d"

lemma confined_refl: "vbe_wf d \<Longrightarrow> confined d d"
  by (simp add: confined_def)

lemma confined_trans: "confined d e \<Longrightarrow> confined e f \<Longrightarrow> confined d f"
  by (simp add: confined_def)

lemma confined_wf: "confined d e \<Longrightarrow> vbe_wf e"
  by (simp add: confined_def)

lemma confined_mem:
  assumes "confined d e"
  shows "in_framebuffer e = in_framebuffer d" "\<not> in_framebuffer d a \<Longrightarrow> vd_mem e a = vd_mem d a"
proof -
  have eq: "vbe_others e = vbe_others d" using assms by (simp add: confined_def)
  have "framebuffer_addr (vbe_others e) = framebuffer_addr (vbe_others d)" "vd_height (vbe_others e) = vd_height (vbe_others d)"
    "vd_pitch (vbe_others e) = vd_pitch (vbe_others d)" using eq by simp_all
  then show fb: "in_framebuffer e = in_framebuffer d" by (simp add: vbe_others_def in_framebuffer_def fun_eq_iff)
  have "vd_mem (vbe_others e) a = vd_mem (vbe_others d) a" using eq by simp
  then show "\<not> in_framebuffer d a \<Longrightarrow> vd_mem e a = vd_mem d a" by (simp add: vbe_others_def fb)
qed

lemma confined_paint: "vbe_wf d \<Longrightarrow> \<forall>p \<in> fst ` set ps. vbe_inside d p \<Longrightarrow> confined d (fb.paint ps d)"
  by (simp add: confined_def fb.paint_keeps del: paint_fields(11))

lemma confined_put_pixel: "vbe_wf d \<Longrightarrow> confined d (snd (vbe_put_pixel x y c d))"
  by (simp add: vbe_put_pixel_eq confined_def fb.others_put)

lemma confined_put_or_error:
  assumes "vbe_wf (snd p)" shows "confined (snd p) (snd (put_or_error x y c p))"
  using confined_put_pixel [OF assms, of x y c] confined_refl [OF assms] by (auto simp: put_or_error_def split: prod.splits)

lemma confined_loop:
  assumes "vbe_wf (snd p)" and "\<And>i q. vbe_wf (snd q) \<Longrightarrow> confined (snd q) (snd (body i q))"
  shows "confined (snd p) (snd (for_loop s n body p))"
  by (rule for_loop_invariant [where P = "\<lambda>q. confined (snd p) (snd q)"])
    (use assms confined_refl confined_trans confined_wf in blast)+

lemma confined_lines:
  assumes "vbe_wf d"
  shows "confined d (snd (vbe_draw_horizontal_line x y w c d))" "confined d (snd (vbe_draw_vertical_line x y h c d))"
proof -
  have "confined d (snd (for_loop 0 n (\<lambda>i. put_or_error (xs i) (ys i) c) (KERNEL_OK, d)))" for n :: u16 and xs ys
    using confined_loop [of "(KERNEL_OK, d)" "\<lambda>i. put_or_error (xs i) (ys i) c" 0 n] confined_put_or_error assms by simp
  then show "confined d (snd (vbe_draw_horizontal_line x y w c d))" "confined d (snd (vbe_draw_vertical_line x y h c d))"
    by (simp_all add: vbe_draw_horizontal_line_def vbe_draw_vertical_line_def)
qed

lemma confined_rect:
  assumes "vbe_wf d" shows "confined d (snd (vbe_draw_rect x y w h c d))"
  using assms unfolding vbe_draw_rect_def
  by (auto split: prod.splits) (metis confined_lines confined_trans confined_wf snd_conv)+

lemma confined_fill_rect: "vbe_wf d \<Longrightarrow> confined d (snd (vbe_fill_rect x y w h c d))"
proof (cases "unat x + unat w \<le> unat (vd_width d) \<and> unat y + unat h \<le> unat (vd_height d) \<and> w \<noteq> 0 \<and> h \<noteq> 0")
  case True
  assume wf: "vbe_wf d"
  have "\<forall>p \<in> set (rect_pixels (unat x) (unat y) (unat w) (unat h)). vbe_inside d p"
    using True by (auto simp: set_rect_pixels vbe_inside_def)
  then show ?thesis using vbe_fill_rect_paint [OF wf] True wf
    by (simp del: paint_fields) (intro confined_paint, auto)
next
  case False
  assume "vbe_wf d"
  with False show ?thesis by (auto simp: vbe_fill_rect_def confined_def)
qed

lemma confined_blit: "vbe_wf d \<Longrightarrow> confined d (snd (vbe_blit dx dy sx sy w h d))"
proof (cases "unat dx + unat w \<le> unat (vd_width d) \<and> unat dy + unat h \<le> unat (vd_height d) \<and>
    unat sx + unat w \<le> unat (vd_width d) \<and> unat sy + unat h \<le> unat (vd_height d)")
  case True
  assume wf: "vbe_wf d"
  obtain e where "vbe_blit dx dy sx sy w h d = (KERNEL_OK, e)"
    "blit_inv (unat dx) (unat dy) (unat sx) (unat sy) (unat w) d (unat h) 0 e"
    using vbe_blit_paint [OF wf, of dx w dy h sx sy] True by blast
  then show ?thesis using confined_paint [OF wf] by (auto simp: blit_inv_def)
next
  case False
  assume "vbe_wf d"
  with False show ?thesis by (auto simp: vbe_blit_def confined_def)
qed

lemma confined_circle: "vbe_wf d \<Longrightarrow> confined d (circle_from cx cy c x y err d)"
proof (induction cx cy c x y err d rule: circle_from.induct)
  case (1 cx cy c x y err d)
  have fold: "confined d (fold (put_ignoring c) ps d)" if "vbe_wf d" for ps d
    using that
  proof (induction ps arbitrary: d)
    case (Cons p ps)
    then have "confined d (put_ignoring c p d)" by (simp add: put_ignoring_def confined_put_pixel)
    with Cons.IH show ?case using confined_trans confined_wf by fastforce
  qed (simp add: confined_refl)
  show ?case
  proof (cases "x \<ge> y")
    case True
    define e where "e = fold (put_ignoring c) [(cx + x, cy + y), (cx + y, cy + x), (cx - y, cy + x), (cx - x, cy + y),
                     (cx - x, cy - y), (cx - y, cy - x), (cx + y, cy - x), (cx + x, cy - y)] d"
    have e: "confined d e" unfolding e_def by (rule fold [OF "1.prems"])
    have unfold: "circle_from cx cy c x y err d =
        (if 2 * (err + (1 + 2 * (y + 1)) - x) + 1 > 0 then circle_from cx cy c (x - 1) (y + 1) (err + (1 + 2 * (y + 1)) + (1 - 2 * (x - 1))) e
         else circle_from cx cy c x (y + 1) (err + (1 + 2 * (y + 1))) e)"
      using True by (subst circle_from.simps) (simp only: Let_def e_def [symmetric] if_True)
    show ?thesis
    proof (cases "2 * (err + (1 + 2 * (y + 1)) - x) + 1 > 0")
      case pos: True
      have "confined e (circle_from cx cy c (x - 1) (y + 1) (err + (1 + 2 * (y + 1)) + (1 - 2 * (x - 1))) e)"
        by (rule "1.IH"(1) [OF True e_def refl refl pos confined_wf [OF e]])
      then show ?thesis unfolding unfold using pos confined_trans [OF e] by (simp only: if_True)
    next
      case neg: False
      have "confined e (circle_from cx cy c x (y + 1) (err + (1 + 2 * (y + 1))) e)"
        by (rule "1.IH"(2) [OF True e_def refl refl neg confined_wf [OF e]])
      then show ?thesis unfolding unfold using neg confined_trans [OF e] by (simp only: if_False)
    qed
  next
    case False
    then show ?thesis using confined_refl [OF "1.prems"] by (simp add: circle_from.simps)
  qed
qed

section \<open>Lines\<close>

text \<open>
  The ideal of a line: after \<open>k\<close> steps along the longer side \<open>M\<close>, the other coordinate has moved by
  \<open>m * k / M\<close>, rounded to the nearest integer.
\<close>

definition line_minor :: "int \<Rightarrow> int \<Rightarrow> int \<Rightarrow> int" where
  "line_minor M m k = (m * k + (M - 1 - M div 2)) div M"

definition line_rem :: "int \<Rightarrow> int \<Rightarrow> int \<Rightarrow> int" where
  "line_rem M m k = (m * k + (M - 1 - M div 2)) mod M"

lemma line_minor_rem: "M * line_minor M m k = m * k + (M - 1 - M div 2) - line_rem M m k"
  by (simp add: line_minor_def line_rem_def minus_mod_eq_mult_div [symmetric])

lemma line_rem_bounds: "0 < M \<Longrightarrow> 0 \<le> line_rem M m k \<and> line_rem M m k < M"
  by (simp add: line_rem_def)

lemma line_minor_ends: "0 < M \<Longrightarrow> line_minor M m 0 = 0" "0 < M \<Longrightarrow> line_minor M m M = m"
proof -
  assume M: "0 < M"
  then have "(M - 1 - M div 2) div M = 0" by (intro div_pos_pos_trivial) linarith+
  with M show "line_minor M m 0 = 0" "line_minor M m M = m" by (simp_all add: line_minor_def)
qed

lemma line_minor_step:
  assumes "0 < M" "0 \<le> m" "m \<le> M"
  shows "line_minor M m (k + 1) = line_minor M m k + (if M \<le> line_rem M m k + m then 1 else 0)"
proof -
  let ?j = "line_minor M m k + (if M \<le> line_rem M m k + m then 1 else 0)"
  have "m * (k + 1) + (M - 1 - M div 2) = ?j * M + (line_rem M m k + m - (if M \<le> line_rem M m k + m then M else 0))"
    using line_minor_rem [of M m k] by (auto simp: algebra_simps)
  moreover have "0 \<le> line_rem M m k + m - (if M \<le> line_rem M m k + m then M else 0)"
    "line_rem M m k + m - (if M \<le> line_rem M m k + m then M else 0) < M"
    using line_rem_bounds [OF assms(1), of m k] assms by auto
  ultimately show ?thesis unfolding line_minor_def [of M m "k + 1"] using assms(1)
    by (simp only: div_mult_self3 div_pos_pos_trivial)
qed

lemma line_minor_bounds:
  assumes "0 < M" "0 \<le> m" "0 \<le> k" "k \<le> M"
  shows "0 \<le> line_minor M m k" "line_minor M m k \<le> m"
proof -
  have "m * 0 \<le> m * k" "m * k \<le> m * M" using assms by (simp_all add: mult_left_mono del: mult_zero_right)
  then have "line_minor M m 0 \<le> line_minor M m k" "line_minor M m k \<le> line_minor M m M"
    unfolding line_minor_def using assms(1) by (intro zdiv_mono1, linarith, linarith)+
  with line_minor_ends [OF assms(1)] show "0 \<le> line_minor M m k" "line_minor M m k \<le> m" by simp_all
qed

lemma line_minor_near: "0 < M \<Longrightarrow> 2 * \<bar>M * line_minor M m k - m * k\<bar> \<le> M"
proof -
  assume "0 < M"
  from line_rem_bounds [OF this, of m k] have "0 \<le> line_rem M m k" "line_rem M m k < M" by simp_all
  moreover have "2 * (M div 2) \<le> M" "M \<le> 2 * (M div 2) + 1" by linarith+
  moreover define z where "z = M * line_minor M m k - m * k"
  moreover from this have "z = M - 1 - M div 2 - line_rem M m k" using line_minor_rem [of M m k] by simp
  ultimately have "2 * \<bar>z\<bar> \<le> M" by linarith
  then show ?thesis by (simp add: z_def)
qed

lemma unat_word_of_int: "0 \<le> z \<Longrightarrow> z < 65536 \<Longrightarrow> unat (word_of_int z :: u16) = nat z"
proof -
  assume z: "0 \<le> z" "z < 65536"
  then have "(word_of_int z :: u16) = of_nat (nat z)" by simp
  then show ?thesis using z by (simp only:) (subst unat_of_nat_small, simp_all)
qed

lemma word_of_int_eq: "0 \<le> z \<Longrightarrow> z < 65536 \<Longrightarrow> 0 \<le> z' \<Longrightarrow> z' < 65536 \<Longrightarrow> (word_of_int z :: u16) = word_of_int z' \<longleftrightarrow> z = z'"
  by (simp add: word_unat_eq_iff unat_word_of_int eq_nat_nat_iff)

text \<open>The points of a walk of \<open>n\<close> steps inside the screen.\<close>

definition on_screen :: "vbe_device \<Rightarrow> int \<times> int \<Rightarrow> bool" where
  "on_screen d p \<longleftrightarrow> 0 \<le> fst p \<and> 0 \<le> snd p \<and> fst p < uint (vd_width d) \<and> snd p < uint (vd_height d)"

abbreviation to_pixel :: "int \<times> int \<Rightarrow> nat \<times> nat" where
  "to_pixel p \<equiv> (nat (fst p), nat (snd p))"

lemma on_screen_words:
  assumes "on_screen d p"
  shows "unat (word_of_int (fst p) :: u16) = nat (fst p)" "unat (word_of_int (snd p) :: u16) = nat (snd p)"
    "vbe_inside d (to_pixel p)" "0 \<le> fst p" "0 \<le> snd p" "fst p < 65536" "snd p < 65536"
proof -
  have b: "uint (vd_width d) < 65536" "uint (vd_height d) < 65536"
    using uint_lt2p [of "vd_width d"] uint_lt2p [of "vd_height d"] by simp_all
  with assms show w: "0 \<le> fst p" "0 \<le> snd p" "fst p < 65536" "snd p < 65536" unfolding on_screen_def by linarith+
  then show "unat (word_of_int (fst p) :: u16) = nat (fst p)" "unat (word_of_int (snd p) :: u16) = nat (snd p)"
    by (simp_all add: unat_word_of_int)
  show "vbe_inside d (to_pixel p)" using assms
    by (simp only: vbe_inside_def on_screen_def unat_eq_nat_uint nat_less_eq_zless fst_conv snd_conv simp_thms)
qed

text \<open>The walk, whatever the rule that moves it: \<open>P k\<close> is the point and \<open>E k\<close> the error after \<open>k\<close> steps.\<close>

lemma line_from_walk:
  fixes P :: "int \<Rightarrow> int \<times> int"
  assumes "vbe_wf d" and scr: "\<And>k. 0 \<le> k \<Longrightarrow> k \<le> n \<Longrightarrow> on_screen d (P k)"
    and step: "\<And>k. 0 \<le> k \<Longrightarrow> k < n \<Longrightarrow> P k \<noteq> P n \<and>
       fst (P (k + 1)) = fst (P k) + (if E k > - a then sx else 0) \<and>
       snd (P (k + 1)) = snd (P k) + (if E k < b then sy else 0) \<and>
       E (k + 1) = E k - (if E k > - a then b else 0) + (if E k < b then a else 0)"
    and "0 \<le> i" "i \<le> n"
  shows "line_from a b sx sy (word_of_int (fst (P n))) (word_of_int (snd (P n))) c
      (word_of_int (fst (P i))) (word_of_int (snd (P i))) (E i) d =
    Some (KERNEL_OK, fb.paint (solid (vbe_color_to_pixel c d) (map (\<lambda>k. to_pixel (P k)) [i..n])) d)"
  using assms(1,2,4,5)
proof (induction "nat (n - i)" arbitrary: i d)
  case 0
  then have i: "i = n" by simp
  note w = on_screen_words [OF "0.prems"(2) [OF "0.prems"(3,4)]]
  show ?case using w "0.prems"(1) i
    by (subst line_from.simps) (simp add: vbe_put_pixel_eq fb.paint_Cons)
next
  case (Suc r)
  have lt: "i < n" and r: "r = nat (n - (i + 1))" using Suc.hyps(2) by linarith+
  note w = on_screen_words [OF Suc.prems(2) [OF Suc.prems(3,4)]]
  have "0 \<le> n" using Suc.prems(3,4) by linarith
  note wn = on_screen_words [OF Suc.prems(2) [OF this order_refl]]
  define e where "e = set_vbe_pixel (to_pixel (P i)) (vbe_color_to_pixel c d) d"
  have put: "vbe_put_pixel (word_of_int (fst (P i))) (word_of_int (snd (P i))) c d = (KERNEL_OK, e)"
    using w Suc.prems(1) by (simp add: vbe_put_pixel_eq e_def)
  have "\<not> (fst (P i) = fst (P n) \<and> snd (P i) = snd (P n))" using step [OF Suc.prems(3) lt] by (auto simp: prod_eq_iff)
  then have ne: "\<not> ((word_of_int (fst (P i)) :: u16) = word_of_int (fst (P n)) \<and> (word_of_int (snd (P i)) :: u16) = word_of_int (snd (P n)))"
    using w wn by (simp add: word_of_int_eq)
  have fx: "word_of_int (fst (P i)) + word_of_int sx = (word_of_int (fst (P i) + sx) :: u16)"
    "word_of_int (snd (P i)) + word_of_int sy = (word_of_int (snd (P i) + sy) :: u16)" by simp_all
  have "line_from a b sx sy (word_of_int (fst (P n))) (word_of_int (snd (P n))) c
      (word_of_int (fst (P i))) (word_of_int (snd (P i))) (E i) d =
    line_from a b sx sy (word_of_int (fst (P n))) (word_of_int (snd (P n))) c
      (word_of_int (fst (P (i + 1)))) (word_of_int (snd (P (i + 1)))) (E (i + 1)) e"
    using step [OF Suc.prems(3) lt]
    by (subst line_from.simps) (simp only: put ne fx prod.case Let_def if_False not_True_eq_False refl simp_thms, simp)
  also have "\<dots> = Some (KERNEL_OK, fb.paint (solid (vbe_color_to_pixel c e) (map (\<lambda>k. to_pixel (P k)) [i + 1..n])) e)"
    by (rule Suc.hyps(1) [OF r]) (use Suc.prems lt in \<open>simp_all add: e_def on_screen_def set_vbe_pixel_def vbe_wf_def\<close>)
  finally show ?case using lt by (simp add: upto_rec1 [of i n] fb.paint_Cons e_def)
qed

lemma between:
  assumes "0 \<le> u" "u < (w :: int)" "0 \<le> u + s * n" "u + s * n < w" "s = 1 \<or> s = - 1" "0 \<le> k" "k \<le> n"
  shows "0 \<le> u + s * k" "u + s * k < w"
  using assms by auto

text \<open>The points of a line of direction \<open>(sx, sy)\<close> and extent \<open>(a, b)\<close> from \<open>(x, y)\<close>.\<close>

definition line_point :: "int \<Rightarrow> int \<Rightarrow> int \<Rightarrow> int \<Rightarrow> int \<Rightarrow> int \<Rightarrow> int \<Rightarrow> int \<times> int" where
  "line_point x y sx sy a b k =
     (if a > b then (x + sx * k, y + sy * line_minor a b k) else (x + sx * line_minor b a k, y + sy * k))"

definition line_err :: "int \<Rightarrow> int \<Rightarrow> int \<Rightarrow> int" where
  "line_err a b k = (if a > b then a div 2 - b * k + a * line_minor a b k else - (b div 2) - b * line_minor b a k + a * k)"

lemma line_err_eq:
  "a > b \<Longrightarrow> line_err a b k = a - 1 - line_rem a b k"
  "\<not> a > b \<Longrightarrow> line_err a b k = line_rem b a k - (b - 1)"
  using line_minor_rem [of a b k] line_minor_rem [of b a k] by (simp_all add: line_err_def)

lemma line_walk_step:
  assumes "0 \<le> a" "0 \<le> b" "0 \<le> k" "k < max a b" "sx = 1 \<or> sx = - 1" "sy = 1 \<or> sy = - 1"
  shows "line_point x y sx sy a b k \<noteq> line_point x y sx sy a b (max a b) \<and>
    fst (line_point x y sx sy a b (k + 1)) = fst (line_point x y sx sy a b k) + (if line_err a b k > - a then sx else 0) \<and>
    snd (line_point x y sx sy a b (k + 1)) = snd (line_point x y sx sy a b k) + (if line_err a b k < b then sy else 0) \<and>
    line_err a b (k + 1) = line_err a b k - (if line_err a b k > - a then b else 0) + (if line_err a b k < b then a else 0)"
proof (cases "a > b")
  case True
  then have a: "0 < a" using assms(2) by simp
  have rem: "0 \<le> line_rem a b k" "line_rem a b k < a" using line_rem_bounds [OF a] by simp_all
  have e: "line_err a b k > - a" "line_err a b k < b \<longleftrightarrow> a \<le> line_rem a b k + b" using line_err_eq(1) [OF True] rem by auto
  have "line_minor a b (k + 1) = line_minor a b k + (if a \<le> line_rem a b k + b then 1 else 0)"
    by (rule line_minor_step) (use a assms True in auto)
  moreover have "line_point x y sx sy a b k \<noteq> line_point x y sx sy a b (max a b)"
    using True assms(4,5) by (auto simp: line_point_def)
  moreover have "line_err a b k = a div 2 - b * k + a * line_minor a b k"
    "line_err a b (k + 1) = a div 2 - b * (k + 1) + a * line_minor a b (k + 1)" using True by (simp_all add: line_err_def)
  ultimately show ?thesis using True e
    by (cases "a \<le> line_rem a b k + b") (simp_all add: line_point_def distrib_left)
next
  case False
  then have b: "0 < b" using assms by auto
  have rem: "0 \<le> line_rem b a k" "line_rem b a k < b" using line_rem_bounds [OF b] by simp_all
  have e: "line_err a b k < b" "line_err a b k > - a \<longleftrightarrow> b \<le> line_rem b a k + a" using line_err_eq(2) [OF False] rem by auto
  have "line_minor b a (k + 1) = line_minor b a k + (if b \<le> line_rem b a k + a then 1 else 0)"
    by (rule line_minor_step) (use b assms False in auto)
  moreover have "line_point x y sx sy a b k \<noteq> line_point x y sx sy a b (max a b)"
    using False assms(4,6) by (auto simp: line_point_def max_def)
  moreover have "line_err a b k = - (b div 2) - b * line_minor b a k + a * k"
    "line_err a b (k + 1) = - (b div 2) - b * line_minor b a (k + 1) + a * (k + 1)" using False by (simp_all add: line_err_def)
  ultimately show ?thesis using False e
    by (cases "b \<le> line_rem b a k + a") (simp_all add: line_point_def distrib_left)
qed

lemma line_point_ends:
  assumes "0 \<le> a" "0 \<le> b"
  shows "line_point x y sx sy a b 0 = (x, y)" "line_point x y sx sy a b (max a b) = (x + sx * a, y + sy * b)"
    "line_err a b 0 = (if a > b then a div 2 else - (b div 2))"
proof -
  consider "a > b" "0 < a" | "\<not> a > b" "0 < b" | "a = 0" "b = 0" using assms by linarith
  then have "line_point x y sx sy a b 0 = (x, y) \<and> line_point x y sx sy a b (max a b) = (x + sx * a, y + sy * b) \<and>
    line_err a b 0 = (if a > b then a div 2 else - (b div 2))"
  proof cases
    case 3
    then show ?thesis by (simp add: line_point_def line_err_def line_minor_def)
  qed (simp_all add: line_point_def line_err_def line_minor_ends max_def)
  then show "line_point x y sx sy a b 0 = (x, y)" "line_point x y sx sy a b (max a b) = (x + sx * a, y + sy * b)"
    "line_err a b 0 = (if a > b then a div 2 else - (b div 2))" by simp_all
qed

lemma line_point_near:
  assumes "0 \<le> a" "0 \<le> b" "0 \<le> k" "k \<le> max a b" "sx = 1 \<or> sx = - 1" "sy = 1 \<or> sy = - 1"
    and "line_point x y sx sy a b k = (px, py)"
  shows "max \<bar>px - x\<bar> \<bar>py - y\<bar> = k" "2 * \<bar>sx * a * (py - y) - sy * b * (px - x)\<bar> \<le> max a b"
    "\<exists>i. 0 \<le> i \<and> i \<le> a \<and> px = x + sx * i" "\<exists>j. 0 \<le> j \<and> j \<le> b \<and> py = y + sy * j"
proof -
  have s: "\<bar>sx * z\<bar> = \<bar>z\<bar>" "\<bar>sy * z\<bar> = \<bar>z\<bar>" for z using assms(5,6) by auto
  have near: "2 * \<bar>sx * a * (sy * j) - sy * b * (sx * i)\<bar> = 2 * \<bar>a * j - b * i\<bar>" for i j
  proof -
    have "sx * a * (sy * j) - sy * b * (sx * i) = sx * (sy * (a * j - b * i))" by (simp add: algebra_simps)
    then show ?thesis by (simp only: s)
  qed
  consider "a > b" "0 < a" | "\<not> a > b" "0 < b" | "a = 0" "b = 0" using assms by linarith
  then have "max \<bar>px - x\<bar> \<bar>py - y\<bar> = k \<and> 2 * \<bar>sx * a * (py - y) - sy * b * (px - x)\<bar> \<le> max a b \<and>
    (\<exists>i. 0 \<le> i \<and> i \<le> a \<and> px = x + sx * i) \<and> (\<exists>j. 0 \<le> j \<and> j \<le> b \<and> py = y + sy * j)"
  proof cases
    case 1
    have k: "k \<le> a" using 1 assms(4) by simp
    have m: "0 \<le> line_minor a b k" "line_minor a b k \<le> b" by (rule line_minor_bounds [OF 1(2) assms(2,3) k])+
    have "line_minor a b k \<le> k"
    proof (rule ccontr)
      assume "\<not> line_minor a b k \<le> k"
      then have "a * (k + 1) \<le> a * line_minor a b k" using 1 by (intro mult_left_mono) auto
      moreover have "b * k \<le> a * k" using 1 assms(3) by (intro mult_right_mono) auto
      ultimately show False using line_minor_near [OF 1(2), of b k] 1(2) by (simp add: algebra_simps abs_if split: if_splits)
    qed
    moreover have "px = x + sx * k" "py = y + sy * line_minor a b k" using assms(7) 1 by (simp_all add: line_point_def)
    ultimately show ?thesis using 1 m k near [of "line_minor a b k" k] line_minor_near [OF 1(2), of b k] assms(3)
      by (intro conjI exI [of _ k] exI [of _ "line_minor a b k"]) (simp_all add: s)
  next
    case 2
    have k: "k \<le> b" using 2 assms(4) by simp
    have m: "0 \<le> line_minor b a k" "line_minor b a k \<le> a" by (rule line_minor_bounds [OF 2(2) assms(1,3) k])+
    have "line_minor b a k \<le> k"
    proof (rule ccontr)
      assume "\<not> line_minor b a k \<le> k"
      then have "b * (k + 1) \<le> b * line_minor b a k" using 2 by (intro mult_left_mono) auto
      moreover have "a * k \<le> b * k" using 2 assms(3) by (intro mult_right_mono) auto
      ultimately show False using line_minor_near [OF 2(2), of a k] 2(2) by (simp add: algebra_simps abs_if split: if_splits)
    qed
    moreover have "px = x + sx * line_minor b a k" "py = y + sy * k" using assms(7) 2 by (simp_all add: line_point_def)
    moreover have "2 * \<bar>a * k - b * line_minor b a k\<bar> \<le> b" using line_minor_near [OF 2(2), of a k] by (simp add: abs_minus_commute)
    ultimately show ?thesis using 2 m k near [of k "line_minor b a k"] assms(3)
      by (intro conjI exI [of _ k] exI [of _ "line_minor b a k"]) (simp_all add: s)
  next
    case 3
    then show ?thesis using assms by (auto simp: line_point_def line_minor_def)
  qed
  then show "max \<bar>px - x\<bar> \<bar>py - y\<bar> = k" "2 * \<bar>sx * a * (py - y) - sy * b * (px - x)\<bar> \<le> max a b"
    "\<exists>i. 0 \<le> i \<and> i \<le> a \<and> px = x + sx * i" "\<exists>j. 0 \<le> j \<and> j \<le> b \<and> py = y + sy * j" by simp_all
qed

lemma confined_line_from:
  assumes "line_from a b sx sy x2 y2 c x1 y1 err d = Some r" "vbe_wf d"
  shows "confined d (snd r)"
proof -
  have "vbe_wf d \<longrightarrow> confined d (snd r)"
  proof (rule line_from.raw_induct [where P = "\<lambda>a b sx sy x2 y2 c x1 y1 err d r. vbe_wf d \<longrightarrow> confined d (snd r)", OF _ assms(1)])
    fix f and a b sx sy :: int and x2 y2 :: u16 and c and x1 y1 :: u16 and err d and r :: "kernel_status \<times> vbe_device"
    assume IH: "\<And>a b sx sy x2 y2 c x1 y1 err d r. f a b sx sy x2 y2 c x1 y1 err d = Some r \<Longrightarrow> vbe_wf d \<longrightarrow> confined d (snd r)"
      and f: "(case vbe_put_pixel x1 y1 c d of (st, d) \<Rightarrow>
        if st \<noteq> KERNEL_OK then Some (KERNEL_ERROR, d)
        else if x1 = x2 \<and> y1 = y2 then Some (KERNEL_OK, d)
        else let e2 = err;
                 (err, x1) = (if e2 > - a then (err - b, x1 + word_of_int sx) else (err, x1));
                 (err, y1) = (if e2 < b then (err + a, y1 + word_of_int sy) else (err, y1))
             in f a b sx sy x2 y2 c x1 y1 err d) = Some r"
    show "vbe_wf d \<longrightarrow> confined d (snd r)"
    proof
      assume wf: "vbe_wf d"
      obtain st e where put: "vbe_put_pixel x1 y1 c d = (st, e)" by fastforce
      then have e: "confined d e" using confined_put_pixel [OF wf, of x1 y1 c] by simp
      have "snd r = e \<or> (\<exists>x1 y1 err. f a b sx sy x2 y2 c x1 y1 err e = Some r)"
        using f unfolding put by (auto simp: Let_def split: if_splits prod.splits)
      then show "confined d (snd r)" using IH e confined_wf [OF e] confined_trans by blast
    qed
  qed
  with assms(2) show ?thesis by blast
qed

section \<open>Properties\<close>

text \<open>A 4 by 4 screen of 32-bit pixels.\<close>

definition vbe_small :: vbe_device where
  "vbe_small = snd (vbe_init (Some (push_bit 11 1, 0x118,
     \<lparr>mode_attributes = 0x80, bytes_per_scanline = 16, x_resolution = 4, y_resolution = 4, bits_per_pixel = 32,
      mi_memory_model = 6, mi_red_mask_size = 8, mi_red_field_position = 16, mi_green_mask_size = 8,
      mi_green_field_position = 8, mi_blue_mask_size = 8, mi_blue_field_position = 0, rsvd_field_position = 24,
      phys_base_ptr = 0x10000, lin_bytes_per_scan_line = 0, lin_red_mask_size = 0, lin_red_field_position = 0,
      lin_green_mask_size = 0, lin_green_field_position = 0, lin_blue_mask_size = 0, lin_blue_field_position = 0\<rparr>))
     \<lparr>vd_initialized = False, linear_supported = False, current_mode = 0, framebuffer_addr = 0, framebuffer_size = 0,
      vd_width = 0, vd_height = 0, vd_bpp = 0, vd_pitch = 0, vd_memory_model = 0, red_mask_size = 0, red_field_position = 0,
      green_mask_size = 0, green_field_position = 0, blue_mask_size = 0, blue_field_position = 0,
      mode_info = undefined, vd_mem = (\<lambda>_. 0)\<rparr>)"

lemma vbe_small_fields: "vd_width vbe_small = 4" "vd_height vbe_small = 4" "vd_bpp vbe_small = 32" "vd_pitch vbe_small = 16"
  "framebuffer_addr vbe_small = 0x10000" "vd_initialized vbe_small"
  "red_mask_size vbe_small = 8" "green_mask_size vbe_small = 8" "blue_mask_size vbe_small = 8"
  "red_field_position vbe_small = 16" "green_field_position vbe_small = 8" "blue_field_position vbe_small = 0"
  by (simp_all add: vbe_small_def vbe_init_def Let_def)

lemma vbe_small_wf: "vbe_wf vbe_small" "vbe_inside vbe_small (x, y) \<longleftrightarrow> x < 4 \<and> y < 4"
  by (simp_all add: vbe_wf_def vbe_inside_def vbe_small_fields)

text \<open>Property C27. \<^verbatim>\<open>vbe_draw_line\<close> between two points of the screen returns \<^verbatim>\<open>KERNEL_OK\<close>. It draws one pixel per step
  along the longer side, the first and the last being the two points, all of them on the screen, and each at most half
  a pixel away from the ideal line (measured along the shorter side).
\<close>

theorem vbe_draw_line_nearest:
  assumes "vbe_wf d" "vbe_inside d (unat x1, unat y1)" "vbe_inside d (unat x2, unat y2)"
  shows "\<exists>ps. vbe_draw_line x1 y1 x2 y2 c d = Some (KERNEL_OK, fb.paint (solid (vbe_color_to_pixel c d) ps) d) \<and>
    (\<forall>p \<in> set ps. vbe_inside d p) \<and> hd ps = (unat x1, unat y1) \<and> last ps = (unat x2, unat y2) \<and>
    length ps = nat (max \<bar>uint x2 - uint x1\<bar> \<bar>uint y2 - uint y1\<bar>) + 1 \<and>
    (\<forall>k < length ps. \<forall>px py. ps ! k = (px, py) \<longrightarrow>
       max \<bar>int px - uint x1\<bar> \<bar>int py - uint y1\<bar> = int k \<and>
       2 * \<bar>(uint x2 - uint x1) * (int py - uint y1) - (uint y2 - uint y1) * (int px - uint x1)\<bar>
         \<le> max \<bar>uint x2 - uint x1\<bar> \<bar>uint y2 - uint y1\<bar>)"
proof -
  define a b where "a = \<bar>uint x2 - uint x1\<bar>" and "b = \<bar>uint y2 - uint y1\<bar>"
  define sx sy :: int where "sx = (if x1 < x2 then 1 else - 1)" and "sy = (if y1 < y2 then 1 else - 1)"
  have ab: "0 \<le> a" "0 \<le> b" by (simp_all add: a_def b_def)
  have s: "sx = 1 \<or> sx = - 1" "sy = 1 \<or> sy = - 1" by (simp_all add: sx_def sy_def)
  have d: "uint x2 - uint x1 = sx * a" "uint y2 - uint y1 = sy * b"
    by (auto simp: sx_def sy_def a_def b_def word_less_def)
  define P where "P = line_point (uint x1) (uint y1) sx sy a b"
  have ends: "P 0 = (uint x1, uint y1)" "P (max a b) = (uint x2, uint y2)"
    using line_point_ends(1,2) [OF ab, of "uint x1" "uint y1" sx sy] d by (simp_all add: P_def)
  have scr: "on_screen d (P k)" if k: "0 \<le> k" "k \<le> max a b" for k
  proof -
    obtain px py where p: "P k = (px, py)" by fastforce
    obtain i j where ij: "0 \<le> i" "i \<le> a" "px = uint x1 + sx * i" "0 \<le> j" "j \<le> b" "py = uint y1 + sy * j"
      using line_point_near(3,4) [OF ab k s, of "uint x1" "uint y1" px py] p by (auto simp: P_def)
    have "uint x1 < uint (vd_width d)" "uint x2 < uint (vd_width d)" "uint y1 < uint (vd_height d)" "uint y2 < uint (vd_height d)"
      using assms(2,3) by (simp_all add: vbe_inside_def word_less_nat_alt [symmetric] word_less_def)
    moreover have "0 \<le> uint x1 + sx * a" "0 \<le> uint y1 + sy * b" unfolding d [symmetric] by simp_all
    ultimately show ?thesis using between [of "uint x1" "uint (vd_width d)" sx a i] between [of "uint y1" "uint (vd_height d)" sy b j]
      d s ij p by (simp add: on_screen_def)
  qed
  let ?ps = "map (\<lambda>k. to_pixel (P k)) [0..max a b]"
  have words: "(word_of_int (uint x) :: u16) = x" for x :: u16 by simp
  have "line_from a b sx sy (word_of_int (fst (P (max a b)))) (word_of_int (snd (P (max a b)))) c
      (word_of_int (fst (P 0))) (word_of_int (snd (P 0))) (line_err a b 0) d =
      Some (KERNEL_OK, fb.paint (solid (vbe_color_to_pixel c d) ?ps) d)"
    by (rule line_from_walk [OF assms(1)]) (use scr line_walk_step [OF ab _ _ s] ab in \<open>auto simp: P_def\<close>)
  moreover have "(if z \<ge> 0 then z else - z) = \<bar>z\<bar>" for z :: int by simp
  then have unfold: "vbe_draw_line x1 y1 x2 y2 c d =
      line_from a b sx sy x2 y2 c x1 y1 (if a > b then a div 2 else - (b div 2)) d"
    by (simp only: vbe_draw_line_def Let_def a_def b_def sx_def sy_def)
  ultimately have draw: "vbe_draw_line x1 y1 x2 y2 c d = Some (KERNEL_OK, fb.paint (solid (vbe_color_to_pixel c d) ?ps) d)"
    unfolding ends fst_conv snd_conv words line_point_ends(3) [OF ab] by (simp only: unfold)
  have nth: "[0..max a b] ! k = int k" "[0..max a b] \<noteq> []" "length [0..max a b] = nat (max a b) + 1"
    if "k < length [0..max a b]" for k
    using that ab by (auto simp: nth_upto)
  have near: "max \<bar>int px - uint x1\<bar> \<bar>int py - uint y1\<bar> = int k \<and>
      2 * \<bar>sx * a * (int py - uint y1) - sy * b * (int px - uint x1)\<bar> \<le> max a b"
    if k: "k < length ?ps" and p: "?ps ! k = (px, py)" for k px py
  proof -
    have kb: "0 \<le> int k" "int k \<le> max a b" using k ab by auto
    have "to_pixel (P (int k)) = (px, py)" using p k nth(1) by simp
    moreover have "0 \<le> fst (P (int k))" "0 \<le> snd (P (int k))" using scr [OF kb] by (simp_all add: on_screen_def)
    ultimately have "P (int k) = (int px, int py)" by (auto simp: prod_eq_iff)
    with line_point_near(1,2) [OF ab kb s, of "uint x1" "uint y1"] show ?thesis by (simp add: P_def)
  qed
  have len: "0 < length [0..max a b]" using ab by simp
  have n: "0 \<le> max a b" using ab by simp
  have "hd ?ps = to_pixel (P 0)" using upto_rec1 [OF n] by simp
  moreover have "last ?ps = to_pixel (P (max a b))" using upto_rec2 [OF n] by simp
  ultimately have "hd ?ps = (unat x1, unat y1)" "last ?ps = (unat x2, unat y2)"
    by (simp_all only: ends fst_conv snd_conv unat_eq_nat_uint)
  moreover have "\<forall>p \<in> set ?ps. vbe_inside d p" using scr on_screen_words(3) by auto
  moreover have "length ?ps = nat (max a b) + 1" using ab by simp
  ultimately show ?thesis unfolding a_def [symmetric] b_def [symmetric]
    using draw near [folded d] by (intro exI [of _ ?ps]) blast
qed

theorem vbe_draw_line_nearest_witness:
  "\<exists>ps. vbe_draw_line 0 0 3 1 VBE_COLOR_WHITE vbe_small =
       Some (KERNEL_OK, fb.paint (solid (vbe_color_to_pixel VBE_COLOR_WHITE vbe_small) ps) vbe_small) \<and>
     hd ps = (0, 0) \<and> last ps = (3, 1) \<and> length ps = 4"
proof -
  have "vbe_inside vbe_small (unat (0 :: u16), unat (0 :: u16))" "vbe_inside vbe_small (unat (3 :: u16), unat (1 :: u16))"
    by (simp_all add: vbe_small_wf)
  from vbe_draw_line_nearest [OF vbe_small_wf(1) this, of VBE_COLOR_WHITE] show ?thesis by auto
qed



text \<open>Property C29. \<^verbatim>\<open>vbe_blit\<close> moves a rectangle correctly when the destination is not below or to the right of the source
  in the same rows, as in scrolling up: afterwards the destination holds what the source held before, overlap
  included, every other pixel is as before, and nothing outside the framebuffer has changed.
\<close>

theorem vbe_blit_moves:
  assumes "vbe_wf d"
    and "unat dx + unat w \<le> unat (vd_width d)" "unat dy + unat h \<le> unat (vd_height d)"
      "unat sx + unat w \<le> unat (vd_width d)" "unat sy + unat h \<le> unat (vd_height d)"
    and "dy < sy \<or> dy = sy \<and> dx \<le> sx"
  shows "\<exists>d'. vbe_blit dx dy sx sy w h d = (KERNEL_OK, d') \<and> vbe_others d' = vbe_others d \<and>
    (\<forall>i < unat w. \<forall>j < unat h. vbe_pixel (unat dx + i, unat dy + j) d' = vbe_pixel (unat sx + i, unat sy + j) d) \<and>
    (\<forall>p. vbe_inside d p \<longrightarrow> p \<notin> {unat dx..<unat dx + unat w} \<times> {unat dy..<unat dy + unat h} \<longrightarrow> vbe_pixel p d' = vbe_pixel p d)"
proof -
  obtain e where e: "vbe_blit dx dy sx sy w h d = (KERNEL_OK, e)"
    "blit_inv (unat dx) (unat dy) (unat sx) (unat sy) (unat w) d (unat h) 0 e"
    by (rule vbe_blit_paint [OF assms(1-5)])
  have ord: "unat dy < unat sy \<or> unat dy = unat sy \<and> unat dx \<le> unat sx"
    using assms(6) by (auto simp: word_less_nat_alt word_le_nat_alt)
  have px: "vbe_pixel p e = (if blit_written (unat dx) (unat dy) (unat w) (unat h) 0 p
      then vbe_pixel (fst p - unat dx + unat sx, snd p - unat dy + unat sy) d else vbe_pixel p d)" if "vbe_inside d p" for p
    using e(2) ord that unfolding blit_inv_def by blast
  have "vbe_pixel (unat dx + i, unat dy + j) e = vbe_pixel (unat sx + i, unat sy + j) d" if "i < unat w" "j < unat h" for i j
    using px [of "(unat dx + i, unat dy + j)"] that assms(2,3) by (simp add: vbe_inside_def blit_written_def add.commute)
  moreover have "vbe_pixel p e = vbe_pixel p d"
    if "vbe_inside d p" "p \<notin> {unat dx..<unat dx + unat w} \<times> {unat dy..<unat dy + unat h}" for p
    using px [OF that(1)] that(2) by (cases p) (auto simp: blit_written_def)
  moreover have "vbe_others e = vbe_others d" using confined_blit [OF assms(1), of dx dy sx sy w h] e(1) by (simp add: confined_def)
  ultimately show ?thesis using e(1) by blast
qed

theorem vbe_blit_moves_witness:
  "\<exists>d'. vbe_blit 0 0 0 1 4 3 vbe_small = (KERNEL_OK, d') \<and> vbe_pixel (1, 0) d' = vbe_pixel (1, 1) vbe_small"
proof -
  have "unat (0 :: u16) + unat (4 :: u16) \<le> unat (vd_width vbe_small)" "unat (0 :: u16) + unat (3 :: u16) \<le> unat (vd_height vbe_small)"
    "unat (0 :: u16) + unat (4 :: u16) \<le> unat (vd_width vbe_small)" "unat (1 :: u16) + unat (3 :: u16) \<le> unat (vd_height vbe_small)"
    "(0 :: u16) < 1 \<or> (0 :: u16) = 1 \<and> (0 :: u16) \<le> 0" by (simp_all add: vbe_small_fields)
  from vbe_blit_moves [OF vbe_small_wf(1) this] obtain d' where d': "vbe_blit 0 0 0 1 4 3 vbe_small = (KERNEL_OK, d')"
    "\<forall>i < unat (4 :: u16). \<forall>j < unat (3 :: u16). vbe_pixel (unat (0 :: u16) + i, unat (0 :: u16) + j) d' =
       vbe_pixel (unat (0 :: u16) + i, unat (1 :: u16) + j) vbe_small" by blast
  have "vbe_pixel (1, 0) d' = vbe_pixel (1, 1) vbe_small" using d'(2) [rule_format, of 1 0] by simp
  with d'(1) show ?thesis by blast
qed

text \<open>Sequences of drawing calls.\<close>

inductive vbe_draws :: "vbe_device \<Rightarrow> vbe_device \<Rightarrow> bool" where
  draw_none: "vbe_draws d d"
| draw_pixel: "vbe_draws d e \<Longrightarrow> vbe_draws d (snd (vbe_put_pixel x y c e))"
| draw_fill: "vbe_draws d e \<Longrightarrow> vbe_draws d (snd (vbe_fill_rect x y w h c e))"
| draw_clear: "vbe_draws d e \<Longrightarrow> vbe_draws d (snd (vbe_clear_screen c e))"
| draw_rect: "vbe_draws d e \<Longrightarrow> vbe_draws d (snd (vbe_draw_rect x y w h c e))"
| draw_horizontal: "vbe_draws d e \<Longrightarrow> vbe_draws d (snd (vbe_draw_horizontal_line x y w c e))"
| draw_vertical: "vbe_draws d e \<Longrightarrow> vbe_draws d (snd (vbe_draw_vertical_line x y h c e))"
| draw_line: "vbe_draws d e \<Longrightarrow> vbe_draw_line x1 y1 x2 y2 c e = Some (st, f) \<Longrightarrow> vbe_draws d f"
| draw_circle: "vbe_draws d e \<Longrightarrow> vbe_draws d (snd (vbe_draw_circle x y r c e))"
| draw_blit: "vbe_draws d e \<Longrightarrow> vbe_draws d (snd (vbe_blit dx dy sx sy w h e))"

text \<open>Property C26. No drawing call writes outside the framebuffer: after any sequence of the driver's drawing calls with
  any arguments, in range or not, the mode is unchanged and so is every byte of memory outside the
  \<open>height * pitch\<close> bytes of the framebuffer.
\<close>

theorem vbe_drawing_confined:
  assumes "vbe_draws d e" and "vbe_wf d"
  shows "vbe_wf e \<and> vbe_others e = vbe_others d \<and> (\<not> in_framebuffer d a \<longrightarrow> vd_mem e a = vd_mem d a)"
proof -
  have conf: "confined d e"
    using assms
  proof (induction rule: vbe_draws.induct)
    case (draw_none d)
    then show ?case by (rule confined_refl)
  next
    case (draw_line d e x1 y1 x2 y2 c st f)
    then have e: "confined d e" by simp
    have "confined e f" using draw_line.hyps(2) confined_line_from [OF _ confined_wf [OF e]]
      unfolding vbe_draw_line_def Let_def by fastforce
    then show ?case using e confined_trans by blast
  qed (metis confined_trans confined_wf confined_put_pixel confined_fill_rect vbe_clear_screen_def confined_rect
      confined_lines confined_blit vbe_draw_circle_def confined_circle snd_conv confined_refl)+
  have "\<not> in_framebuffer d a \<longrightarrow> vd_mem e a = vd_mem d a" using confined_mem(2) [OF conf] by blast
  with conf show ?thesis by (simp add: confined_def)
qed

theorem vbe_drawing_confined_witness:
  "vd_mem (snd (vbe_draw_circle 2 2 9 VBE_COLOR_BLUE (snd (vbe_fill_rect 1 1 2 2 VBE_COLOR_RED vbe_small)))) 0x5000 = vd_mem vbe_small 0x5000"
proof -
  have "vbe_draws vbe_small (snd (vbe_draw_circle 2 2 9 VBE_COLOR_BLUE (snd (vbe_fill_rect 1 1 2 2 VBE_COLOR_RED vbe_small))))"
    by (intro draw_circle draw_fill draw_none)
  from vbe_drawing_confined [OF this vbe_small_wf(1), of "0x5000"] show ?thesis
    by (simp add: in_framebuffer_def vbe_small_fields)
qed

end
