(* ===== verification/Font.thy ===== *)
theory Font
  imports Vbe
begin

text \<open>
  Text on the framebuffer: the bitmap font and the text contexts of \<^verbatim>\<open>src/lib/font.c\<close>, and the two string routines of
  \<^verbatim>\<open>src/drivers/vbe.c\<close> on top of them. A font is its record and \<open>None\<close> the null pointer; the glyph table
  \<^verbatim>\<open>CHARSET\<close> is an argument. A string is read from the device's own memory, so that drawing into it would be seen.
\<close>

section \<open>Fonts\<close>

record font =
  font_width :: u8
  font_height :: u8
  font_data :: "u8 \<Rightarrow> u8 \<Rightarrow> u8"

definition font_init :: "(u8 \<Rightarrow> u8 \<Rightarrow> u8) \<Rightarrow> kernel_status \<times> font" where
  "font_init charset = (KERNEL_OK, \<lparr>font_width = 8, font_height = 16, font_data = charset\<rparr>)"

definition font_get_default :: "font \<Rightarrow> font option" where
  "font_get_default g_font = Some g_font"

text \<open>The two loops return \<^verbatim>\<open>KERNEL_ERROR\<close> at the first pixel that cannot be drawn.\<close>

definition font_render_char ::
    "u8 \<Rightarrow> u16 \<Rightarrow> u16 \<Rightarrow> vbe_color \<Rightarrow> vbe_color \<Rightarrow> font option \<Rightarrow> vbe_device \<Rightarrow> kernel_status \<times> vbe_device" where
  "font_render_char c x y fg_color bg_color font d =
     (case font of
        None \<Rightarrow> (KERNEL_ERROR, d)
      | Some font \<Rightarrow>
          if \<not> vbe_is_available d then (KERNEL_ERROR, d)
          else if unat x + unat (font_width font) > unat (vd_width d) \<or> unat y + unat (font_height font) > unat (vd_height d)
          then (KERNEL_INVALID_PARAM, d)
          else for_loop 0 (font_height font) (\<lambda>row.
                 let bits = font_data font c row
                 in for_loop 0 (font_width font) (\<lambda>col.
                      let mask = push_bit (7 - unat col) 1;
                          colv = (if bits AND mask \<noteq> 0 then fg_color else bg_color)
                      in put_or_error (x + ucast col) (y + ucast row) colv))
               (KERNEL_OK, d))"

partial_function (option) render_from ::
    "font \<Rightarrow> vbe_color \<Rightarrow> vbe_color \<Rightarrow> u16 \<Rightarrow> u32 \<Rightarrow> u16 \<Rightarrow> u16 \<Rightarrow> vbe_device \<Rightarrow> (kernel_status \<times> vbe_device) option" where
  "render_from font fg_color bg_color x p cur_x cur_y d =
     (let c = vd_mem d p
      in if c = 0 then Some (KERNEL_OK, d)
         else if c = 0x0A then render_from font fg_color bg_color x (p + 1) x (cur_y + ucast (font_height font)) d
         else if c = 0x0D then render_from font fg_color bg_color x (p + 1) x cur_y d
         else case font_render_char c cur_x cur_y fg_color bg_color (Some font) d of (st, d) \<Rightarrow>
           if st \<noteq> KERNEL_OK then Some (KERNEL_ERROR, d)
           else let cur_x = cur_x + ucast (font_width font)
                in if unat cur_x + unat (font_width font) > unat (vd_width d)
                   then render_from font fg_color bg_color x (p + 1) x (cur_y + ucast (font_height font)) d
                   else render_from font fg_color bg_color x (p + 1) cur_x cur_y d)"

definition font_render_string ::
    "u32 \<Rightarrow> u16 \<Rightarrow> u16 \<Rightarrow> vbe_color \<Rightarrow> vbe_color \<Rightarrow> font option \<Rightarrow> vbe_device \<Rightarrow> (kernel_status \<times> vbe_device) option" where
  "font_render_string str x y fg_color bg_color font d =
     (case font of
        None \<Rightarrow> Some (KERNEL_INVALID_PARAM, d)
      | Some font \<Rightarrow>
          if str = 0 then Some (KERNEL_INVALID_PARAM, d)
          else render_from font fg_color bg_color x str x y d)"

section \<open>Text contexts\<close>

record text_context =
  tc_x :: u16
  tc_y :: u16
  tc_fg_color :: vbe_color
  tc_bg_color :: vbe_color
  tc_font :: "font option"

definition text_context_init :: "u16 \<Rightarrow> u16 \<Rightarrow> vbe_color \<Rightarrow> vbe_color \<Rightarrow> font \<Rightarrow> text_context" where
  "text_context_init x y fg_color bg_color g_font =
     \<lparr>tc_x = x, tc_y = y, tc_fg_color = fg_color, tc_bg_color = bg_color, tc_font = font_get_default g_font\<rparr>"

definition text_context_newline :: "text_context \<Rightarrow> text_context" where
  "text_context_newline ctx =
     (case tc_font ctx of
        None \<Rightarrow> ctx
      | Some f \<Rightarrow> ctx\<lparr>tc_x := 0, tc_y := tc_y ctx + ucast (font_height f)\<rparr>)"

definition text_context_set_position :: "u16 \<Rightarrow> u16 \<Rightarrow> text_context \<Rightarrow> text_context" where
  "text_context_set_position x y ctx = ctx\<lparr>tc_x := x, tc_y := y\<rparr>"

definition text_context_set_colors :: "vbe_color \<Rightarrow> vbe_color \<Rightarrow> text_context \<Rightarrow> text_context" where
  "text_context_set_colors fg_color bg_color ctx = ctx\<lparr>tc_fg_color := fg_color, tc_bg_color := bg_color\<rparr>"

definition text_context_putchar :: "u8 \<Rightarrow> text_context \<Rightarrow> vbe_device \<Rightarrow> kernel_status \<times> text_context \<times> vbe_device" where
  "text_context_putchar c ctx d =
     (case tc_font ctx of
        None \<Rightarrow> (KERNEL_INVALID_PARAM, ctx, d)
      | Some f \<Rightarrow>
          if c = 0x0A then (KERNEL_OK, text_context_newline ctx, d)
          else if c = 0x0D then (KERNEL_OK, ctx\<lparr>tc_x := 0\<rparr>, d)
          else case font_render_char c (tc_x ctx) (tc_y ctx) (tc_fg_color ctx) (tc_bg_color ctx) (Some f) d of (st, d) \<Rightarrow>
            if st \<noteq> KERNEL_OK then (KERNEL_ERROR, ctx, d)
            else let ctx = ctx\<lparr>tc_x := tc_x ctx + ucast (font_width f)\<rparr>
                 in if unat (tc_x ctx) + unat (font_width f) > unat (vd_width d)
                    then (KERNEL_OK, text_context_newline ctx, d) else (KERNEL_OK, ctx, d))"

partial_function (option) context_print_from ::
    "u32 \<Rightarrow> text_context \<Rightarrow> vbe_device \<Rightarrow> (kernel_status \<times> text_context \<times> vbe_device) option" where
  "context_print_from p ctx d =
     (if vd_mem d p = 0 then Some (KERNEL_OK, ctx, d)
      else case text_context_putchar (vd_mem d p) ctx d of (st, ctx, d) \<Rightarrow>
        if st \<noteq> KERNEL_OK then Some (KERNEL_ERROR, ctx, d) else context_print_from (p + 1) ctx d)"

definition text_context_print :: "u32 \<Rightarrow> text_context \<Rightarrow> vbe_device \<Rightarrow> (kernel_status \<times> text_context \<times> vbe_device) option" where
  "text_context_print str ctx d = (if str = 0 then Some (KERNEL_INVALID_PARAM, ctx, d) else context_print_from str ctx d)"

section \<open>Strings on the screen\<close>

definition vbe_draw_string :: "font \<Rightarrow> u16 \<Rightarrow> u16 \<Rightarrow> u32 \<Rightarrow> vbe_color \<Rightarrow> vbe_color \<Rightarrow> vbe_device \<Rightarrow> vbe_device option" where
  "vbe_draw_string g_font x y str fg bg d = map_option snd (font_render_string str x y fg bg (font_get_default g_font) d)"

definition vbe_draw_string_centered :: "font \<Rightarrow> u16 \<Rightarrow> u32 \<Rightarrow> vbe_color \<Rightarrow> vbe_color \<Rightarrow> vbe_device \<Rightarrow> vbe_device option" where
  "vbe_draw_string_centered g_font y str fg bg d =
     Option.bind (strlen (vd_mem d) str) (\<lambda>len.
       let str_w = ucast (len * ucast (font_width g_font)) :: u16;
           screen_w = vbe_get_width d;
           x = (if screen_w > str_w then (screen_w - str_w) div 2 else 0)
       in if y \<ge> vbe_get_height d then Some d else vbe_draw_string g_font x y str fg bg d)"

section \<open>Glyphs\<close>

text \<open>The pixels of a character: row by row, foreground where the glyph has a bit.\<close>

definition glyph_pixels :: "font \<Rightarrow> u8 \<Rightarrow> nat \<Rightarrow> nat \<Rightarrow> u32 \<Rightarrow> u32 \<Rightarrow> nat \<Rightarrow> ((nat \<times> nat) \<times> u32) list" where
  "glyph_pixels f c x y fg bg h =
     concat (map (\<lambda>r. map (\<lambda>k. ((x + k, y + r), if bit (font_data f c (of_nat r)) (7 - k) then fg else bg)) [0..<unat (font_width f)]) [0..<h])"

lemma glyph_pixels_Suc:
  "glyph_pixels f c x y fg bg (Suc h) = glyph_pixels f c x y fg bg h @
     map (\<lambda>k. ((x + k, y + h), if bit (font_data f c (of_nat h)) (7 - k) then fg else bg)) [0..<unat (font_width f)]"
  by (simp add: glyph_pixels_def)

lemma and_push_bit_one: "x AND push_bit k 1 \<noteq> 0 \<longleftrightarrow> bit (x :: u8) k"
  by (simp add: bit_iff_and_push_bit_not_eq_0)

lemma font_row_paint:
  fixes row bits :: u8
  assumes wf: "vbe_wf d" and b: "unat x + unat (font_width f) \<le> unat (vd_width d)" "unat y + r < unat (vd_height d)"
    and r: "unat row = r"
  shows "for_loop 0 (font_width f) (\<lambda>col. let mask = push_bit (7 - unat col) 1;
      colv = (if bits AND mask \<noteq> 0 then fg else bg) in put_or_error (x + ucast col) (y + ucast row) colv) (KERNEL_OK, d) =
    (KERNEL_OK, fb.paint (map (\<lambda>k. ((unat x + k, unat y + r), if bit bits (7 - k) then vbe_color_to_pixel fg d else vbe_color_to_pixel bg d))
       [0..<unat (font_width f)]) d)"
proof (rule for_loop_counting [where P = "\<lambda>k p. p = (KERNEL_OK, fb.paint (map (\<lambda>k. ((unat x + k, unat y + r),
      if bit bits (7 - k) then vbe_color_to_pixel fg d else vbe_color_to_pixel bg d)) [0..<k]) d)"])
  fix col :: u8 and p
  assume p: "p = (KERNEL_OK, fb.paint (map (\<lambda>k. ((unat x + k, unat y + r),
      if bit bits (7 - k) then vbe_color_to_pixel fg d else vbe_color_to_pixel bg d)) [0..<unat col]) d)" and col: "col < font_width f"
  have cw: "unat col < unat (font_width f)" using col by (simp add: word_less_nat_alt)
  have u: "unat (ucast z :: u16) = unat z" for z :: u8
    using unat_lt(1) [of z] by (simp add: unsigned_ucast_eq take_bit_nat_eq_self del: unat_lt)
  have "unat x + unat col < 65536" "unat y + unat row < 65536"
    using cw b r unat_lt(2) [of "vd_width d"] unat_lt(2) [of "vd_height d"] by linarith+
  then have xy: "unat (x + ucast col) = unat x + unat col" "unat (y + ucast row) = unat y + r"
    using r by (subst unat_add_small, simp_all add: u)+
  have ins: "vbe_inside d (unat x + unat col, unat y + r)" using cw b by (simp add: vbe_inside_def)
  show "(let mask = push_bit (7 - unat col) 1;
      colv = (if bits AND mask \<noteq> 0 then fg else bg) in put_or_error (x + ucast col) (y + ucast row) colv) p =
    (KERNEL_OK, fb.paint (map (\<lambda>k. ((unat x + k, unat y + r),
      if bit bits (7 - k) then vbe_color_to_pixel fg d else vbe_color_to_pixel bg d)) [0..<Suc (unat col)]) d)"
    unfolding Let_def and_push_bit_one p using wf ins
    by (cases "bit bits (7 - unat col)") (simp_all add: put_or_error_def vbe_put_pixel_eq xy fb.paint_append fb.paint_Cons)
qed simp_all

lemma font_render_char_paint:
  assumes wf: "vbe_wf d" and b: "unat x + unat (font_width f) \<le> unat (vd_width d)" "unat y + unat (font_height f) \<le> unat (vd_height d)"
  shows "font_render_char c x y fg bg (Some f) d =
    (KERNEL_OK, fb.paint (glyph_pixels f c (unat x) (unat y) (vbe_color_to_pixel fg d) (vbe_color_to_pixel bg d) (unat (font_height f))) d)"
proof -
  let ?G = "glyph_pixels f c (unat x) (unat y) (vbe_color_to_pixel fg d) (vbe_color_to_pixel bg d)"
  let ?row = "\<lambda>row. for_loop 0 (font_width f) (\<lambda>col. let mask = push_bit (7 - unat col) 1;
      colv = (if font_data f c row AND mask \<noteq> 0 then fg else bg) in put_or_error (x + ucast col) (y + ucast row) colv)"
  have "for_loop 0 (font_height f) ?row (KERNEL_OK, d) = (KERNEL_OK, fb.paint (?G (unat (font_height f))) d)"
  proof (rule for_loop_counting [where P = "\<lambda>k p. p = (KERNEL_OK, fb.paint (?G k) d)"])
    show "(KERNEL_OK, d) = (KERNEL_OK, fb.paint (?G (unat (0 :: u8))) d)" by (simp add: glyph_pixels_def)
    fix row :: u8 and p
    assume p: "p = (KERNEL_OK, fb.paint (?G (unat row)) d)" and "row < font_height f"
    then have r: "unat y + unat row < unat (vd_height d)" using b(2) by (simp add: word_less_nat_alt)
    have "vbe_wf (fb.paint (?G (unat row)) d)" using wf by simp
    from font_row_paint [OF this _ _ refl, of x f y row "font_data f c row" fg bg] b(1) r
    show "?row row p = (KERNEL_OK, fb.paint (?G (Suc (unat row))) d)"
      unfolding p by (simp add: glyph_pixels_Suc fb.paint_append cong: if_cong)
  qed simp
  then show ?thesis using assms by (simp add: font_render_char_def vbe_is_available_def vbe_wf_def Let_def)
qed

lemma confined_render_char:
  assumes "vbe_wf d" shows "confined d (snd (font_render_char c x y fg bg f d))"
proof -
  have "confined d (snd (for_loop 0 n (\<lambda>row. for_loop 0 k (\<lambda>col. put_or_error (xs row col) (ys row col) (cs row col))) (KERNEL_OK, d)))"
    for n k :: u8 and xs ys cs
    using confined_loop [of "(KERNEL_OK, d)"] confined_loop confined_put_or_error assms
    by (metis (no_types, lifting) snd_conv)
  then show ?thesis using confined_refl [OF assms]
    by (auto simp: font_render_char_def Let_def split: option.splits)
qed

text \<open>\<^verbatim>\<open>font_render_char\<close> draws the glyph: when the character cell is inside the screen it returns
  \<^verbatim>\<open>KERNEL_OK\<close> and the pixel of row \<open>r\<close> and column \<open>k\<close> of the cell has the foreground colour if bit \<open>7 - k\<close> of
  row \<open>r\<close> of the glyph is set and the background colour otherwise; no other pixel changes. When the cell is not inside
  the screen it returns \<^verbatim>\<open>KERNEL_INVALID_PARAM\<close> and draws nothing.
\<close>

theorem font_render_char_glyph:
  assumes "vbe_wf d"
  shows "\<exists>d'. font_render_char c x y fg bg (Some f) d =
      (if unat x + unat (font_width f) \<le> unat (vd_width d) \<and> unat y + unat (font_height f) \<le> unat (vd_height d)
       then KERNEL_OK else KERNEL_INVALID_PARAM, d') \<and>
    (\<forall>px py. vbe_inside d (px, py) \<longrightarrow> vbe_pixel (px, py) d' =
       (if fst (font_render_char c x y fg bg (Some f) d) = KERNEL_OK \<and>
           unat x \<le> px \<and> px < unat x + unat (font_width f) \<and> unat y \<le> py \<and> py < unat y + unat (font_height f)
        then vbe_depth d (vbe_color_to_pixel (if bit (font_data f c (of_nat (py - unat y))) (7 - (px - unat x)) then fg else bg) d)
        else vbe_pixel (px, py) d)) \<and>
    vbe_others d' = vbe_others d"
proof (cases "unat x + unat (font_width f) \<le> unat (vd_width d) \<and> unat y + unat (font_height f) \<le> unat (vd_height d)")
  case True
  let ?g = "glyph_pixels f c (unat x) (unat y) (vbe_color_to_pixel fg d) (vbe_color_to_pixel bg d)"
  let ?h = "unat (font_height f)" and ?w = "unat (font_width f)"
  have draw: "font_render_char c x y fg bg (Some f) d = (KERNEL_OK, fb.paint (?g ?h) d)"
    using True by (intro font_render_char_paint [OF assms]) auto
  have ins: "\<forall>p \<in> fst ` set (?g ?h). vbe_inside d p" using True by (auto simp: glyph_pixels_def vbe_inside_def)
  have val: "map_of (rev (?g h)) (px, py) =
      (if unat x \<le> px \<and> px < unat x + ?w \<and> unat y \<le> py \<and> py < unat y + h
       then Some (vbe_color_to_pixel (if bit (font_data f c (of_nat (py - unat y))) (7 - (px - unat x)) then fg else bg) d) else None)" for h px py
  proof (induction h)
    case 0
    then show ?case by (simp add: glyph_pixels_def)
  next
    case (Suc h)
    have "map_of (rev (map (\<lambda>k. ((x' + k, y'), v k)) [0..<w])) (px, py) =
        (if x' \<le> px \<and> px < x' + w \<and> py = y' then Some (v (px - x')) else None)" for x' y' w and v :: "nat \<Rightarrow> u32"
      by (induction w) auto
    then show ?case using Suc by (auto simp: glyph_pixels_Suc map_add_def)
  qed
  have "vbe_pixel p (fb.paint (?g ?h) d) = (case map_of (rev (?g ?h)) p of Some v \<Rightarrow> vbe_depth d v | None \<Rightarrow> vbe_pixel p d)"
    if "vbe_inside d p" for p by (rule fb.paint_get [OF assms ins that])
  moreover have "vbe_others (fb.paint (?g ?h) d) = vbe_others d" by (rule fb.paint_keeps(2) [OF assms ins])
  ultimately show ?thesis unfolding draw val [symmetric] using True val
    by (intro exI [of _ "fb.paint (?g ?h) d"]) simp
next
  case False
  then have "font_render_char c x y fg bg (Some f) d = (KERNEL_INVALID_PARAM, d)"
    using assms by (auto simp: font_render_char_def vbe_is_available_def vbe_wf_def)
  with False show ?thesis by auto
qed

theorem font_render_char_glyph_witness:
  "\<exists>d'. font_render_char 0x41 1 1 VBE_COLOR_RED VBE_COLOR_BLACK (Some \<lparr>font_width = 2, font_height = 2, font_data = \<lambda>_ _. 0x80\<rparr>) vbe_small =
     (KERNEL_OK, d') \<and> vbe_pixel (1, 2) d' = 0xFF0000 \<and> vbe_pixel (2, 2) d' = 0"
proof -
  let ?f = "\<lparr>font_width = 2, font_height = 2, font_data = \<lambda>_ _. 0x80\<rparr>"
  have c: "vbe_depth vbe_small (vbe_color_to_pixel VBE_COLOR_RED vbe_small) = 0xFF0000"
    "vbe_depth vbe_small (vbe_color_to_pixel VBE_COLOR_BLACK vbe_small) = 0"
    by (simp_all add: vbe_depth_def vbe_color_to_pixel_def scale_component_def vbe_small_fields Let_def unsigned_take_bit_eq)
  have bits: "bit (0x80 :: u8) 7" "\<not> bit (0x80 :: u8) 6" by (simp_all add: bit_iff_odd drop_bit_eq_div)
  obtain d' where d': "font_render_char 0x41 1 1 VBE_COLOR_RED VBE_COLOR_BLACK (Some ?f) vbe_small = (KERNEL_OK, d')"
    "\<forall>px py. vbe_inside vbe_small (px, py) \<longrightarrow> vbe_pixel (px, py) d' =
       (if 1 \<le> px \<and> px < 3 \<and> 1 \<le> py \<and> py < 3
        then vbe_depth vbe_small (vbe_color_to_pixel (if bit (0x80 :: u8) (7 - (px - 1)) then VBE_COLOR_RED else VBE_COLOR_BLACK) vbe_small)
        else vbe_pixel (px, py) vbe_small)"
    using font_render_char_glyph [OF vbe_small_wf(1), of "0x41" 1 1 VBE_COLOR_RED VBE_COLOR_BLACK ?f]
    by (auto simp: vbe_small_fields numeral_3_eq_3 cong: if_cong)
  have "vbe_pixel (1, 2) d' = 0xFF0000" "vbe_pixel (2, 2) d' = 0"
    using d'(2) [rule_format, of 1 2] d'(2) [rule_format, of 2 2] bits c by (simp_all add: vbe_small_wf)
  with d'(1) show ?thesis by blast
qed

end
