(* ===== verification/Terminal.thy ===== *)
theory Terminal
  imports Font
begin

text \<open>
  The terminal, \<^verbatim>\<open>src/lib/terminal.c\<close>, with the escape-sequence parser of \<^verbatim>\<open>src/lib/ansi.c\<close> and the scroll routine of
  \<^verbatim>\<open>src/drivers/vbe.c\<close>. The parser's context is the one inside the terminal, as in every call of the code. What goes to
  the serial port is a list of events. A step is \<open>None\<close> when the code uses a null font pointer or writes outside the
  parser's array of 16 parameters. \<^verbatim>\<open>char\<close> is signed; \<^verbatim>\<open>int\<close> arithmetic is exact and cut to 16 bits where the code
  stores it in a \<^verbatim>\<open>u16\<close>.
\<close>

section \<open>State\<close>

datatype ansi_state = ANSI_NORMAL | ANSI_ESC | ANSI_CSI

record ansi_context =
  ac_state :: ansi_state
  ansi_private :: int
  ansi_buf :: "u8 list"
  ansi_buf_idx :: nat
  ansi_params :: "int list"
  ansi_param_count :: nat
  saved_row :: u16
  saved_col :: u16
  cursor_enabled :: bool

record terminal =
  t_col :: u16
  t_row :: u16
  max_cols :: u16
  max_rows :: u16
  fg_color :: vbe_color
  bg_color :: vbe_color
  t_font :: "font option"
  ansi_ctx :: ansi_context

datatype serial_event = SerialFg vbe_color | SerialBg vbe_color | CursorReport int int | SerialChar u8

record console =
  trm :: terminal
  dev :: vbe_device
  cursor_visible :: bool
  serial :: "serial_event list"

abbreviation set_trm :: "(terminal \<Rightarrow> terminal) \<Rightarrow> console \<Rightarrow> console" where
  "set_trm f s \<equiv> s\<lparr>trm := f (trm s)\<rparr>"

abbreviation set_ctx :: "(ansi_context \<Rightarrow> ansi_context) \<Rightarrow> console \<Rightarrow> console" where
  "set_ctx f s \<equiv> s\<lparr>trm := (trm s)\<lparr>ansi_ctx := f (ansi_ctx (trm s))\<rparr>\<rparr>"

abbreviation ctx :: "console \<Rightarrow> ansi_context" where
  "ctx s \<equiv> ansi_ctx (trm s)"

text \<open>\<^verbatim>\<open>vbe_fill_rect\<close>, \<^verbatim>\<open>vbe_blit\<close> and \<^verbatim>\<open>font_render_char\<close> calls whose status the terminal ignores.\<close>

abbreviation draw_rect :: "u16 \<Rightarrow> u16 \<Rightarrow> u16 \<Rightarrow> u16 \<Rightarrow> vbe_color \<Rightarrow> console \<Rightarrow> console" where
  "draw_rect x y w h c s \<equiv> s\<lparr>dev := snd (vbe_fill_rect x y w h c (dev s))\<rparr>"

section \<open>Escape sequences\<close>

definition ansi_colors :: "nat \<Rightarrow> vbe_color" where
  "ansi_colors i = [VBE_COLOR_BLACK, VBE_COLOR_RED, VBE_COLOR_GREEN, VBE_COLOR_YELLOW,
     VBE_COLOR_BLUE, VBE_COLOR_MAGENTA, VBE_COLOR_CYAN, VBE_COLOR_WHITE] ! i"

definition ansi_param :: "nat \<Rightarrow> int \<Rightarrow> console \<Rightarrow> int" where
  "ansi_param i dflt s = (if ansi_param_count (ctx s) > i then ansi_params (ctx s) ! i else dflt)"

definition move_cursor :: "u8 \<Rightarrow> console \<Rightarrow> console" where
  "move_cursor cmd s =
     (let t = trm s; n = ansi_param 0 1 s; row = uint (t_row t); col = uint (t_col t)
      in if cmd = 0x41 then s\<lparr>trm := t\<lparr>t_row := if row > n then word_of_int (row - n) else 0\<rparr>\<rparr>
         else if cmd = 0x42 then s\<lparr>trm := t\<lparr>t_row := word_of_int (min (uint (max_rows t) - 1) (row + n))\<rparr>\<rparr>
         else if cmd = 0x43 then s\<lparr>trm := t\<lparr>t_col := word_of_int (min (uint (max_cols t) - 1) (col + n))\<rparr>\<rparr>
         else if cmd = 0x44 then s\<lparr>trm := t\<lparr>t_col := if col > n then word_of_int (col - n) else 0\<rparr>\<rparr>
         else if cmd = 0x48 then
           s\<lparr>trm := t\<lparr>t_row := word_of_int (min (max (ansi_param 0 1 s - 1) 0) (uint (max_rows t) - 1)),
                    t_col := word_of_int (min (max (ansi_param 1 1 s - 1) 0) (uint (max_cols t) - 1))\<rparr>\<rparr>
         else s)"

definition erase_display :: "console \<Rightarrow> console option" where
  "erase_display s =
     (case t_font (trm s) of
        None \<Rightarrow> None
      | Some f \<Rightarrow>
          let t = trm s; mode = ansi_param 0 0 s;
              font_w = ucast (font_width f) :: u16; font_h = ucast (font_height f) :: u16;
              screen_w = vbe_get_width (dev s); term_h = max_rows t * font_h
          in if mode = 2
             then Some (set_trm (\<lambda>t. t\<lparr>t_col := 0, t_row := 0\<rparr>) (draw_rect 0 0 screen_w term_h (bg_color t) s))
             else Some (draw_rect (t_col t * font_w) (t_row t * font_h) ((max_cols t - t_col t) * font_w) font_h (bg_color t) s))"

definition erase_line :: "console \<Rightarrow> console option" where
  "erase_line s =
     (case t_font (trm s) of
        None \<Rightarrow> None
      | Some f \<Rightarrow>
          let t = trm s; mode = ansi_param 0 0 s;
              font_w = ucast (font_width f) :: u16;
              (lx, lw) = (if mode = 0 then (t_col t, max_cols t - t_col t)
                          else if mode = 1 then (0, t_col t + 1)
                          else (0, max_cols t))
          in Some (draw_rect (lx * font_w) (t_row t * ucast (font_height f)) (lw * font_w) (ucast (font_height f)) (bg_color t) s))"

definition set_true_color :: "bool \<Rightarrow> vbe_color \<Rightarrow> console \<Rightarrow> console" where
  "set_true_color is_fg col s =
     (if is_fg then s\<lparr>trm := (trm s)\<lparr>fg_color := col\<rparr>, serial := serial s @ [SerialFg col]\<rparr>
      else s\<lparr>trm := (trm s)\<lparr>bg_color := col\<rparr>, serial := serial s @ [SerialBg col]\<rparr>)"

function sgr_from :: "nat \<Rightarrow> console \<Rightarrow> console" where
  "sgr_from i s =
     (let count = ansi_param_count (ctx s); ps = ansi_params (ctx s)
      in if i < count
         then let p = ps ! i
              in if p = 0 then sgr_from (i + 1) (set_trm (\<lambda>t. t\<lparr>fg_color := VBE_COLOR_WHITE, bg_color := VBE_COLOR_BLACK\<rparr>) s)
                 else if p \<ge> 30 \<and> p \<le> 37 then sgr_from (i + 1) (set_trm (\<lambda>t. t\<lparr>fg_color := ansi_colors (nat (p - 30))\<rparr>) s)
                 else if p \<ge> 40 \<and> p \<le> 47 then sgr_from (i + 1) (set_trm (\<lambda>t. t\<lparr>bg_color := ansi_colors (nat (p - 40))\<rparr>) s)
                 else if p = 38 \<or> p = 48 then
                   if i + 1 < count \<and> ps ! (i + 1) = 2 \<and> i + 4 < count
                   then sgr_from (i + 5) (set_true_color (p = 38)
                          \<lparr>red = word_of_int (ps ! (i + 2)), green = word_of_int (ps ! (i + 3)),
                           blue = word_of_int (ps ! (i + 4)), alpha = 255\<rparr> s)
                   else sgr_from (i + 1) s
                 else sgr_from (i + 1) s
         else s)"
  by pat_completeness auto
termination
  by (relation "measure (\<lambda>(i, s). ansi_param_count (ctx s) - i)") (auto simp: set_true_color_def)

declare sgr_from.simps [simp del]

definition handle_ansi_command :: "u8 \<Rightarrow> console \<Rightarrow> console option" where
  "handle_ansi_command cmd s =
     (let s = (if cmd \<in> {0x41, 0x42, 0x43, 0x44, 0x48} then move_cursor cmd s else s)
      in Option.bind (if cmd = 0x4A then erase_display s else Some s) (\<lambda>s.
         Option.bind (if cmd = 0x4B then erase_line s else Some s) (\<lambda>s.
         let s = (if cmd = 0x6D then sgr_from 0 s else s);
             s = (if cmd = 0x73 then set_ctx (\<lambda>c. c\<lparr>saved_row := t_row (trm s), saved_col := t_col (trm s)\<rparr>) s
                  else if cmd = 0x75 then set_trm (\<lambda>t. t\<lparr>t_row := saved_row (ctx s), t_col := saved_col (ctx s)\<rparr>) s
                  else s)
         in if cmd = 0x6E \<and> ansi_param_count (ctx s) > 0 \<and> ansi_params (ctx s) ! 0 = 6
            then Some (s\<lparr>serial := serial s @ [CursorReport (uint (t_row (trm s)) + 1) (uint (t_col (trm s)) + 1)]\<rparr>)
            else Some s)))"

text \<open>The fields that the initialization leaves alone keep their values.\<close>

definition ansi_init :: "ansi_context \<Rightarrow> ansi_context" where
  "ansi_init c = c\<lparr>ac_state := ANSI_NORMAL, ansi_private := 0, ansi_buf_idx := 0, ansi_param_count := 0,
     saved_row := 0, saved_col := 0, cursor_enabled := True\<rparr>"

text \<open>\<^verbatim>\<open>atoi\<close> of the buffer, which is laid out from address 1.\<close>

definition buf_memory :: "u8 list \<Rightarrow> memory" where
  "buf_memory buf a = (if 0 < unat a \<and> unat a \<le> length buf then buf ! (unat a - 1) else 0)"

definition buf_atoi :: "u8 list \<Rightarrow> int option" where
  "buf_atoi buf = map_option sint (atoi (buf_memory buf) 1)"

text \<open>The end of a parameter: terminate the buffer and append its value to the array.\<close>

definition push_param :: "int \<Rightarrow> console \<Rightarrow> console option" where
  "push_param v s =
     (if ansi_param_count (ctx s) < 16
      then Some (set_ctx (\<lambda>c. c\<lparr>ansi_params := (ansi_params c)[ansi_param_count c := v], ansi_param_count := ansi_param_count c + 1\<rparr>) s)
      else None)"

definition ansi_process_char :: "u8 \<Rightarrow> console \<Rightarrow> console option" where
  "ansi_process_char c s =
     (case ac_state (ctx s) of
        ANSI_NORMAL \<Rightarrow>
          if c = 0x1B
          then Some (set_ctx (\<lambda>a. a\<lparr>ac_state := ANSI_ESC, ansi_buf_idx := 0, ansi_param_count := 0, ansi_private := 0\<rparr>) s)
          else Some s
      | ANSI_ESC \<Rightarrow>
          if c = 0x5B then Some (set_ctx (\<lambda>a. a\<lparr>ac_state := ANSI_CSI, ansi_buf_idx := 0\<rparr>) s)
          else Some (set_ctx (\<lambda>a. a\<lparr>ac_state := ANSI_NORMAL\<rparr>) s)
      | ANSI_CSI \<Rightarrow>
          if isdigit c then
            if ansi_buf_idx (ctx s) < 63
            then Some (set_ctx (\<lambda>a. a\<lparr>ansi_buf := (ansi_buf a)[ansi_buf_idx a := c], ansi_buf_idx := ansi_buf_idx a + 1\<rparr>) s)
            else Some s
          else if c = 0x3B then
            let s = set_ctx (\<lambda>a. a\<lparr>ansi_buf := (ansi_buf a)[ansi_buf_idx a := 0]\<rparr>) s
            in Option.bind (if ansi_buf_idx (ctx s) > 0 then buf_atoi (ansi_buf (ctx s)) else Some 0) (\<lambda>v.
               map_option (set_ctx (\<lambda>a. a\<lparr>ansi_buf_idx := 0\<rparr>)) (push_param v s))
          else if c = 0x3F then Some (set_ctx (\<lambda>a. a\<lparr>ansi_private := 1\<rparr>) s)
          else if isalpha c then
            let s = set_ctx (\<lambda>a. a\<lparr>ansi_buf := (ansi_buf a)[ansi_buf_idx a := 0]\<rparr>) s
            in Option.bind (if ansi_buf_idx (ctx s) > 0
                            then Option.bind (buf_atoi (ansi_buf (ctx s))) (\<lambda>v. push_param v s) else Some s) (\<lambda>s.
               map_option (set_ctx (\<lambda>a. a\<lparr>ac_state := ANSI_NORMAL\<rparr>)) (handle_ansi_command c s))
          else Some (set_ctx (\<lambda>a. a\<lparr>ac_state := ANSI_NORMAL\<rparr>) s))"

section \<open>The terminal\<close>

definition terminal_draw_cursor :: "console \<Rightarrow> console" where
  "terminal_draw_cursor s =
     (case t_font (trm s) of
        None \<Rightarrow> s
      | Some f \<Rightarrow>
          if \<not> cursor_enabled (ctx s) then s
          else let t = trm s; x = t_col t * ucast (font_width f); y = t_row t * ucast (font_height f)
               in draw_rect x y (ucast (font_width f)) (ucast (font_height f)) (if cursor_visible s then fg_color t else bg_color t) s)"

definition terminal_toggle_cursor :: "console \<Rightarrow> console" where
  "terminal_toggle_cursor s =
     (if \<not> cursor_enabled (ctx s) then s
      else terminal_draw_cursor (s\<lparr>cursor_visible := \<not> cursor_visible s\<rparr>))"

definition terminal_clear :: "console \<Rightarrow> console option" where
  "terminal_clear s =
     (let s = terminal_toggle_cursor s
      in case t_font (trm s) of
           None \<Rightarrow> None
         | Some f \<Rightarrow>
             let s = draw_rect 0 0 (vbe_get_width (dev s)) (max_rows (trm s) * ucast (font_height f)) (bg_color (trm s)) s
             in Some (terminal_toggle_cursor (set_trm (\<lambda>t. t\<lparr>t_col := 0, t_row := 0\<rparr>) s)))"

definition terminal_init :: "font option \<Rightarrow> console \<Rightarrow> console option" where
  "terminal_init default_font s =
     (let s = set_trm (\<lambda>t. t\<lparr>t_font := default_font\<rparr>) s
      in case default_font of
           None \<Rightarrow> Some (set_trm (\<lambda>t. t\<lparr>max_cols := 80, max_rows := 25, t_col := 0, t_row := 0, fg_color := VBE_COLOR_WHITE,
                           bg_color := VBE_COLOR_BLACK, ansi_ctx := ansi_init (ansi_ctx t)\<rparr>) s)
         | Some f \<Rightarrow>
             let screen_w = vbe_get_width (dev s); screen_h = vbe_get_height (dev s);
                 s = set_trm (\<lambda>t. t\<lparr>max_cols := screen_w div ucast (font_width f), max_rows := screen_h div ucast (font_height f) - 1,
                       t_col := 0, t_row := 0, fg_color := VBE_COLOR_WHITE, bg_color := VBE_COLOR_BLACK,
                       ansi_ctx := ansi_init (ansi_ctx t)\<rparr>) s
             in map_option terminal_draw_cursor (terminal_clear s))"

text \<open>A character in the normal state, before the scroll test.\<close>

definition put_normal :: "u8 \<Rightarrow> console \<Rightarrow> console option" where
  "put_normal c s =
     (let t = trm s
      in if c = 0x1B then ansi_process_char c s
         else if c = 0x0A then Some (s\<lparr>trm := t\<lparr>t_col := 0, t_row := t_row t + 1\<rparr>\<rparr>)
         else if c = 0x0D then Some (s\<lparr>trm := t\<lparr>t_col := 0\<rparr>\<rparr>)
         else if c = 0x08 then
           let t = (if t_col t > 0 then t\<lparr>t_col := t_col t - 1\<rparr>
                    else if t_row t > 0 then t\<lparr>t_row := t_row t - 1, t_col := max_cols t - 1\<rparr> else t)
           in map_option (\<lambda>f. s\<lparr>trm := t, dev := snd (font_render_char 0x20 (t_col t * ucast (font_width f))
                                  (t_row t * ucast (font_height f)) (fg_color t) (bg_color t) (Some f) (dev s))\<rparr>) (t_font t)
         else if c = 0x09 then
           let t = t\<lparr>t_col := (t_col t + 8) AND NOT 7\<rparr>
           in Some (s\<lparr>trm := if t_col t \<ge> max_cols t then t\<lparr>t_col := 0, t_row := t_row t + 1\<rparr> else t\<rparr>)
         else if sint c \<ge> 32 then
           map_option (\<lambda>f.
             let d = snd (font_render_char c (t_col t * ucast (font_width f)) (t_row t * ucast (font_height f))
                       (fg_color t) (bg_color t) (Some f) (dev s));
                 t = t\<lparr>t_col := t_col t + 1\<rparr>
             in s\<lparr>trm := if t_col t \<ge> max_cols t then t\<lparr>t_col := 0, t_row := t_row t + 1\<rparr> else t, dev := d\<rparr>) (t_font t)
         else Some s)"

definition scroll_if_needed :: "console \<Rightarrow> console option" where
  "scroll_if_needed s =
     (if t_row (trm s) \<ge> max_rows (trm s)
      then map_option (\<lambda>f.
             let t = trm s; font_h = ucast (font_height f) :: u16; screen_w = vbe_get_width (dev s); term_h = max_rows t * font_h;
                 s = s\<lparr>dev := snd (vbe_blit 0 0 0 font_h screen_w (term_h - font_h) (dev s))\<rparr>;
                 s = draw_rect 0 ((max_rows t - 1) * font_h) screen_w font_h (bg_color t) s
             in set_trm (\<lambda>t. t\<lparr>t_row := max_rows t - 1\<rparr>) s) (t_font (trm s))
      else Some s)"

definition terminal_putchar :: "u8 \<Rightarrow> console \<Rightarrow> console option" where
  "terminal_putchar c s =
     (let should_toggle = (ac_state (ctx s) = ANSI_NORMAL);
          s = (if should_toggle then terminal_toggle_cursor s else s)
      in map_option (\<lambda>s. if should_toggle then terminal_toggle_cursor s else s)
           (if ac_state (ctx s) = ANSI_NORMAL then Option.bind (put_normal c s) scroll_if_needed
            else ansi_process_char c s))"

partial_function (option) terminal_print_from :: "u32 \<Rightarrow> console \<Rightarrow> console option" where
  "terminal_print_from p s =
     (if vd_mem (dev s) p = 0 then Some s
      else Option.bind (terminal_putchar (vd_mem (dev s) p) s) (terminal_print_from (p + 1)))"

definition terminal_print :: "u32 \<Rightarrow> console \<Rightarrow> console option" where
  "terminal_print str s = (if str = 0 then Some s else terminal_print_from str s)"

definition terminal_set_fg_color :: "vbe_color \<Rightarrow> console \<Rightarrow> console" where
  "terminal_set_fg_color color s =
     (let s = terminal_toggle_cursor s
      in terminal_toggle_cursor (s\<lparr>trm := (trm s)\<lparr>fg_color := color\<rparr>, serial := serial s @ [SerialFg color]\<rparr>))"

definition terminal_set_bg_color :: "vbe_color \<Rightarrow> console \<Rightarrow> console" where
  "terminal_set_bg_color color s =
     (let s = terminal_toggle_cursor s
      in terminal_toggle_cursor (s\<lparr>trm := (trm s)\<lparr>bg_color := color\<rparr>, serial := serial s @ [SerialBg color]\<rparr>))"

definition terminal_set_bgfg :: "vbe_color \<Rightarrow> vbe_color \<Rightarrow> console \<Rightarrow> console" where
  "terminal_set_bgfg bg fg s = terminal_set_fg_color fg (terminal_set_bg_color bg s)"

definition terminal_get_cursor :: "console \<Rightarrow> int \<times> int" where
  "terminal_get_cursor s = (uint (t_row (trm s)), uint (t_col (trm s)))"

definition terminal_set_cursor :: "int \<Rightarrow> int \<Rightarrow> console \<Rightarrow> console" where
  "terminal_set_cursor row col s =
     (let s = terminal_toggle_cursor s
      in terminal_toggle_cursor (set_trm (\<lambda>t. t\<lparr>t_row := word_of_int (min (max row 0) (uint (max_rows t) - 1)),
           t_col := word_of_int (min (max col 0) (uint (max_cols t) - 1))\<rparr>) s))"

definition kernel_putchar :: "u8 \<Rightarrow> console \<Rightarrow> (int \<times> console) option" where
  "kernel_putchar c s =
     map_option (\<lambda>s. (sint c, s\<lparr>serial := serial s @ [SerialChar c]\<rparr>)) (terminal_putchar c s)"

definition vbe_scroll :: "font \<Rightarrow> console \<Rightarrow> kernel_status \<times> console" where
  "vbe_scroll g_font s =
     (if \<not> vd_initialized (dev s) then (KERNEL_ERROR, s)
      else let line_h = ucast (font_height g_font) :: u16; d = dev s
           in if line_h \<ge> vd_height d then (KERNEL_ERROR, s)
              else let d = snd (vbe_blit 0 0 0 line_h (vd_width d) (vd_height d - line_h) d);
                       d = snd (vbe_fill_rect 0 (vd_height d - line_h) (vd_width d) line_h (bg_color (trm s)) d)
                   in (KERNEL_OK, s\<lparr>dev := d\<rparr>))"

section \<open>Numbers in escape sequences\<close>

lemma word_of_int_less: "0 \<le> z \<Longrightarrow> z < uint (m :: u16) \<Longrightarrow> word_of_int z < m"
proof -
  assume z: "0 \<le> z" "z < uint m"
  have "uint m < 65536" using uint_lt2p [of m] by simp
  with z have "unat (word_of_int z :: u16) = nat z" by (intro unat_word_of_int) linarith+
  moreover have "nat z < unat m" using z by (simp add: nat_less_iff)
  ultimately show ?thesis by (simp only: word_less_nat_alt)
qed

lemma digit_value: "isdigit c \<Longrightarrow> unat (c - 0x30) \<le> 9" "isdigit c \<Longrightarrow> \<not> isspace c \<and> c \<noteq> 0x2B \<and> c \<noteq> 0x2D" "\<not> isdigit 0"
proof -
  assume "isdigit c"
  then have "48 \<le> unat c" "unat c \<le> 57" by (simp_all add: isdigit_def word_le_nat_alt)
  then show "unat (c - 0x30) \<le> 9" by (simp add: unat_sub_small)
  show "\<not> isspace c \<and> c \<noteq> 0x2B \<and> c \<noteq> 0x2D"
    using \<open>48 \<le> unat c\<close> by (auto simp: isspace_def)
qed (simp add: isdigit_def)

lemma atoi_digits_bound:
  assumes "\<forall>i < k. isdigit (m (s + of_nat i))" "\<not> isdigit (m (s + of_nat k))" "(unat r + 1) * 10 ^ k \<le> 10 ^ 9"
  shows "\<exists>r'. atoi_digits m s r = Some r' \<and> unat r' < (unat r + 1) * 10 ^ k"
  using assms
proof (induction k arbitrary: s r)
  case 0
  then show ?case by (subst atoi_digits.simps) simp
next
  case (Suc k)
  let ?v = "ucast (m s - 0x30) :: u32"
  have d: "isdigit (m s)" using Suc.prems(1) [rule_format, of 0] by simp
  have v: "unat ?v \<le> 9" using digit_value(1) [OF d] by simp
  have "(unat r + 1) * 10 \<le> (unat r + 1) * 10 ^ Suc k" by (intro mult_le_mono2) simp
  also have "\<dots> \<le> 10 ^ 9" by (rule Suc.prems(3))
  finally have r: "(unat r + 1) * 10 \<le> 10 ^ 9" .
  have "unat (r * 10) = unat r * 10" using r by (subst unat_mult_small) simp_all
  then have u: "unat (r * 10 + ?v) = unat r * 10 + unat ?v" using r v by (subst unat_add_small) simp_all
  then have le: "unat (r * 10 + ?v) + 1 \<le> (unat r + 1) * 10" using v by simp
  have "(unat (r * 10 + ?v) + 1) * 10 ^ k \<le> (unat r + 1) * 10 * 10 ^ k" by (rule mult_le_mono1 [OF le])
  then have le': "(unat (r * 10 + ?v) + 1) * 10 ^ k \<le> (unat r + 1) * 10 ^ Suc k" by (simp only: power_Suc mult.assoc)
  have "\<forall>i < k. isdigit (m (s + 1 + of_nat i))"
  proof (intro allI impI)
    fix i assume "i < k"
    then show "isdigit (m (s + 1 + of_nat i))" using Suc.prems(1) [rule_format, of "Suc i"] by (simp add: add.assoc)
  qed
  moreover have "\<not> isdigit (m (s + 1 + of_nat k))" using Suc.prems(2) by (simp add: add.assoc)
  ultimately obtain r' where "atoi_digits m (s + 1) (r * 10 + ?v) = Some r'" "unat r' < (unat (r * 10 + ?v) + 1) * 10 ^ k"
    using Suc.IH [of "s + 1" "r * 10 + ?v"] le' Suc.prems(3) le_trans by blast
  then show ?case using d le' by (subst atoi_digits.simps) (auto intro: less_le_trans)
qed

text \<open>A parameter of one to nine digits is a number, and not a negative one.\<close>

lemma buf_atoi_nonneg:
  assumes "length buf = 64" "0 < k" "k \<le> 9" "\<forall>i < k. isdigit (buf ! i)"
  obtains v where "buf_atoi (buf[k := 0]) = Some v" "0 \<le> v"
proof -
  let ?m = "buf_memory (buf[k := 0])"
  have m: "?m (1 + of_nat i) = (buf[k := 0]) ! i" if "i < 64" for i
  proof -
    have "unat (1 + of_nat i :: u32) = 1 + i" using that by (subst unat_add_small) (simp_all add: unat_of_nat_small)
    then show ?thesis using that assms(1) by (simp add: buf_memory_def)
  qed
  have dig: "\<forall>i < k. isdigit (?m (1 + of_nat i))" "\<not> isdigit (?m (1 + of_nat k))"
    using m assms digit_value(3) by auto
  then have "isdigit (?m 1)" using assms(2) dig(1) [rule_format, of 0] by simp
  note d = digit_value(2) [OF this]
  have "(unat (0 :: u32) + 1) * 10 ^ k \<le> 10 ^ 9" using assms(3) power_increasing [of k 9 "10 :: nat"] by simp
  then obtain r where r: "atoi_digits ?m 1 0 = Some r" "unat r < 10 ^ k" using atoi_digits_bound [OF dig, of 0] by auto
  have "skip_spaces ?m 1 = Some 1" using d by (subst skip_spaces.simps) simp
  then have atoi: "atoi ?m 1 = Some r" using d r(1) by (simp add: atoi_def)
  have "unat r < 10 ^ 9" using r(2) power_increasing [of k 9 "10 :: nat"] assms(3) by simp
  then have "int (unat r) < int (10 ^ 9)" unfolding of_nat_less_iff .
  moreover have "int (unat r) = uint r" by simp
  ultimately have "uint r < 2 ^ 31" by simp
  moreover have "- (2 ^ 31) \<le> uint r" by (rule order_trans [of _ 0]) simp_all
  ultimately have "sint r = uint r" by (simp add: sint_uint signed_take_bit_int_eq_self)
  then have "0 \<le> sint r" by simp
  with atoi that show ?thesis by (simp add: buf_atoi_def)
qed

section \<open>The cursor stays in the grid\<close>

definition term_inv :: "console \<Rightarrow> bool" where
  "term_inv s \<longleftrightarrow> vbe_wf (dev s) \<and> t_font (trm s) \<noteq> None \<and>
     t_col (trm s) < max_cols (trm s) \<and> t_row (trm s) < max_rows (trm s) \<and>
     saved_col (ctx s) < max_cols (trm s) \<and> saved_row (ctx s) < max_rows (trm s) \<and>
     length (ansi_buf (ctx s)) = 64 \<and> length (ansi_params (ctx s)) = 16 \<and>
     ansi_buf_idx (ctx s) \<le> 9 \<and> (\<forall>i < ansi_buf_idx (ctx s). isdigit (ansi_buf (ctx s) ! i)) \<and>
     ansi_param_count (ctx s) \<le> 16 \<and> (\<forall>i < ansi_param_count (ctx s). 0 \<le> ansi_params (ctx s) ! i)"

text \<open>A step of the terminal that keeps the invariant and draws only in the framebuffer.\<close>

definition term_step :: "console \<Rightarrow> console \<Rightarrow> bool" where
  "term_step s s' \<longleftrightarrow> term_inv s' \<and> confined (dev s) (dev s')"

lemma term_step_refl: "term_inv s \<Longrightarrow> term_step s s"
  by (simp add: term_step_def term_inv_def confined_refl)

lemma term_step_trans: "term_step s s1 \<Longrightarrow> term_step s1 s2 \<Longrightarrow> term_step s s2"
  using confined_trans by (auto simp: term_step_def)

text \<open>Drawing and the parts of the state the invariant does not mention.\<close>

lemma term_step_draw:
  assumes "term_inv s" "confined (dev s) d'"
  shows "term_step s (s\<lparr>dev := d'\<rparr>)"
  using assms by (simp add: term_step_def term_inv_def confined_def)

lemma term_inv_simps [simp]:
  "term_inv (s\<lparr>cursor_visible := v\<rparr>) = term_inv s" "term_inv (s\<lparr>serial := e\<rparr>) = term_inv s"
  "term_inv (s\<lparr>trm := (trm s)\<lparr>fg_color := c\<rparr>\<rparr>) = term_inv s" "term_inv (s\<lparr>trm := (trm s)\<lparr>bg_color := c\<rparr>\<rparr>) = term_inv s"
  "term_inv (s\<lparr>trm := (trm s)\<lparr>fg_color := c, bg_color := c'\<rparr>\<rparr>) = term_inv s"
  "term_inv (s\<lparr>trm := (trm s)\<lparr>fg_color := c\<rparr>, serial := e\<rparr>) = term_inv s"
  "term_inv (s\<lparr>trm := (trm s)\<lparr>bg_color := c\<rparr>, serial := e\<rparr>) = term_inv s"
  by (simp_all add: term_inv_def)

lemma term_step_rect: "term_inv s \<Longrightarrow> term_step s (draw_rect x y w h c s)"
  by (rule term_step_draw) (auto simp: term_inv_def confined_fill_rect)

lemma term_step_toggle: "term_inv s \<Longrightarrow> term_step s (terminal_toggle_cursor s)"
proof -
  assume inv: "term_inv s"
  let ?s = "s\<lparr>cursor_visible := \<not> cursor_visible s\<rparr>"
  have "term_step ?s (terminal_draw_cursor ?s)"
    using term_step_rect [of ?s] term_step_refl [of ?s] inv
    by (auto simp: terminal_draw_cursor_def Let_def split: option.splits)
  then show ?thesis using term_step_refl [OF inv] by (simp add: terminal_toggle_cursor_def term_step_def)
qed

lemma draw_cursor_frame [simp]: "trm (terminal_draw_cursor s) = trm s" "trm (terminal_toggle_cursor s) = trm s"
proof -
  have "trm (terminal_draw_cursor s) = trm s" for s by (simp add: terminal_draw_cursor_def Let_def split: option.splits)
  then show "trm (terminal_draw_cursor s) = trm s" "trm (terminal_toggle_cursor s) = trm s"
    by (simp_all add: terminal_toggle_cursor_def)
qed

text \<open>The colour command touches nothing else.\<close>

lemma sgr_from_keeps:
  "term_inv (sgr_from i s) = term_inv s \<and> dev (sgr_from i s) = dev s \<and> ctx (sgr_from i s) = ctx s"
proof (induction i s rule: sgr_from.induct)
  case (1 i s)
  have t: "term_inv (set_true_color b c s) = term_inv s" "dev (set_true_color b c s) = dev s" "ctx (set_true_color b c s) = ctx s"
    for b c by (simp_all add: set_true_color_def)
  show ?case
  proof (cases "i < ansi_param_count (ctx s)")
    case True
    let ?p = "ansi_params (ctx s) ! i"
    consider "?p = 0" | "?p \<noteq> 0" "?p \<ge> 30 \<and> ?p \<le> 37" | "?p \<noteq> 0" "\<not> (?p \<ge> 30 \<and> ?p \<le> 37)" "?p \<ge> 40 \<and> ?p \<le> 47"
      | "?p \<noteq> 0" "\<not> (?p \<ge> 30 \<and> ?p \<le> 37)" "\<not> (?p \<ge> 40 \<and> ?p \<le> 47)" "?p = 38 \<or> ?p = 48"
      | "?p \<noteq> 0" "\<not> (?p \<ge> 30 \<and> ?p \<le> 37)" "\<not> (?p \<ge> 40 \<and> ?p \<le> 47)" "\<not> (?p = 38 \<or> ?p = 48)" by blast
    then show ?thesis
    proof cases
      case 1
      then show ?thesis using "1.IH"(1) [OF refl refl True refl 1] True by (subst (1 2 3) sgr_from.simps) simp
    next
      case 2
      then show ?thesis using "1.IH"(2) [OF refl refl True refl 2] True by (subst (1 2 3) sgr_from.simps) (simp add: Let_def)
    next
      case 3
      then show ?thesis using "1.IH"(3) [OF refl refl True refl 3] True by (subst (1 2 3) sgr_from.simps) (simp add: Let_def)
    next
      case 4
      let ?t = "i + 1 < ansi_param_count (ctx s) \<and> ansi_params (ctx s) ! (i + 1) = 2 \<and> i + 4 < ansi_param_count (ctx s)"
      show ?thesis
      proof (cases ?t)
        case c: True
        define q where "q = set_true_color (?p = 38) \<lparr>red = word_of_int (ansi_params (ctx s) ! (i + 2)), green = word_of_int (ansi_params (ctx s) ! (i + 3)),
            blue = word_of_int (ansi_params (ctx s) ! (i + 4)), alpha = 255\<rparr> s"
        have "sgr_from i s = sgr_from (i + 5) q"
          unfolding q_def by (subst sgr_from.simps) (simp only: Let_def True 4 c if_True if_False simp_thms)
        moreover have "term_inv (sgr_from (i + 5) q) = term_inv q \<and> dev (sgr_from (i + 5) q) = dev q \<and> ctx (sgr_from (i + 5) q) = ctx q"
          unfolding q_def by (rule "1.IH"(4) [OF refl refl True refl 4 c])
        ultimately show ?thesis by (simp add: q_def t)
      next
        case c: False
        then show ?thesis using 4 "1.IH"(5) [OF refl refl True refl 4 c] True by (subst (1 2 3) sgr_from.simps) (auto simp: Let_def)
      qed
    next
      case 5
      have "sgr_from i s = sgr_from (i + 1) s"
        by (subst sgr_from.simps) (simp only: Let_def True 5 if_True if_False simp_thms)
      then show ?thesis using "1.IH"(6) [OF refl refl True refl 5] by simp
    qed
  next
    case False
    then show ?thesis by (subst (1 2 3) sgr_from.simps) (simp add: Let_def)
  qed
qed

lemma move_cursor_step:
  assumes "term_inv s" shows "term_step s (move_cursor cmd s) \<and> ctx (move_cursor cmd s) = ctx s \<and> dev (move_cursor cmd s) = dev s"
proof -
  let ?t = "trm s" and ?n = "ansi_param 0 1 s"
  have n: "0 \<le> ?n" using assms by (simp add: term_inv_def ansi_param_def)
  have row: "uint (t_row ?t) < uint (max_rows ?t)" and col: "uint (t_col ?t) < uint (max_cols ?t)"
    using assms by (simp_all add: term_inv_def word_less_def)
  have le: "0 \<le> uint (t_row ?t)" "0 \<le> uint (t_col ?t)" by simp_all
  have up: "(if u > ?n then word_of_int (u - ?n) else 0) < m" if "u < uint m" "0 \<le> u" for u and m :: u16
    using word_of_int_less [of "u - ?n" m] word_of_int_less [of 0 m] that n by (cases "u > ?n") simp_all
  have down: "word_of_int (min (uint m - 1) (u + ?n)) < m" if "u < uint m" "0 \<le> u" for u and m :: u16
    by (rule word_of_int_less) (use that n in auto)
  have to: "word_of_int (min (max z 0) (uint m - 1)) < m" if "0 < uint m" for z and m :: u16
    by (rule word_of_int_less) (use that in auto)
  have pos: "0 < uint (max_rows ?t)" "0 < uint (max_cols ?t)" using row col le by linarith+
  have "term_inv (move_cursor cmd s)"
    using assms up [OF row le(1)] up [OF col le(2)] down [OF row le(1)] down [OF col le(2)] to [OF pos(1)] to [OF pos(2)]
    unfolding move_cursor_def Let_def by (simp add: term_inv_def)
  moreover have "ctx (move_cursor cmd s) = ctx s" "dev (move_cursor cmd s) = dev s" by (simp_all add: move_cursor_def Let_def)
  ultimately show ?thesis using assms by (simp add: term_step_def confined_refl term_inv_def)
qed

lemma handle_ansi_step:
  assumes inv: "term_inv s"
  obtains s' where "handle_ansi_command cmd s = Some s'" "term_step s s'"
    "ac_state (ctx s') = ac_state (ctx s)" "ansi_buf_idx (ctx s') = ansi_buf_idx (ctx s)" "ansi_param_count (ctx s') = ansi_param_count (ctx s)"
proof -
  obtain f where f: "t_font (trm s) = Some f" using inv by (auto simp: term_inv_def)
  have pos: "0 < max_rows (trm s)" "0 < max_cols (trm s)"
    using inv by (auto simp: term_inv_def intro: le_less_trans [OF word_zero_le])
  have home: "term_step s' (set_trm (\<lambda>t. t\<lparr>t_col := 0, t_row := 0\<rparr>) s')" if "term_inv s'" "trm s' = trm s" for s'
    using that pos by (simp add: term_step_def term_inv_def confined_refl)
  have J: "\<exists>s'. erase_display s = Some s' \<and> term_step s s' \<and> ctx s' = ctx s"
  proof (cases "ansi_param 0 0 s = 2")
    case True
    have r: "term_step s (draw_rect x y w h c s)" for x y w h c by (rule term_step_rect [OF inv])
    then show ?thesis using True f term_step_trans [OF r home] r
      by (auto simp: erase_display_def Let_def term_step_def)
  next
    case False
    then show ?thesis using f term_step_rect [OF inv] by (simp add: erase_display_def Let_def)
  qed
  have K: "\<exists>s'. erase_line s = Some s' \<and> term_step s s' \<and> ctx s' = ctx s"
    using f term_step_rect [OF inv] by (simp add: erase_line_def Let_def split: prod.splits)
  note refl = term_step_refl [OF inv]
  have save: "term_step s (set_ctx (\<lambda>c. c\<lparr>saved_row := t_row (trm s), saved_col := t_col (trm s)\<rparr>) s)"
    using inv by (simp add: term_step_def term_inv_def confined_refl)
  have restore: "term_step s (set_trm (\<lambda>t. t\<lparr>t_row := saved_row (ctx s), t_col := saved_col (ctx s)\<rparr>) s)"
    using inv by (simp add: term_step_def term_inv_def confined_refl)
  have report: "term_step s (s\<lparr>serial := e\<rparr>)" for e using inv refl by (simp add: term_step_def)
  have sgr: "term_step s (sgr_from 0 s)" using sgr_from_keeps [of 0 s] inv refl by (simp add: term_step_def)
  consider "cmd \<in> {0x41, 0x42, 0x43, 0x44, 0x48}" | "cmd = 0x4A" | "cmd = 0x4B" | "cmd = 0x6D" | "cmd = 0x73" | "cmd = 0x75" | "cmd = 0x6E"
    | "cmd \<notin> {0x41, 0x42, 0x43, 0x44, 0x48, 0x4A, 0x4B, 0x6D, 0x73, 0x75, 0x6E}" by auto
  then show ?thesis
  proof cases
    case 1
    then have "handle_ansi_command cmd s = Some (move_cursor cmd s)" by (auto simp: handle_ansi_command_def)
    then show ?thesis using that move_cursor_step [OF inv, of cmd] by simp
  next
    case 2
    then have "handle_ansi_command cmd s = erase_display s"
      using J by (auto simp: handle_ansi_command_def)
    then show ?thesis using that J by auto
  next
    case 3
    then have "handle_ansi_command cmd s = erase_line s" using K by (auto simp: handle_ansi_command_def)
    then show ?thesis using that K by auto
  next
    case 4
    then show ?thesis using that [of "sgr_from 0 s"] sgr sgr_from_keeps [of 0 s] by (simp add: handle_ansi_command_def)
  next
    case 5
    then show ?thesis using that [OF _ save] by (simp add: handle_ansi_command_def)
  next
    case 6
    then show ?thesis using that [OF _ restore] by (simp add: handle_ansi_command_def)
  next
    case 7
    show ?thesis
    proof (cases "ansi_param_count (ctx s) > 0 \<and> ansi_params (ctx s) ! 0 = 6")
      case True
      with 7 show ?thesis using that [OF _ report] by (simp add: handle_ansi_command_def Let_def)
    next
      case False
      with 7 show ?thesis using that [OF _ refl] by (auto simp: handle_ansi_command_def Let_def)
    qed
  next
    case 8
    then show ?thesis using that [OF _ refl] by (simp add: handle_ansi_command_def)
  qed
qed

section \<open>The parser on well-behaved input\<close>

text \<open>
  The part of the parser's state that decides where it stands, and its next value on a character. It is \<open>None\<close> for a
  tenth digit of one parameter and for a seventeenth parameter.
\<close>

abbreviation csi_view :: "console \<Rightarrow> ansi_state \<times> nat \<times> nat" where
  "csi_view s \<equiv> (ac_state (ctx s), ansi_buf_idx (ctx s), ansi_param_count (ctx s))"

fun csi_next :: "ansi_state \<times> nat \<times> nat \<Rightarrow> u8 \<Rightarrow> (ansi_state \<times> nat \<times> nat) option" where
  "csi_next (ANSI_NORMAL, k, n) c = Some (if c = 0x1B then (ANSI_ESC, 0, 0) else (ANSI_NORMAL, k, n))"
| "csi_next (ANSI_ESC, k, n) c = Some (if c = 0x5B then (ANSI_CSI, 0, n) else (ANSI_NORMAL, k, n))"
| "csi_next (ANSI_CSI, k, n) c =
     (if isdigit c then if k < 9 then Some (ANSI_CSI, k + 1, n) else None
      else if c = 0x3B then if n < 16 then Some (ANSI_CSI, 0, n + 1) else None
      else if c = 0x3F then Some (ANSI_CSI, k, n)
      else if isalpha c then if k = 0 then Some (ANSI_NORMAL, k, n) else if n < 16 then Some (ANSI_NORMAL, k, n + 1) else None
      else Some (ANSI_NORMAL, k, n))"

fun csi_ok :: "ansi_state \<times> nat \<times> nat \<Rightarrow> u8 list \<Rightarrow> bool" where
  "csi_ok v [] = True"
| "csi_ok v (c # cs) = (case csi_next v c of None \<Rightarrow> False | Some w \<Rightarrow> csi_ok w cs)"

lemma term_step_ctx:
  assumes "term_inv s" "term_inv (s\<lparr>trm := (trm s)\<lparr>ansi_ctx := c\<rparr>\<rparr>)"
  shows "term_step s (s\<lparr>trm := (trm s)\<lparr>ansi_ctx := c\<rparr>\<rparr>)"
  using assms by (simp add: term_step_def term_inv_def confined_refl)

text \<open>The end of a parameter keeps the invariant: its value is not negative.\<close>

lemma push_param_step:
  assumes "term_inv s" "ansi_param_count (ctx s) < 16" "0 \<le> v"
  obtains s' where "push_param v s = Some s'" "term_step s s'"
    "csi_view s' = (ac_state (ctx s), ansi_buf_idx (ctx s), ansi_param_count (ctx s) + 1)" "dev s' = dev s"
proof -
  have "term_inv (set_ctx (\<lambda>c. c\<lparr>ansi_params := (ansi_params c)[ansi_param_count c := v], ansi_param_count := ansi_param_count c + 1\<rparr>) s)"
    using assms by (auto simp: term_inv_def nth_list_update less_Suc_eq)
  then show ?thesis using that [OF _ term_step_ctx [OF assms(1)]] assms(2) by (simp add: push_param_def)
qed

lemma param_value:
  assumes "term_inv s" "0 < ansi_buf_idx (ctx s)"
  obtains v where "buf_atoi ((ansi_buf (ctx s))[ansi_buf_idx (ctx s) := 0]) = Some v" "0 \<le> v"
  using buf_atoi_nonneg [of "ansi_buf (ctx s)" "ansi_buf_idx (ctx s)"] assms by (auto simp: term_inv_def)

lemma terminate_step:
  assumes "term_inv s"
  shows "term_step s (set_ctx (\<lambda>a. a\<lparr>ansi_buf := (ansi_buf a)[ansi_buf_idx a := 0]\<rparr>) s)"
  by (rule term_step_ctx [OF assms]) (use assms in \<open>auto simp: term_inv_def\<close>)

lemma ansi_semicolon_step:
  assumes inv: "term_inv s" and n: "ansi_param_count (ctx s) < 16" and st: "ac_state (ctx s) = ANSI_CSI"
  obtains s' where "ansi_process_char 0x3B s = Some s'" "term_step s s'" "csi_view s' = (ANSI_CSI, 0, ansi_param_count (ctx s) + 1)"
proof -
  define t where "t = set_ctx (\<lambda>a. a\<lparr>ansi_buf := (ansi_buf a)[ansi_buf_idx a := 0]\<rparr>) s"
  have t: "term_step s t" "term_inv t" "csi_view t = csi_view s" "ansi_buf (ctx t) = (ansi_buf (ctx s))[ansi_buf_idx (ctx s) := 0]"
    using terminate_step [OF inv] by (simp_all add: t_def term_step_def)
  obtain v where v: "(if ansi_buf_idx (ctx t) > 0 then buf_atoi (ansi_buf (ctx t)) else Some 0) = Some v" "0 \<le> v"
  proof (cases "ansi_buf_idx (ctx s) > 0")
    case True
    with param_value [OF inv] t(3,4) that show ?thesis by auto
  next
    case False
    with that [of 0] t(3) show ?thesis by auto
  qed
  obtain s' where s': "push_param v t = Some s'" "term_step t s'" "csi_view s' = (ac_state (ctx t), ansi_buf_idx (ctx t), ansi_param_count (ctx t) + 1)"
    using push_param_step [OF t(2) _ v(2)] n t(3) by auto
  have z: "term_step s' (set_ctx (\<lambda>a. a\<lparr>ansi_buf_idx := 0\<rparr>) s')"
    by (rule term_step_ctx) (use s'(2) in \<open>auto simp: term_step_def term_inv_def\<close>)
  have "ansi_process_char 0x3B s = Option.bind (if ansi_buf_idx (ctx t) > 0 then buf_atoi (ansi_buf (ctx t)) else Some 0) (\<lambda>v.
               map_option (set_ctx (\<lambda>a. a\<lparr>ansi_buf_idx := 0\<rparr>)) (push_param v t))"
    using st by (simp add: ansi_process_char_def isdigit_def t_def)
  then have "ansi_process_char 0x3B s = Some (set_ctx (\<lambda>a. a\<lparr>ansi_buf_idx := 0\<rparr>) s')" using v s' by simp
  then show ?thesis using that term_step_trans [OF t(1) term_step_trans [OF s'(2) z]] s'(3) t(3) st by simp
qed

lemma ansi_command_step:
  assumes inv: "term_inv s" and n: "ansi_buf_idx (ctx s) > 0 \<Longrightarrow> ansi_param_count (ctx s) < 16" and st: "ac_state (ctx s) = ANSI_CSI"
    and c: "isalpha c" "\<not> isdigit c" "c \<noteq> 0x3B" "c \<noteq> 0x3F"
  obtains s' where "ansi_process_char c s = Some s'" "term_step s s'"
    "csi_view s' = (ANSI_NORMAL, ansi_buf_idx (ctx s), if ansi_buf_idx (ctx s) = 0 then ansi_param_count (ctx s) else ansi_param_count (ctx s) + 1)"
proof -
  define t where "t = set_ctx (\<lambda>a. a\<lparr>ansi_buf := (ansi_buf a)[ansi_buf_idx a := 0]\<rparr>) s"
  have t: "term_step s t" "term_inv t" "csi_view t = csi_view s" "ansi_buf (ctx t) = (ansi_buf (ctx s))[ansi_buf_idx (ctx s) := 0]"
    using terminate_step [OF inv] by (simp_all add: t_def term_step_def)
  let ?n = "if ansi_buf_idx (ctx s) = 0 then ansi_param_count (ctx s) else ansi_param_count (ctx s) + 1"
  obtain u where u: "(if ansi_buf_idx (ctx t) > 0 then Option.bind (buf_atoi (ansi_buf (ctx t))) (\<lambda>v. push_param v t) else Some t) = Some u"
    "term_step t u" "csi_view u = (ac_state (ctx t), ansi_buf_idx (ctx s), ?n)"
  proof (cases "ansi_buf_idx (ctx s) > 0")
    case True
    then obtain v where v: "buf_atoi (ansi_buf (ctx t)) = Some v" "0 \<le> v" using param_value [OF inv] t(4) by auto
    obtain u where "push_param v t = Some u" "term_step t u" "csi_view u = (ac_state (ctx t), ansi_buf_idx (ctx t), ansi_param_count (ctx t) + 1)"
      using push_param_step [OF t(2) _ v(2)] n [OF True] t(3) by auto
    with True v t(3) that show ?thesis by auto
  next
    case False
    with t(2,3) term_step_refl that show ?thesis by auto
  qed
  have "term_inv u" using u(2) by (simp add: term_step_def)
  then obtain w where w: "handle_ansi_command c u = Some w" "term_step u w" "csi_view w = csi_view u"
    using handle_ansi_step [of u c] by blast
  have z: "term_step w (set_ctx (\<lambda>a. a\<lparr>ac_state := ANSI_NORMAL\<rparr>) w)"
    by (rule term_step_ctx) (use w(2) in \<open>auto simp: term_step_def term_inv_def\<close>)
  have "ansi_process_char c s = Option.bind (if ansi_buf_idx (ctx t) > 0
                            then Option.bind (buf_atoi (ansi_buf (ctx t))) (\<lambda>v. push_param v t) else Some t) (\<lambda>s.
               map_option (set_ctx (\<lambda>a. a\<lparr>ac_state := ANSI_NORMAL\<rparr>)) (handle_ansi_command c s))"
    using st c by (simp add: ansi_process_char_def t_def)
  then have "ansi_process_char c s = Some (set_ctx (\<lambda>a. a\<lparr>ac_state := ANSI_NORMAL\<rparr>) w)" unfolding u(1) using w by simp
  then show ?thesis using that term_step_trans [OF t(1) term_step_trans [OF u(2) term_step_trans [OF w(2) z]]] w(3) u(3) by simp
qed

lemma ansi_process_char_step:
  assumes inv: "term_inv s" and nx: "csi_next (csi_view s) c = Some v"
  obtains s' where "ansi_process_char c s = Some s'" "term_step s s'" "csi_view s' = v"
proof -
  note set = term_step_ctx [OF inv]
  have st: "term_step s (set_ctx (\<lambda>a. a\<lparr>ac_state := q\<rparr>) s)" "term_step s (set_ctx (\<lambda>a. a\<lparr>ansi_private := 1\<rparr>) s)"
    "term_step s (set_ctx (\<lambda>a. a\<lparr>ac_state := ANSI_CSI, ansi_buf_idx := 0\<rparr>) s)"
    "term_step s (set_ctx (\<lambda>a. a\<lparr>ac_state := ANSI_ESC, ansi_buf_idx := 0, ansi_param_count := 0, ansi_private := 0\<rparr>) s)" for q
    by (rule set; use inv in \<open>simp add: term_inv_def\<close>)+
  show ?thesis
  proof (cases "ac_state (ctx s)")
    case ANSI_NORMAL
    with nx show ?thesis using that [OF _ st(4)] that [OF _ term_step_refl [OF inv]]
      by (cases "c = 0x1B") (simp_all add: ansi_process_char_def)
  next
    case ANSI_ESC
    with nx show ?thesis using that [OF _ st(3)] that [OF _ st(1) [of ANSI_NORMAL]]
      by (cases "c = 0x5B") (simp_all add: ansi_process_char_def)
  next
    case csi: ANSI_CSI
    consider "isdigit c" | "\<not> isdigit c" "c = 0x3B" | "\<not> isdigit c" "c \<noteq> 0x3B" "c = 0x3F"
      | "\<not> isdigit c" "c \<noteq> 0x3B" "c \<noteq> 0x3F" "isalpha c" | "\<not> isdigit c" "c \<noteq> 0x3B" "c \<noteq> 0x3F" "\<not> isalpha c" by blast
    then show ?thesis
    proof cases
      case 1
      have k: "ansi_buf_idx (ctx s) < 9" and v: "v = (ANSI_CSI, ansi_buf_idx (ctx s) + 1, ansi_param_count (ctx s))"
        using nx csi 1 by (simp_all split: if_splits)
      have "term_step s (set_ctx (\<lambda>a. a\<lparr>ansi_buf := (ansi_buf a)[ansi_buf_idx a := c], ansi_buf_idx := ansi_buf_idx a + 1\<rparr>) s)"
        by (rule set) (use inv k 1 in \<open>auto simp: term_inv_def nth_list_update less_Suc_eq\<close>)
      then show ?thesis using that csi 1 k v by (simp add: ansi_process_char_def)
    next
      case 2
      with nx csi have "ansi_param_count (ctx s) < 16" "v = (ANSI_CSI, 0, ansi_param_count (ctx s) + 1)" by (simp_all split: if_splits)
      then show ?thesis using ansi_semicolon_step [OF inv _ csi] that 2 by blast
    next
      case 3
      with nx csi show ?thesis using that [OF _ st(2)] by (simp add: ansi_process_char_def isdigit_def)
    next
      case 4
      have *: "ansi_buf_idx (ctx s) > 0 \<Longrightarrow> ansi_param_count (ctx s) < 16"
        "v = (ANSI_NORMAL, ansi_buf_idx (ctx s), if ansi_buf_idx (ctx s) = 0 then ansi_param_count (ctx s) else ansi_param_count (ctx s) + 1)"
        using nx csi 4 by (auto split: if_splits)
      then show ?thesis using ansi_command_step [OF inv *(1) csi 4(4) 4(1,2,3)] that by blast
    next
      case 5
      with nx csi show ?thesis using that [OF _ st(1) [of ANSI_NORMAL]] by (simp add: ansi_process_char_def)
    qed
  qed
qed

section \<open>Printing\<close>

text \<open>Before the scroll test the row may be one past the last; the rest of the invariant holds.\<close>

abbreviation row_free :: "console \<Rightarrow> bool" where
  "row_free s \<equiv> term_inv (set_trm (\<lambda>t. t\<lparr>t_row := 0\<rparr>) s)"

lemma row_freeI: "term_inv s \<Longrightarrow> row_free s"
proof -
  assume "term_inv s"
  then show ?thesis by (auto simp: term_inv_def intro: le_less_trans [OF word_zero_le])
qed

lemma pred_less: "0 < m \<Longrightarrow> m - 1 < (m :: u16)"
proof -
  assume "0 < m"
  then have "unat m > 0" by (simp add: unat_gt_0 word_greater_zero_iff)
  moreover have "unat (m - 1) = unat m - 1" using \<open>0 < m\<close> by (intro unat_minus_one) auto
  ultimately show ?thesis by (simp only: word_less_nat_alt)
qed

lemma scroll_step:
  assumes "row_free s"
  obtains s' where "scroll_if_needed s = Some s'" "term_step s s'" "ctx s' = ctx s"
proof (cases "t_row (trm s) \<ge> max_rows (trm s)")
  case True
  obtain f where f: "t_font (trm s) = Some f" using assms by (auto simp: term_inv_def)
  have wf: "vbe_wf (dev s)" and pos: "0 < max_rows (trm s)" using assms by (simp_all add: term_inv_def)
  define d where "d = snd (vbe_blit 0 0 0 (ucast (font_height f)) (vbe_get_width (dev s))
      (max_rows (trm s) * ucast (font_height f) - ucast (font_height f)) (dev s))"
  define e where "e = snd (vbe_fill_rect 0 ((max_rows (trm s) - 1) * ucast (font_height f)) (vbe_get_width (dev s))
      (ucast (font_height f)) (bg_color (trm s)) d)"
  have "confined (dev s) d" unfolding d_def by (rule confined_blit [OF wf])
  moreover from this have "confined d e" unfolding e_def by (intro confined_fill_rect confined_wf)
  ultimately have de: "confined (dev s) e" by (rule confined_trans)
  have "scroll_if_needed s = Some (s\<lparr>dev := e, trm := (trm s)\<lparr>t_row := max_rows (trm s) - 1\<rparr>\<rparr>)"
    using True f by (simp add: scroll_if_needed_def Let_def d_def e_def)
  moreover have "max_rows (trm s) - 1 < max_rows (trm s)" by (rule pred_less [OF pos])
  ultimately show ?thesis using that assms de confined_wf [OF de] by (simp add: term_step_def term_inv_def)
next
  case False
  then have "t_row (trm s) < max_rows (trm s)" by simp
  with assms have "term_inv s" by (simp add: term_inv_def)
  with False show ?thesis using that [OF _ term_step_refl] by (simp add: scroll_if_needed_def)
qed

lemma put_normal_step:
  assumes inv: "term_inv s" and st: "ac_state (ctx s) = ANSI_NORMAL"
  obtains s' where "put_normal c s = Some s'" "row_free s'" "confined (dev s) (dev s')" "csi_next (csi_view s) c = Some (csi_view s')"
proof -
  obtain f where f: "t_font (trm s) = Some f" using inv by (auto simp: term_inv_def)
  have wf: "vbe_wf (dev s)" and pos: "0 < max_rows (trm s)" "0 < max_cols (trm s)" and col: "t_col (trm s) < max_cols (trm s)"
    using inv by (auto simp: term_inv_def intro: le_less_trans [OF word_zero_le])
  have at: "row_free (s\<lparr>trm := (trm s)\<lparr>t_col := x, t_row := y\<rparr>, dev := e\<rparr>)" if "x < max_cols (trm s)" "confined (dev s) e" for x y e
    using inv pos that confined_wf by (simp add: term_inv_def)
  note render = confined_render_char [OF wf]
  show ?thesis
  proof (cases "c = 0x1B")
    case True
    obtain s' where s': "ansi_process_char c s = Some s'" "term_step s s'" "csi_view s' = (ANSI_ESC, 0, 0)"
    proof (rule ansi_process_char_step [OF inv, of c])
      show "csi_next (csi_view s) c = Some (ANSI_ESC, 0, 0)" using st True by simp
    qed
    have "csi_next (csi_view s) c = Some (csi_view s')" using s'(3) st True by simp
    moreover have "put_normal c s = Some s'" using True s'(1) by (simp add: put_normal_def Let_def)
    ultimately show ?thesis using that [OF _ row_freeI] s'(2) by (simp add: term_step_def)
  next
    case False
    with st have nx: "csi_next (csi_view s) c = Some (csi_view s)" by simp
    have "\<exists>x y e. put_normal c s = Some (s\<lparr>trm := (trm s)\<lparr>t_col := x, t_row := y\<rparr>, dev := e\<rparr>) \<and> x < max_cols (trm s) \<and> confined (dev s) e"
    proof -
      consider "c = 0x0A" | "c = 0x0D" | "c = 0x08" | "c = 0x09" | "c \<notin> {0x0A, 0x0D, 0x08, 0x09}" "sint c \<ge> 32"
        | "c \<notin> {0x0A, 0x0D, 0x08, 0x09}" "\<not> sint c \<ge> 32" by auto
      then show ?thesis
      proof cases
        case 1
        then have "put_normal c s = Some (s\<lparr>trm := (trm s)\<lparr>t_col := 0, t_row := t_row (trm s) + 1\<rparr>, dev := dev s\<rparr>)" by (simp add: put_normal_def Let_def)
        with pos confined_refl [OF wf] show ?thesis by blast
      next
        case 2
        then have "put_normal c s = Some (s\<lparr>trm := (trm s)\<lparr>t_col := 0, t_row := t_row (trm s)\<rparr>, dev := dev s\<rparr>)" by (simp add: put_normal_def Let_def)
        with pos confined_refl [OF wf] show ?thesis by blast
      next
        case 3
        define x where "x = (if t_col (trm s) > 0 then t_col (trm s) - 1 else if t_row (trm s) > 0 then max_cols (trm s) - 1 else t_col (trm s))"
        define y where "y = (if t_col (trm s) > 0 then t_row (trm s) else if t_row (trm s) > 0 then t_row (trm s) - 1 else t_row (trm s))"
        have "put_normal c s = Some (s\<lparr>trm := (trm s)\<lparr>t_col := x, t_row := y\<rparr>,
            dev := snd (font_render_char 0x20 (x * ucast (font_width f)) (y * ucast (font_height f))
                       (fg_color (trm s)) (bg_color (trm s)) (Some f) (dev s))\<rparr>)"
          using 3 f by (simp add: put_normal_def Let_def x_def y_def)
        moreover have "x < max_cols (trm s)"
          using col pos pred_less [of "t_col (trm s)"] pred_less [of "max_cols (trm s)"] less_trans unfolding x_def by (auto simp del: word_gt_0_no)
        ultimately show ?thesis using render by blast
      next
        case 4
        let ?x = "(t_col (trm s) + 8) AND NOT 7"
        have "put_normal c s = Some (s\<lparr>trm := (trm s)\<lparr>t_col := if ?x \<ge> max_cols (trm s) then 0 else ?x,
            t_row := if ?x \<ge> max_cols (trm s) then t_row (trm s) + 1 else t_row (trm s)\<rparr>, dev := dev s\<rparr>)" using 4 by (simp add: put_normal_def Let_def)
        moreover have "(if ?x \<ge> max_cols (trm s) then 0 else ?x) < max_cols (trm s)" using pos by (simp add: not_le)
        ultimately show ?thesis using confined_refl [OF wf] by blast
      next
        case 5
        let ?x = "t_col (trm s) + 1"
        have "put_normal c s = Some (s\<lparr>trm := (trm s)\<lparr>t_col := if ?x \<ge> max_cols (trm s) then 0 else ?x,
            t_row := if ?x \<ge> max_cols (trm s) then t_row (trm s) + 1 else t_row (trm s)\<rparr>,
            dev := snd (font_render_char c (t_col (trm s) * ucast (font_width f)) (t_row (trm s) * ucast (font_height f))
                       (fg_color (trm s)) (bg_color (trm s)) (Some f) (dev s))\<rparr>)" using False 5 f by (simp add: put_normal_def Let_def)
        moreover have "(if ?x \<ge> max_cols (trm s) then 0 else ?x) < max_cols (trm s)" using pos by (simp add: not_le)
        ultimately show ?thesis using render by blast
      next
        case 6
        then have "put_normal c s = Some (s\<lparr>trm := (trm s)\<lparr>t_col := t_col (trm s), t_row := t_row (trm s)\<rparr>, dev := dev s\<rparr>)" using False by (simp add: put_normal_def Let_def)
        with col confined_refl [OF wf] show ?thesis by blast
      qed
    qed
    then show ?thesis using that at nx by fastforce
  qed
qed

lemma terminal_putchar_step:
  assumes inv: "term_inv s" and nx: "csi_next (csi_view s) c = Some v"
  obtains s' where "terminal_putchar c s = Some s'" "term_step s s'" "csi_view s' = v"
proof (cases "ac_state (ctx s) = ANSI_NORMAL")
  case True
  let ?t = "terminal_toggle_cursor s"
  have t: "term_step s ?t" "term_inv ?t" using term_step_toggle [OF inv] by (simp_all add: term_step_def)
  obtain u where u: "put_normal c ?t = Some u" "row_free u" "confined (dev ?t) (dev u)" "csi_view u = v"
  proof (rule put_normal_step [OF t(2), of c])
    show "ac_state (ctx ?t) = ANSI_NORMAL" using True by simp
    fix u assume "put_normal c ?t = Some u" "row_free u" "confined (dev ?t) (dev u)" "csi_next (csi_view ?t) c = Some (csi_view u)"
    then show ?thesis using that nx by simp
  qed
  obtain w where w: "scroll_if_needed u = Some w" "term_step u w" "ctx w = ctx u" using scroll_step [OF u(2)] by blast
  have x: "term_step w (terminal_toggle_cursor w)" using term_step_toggle w(2) by (simp add: term_step_def)
  have "term_step ?t w" using u(3) w(2) confined_trans by (auto simp: term_step_def)
  then have "term_step s (terminal_toggle_cursor w)" using t(1) x term_step_trans by blast
  moreover have "terminal_putchar c s = Some (terminal_toggle_cursor w)" using True u(1) w(1) by (simp add: terminal_putchar_def)
  ultimately show ?thesis using that u(4) w(3) by simp
next
  case False
  then show ?thesis using that ansi_process_char_step [OF inv nx] by (auto simp: terminal_putchar_def)
qed

text \<open>A string outside the framebuffer, and that drawing leaves it alone.\<close>

fun cstr_off_screen :: "vbe_device \<Rightarrow> u32 \<Rightarrow> u8 list \<Rightarrow> bool" where
  "cstr_off_screen d p [] \<longleftrightarrow> \<not> in_framebuffer d p \<and> vd_mem d p = 0"
| "cstr_off_screen d p (x # xs) \<longleftrightarrow> \<not> in_framebuffer d p \<and> vd_mem d p = x \<and> x \<noteq> 0 \<and> cstr_off_screen d (p + 1) xs"

lemma cstr_off_screen_confined: "confined d e \<Longrightarrow> cstr_off_screen d p xs \<Longrightarrow> cstr_off_screen e p xs"
  using confined_mem by (induction xs arbitrary: p) auto

lemma terminal_print_from_step:
  assumes "term_inv s" "cstr_off_screen (dev s) p cs" "csi_ok (csi_view s) cs"
  shows "\<exists>s'. terminal_print_from p s = Some s' \<and> term_step s s'"
  using assms
proof (induction cs arbitrary: p s)
  case Nil
  then show ?case using term_step_refl by (subst terminal_print_from.simps) simp
next
  case (Cons c cs)
  then obtain v where v: "csi_next (csi_view s) c = Some v" "csi_ok v cs" by (auto split: option.splits)
  obtain t where t: "terminal_putchar c s = Some t" "term_step s t" "csi_view t = v"
    by (rule terminal_putchar_step [OF Cons.prems(1) v(1)])
  have "cstr_off_screen (dev t) (p + 1) cs" using t(2) Cons.prems(2) cstr_off_screen_confined by (auto simp: term_step_def)
  moreover have "term_inv t" using t(2) by (simp add: term_step_def)
  ultimately obtain u where "terminal_print_from (p + 1) t = Some u" "term_step t u" using Cons.IH [of t "p + 1"] v(2) t(3) by auto
  then show ?case using t(1,2) Cons.prems(2) term_step_trans by (subst terminal_print_from.simps) auto
qed

text \<open>The initialized terminal is in its grid.\<close>

lemma terminal_init_inv:
  assumes "vbe_wf (dev s)" "font_width f \<noteq> 0" "font_height f \<noteq> 0"
    "unat (font_width f) \<le> unat (vd_width (dev s))" "2 * unat (font_height f) \<le> unat (vd_height (dev s))"
    "length (ansi_buf (ctx s)) = 64" "length (ansi_params (ctx s)) = 16"
  obtains s' where "terminal_init (Some f) s = Some s'" "term_inv s'" "confined (dev s) (dev s')" "csi_view s' = (ANSI_NORMAL, 0, 0)"
proof -
  let ?w = "ucast (font_width f) :: u16" and ?h = "ucast (font_height f) :: u16"
  define t where "t = set_trm (\<lambda>t. t\<lparr>t_font := Some f, max_cols := vd_width (dev s) div ?w, max_rows := vd_height (dev s) div ?h - 1,
                       t_col := 0, t_row := 0, fg_color := VBE_COLOR_WHITE, bg_color := VBE_COLOR_BLACK,
                       ansi_ctx := ansi_init (ansi_ctx t)\<rparr>) s"
  have small: "unat (ucast n :: u16) = unat n" if "unat n \<le> unat m" for n :: u8 and m :: u16
  proof -
    have "unat m < 2 ^ LENGTH(16)" by (rule unsigned_less)
    with that have "unat n < 2 ^ LENGTH(16)" by (rule le_less_trans)
    then show ?thesis by (simp only: unsigned_ucast_eq take_bit_nat_eq_self)
  qed
  have w: "unat ?w = unat (font_width f)" "unat ?h = unat (font_height f)"
    using small [of "font_width f" "vd_width (dev s)"] small [of "font_height f" "vd_height (dev s)"] assms(4,5) by linarith+
  have z: "0 < unat (font_width f)" "0 < unat (font_height f)" using assms(2,3) by (simp_all add: unat_gt_0)
  have q: "0 < vd_width (dev s) div ?w"
    using div_le_mono [OF assms(4), of "unat (font_width f)"] z by (simp add: word_less_nat_alt unat_div w)
  have q2: "2 \<le> unat (vd_height (dev s) div ?h)"
    using div_le_mono [OF assms(5), of "unat (font_height f)"] z by (simp add: unat_div w)
  then have "unat (vd_height (dev s) div ?h - 1) = unat (vd_height (dev s) div ?h) - 1" by (intro unat_minus_one) auto
  then have r: "0 < vd_height (dev s) div ?h - 1" using q2 by (simp only: word_less_nat_alt unat_0)
  have inv: "term_inv t" using assms q r by (simp add: term_inv_def t_def ansi_init_def)
  define u where "u = terminal_toggle_cursor t"
  have u: "term_step t u" unfolding u_def by (rule term_step_toggle [OF inv])
  have ut: "trm u = trm t" by (simp add: u_def)
  define v where "v = draw_rect 0 0 (vbe_get_width (dev u)) (max_rows (trm u) * ucast (font_height f)) (bg_color (trm u)) u"
  have v: "term_step u v" unfolding v_def by (rule term_step_rect) (use u in \<open>simp add: term_step_def\<close>)
  have vt: "trm v = trm t" by (simp add: v_def ut)
  define x where "x = set_trm (\<lambda>t. t\<lparr>t_col := 0, t_row := 0\<rparr>) v"
  have x: "term_step v x" using v q r vt by (simp add: term_step_def term_inv_def x_def confined_refl t_def)
  have y: "term_step x (terminal_toggle_cursor x)" by (rule term_step_toggle) (use x in \<open>simp add: term_step_def\<close>)
  have z: "term_step (terminal_toggle_cursor x) (terminal_draw_cursor (terminal_toggle_cursor x))"
    using y term_step_rect [of "terminal_toggle_cursor x"] term_step_refl [of "terminal_toggle_cursor x"]
    by (auto simp: terminal_draw_cursor_def Let_def term_step_def split: option.splits)
  have "t_font (trm u) = Some f" by (simp add: ut t_def)
  then have "terminal_clear t = Some (terminal_toggle_cursor x)" by (simp add: terminal_clear_def u_def [symmetric] v_def [symmetric] x_def [symmetric] Let_def)
  then have "terminal_init (Some f) s = Some (terminal_draw_cursor (terminal_toggle_cursor x))"
    using assms(1) by (simp add: terminal_init_def Let_def t_def vbe_get_width_def vbe_get_height_def vbe_wf_def)
  moreover have "term_step t (terminal_draw_cursor (terminal_toggle_cursor x))"
    using u v x y z term_step_trans by blast
  moreover have "dev t = dev s" "csi_view t = (ANSI_NORMAL, 0, 0)" by (simp_all add: t_def ansi_init_def)
  ultimately show ?thesis using that vt by (simp add: term_step_def x_def)
qed

section \<open>Properties\<close>

text \<open>Property C30. Whatever a program prints, the terminal stays within its grid: \<^verbatim>\<open>terminal_print\<close> of a string that lies
  outside the framebuffer returns with the cursor and the saved cursor inside the rows and columns of the terminal, after
  having drawn only in the framebuffer. The string may mix text, control characters and escape sequences, complete or
  cut off; the only condition is that no parameter of a sequence has more than nine digits and no sequence more than
  sixteen parameters.
\<close>

theorem terminal_print_in_grid:
  assumes "term_inv s" "cstr_off_screen (dev s) str cs" "csi_ok (csi_view s) cs"
  shows "\<exists>s'. terminal_print str s = Some s' \<and> term_inv s' \<and> vbe_others (dev s') = vbe_others (dev s)"
proof (cases "str = 0")
  case True
  with assms(1) show ?thesis by (simp add: terminal_print_def)
next
  case False
  with terminal_print_from_step [OF assms] show ?thesis by (auto simp: terminal_print_def term_step_def confined_def)
qed

text \<open>A terminal of two columns and one row, with the string \<open>A ESC [ 5 ; 7 H B\<close> in memory.\<close>

definition tiny_text :: "u8 list" where
  "tiny_text = [0x41, 0x1B, 0x5B, 0x35, 0x3B, 0x37, 0x48, 0x42]"

definition tiny_console :: console where
  "tiny_console =
     \<lparr>trm = \<lparr>t_col = 0, t_row = 0, max_cols = 2, max_rows = 1, fg_color = VBE_COLOR_WHITE, bg_color = VBE_COLOR_BLACK,
        t_font = Some \<lparr>font_width = 2, font_height = 2, font_data = (\<lambda>_ _. 0x80)\<rparr>,
        ansi_ctx = \<lparr>ac_state = ANSI_NORMAL, ansi_private = 0, ansi_buf = replicate 64 0, ansi_buf_idx = 0,
          ansi_params = replicate 16 0, ansi_param_count = 0, saved_row = 0, saved_col = 0, cursor_enabled = True\<rparr>\<rparr>,
      dev = vbe_small\<lparr>vd_mem := (\<lambda>a. if 0x5000 \<le> unat a \<and> unat a < 0x5008 then tiny_text ! (unat a - 0x5000) else 0)\<rparr>,
      cursor_visible = True, serial = []\<rparr>"

theorem terminal_print_in_grid_witness:
  "\<exists>s'. terminal_print 0x5000 tiny_console = Some s' \<and> t_col (trm s') < max_cols (trm s') \<and> t_row (trm s') < max_rows (trm s')"
proof -
  have "term_inv tiny_console"
    using vbe_small_wf(1) by (simp add: term_inv_def tiny_console_def vbe_wf_def)
  moreover have "cstr_off_screen (dev tiny_console) 0x5000 tiny_text"
    by (simp add: tiny_console_def tiny_text_def in_framebuffer_def vbe_small_fields)
  moreover have "csi_ok (csi_view tiny_console) tiny_text"
    by (simp add: tiny_console_def tiny_text_def isdigit_def isalpha_def)
  ultimately show ?thesis using terminal_print_in_grid [of tiny_console "0x5000" tiny_text] by (auto simp: term_inv_def)
qed

text \<open>The array of sixteen parameters can be overrun: once a sequence has sixteen parameters, the next semicolon,
  or the command letter after at least one more digit, makes the parser store outside the array. No check stops it.
\<close>

theorem ansi_param_overflow:
  assumes "ac_state (ctx s) = ANSI_CSI" "ansi_param_count (ctx s) = 16"
  shows "ansi_process_char 0x3B s = None \<and> (isalpha c \<and> ansi_buf_idx (ctx s) > 0 \<longrightarrow> ansi_process_char c s = None)"
proof -
  have "ansi_process_char 0x3B s = None"
    using assms by (simp add: ansi_process_char_def isdigit_def push_param_def Let_def bind_eq_None_conv)
  moreover have "\<not> isdigit c" "c \<noteq> 0x3B" "c \<noteq> 0x3F" if "isalpha c"
    using that by (auto simp: isalpha_def isdigit_def word_le_nat_alt)
  then have "isalpha c \<and> ansi_buf_idx (ctx s) > 0 \<longrightarrow> ansi_process_char c s = None"
    using assms by (simp add: ansi_process_char_def push_param_def Let_def bind_eq_None_conv)
  ultimately show ?thesis by blast
qed

theorem ansi_param_overflow_witness:
  "ansi_process_char 0x3B (set_ctx (\<lambda>c. c\<lparr>ac_state := ANSI_CSI, ansi_param_count := 16\<rparr>) tiny_console) = None"
  using ansi_param_overflow [of "set_ctx (\<lambda>c. c\<lparr>ac_state := ANSI_CSI, ansi_param_count := 16\<rparr>) tiny_console"] by simp

end
