(* ===== verification/Interrupts.thy ===== *)
theory Interrupts
  imports Prelude
begin

text \<open>
  Port access, the interrupt controllers (\<^verbatim>\<open>src/arch/i386/pic.c\<close>), the descriptor tables (\<^verbatim>\<open>gdt.c\<close>, \<^verbatim>\<open>idt.c\<close>) and the
  dispatch of interrupts (\<^verbatim>\<open>isr.c\<close>). The tables are read back the way the processor reads them and the controllers are a
  state machine over the log of port accesses, so that the properties speak about what the hardware does.
\<close>

section \<open>Port input and output\<close>

text \<open>
  The devices are a parameter: \<open>hw l port\<close> is the byte a read of \<open>port\<close> gives after the accesses \<open>l\<close>. The log of the
  accesses is the state.
\<close>

datatype io_event = In u16 u8 | Out u16 u8

type_synonym io = "io_event list"
type_synonym hardware = "io \<Rightarrow> u16 \<Rightarrow> u8"

definition inb :: "hardware \<Rightarrow> u16 \<Rightarrow> io \<Rightarrow> u8 \<times> io" where
  "inb hw port l = (let v = hw l port in (v, l @ [In port v]))"

definition outb :: "u16 \<Rightarrow> u8 \<Rightarrow> io \<Rightarrow> io" where
  "outb port val l = l @ [Out port val]"

section \<open>The interrupt controller\<close>

abbreviation (input) PIC1_CMD :: u16 where "PIC1_CMD \<equiv> 0x20"
abbreviation (input) PIC1_DATA :: u16 where "PIC1_DATA \<equiv> 0x21"
abbreviation (input) PIC2_CMD :: u16 where "PIC2_CMD \<equiv> 0xA0"
abbreviation (input) PIC2_DATA :: u16 where "PIC2_DATA \<equiv> 0xA1"

definition pic_remap :: "hardware \<Rightarrow> u8 \<Rightarrow> u8 \<Rightarrow> io \<Rightarrow> io" where
  "pic_remap hw offset1 offset2 l =
     (let (a1, l) = inb hw PIC1_DATA l;
          (a2, l) = inb hw PIC2_DATA l;
          l = outb PIC1_CMD 0x11 l;
          l = outb PIC2_CMD 0x11 l;
          l = outb PIC1_DATA offset1 l;
          l = outb PIC2_DATA offset2 l;
          l = outb PIC1_DATA 4 l;
          l = outb PIC2_DATA 2 l;
          l = outb PIC1_DATA 0x01 l;
          l = outb PIC2_DATA 0x01 l;
          l = outb PIC1_DATA a1 l
      in outb PIC2_DATA a2 l)"

definition pic_mask_all :: "io \<Rightarrow> io" where
  "pic_mask_all l = outb PIC2_DATA 0xFF (outb PIC1_DATA 0xFF l)"

text \<open>A shift of an \<^verbatim>\<open>int\<close> by 32 or more has no defined result.\<close>

definition pic_unmask :: "hardware \<Rightarrow> u8 \<Rightarrow> io \<Rightarrow> io option" where
  "pic_unmask hw irq l =
     (let (port, irq) = (if irq < 8 then (PIC1_DATA, irq) else (PIC2_DATA, irq - 8));
          (v, l) = inb hw port l
      in if unat irq < 32 then Some (outb port (v AND ucast (NOT (push_bit (unat irq) 1) :: u32)) l) else None)"

definition pic_send_eoi :: "u8 \<Rightarrow> io \<Rightarrow> io" where
  "pic_send_eoi irq l = outb PIC1_CMD 0x20 (if irq \<ge> 8 then outb PIC2_CMD 0x20 l else l)"

section \<open>Segment descriptors\<close>

record gdt_entry =
  limit_low :: u16
  base_low :: u16
  base_middle :: u8
  gdt_access :: u8
  flags_limit_high :: u8
  base_high :: u8

definition gdt_zero :: gdt_entry where
  "gdt_zero = \<lparr>limit_low = 0, base_low = 0, base_middle = 0, gdt_access = 0, flags_limit_high = 0, base_high = 0\<rparr>"

definition gdt_set_gate :: "u8 \<Rightarrow> u32 \<Rightarrow> u32 \<Rightarrow> u8 \<Rightarrow> u8 \<Rightarrow> gdt_entry list \<Rightarrow> gdt_entry list" where
  "gdt_set_gate index base limit acc flags g =
     (if index \<ge> 6 then g
      else g[unat index := (g ! unat index)\<lparr>base_low := ucast (base AND 0xFFFF), base_middle := ucast (drop_bit 16 base AND 0xFF),
             base_high := ucast (drop_bit 24 base AND 0xFF), limit_low := ucast (limit AND 0xFFFF),
             flags_limit_high := ucast ((drop_bit 16 limit AND 0x0F) OR ucast (flags AND 0xF0)), gdt_access := acc\<rparr>])"

definition GDT_KERNEL_CODE_ACCESS :: u8 where
  "GDT_KERNEL_CODE_ACCESS = 0x80 OR 0x00 OR 0x10 OR 0x08 OR 0x02"

definition GDT_KERNEL_DATA_ACCESS :: u8 where
  "GDT_KERNEL_DATA_ACCESS = 0x80 OR 0x00 OR 0x10 OR 0x02"

definition GDT_USER_CODE_ACCESS :: u8 where
  "GDT_USER_CODE_ACCESS = 0x80 OR 0x60 OR 0x10 OR 0x08 OR 0x02"

definition GDT_USER_DATA_ACCESS :: u8 where
  "GDT_USER_DATA_ACCESS = 0x80 OR 0x60 OR 0x10 OR 0x02"

definition GDT_STANDARD_FLAGS :: u8 where
  "GDT_STANDARD_FLAGS = 0x80 OR 0x40"

text \<open>The limit of the table register and the table; the load itself is assembly.\<close>

definition gdt_init :: "gdt_entry list \<Rightarrow> kernel_status \<times> u16 \<times> gdt_entry list" where
  "gdt_init g =
     (let limit = 8 * 6 - 1;
          g = map (\<lambda>_. gdt_zero) g;
          g = gdt_set_gate 0 0 0 0 0 g;
          g = gdt_set_gate 1 0 0xFFFFFFFF GDT_KERNEL_CODE_ACCESS GDT_STANDARD_FLAGS g;
          g = gdt_set_gate 2 0 0xFFFFFFFF GDT_KERNEL_DATA_ACCESS GDT_STANDARD_FLAGS g;
          g = gdt_set_gate 3 0 0xFFFFFFFF GDT_USER_CODE_ACCESS GDT_STANDARD_FLAGS g;
          g = gdt_set_gate 4 0 0xFFFFFFFF GDT_USER_DATA_ACCESS GDT_STANDARD_FLAGS g
      in (KERNEL_OK, limit, g))"

section \<open>Interrupt gates and handlers\<close>

record idt_entry =
  ie_base_low :: u16
  ie_sel :: u16
  ie_always0 :: u8
  ie_flags :: u8
  ie_base_high :: u16

definition idt_zero :: idt_entry where
  "idt_zero = \<lparr>ie_base_low = 0, ie_sel = 0, ie_always0 = 0, ie_flags = 0, ie_base_high = 0\<rparr>"

record 'h interrupts =
  idt :: "idt_entry list"
  idtp_limit :: u16
  interrupt_handlers :: "'h option list"
  io_log :: io

definition idt_set_gate :: "u8 \<Rightarrow> u32 \<Rightarrow> u16 \<Rightarrow> u8 \<Rightarrow> 'h interrupts \<Rightarrow> 'h interrupts" where
  "idt_set_gate num base sel flags s =
     s\<lparr>idt := (idt s)[unat num := \<lparr>ie_base_low = ucast (base AND 0xFFFF), ie_sel = sel, ie_always0 = 0, ie_flags = flags,
        ie_base_high = ucast (drop_bit 16 base AND 0xFFFF)\<rparr>]\<rparr>"

text \<open>\<open>stub n\<close> is the address of the assembly entry \<^verbatim>\<open>isr<n>\<close>.\<close>

definition isr_init :: "(u8 \<Rightarrow> u32) \<Rightarrow> 'h interrupts \<Rightarrow> 'h interrupts" where
  "isr_init stub s =
     (let s = for_loop 0 48 (\<lambda>n. idt_set_gate n (stub n) 0x08 0x8E) s
      in s\<lparr>interrupt_handlers := replicate 256 None\<rparr>)"

definition isr_register_handler :: "u8 \<Rightarrow> 'h \<Rightarrow> 'h interrupts \<Rightarrow> 'h interrupts" where
  "isr_register_handler n h s = s\<lparr>interrupt_handlers := (interrupt_handlers s)[unat n := Some h]\<rparr>"

datatype 'h dispatch = Handler 'h | Panic u32 | Ignored

text \<open>What the common entry does with an interrupt; an index outside the table of handlers is \<open>None\<close>.\<close>

definition isr_handler :: "u32 \<Rightarrow> 'h interrupts \<Rightarrow> 'h dispatch option" where
  "isr_handler int_no s =
     (if unat int_no < length (interrupt_handlers s)
      then case interrupt_handlers s ! unat int_no of
             Some h \<Rightarrow> Some (Handler h)
           | None \<Rightarrow> if int_no < 32 then Some (Panic int_no) else Some Ignored
      else None)"

definition idt_init :: "hardware \<Rightarrow> (u8 \<Rightarrow> u32) \<Rightarrow> 'h interrupts \<Rightarrow> 'h interrupts" where
  "idt_init hw stub s =
     (let s = s\<lparr>idtp_limit := 8 * 256 - 1, idt := map (\<lambda>_. idt_zero) (idt s)\<rparr>;
          s = s\<lparr>io_log := pic_mask_all (pic_remap hw 0x20 0x28 (io_log s))\<rparr>
      in isr_init stub s)"

section \<open>What the processor reads\<close>

text \<open>The base, the limit field and the size in bytes of the segment a descriptor denotes, and the address of a gate.\<close>

definition seg_base :: "gdt_entry \<Rightarrow> u32" where
  "seg_base e = ucast (base_low e) OR push_bit 16 (ucast (base_middle e)) OR push_bit 24 (ucast (base_high e))"

definition seg_limit :: "gdt_entry \<Rightarrow> u32" where
  "seg_limit e = ucast (limit_low e) OR push_bit 16 (ucast (flags_limit_high e AND 0x0F))"

definition seg_size :: "gdt_entry \<Rightarrow> nat" where
  "seg_size e = (if bit (flags_limit_high e) 7 then (unat (seg_limit e) + 1) * 4096 else unat (seg_limit e) + 1)"

definition seg_dpl :: "gdt_entry \<Rightarrow> u8" where
  "seg_dpl e = drop_bit 5 (gdt_access e) AND 3"

definition gate_offset :: "idt_entry \<Rightarrow> u32" where
  "gate_offset e = ucast (ie_base_low e) OR push_bit 16 (ucast (ie_base_high e))"

lemma mask_bits:
  "bit (0xFFFF :: int) n \<longleftrightarrow> n < 16" "bit (0xFF :: int) n \<longleftrightarrow> n < 8" "bit (0x0F :: int) n \<longleftrightarrow> n < 4"
  "bit (0xF0 :: int) n \<longleftrightarrow> 4 \<le> n \<and> n < 8" "bit (0xFFFFF :: int) n \<longleftrightarrow> n < 20"
proof -
  have m: "(0xFFFF :: int) = mask 16" "(0xFF :: int) = mask 8" "(0x0F :: int) = mask 4" "(0xFFFFF :: int) = mask 20"
    "(0xF0 :: int) = push_bit 4 (mask 4)" by (simp_all add: mask_eq_exp_minus_1 push_bit_eq_mult)
  show "bit (0xFFFF :: int) n \<longleftrightarrow> n < 16" "bit (0xFF :: int) n \<longleftrightarrow> n < 8" "bit (0x0F :: int) n \<longleftrightarrow> n < 4"
    "bit (0xF0 :: int) n \<longleftrightarrow> 4 \<le> n \<and> n < 8" "bit (0xFFFFF :: int) n \<longleftrightarrow> n < 20"
    unfolding m by (auto simp: bit_simps)
qed

lemma seg_base_set: 
  "ucast (ucast (base AND 0xFFFF) :: u16) OR push_bit 16 (ucast (ucast (drop_bit 16 base AND 0xFF) :: u8)) OR
     push_bit 24 (ucast (ucast (drop_bit 24 base AND 0xFF) :: u8)) = (base :: u32)"
proof (rule bit_word_eqI)
  fix n assume "n < LENGTH(32)"
  then show "bit (ucast (ucast (base AND 0xFFFF) :: u16) OR push_bit 16 (ucast (ucast (drop_bit 16 base AND 0xFF) :: u8)) OR
     push_bit 24 (ucast (ucast (drop_bit 24 base AND 0xFF) :: u8)) :: u32) n = bit base n"
    by (cases "n < 24") (auto simp: bit_simps mask_bits)
qed

lemma seg_limit_set:
  "ucast (ucast (limit AND 0xFFFF) :: u16) OR push_bit 16 (ucast ((ucast ((drop_bit 16 limit AND 0x0F) OR ucast ((flags :: u8) AND 0xF0)) :: u8) AND 0x0F)) =
   (limit AND 0xFFFFF :: u32)"
  by (rule bit_word_eqI) (auto simp: bit_simps mask_bits)

lemma seg_flags_set:
  "(ucast ((drop_bit 16 (limit :: u32) AND 0x0F) OR ucast ((flags :: u8) AND 0xF0)) :: u8) AND 0xF0 = flags AND 0xF0"
  by (rule bit_word_eqI) (auto simp: bit_simps mask_bits)

lemma gate_offset_set:
  "ucast (ucast (base AND 0xFFFF) :: u16) OR push_bit 16 (ucast (ucast (drop_bit 16 base AND 0xFFFF) :: u16)) = (base :: u32)"
  by (rule bit_word_eqI) (auto simp: bit_simps mask_bits)

text \<open>A descriptor reads back as the segment it was set to.\<close>

lemma gdt_set_gate_reads:
  assumes "length g = 6" "index < 6" and e_def: "e = gdt_set_gate index base limit acc flags g ! unat index"
  shows "seg_base e = base" "seg_limit e = limit AND 0xFFFFF" "gdt_access e = acc" "flags_limit_high e AND 0xF0 = flags AND 0xF0"
proof -
  have i: "unat index < 6" using assms(2) by (simp add: word_less_nat_alt)
  have e: "e = (g ! unat index)\<lparr>base_low := ucast (base AND 0xFFFF), base_middle := ucast (drop_bit 16 base AND 0xFF),
             base_high := ucast (drop_bit 24 base AND 0xFF), limit_low := ucast (limit AND 0xFFFF),
             flags_limit_high := ucast ((drop_bit 16 limit AND 0x0F) OR ucast (flags AND 0xF0)), gdt_access := acc\<rparr>"
    using assms(1) i assms(2) by (simp add: e_def gdt_set_gate_def not_le [symmetric])
  show "seg_base e = base" by (simp add: e seg_base_def seg_base_set)
  show "seg_limit e = limit AND 0xFFFFF" by (simp add: e seg_limit_def seg_limit_set)
  show "gdt_access e = acc" by (simp add: e)
  show "flags_limit_high e AND 0xF0 = flags AND 0xF0" by (simp add: e seg_flags_set)
qed

lemma gdt_set_gate_other: "n \<noteq> unat index \<Longrightarrow> gdt_set_gate index base limit acc flags g ! n = g ! n"
  "length (gdt_set_gate index base limit acc flags g) = length g"
  by (simp_all add: gdt_set_gate_def)

section \<open>Properties\<close>

text \<open>
  \<^verbatim>\<open>gdt_init\<close> sets up flat segments: the selectors \<open>0x08\<close>, \<open>0x10\<close>, \<open>0x18\<close> and \<open>0x20\<close> denote present
  segments of base 0 and the whole 4 GiB, the first two of privilege 0 and the others of privilege 3, the first and the
  third executable; the null descriptor and the unused one are zero, and the limit covers the six descriptors.
\<close>

theorem gdt_init_flat:
  assumes "length g = 6"
  shows "\<exists>g'. gdt_init g = (KERNEL_OK, 47, g') \<and> length g' = 6 \<and> g' ! 0 = gdt_zero \<and> g' ! 5 = gdt_zero \<and>
    (\<forall>n \<in> {1, 2, 3, 4}. seg_base (g' ! n) = 0 \<and> seg_size (g' ! n) = 2 ^ 32 \<and> bit (gdt_access (g' ! n)) 7 \<and>
       seg_dpl (g' ! n) = (if n \<le> 2 then 0 else 3) \<and> (bit (gdt_access (g' ! n)) 3 \<longleftrightarrow> n = 1 \<or> n = 3))"
proof -
  define z where "z = map (\<lambda>_. gdt_zero) g"
  have z: "length z = 6" "\<And>n. n < 6 \<Longrightarrow> z ! n = gdt_zero" using assms by (simp_all add: z_def)
  define f where "f = (\<lambda>a :: u8. gdt_zero\<lparr>limit_low := 0xFFFF, flags_limit_high := 0xCF, gdt_access := a\<rparr>)"
  have "ucast (0xFFFFFFFF AND 0xFFFF :: u32) = (0xFFFF :: u16)"
    "ucast ((drop_bit 16 0xFFFFFFFF AND 0x0F :: u32) OR ucast (GDT_STANDARD_FLAGS AND 0xF0)) = (0xCF :: u8)"
    by (simp_all add: GDT_STANDARD_FLAGS_def drop_bit_eq_div)
  then have set: "gdt_set_gate i 0 0xFFFFFFFF a GDT_STANDARD_FLAGS h = h[unat i := f a]" if "i < 6" "h ! unat i = gdt_zero" for i a h
    using that by (simp add: gdt_set_gate_def f_def gdt_zero_def not_le [symmetric])
  have null: "gdt_set_gate 0 0 0 0 0 z = z" using z(2) [of 0] z(1) by (simp add: gdt_set_gate_def gdt_zero_def list_update_same_conv)
  define g' where "g' = z[1 := f GDT_KERNEL_CODE_ACCESS, 2 := f GDT_KERNEL_DATA_ACCESS, 3 := f GDT_USER_CODE_ACCESS, 4 := f GDT_USER_DATA_ACCESS]"
  have "gdt_init g = (KERNEL_OK, 47, g')"
    using z by (simp add: gdt_init_def Let_def z_def [symmetric] null set g'_def)
  moreover have "seg_base (f a) = 0" "seg_size (f a) = 2 ^ 32" for a
    by (simp_all add: seg_base_def seg_size_def seg_limit_def f_def gdt_zero_def push_bit_eq_mult)
  moreover have "g' ! 1 = f GDT_KERNEL_CODE_ACCESS" "g' ! 2 = f GDT_KERNEL_DATA_ACCESS" "g' ! 3 = f GDT_USER_CODE_ACCESS"
    "g' ! 4 = f GDT_USER_DATA_ACCESS" "g' ! 0 = gdt_zero" "g' ! 5 = gdt_zero" "length g' = 6" using z by (simp_all add: g'_def)
  moreover have "gdt_access (f a) = a" for a by (simp add: f_def)
  ultimately show ?thesis
    by (simp add: seg_dpl_def GDT_KERNEL_CODE_ACCESS_def GDT_KERNEL_DATA_ACCESS_def GDT_USER_CODE_ACCESS_def GDT_USER_DATA_ACCESS_def drop_bit_eq_div bit_iff_odd)
qed

theorem gdt_init_flat_witness:
  "\<exists>g'. gdt_init (replicate 6 gdt_zero) = (KERNEL_OK, 47, g') \<and> seg_size (g' ! 3) = 4294967296 \<and> seg_dpl (g' ! 3) = 3"
  using gdt_init_flat [of "replicate 6 gdt_zero"] by auto

section \<open>The interrupt controller as a device\<close>

text \<open>
  The documented behaviour of one 8259 as a state machine over the log: a write of \<open>0x11\<close> to the command port starts the
  initialization, the next three writes to the data port are the vector offset, the cascade wiring and the mode, and every
  other write to the data port sets the mask.
\<close>

record pic8259 =
  pic_step :: nat
  pic_offset :: u8
  pic_mask :: u8

fun pic_event :: "u16 \<Rightarrow> u16 \<Rightarrow> io_event \<Rightarrow> pic8259 \<Rightarrow> pic8259" where
  "pic_event cmd data (In p v) d = d"
| "pic_event cmd data (Out p v) d =
     (if p = cmd then if v = 0x11 then d\<lparr>pic_step := 1\<rparr> else d
      else if p = data then
        if pic_step d = 0 then d\<lparr>pic_mask := v\<rparr>
        else if pic_step d = 1 then d\<lparr>pic_offset := v, pic_step := 2\<rparr>
        else d\<lparr>pic_step := (pic_step d + 1) mod 4\<rparr>
      else d)"

definition pic_state :: "u16 \<Rightarrow> u16 \<Rightarrow> pic8259 \<Rightarrow> io \<Rightarrow> pic8259" where
  "pic_state cmd data d0 l = fold (pic_event cmd data) l d0"

abbreviation pic1 :: "pic8259 \<Rightarrow> io \<Rightarrow> pic8259" where "pic1 \<equiv> pic_state PIC1_CMD PIC1_DATA"
abbreviation pic2 :: "pic8259 \<Rightarrow> io \<Rightarrow> pic8259" where "pic2 \<equiv> pic_state PIC2_CMD PIC2_DATA"

text \<open>A machine whose mask registers read back.\<close>

definition reads_masks :: "hardware \<Rightarrow> pic8259 \<Rightarrow> pic8259 \<Rightarrow> bool" where
  "reads_masks hw d1 d2 \<longleftrightarrow> (\<forall>l. pic_step (pic1 d1 l) = 0 \<longrightarrow> hw l PIC1_DATA = pic_mask (pic1 d1 l)) \<and>
     (\<forall>l. pic_step (pic2 d2 l) = 0 \<longrightarrow> hw l PIC2_DATA = pic_mask (pic2 d2 l))"

lemma pic_state_simps [simp]:
  "pic_state cmd data d (l @ [e]) = pic_event cmd data e (pic_state cmd data d l)"
  by (simp add: pic_state_def)

lemma pic_remap_devices:
  assumes "reads_masks hw d1 d2" "pic_step (pic1 d1 l) = 0" "pic_step (pic2 d2 l) = 0"
  shows "pic1 d1 (pic_remap hw o1 o2 l) = \<lparr>pic_step = 0, pic_offset = o1, pic_mask = pic_mask (pic1 d1 l)\<rparr> \<and>
    pic2 d2 (pic_remap hw o1 o2 l) = \<lparr>pic_step = 0, pic_offset = o2, pic_mask = pic_mask (pic2 d2 l)\<rparr>"
proof -
  have h: "hw l PIC1_DATA = pic_mask (pic1 d1 l)" "hw (l @ [In PIC1_DATA v]) PIC2_DATA = pic_mask (pic2 d2 l)" for v
    using assms by (simp_all add: reads_masks_def)
  show ?thesis using assms(2,3)
    by (simp add: pic_remap_def inb_def outb_def Let_def h del: append_assoc)
qed

lemma clear_bit:
  "n < 8 \<Longrightarrow> bit ((v :: u8) AND ucast (NOT (2 ^ n) :: u32)) k \<longleftrightarrow> k \<noteq> n \<and> bit v k"
proof -
  assume "n < 8"
  moreover have "bit v k \<Longrightarrow> k < 8" using bit_imp_le_length [of v k] by simp
  ultimately show ?thesis by (auto simp: bit_simps)
qed

text \<open>
  \<^verbatim>\<open>pic_unmask\<close> enables exactly one interrupt line: on a machine whose mask registers read back, for each of
  the sixteen lines it clears the bit of that line in the mask of its controller and leaves every other line, the other
  controller and the vector offsets as they were.
\<close>

theorem pic_unmask_one_line:
  assumes "reads_masks hw d1 d2" "pic_step (pic1 d1 l) = 0" "pic_step (pic2 d2 l) = 0" "irq < 16"
  shows "\<exists>l'. pic_unmask hw irq l = Some l' \<and>
    pic_step (pic1 d1 l') = 0 \<and> pic_offset (pic1 d1 l') = pic_offset (pic1 d1 l) \<and>
    pic_step (pic2 d2 l') = 0 \<and> pic_offset (pic2 d2 l') = pic_offset (pic2 d2 l) \<and>
    (\<forall>k < 8. (bit (pic_mask (pic1 d1 l')) k \<longleftrightarrow> k \<noteq> unat irq \<and> bit (pic_mask (pic1 d1 l)) k) \<and>
            (bit (pic_mask (pic2 d2 l')) k \<longleftrightarrow> k + 8 \<noteq> unat irq \<and> bit (pic_mask (pic2 d2 l)) k))"
proof (cases "irq < 8")
  case True
  have "unat irq < 8" using True by (simp add: word_less_nat_alt)
  moreover have "hw l PIC1_DATA = pic_mask (pic1 d1 l)" using assms by (simp add: reads_masks_def)
  ultimately show ?thesis using True assms(2,3)
    by (simp add: pic_unmask_def inb_def outb_def Let_def clear_bit del: append_assoc append.append_Cons)
next
  case False
  have n: "unat irq < 16" "8 \<le> unat irq" using False assms(4) by (simp_all add: word_less_nat_alt)
  then have s: "unat (irq - 8) = unat irq - 8" by (subst unat_sub_small) simp_all
  have "unat (irq - 8) < 8" using n s by simp
  moreover have "hw l PIC2_DATA = pic_mask (pic2 d2 l)" using assms by (simp add: reads_masks_def)
  moreover have "k = unat (irq - 8) \<longleftrightarrow> k + 8 = unat irq" for k unfolding s using n by linarith
  ultimately show ?thesis using False n assms(2,3)
    by (simp add: pic_unmask_def inb_def outb_def Let_def clear_bit del: append_assoc append.append_Cons)
qed

text \<open>Two controllers that have just been masked, with masks that read back.\<close>

definition pic_fresh :: pic8259 where
  "pic_fresh = \<lparr>pic_step = 0, pic_offset = 0x20, pic_mask = 0xFF\<rparr>"

definition pic_hardware :: hardware where
  "pic_hardware l p = (if p = PIC1_DATA then pic_mask (pic1 pic_fresh l) else if p = PIC2_DATA then pic_mask (pic2 pic_fresh l) else 0)"

theorem pic_unmask_one_line_witness:
  "\<exists>l'. pic_unmask pic_hardware 9 [] = Some l' \<and> \<not> bit (pic_mask (pic2 pic_fresh l')) 1 \<and> bit (pic_mask (pic2 pic_fresh l')) 2"
proof -
  have "reads_masks pic_hardware pic_fresh pic_fresh" by (simp add: reads_masks_def pic_hardware_def)
  moreover have "pic_step (pic1 pic_fresh []) = 0" "pic_step (pic2 pic_fresh []) = 0" by (simp_all add: pic_state_def pic_fresh_def)
  ultimately obtain l' where l': "pic_unmask pic_hardware 9 [] = Some l'"
    "\<forall>k < 8. bit (pic_mask (pic2 pic_fresh l')) k \<longleftrightarrow> k + 8 \<noteq> unat (9 :: u8) \<and> bit (pic_mask (pic2 pic_fresh [])) k"
    using pic_unmask_one_line [of pic_hardware pic_fresh pic_fresh "[]" 9] by auto
  have "bit (0xFF :: u8) 2" by (simp add: bit_iff_odd drop_bit_eq_div)
  then show ?thesis using l' by (intro exI [of _ l']) (simp add: pic_state_def pic_fresh_def)
qed

text \<open>The gate that the initialization writes for a vector.\<close>

definition isr_gate :: "u32 \<Rightarrow> idt_entry" where
  "isr_gate base = \<lparr>ie_base_low = ucast (base AND 0xFFFF), ie_sel = 0x08, ie_always0 = 0, ie_flags = 0x8E,
     ie_base_high = ucast (drop_bit 16 base AND 0xFFFF)\<rparr>"

lemma isr_gates_loop:
  assumes "length (idt s) = 256" and s'_def: "s' = for_loop 0 48 (\<lambda>n. idt_set_gate n (stub n) 0x08 0x8E) s"
  shows "length (idt s') = 256 \<and> (\<forall>n < 256. idt s' ! n = (if n < 48 then isr_gate (stub (of_nat n)) else idt s ! n)) \<and>
    idtp_limit s' = idtp_limit s \<and> io_log s' = io_log s"
proof -
  let ?P = "\<lambda>k s'. length (idt s') = 256 \<and> (\<forall>n < 256. idt s' ! n = (if n < k then isr_gate (stub (of_nat n)) else idt s ! n)) \<and>
    idtp_limit s' = idtp_limit s \<and> io_log s' = io_log s"
  have "?P (unat (48 :: u8)) s'"
    unfolding s'_def
  proof (rule for_loop_counting)
    show "?P (unat (0 :: u8)) s" using assms(1) by simp
    fix i :: u8 and t :: "'a interrupts"
    assume P: "?P (unat i) t" and i: "i < 48"
    have "unat i < 48" using i by (simp add: word_less_nat_alt)
    with P show "?P (Suc (unat i)) (idt_set_gate i (stub i) 0x08 0x8E t)"
      by (auto simp: idt_set_gate_def isr_gate_def nth_list_update less_Suc_eq)
  qed simp
  then show ?thesis by simp
qed

text \<open>Property C37. \<^verbatim>\<open>idt_init\<close> routes every interrupt and then keeps all lines quiet: vectors 0 to 47 have present interrupt
  gates of the kernel code segment that lead to their own entry stub, every other vector is empty, the table limit covers
  all 256 gates, the controllers are remapped to the vectors 32 to 47 with all sixteen lines masked, and no handler is
  registered, so that an exception panics with its number and any other interrupt is ignored.
\<close>

theorem idt_init_routes:
  assumes "length (idt s) = 256" "reads_masks hw d1 d2" "pic_step (pic1 d1 (io_log s)) = 0" "pic_step (pic2 d2 (io_log s)) = 0"
  shows "(\<forall>n < 256. if n < 48 then gate_offset (idt (idt_init hw stub s) ! n) = stub (of_nat n) \<and>
             ie_sel (idt (idt_init hw stub s) ! n) = 0x08 \<and> ie_flags (idt (idt_init hw stub s) ! n) = 0x8E
           else idt (idt_init hw stub s) ! n = idt_zero) \<and>
    unat (idtp_limit (idt_init hw stub s)) + 1 = 8 * length (idt (idt_init hw stub s)) \<and>
    pic1 d1 (io_log (idt_init hw stub s)) = \<lparr>pic_step = 0, pic_offset = 0x20, pic_mask = 0xFF\<rparr> \<and>
    pic2 d2 (io_log (idt_init hw stub s)) = \<lparr>pic_step = 0, pic_offset = 0x28, pic_mask = 0xFF\<rparr> \<and>
    (\<forall>v. isr_handler v (idt_init hw stub s) = (if v < 32 then Some (Panic v) else if v < 256 then Some Ignored else None))"
proof -
  define t where "t = s\<lparr>idtp_limit := 2047, idt := map (\<lambda>_. idt_zero) (idt s), io_log := pic_mask_all (pic_remap hw 0x20 0x28 (io_log s))\<rparr>"
  define u where "u = for_loop 0 48 (\<lambda>n. idt_set_gate n (stub n) 0x08 0x8E) t"
  have eq: "idt_init hw stub s = u\<lparr>interrupt_handlers := replicate 256 None\<rparr>"
    by (simp add: idt_init_def isr_init_def Let_def u_def t_def)
  have "length (idt t) = 256" using assms(1) by (simp add: t_def)
  note u = isr_gates_loop [OF this u_def]
  have z: "idt t ! n = idt_zero" if "n < 256" for n using that assms(1) by (simp add: t_def)
  have off: "gate_offset (isr_gate b) = b" for b by (simp add: gate_offset_def isr_gate_def gate_offset_set)
  have pic: "pic1 d1 (io_log t) = \<lparr>pic_step = 0, pic_offset = 0x20, pic_mask = 0xFF\<rparr>"
    "pic2 d2 (io_log t) = \<lparr>pic_step = 0, pic_offset = 0x28, pic_mask = 0xFF\<rparr>"
    using pic_remap_devices [OF assms(2-4), of "0x20" "0x28"] by (simp_all add: t_def pic_mask_all_def outb_def del: append_assoc)
  have gates: "if n < 48 then gate_offset (idt u ! n) = stub (of_nat n) \<and> ie_sel (idt u ! n) = 0x08 \<and> ie_flags (idt u ! n) = 0x8E
      else idt u ! n = idt_zero" if "n < 256" for n
    using u that z [OF that] by (simp add: off) (simp add: isr_gate_def)
  have "isr_handler v (idt_init hw stub s) = (if v < 32 then Some (Panic v) else if v < 256 then Some Ignored else None)" for v
    by (simp add: eq isr_handler_def word_less_nat_alt)
  moreover have "unat (idtp_limit u) + 1 = 8 * length (idt u)" using u by (simp add: t_def)
  moreover have "pic1 d1 (io_log u) = pic1 d1 (io_log t)" "pic2 d2 (io_log u) = pic2 d2 (io_log t)" using u by simp_all
  ultimately show ?thesis unfolding eq using gates pic by simp
qed

theorem idt_init_routes_witness:
  "gate_offset (idt (idt_init pic_hardware (\<lambda>n. 0x100000 + 16 * ucast n)
     (\<lparr>idt = replicate 256 idt_zero, idtp_limit = 0, interrupt_handlers = [], io_log = []\<rparr> :: unit interrupts)) ! 33) = 0x100210"
proof -
  have "reads_masks pic_hardware pic_fresh pic_fresh" by (simp add: reads_masks_def pic_hardware_def)
  then have "\<forall>n < 256. if n < 48 then gate_offset (idt (idt_init pic_hardware (\<lambda>n. 0x100000 + 16 * ucast n)
     (\<lparr>idt = replicate 256 idt_zero, idtp_limit = 0, interrupt_handlers = [], io_log = []\<rparr> :: unit interrupts)) ! n) =
       0x100000 + 16 * ucast (of_nat n :: u8) else True"
    using idt_init_routes [of "\<lparr>idt = replicate 256 idt_zero, idtp_limit = 0, interrupt_handlers = [], io_log = []\<rparr> :: unit interrupts"
        pic_hardware pic_fresh pic_fresh "\<lambda>n. 0x100000 + 16 * ucast n"] by (simp add: pic_state_def pic_fresh_def)
  from this [rule_format, of 33] show ?thesis by simp
qed

lemma unat_ucast_u8: "unat (ucast (n :: u8) :: u32) = unat n"
proof -
  have "unat n < 2 ^ LENGTH(8)" by (rule unsigned_less)
  also have "\<dots> \<le> (2 :: nat) ^ LENGTH(32)" by (rule power_increasing) simp_all
  finally have "unat n < 2 ^ LENGTH(32)" .
  then show ?thesis by (simp only: unsigned_ucast_eq take_bit_nat_eq_self)
qed

lemma isr_handler_registered:
  assumes "length (interrupt_handlers s) = 256"
  shows "isr_handler v (isr_register_handler n h s) = (if v = ucast n then Some (Handler h) else isr_handler v s)"
proof -
  have "unat v = unat n \<longleftrightarrow> v = ucast n" unfolding unat_ucast_u8 [of n, symmetric] by (rule word_unat_eq_iff [symmetric])
  moreover have "unat n < 256" using unsigned_less [of n, where 'a = nat] by simp
  ultimately show ?thesis using assms by (cases "v = ucast n") (simp_all add: isr_handler_def isr_register_handler_def nth_list_update)
qed

end
