(* ===== verification/Keyboard.thy ===== *)
theory Keyboard
  imports Interrupts Cstring "HOL-Library.Sublist"
begin

text \<open>
  The keyboard driver, \<^verbatim>\<open>src/drivers/ps2.c\<close>: the key map, the interrupt handler with its modifier state and ring of 256
  characters, the blocking read and the initialization. The ring is shown to implement a queue of characters as long as it
  does not fill up.
\<close>

section \<open>State and operations\<close>

text \<open>The initialized entries of the key map as \<open>(code, normal, shifted)\<close>; every other entry is zero.\<close>

definition us_keymap_entries :: "(u8 \<times> u8 \<times> u8) list" where
  "us_keymap_entries =
    [(0x1C, 0x0A, 0x0A), (0x39, 0x20, 0x20), (0x0E, 0x08, 0x08), (0x0F, 0x09, 0x09), (0x01, 0x00, 0x00), (0x3A, 0x00, 0x00),
     (0x2A, 0x00, 0x00), (0x36, 0x00, 0x00), (0x1D, 0x00, 0x00), (0x38, 0x00, 0x00), (0x02, 0x31, 0x21), (0x03, 0x32, 0x40),
     (0x04, 0x33, 0x23), (0x05, 0x34, 0x24), (0x06, 0x35, 0x25), (0x07, 0x36, 0x5E), (0x08, 0x37, 0x26), (0x09, 0x38, 0x2A),
     (0x0A, 0x39, 0x28), (0x0B, 0x30, 0x29), (0x0C, 0x2D, 0x5F), (0x0D, 0x3D, 0x2B), (0x10, 0x71, 0x51), (0x11, 0x77, 0x57),
     (0x12, 0x65, 0x45), (0x13, 0x72, 0x52), (0x14, 0x74, 0x54), (0x15, 0x79, 0x59), (0x16, 0x75, 0x55), (0x17, 0x69, 0x49),
     (0x18, 0x6F, 0x4F), (0x19, 0x70, 0x50), (0x1A, 0x5B, 0x7B), (0x1B, 0x5D, 0x7D), (0x1E, 0x61, 0x41), (0x1F, 0x73, 0x53),
     (0x20, 0x64, 0x44), (0x21, 0x66, 0x46), (0x22, 0x67, 0x47), (0x23, 0x68, 0x48), (0x24, 0x6A, 0x4A), (0x25, 0x6B, 0x4B),
     (0x26, 0x6C, 0x4C), (0x27, 0x3B, 0x3A), (0x28, 0x27, 0x22), (0x2B, 0x5C, 0x7C), (0x2C, 0x7A, 0x5A), (0x2D, 0x78, 0x58),
     (0x2E, 0x63, 0x43), (0x2F, 0x76, 0x56), (0x30, 0x62, 0x42), (0x31, 0x6E, 0x4E), (0x32, 0x6D, 0x4D), (0x33, 0x2C, 0x3C),
     (0x34, 0x2E, 0x3E), (0x35, 0x2F, 0x3F), (0x29, 0x60, 0x7E)]"

definition us_keymap :: "u8 \<Rightarrow> u8 \<times> u8" where
  "us_keymap code = (case map_of us_keymap_entries code of None \<Rightarrow> (0, 0) | Some k \<Rightarrow> k)"

record keyboard =
  keyboard_buffer :: "u8 list"
  buffer_head :: u32
  buffer_tail :: u32
  left_shift :: bool
  right_shift :: bool
  caps_lock :: bool

text \<open>The character of a pressed key in the state of the modifiers.\<close>

definition key_char :: "u8 \<Rightarrow> bool \<Rightarrow> bool \<Rightarrow> u8" where
  "key_char code shift_active caps =
     (let use_upper = (caps \<noteq> shift_active); (normal, shifted) = us_keymap code
      in if isalpha normal then if use_upper then toupper normal else normal
         else if shift_active then shifted else normal)"

definition key_event :: "u8 \<Rightarrow> keyboard \<Rightarrow> keyboard" where
  "key_event scancode s =
     (let release = (scancode AND 0x80 \<noteq> 0); code = scancode AND 0x7F
      in if release
         then if code = 0x2A then s\<lparr>left_shift := False\<rparr>
              else if code = 0x36 then s\<lparr>right_shift := False\<rparr> else s
         else if code = 0x2A then s\<lparr>left_shift := True\<rparr>
         else if code = 0x36 then s\<lparr>right_shift := True\<rparr>
         else if code = 0x3A then s\<lparr>caps_lock := \<not> caps_lock s\<rparr>
         else if code < 128 \<and> fst (us_keymap code) \<noteq> 0 then
           let c = key_char code (left_shift s \<or> right_shift s) (caps_lock s)
           in if c \<noteq> 0
              then s\<lparr>keyboard_buffer := (keyboard_buffer s)[unat (buffer_tail s) := c],
                     buffer_tail := (buffer_tail s + 1) mod 256\<rparr>
              else s
         else s)"

definition keyboard_handler :: "hardware \<Rightarrow> keyboard \<times> io \<Rightarrow> keyboard \<times> io" where
  "keyboard_handler hw = (\<lambda>(s, l). let (scancode, l) = inb hw 0x60 l in (key_event scancode s, pic_send_eoi 1 l))"

text \<open>
  The busy wait: \<open>codes\<close> are the scan codes of the interrupts that arrive while the loop spins. The result is the character
  and the codes that are still to come, or \<open>None\<close> when the loop is still waiting after all of them.
\<close>

fun ps2_get_char :: "u8 list \<Rightarrow> keyboard \<Rightarrow> (u8 \<times> u8 list \<times> keyboard) option" where
  "ps2_get_char codes s =
     (if buffer_head s = buffer_tail s
      then case codes of [] \<Rightarrow> None | code # codes \<Rightarrow> ps2_get_char codes (key_event code s)
      else Some (keyboard_buffer s ! unat (buffer_head s), codes, s\<lparr>buffer_head := (buffer_head s + 1) mod 256\<rparr>))"

declare ps2_get_char.simps [simp del]

partial_function (option) ps2_flush :: "hardware \<Rightarrow> io \<Rightarrow> io option" where
  "ps2_flush hw l =
     (case inb hw 0x64 l of (st, l) \<Rightarrow>
        if st AND 0x01 \<noteq> 0 then ps2_flush hw (snd (inb hw 0x60 l)) else Some l)"

definition ps2_keyboard_init :: "hardware \<Rightarrow> 'h \<Rightarrow> 'h interrupts \<Rightarrow> (kernel_status \<times> 'h interrupts) option" where
  "ps2_keyboard_init hw handler s =
     Option.bind (ps2_flush hw (outb 0x64 0xAD (io_log s))) (\<lambda>l.
     let s = isr_register_handler 33 handler (s\<lparr>io_log := outb 0x64 0xAE l\<rparr>)
     in map_option (\<lambda>l. (KERNEL_OK, s\<lparr>io_log := l\<rparr>)) (pic_unmask hw 1 (io_log s)))"

section \<open>The abstract keyboard\<close>

text \<open>The characters that wait, in order, with the three modifiers.\<close>

record kb_spec =
  pending :: "u8 list"
  mod_left :: bool
  mod_right :: bool
  mod_caps :: bool

definition spec_key :: "u8 \<Rightarrow> kb_spec \<Rightarrow> kb_spec" where
  "spec_key scancode a =
     (if scancode = 0x2A then a\<lparr>mod_left := True\<rparr> else if scancode = 0xAA then a\<lparr>mod_left := False\<rparr>
      else if scancode = 0x36 then a\<lparr>mod_right := True\<rparr> else if scancode = 0xB6 then a\<lparr>mod_right := False\<rparr>
      else if scancode = 0x3A then a\<lparr>mod_caps := \<not> mod_caps a\<rparr>
      else if scancode < 128 \<and> fst (us_keymap scancode) \<noteq> 0
      then a\<lparr>pending := pending a @ [key_char scancode (mod_left a \<or> mod_right a) (mod_caps a)]\<rparr>
      else a)"

definition kb_wf :: "keyboard \<Rightarrow> bool" where
  "kb_wf s \<longleftrightarrow> length (keyboard_buffer s) = 256 \<and> buffer_head s < 256 \<and> buffer_tail s < 256"

definition kb_count :: "keyboard \<Rightarrow> nat" where
  "kb_count s = (unat (buffer_tail s) + 256 - unat (buffer_head s)) mod 256"

definition kb_abs :: "keyboard \<Rightarrow> kb_spec" where
  "kb_abs s = \<lparr>pending = map (\<lambda>i. keyboard_buffer s ! ((unat (buffer_head s) + i) mod 256)) [0..<kb_count s],
     mod_left = left_shift s, mod_right = right_shift s, mod_caps = caps_lock s\<rparr>"

text \<open>Every key that produces a character produces a character other than zero, in each state of the modifiers.\<close>

lemma key_char_nonzero: "fst (us_keymap code) \<noteq> 0 \<Longrightarrow> key_char code sh ca \<noteq> 0"
proof -
  have "list_all (\<lambda>(c, n, h). n \<noteq> 0 \<longrightarrow> h \<noteq> 0 \<and> (isalpha n \<longrightarrow> toupper n \<noteq> 0)) us_keymap_entries"
    by (simp add: us_keymap_entries_def isalpha_def toupper_def)
  moreover assume n: "fst (us_keymap code) \<noteq> 0"
  then obtain a b where ab: "map_of us_keymap_entries code = Some (a, b)" "a \<noteq> 0"
    by (auto simp: us_keymap_def split: option.splits)
  then have "(code, a, b) \<in> set us_keymap_entries" by (simp add: map_of_SomeD)
  ultimately have "b \<noteq> 0" "isalpha a \<Longrightarrow> toupper a \<noteq> 0" using ab(2) by (auto simp: list_all_iff)
  then show ?thesis using ab by (auto simp: key_char_def us_keymap_def)
qed

section \<open>The ring implements the queue\<close>

lemma scancode_split:
  fixes c :: u8
  shows "c AND 0x80 = 0 \<longleftrightarrow> c < 128" "c < 128 \<Longrightarrow> c AND 0x7F = c" "\<not> c < 128 \<Longrightarrow> c AND 0x7F = c - 128"
proof -
  have m: "c AND 0x7F = take_bit 7 c" by (simp add: take_bit_eq_mask mask_eq_exp_minus_1)
  have u: "unat (take_bit 7 c) = unat c mod 128" by (simp add: take_bit_eq_mod unat_mod)
  have lt: "unat c < 256" using unsigned_less [of c, where 'a = nat] by simp
  show s: "c < 128 \<Longrightarrow> c AND 0x7F = c" "\<not> c < 128 \<Longrightarrow> c AND 0x7F = c - 128"
    unfolding m using u lt by (simp_all add: word_unat_eq_iff word_less_nat_alt unat_sub_small le_mod_geq)
  have "(c AND 0x80 = 0) = (\<not> bit c 7)"
  proof -
    have "(0x80 :: u8) = 2 ^ 7" by simp
    then show ?thesis by (simp only: and_exp_eq_0_iff_not_bit)
  qed
  moreover have "bit c 7 \<longleftrightarrow> odd (unat c div 128)" using bit_unsigned_iff [of c 7, where 'a = nat] by (simp add: bit_iff_odd)
  moreover have "odd (unat c div 128) \<longleftrightarrow> 128 \<le> unat c"
  proof (cases "128 \<le> unat c")
    case True
    then have "unat c div 128 = 1" using lt by (simp add: Suc_leI div_nat_eqI)
    with True show ?thesis by simp
  qed simp
  ultimately show "c AND 0x80 = 0 \<longleftrightarrow> c < 128" by (simp add: word_less_nat_alt not_le)
qed

lemma ring_next: "p < 256 \<Longrightarrow> unat ((p + 1) mod 256 :: u32) = (unat p + 1) mod 256"
proof -
  assume p: "p < 256"
  then have "unat p < 256" by (simp add: word_less_nat_alt)
  then have "unat (p + 1) = unat p + 1" by (subst unat_add_small) simp_all
  then show ?thesis by (simp add: unat_mod)
qed

text \<open>Appending to the ring and taking from it, on the list of its elements.\<close>

lemma kb_ring_append:
  fixes h t :: nat
  assumes "length b = 256" "h < 256" "t < 256"
  defines "n \<equiv> (t + 256 - h) mod 256"
  assumes "n < 255"
  shows "((t + 1) mod 256 + 256 - h) mod 256 = n + 1"
    "map (\<lambda>i. b[t := c] ! ((h + i) mod 256)) [0..<n + 1] = map (\<lambda>i. b ! ((h + i) mod 256)) [0..<n] @ [c]"
proof -
  have n: "n = (if h \<le> t then t - h else t + 256 - h)" using assms(2,3) by (auto simp: n_def mod_if)
  show "((t + 1) mod 256 + 256 - h) mod 256 = n + 1" using assms(2,3,5) n by (auto simp: mod_if split: if_splits)
  have at: "(h + n) mod 256 = t" using assms(2,3) n by (auto simp: mod_if)
  have ne: "(h + i) mod 256 \<noteq> t" if "i < n" for i using that assms(2,3,5) n by (auto simp: mod_if split: if_splits)
  have "map (\<lambda>i. b[t := c] ! ((h + i) mod 256)) [0..<n] = map (\<lambda>i. b ! ((h + i) mod 256)) [0..<n]"
    using ne by (intro map_cong refl nth_list_update_neq) (auto dest: ne [THEN not_sym])
  then show "map (\<lambda>i. b[t := c] ! ((h + i) mod 256)) [0..<n + 1] = map (\<lambda>i. b ! ((h + i) mod 256)) [0..<n] @ [c]"
    using at assms(1,3) by simp
qed

lemma ring_take:
  fixes h t :: nat
  assumes "h < 256" "t < 256" "h \<noteq> t"
  defines "n \<equiv> (t + 256 - h) mod 256" and "h' \<equiv> (h + 1) mod 256"
  shows "map (\<lambda>i. b ! ((h + i) mod 256)) [0..<n] = b ! h # map (\<lambda>i. b ! ((h' + i) mod 256)) [0..<(t + 256 - h') mod 256]"
proof -
  have "0 < n" "(t + 256 - h') mod 256 = n - 1" using assms(1-3) by (auto simp: n_def h'_def mod_if split: if_splits)
  moreover from this obtain m where m: "n = Suc m" by (cases n) simp_all
  moreover have "(h' + i) mod 256 = (h + Suc i) mod 256" for i by (simp add: h'_def mod_simps)
  ultimately show ?thesis using assms(1) by (simp add: upt_conv_Cons map_Suc_upt [symmetric] comp_def del: upt_Suc)
qed

lemma key_event_refines:
  assumes "kb_wf s" "kb_count s < 255"
  shows "kb_wf (key_event code s) \<and> kb_abs (key_event code s) = spec_key code (kb_abs s)"
proof -
  have key: "kb_wf (s\<lparr>keyboard_buffer := (keyboard_buffer s)[unat (buffer_tail s) := c], buffer_tail := (buffer_tail s + 1) mod 256\<rparr>) \<and>
      kb_abs (s\<lparr>keyboard_buffer := (keyboard_buffer s)[unat (buffer_tail s) := c], buffer_tail := (buffer_tail s + 1) mod 256\<rparr>) =
      (kb_abs s)\<lparr>pending := pending (kb_abs s) @ [c]\<rparr>" for c
  proof -
    have b: "length (keyboard_buffer s) = 256" "unat (buffer_head s) < 256" "unat (buffer_tail s) < 256" "buffer_tail s < 256"
      using assms(1) by (simp_all add: kb_wf_def word_less_nat_alt)
    note r = kb_ring_append [OF b(1-3), folded kb_count_def, OF assms(2)]
    have "(buffer_tail s + 1) mod 256 < 256" using ring_next [OF b(4)] by (simp add: word_less_nat_alt)
    then show ?thesis using assms(1) r ring_next [OF b(4)] by (simp add: kb_wf_def kb_abs_def kb_count_def)
  qed
  have eqs: "code = 0x2A \<Longrightarrow> code < 128" "code = 0x36 \<Longrightarrow> code < 128" "code = 0x3A \<Longrightarrow> code < 128" by simp_all
  have rel: "code - 128 = 0x2A \<longleftrightarrow> code = 0xAA" "code - 128 = 0x36 \<longleftrightarrow> code = 0xB6" by (auto simp: diff_eq_eq)
  show ?thesis
  proof (cases "code < 128")
    case True
    then have ne: "code \<noteq> 0xAA" "code \<noteq> 0xB6" by (auto simp: word_less_nat_alt)
    show ?thesis using True ne assms(1) key key_char_nonzero [of code] scancode_split(2) [OF True] scancode_split(1) [of code]
      by (simp add: key_event_def spec_key_def Let_def kb_wf_def) (simp add: kb_abs_def kb_count_def)
  next
    case False
    with eqs have ne: "code \<noteq> 0x2A" "code \<noteq> 0x36" "code \<noteq> 0x3A" by auto
    then show ?thesis using False assms(1) scancode_split(3) [OF False] scancode_split(1) [of code] rel
      by (simp add: key_event_def spec_key_def Let_def kb_wf_def kb_abs_def kb_count_def)
  qed
qed

lemma ps2_read_refines:
  assumes "kb_wf s" "buffer_head s \<noteq> buffer_tail s"
  obtains c q s' where "ps2_get_char codes s = Some (c, codes, s')" "kb_wf s'" "pending (kb_abs s) = c # q" "kb_abs s' = (kb_abs s)\<lparr>pending := q\<rparr>"
proof -
  have b: "unat (buffer_head s) < 256" "unat (buffer_tail s) < 256" "buffer_head s < 256" "unat (buffer_head s) \<noteq> unat (buffer_tail s)"
    using assms by (simp_all add: kb_wf_def word_less_nat_alt word_unat_eq_iff)
  have "(buffer_head s + 1) mod 256 < 256" using ring_next [OF b(3)] by (simp add: word_less_nat_alt)
  then have "kb_wf (s\<lparr>buffer_head := (buffer_head s + 1) mod 256\<rparr>)" using assms(1) by (simp add: kb_wf_def)
  moreover have "ps2_get_char codes s = Some (keyboard_buffer s ! unat (buffer_head s), codes, s\<lparr>buffer_head := (buffer_head s + 1) mod 256\<rparr>)"
    using assms(2) by (simp add: ps2_get_char.simps)
  ultimately show ?thesis using that ring_take [OF b(1,2,4), of "keyboard_buffer s"] ring_next [OF b(3)]
    by (simp add: kb_abs_def kb_count_def)
qed

lemma kb_empty_iff:
  assumes "kb_wf s" shows "buffer_head s = buffer_tail s \<longleftrightarrow> pending (kb_abs s) = []"
proof -
  have "unat (buffer_head s) < 256" "unat (buffer_tail s) < 256" using assms by (simp_all add: kb_wf_def word_less_nat_alt)
  then have "kb_count s = 0 \<longleftrightarrow> unat (buffer_head s) = unat (buffer_tail s)" by (auto simp: kb_count_def mod_if split: if_splits)
  then show ?thesis by (simp add: kb_abs_def word_unat_eq_iff)
qed

section \<open>Properties\<close>

text \<open>Runs of key interrupts and reads; a read of an empty buffer waits and gives nothing.\<close>

datatype kb_op = Key u8 | Read

fun kb_run :: "kb_op list \<Rightarrow> keyboard \<Rightarrow> u8 list \<times> keyboard" where
  "kb_run [] s = ([], s)"
| "kb_run (Key code # ops) s = kb_run ops (key_event code s)"
| "kb_run (Read # ops) s =
     (case ps2_get_char [] s of None \<Rightarrow> kb_run ops s
      | Some (c, codes, s') \<Rightarrow> let (cs, s'') = kb_run ops s' in (c # cs, s''))"

text \<open>At every key interrupt fewer than 255 characters wait.\<close>

fun spec_fits :: "kb_op list \<Rightarrow> kb_spec \<Rightarrow> bool" where
  "spec_fits [] a = True"
| "spec_fits (Key code # ops) a = (length (pending a) < 255 \<and> spec_fits ops (spec_key code a))"
| "spec_fits (Read # ops) a = spec_fits ops (a\<lparr>pending := tl (pending a)\<rparr>)"

fun key_codes :: "kb_op list \<Rightarrow> u8 list" where
  "key_codes [] = []"
| "key_codes (Key code # ops) = code # key_codes ops"
| "key_codes (Read # ops) = key_codes ops"

lemma spec_key_append: "spec_key code (a\<lparr>pending := xs @ pending a\<rparr>) = (spec_key code a)\<lparr>pending := xs @ pending (spec_key code a)\<rparr>"
  by (simp add: spec_key_def)

lemma spec_keys_append: "fold spec_key codes (a\<lparr>pending := xs @ pending a\<rparr>) =
    (fold spec_key codes a)\<lparr>pending := xs @ pending (fold spec_key codes a)\<rparr>"
  by (induction codes arbitrary: a) (simp_all add: spec_key_append)

text \<open>Property C34. The keyboard delivers what is typed, in order: over any interleaving of key interrupts and reads in which
  the reader never falls 256 characters behind, the characters read so far followed by those still waiting are exactly the
  characters that waited at the start followed by the characters of the keys typed since, each with the shift and caps-lock
  state of its moment.
\<close>

theorem keyboard_delivers_in_order:
  assumes "kb_wf s" "spec_fits ops (kb_abs s)" "kb_run ops s = (cs, s')"
  shows "kb_wf s' \<and> \<lparr>pending = cs @ pending (kb_abs s'), mod_left = left_shift s', mod_right = right_shift s', mod_caps = caps_lock s'\<rparr> =
    fold spec_key (key_codes ops) (kb_abs s)"
  using assms
proof (induction ops arbitrary: s cs)
  case Nil
  then show ?case by (simp add: kb_abs_def)
next
  case (Cons op ops)
  show ?case
  proof (cases op)
    case (Key code)
    have "kb_count s < 255" using Cons.prems(2) Key by (simp add: kb_abs_def)
    note r = key_event_refines [OF Cons.prems(1) this, of code]
    show ?thesis using Cons.IH [of "key_event code s" cs] r Cons.prems(2,3) Key by simp
  next
    case Read
    show ?thesis
    proof (cases "buffer_head s = buffer_tail s")
      case True
      then have "pending (kb_abs s) = []" using kb_empty_iff [OF Cons.prems(1)] by simp
      then have "(kb_abs s)\<lparr>pending := tl (pending (kb_abs s))\<rparr> = kb_abs s" by simp
      moreover have "ps2_get_char [] s = None" using True by (simp add: ps2_get_char.simps)
      ultimately show ?thesis using Cons.IH [OF Cons.prems(1), of cs] Cons.prems(2,3) Read by simp
    next
      case False
      obtain c q t where t: "ps2_get_char [] s = Some (c, [], t)" "kb_wf t" "pending (kb_abs s) = c # q" "kb_abs t = (kb_abs s)\<lparr>pending := q\<rparr>"
        by (rule ps2_read_refines [OF Cons.prems(1) False])
      obtain ds where ds: "kb_run ops t = (ds, s')" "cs = c # ds" using Cons.prems(3) t(1) Read by (auto split: prod.splits)
      have "spec_fits ops (kb_abs t)" using Cons.prems(2) Read t(3,4) by simp
      note ih = Cons.IH [OF t(2) this ds(1)]
      have "kb_abs s = (kb_abs t)\<lparr>pending := [c] @ pending (kb_abs t)\<rparr>" using t(3,4) by simp
      then have "fold spec_key (key_codes (op # ops)) (kb_abs s) =
          (fold spec_key (key_codes ops) (kb_abs t))\<lparr>pending := [c] @ pending (fold spec_key (key_codes ops) (kb_abs t))\<rparr>"
        using Read spec_keys_append [of "key_codes ops" "[c]" "kb_abs t"] by simp
      also have "\<dots> = \<lparr>pending = cs @ pending (kb_abs s'), mod_left = left_shift s', mod_right = right_shift s', mod_caps = caps_lock s'\<rparr>"
        unfolding ih [THEN conjunct2, symmetric] by (simp add: ds(2))
      finally show ?thesis using ih by simp
    qed
  qed
qed

definition kb_init :: keyboard where
  "kb_init = \<lparr>keyboard_buffer = replicate 256 0, buffer_head = 0, buffer_tail = 0, left_shift = False, right_shift = False, caps_lock = False\<rparr>"

lemma kb_init_simps: "kb_wf kb_init" "kb_abs kb_init = \<lparr>pending = [], mod_left = False, mod_right = False, mod_caps = False\<rparr>"
  by (simp_all add: kb_wf_def kb_init_def kb_abs_def kb_count_def)

lemmas key_eval = spec_key_def us_keymap_def us_keymap_entries_def key_char_def isalpha_def toupper_def

theorem keyboard_delivers_in_order_witness:
  "fst (kb_run [Key 0x2A, Key 0x1E, Key 0xAA, Read, Key 0x30] kb_init) @
     pending (kb_abs (snd (kb_run [Key 0x2A, Key 0x1E, Key 0xAA, Read, Key 0x30] kb_init))) = [0x41, 0x62]"
proof -
  let ?ops = "[Key 0x2A, Key 0x1E, Key 0xAA, Read, Key 0x30]"
  obtain cs s' where run: "kb_run ?ops kb_init = (cs, s')" by fastforce
  have "spec_fits ?ops (kb_abs kb_init)" by (simp add: kb_init_simps key_eval)
  moreover have "fold spec_key (key_codes ?ops) (kb_abs kb_init) = \<lparr>pending = [0x41, 0x62], mod_left = False, mod_right = False, mod_caps = False\<rparr>"
    by (simp add: kb_init_simps key_eval)
  ultimately show ?thesis using keyboard_delivers_in_order [OF kb_init_simps(1) _ run] run by simp
qed

text \<open>A full ring looks empty: when 255 characters wait and one more character key is pressed, the driver reports
  an empty buffer and all 256 characters are lost.
\<close>

theorem keyboard_overflow_empties:
  assumes "kb_wf s" "kb_count s = 255" "code < 128" "code \<notin> {0x2A, 0x36, 0x3A}" "fst (us_keymap code) \<noteq> 0"
  shows "pending (kb_abs (key_event code s)) = [] \<and> ps2_get_char [] (key_event code s) = None"
proof -
  define t where "t = key_event code s"
  have c: "key_char code (left_shift s \<or> right_shift s) (caps_lock s) \<noteq> 0" by (rule key_char_nonzero [OF assms(5)])
  have t: "buffer_tail t = (buffer_tail s + 1) mod 256" "buffer_head t = buffer_head s"
    using assms(3-5) c scancode_split(1,2) [of code] by (simp_all add: t_def key_event_def Let_def)
  have b: "unat (buffer_head s) < 256" "unat (buffer_tail s) < 256" "buffer_tail s < 256" using assms(1) by (simp_all add: kb_wf_def word_less_nat_alt)
  have "unat (buffer_tail t) = unat (buffer_head t)"
    using ring_next [OF b(3)] assms(2) b t by (auto simp: kb_count_def mod_if split: if_splits)
  then have "buffer_head t = buffer_tail t" by (simp add: word_unat_eq_iff)
  then show ?thesis unfolding t_def [symmetric] by (simp add: ps2_get_char.simps kb_abs_def kb_count_def)
qed

theorem keyboard_overflow_empties_witness:
  "pending (kb_abs (key_event 0x1E (kb_init\<lparr>buffer_tail := 255\<rparr>))) = []"
  using keyboard_overflow_empties [of "kb_init\<lparr>buffer_tail := 255\<rparr>" "0x1E"]
  by (simp add: kb_wf_def kb_init_def kb_count_def us_keymap_def us_keymap_entries_def)

text \<open>A reader that waits is served: \<^verbatim>\<open>ps2_get_char\<close> returns as soon as an interrupt for a character key arrives,
  whatever modifier keys, releases and unmapped keys come before it.
\<close>

theorem ps2_get_char_returns:
  assumes "kb_wf s" "code \<in> set codes" "code < 128" "code \<notin> {0x2A, 0x36, 0x3A}" "fst (us_keymap code) \<noteq> 0"
  shows "\<exists>c codes' s'. ps2_get_char codes s = Some (c, codes', s') \<and> kb_wf s' \<and> suffix codes' codes"
  using assms(1,2)
proof (induction codes arbitrary: s)
  case Nil
  then show ?case by simp
next
  case (Cons k codes)
  show ?case
  proof (cases "buffer_head s = buffer_tail s")
    case True
    then have "pending (kb_abs s) = []" using kb_empty_iff [OF Cons.prems(1)] by simp
    then have "kb_count s < 255" by (simp add: kb_abs_def)
    note r = key_event_refines [OF Cons.prems(1) this, of k]
    have step: "ps2_get_char (k # codes) s = ps2_get_char codes (key_event k s)" using True by (subst ps2_get_char.simps) simp
    show ?thesis
    proof (cases "code = k")
      case k: True
      have "code \<noteq> 0xAA" "code \<noteq> 0xB6" using assms(3) by (auto simp: word_less_nat_alt)
      then have "pending (kb_abs (key_event k s)) \<noteq> []" using r k assms(3-5) by (simp add: spec_key_def)
      then have "buffer_head (key_event k s) \<noteq> buffer_tail (key_event k s)" using kb_empty_iff r by blast
      then obtain c q t where "ps2_get_char codes (key_event k s) = Some (c, codes, t)" "kb_wf t"
        using ps2_read_refines [of "key_event k s" codes] r by metis
      then show ?thesis unfolding step by (auto simp: suffix_def)
    next
      case False
      then show ?thesis unfolding step using Cons.IH [of "key_event k s"] r Cons.prems(2) by (auto intro: suffix_ConsI)
    qed
  next
    case False
    obtain c q t where "ps2_get_char (k # codes) s = Some (c, k # codes, t)" "kb_wf t"
      using ps2_read_refines [OF Cons.prems(1) False, of "k # codes"] by metis
    then show ?thesis by auto
  qed
qed

theorem ps2_get_char_returns_witness:
  "\<exists>c codes' s'. ps2_get_char [0x2A, 0xAA, 0x3A, 0x39] kb_init = Some (c, codes', s')"
  using ps2_get_char_returns [OF kb_init_simps(1), of "0x39" "[0x2A, 0xAA, 0x3A, 0x39]"]
  by (auto simp: us_keymap_def us_keymap_entries_def)

end
