(* ===== verification/Printf.thy ===== *)
theory Printf
  imports Cstring "HOL-Library.Sublist"
begin

text \<open>
  Formatted output, \<^verbatim>\<open>src/lib/libc/printf.c\<close>: the output functions, the parser of format strings, the integer, character,
  string and pointer conversions and the entry points. Arguments are the 32-bit stack slots of a variadic call. A result
  \<open>None\<close> stands for a format that runs forever, an argument that is not there, or a floating-point conversion
  (\<^verbatim>\<open>_ftoa\<close>, \<^verbatim>\<open>_etoa\<close>), which is not modelled. The locale \<open>printf_sink\<close> states what holds of every output function; it is
  interpreted for the buffer, the console and the null output.
\<close>

section \<open>Output\<close>

text \<open>Memory and the characters that have gone to \<^verbatim>\<open>_putchar\<close>. An output function takes the character, its index and the limit.\<close>

record pf_state =
  pf_mem :: memory
  pf_sent :: "u8 list"

type_synonym out_fct = "u8 \<Rightarrow> u32 \<Rightarrow> u32 \<Rightarrow> pf_state \<Rightarrow> pf_state"

definition out_buffer :: "u32 \<Rightarrow> out_fct" where
  "out_buffer buffer c idx maxlen s = (if idx < maxlen then s\<lparr>pf_mem := (pf_mem s)(buffer + idx := c)\<rparr> else s)"

definition out_null :: out_fct where
  "out_null c idx maxlen s = s"

definition out_char :: out_fct where
  "out_char c idx maxlen s = (if c \<noteq> 0 then s\<lparr>pf_sent := pf_sent s @ [c]\<rparr> else s)"

definition out_fct :: "(u8 \<Rightarrow> pf_state \<Rightarrow> pf_state) \<Rightarrow> out_fct" where
  "out_fct fct c idx maxlen s = (if c \<noteq> 0 then fct c s else s)"

text \<open>\<^verbatim>\<open>out(c, buffer, idx++, maxlen)\<close>\<close>

definition emit :: "out_fct \<Rightarrow> u32 \<Rightarrow> u8 \<Rightarrow> u32 \<times> pf_state \<Rightarrow> u32 \<times> pf_state" where
  "emit out maxlen c st = (fst st + 1, out c (fst st) maxlen (snd st))"

text \<open>\<^verbatim>\<open>for (i = from; i < width; i++)\<close> of spaces; the loops that count otherwise run the same number of times.\<close>

definition pad_spaces :: "out_fct \<Rightarrow> u32 \<Rightarrow> u32 \<Rightarrow> u32 \<Rightarrow> u32 \<times> pf_state \<Rightarrow> u32 \<times> pf_state" where
  "pad_spaces out maxlen from width = for_loop from width (\<lambda>_. emit out maxlen 0x20)"

section \<open>Flags\<close>

abbreviation (input) FLAGS_ZEROPAD :: u32 where "FLAGS_ZEROPAD \<equiv> 1"
abbreviation (input) FLAGS_LEFT :: u32 where "FLAGS_LEFT \<equiv> 2"
abbreviation (input) FLAGS_PLUS :: u32 where "FLAGS_PLUS \<equiv> 4"
abbreviation (input) FLAGS_SPACE :: u32 where "FLAGS_SPACE \<equiv> 8"
abbreviation (input) FLAGS_HASH :: u32 where "FLAGS_HASH \<equiv> 16"
abbreviation (input) FLAGS_UPPERCASE :: u32 where "FLAGS_UPPERCASE \<equiv> 32"
abbreviation (input) FLAGS_CHAR :: u32 where "FLAGS_CHAR \<equiv> 64"
abbreviation (input) FLAGS_SHORT :: u32 where "FLAGS_SHORT \<equiv> 128"
abbreviation (input) FLAGS_LONG :: u32 where "FLAGS_LONG \<equiv> 256"
abbreviation (input) FLAGS_LONG_LONG :: u32 where "FLAGS_LONG_LONG \<equiv> 512"
abbreviation (input) FLAGS_PRECISION :: u32 where "FLAGS_PRECISION \<equiv> 1024"

definition has :: "u32 \<Rightarrow> u32 \<Rightarrow> bool" where
  "has flags f \<longleftrightarrow> flags AND f \<noteq> 0"

section \<open>Numbers\<close>

text \<open>A conversion buffer is the list of the characters written to it, of which there are at most 32.\<close>

definition out_rev :: "out_fct \<Rightarrow> u32 \<Rightarrow> u8 list \<Rightarrow> u32 \<Rightarrow> u32 \<Rightarrow> u32 \<times> pf_state \<Rightarrow> u32 \<times> pf_state" where
  "out_rev out maxlen buf width flags st =
     (let start_idx = fst st;
          st = (if \<not> has flags FLAGS_LEFT \<and> \<not> has flags FLAGS_ZEROPAD then pad_spaces out maxlen (of_nat (length buf)) width st else st);
          st = fold (emit out maxlen) (rev buf) st
      in if has flags FLAGS_LEFT then pad_spaces out maxlen (fst st - start_idx) width st else st)"

function zero_fill :: "u32 \<Rightarrow> u8 list \<Rightarrow> u8 list" where
  "zero_fill n buf = (if length buf < unat n \<and> length buf < 32 then zero_fill n (buf @ [0x30]) else buf)"
  by pat_completeness auto
termination
  by (relation "measure (\<lambda>(n, buf). 32 - length buf)") auto

declare zero_fill.simps [simp del]

definition push_char :: "u8 \<Rightarrow> u8 list \<Rightarrow> u8 list" where
  "push_char c buf = (if length buf < 32 then buf @ [c] else buf)"

definition hash_prefix :: "u32 \<Rightarrow> u32 \<Rightarrow> u32 \<Rightarrow> u32 \<Rightarrow> u8 list \<Rightarrow> u8 list" where
  "hash_prefix base prec width flags buf =
     (let buf = (if \<not> has flags FLAGS_PRECISION \<and> buf \<noteq> [] \<and> (length buf = unat prec \<or> length buf = unat width)
                 then let buf = butlast buf in if buf \<noteq> [] \<and> base = 16 then butlast buf else buf
                 else buf);
          buf = (if base = 16 \<and> \<not> has flags FLAGS_UPPERCASE \<and> length buf < 32 then buf @ [0x78]
                 else if base = 16 \<and> has flags FLAGS_UPPERCASE \<and> length buf < 32 then buf @ [0x58]
                 else if base = 2 \<and> length buf < 32 then buf @ [0x62]
                 else buf)
      in push_char 0x30 buf)"

definition ntoa_format ::
    "out_fct \<Rightarrow> u32 \<Rightarrow> u8 list \<Rightarrow> bool \<Rightarrow> u32 \<Rightarrow> u32 \<Rightarrow> u32 \<Rightarrow> u32 \<Rightarrow> u32 \<times> pf_state \<Rightarrow> u32 \<times> pf_state" where
  "ntoa_format out maxlen buf negative base prec width flags st =
     (let (buf, width) =
            (if \<not> has flags FLAGS_LEFT
             then let width = (if width \<noteq> 0 \<and> has flags FLAGS_ZEROPAD \<and> (negative \<or> has flags (FLAGS_PLUS OR FLAGS_SPACE)) then width - 1 else width);
                      buf = zero_fill prec buf
                  in (if has flags FLAGS_ZEROPAD then zero_fill width buf else buf, width)
             else (buf, width));
          buf = (if has flags FLAGS_HASH then hash_prefix base prec width flags buf else buf);
          buf = (if length buf < 32
                 then if negative then buf @ [0x2D] else if has flags FLAGS_PLUS then buf @ [0x2B] else if has flags FLAGS_SPACE then buf @ [0x20] else buf
                 else buf)
      in out_rev out maxlen buf width flags st)"

definition digit_char :: "u32 \<Rightarrow> u8 \<Rightarrow> u8" where
  "digit_char flags digit = (if sint digit < 10 then 0x30 + digit else (if has flags FLAGS_UPPERCASE then 0x41 else 0x61) + digit - 10)"

function ntoa_digits :: "u32 \<Rightarrow> 'a::len word \<Rightarrow> 'a word \<Rightarrow> u8 list \<Rightarrow> u8 list" where
  "ntoa_digits flags base val buf =
     (let buf = buf @ [digit_char flags (ucast (val mod base))]; val = val div base
      in if val \<noteq> 0 \<and> length buf < 32 then ntoa_digits flags base val buf else buf)"
  by pat_completeness auto
termination
  by (relation "measure (\<lambda>(flags, base, val, buf). 32 - length buf)") auto

declare ntoa_digits.simps [simp del]

text \<open>\<^verbatim>\<open>_ntoa_long\<close> at 32 bits and \<^verbatim>\<open>_ntoa_long_long\<close> at 64 bits have the same body.\<close>

definition ntoa ::
    "out_fct \<Rightarrow> u32 \<Rightarrow> 'a::len word \<Rightarrow> bool \<Rightarrow> 'a word \<Rightarrow> u32 \<Rightarrow> u32 \<Rightarrow> u32 \<Rightarrow> u32 \<times> pf_state \<Rightarrow> u32 \<times> pf_state" where
  "ntoa out maxlen val negative base prec width flags st =
     (let flags = (if val = 0 then flags AND NOT FLAGS_HASH else flags);
          buf = (if \<not> has flags FLAGS_PRECISION \<or> val \<noteq> 0 then ntoa_digits flags base val [] else [])
      in ntoa_format out maxlen buf negative (ucast base) prec width flags st)"

definition ntoa_long :: "out_fct \<Rightarrow> u32 \<Rightarrow> u32 \<Rightarrow> bool \<Rightarrow> u32 \<Rightarrow> u32 \<Rightarrow> u32 \<Rightarrow> u32 \<Rightarrow> u32 \<times> pf_state \<Rightarrow> u32 \<times> pf_state" where
  "ntoa_long = ntoa"

definition ntoa_long_long :: "out_fct \<Rightarrow> u32 \<Rightarrow> u64 \<Rightarrow> bool \<Rightarrow> u64 \<Rightarrow> u32 \<Rightarrow> u32 \<Rightarrow> u32 \<Rightarrow> u32 \<times> pf_state \<Rightarrow> u32 \<times> pf_state" where
  "ntoa_long_long = ntoa"

section \<open>Format strings\<close>

definition is_digit_char :: "u8 \<Rightarrow> bool" where
  "is_digit_char ch \<longleftrightarrow> sint ch \<ge> 0x30 \<and> sint ch \<le> 0x39"

partial_function (option) atoi_loop :: "memory \<Rightarrow> u32 \<Rightarrow> u32 \<Rightarrow> (u32 \<times> u32) option" where
  "atoi_loop m str i =
     (if is_digit_char (m str) then atoi_loop m (str + 1) (i * 10 + (scast (m str) - 0x30)) else Some (i, str))"

text \<open>\<^verbatim>\<open>_atoi\<close>: the number and the position after it.\<close>

definition printf_atoi :: "memory \<Rightarrow> u32 \<Rightarrow> (u32 \<times> u32) option" where
  "printf_atoi m str = atoi_loop m str 0"

function strnlen_s :: "memory \<Rightarrow> u32 \<Rightarrow> u32 \<Rightarrow> u32" where
  "strnlen_s m s maxsize = (if m s \<noteq> 0 \<and> maxsize \<noteq> 0 then 1 + strnlen_s m (s + 1) (maxsize - 1) else 0)"
  by pat_completeness auto
termination
  by (relation "measure (\<lambda>(m, s, maxsize). unat maxsize)") (auto simp: unat_minus_one unat_gt_0)

declare strnlen_s.simps [simp del]

definition flag_of :: "u8 \<Rightarrow> u32" where
  "flag_of c = (if c = 0x30 then FLAGS_ZEROPAD else if c = 0x2D then FLAGS_LEFT else if c = 0x2B then FLAGS_PLUS
     else if c = 0x20 then FLAGS_SPACE else if c = 0x23 then FLAGS_HASH else 0)"

partial_function (option) parse_flags :: "memory \<Rightarrow> u32 \<Rightarrow> u32 \<Rightarrow> (u32 \<times> u32) option" where
  "parse_flags m format flags =
     (if flag_of (m format) \<noteq> 0 then parse_flags m (format + 1) (flags OR flag_of (m format)) else Some (format, flags))"

text \<open>The variable arguments are the stack slots of 32 bits; reading past them is \<open>None\<close>.\<close>

type_synonym va_list = "u32 list"

fun va_int :: "va_list \<Rightarrow> (u32 \<times> va_list) option" where
  "va_int [] = None"
| "va_int (x # va) = Some (x, va)"

fun va_long_long :: "va_list \<Rightarrow> (u64 \<times> va_list) option" where
  "va_long_long (lo # hi # va) = Some (ucast lo OR push_bit 32 (ucast hi), va)"
| "va_long_long va = None"

definition parse_width :: "memory \<Rightarrow> u32 \<Rightarrow> va_list \<Rightarrow> u32 \<Rightarrow> (u32 \<times> va_list \<times> u32 \<times> u32) option" where
  "parse_width m format va flags =
     (if is_digit_char (m format) then map_option (\<lambda>(width, format). (format, va, flags, width)) (printf_atoi m format)
      else if m format = 0x2A then
        map_option (\<lambda>(w, va). if sint w < 0 then (format + 1, va, flags OR FLAGS_LEFT, - w) else (format + 1, va, flags, w)) (va_int va)
      else Some (format, va, flags, 0))"

definition parse_precision :: "memory \<Rightarrow> u32 \<Rightarrow> va_list \<Rightarrow> u32 \<Rightarrow> (u32 \<times> va_list \<times> u32 \<times> u32) option" where
  "parse_precision m format va flags =
     (if m format = 0x2E then
        let flags = flags OR FLAGS_PRECISION; format = format + 1
        in if is_digit_char (m format) then map_option (\<lambda>(prec, format). (format, va, flags, prec)) (printf_atoi m format)
           else if m format = 0x2A then map_option (\<lambda>(prec, va). (format + 1, va, flags, if sint prec > 0 then prec else 0)) (va_int va)
           else Some (format, va, flags, 0)
      else Some (format, va, flags, 0))"

text \<open>\<^verbatim>\<open>ptrdiff_t\<close> and \<^verbatim>\<open>size_t\<close> have the size of \<^verbatim>\<open>long\<close>, \<^verbatim>\<open>intmax_t\<close> that of \<^verbatim>\<open>long long\<close>.\<close>

definition parse_length :: "memory \<Rightarrow> u32 \<Rightarrow> u32 \<Rightarrow> u32 \<times> u32" where
  "parse_length m format flags =
     (if m format = 0x6C then
        if m (format + 1) = 0x6C then (format + 2, flags OR FLAGS_LONG OR FLAGS_LONG_LONG) else (format + 1, flags OR FLAGS_LONG)
      else if m format = 0x68 then
        if m (format + 1) = 0x68 then (format + 2, flags OR FLAGS_SHORT OR FLAGS_CHAR) else (format + 1, flags OR FLAGS_SHORT)
      else if m format = 0x74 then (format + 1, flags OR FLAGS_LONG)
      else if m format = 0x6A then (format + 1, flags OR FLAGS_LONG_LONG)
      else if m format = 0x7A then (format + 1, flags OR FLAGS_LONG)
      else (format, flags))"

text \<open>The integer conversions. The absolute value wraps at the least number.\<close>

definition conv_integer ::
    "out_fct \<Rightarrow> u32 \<Rightarrow> u8 \<Rightarrow> va_list \<Rightarrow> u32 \<Rightarrow> u32 \<Rightarrow> u32 \<Rightarrow> u32 \<times> pf_state \<Rightarrow> (va_list \<times> u32 \<times> pf_state) option" where
  "conv_integer out maxlen c va prec width flags st =
     (let base = (if c = 0x78 \<or> c = 0x58 then 16 else if c = 0x6F then 8 else if c = 0x62 then 2 else 10 :: u32);
          flags = (if base = 10 then flags AND NOT FLAGS_HASH else flags);
          flags = (if c = 0x58 then flags OR FLAGS_UPPERCASE else flags);
          flags = (if c \<noteq> 0x69 \<and> c \<noteq> 0x64 then flags AND NOT (FLAGS_PLUS OR FLAGS_SPACE) else flags);
          flags = (if has flags FLAGS_PRECISION then flags AND NOT FLAGS_ZEROPAD else flags)
      in if c = 0x69 \<or> c = 0x64 then
           if has flags FLAGS_LONG_LONG then
             map_option (\<lambda>(val, va). (va, ntoa_long_long out maxlen (if sint val > 0 then val else - val) (sint val < 0) (ucast base) prec width flags st)) (va_long_long va)
           else if has flags FLAGS_LONG then
             map_option (\<lambda>(val, va). (va, ntoa_long out maxlen (if sint val > 0 then val else - val) (sint val < 0) base prec width flags st)) (va_int va)
           else
             map_option (\<lambda>(arg, va).
               let val = (if has flags FLAGS_CHAR then scast (ucast arg :: u8) else if has flags FLAGS_SHORT then scast (ucast arg :: u16) else arg)
               in (va, ntoa_long out maxlen (if sint val > 0 then val else - val) (sint val < 0) base prec width flags st)) (va_int va)
         else
           if has flags FLAGS_LONG_LONG then
             map_option (\<lambda>(val, va). (va, ntoa_long_long out maxlen val False (ucast base) prec width flags st)) (va_long_long va)
           else if has flags FLAGS_LONG then
             map_option (\<lambda>(val, va). (va, ntoa_long out maxlen val False base prec width flags st)) (va_int va)
           else
             map_option (\<lambda>(arg, va).
               let val = (if has flags FLAGS_CHAR then ucast (ucast arg :: u8) else if has flags FLAGS_SHORT then ucast (ucast arg :: u16) else arg)
               in (va, ntoa_long out maxlen val False base prec width flags st)) (va_int va))"

definition conv_char :: "out_fct \<Rightarrow> u32 \<Rightarrow> va_list \<Rightarrow> u32 \<Rightarrow> u32 \<Rightarrow> u32 \<times> pf_state \<Rightarrow> (va_list \<times> u32 \<times> pf_state) option" where
  "conv_char out maxlen va width flags st =
     map_option (\<lambda>(arg, va).
       let st = (if \<not> has flags FLAGS_LEFT then pad_spaces out maxlen 1 width st else st);
           st = emit out maxlen (ucast arg) st
       in (va, if has flags FLAGS_LEFT then pad_spaces out maxlen 1 width st else st)) (va_int va)"

partial_function (option) string_out :: "out_fct \<Rightarrow> u32 \<Rightarrow> u32 \<Rightarrow> u32 \<Rightarrow> u32 \<Rightarrow> u32 \<times> pf_state \<Rightarrow> (u32 \<times> pf_state) option" where
  "string_out out maxlen p prec flags st =
     (let c = pf_mem (snd st) p
      in if c \<noteq> 0 \<and> (\<not> has flags FLAGS_PRECISION \<or> prec \<noteq> 0)
         then string_out out maxlen (p + 1) (if has flags FLAGS_PRECISION then prec - 1 else prec) flags (emit out maxlen c st)
         else Some st)"

definition conv_string :: "out_fct \<Rightarrow> u32 \<Rightarrow> va_list \<Rightarrow> u32 \<Rightarrow> u32 \<Rightarrow> u32 \<Rightarrow> u32 \<times> pf_state \<Rightarrow> (va_list \<times> u32 \<times> pf_state) option" where
  "conv_string out maxlen va prec width flags st =
     Option.bind (va_int va) (\<lambda>(p, va).
       let l = strnlen_s (pf_mem (snd st)) p (if prec \<noteq> 0 then prec else - 1);
           l = (if has flags FLAGS_PRECISION then if l < prec then l else prec else l);
           st = (if \<not> has flags FLAGS_LEFT then pad_spaces out maxlen l width st else st)
       in map_option (\<lambda>st. (va, if has flags FLAGS_LEFT then pad_spaces out maxlen l width st else st)) (string_out out maxlen p prec flags st))"

definition conv_pointer :: "out_fct \<Rightarrow> u32 \<Rightarrow> va_list \<Rightarrow> u32 \<Rightarrow> u32 \<Rightarrow> u32 \<times> pf_state \<Rightarrow> (va_list \<times> u32 \<times> pf_state) option" where
  "conv_pointer out maxlen va prec flags st =
     map_option (\<lambda>(p, va). (va, ntoa_long out maxlen p False 16 prec 8 (flags OR (FLAGS_ZEROPAD OR FLAGS_UPPERCASE)) st)) (va_int va)"

text \<open>The conversion for a specifier. The floating-point conversions are not modelled and are \<open>None\<close>.\<close>

definition convert ::
    "out_fct \<Rightarrow> u32 \<Rightarrow> u8 \<Rightarrow> va_list \<Rightarrow> u32 \<Rightarrow> u32 \<Rightarrow> u32 \<Rightarrow> u32 \<times> pf_state \<Rightarrow> (va_list \<times> u32 \<times> pf_state) option" where
  "convert out maxlen c va prec width flags st =
     (if c \<in> {0x64, 0x69, 0x75, 0x78, 0x58, 0x6F, 0x62} then conv_integer out maxlen c va prec width flags st
      else if c \<in> {0x66, 0x46, 0x65, 0x45, 0x67, 0x47} then None
      else if c = 0x63 then conv_char out maxlen va width flags st
      else if c = 0x73 then conv_string out maxlen va prec width flags st
      else if c = 0x70 then conv_pointer out maxlen va prec flags st
      else if c = 0x25 then Some (va, emit out maxlen 0x25 st)
      else Some (va, emit out maxlen c st))"

text \<open>One directive after the percent sign: the position after it, the arguments left and the output.\<close>

definition directive :: "out_fct \<Rightarrow> u32 \<Rightarrow> u32 \<Rightarrow> va_list \<Rightarrow> u32 \<times> pf_state \<Rightarrow> (u32 \<times> va_list \<times> u32 \<times> pf_state) option" where
  "directive out maxlen format va st =
     (let m = pf_mem (snd st)
      in Option.bind (parse_flags m format 0) (\<lambda>(format, flags).
         Option.bind (parse_width m format va flags) (\<lambda>(format, va, flags, width).
         Option.bind (parse_precision m format va flags) (\<lambda>(format, va, flags, prec).
         let (format, flags) = parse_length m format flags
         in map_option (\<lambda>(va, st). (format + 1, va, st)) (convert out maxlen (m format) va prec width flags st)))))"

partial_function (option) format_loop :: "out_fct \<Rightarrow> u32 \<Rightarrow> u32 \<Rightarrow> va_list \<Rightarrow> u32 \<times> pf_state \<Rightarrow> (u32 \<times> pf_state) option" where
  "format_loop out maxlen format va st =
     (let c = pf_mem (snd st) format
      in if c = 0 then Some st
         else if c \<noteq> 0x25 then format_loop out maxlen (format + 1) va (emit out maxlen c st)
         else Option.bind (directive out maxlen (format + 1) va st) (\<lambda>(format, va, st). format_loop out maxlen format va st))"

definition internal_vsnprintf :: "out_fct \<Rightarrow> u32 \<Rightarrow> u32 \<Rightarrow> va_list \<Rightarrow> pf_state \<Rightarrow> (int \<times> pf_state) option" where
  "internal_vsnprintf out maxlen format va s =
     map_option (\<lambda>(idx, s). (sint idx, out 0 (if idx < maxlen then idx else maxlen - 1) maxlen s)) (format_loop out maxlen format va (0, s))"

section \<open>Entry points\<close>

definition printf :: "u32 \<Rightarrow> va_list \<Rightarrow> pf_state \<Rightarrow> (int \<times> pf_state) option" where
  "printf format va = internal_vsnprintf out_char (- 1) format va"

definition sprintf :: "u32 \<Rightarrow> u32 \<Rightarrow> va_list \<Rightarrow> pf_state \<Rightarrow> (int \<times> pf_state) option" where
  "sprintf buffer format va = internal_vsnprintf (if buffer = 0 then out_null else out_buffer buffer) (- 1) format va"

definition snprintf :: "u32 \<Rightarrow> u32 \<Rightarrow> u32 \<Rightarrow> va_list \<Rightarrow> pf_state \<Rightarrow> (int \<times> pf_state) option" where
  "snprintf buffer count format va = internal_vsnprintf (if buffer = 0 then out_null else out_buffer buffer) count format va"

definition vprintf :: "u32 \<Rightarrow> va_list \<Rightarrow> pf_state \<Rightarrow> (int \<times> pf_state) option" where
  "vprintf format va = internal_vsnprintf out_char (- 1) format va"

definition vsnprintf :: "u32 \<Rightarrow> u32 \<Rightarrow> u32 \<Rightarrow> va_list \<Rightarrow> pf_state \<Rightarrow> (int \<times> pf_state) option" where
  "vsnprintf buffer count format va = internal_vsnprintf (if buffer = 0 then out_null else out_buffer buffer) count format va"

definition vfctprintf :: "(u8 \<Rightarrow> pf_state \<Rightarrow> pf_state) \<Rightarrow> u32 \<Rightarrow> va_list \<Rightarrow> pf_state \<Rightarrow> (int \<times> pf_state) option" where
  "vfctprintf fct format va = internal_vsnprintf (out_fct fct) (- 1) format va"

definition fctprintf :: "(u8 \<Rightarrow> pf_state \<Rightarrow> pf_state) \<Rightarrow> u32 \<Rightarrow> va_list \<Rightarrow> pf_state \<Rightarrow> (int \<times> pf_state) option" where
  "fctprintf fct format va = internal_vsnprintf (out_fct fct) (- 1) format va"

section \<open>What a call may change\<close>

text \<open>
  A sink is an output function together with a relation between states that its calls keep. Everything the formatter does
  is a sequence of calls of the sink, so the relation holds between the state before and after.
\<close>

locale printf_sink =
  fixes out :: out_fct and maxlen :: u32 and frame :: "pf_state \<Rightarrow> pf_state \<Rightarrow> bool"
  assumes frame_refl: "frame s s"
    and frame_trans: "frame s t \<Longrightarrow> frame t u \<Longrightarrow> frame s u"
    and frame_out: "frame s (out c idx maxlen s)"
begin

lemma frame_emit: "frame (snd st) (snd (emit out maxlen c st))"
  by (simp add: emit_def frame_out)

lemma frame_fold: "frame (snd st) (snd (fold (emit out maxlen) cs st))"
proof (induction cs arbitrary: st)
  case (Cons c cs)
  show ?case using frame_trans [OF frame_emit Cons.IH] by simp
qed (simp add: frame_refl)

lemma frame_pad: "frame (snd st) (snd (pad_spaces out maxlen i w st))"
  unfolding pad_spaces_def
  by (rule for_loop_invariant [where P = "\<lambda>st'. frame (snd st) (snd st')"]) (auto intro: frame_refl frame_trans [OF _ frame_emit])

lemma frame_out_rev: "frame (snd st) (snd (out_rev out maxlen buf width flags st))"
proof -
  define st1 where "st1 = (if \<not> has flags 2 \<and> \<not> has flags 1 then pad_spaces out maxlen (of_nat (length buf)) width st else st)"
  have 1: "frame (snd st) (snd st1)" by (simp add: st1_def frame_pad frame_refl)
  have 2: "frame (snd st1) (snd (fold (emit out maxlen) (rev buf) st1))" by (rule frame_fold)
  show ?thesis using frame_trans [OF 1 2] frame_trans [OF frame_trans [OF 1 2] frame_pad]
    by (simp add: out_rev_def Let_def st1_def [symmetric])
qed

lemma frame_ntoa: "frame (snd st) (snd (ntoa out maxlen val negative base prec width flags st))"
  by (simp add: ntoa_def ntoa_format_def Let_def frame_out_rev split: prod.splits)

lemma frame_integer: "conv_integer out maxlen c va prec width flags st = Some (va', st') \<Longrightarrow> frame (snd st) (snd st')"
  by (auto simp: conv_integer_def ntoa_long_def ntoa_long_long_def Let_def frame_ntoa split: if_splits)

lemma frame_char: "conv_char out maxlen va width flags st = Some (va', st') \<Longrightarrow> frame (snd st) (snd st')"
  by (auto simp: conv_char_def Let_def intro: frame_trans [OF frame_emit frame_pad] frame_trans [OF frame_pad frame_emit])

lemma frame_string_out:
  assumes "string_out out maxlen p prec flags st = Some st'"
  shows "frame (snd st) (snd st')"
proof (rule mp [OF mp [OF string_out.raw_induct [where P = "\<lambda>out' maxlen' p prec flags st st'. out' = out \<longrightarrow> maxlen' = maxlen \<longrightarrow> frame (snd st) (snd st')",
      OF _ assms] refl] refl])
  fix f out' maxlen' p prec flags st st'
  assume ih: "\<And>out' maxlen' p prec flags st st'. f out' maxlen' p prec flags st = Some st' \<Longrightarrow>
      out' = out \<longrightarrow> maxlen' = maxlen \<longrightarrow> frame (snd st) (snd st')"
    and run: "(let c = pf_mem (snd st) p
      in if c \<noteq> 0 \<and> (\<not> has flags 1024 \<or> prec \<noteq> 0)
         then f out' maxlen' (p + 1) (if has flags 1024 then prec - 1 else prec) flags (emit out' maxlen' c st)
         else Some st) = Some st'"
  show "out' = out \<longrightarrow> maxlen' = maxlen \<longrightarrow> frame (snd st) (snd st')"
  proof (cases "pf_mem (snd st) p \<noteq> 0 \<and> (\<not> has flags 1024 \<or> prec \<noteq> 0)")
    case True
    then have "f out' maxlen' (p + 1) (if has flags 1024 then prec - 1 else prec) flags (emit out' maxlen' (pf_mem (snd st) p) st) = Some st'"
      using run by (simp add: Let_def)
    from ih [OF this] show ?thesis using frame_trans [OF frame_emit] by blast
  next
    case False
    then show ?thesis using run by (auto simp: Let_def frame_refl)
  qed
qed

lemma frame_string: "conv_string out maxlen va prec width flags st = Some (va', st') \<Longrightarrow> frame (snd st) (snd st')"
proof -
  assume c: "conv_string out maxlen va prec width flags st = Some (va', st')"
  then obtain p va1 where va: "va_int va = Some (p, va1)" by (auto simp: conv_string_def bind_eq_Some_conv)
  define l where "l = (let l = strnlen_s (pf_mem (snd st)) p (if prec \<noteq> 0 then prec else - 1)
    in if has flags 1024 then if l < prec then l else prec else l)"
  define st1 where 1: "st1 = (if \<not> has flags 2 then pad_spaces out maxlen l width st else st)"
  obtain st2 where 2: "string_out out maxlen p prec flags st1 = Some st2"
    and 3: "st' = (if has flags 2 then pad_spaces out maxlen l width st2 else st2)"
  proof -
    have "conv_string out maxlen va prec width flags st =
        map_option (\<lambda>st. (va1, if has flags 2 then pad_spaces out maxlen l width st else st)) (string_out out maxlen p prec flags st1)"
      by (simp add: conv_string_def va Let_def l_def 1)
    then show ?thesis using c that by (cases "string_out out maxlen p prec flags st1") simp_all
  qed
  have "frame (snd st) (snd st1)" by (simp add: 1 frame_pad frame_refl)
  moreover have "frame (snd st2) (snd st')" by (simp add: 3 frame_pad frame_refl)
  ultimately show ?thesis using frame_string_out [OF 2] frame_trans by blast
qed

lemma frame_convert: "convert out maxlen c va prec width flags st = Some (va', st') \<Longrightarrow> frame (snd st) (snd st')"
  by (auto simp: convert_def conv_pointer_def ntoa_long_def frame_emit frame_ntoa
      dest: frame_integer frame_char frame_string split: if_splits)

lemma frame_directive: "directive out maxlen p va st = Some (p', va', st') \<Longrightarrow> frame (snd st) (snd st')"
  by (auto simp: directive_def Let_def bind_eq_Some_conv case_prod_beta dest: frame_convert)

lemma frame_format:
  assumes "format_loop out maxlen p va st = Some st'"
  shows "frame (snd st) (snd st')"
proof (rule mp [OF mp [OF format_loop.raw_induct [where P = "\<lambda>out' maxlen' p va st st'. out' = out \<longrightarrow> maxlen' = maxlen \<longrightarrow> frame (snd st) (snd st')",
      OF _ assms] refl] refl])
  fix f out' maxlen' p va st st'
  assume ih: "\<And>out' maxlen' p va st st'. f out' maxlen' p va st = Some st' \<Longrightarrow> out' = out \<longrightarrow> maxlen' = maxlen \<longrightarrow> frame (snd st) (snd st')"
    and run: "(let c = pf_mem (snd st) p
      in if c = 0 then Some st
         else if c \<noteq> 0x25 then f out' maxlen' (p + 1) va (emit out' maxlen' c st)
         else Option.bind (directive out' maxlen' (p + 1) va st) (\<lambda>(format, va, st). f out' maxlen' format va st)) = Some st'"
  show "out' = out \<longrightarrow> maxlen' = maxlen \<longrightarrow> frame (snd st) (snd st')"
  proof (intro impI)
    assume eq: "out' = out" "maxlen' = maxlen"
    consider "pf_mem (snd st) p = 0" | "pf_mem (snd st) p \<noteq> 0" "pf_mem (snd st) p \<noteq> 0x25" | "pf_mem (snd st) p = 0x25" by blast
    then show "frame (snd st) (snd st')"
    proof cases
      case 1
      then show "frame (snd st) (snd st')" using run by (simp add: frame_refl)
    next
      case 2
      then have "f out maxlen (p + 1) va (emit out maxlen (pf_mem (snd st) p) st) = Some st'" using run eq by (simp add: Let_def)
      from ih [OF this] show "frame (snd st) (snd st')" using frame_trans [OF frame_emit] by simp
    next
      case 3
      then obtain p1 va1 st1 where d: "directive out maxlen (p + 1) va st = Some (p1, va1, st1)" "f out maxlen p1 va1 st1 = Some st'"
        using run eq by (auto simp: Let_def bind_eq_Some_conv)
      from ih [OF d(2)] show "frame (snd st) (snd st')" using frame_trans [OF frame_directive [OF d(1)]] by simp
    qed
  qed
qed

lemma frame_vsnprintf: "internal_vsnprintf out maxlen p va s = Some (r, s') \<Longrightarrow> frame s s'"
proof -
  assume "internal_vsnprintf out maxlen p va s = Some (r, s')"
  then obtain idx t i where t: "format_loop out maxlen p va (0, s) = Some (idx, t)" "s' = out 0 i maxlen t"
    by (auto simp: internal_vsnprintf_def)
  then show ?thesis using frame_format [OF t(1)] frame_out frame_trans by auto
qed

end

text \<open>Memory outside the \<open>n\<close> bytes at \<open>b\<close>, and what has been sent, are the same.\<close>

definition buffer_frame :: "u32 \<Rightarrow> u32 \<Rightarrow> pf_state \<Rightarrow> pf_state \<Rightarrow> bool" where
  "buffer_frame b n s t \<longleftrightarrow> pf_sent t = pf_sent s \<and> (\<forall>a. \<not> a - b < n \<longrightarrow> pf_mem t a = pf_mem s a)"

interpretation buf: printf_sink "out_buffer b" n "buffer_frame b n" for b n
  by unfold_locales (auto simp: buffer_frame_def out_buffer_def)

interpretation con: printf_sink out_char n "\<lambda>s t. pf_mem t = pf_mem s \<and> prefix (pf_sent s) (pf_sent t)" for n
  by unfold_locales (auto simp: out_char_def intro: prefix_order.trans)

interpretation nul: printf_sink out_null n "(=)" for n
  by unfold_locales (auto simp: out_null_def)

section \<open>What a conversion writes\<close>

lemma fold_const: "length xs = n \<Longrightarrow> fold (\<lambda>_. f) xs st = fold (\<lambda>c. g c) (replicate n c0) st" if "g c0 = f" for f g
  using that by (induction xs arbitrary: n st) (auto simp: funpow_swap1)

lemma pad_spaces_eq: "pad_spaces out maxlen i w st = fold (emit out maxlen) (replicate (unat w - unat i) 0x20) st"
  unfolding pad_spaces_def for_loop_def by (rule fold_const) simp_all

text \<open>The characters of a number before padding, and with zeros up to a width.\<close>

lemma zero_fill_eq: "zero_fill n buf = buf @ replicate (min (unat n) 32 - length buf) 0x30"
proof (induction n buf rule: zero_fill.induct)
  case (1 n buf)
  show ?case
  proof (cases "length buf < unat n \<and> length buf < 32")
    case True
    then have "min (unat n) 32 - length buf = Suc (min (unat n) 32 - length (buf @ [0x30]))" by auto
    then show ?thesis using True 1 by (subst zero_fill.simps) (simp del: replicate_Suc add: replicate_Suc [symmetric])
  next
    case False
    then show ?thesis by (subst zero_fill.simps) auto
  qed
qed

lemma ntoa_plain:
  "ntoa out maxlen val negative base 0 0 0 st =
     fold (emit out maxlen) (let ds = ntoa_digits 0 base val [] in (if negative \<and> length ds < 32 then [0x2D] else []) @ rev ds) st"
proof -
  have h: "\<not> has 0 f" "0 AND NOT f = (0 :: u32)" for f by (simp_all add: has_def)
  show ?thesis
    by (simp add: ntoa_def ntoa_format_def h Let_def zero_fill_eq out_rev_def pad_spaces_eq)
qed

lemma ntoa_zeros:
  "ntoa out maxlen val False base 0 width 1 st =
     fold (emit out maxlen) (rev (zero_fill width (ntoa_digits 1 base val []))) st"
proof -
  have h: "has 1 1" "\<not> has 1 2" "\<not> has 1 4" "\<not> has 1 8" "\<not> has 1 16" "\<not> has 1 1024" "\<not> has 1 12" "1 AND NOT 16 = (1 :: u32)"
    by (simp_all add: has_def)
  show ?thesis
    by (simp add: ntoa_def ntoa_format_def h Let_def zero_fill_eq [of 0] out_rev_def)
qed

text \<open>The digits of a number in a base from 2 to 16.\<close>

lemma digit_char_hex:
  assumes "d < 16"
  shows "hex_digit (digit_char flags (of_nat d)) = Some (of_nat d)" "digit_char flags (of_nat d) \<noteq> 0"
proof -
  have "list_all (\<lambda>d. hex_digit (digit_char flags (of_nat d)) = Some (of_nat d) \<and> digit_char flags (of_nat d) \<noteq> 0)
      [0, 1, 2, 3, 4, 5, 6, 7, 8, 9, 10, 11, 12, 13, 14, 15]"
    by (cases "has flags 32") (simp_all add: digit_char_def hex_digit_def)
  moreover have "d \<in> set [0, 1, 2, 3, 4, 5, 6, 7, 8, 9, 10, 11, 12, 13, 14, 15]" using assms by (simp; presburger)
  ultimately show "hex_digit (digit_char flags (of_nat d)) = Some (of_nat d)" "digit_char flags (of_nat d) \<noteq> 0"
    by (auto simp: list_all_iff)
qed

lemma ntoa_digits_spec:
  fixes val base :: u32
  assumes "2 \<le> unat base" "unat base \<le> 16" "unat val < unat base ^ k" "length buf + k \<le> 32" "0 < k"
  shows "\<exists>ds. ntoa_digits flags base val buf = buf @ ds \<and> ds \<noteq> [] \<and> length ds \<le> k \<and> digits_of (unat base) (rev ds) \<and>
    digits_value (unat base) (rev ds) 0 = unat val \<and> (\<forall>c \<in> set ds. c \<noteq> 0)"
  using assms
proof (induction k arbitrary: val buf)
  case 0
  then show ?case by simp
next
  case (Suc k)
  let ?d = "unat val mod unat base"
  let ?c = "digit_char flags (of_nat ?d)"
  have d: "?d < unat base" using Suc.prems(1) by simp
  then have d16: "?d < 16" using Suc.prems(2) by simp
  have uc: "ucast (val mod base) = (of_nat ?d :: u8)" by (simp add: unat_mod [symmetric])
  have hex: "hex_digit ?c = Some (of_nat ?d)" "?c \<noteq> 0" using digit_char_hex [OF d16] by simp_all
  have ud: "unat (of_nat ?d :: u32) = ?d" using d16 by (intro unat_of_nat_small) simp
  have one: "digits_of (unat base) [?c]" "digits_value (unat base) [?c] 0 = ?d"
    using hex ud d by (simp_all add: digits_of_def)
  have dv: "unat (val div base) = unat val div unat base" by (simp add: unat_div)
  have split: "unat val = unat val div unat base * unat base + ?d" by simp
  show ?case
  proof (cases "val div base = 0")
    case True
    then have "unat val div unat base = 0" using dv by simp
    then have "?d = unat val" using split by simp
    then show ?thesis using True one hex uc by (subst ntoa_digits.simps) (auto simp: Let_def)
  next
    case False
    have lt: "unat (val div base) < unat base ^ k" unfolding dv using Suc.prems(1,3) by (simp add: less_mult_imp_div_less mult.commute)
    have k: "0 < k" using False lt by (cases k) (simp_all add: unat_eq_zero)
    have len: "length (buf @ [?c]) + k \<le> 32" using Suc.prems(4) by simp
    obtain ds where ds: "ntoa_digits flags base (val div base) (buf @ [?c]) = (buf @ [?c]) @ ds" "ds \<noteq> []" "length ds \<le> k"
      "digits_of (unat base) (rev ds)" "digits_value (unat base) (rev ds) 0 = unat (val div base)" "\<forall>c \<in> set ds. c \<noteq> 0"
      using Suc.IH [OF Suc.prems(1,2) lt len k] by blast
    have "ntoa_digits flags base val buf = buf @ ?c # ds"
      using False ds(1) len k uc by (subst ntoa_digits.simps) (simp add: Let_def)
    moreover have "digits_value (unat base) (rev (?c # ds)) 0 = unat val"
      using ds(5) hex ud dv split by (simp add: digits_value_snoc)
    moreover have "digits_of (unat base) (rev (?c # ds))" using ds(4) one(1) by (auto simp: digits_of_def)
    ultimately show ?thesis using ds(3,6) hex(2) by (intro exI [of _ "?c # ds"]) simp
  qed
qed

section \<open>Text in a buffer\<close>

text \<open>Emitting a text to a buffer writes as much of it as fits.\<close>

lemma unat_of_nat_u32: "n < 2 ^ 32 \<Longrightarrow> unat (of_nat n :: u32) = n"
  by (rule unat_of_nat_small) simp

fun write_bytes :: "u32 \<Rightarrow> u8 list \<Rightarrow> memory \<Rightarrow> memory" where
  "write_bytes p [] m = m"
| "write_bytes p (c # cs) m = write_bytes (p + 1) cs (m(p := c))"

lemma write_bytes_other: "\<forall>i < length cs. a \<noteq> p + of_nat i \<Longrightarrow> write_bytes p cs m a = m a"
proof (induction cs arbitrary: p m)
  case (Cons c cs)
  have "a \<noteq> p" using Cons.prems [rule_format, of 0] by simp
  moreover have "\<forall>i < length cs. a \<noteq> p + 1 + of_nat i"
  proof (intro allI impI)
    fix i assume "i < length cs"
    then show "a \<noteq> p + 1 + of_nat i" using Cons.prems [rule_format, of "Suc i"] by (simp add: add.assoc)
  qed
  ultimately have "write_bytes (p + 1) cs (m(p := c)) a = (m(p := c)) a" by (intro Cons.IH)
  then show ?case using \<open>a \<noteq> p\<close> by simp
qed simp

lemma write_bytes_upd: "\<forall>i < length cs. z \<noteq> p + of_nat i \<Longrightarrow> write_bytes p cs (m(z := v)) = (write_bytes p cs m)(z := v)"
proof (induction cs arbitrary: p m)
  case (Cons c cs)
  have "z \<noteq> p" using Cons.prems [rule_format, of 0] by simp
  moreover have "\<forall>i < length cs. z \<noteq> p + 1 + of_nat i"
  proof (intro allI impI)
    fix i assume "i < length cs"
    then show "z \<noteq> p + 1 + of_nat i" using Cons.prems [rule_format, of "Suc i"] by (simp add: add.assoc)
  qed
  ultimately have ih: "write_bytes (p + 1) cs (m(p := c, z := v)) = (write_bytes (p + 1) cs (m(p := c)))(z := v)" by (intro Cons.IH)
  have "m(z := v, p := c) = m(p := c, z := v)" using \<open>z \<noteq> p\<close> by (rule fun_upd_twist)
  then show ?case unfolding write_bytes.simps using ih by (simp only:)
qed simp

lemma write_bytes_cstr:
  assumes "unat p + length cs < 2 ^ 32" "\<forall>c \<in> set cs. c \<noteq> 0" "m (p + of_nat (length cs)) = 0"
  shows "cstr (write_bytes p cs m) p cs"
  using assms
proof (induction cs arbitrary: p m)
  case (Cons c cs)
  have up: "unat (p + 1) = unat p + 1" using Cons.prems(1) by (subst unat_add_small) simp_all
  have far: "p \<noteq> p + 1 + of_nat i" if "i < length cs" for i
  proof -
    have "unat (p + 1 + of_nat i) = unat p + 1 + i" using that Cons.prems(1) up by (subst unat_add_small) (simp_all add: unat_of_nat_small)
    then show ?thesis by (metis add.assoc add_cancel_left_right add_is_0 one_neq_zero)
  qed
  then have "write_bytes (p + 1) cs (m(p := c)) p = c" by (subst write_bytes_other) auto
  moreover have "cstr (write_bytes (p + 1) cs (m(p := c))) (p + 1) cs"
  proof (rule Cons.IH)
    have "unat (of_nat (length (c # cs)) :: u32) = length (c # cs)" using Cons.prems(1) by (intro unat_of_nat_u32) linarith
    then have "unat (p + of_nat (length (c # cs))) = unat p + length (c # cs)" using Cons.prems(1) by (subst unat_add_small) (simp_all only: len_bit0 len_num1 numeral_times_numeral semiring_norm mult_1_right)
    then have "p + of_nat (length (c # cs)) \<noteq> p" by (metis add_cancel_left_right length_0_conv list.distinct(1))
    then show "(m(p := c)) (p + 1 + of_nat (length cs)) = 0" using Cons.prems(3) by (simp add: add.assoc)
  qed (use Cons.prems up in simp_all)
  ultimately show ?case using Cons.prems(2) by simp
qed simp

lemma fold_emit_buffer:
  assumes "unat i + length cs \<le> unat n"
  shows "fold (emit (out_buffer b) n) cs (i, s) = (i + of_nat (length cs), s\<lparr>pf_mem := write_bytes (b + i) cs (pf_mem s)\<rparr>)"
  using assms
proof (induction cs arbitrary: i s)
  case (Cons c cs)
  have lt: "unat i < unat n" using Cons.prems by simp
  have n32: "unat n < 2 ^ 32" using unsigned_less [of n, where 'a = nat] by simp
  have "unat (i + 1) = unat i + 1" using lt unat_inc_less [of i n] by (simp add: word_less_nat_alt)
  then have "unat (i + 1) + length cs \<le> unat n" using Cons.prems by simp
  note ih = Cons.IH [OF this, of "s\<lparr>pf_mem := (pf_mem s)(b + i := c)\<rparr>"]
  have "emit (out_buffer b) n c (i, s) = (i + 1, s\<lparr>pf_mem := (pf_mem s)(b + i := c)\<rparr>)"
    using lt by (simp add: emit_def out_buffer_def word_less_nat_alt)
  then have "fold (emit (out_buffer b) n) (c # cs) (i, s) = fold (emit (out_buffer b) n) cs (i + 1, s\<lparr>pf_mem := (pf_mem s)(b + i := c)\<rparr>)"
    by (simp only: fold_simps)
  moreover have "i + 1 + of_nat (length cs) = i + of_nat (length (c # cs))" "b + (i + 1) = b + i + 1" by simp_all
  ultimately show ?case using ih by (cases s) (simp only: write_bytes.simps pf_state.simps)
qed simp

text \<open>A text written to a buffer that is large enough and terminated there.\<close>

lemma text_terminated:
  fixes n b :: u32
  assumes "length xs < unat n" "unat b + unat n \<le> 2 ^ 32" "\<forall>c \<in> set xs. c \<noteq> 0"
  shows "unat (of_nat (length xs) :: u32) = length xs" (is "unat ?l = _")
    "cstr ((write_bytes b xs m)(b + of_nat (length xs) := 0)) b xs"
    "\<not> a - b < n \<Longrightarrow> ((write_bytes b xs m)(b + of_nat (length xs) := 0)) a = m a"
proof -
  have n32: "unat n < 2 ^ 32" using unsigned_less [of n, where 'a = nat] by simp
  show l: "unat ?l = length xs" by (intro unat_of_nat_u32) (use assms(1) n32 in linarith)
  have i: "unat (of_nat i :: u32) = i" if "i < unat n" for i by (intro unat_of_nat_u32) (use that n32 in linarith)
  have "b + ?l \<noteq> b + of_nat i" if "i < length xs" for i
  proof -
    have "unat (of_nat i :: u32) = i" using that assms(1) by (intro i) linarith
    then show ?thesis using l that by (metis add_left_cancel nat_neq_iff)
  qed
  then have "(write_bytes b xs m)(b + ?l := 0) = write_bytes b xs (m(b + ?l := 0))" by (subst write_bytes_upd) auto
  moreover have "cstr (write_bytes b xs (m(b + ?l := 0))) b xs" by (rule write_bytes_cstr) (use assms in simp_all)
  ultimately show "cstr ((write_bytes b xs m)(b + ?l := 0)) b xs" by simp
  assume a: "\<not> a - b < n"
  have "a \<noteq> b + of_nat i" if "i < unat n" for i
  proof
    assume "a = b + of_nat i"
    then show False using a i [OF that] that by (simp add: word_less_nat_alt)
  qed
  then show "((write_bytes b xs m)(b + ?l := 0)) a = m a" using assms(1) write_bytes_other [of xs a b m] by auto
qed

text \<open>A conversion that ends the format string: the text it emits becomes the string in the buffer.\<close>

lemma snprintf_text:
  assumes dir: "pf_mem s fmt = 0x25" "directive (out_buffer b) n (fmt + 1) va (0, s) = Some (p, va', fold (emit (out_buffer b) n) xs (0, s))"
    and stop: "pf_mem s p = 0" "\<not> p - b < n" and b: "b \<noteq> 0" "unat b + unat n \<le> 2 ^ 32"
    and xs: "length xs < unat n" "\<forall>c \<in> set xs. c \<noteq> 0"
  obtains s' where "snprintf b n fmt va s = Some (sint (of_nat (length xs) :: u32), s')" "cstr (pf_mem s') b xs"
proof -
  let ?m = "write_bytes b xs (pf_mem s)" and ?l = "of_nat (length xs) :: u32"
  note t = text_terminated [OF xs(1) b(2) xs(2)]
  have emit: "fold (emit (out_buffer b) n) xs (0, s) = (?l, s\<lparr>pf_mem := ?m\<rparr>)"
    using fold_emit_buffer [of 0 xs n b s] xs(1) by simp
  have "p \<noteq> b + ?l" using stop(2) t(1) xs(1) by (auto simp: word_less_nat_alt)
  then have "?m p = 0" using t(3) [OF stop(2), of "pf_mem s"] stop(1) by simp
  then have loop: "format_loop (out_buffer b) n p va' (?l, s\<lparr>pf_mem := ?m\<rparr>) = Some (?l, s\<lparr>pf_mem := ?m\<rparr>)"
    by (subst format_loop.simps) simp
  have "format_loop (out_buffer b) n fmt va (0, s) = Some (?l, s\<lparr>pf_mem := ?m\<rparr>)"
    using dir emit loop by (subst format_loop.simps) simp
  moreover have "?l < n" using xs(1) t(1) by (simp add: word_less_nat_alt)
  ultimately have run: "snprintf b n fmt va s = Some (sint ?l, s\<lparr>pf_mem := ?m(b + ?l := 0)\<rparr>)"
    using b(1) by (simp add: snprintf_def internal_vsnprintf_def out_buffer_def)
  show ?thesis by (rule that [OF run]) (use t(2) in simp)
qed

section \<open>Numbers that read back\<close>

lemma decimal_digit:
  assumes "hex_digit c = Some d" "unat d < 10"
  shows "isdigit c" "ucast (c - 0x30) = d"
proof -
  have "0x30 \<le> c \<and> c \<le> 0x39"
  proof (rule ccontr)
    assume "\<not> (0x30 \<le> c \<and> c \<le> 0x39)"
    then consider "d = ucast (c - 0x61) + 10" "0x61 \<le> c" "c \<le> 0x66" | "d = ucast (c - 0x41) + 10" "0x41 \<le> c" "c \<le> 0x46"
      using assms(1) by (auto simp: hex_digit_def split: if_splits)
    then show False
    proof cases
      case 1
      have "unat (c - 0x61) \<le> 5" using 1(2,3) by (simp add: word_le_nat_alt unat_sub_small)
      then have "unat (ucast (c - 0x61) :: u32) \<le> 5" by (simp add: unsigned_ucast_eq take_bit_nat_eq_self)
      then have "unat d = unat (ucast (c - 0x61) :: u32) + 10" unfolding 1(1) by (subst unat_add_small) simp_all
      then show False using assms(2) by simp
    next
      case 2
      have "unat (c - 0x41) \<le> 5" using 2(2,3) by (simp add: word_le_nat_alt unat_sub_small)
      then have "unat (ucast (c - 0x41) :: u32) \<le> 5" by (simp add: unsigned_ucast_eq take_bit_nat_eq_self)
      then have "unat d = unat (ucast (c - 0x41) :: u32) + 10" unfolding 2(1) by (subst unat_add_small) simp_all
      then show False using assms(2) by simp
    qed
  qed
  then show "isdigit c" "ucast (c - 0x30) = d" using assms(1) by (simp_all add: isdigit_def hex_digit_def)
qed

lemma atoi_digits_value:
  assumes "cstr m p cs" "digits_of 10 cs"
  shows "atoi_digits m p (of_nat v) = Some (of_nat (digits_value 10 cs v))"
  using assms
proof (induction cs arbitrary: p v)
  case Nil
  then have "\<not> isdigit (m p)" by (simp add: isdigit_def)
  then show ?case by (subst atoi_digits.simps) simp
next
  case (Cons c cs)
  then obtain d where d: "hex_digit c = Some d" "unat d < 10" by (auto simp: digits_of_def)
  have "of_nat v * 10 + ucast (c - 0x30) = (of_nat (v * 10 + unat d) :: u32)" using decimal_digit [OF d] by simp
  moreover have "atoi_digits m (p + 1) (of_nat (v * 10 + unat d)) = Some (of_nat (digits_value 10 cs (v * 10 + unat d)))"
    by (rule Cons.IH) (use Cons.prems in \<open>simp_all add: digits_of_def\<close>)
  ultimately show ?case using decimal_digit [OF d] Cons.prems(1) d by (subst atoi_digits.simps) simp
qed

lemma atoi_decimal:
  assumes "cstr m p cs" "digits_of 10 cs" "cs \<noteq> []" "p \<noteq> 0"
  shows "atoi m p = Some (of_nat (digits_value 10 cs 0))"
proof -
  obtain c cs' where cs: "cs = c # cs'" using assms(3) by (cases cs) simp_all
  then have c: "m p = c" "isdigit c" using assms(1,2) decimal_digit(1) [of c] by (auto simp: digits_of_def)
  have "\<not> isspace c" "c \<noteq> 0x2B" "c \<noteq> 0x2D" using c(2) by (auto simp: isdigit_def isspace_def)
  then show ?thesis using c assms(4) atoi_digits_value [OF assms(1,2), of 0]
    by (simp add: atoi_def skip_spaces.simps)
qed

lemma atoi_negative:
  assumes "cstr m p (0x2D # cs)" "digits_of 10 cs" "p \<noteq> 0"
  shows "atoi m p = Some (- of_nat (digits_value 10 cs 0))"
  using assms(3) atoi_digits_value [OF _ assms(2), of m "p + 1" 0] assms(1)
  by (simp add: atoi_def skip_spaces.simps isspace_def)

lemma hex_to_u32_digits:
  assumes "cstr m p cs" "digits_of 16 cs" "cs \<noteq> []"
  shows "hex_to_u32 m p = Some (of_nat (digits_value 16 cs 0))"
proof -
  have "\<not> (m (p + 1) = 0x78 \<or> m (p + 1) = 0x58)"
  proof (cases cs)
    case (Cons c cs')
    show ?thesis
    proof (cases cs')
      case Nil
      then show ?thesis using assms(1) Cons by simp
    next
      case (Cons c' cs'')
      then have "hex_digit (m (p + 1)) \<noteq> None" using assms(1,2) \<open>cs = c # cs'\<close> by (auto simp: digits_of_def)
      then show ?thesis by (auto simp: hex_digit_def)
    qed
  qed (use assms(3) in simp)
  moreover have "strtoul_digits m 16 p (of_nat 0) = Some (of_nat (digits_value 16 cs 0), p + of_nat (length cs))"
    using strtoul_digits_value [of m p cs "[]" 16 0] assms by simp
  ultimately show ?thesis using hex_digits_strtoul [OF assms(1), of 0] by (auto simp: hex_to_u32_def)
qed

text \<open>A directive without flags, width, precision and length.\<close>

lemma directive_plain:
  assumes "pf_mem (snd st) p = c" "c \<in> {0x64, 0x75, 0x78}"
  shows "directive out n p (v # va) st = Some (p + 1, va,
    if c = 0x64 then ntoa_long out n (if sint v > 0 then v else - v) (sint v < 0) 10 0 0 0 st
    else ntoa_long out n v False (if c = 0x75 then 10 else 16) 0 0 0 st)"
proof -
  have h: "\<not> has 0 f" "0 AND f = (0 :: u32)" for f by (simp_all add: has_def)
  have "parse_flags (pf_mem (snd st)) p 0 = Some (p, 0)" using assms by (subst parse_flags.simps) (auto simp: flag_of_def)
  moreover have "\<not> is_digit_char c" using assms(2) by (auto simp: is_digit_char_def)
  ultimately show ?thesis using assms
    by (auto simp: directive_def parse_width_def parse_precision_def parse_length_def convert_def conv_integer_def h)
qed

lemma abs_value: "(if sint v > 0 then v else - v) = (if sint v < 0 then - v else (v :: u32))"
proof -
  have "v = 0" if "sint v = 0" using that by (simp add: signed_eq_0_iff)
  then show ?thesis by (cases "sint v = 0") auto
qed

text \<open>The text of a 32-bit number for the three plain conversions.\<close>

definition number_text :: "u8 \<Rightarrow> u32 \<Rightarrow> u8 list" where
  "number_text c v = (if c = 0x64 \<and> sint v < 0 then 0x2D # rev (ntoa_digits 0 10 (- v) [])
     else rev (ntoa_digits 0 (if c = 0x78 then 16 else 10) v []))"

lemma digits32:
  fixes v base :: u32
  assumes "base = 10 \<or> base = 16"
  obtains ds where "ntoa_digits flags base v [] = rev ds" "ds \<noteq> []" "length ds \<le> 10" "digits_of (unat base) ds"
    "digits_value (unat base) ds 0 = unat v" "\<forall>c \<in> set ds. c \<noteq> 0"
proof -
  have b: "2 \<le> unat base" "unat base \<le> 16" using assms by auto
  have lt: "unat v < unat base ^ 10" by (rule less_trans [OF unat_lt(3)]) (use assms in auto)
  obtain ds where ds: "ntoa_digits flags base v [] = [] @ ds" "ds \<noteq> []" "length ds \<le> 10" "digits_of (unat base) (rev ds)"
    "digits_value (unat base) (rev ds) 0 = unat v" "\<forall>c \<in> set ds. c \<noteq> 0"
    using ntoa_digits_spec [OF b lt, of "[]" flags] by auto
  show ?thesis by (rule that [of "rev ds"]) (use ds in simp_all)
qed

lemma number_text_length: "length (number_text c v) \<le> 11" "\<forall>x \<in> set (number_text c v). x \<noteq> 0"
proof -
  have d: "length (ntoa_digits 0 b u []) \<le> 10 \<and> (\<forall>x \<in> set (ntoa_digits 0 b u []). x \<noteq> 0)" if b: "b = 10 \<or> b = 16" for b u :: u32
  proof -
    obtain ds where "ntoa_digits 0 b u [] = rev ds" "length ds \<le> 10" "\<forall>c \<in> set ds. c \<noteq> 0" by (rule digits32 [OF b])
    then show ?thesis by simp
  qed
  show "length (number_text c v) \<le> 11" using d [of 10 "- v"] d [of 10 v] d [of 16 v] by (auto simp: number_text_def)
  show "\<forall>x \<in> set (number_text c v). x \<noteq> 0" using d [of 10 "- v"] d [of 10 v] d [of 16 v] by (auto simp: number_text_def)
qed

lemma directive_number:
  assumes "pf_mem (snd st) p = c" "c \<in> {0x64, 0x75, 0x78}"
  shows "directive out n p (v # va) st = Some (p + 1, va, fold (emit out n) (number_text c v) st)"
proof -
  obtain ds where "ntoa_digits 0 10 (- v) [] = rev ds" "length ds \<le> 10" by (rule digits32 [of 10]) simp_all
  then have "length (ntoa_digits 0 10 (- v) []) < 32" by simp
  then show ?thesis using assms
    by (auto simp: directive_plain ntoa_long_def ntoa_plain abs_value Let_def number_text_def)
qed

section \<open>Directives inside a longer format\<close>

lemma format_literal:
  assumes "pf_mem (snd st) p = c" "c \<noteq> 0" "c \<noteq> 0x25"
  shows "format_loop out n p va st = format_loop out n (p + 1) va (fold (emit out n) [c] st)"
  using assms by (subst format_loop.simps) simp

text \<open>A number filled up with zeros, and the directives \<^verbatim>\<open>%0<w>u\<close> and \<^verbatim>\<open>%0<w>x\<close> with one digit of width.\<close>

definition zero_number :: "u32 \<Rightarrow> u32 \<Rightarrow> u32 \<Rightarrow> u8 list" where
  "zero_number base w v = rev (zero_fill w (ntoa_digits 1 base v []))"

lemma format_zero:
  assumes "pf_mem (snd st) p = 0x25" "pf_mem (snd st) (p + 1) = 0x30" "pf_mem (snd st) (p + 2) = 0x30 + w"
    "pf_mem (snd st) (p + 3) = c" "w \<in> {2, 4, 8}" "c \<in> {0x75, 0x78}"
  shows "format_loop out n p (v # va) st =
    format_loop out n (p + 4) va (fold (emit out n) (zero_number (if c = 0x75 then 10 else 16) (ucast w) v) st)"
proof -
  let ?m = "pf_mem (snd st)"
  have ar: "p + 1 + 1 = p + 2" "p + 2 + 1 = p + 3" "p + 3 + 1 = p + 4" by simp_all
  have w: "is_digit_char (0x30 + w)" "flag_of (0x30 + w) = 0" "scast (0x30 + w) - 0x30 = (ucast w :: u32)"
    using assms(5) by (auto simp: is_digit_char_def flag_of_def)
  have "parse_flags ?m (p + 2) 1 = Some (p + 2, 1)" by (subst parse_flags.simps) (use w(2) in \<open>simp only: assms(3), simp\<close>)
  then have "parse_flags ?m (p + 1) 0 = Some (p + 2, 1)"
    by (subst parse_flags.simps) (simp add: assms(2) flag_of_def ar)
  moreover have nd: "\<not> is_digit_char c" using assms(6) by (auto simp: is_digit_char_def)
  have "printf_atoi ?m (p + 2) = Some (ucast w, p + 3)"
    unfolding printf_atoi_def
    by (subst atoi_loop.simps, simp add: assms(3) w ar, subst atoi_loop.simps, simp add: assms(4) nd)
  moreover have h: "\<not> has 1 f" if "f \<in> {256, 512, 64, 128, 1024, 16}" for f using that by (auto simp: has_def)
  have fl: "(1 :: u32) AND - 17 = 1" "(1 :: u32) AND - 13 = 1" by simp_all
  moreover have c: "c = 0x75 \<or> c = 0x78" using assms(6) by blast
  ultimately have "directive out n (p + 1) (v # va) st = Some (p + 4, va, ntoa out n v False (if c = 0x75 then 10 else 16) 0 (ucast w) 1 st)"
    using assms(3,4) w(1) h ar c
    by (elim disjE) (simp_all add: directive_def parse_width_def parse_precision_def parse_length_def convert_def conv_integer_def ntoa_long_def fl Let_def)
  then show ?thesis using assms(1) by (subst format_loop.simps) (simp add: ntoa_zeros zero_number_def)
qed

lemma format_number:
  assumes "pf_mem (snd st) p = 0x25" "pf_mem (snd st) (p + 1) = c" "c \<in> {0x64, 0x75, 0x78}"
  shows "format_loop out n p (v # va) st = format_loop out n (p + 2) va (fold (emit out n) (number_text c v) st)"
  using assms directive_number [OF assms(2,3), of out n v va] by (subst format_loop.simps) (simp add: add.assoc)

text \<open>The characters at an address, none of them among the \<open>n\<close> bytes at \<open>b\<close>.\<close>

fun chars_off :: "memory \<Rightarrow> u32 \<Rightarrow> u32 \<Rightarrow> u32 \<Rightarrow> u8 list \<Rightarrow> bool" where
  "chars_off m b n p [] = True"
| "chars_off m b n p (c # cs) = (m p = c \<and> \<not> p - b < n \<and> chars_off m b n (p + 1) cs)"

lemma chars_off_append: "chars_off m b n p (xs @ ys) \<longleftrightarrow> chars_off m b n p xs \<and> chars_off m b n (p + of_nat (length xs)) ys"
  by (induction xs arbitrary: p) (auto simp: add.assoc)

lemma chars_off_cong: "chars_off m b n p cs \<Longrightarrow> (\<And>a. \<not> a - b < n \<Longrightarrow> m' a = m a) \<Longrightarrow> chars_off m' b n p cs"
  by (induction cs arbitrary: p) auto

text \<open>An output function that changes memory only in the \<open>n\<close> bytes at \<open>b\<close>.\<close>

definition writes_only :: "out_fct \<Rightarrow> u32 \<Rightarrow> u32 \<Rightarrow> bool" where
  "writes_only out b n \<longleftrightarrow> (\<forall>c i s a. \<not> a - b < n \<longrightarrow> pf_mem (out c i n s) a = pf_mem s a)"

lemma writes_only_sinks: "writes_only (out_buffer b) b n" "writes_only out_null b n"
  by (auto simp: writes_only_def out_buffer_def out_null_def)

lemma writes_only_fold:
  assumes "writes_only out b n" "\<not> a - b < n"
  shows "pf_mem (snd (fold (emit out n) cs st)) a = pf_mem (snd st) a"
  using assms by (induction cs arbitrary: st) (simp_all add: emit_def writes_only_def)

lemma chars_off_fold:
  assumes "writes_only out b n" "chars_off (pf_mem (snd st)) b n p cs"
  shows "chars_off (pf_mem (snd (fold (emit out n) xs st))) b n p cs"
  by (rule chars_off_cong [OF assms(2)]) (rule writes_only_fold [OF assms(1)])

lemma format_literals:
  assumes "writes_only out b n" "chars_off (pf_mem (snd st)) b n p cs" "\<forall>c \<in> set cs. c \<noteq> 0 \<and> c \<noteq> 0x25"
  shows "format_loop out n p va st = format_loop out n (p + of_nat (length cs)) va (fold (emit out n) cs st)"
  using assms
proof (induction cs arbitrary: p st)
  case (Cons c cs)
  have "chars_off (pf_mem (snd (emit out n c st))) b n (p + 1) cs"
    using chars_off_fold [OF Cons.prems(1), of st "p + 1" cs "[c]"] Cons.prems(2) by simp
  from Cons.IH [OF Cons.prems(1) this] show ?case
    using format_literal [of st p c out n va] Cons.prems(2,3) by (simp add: add.assoc)
qed simp

text \<open>The directive \<^verbatim>\<open>%s\<close> for a string away from the buffer.\<close>

lemma string_out_chars:
  assumes "writes_only out b n" "chars_off (pf_mem (snd st)) b n p (cs @ [0])" "\<forall>c \<in> set cs. c \<noteq> 0" "\<not> has flags 1024"
  shows "string_out out n p prec flags st = Some (fold (emit out n) cs st)"
  using assms
proof (induction cs arbitrary: p st)
  case Nil
  then show ?case by (subst string_out.simps) simp
next
  case (Cons c cs)
  have "chars_off (pf_mem (snd (emit out n c st))) b n (p + 1) (cs @ [0])"
    using chars_off_fold [OF Cons.prems(1), of st "p + 1" "cs @ [0]" "[c]"] Cons.prems(2) by simp
  with Cons show ?case by (subst string_out.simps) simp
qed

lemma format_string:
  assumes "writes_only out b n" "pf_mem (snd st) p = 0x25" "pf_mem (snd st) (p + 1) = 0x73"
    "chars_off (pf_mem (snd st)) b n v (cs @ [0])" "\<forall>c \<in> set cs. c \<noteq> 0"
  shows "format_loop out n p (v # va) st = format_loop out n (p + 2) va (fold (emit out n) cs st)"
proof -
  have h: "\<not> has 0 f" for f by (simp add: has_def)
  have "parse_flags (pf_mem (snd st)) (p + 1) 0 = Some (p + 1, 0)" using assms(3) by (subst parse_flags.simps) (simp add: flag_of_def)
  moreover have "\<not> is_digit_char 0x73" by (simp add: is_digit_char_def)
  ultimately have "directive out n (p + 1) (v # va) st = Some (p + 2, va, fold (emit out n) cs st)"
    using assms(3) string_out_chars [OF assms(1,4,5) h, of 0]
    by (simp add: directive_def parse_width_def parse_precision_def parse_length_def convert_def conv_string_def h Let_def pad_spaces_eq add.assoc)
  then show ?thesis using assms(2) by (subst format_loop.simps) simp
qed

text \<open>How long the pieces are.\<close>

lemma ntoa_digits_length: "length buf \<le> 31 \<Longrightarrow> length (ntoa_digits flags base val buf) \<le> 32"
proof (induction flags base val buf rule: ntoa_digits.induct)
  case (1 flags base val buf)
  then show ?case by (subst ntoa_digits.simps) (auto simp: Let_def)
qed

lemma zero_number_length: "length (zero_number base w v) \<le> 32"
  using ntoa_digits_length [of "[]" 1 base v] by (simp add: zero_number_def zero_fill_eq)

lemma fst_fold_emit: "fst (fold (emit out n) cs st) = fst st + of_nat (length cs)"
  by (induction cs arbitrary: st) (simp_all add: emit_def)

section \<open>Properties\<close>


text \<open>Property C36. Printed numbers read back: \<^verbatim>\<open>snprintf\<close> with the format \<^verbatim>\<open>"%d"\<close>, \<^verbatim>\<open>"%u"\<close> or \<^verbatim>\<open>"%x"\<close> into a buffer of at
  least 12 bytes returns and leaves there a string that \<^verbatim>\<open>atoi\<close>, \<^verbatim>\<open>strtoul\<close> in base 10 and \<^verbatim>\<open>hex_to_u32\<close> read back as the
  number printed, for every 32-bit number; the result is the length of that string.
\<close>

theorem snprintf_scan_roundtrip:
  assumes "cstr (pf_mem s) fmt [0x25, c]" "c \<in> {0x64, 0x75, 0x78}" "buffer \<noteq> 0" "12 \<le> count" "unat buffer + unat count \<le> 2 ^ 32"
    and "\<not> fmt + 2 - buffer < count"
  shows "\<exists>r s'. snprintf buffer count fmt [v] s = Some (r, s') \<and>
    (c = 0x64 \<longrightarrow> atoi (pf_mem s') buffer = Some v) \<and>
    (c = 0x75 \<longrightarrow> strtoul (pf_mem s') buffer 10 = Some (v, buffer + word_of_int r)) \<and>
    (c = 0x78 \<longrightarrow> hex_to_u32 (pf_mem s') buffer = Some v)"
proof -
  have f: "pf_mem s fmt = 0x25" "pf_mem s (fmt + 1) = c" "pf_mem s (fmt + 2) = 0" using assms(1) by (simp_all add: add.assoc)
  have "12 \<le> unat count" using assms(4) by (simp add: word_le_nat_alt)
  then have len: "length (number_text c v) < unat count" using number_text_length(1) [of c v] by simp
  have dir: "directive (out_buffer buffer) count (fmt + 1) [v] (0, s) = Some (fmt + 2, [], fold (emit (out_buffer buffer) count) (number_text c v) (0, s))"
    using directive_number [of "(0, s)" "fmt + 1" c] f assms(2) by (simp add: add.assoc)
  obtain s' where s': "snprintf buffer count fmt [v] s = Some (sint (of_nat (length (number_text c v)) :: u32), s')" "cstr (pf_mem s') buffer (number_text c v)"
    by (rule snprintf_text [OF f(1) dir f(3) assms(6,3,5) len number_text_length(2)])
  have d: "c = 0x64 \<longrightarrow> atoi (pf_mem s') buffer = Some v"
  proof
    assume c: "c = 0x64"
    show "atoi (pf_mem s') buffer = Some v"
    proof (cases "sint v < 0")
    case True
    obtain ds where ds: "ntoa_digits 0 10 (- v) [] = rev ds" "digits_of 10 ds" "digits_value 10 ds 0 = unat (- v)"
      by (rule digits32 [of 10]) simp_all
    show ?thesis using atoi_negative [of "pf_mem s'" buffer ds] s'(2) ds assms(3) c True by (simp add: number_text_def)
  next
    case False
    obtain ds where ds: "ntoa_digits 0 10 v [] = rev ds" "ds \<noteq> []" "digits_of 10 ds" "digits_value 10 ds 0 = unat v"
      by (rule digits32 [of 10]) simp_all
    show ?thesis using atoi_decimal [of "pf_mem s'" buffer ds] s'(2) ds assms(3) c False by (simp add: number_text_def)
    qed
  qed
  have u: "c = 0x75 \<longrightarrow> strtoul (pf_mem s') buffer 10 = Some (v, buffer + word_of_int (sint (of_nat (length (number_text c v)) :: u32)))"
  proof
    assume c: "c = 0x75"
    obtain ds where ds: "ntoa_digits 0 10 v [] = rev ds" "ds \<noteq> []" "digits_of 10 ds" "digits_value 10 ds 0 = unat v"
      by (rule digits32 [of 10]) simp_all
    show "strtoul (pf_mem s') buffer 10 = Some (v, buffer + word_of_int (sint (of_nat (length (number_text c v)) :: u32)))"
      using strtoul_digits_string [of "pf_mem s'" buffer ds "[]" 10] s'(2) ds c by (simp add: number_text_def)
  qed
  have "c = 0x78 \<longrightarrow> hex_to_u32 (pf_mem s') buffer = Some v"
  proof
    assume c: "c = 0x78"
    obtain ds where ds: "ntoa_digits 0 16 v [] = rev ds" "ds \<noteq> []" "digits_of 16 ds" "digits_value 16 ds 0 = unat v"
      by (rule digits32 [of 16]) simp_all
    show "hex_to_u32 (pf_mem s') buffer = Some v" using hex_to_u32_digits [of "pf_mem s'" buffer ds] s'(2) ds c by (simp add: number_text_def)
  qed
  with d u s'(1) show ?thesis by blast
qed

definition pf_example :: pf_state where
  "pf_example = \<lparr>pf_mem = (\<lambda>_. 0)(100 := 0x25, 101 := 0x64, 200 := 0x25, 201 := 0x73, 300 := 0x61, 301 := 0x62, 302 := 0x63), pf_sent = []\<rparr>"

theorem snprintf_scan_roundtrip_witness:
  "\<exists>r s'. snprintf 0x1000 16 100 [- 25] pf_example = Some (r, s') \<and> atoi (pf_mem s') 0x1000 = Some (- 25)"
  using snprintf_scan_roundtrip [of pf_example 100 "0x64" "0x1000" 16 "- 25"] by (auto simp: pf_example_def)


text \<open>
  A format that ends in a percent sign is read past its end: the directive takes the terminating zero for an
  unknown specifier, emits it and steps over it, and formatting goes on with the bytes that follow the string.
\<close>

theorem format_trailing_percent:
  assumes "pf_mem s p = 0x25" "pf_mem s (p + 1) = 0"
  shows "format_loop out_char n p va (i, s) = format_loop out_char n (p + 2) va (i + 1, s)"
proof -
  have "parse_flags (pf_mem s) (p + 1) 0 = Some (p + 1, 0)" using assms by (subst parse_flags.simps) (simp add: flag_of_def)
  then have "directive out_char n (p + 1) va (i, s) = Some (p + 2, va, (i + 1, s))"
    using assms by (simp add: directive_def parse_width_def parse_precision_def parse_length_def convert_def is_digit_char_def emit_def out_char_def add.assoc)
  then show ?thesis using assms by (subst format_loop.simps) simp
qed

theorem format_trailing_percent_witness:
  "printf 100 [] \<lparr>pf_mem = (\<lambda>_. 0)(100 := 0x25, 102 := 0x41), pf_sent = []\<rparr> =
     Some (2, \<lparr>pf_mem = (\<lambda>_. 0)(100 := 0x25, 102 := 0x41), pf_sent = [0x41]\<rparr>)"
proof -
  let ?s = "\<lparr>pf_mem = (\<lambda>_. 0)(100 := 0x25, 102 := 0x41), pf_sent = []\<rparr>"
  have "format_loop out_char (- 1) 100 [] (0, ?s) = format_loop out_char (- 1) 102 [] (1, ?s)"
    using format_trailing_percent [of ?s 100 "- 1" "[]" 0] by simp
  also have "\<dots> = Some (2, ?s\<lparr>pf_sent := [0x41]\<rparr>)"
    by (subst format_loop.simps, simp add: emit_def out_char_def, subst format_loop.simps, simp)
  finally show ?thesis by (simp add: printf_def internal_vsnprintf_def out_char_def)
qed

end
