(* ===== verification/Timer.thy ===== *)
theory Timer
  imports Printf Interrupts Terminal
begin

text \<open>
  The clock: \<^verbatim>\<open>src/drivers/time.c\<close> and the timer interrupt of \<^verbatim>\<open>src/arch/i386/pit.c\<close>. The clock chip is read through the
  port log; the status line goes through the model of \<^verbatim>\<open>sprintf\<close> into memory and through the framebuffer onto the screen.
  The static variables of \<^verbatim>\<open>time_update\<close> are fields of the state.
\<close>

section \<open>State\<close>

record time_t =
  year :: u32
  month :: u8
  day :: u8
  hour :: u8
  minute :: u8
  second :: u8

record timekeeper =
  g_current_time :: time_t
  g_prev_time :: time_t
  g_ticks :: u64
  last_second_tick :: u64
  last_second :: u8
  con :: console
  tk_io :: io

definition pit_frequency :: u32 where
  "pit_frequency = 100"

section \<open>The real-time clock\<close>

definition cmos_read :: "hardware \<Rightarrow> u8 \<Rightarrow> io \<Rightarrow> u8 \<times> io" where
  "cmos_read hw reg l = inb hw 0x71 (outb 0x70 reg l)"

definition bcd_to_bin :: "u8 \<Rightarrow> u8" where
  "bcd_to_bin val = drop_bit 4 val * 10 + (val AND 0x0F)"

partial_function (option) rtc_wait :: "hardware \<Rightarrow> io \<Rightarrow> io option" where
  "rtc_wait hw l = (case cmos_read hw 0x0A l of (v, l) \<Rightarrow> if v AND 0x80 \<noteq> 0 then rtc_wait hw l else Some l)"

definition rtc_read :: "hardware \<Rightarrow> io \<Rightarrow> (time_t \<times> io) option" where
  "rtc_read hw l =
     map_option (\<lambda>l.
       let (status_b, l) = cmos_read hw 0x0B l;
           is_binary = (status_b AND 0x04 \<noteq> 0);
           is_24h = (status_b AND 0x02 \<noteq> 0);
           (sec, l) = cmos_read hw 0x00 l;
           (mnt, l) = cmos_read hw 0x02 l;
           (hr, l) = cmos_read hw 0x04 l;
           (d, l) = cmos_read hw 0x07 l;
           (mon, l) = cmos_read hw 0x08 l;
           (yr, l) = cmos_read hw 0x09 l;
           t = \<lparr>year = ucast yr, month = mon, day = d, hour = hr, minute = mnt, second = sec\<rparr>;
           t = (if \<not> is_binary
                then \<lparr>year = ucast (bcd_to_bin (ucast (year t))), month = bcd_to_bin (month t), day = bcd_to_bin (day t),
                      hour = bcd_to_bin (hour t), minute = bcd_to_bin (minute t), second = bcd_to_bin (second t)\<rparr>
                else t);
           t = (if \<not> is_24h
                then let is_pm = (hour t AND 0x80 \<noteq> 0); t = t\<lparr>hour := hour t AND 0x7F\<rparr>
                     in if is_pm \<and> hour t \<noteq> 12 then t\<lparr>hour := hour t + 12\<rparr>
                        else if \<not> is_pm \<and> hour t = 12 then t\<lparr>hour := 0\<rparr> else t
                else t);
           (century, l) = cmos_read hw 0x32 l;
           century = (if \<not> is_binary \<and> century \<noteq> 0 then bcd_to_bin century else century)
       in (t\<lparr>year := year t + (if century \<noteq> 0 then ucast century else 20) * 100\<rparr>, l)) (rtc_wait hw l)"

section \<open>The status line\<close>

definition status_format :: "u8 list" where
  "status_format = [0x25, 0x30, 0x34, 0x75, 0x2D, 0x25, 0x30, 0x32, 0x75, 0x2D, 0x25, 0x30, 0x32, 0x75, 0x20,
     0x25, 0x30, 0x32, 0x75, 0x3A, 0x25, 0x30, 0x32, 0x75, 0x3A, 0x25, 0x30, 0x32, 0x75]"

text \<open>
  \<open>buf\<close> is the address of the array on the stack and \<open>fmt\<close> that of the format string; \<open>g_font\<close> is the default font. The
  result is \<open>None\<close> when the terminal has no font or its height is zero.
\<close>

definition draw_status :: "u32 \<Rightarrow> u32 \<Rightarrow> font \<Rightarrow> timekeeper \<Rightarrow> timekeeper option" where
  "draw_status buf fmt g_font s =
     (let t = g_current_time s; c = con s
      in Option.bind (sprintf buf fmt [year t, ucast (month t), ucast (day t), ucast (hour t), ucast (minute t), ucast (second t)]
                        \<lparr>pf_mem = vd_mem (dev c), pf_sent = []\<rparr>) (\<lambda>(_, p).
         Option.bind (t_font (trm c)) (\<lambda>font.
         let font_w = ucast (font_width font) :: u16; font_h = ucast (font_height font) :: u16
         in Option.bind (if font_h = 0 then None else strlen (pf_mem p) buf) (\<lambda>len.
         let d = (dev c)\<lparr>vd_mem := pf_mem p\<rparr>;
             screen_w = vbe_get_width d; screen_h = vbe_get_height d;
             y = (screen_h div font_h - 1) * font_h;
             x = screen_w - ucast (len * ucast font_w);
             d = snd (vbe_fill_rect x y (ucast (len * ucast font_w)) font_h (bg_color (trm c)) d)
         in map_option (\<lambda>d. s\<lparr>con := c\<lparr>dev := d\<rparr>, g_prev_time := g_current_time s\<rparr>)
              (vbe_draw_string g_font x y buf (fg_color (trm c)) (bg_color (trm c)) d)))))"

section \<open>Keeping time\<close>

definition time_init :: "hardware \<Rightarrow> timekeeper \<Rightarrow> timekeeper option" where
  "time_init hw s =
     map_option (\<lambda>(t, l). s\<lparr>g_current_time := t, g_ticks := 0, g_prev_time := t, tk_io := l\<rparr>) (rtc_read hw (tk_io s))"

text \<open>The time one second later; the clock is asked again when the day is over.\<close>

definition next_second :: "hardware \<Rightarrow> time_t \<Rightarrow> io \<Rightarrow> (time_t \<times> io) option" where
  "next_second hw t l =
     (let t = t\<lparr>second := second t + 1\<rparr>
      in if second t \<ge> 60
         then let t = t\<lparr>second := 0, minute := minute t + 1\<rparr>
              in if minute t \<ge> 60
                 then let t = t\<lparr>minute := 0, hour := hour t + 1\<rparr>
                      in if hour t \<ge> 24 then rtc_read hw l else Some (t, l)
                 else Some (t, l)
         else Some (t, l))"

definition time_update :: "hardware \<Rightarrow> u32 \<Rightarrow> u32 \<Rightarrow> font \<Rightarrow> timekeeper \<Rightarrow> timekeeper option" where
  "time_update hw buf fmt g_font s =
     (let s = s\<lparr>g_ticks := g_ticks s + 1\<rparr>
      in if g_ticks s - last_second_tick s \<ge> ucast pit_frequency
         then let s = s\<lparr>last_second_tick := g_ticks s\<rparr>
              in Option.bind (next_second hw (g_current_time s) (tk_io s)) (\<lambda>(t, l).
                 let s = s\<lparr>g_current_time := t, tk_io := l\<rparr>
                 in if last_second s \<noteq> second t
                    then map_option (\<lambda>s. s\<lparr>last_second := second t\<rparr>) (draw_status buf fmt g_font s)
                    else Some s)
         else Some s)"

definition time_get_current :: "timekeeper \<Rightarrow> time_t" where
  "time_get_current s = g_current_time s"

definition time_get_uptime_ms :: "timekeeper \<Rightarrow> u64" where
  "time_get_uptime_ms s = (g_ticks s * 1000) div ucast pit_frequency"

section \<open>The timer interrupt\<close>

definition pit_handler :: "hardware \<Rightarrow> u32 \<Rightarrow> u32 \<Rightarrow> font \<Rightarrow> timekeeper \<Rightarrow> timekeeper option" where
  "pit_handler hw buf fmt g_font s =
     (let s = s\<lparr>g_ticks := g_ticks s + 1\<rparr>
      in map_option (\<lambda>s. s\<lparr>tk_io := outb 0x20 0x20 (tk_io s)\<rparr>)
           (if g_ticks s mod ucast pit_frequency = 0 then time_update hw buf fmt g_font s else Some s))"

text \<open>A frequency of zero divides by zero.\<close>

definition pit_init :: "hardware \<Rightarrow> 'h \<Rightarrow> u32 \<Rightarrow> 'h interrupts \<Rightarrow> 'h interrupts option" where
  "pit_init hw handler frequency s =
     (if frequency = 0 then None
      else let s = isr_register_handler 32 handler s;
               divisor = 1193180 div frequency;
               l = outb 0x43 0x36 (io_log s);
               low = ucast (divisor AND 0xFF) :: u8;
               high = ucast (drop_bit 8 divisor AND 0xFF) :: u8;
               l = outb 0x40 high (outb 0x40 low l)
           in map_option (\<lambda>l. s\<lparr>io_log := l\<rparr>) (pic_unmask hw 0 l))"

section \<open>Formatting the status line\<close>

definition zero_text :: "u32 \<Rightarrow> u32 \<Rightarrow> u8 list" where
  "zero_text w v = rev (zero_fill w (ntoa_digits 1 10 v []))"

lemma zero_text_length:
  assumes "unat v < 10 ^ k" "0 < k" "k \<le> 10" "unat w \<le> k"
  shows "length (zero_text w v) \<le> k" "\<forall>c \<in> set (zero_text w v). c \<noteq> 0"
proof -
  obtain ds where ds: "ntoa_digits 1 10 v [] = [] @ ds" "length ds \<le> k" "\<forall>c \<in> set ds. c \<noteq> 0"
    using ntoa_digits_spec [of 10 v k "[]" 1] assms(1-3) by auto
  then show "length (zero_text w v) \<le> k" "\<forall>c \<in> set (zero_text w v). c \<noteq> 0"
    using assms(4) by (auto simp: zero_text_def zero_fill_eq)
qed

text \<open>A directive \<^verbatim>\<open>%0<w>u\<close> with one digit of width.\<close>

lemma format_zero_u:
  assumes "pf_mem (snd st) p = 0x25" "pf_mem (snd st) (p + 1) = 0x30" "pf_mem (snd st) (p + 2) = 0x30 + w"
    "pf_mem (snd st) (p + 3) = 0x75" "w = 2 \<or> w = 4"
  shows "format_loop out n p (v # va) st = format_loop out n (p + 4) va (fold (emit out n) (zero_text (ucast w) v) st)"
  using format_zero [OF assms(1-4), of out n v va] assms(5) by (auto simp: zero_text_def zero_number_def)

text \<open>Formats made of literal characters and such directives, written to a buffer away from the format string.\<close>

datatype piece = Lit u8 | Num u8

fun piece_chars :: "piece \<Rightarrow> u8 list" where
  "piece_chars (Lit c) = [c]"
| "piece_chars (Num w) = [0x25, 0x30, 0x30 + w, 0x75]"

fun piece_ok :: "piece \<Rightarrow> bool" where
  "piece_ok (Lit c) = (c \<noteq> 0 \<and> c \<noteq> 0x25)"
| "piece_ok (Num w) = (w = 2 \<or> w = 4)"

fun pieces_text :: "piece list \<Rightarrow> u32 list \<Rightarrow> u8 list" where
  "pieces_text [] vs = []"
| "pieces_text (Lit c # ps) vs = c # pieces_text ps vs"
| "pieces_text (Num w # ps) (v # vs) = zero_text (ucast w) v @ pieces_text ps vs"
| "pieces_text (Num w # ps) [] = []"

fun nums :: "piece list \<Rightarrow> nat" where
  "nums [] = 0"
| "nums (Lit c # ps) = nums ps"
| "nums (Num w # ps) = Suc (nums ps)"

lemma emitted_off:
  assumes "length xs \<le> unat n" "unat n \<le> unat l"
  shows "\<not> a - b < n \<Longrightarrow> pf_mem (snd (fold (emit (out_buffer b) l) xs (0, s))) a = pf_mem s a"
proof -
  assume a: "\<not> a - b < n"
  have "a \<noteq> b + of_nat i" if "i < length xs" for i
  proof
    assume "a = b + of_nat i"
    moreover have "i < unat n" using that assms(1) by simp
    moreover from this have "unat (of_nat i :: u32) = i" by (intro unat_of_nat_u32) (rule less_trans [of _ "unat n"], simp_all)
    ultimately show False using a by (simp add: word_less_nat_alt)
  qed
  then have "write_bytes b xs (pf_mem s) a = pf_mem s a" by (intro write_bytes_other) simp
  then show ?thesis using fold_emit_buffer [of 0 xs l b s] assms by simp
qed

lemma format_pieces:
  assumes "chars_off (pf_mem s) b n p (concat (map piece_chars ps) @ [0])" "list_all piece_ok ps" "length vs = nums ps"
    "length (xs @ pieces_text ps vs) \<le> unat n" "unat n \<le> unat l"
  shows "format_loop (out_buffer b) l p vs (fold (emit (out_buffer b) l) xs (0, s)) =
    Some (fold (emit (out_buffer b) l) (xs @ pieces_text ps vs) (0, s))"
  using assms
proof (induction ps arbitrary: p vs xs)
  case Nil
  have "pf_mem (snd (fold (emit (out_buffer b) l) xs (0, s))) p = 0"
    using Nil.prems emitted_off [of xs n l p b s] by simp
  then show ?case by (subst format_loop.simps) simp
next
  case (Cons q ps)
  let ?st = "fold (emit (out_buffer b) l) xs (0, s)"
  have xs: "length xs \<le> unat n" using Cons.prems(4) by simp
  have off: "chars_off (pf_mem (snd ?st)) b n p (concat (map piece_chars (q # ps)) @ [0])"
    by (rule chars_off_cong [OF Cons.prems(1)]) (rule emitted_off [OF xs Cons.prems(5)])
  show ?case
  proof (cases q)
    case (Lit c)
    have "format_loop (out_buffer b) l p vs ?st = format_loop (out_buffer b) l (p + 1) vs (fold (emit (out_buffer b) l) (xs @ [c]) (0, s))"
      using format_literal [of ?st p c "out_buffer b" l vs] off Cons.prems(2) Lit by simp
    also have "\<dots> = Some (fold (emit (out_buffer b) l) ((xs @ [c]) @ pieces_text ps vs) (0, s))"
      by (rule Cons.IH) (use Cons.prems Lit in simp_all)
    finally show ?thesis using Lit by simp
  next
    case (Num w)
    then obtain v va where vs: "vs = v # va" "length va = nums ps" using Cons.prems(3) by (cases vs) simp_all
    have "format_loop (out_buffer b) l p (v # va) ?st =
        format_loop (out_buffer b) l (p + 4) va (fold (emit (out_buffer b) l) (xs @ zero_text (ucast w) v) (0, s))"
      using format_zero_u [of ?st p w "out_buffer b" l v va] off Cons.prems(2) Num by (simp add: add.assoc)
    also have "\<dots> = Some (fold (emit (out_buffer b) l) ((xs @ zero_text (ucast w) v) @ pieces_text ps va) (0, s))"
      by (rule Cons.IH) (use Cons.prems Num vs in \<open>simp_all add: add.assoc\<close>)
    finally show ?thesis using Num vs by simp
  qed
qed

definition status_pieces :: "piece list" where
  "status_pieces = [Num 4, Lit 0x2D, Num 2, Lit 0x2D, Num 2, Lit 0x20, Num 2, Lit 0x3A, Num 2, Lit 0x3A, Num 2]"

definition status_text :: "time_t \<Rightarrow> u8 list" where
  "status_text t = pieces_text status_pieces [year t, ucast (month t), ucast (day t), ucast (hour t), ucast (minute t), ucast (second t)]"

lemma status_pieces_simps: "concat (map piece_chars status_pieces) = status_format" "list_all piece_ok status_pieces" "nums status_pieces = 6"
  by (simp_all add: status_pieces_def status_format_def)

lemma status_text_length: "length (status_text t) \<le> 30" "\<forall>c \<in> set (status_text t). c \<noteq> 0"
proof -
  have y: "length (zero_text 4 (year t)) \<le> 10" "\<forall>c \<in> set (zero_text 4 (year t)). c \<noteq> 0"
    by (rule zero_text_length [where k = 10]; use less_trans [OF unat_lt(3), of "10 ^ 10" "year t"] in simp)+
  have u: "unat (ucast v :: u32) < 10 ^ 3" for v :: u8 using unat_lt(1) [of v] by (simp add: unsigned_ucast_eq take_bit_nat_eq_self del: unat_lt)
  have z: "length (zero_text 2 (ucast v)) \<le> 3" "\<forall>c \<in> set (zero_text 2 (ucast v)). c \<noteq> 0" for v :: u8
    by (rule zero_text_length [where k = 3]; use u [of v] in simp)+
  have e: "status_text t = zero_text 4 (year t) @ 0x2D # zero_text 2 (ucast (month t)) @ 0x2D # zero_text 2 (ucast (day t)) @ 0x20 #
      zero_text 2 (ucast (hour t)) @ 0x3A # zero_text 2 (ucast (minute t)) @ 0x3A # zero_text 2 (ucast (second t))"
    by (simp add: status_text_def status_pieces_def)
  show "length (status_text t) \<le> 30" using y(1) z(1) [of "month t"] z(1) [of "day t"] z(1) [of "hour t"] z(1) [of "minute t"] z(1) [of "second t"]
    by (simp add: e)
  show "\<forall>c \<in> set (status_text t). c \<noteq> 0" using y(2) z(2) by (auto simp: e)
qed

lemma render_from_total:
  assumes "vbe_wf d" "cstr_off_screen d p cs"
  shows "\<exists>st d'. render_from f fg bg x p cx cy d = Some (st, d') \<and> confined d d'"
  using assms
proof (induction cs arbitrary: p cx cy d)
  case Nil
  then show ?case by (subst render_from.simps) (simp add: confined_refl)
next
  case (Cons c cs)
  define e where "e = snd (font_render_char c cx cy fg bg (Some f) d)"
  obtain st where st: "font_render_char c cx cy fg bg (Some f) d = (st, e)" by (metis e_def prod.collapse)
  have e: "confined d e" unfolding e_def by (rule confined_render_char [OF Cons.prems(1)])
  have ce: "cstr_off_screen e (p + 1) cs" using cstr_off_screen_confined [OF e] Cons.prems(2) by simp
  have ih: "\<exists>st d'. render_from f fg bg x (p + 1) cx' cy' e = Some (st, d') \<and> confined d d'" for cx' cy'
    using Cons.IH [OF confined_wf [OF e] ce, of cx' cy'] confined_trans [OF e] by blast
  have ih0: "\<exists>st d'. render_from f fg bg x (p + 1) cx' cy' d = Some (st, d') \<and> confined d d'" for cx' cy'
    using Cons.IH [OF Cons.prems(1)] Cons.prems(2) by simp
  show ?case
    using Cons.prems(2) st e ih ih0 by (subst render_from.simps) (auto simp: Let_def)
qed

lemma vbe_draw_string_total:
  assumes "vbe_wf d" "cstr_off_screen d str cs"
  obtains d' where "vbe_draw_string g_font x y str fg bg d = Some d'" "confined d d'"
  using render_from_total [OF assms, of g_font fg bg x x y] confined_refl [OF assms(1)] that
  by (cases "str = 0") (auto simp: vbe_draw_string_def font_render_string_def font_get_default_def)

lemma cstr_off_screenI:
  assumes "cstr (vd_mem d) p cs" "\<forall>i \<le> length cs. \<not> in_framebuffer d (p + of_nat i)"
  shows "cstr_off_screen d p cs"
  using assms
proof (induction cs arbitrary: p)
  case Nil
  then show ?case by simp
next
  case (Cons c cs)
  have "\<forall>i \<le> length cs. \<not> in_framebuffer d (p + 1 + of_nat i)"
  proof (intro allI impI)
    fix i assume "i \<le> length cs"
    then show "\<not> in_framebuffer d (p + 1 + of_nat i)" using Cons.prems(2) [rule_format, of "Suc i"] by (simp add: add.assoc)
  qed
  with Cons show ?case using Cons.prems(2) [rule_format, of 0] by simp
qed

text \<open>The buffer and the format string are where drawing does not reach.\<close>

definition status_ok :: "u32 \<Rightarrow> u32 \<Rightarrow> timekeeper \<Rightarrow> bool" where
  "status_ok buf fmt s \<longleftrightarrow> vbe_wf (dev (con s)) \<and> (\<exists>f. t_font (trm (con s)) = Some f \<and> font_height f \<noteq> 0) \<and>
     chars_off (vd_mem (dev (con s))) buf 32 fmt (status_format @ [0]) \<and> buf \<noteq> 0 \<and> unat buf + 32 \<le> 2 ^ 32 \<and>
     (\<forall>i < 32. \<not> in_framebuffer (dev (con s)) (buf + of_nat i)) \<and> (\<forall>j \<le> 29. \<not> in_framebuffer (dev (con s)) (fmt + of_nat j))"

lemma sprintf_status:
  assumes "chars_off m buf 32 fmt (status_format @ [0])" "buf \<noteq> 0" "unat buf + 32 \<le> 2 ^ 32"
  defines "vs \<equiv> (\<lambda>t. [year t, ucast (month t), ucast (day t), ucast (hour t), ucast (minute t), ucast (second t)])"
  obtains r p where "sprintf buf fmt (vs t) \<lparr>pf_mem = m, pf_sent = []\<rparr> = Some (r, p)" "cstr (pf_mem p) buf (status_text t)"
    "\<forall>a. \<not> a - buf < 32 \<longrightarrow> pf_mem p a = m a"
proof -
  let ?s = "\<lparr>pf_mem = m, pf_sent = []\<rparr>" and ?T = "status_text t"
  let ?l = "of_nat (length ?T) :: u32"
  have lt: "length ?T < unat (32 :: u32)" "length ?T \<le> unat (32 :: u32)" using status_text_length(1) [of t] by simp_all
  have b: "unat buf + unat (32 :: u32) \<le> 2 ^ 32" using assms(3) by simp
  have m1: "unat (- 1 :: u32) = 4294967295" by (simp add: unsigned_minus_1_eq_mask mask_eq_exp_minus_1)
  note tt = text_terminated [OF lt(1) b status_text_length(2)]
  have "format_loop (out_buffer buf) (- 1) fmt (vs t) (fold (emit (out_buffer buf) (- 1)) [] (0, ?s)) =
      Some (fold (emit (out_buffer buf) (- 1)) ([] @ pieces_text status_pieces (vs t)) (0, ?s))"
    by (rule format_pieces [where n = 32]) (use assms(1) lt in \<open>simp_all add: status_pieces_simps vs_def status_text_def m1\<close>)
  moreover have "fold (emit (out_buffer buf) (- 1)) ?T (0, ?s) = (?l, ?s\<lparr>pf_mem := write_bytes buf ?T m\<rparr>)"
    using fold_emit_buffer [of 0 ?T "- 1" buf ?s] lt by (simp add: m1)
  ultimately have loop: "format_loop (out_buffer buf) (- 1) fmt (vs t) (0, ?s) = Some (?l, ?s\<lparr>pf_mem := write_bytes buf ?T m\<rparr>)"
    by (simp add: status_text_def vs_def)
  have "?l < - 1" using lt tt(1) by (simp add: word_less_nat_alt m1)
  then have "sprintf buf fmt (vs t) ?s = Some (sint ?l, ?s\<lparr>pf_mem := (write_bytes buf ?T m)(buf + ?l := 0)\<rparr>)"
    using loop assms(2) by (simp add: sprintf_def internal_vsnprintf_def out_buffer_def)
  then show ?thesis using that tt(2,3) by (simp add: vs_def)
qed

lemma chars_off_frame:
  assumes "chars_off m b n p cs" "\<forall>j < length cs. P (p + of_nat j)" "\<And>a. P a \<Longrightarrow> \<not> a - b < n \<Longrightarrow> m' a = m a"
  shows "chars_off m' b n p cs"
  using assms
proof (induction cs arbitrary: p)
  case (Cons c cs)
  have "\<forall>j < length cs. P (p + 1 + of_nat j)"
  proof (intro allI impI)
    fix j assume "j < length cs"
    then show "P (p + 1 + of_nat j)" using Cons.prems(2) [rule_format, of "Suc j"] by (simp add: add.assoc)
  qed
  with Cons show ?case using Cons.prems(2) [rule_format, of 0] by simp
qed simp

lemma draw_status_total:
  assumes "status_ok buf fmt s"
  obtains s' where "draw_status buf fmt g_font s = Some s'" "status_ok buf fmt s'"
    "s' = s\<lparr>con := con s', g_prev_time := g_current_time s\<rparr>" "trm (con s') = trm (con s)"
    "\<forall>a. \<not> in_framebuffer (dev (con s)) a \<and> \<not> a - buf < 32 \<longrightarrow> vd_mem (dev (con s')) a = vd_mem (dev (con s)) a"
proof -
  let ?t = "g_current_time s" and ?c = "con s"
  obtain f where f: "t_font (trm ?c) = Some f" "font_height f \<noteq> 0" using assms by (auto simp: status_ok_def)
  obtain r p where p: "sprintf buf fmt [year ?t, ucast (month ?t), ucast (day ?t), ucast (hour ?t), ucast (minute ?t), ucast (second ?t)]
      \<lparr>pf_mem = vd_mem (dev ?c), pf_sent = []\<rparr> = Some (r, p)" "cstr (pf_mem p) buf (status_text ?t)"
      "\<forall>a. \<not> a - buf < 32 \<longrightarrow> pf_mem p a = vd_mem (dev ?c) a"
  proof (rule sprintf_status [of "vd_mem (dev ?c)" buf fmt ?t])
    show "chars_off (vd_mem (dev ?c)) buf 32 fmt (status_format @ [0])" "buf \<noteq> 0" "unat buf + 32 \<le> 2 ^ 32"
      using assms by (simp_all add: status_ok_def)
  qed
  have "unat (ucast (font_height f) :: u16) = unat (font_height f)"
    using unat_lt(1) [of "font_height f"] by (simp add: unsigned_ucast_eq take_bit_nat_eq_self del: unat_lt)
  then have h: "(ucast (font_height f) :: u16) \<noteq> 0" using f(2) by (metis unat_0 unat_eq_zero)
  define d where "d = (dev ?c)\<lparr>vd_mem := pf_mem p\<rparr>"
  have wf: "vbe_wf d" using assms by (simp add: d_def vbe_wf_def status_ok_def)
  have fb: "in_framebuffer d = in_framebuffer (dev ?c)" by (simp add: d_def in_framebuffer_def fun_eq_iff)
  have len: "strlen (pf_mem p) buf = Some (of_nat (length (status_text ?t)))"
    using strlen_from_eq [of "pf_mem p" buf 0] p(2) assms by (simp add: strlen_def status_ok_def)
  define w where "w = (ucast (of_nat (length (status_text ?t)) * ucast (ucast (font_width f) :: u16) :: u32) :: u16)"
  define x y where "x = vbe_get_width d - w" and "y = (vbe_get_height d div ucast (font_height f) - 1) * ucast (font_height f)"
  define e where "e = snd (vbe_fill_rect x y w (ucast (font_height f)) (bg_color (trm ?c)) d)"
  have e: "confined d e" unfolding e_def by (rule confined_fill_rect [OF wf])
  have "cstr_off_screen d buf (status_text ?t)"
  proof (rule cstr_off_screenI)
    show "cstr (vd_mem d) buf (status_text ?t)" using p(2) by (simp add: d_def)
    show "\<forall>i \<le> length (status_text ?t). \<not> in_framebuffer d (buf + of_nat i)"
      using assms status_text_length(1) [of ?t] unfolding fb status_ok_def by simp
  qed
  then have ce: "cstr_off_screen e buf (status_text ?t)" by (rule cstr_off_screen_confined [OF e])
  obtain g where g: "vbe_draw_string g_font x y buf (fg_color (trm ?c)) (bg_color (trm ?c)) e = Some g" "confined e g"
    by (rule vbe_draw_string_total [OF confined_wf [OF e] ce])
  have dg: "confined d g" by (rule confined_trans [OF e g(2)])
  have mem: "vd_mem g a = vd_mem (dev ?c) a" if "\<not> in_framebuffer (dev ?c) a" "\<not> a - buf < 32" for a
    using confined_mem(2) [OF dg, of a] that p(3) fb by (simp add: d_def)
  have run: "draw_status buf fmt g_font s = Some (s\<lparr>con := ?c\<lparr>dev := g\<rparr>, g_prev_time := g_current_time s\<rparr>)"
    using p(1) f h len g(1) by (simp add: draw_status_def Let_def d_def [symmetric] w_def [symmetric] x_def [symmetric] y_def [symmetric] e_def [symmetric])
  have "chars_off (vd_mem g) buf 32 fmt (status_format @ [0])"
  proof (rule chars_off_frame [where P = "\<lambda>a. \<not> in_framebuffer (dev ?c) a"])
    show "chars_off (vd_mem (dev ?c)) buf 32 fmt (status_format @ [0])" using assms by (simp add: status_ok_def)
    show "\<forall>j < length (status_format @ [0]). \<not> in_framebuffer (dev ?c) (fmt + of_nat j)"
      using assms by (simp add: status_ok_def status_format_def less_Suc_eq_le)
  qed (rule mem)
  then have "status_ok buf fmt (s\<lparr>con := ?c\<lparr>dev := g\<rparr>, g_prev_time := g_current_time s\<rparr>)"
    using assms confined_wf [OF dg] confined_mem(1) [OF dg] fb by (simp add: status_ok_def)
  then show ?thesis using that [OF run] mem by simp
qed

section \<open>The pace of the clock\<close>

definition time_ok :: "time_t \<Rightarrow> bool" where
  "time_ok t \<longleftrightarrow> hour t < 24 \<and> minute t < 60 \<and> second t < 60"

definition second_of_day :: "time_t \<Rightarrow> nat" where
  "second_of_day t = 3600 * unat (hour t) + 60 * unat (minute t) + unat (second t)"

lemma next_second_ok:
  assumes "time_ok t" "second_of_day t + 1 < 86400"
  obtains t' where "next_second hw t l = Some (t', l)" "time_ok t'" "second_of_day t' = second_of_day t + 1"
    "year t' = year t" "month t' = month t" "day t' = day t"
proof -
  have b: "unat (hour t) < 24" "unat (minute t) < 60" "unat (second t) < 60" using assms(1) by (simp_all add: time_ok_def word_less_nat_alt)
  have inc: "unat (v + 1) = unat v + 1" if "unat v < 60" for v :: u8 using that by (subst unat_add_small) simp_all
  consider "unat (second t) < 59" | "unat (second t) = 59" "unat (minute t) < 59" | "unat (second t) = 59" "unat (minute t) = 59" "unat (hour t) < 23"
    using b assms(2) by (fastforce simp: second_of_day_def)
  then show ?thesis
  proof cases
    case 1
    have "next_second hw t l = Some (t\<lparr>second := second t + 1\<rparr>, l)" using 1 inc [OF b(3)] by (simp add: next_second_def Let_def word_le_nat_alt)
    then show ?thesis using that 1 inc [OF b(3)] b by (simp add: time_ok_def second_of_day_def word_less_nat_alt)
  next
    case 2
    have "next_second hw t l = Some (t\<lparr>second := 0, minute := minute t + 1\<rparr>, l)"
      using 2 inc [OF b(3)] inc [OF b(2)] by (simp add: next_second_def Let_def word_le_nat_alt)
    then show ?thesis using that 2 inc [OF b(2)] b by (simp add: time_ok_def second_of_day_def word_less_nat_alt)
  next
    case 3
    have h: "unat (hour t + 1) = unat (hour t) + 1" using b(1) by (intro inc) simp
    have "next_second hw t l = Some (t\<lparr>second := 0, minute := 0, hour := hour t + 1\<rparr>, l)"
      using 3 inc [OF b(3)] inc [OF b(2)] h by (simp add: next_second_def Let_def word_le_nat_alt)
    then show ?thesis using that 3 h b by (simp add: time_ok_def second_of_day_def word_less_nat_alt)
  qed
qed

fun pit_run :: "hardware \<Rightarrow> u32 \<Rightarrow> u32 \<Rightarrow> font \<Rightarrow> nat \<Rightarrow> timekeeper \<Rightarrow> timekeeper option" where
  "pit_run hw buf fmt f 0 s = Some s"
| "pit_run hw buf fmt f (Suc n) s = Option.bind (pit_handler hw buf fmt f s) (pit_run hw buf fmt f n)"

lemma pit_run_add: "pit_run hw buf fmt f (m + n) s = Option.bind (pit_run hw buf fmt f m s) (pit_run hw buf fmt f n)"
proof (induction m arbitrary: s)
  case (Suc m)
  then show ?case by (cases "pit_handler hw buf fmt f s") simp_all
qed simp

lemma ticks_mod: "n < 2 ^ 64 \<Longrightarrow> (of_nat n :: u64) mod ucast pit_frequency = 0 \<longleftrightarrow> n mod 100 = 0"
proof -
  assume n: "n < 2 ^ 64"
  have u: "unat (of_nat n :: u64) = n" by (rule unat_of_nat_small) (use n in simp)
  have "(of_nat n :: u64) mod ucast pit_frequency = 0 \<longleftrightarrow> unat ((of_nat n :: u64) mod 100) = 0" by (simp add: pit_frequency_def unat_eq_zero)
  then show ?thesis by (simp add: unat_mod u)
qed

text \<open>A second passes at every interrupt whose number is a multiple of 100 once 100 ticks have been counted.\<close>

definition clock_at :: "u32 \<Rightarrow> u32 \<Rightarrow> time_t \<Rightarrow> nat \<Rightarrow> nat \<Rightarrow> nat \<Rightarrow> timekeeper \<Rightarrow> bool" where
  "clock_at buf fmt t0 ticks lst secs s \<longleftrightarrow> status_ok buf fmt s \<and> time_ok (g_current_time s) \<and> g_ticks s = of_nat ticks \<and>
     last_second_tick s = of_nat lst \<and> second_of_day (g_current_time s) = second_of_day t0 + secs \<and>
     year (g_current_time s) = year t0 \<and> month (g_current_time s) = month t0 \<and> day (g_current_time s) = day t0"

lemma pit_quiet:
  assumes "clock_at buf fmt t0 ticks lst secs s" "(ticks + 1) mod 100 \<noteq> 0" "ticks + 1 < 2 ^ 64"
  shows "\<exists>s'. pit_handler hw buf fmt f s = Some s' \<and> clock_at buf fmt t0 (ticks + 1) lst secs s'"
proof -
  have "g_ticks s + 1 = of_nat (ticks + 1)" using assms(1) by (simp add: clock_at_def)
  then have "(g_ticks s + 1) mod ucast pit_frequency \<noteq> 0" using ticks_mod [OF assms(3)] assms(2) by (simp only: simp_thms)
  then show ?thesis using assms(1) by (simp add: pit_handler_def Let_def clock_at_def status_ok_def)
qed

lemma pit_second:
  assumes "clock_at buf fmt t0 ticks lst secs s" "(ticks + 1) mod 100 = 0" "ticks + 2 < 2 ^ 64" "lst + 100 \<le> ticks + 2"
    "second_of_day t0 + secs + 1 < 86400"
  shows "\<exists>s'. pit_handler hw buf fmt f s = Some s' \<and> clock_at buf fmt t0 (ticks + 2) (ticks + 2) (secs + 1) s'"
proof -
  have tick: "g_ticks s + 1 = of_nat (ticks + 1)" "g_ticks s + 1 + 1 = of_nat (ticks + 2)" using assms(1) by (simp_all add: clock_at_def)
  have due: "(g_ticks s + 1) mod ucast pit_frequency = 0" using ticks_mod [of "ticks + 1"] assms(2,3) unfolding tick(1) by simp
  have "of_nat (ticks + 2) - of_nat lst = (of_nat (ticks + 2 - lst) :: u64)" using assms(4) by (simp add: of_nat_diff)
  moreover have "unat (of_nat (ticks + 2 - lst) :: u64) = ticks + 2 - lst" by (rule unat_of_nat_small) (use assms(3) in simp)
  ultimately have late: "g_ticks s + 1 + 1 - last_second_tick s \<ge> ucast pit_frequency"
    using assms(1,4) tick(2) by (simp add: clock_at_def word_le_nat_alt pit_frequency_def)
  define u where "u = s\<lparr>g_ticks := g_ticks s + 1 + 1, last_second_tick := g_ticks s + 1 + 1\<rparr>"
  obtain t' where t': "next_second hw (g_current_time s) (tk_io s) = Some (t', tk_io s)" "time_ok t'"
    "second_of_day t' = second_of_day t0 + secs + 1" "year t' = year t0" "month t' = month t0" "day t' = day t0"
    using next_second_ok [of "g_current_time s" hw "tk_io s"] assms(1,5) by (auto simp: clock_at_def)
  define v where "v = u\<lparr>g_current_time := t'\<rparr>"
  have ok: "status_ok buf fmt v" using assms(1) by (simp add: clock_at_def status_ok_def v_def u_def)
  have upd: "time_update hw buf fmt f (s\<lparr>g_ticks := g_ticks s + 1\<rparr>) =
      (if last_second v \<noteq> second t' then map_option (\<lambda>s. s\<lparr>last_second := second t'\<rparr>) (draw_status buf fmt f v) else Some v)"
    using late t'(1) by (simp add: time_update_def Let_def v_def u_def)
  obtain w where w: "draw_status buf fmt f v = Some w" "status_ok buf fmt w" "w = v\<lparr>con := con w, g_prev_time := g_current_time v\<rparr>"
    by (rule draw_status_total [OF ok])
  have wf: "g_ticks w = g_ticks v" "last_second_tick w = last_second_tick v" "g_current_time w = g_current_time v"
    using arg_cong [OF w(3), of g_ticks] arg_cong [OF w(3), of last_second_tick] arg_cong [OF w(3), of g_current_time] by simp_all
  have clock: "clock_at buf fmt t0 (ticks + 2) (ticks + 2) (secs + 1) (x\<lparr>tk_io := l\<rparr>)"
    if "status_ok buf fmt x" "g_ticks x = g_ticks v" "last_second_tick x = last_second_tick v" "g_current_time x = g_current_time v" for x l
    using that t' tick(2) by (simp add: clock_at_def v_def u_def status_ok_def)
  have "status_ok buf fmt (w\<lparr>last_second := second t'\<rparr>)" using w(2) by (simp add: status_ok_def)
  then show ?thesis
    using due upd w(1) wf ok clock [of v] clock [of "w\<lparr>last_second := second t'\<rparr>"]
    by (cases "last_second v = second t'") (simp_all add: pit_handler_def Let_def)
qed

lemma pit_quiet_run:
  assumes "clock_at buf fmt t0 ticks lst secs s" "\<forall>i \<in> {1..n}. (ticks + i) mod 100 \<noteq> 0" "ticks + n < 2 ^ 64"
  shows "\<exists>s'. pit_run hw buf fmt f n s = Some s' \<and> clock_at buf fmt t0 (ticks + n) lst secs s'"
  using assms
proof (induction n arbitrary: ticks s)
  case (Suc n)
  have "(ticks + 1) mod 100 \<noteq> 0" using Suc.prems(2) by (rule bspec) simp
  then obtain u where u: "pit_handler hw buf fmt f s = Some u" "clock_at buf fmt t0 (ticks + 1) lst secs u"
    using pit_quiet [OF Suc.prems(1)] Suc.prems(3) by auto
  have "\<forall>i \<in> {1..n}. (ticks + 1 + i) mod 100 \<noteq> 0"
  proof
    fix i assume "i \<in> {1..n}"
    then show "(ticks + 1 + i) mod 100 \<noteq> 0" using bspec [OF Suc.prems(2), of "i + 1"] by (simp add: add.assoc)
  qed
  then show ?case using Suc.IH [OF u(2)] u(1) Suc.prems(3) by (simp add: add.assoc)
qed simp

section \<open>Properties\<close>

text \<open>Property C38. The clock gains one second in every hundred: the interrupt handler and \<^verbatim>\<open>time_update\<close> both count the tick of
  a full second, so after the first second, which takes 100 timer interrupts, each further second takes only 99. After
  \<open>100 + 99 * k\<close> interrupts the time of day is exactly \<open>k + 1\<close> seconds later, for any \<open>k\<close> within the day, although
  the timer was programmed for 100 interrupts per second.
\<close>

theorem clock_runs_fast:
  assumes "status_ok buf fmt s" "time_ok (g_current_time s)" "g_ticks s = 0" "last_second_tick s = 0"
    "second_of_day (g_current_time s) + k + 1 < 86400"
  shows "\<exists>s'. pit_run hw buf fmt f (100 + 99 * k) s = Some s' \<and> time_ok (g_current_time s') \<and>
    second_of_day (g_current_time s') = second_of_day (g_current_time s) + k + 1 \<and>
    g_ticks s' = of_nat (100 * (k + 1) + 1) \<and> status_ok buf fmt s'"
proof -
  let ?t = "g_current_time s"
  have "\<exists>s'. pit_run hw buf fmt f (100 + 99 * k) s = Some s' \<and> clock_at buf fmt ?t (100 * (k + 1) + 1) (100 * (k + 1) + 1) (k + 1) s'"
    using assms(5)
  proof (induction k)
    case 0
    have "clock_at buf fmt ?t 0 0 0 s" using assms(1-4) by (simp add: clock_at_def)
    then obtain u where u: "pit_run hw buf fmt f 99 s = Some u" "clock_at buf fmt ?t 99 0 0 u"
      using pit_quiet_run [of buf fmt ?t 0 0 0 s 99 hw f] by (auto simp: mod_less)
    then obtain v where v: "pit_handler hw buf fmt f u = Some v" "clock_at buf fmt ?t 101 101 1 v"
      using pit_second [OF u(2), of hw f] "0.prems" by auto
    have "pit_run hw buf fmt f (99 + 1) s = Some v" using u(1) v(1) by (simp only: pit_run_add) simp
    with v(2) show ?case by simp
  next
    case (Suc k)
    then obtain u where u: "pit_run hw buf fmt f (100 + 99 * k) s = Some u" "clock_at buf fmt ?t (100 * (k + 1) + 1) (100 * (k + 1) + 1) (k + 1) u"
      by auto
    have k: "100 * (k + 1) + 1 + 200 < 2 ^ 64" using Suc.prems by simp
    have "\<forall>i \<in> {1..98}. (100 * (k + 1) + 1 + i) mod 100 \<noteq> 0"
    proof
      fix i :: nat assume "i \<in> {1..98}"
      then have "(1 + i) mod 100 \<noteq> 0" by simp
      then have "(100 * (k + 1) + (1 + i)) mod 100 \<noteq> 0" by (simp only: mod_mult_self4 simp_thms)
      then show "(100 * (k + 1) + 1 + i) mod 100 \<noteq> 0" by (simp only: add.assoc simp_thms)
    qed
    then obtain v where v: "pit_run hw buf fmt f 98 u = Some v" "clock_at buf fmt ?t (100 * (k + 1) + 1 + 98) (100 * (k + 1) + 1) (k + 1) v"
      using pit_quiet_run [OF u(2), of 98 hw f] k by auto
    have "(100 * (k + 1) + 1 + 98 + 1) mod 100 = 0" by presburger
    then obtain w where w: "pit_handler hw buf fmt f v = Some w"
        "clock_at buf fmt ?t (100 * (k + 1) + 1 + 98 + 2) (100 * (k + 1) + 1 + 98 + 2) (k + 1 + 1) w"
      using pit_second [OF v(2), of hw f] k Suc.prems by auto
    have "pit_run hw buf fmt f (98 + 1) u = Some w" unfolding pit_run_add v(1) using w(1) by simp
    then have "pit_run hw buf fmt f ((100 + 99 * k) + (98 + 1)) s = Some w" unfolding pit_run_add [of hw buf fmt f "100 + 99 * k"] u(1) by simp
    moreover have "100 + 99 * k + (98 + 1) = 100 + 99 * Suc k" "100 * (k + 1) + 1 + 98 + 2 = 100 * (Suc k + 1) + 1" by simp_all
    ultimately show ?case using w(2) by simp
  qed
  then show ?thesis by (auto simp: clock_at_def)
qed

definition clock_example :: timekeeper where
  "clock_example = \<lparr>g_current_time = \<lparr>year = 2025, month = 1, day = 31, hour = 23, minute = 59, second = 40\<rparr>,
     g_prev_time = \<lparr>year = 0, month = 0, day = 0, hour = 0, minute = 0, second = 0\<rparr>, g_ticks = 0, last_second_tick = 0, last_second = 255,
     con = tiny_console\<lparr>dev := vbe_small\<lparr>vd_mem := \<lambda>a. if 0x6000 \<le> unat a \<and> unat a < 0x601D then status_format ! (unat a - 0x6000) else 0\<rparr>\<rparr>,
     tk_io = []\<rparr>"

lemma chars_off_nth:
  "\<forall>j < length cs. m (p + of_nat j) = cs ! j \<and> \<not> p + of_nat j - b < n \<Longrightarrow> chars_off m b n p cs"
proof (induction cs arbitrary: p)
  case (Cons c cs)
  have "\<forall>j < length cs. m (p + 1 + of_nat j) = cs ! j \<and> \<not> p + 1 + of_nat j - b < n"
  proof (intro allI impI)
    fix j assume "j < length cs"
    then show "m (p + 1 + of_nat j) = cs ! j \<and> \<not> p + 1 + of_nat j - b < n" using Cons.prems [rule_format, of "Suc j"] by (simp add: add.assoc)
  qed
  then show ?case using Cons.IH [of "p + 1"] Cons.prems [rule_format, of 0] by simp
qed simp

lemma clock_example_ok: "status_ok 0x5000 0x6000 clock_example"
proof -
  have "vbe_wf (dev (con clock_example))" using vbe_small_wf(1) by (simp add: clock_example_def vbe_wf_def)
  moreover have "chars_off (vd_mem (dev (con clock_example))) 0x5000 32 0x6000 (status_format @ [0])"
  proof (rule chars_off_nth, intro allI impI)
    fix j assume "j < length (status_format @ [0])"
    then have j: "j \<le> 29" by (simp add: status_format_def)
    then have "unat (of_nat j :: u32) = j" by (intro unat_of_nat_u32) simp
    then have u: "unat (0x6000 + of_nat j :: u32) = 0x6000 + j" "unat (0x1000 + of_nat j :: u32) = 0x1000 + j"
      using j by (subst unat_add_small; simp)+
    have "vd_mem (dev (con clock_example)) (0x6000 + of_nat j) = (status_format @ [0]) ! j"
      using j u(1) by (auto simp: clock_example_def nth_append) (auto simp: status_format_def less_Suc_eq_le)
    moreover have "(0x6000 + of_nat j - 0x5000 :: u32) = 0x1000 + of_nat j" by simp
    then have "\<not> (0x6000 + of_nat j - 0x5000 :: u32) < 32" using u(2) by (simp only: word_less_nat_alt) simp
    ultimately show "vd_mem (dev (con clock_example)) (0x6000 + of_nat j) = (status_format @ [0]) ! j \<and> \<not> (0x6000 + of_nat j - 0x5000 :: u32) < 32" by blast
  qed
  moreover have "\<not> in_framebuffer (dev (con clock_example)) (a + of_nat i)" if "unat a + i < 0x10000" for a :: u32 and i
  proof -
    have "unat (of_nat i :: u32) = i" using that by (intro unat_of_nat_u32) simp
    then have "unat (a + of_nat i) = unat a + i" using that by (subst unat_add_small) simp_all
    then show ?thesis using that by (simp add: in_framebuffer_def clock_example_def vbe_small_fields)
  qed
  ultimately show ?thesis by (simp add: status_ok_def) (simp add: clock_example_def tiny_console_def)
qed

theorem clock_runs_fast_witness:
  "\<exists>s'. pit_run (\<lambda>_ _. 0) 0x5000 0x6000 \<lparr>font_width = 2, font_height = 2, font_data = (\<lambda>_ _. 0x80)\<rparr> 199 clock_example = Some s' \<and>
     second_of_day (g_current_time s') = second_of_day (g_current_time clock_example) + 2"
proof -
  have "time_ok (g_current_time clock_example)" "g_ticks clock_example = 0" "last_second_tick clock_example = 0"
    "second_of_day (g_current_time clock_example) + 1 + 1 < 86400"
    by (simp_all add: clock_example_def time_ok_def second_of_day_def)
  from clock_runs_fast [OF clock_example_ok this, of "\<lambda>_ _. 0" "\<lparr>font_width = 2, font_height = 2, font_data = (\<lambda>_ _. 0x80)\<rparr>"]
  show ?thesis by auto
qed

text \<open>The status line fits its buffer: \<^verbatim>\<open>draw_status\<close> formats any date and time, sensible or not, into at most 31 of
  the 32 bytes of its array, draws the text, and leaves every byte outside the array and the framebuffer as it was.
\<close>

theorem draw_status_fits:
  assumes "status_ok buf fmt s"
  shows "\<exists>s'. draw_status buf fmt g_font s = Some s' \<and> length (status_text (g_current_time s)) \<le> 30 \<and>
    trm (con s') = trm (con s) \<and> g_current_time s' = g_current_time s \<and>
    (\<forall>a. \<not> in_framebuffer (dev (con s)) a \<and> \<not> a - buf < 32 \<longrightarrow> vd_mem (dev (con s')) a = vd_mem (dev (con s)) a)"
proof -
  obtain s' where s': "draw_status buf fmt g_font s = Some s'" "s' = s\<lparr>con := con s', g_prev_time := g_current_time s\<rparr>" "trm (con s') = trm (con s)"
    "\<forall>a. \<not> in_framebuffer (dev (con s)) a \<and> \<not> a - buf < 32 \<longrightarrow> vd_mem (dev (con s')) a = vd_mem (dev (con s)) a"
    by (rule draw_status_total [OF assms])
  have "g_current_time s' = g_current_time s" using arg_cong [OF s'(2), of g_current_time] by simp
  with s' status_text_length(1) show ?thesis by blast
qed

theorem draw_status_fits_witness:
  "\<exists>s'. draw_status 0x5000 0x6000 \<lparr>font_width = 2, font_height = 2, font_data = (\<lambda>_ _. 0x80)\<rparr> clock_example = Some s' \<and>
     vd_mem (dev (con s')) 0x6001 = 0x30"
proof -
  obtain s' where s': "draw_status 0x5000 0x6000 \<lparr>font_width = 2, font_height = 2, font_data = (\<lambda>_ _. 0x80)\<rparr> clock_example = Some s'"
    "\<forall>a. \<not> in_framebuffer (dev (con clock_example)) a \<and> \<not> a - 0x5000 < 32 \<longrightarrow> vd_mem (dev (con s')) a = vd_mem (dev (con clock_example)) a"
    using draw_status_fits [OF clock_example_ok] by blast
  have "vd_mem (dev (con s')) 0x6001 = vd_mem (dev (con clock_example)) 0x6001"
    by (rule s'(2) [rule_format]) (simp add: in_framebuffer_def clock_example_def vbe_small_fields)
  then show ?thesis using s'(1) by (simp add: clock_example_def status_format_def)
qed

section \<open>Reading the clock\<close>

text \<open>A clock chip whose register \<open>r\<close> holds \<open>f r\<close>, and numbers below 100 in its decimal encoding.\<close>

definition rtc_answers :: "hardware \<Rightarrow> (u8 \<Rightarrow> u8) \<Rightarrow> bool" where
  "rtc_answers hw f \<longleftrightarrow> (\<forall>l r. hw (l @ [Out 0x70 r]) 0x71 = f r)"

definition bcd :: "nat \<Rightarrow> u8" where
  "bcd n = of_nat (n div 10 * 16 + n mod 10)"

lemma bcd_split:
  assumes "a < 16" "b < 10"
  shows "bcd_to_bin (of_nat (a * 16 + b)) = of_nat (a * 10 + b)"
proof -
  have u: "unat (of_nat (a * 16 + b) :: u8) = a * 16 + b" using assms by (intro unat_of_nat_small) simp
  have ab: "unat (of_nat a :: u8) = a" "unat (of_nat b :: u8) = b" using assms by (simp_all add: unat_of_nat_small)
  have "unat (drop_bit 4 (of_nat (a * 16 + b) :: u8)) = a" using u assms by (simp add: drop_bit_eq_div unat_div)
  then have hi: "drop_bit 4 (of_nat (a * 16 + b) :: u8) = of_nat a" using ab by (simp add: word_unat_eq_iff)
  have "(of_nat (a * 16 + b) :: u8) AND 0x0F = take_bit 4 (of_nat (a * 16 + b))" by (simp add: take_bit_eq_mask mask_eq_exp_minus_1)
  moreover have "unat (take_bit 4 (of_nat (a * 16 + b) :: u8)) = b" using u assms by (simp add: take_bit_eq_mod unat_mod)
  ultimately have lo: "(of_nat (a * 16 + b) :: u8) AND 0x0F = of_nat b" using ab by (simp add: word_unat_eq_iff)
  show ?thesis unfolding bcd_to_bin_def hi lo by simp
qed

lemma bcd_roundtrip: "n < 100 \<Longrightarrow> bcd_to_bin (bcd n) = of_nat n"
  using bcd_split [of "n div 10" "n mod 10"] by (simp add: bcd_def)

lemma cmos_read_answers: "rtc_answers hw f \<Longrightarrow> cmos_read hw r l = (f r, l @ [Out 0x70 r, In 0x71 (f r)])"
  by (simp add: cmos_read_def inb_def outb_def rtc_answers_def Let_def)

lemma rtc_wait_ready: "rtc_answers hw f \<Longrightarrow> f 0x0A AND 0x80 = 0 \<Longrightarrow> \<exists>l'. rtc_wait hw l = Some l'"
  by (subst rtc_wait.simps) (simp add: cmos_read_answers)

text \<open>In the usual mode of the chip, decimal encoding and 24 hours, \<^verbatim>\<open>rtc_read\<close> returns the date and time that the
  registers encode, with the century from its own register.
\<close>

theorem rtc_read_24h:
  assumes "rtc_answers hw f" "f 0x0A AND 0x80 = 0" "f 0x0B AND 0x04 = 0" "f 0x0B AND 0x02 \<noteq> 0"
    "f 0x00 = bcd sec" "f 0x02 = bcd mnt" "f 0x04 = bcd hr" "f 0x07 = bcd dd" "f 0x08 = bcd mon" "f 0x09 = bcd yy" "f 0x32 = bcd cc"
    "sec < 60" "mnt < 60" "hr < 24" "dd \<le> 31" "mon \<le> 12" "yy < 100" "0 < cc" "cc < 100"
  shows "\<exists>l'. rtc_read hw l = Some (\<lparr>year = of_nat (100 * cc + yy), month = of_nat mon, day = of_nat dd, hour = of_nat hr,
    minute = of_nat mnt, second = of_nat sec\<rparr>, l')"
proof -
  obtain l1 where l1: "rtc_wait hw l = Some l1" using rtc_wait_ready [OF assms(1,2)] by blast
  have b: "bcd_to_bin (bcd sec) = of_nat sec" "bcd_to_bin (bcd mnt) = of_nat mnt" "bcd_to_bin (bcd hr) = of_nat hr" "bcd_to_bin (bcd dd) = of_nat dd"
    "bcd_to_bin (bcd mon) = of_nat mon" "bcd_to_bin (bcd yy) = of_nat yy" "bcd_to_bin (bcd cc) = of_nat cc"
    using assms(12-19) by (simp_all add: bcd_roundtrip)
  have uc: "unat (of_nat cc :: u8) = cc" "unat (of_nat yy :: u8) = yy" using assms(17,19) by (simp_all add: unat_of_nat_small)
  have "cc div 10 * 16 + cc mod 10 \<noteq> 0"
  proof
    assume "cc div 10 * 16 + cc mod 10 = 0"
    then have "cc div 10 = 0" "cc mod 10 = 0" by simp_all
    then show False using assms(18) div_mult_mod_eq [of cc 10] by simp
  qed
  moreover have "unat (bcd cc) = cc div 10 * 16 + cc mod 10" unfolding bcd_def using assms(19) by (intro unat_of_nat_small) auto
  ultimately have c0: "bcd cc \<noteq> 0" by auto
  have cn: "(of_nat cc :: u8) \<noteq> 0" using uc(1) assms(18) by auto
  have narrow: "ucast (ucast v :: u32) = v" for v :: u8 by (rule bit_word_eqI) (auto simp: bit_simps)
  have "unat (of_nat yy :: u32) = yy" "unat (of_nat cc :: u32) = cc" using assms(17,19) by (auto intro!: unat_of_nat_u32)
  then have wide: "ucast (of_nat yy :: u8) = (of_nat yy :: u32)" "ucast (of_nat cc :: u8) = (of_nat cc :: u32)"
    using uc by (simp_all only: word_unat_eq_iff unat_ucast_u32)
  show ?thesis using l1 assms(3-11) b c0 cn
    by (simp add: rtc_read_def cmos_read_answers [OF assms(1)] narrow wide mult.commute)
qed

definition rtc_chip :: "(u8 \<Rightarrow> u8) \<Rightarrow> hardware" where
  "rtc_chip f l p = (case rev l of Out q r # _ \<Rightarrow> f r | _ \<Rightarrow> 0)"

lemma rtc_chip_answers: "rtc_answers (rtc_chip f) f"
  by (simp add: rtc_answers_def rtc_chip_def)

theorem rtc_read_24h_witness:
  "\<exists>t l'. rtc_read (rtc_chip (\<lambda>r. if r = 0x0B then 0x02 else if r = 0x32 then 0x20 else if r = 0x09 then 0x25 else if r = 0x04 then 0x17 else 0x11)) [] =
     Some (t, l') \<and> year t = 2025 \<and> hour t = 17"
proof -
  let ?f = "\<lambda>r :: u8. if r = 0x0B then 0x02 else if r = 0x32 then 0x20 else if r = 0x09 then 0x25 else if r = 0x04 then 0x17 else 0x11 :: u8"
  have "\<exists>l'. rtc_read (rtc_chip ?f) [] = Some (\<lparr>year = of_nat (100 * 20 + 25), month = of_nat 11, day = of_nat 11, hour = of_nat 17,
      minute = of_nat 11, second = of_nat 11\<rparr>, l')"
    by (rule rtc_read_24h [OF rtc_chip_answers]) (simp_all add: bcd_def)
  then show ?thesis by auto
qed

text \<open>
  In 12-hour mode the afternoon is read wrong: the top bit of the hour register marks the afternoon, but
  \<^verbatim>\<open>rtc_read\<close> converts the register from decimal first, which turns the bit into 80 and hides it, so that every afternoon
  hour \<open>h\<close> comes out as \<open>80 + h\<close>.
\<close>

theorem rtc_read_afternoon_wrong:
  assumes "rtc_answers hw f" "f 0x0A AND 0x80 = 0" "f 0x0B AND 0x04 = 0" "f 0x0B AND 0x02 = 0" "f 0x04 = 0x80 OR bcd h" "1 \<le> h" "h \<le> 12"
  shows "\<exists>t l'. rtc_read hw l = Some (t, l') \<and> unat (hour t) = 80 + h"
proof -
  obtain l1 where l1: "rtc_wait hw l = Some l1" using rtc_wait_ready [OF assms(1,2)] by blast
  have "h \<in> {1, 2, 3, 4, 5, 6, 7, 8, 9, 10, 11, 12}" using assms(6,7) by (simp; presburger)
  then have "bcd_to_bin (0x80 OR bcd h) = of_nat (80 + h) \<and> (of_nat (80 + h) :: u8) AND 0x80 = 0 \<and> (of_nat (80 + h) :: u8) AND 0x7F = of_nat (80 + h) \<and>
      (of_nat (80 + h) :: u8) \<noteq> 12"
    by (elim insertE) (simp_all add: bcd_def bcd_to_bin_def drop_bit_eq_div)
  moreover have "unat (of_nat (80 + h) :: u8) = 80 + h" using assms(7) by (intro unat_of_nat_small) simp
  ultimately show ?thesis using l1 assms(3-5)
    by (simp add: rtc_read_def cmos_read_answers [OF assms(1)] Let_def)
qed

theorem rtc_read_afternoon_wrong_witness:
  "\<exists>t l'. rtc_read (rtc_chip (\<lambda>r. if r = 0x0B then 0x00 else if r = 0x04 then 0x91 else 0x11)) [] = Some (t, l') \<and> unat (hour t) = 91"
  using rtc_read_afternoon_wrong [OF rtc_chip_answers, of "\<lambda>r. if r = 0x0B then 0x00 else if r = 0x04 then 0x91 else 0x11" 11 "[]"]
  by (simp add: bcd_def)

end
