(* ===== verification/Acpi.thy ===== *)
theory Acpi
  imports Heap Cstring
begin

text \<open>
  ACPI discovery, \<^verbatim>\<open>src/arch/i386/acpi.c\<close> and \<^verbatim>\<open>include/arch/i386/acpi.h\<close>: the search for the root pointer in low memory,
  the root table and its entries, the cache of tables in the heap, the interrupt controller table and the switch to ACPI
  mode. Tables are read byte by byte through the page tables, so that a read of a page that is not mapped is a page fault
  (\<open>None\<close>). Log output is not modelled, but the two parsers return what they report.
\<close>

section \<open>Memory and registers\<close>

text \<open>A byte of virtual memory; the cells of \<open>mem\<close> are little-endian words. \<open>None\<close> is a page fault.\<close>

definition vbyte :: "u32 \<Rightarrow> 'a vmm_scheme \<Rightarrow> u8 option" where
  "vbyte va s = map_option (\<lambda>pa. ucast (drop_bit (8 * unat (pa AND 3)) (mem s (pa AND NOT 3)))) (mmu s va)"

definition read16 :: "u32 \<Rightarrow> 'a vmm_scheme \<Rightarrow> u16 option" where
  "read16 a s = Option.bind (vbyte a s) (\<lambda>lo. map_option (\<lambda>hi. ucast lo OR push_bit 8 (ucast hi)) (vbyte (a + 1) s))"

definition read32 :: "u32 \<Rightarrow> 'a vmm_scheme \<Rightarrow> u32 option" where
  "read32 a s = Option.bind (read16 a s) (\<lambda>lo. map_option (\<lambda>hi. ucast lo OR push_bit 16 (ucast hi)) (read16 (a + 2) s))"

definition read64 :: "u32 \<Rightarrow> 'a vmm_scheme \<Rightarrow> u64 option" where
  "read64 a s = Option.bind (read32 a s) (\<lambda>lo. map_option (\<lambda>hi. ucast lo OR push_bit 32 (ucast hi)) (read32 (a + 4) s))"

text \<open>\<^verbatim>\<open>memcmp(p, sig, n) == 0\<close> against a literal; it stops at the first byte that differs.\<close>

fun sig_matches :: "u32 \<Rightarrow> u8 list \<Rightarrow> 'a vmm_scheme \<Rightarrow> bool option" where
  "sig_matches p [] s = Some True"
| "sig_matches p (c # cs) s = Option.bind (vbyte p s) (\<lambda>b. if b = c then sig_matches (p + 1) cs s else Some False)"

text \<open>
  The control register of the power management hardware is a port or a memory-mapped register of 16 bits; what it reads
  as after the accesses so far is a parameter.
\<close>

datatype pm1_reg = PortReg u16 | MmioReg u32
datatype acpi_event = ReadReg pm1_reg u16 | WritePort u16 u8

type_synonym acpi_hardware = "acpi_event list \<Rightarrow> pm1_reg \<Rightarrow> u16"

text \<open>The static \<^verbatim>\<open>acpi_ctx\<close>; \<open>slot p\<close> is the pointer stored at address \<open>p\<close> of the heap.\<close>

record acpi_state = heap +
  rsdp :: u32
  sdt_ptr :: u32
  entry_size :: u32
  num_entries :: u32
  tables :: u32
  slot :: "u32 \<Rightarrow> u32"
  acpi_io :: "acpi_event list"

definition RSDP_SIGNATURE :: "u8 list" where
  "RSDP_SIGNATURE = [0x52, 0x53, 0x44, 0x20, 0x50, 0x54, 0x52, 0x20]"

abbreviation (input) SIG_RSDT :: "u8 list" where "SIG_RSDT \<equiv> [0x52, 0x53, 0x44, 0x54]"
abbreviation (input) SIG_XSDT :: "u8 list" where "SIG_XSDT \<equiv> [0x58, 0x53, 0x44, 0x54]"
abbreviation (input) SIG_FACP :: "u8 list" where "SIG_FACP \<equiv> [0x46, 0x41, 0x43, 0x50]"
abbreviation (input) SIG_APIC :: "u8 list" where "SIG_APIC \<equiv> [0x41, 0x50, 0x49, 0x43]"

abbreviation (input) TIMEOUT :: u32 where "TIMEOUT \<equiv> 1000000"
abbreviation (input) MAX_TABLES :: u32 where "MAX_TABLES \<equiv> 32"
abbreviation (input) sizeof_sdt_header :: u32 where "sizeof_sdt_header \<equiv> 36"

text \<open>The offsets of the members of the packed structures.\<close>

abbreviation (input) rsdp_revision :: "u32 \<Rightarrow> u32" where "rsdp_revision p \<equiv> p + 15"
abbreviation (input) rsdp_rsdt_addr :: "u32 \<Rightarrow> u32" where "rsdp_rsdt_addr p \<equiv> p + 16"
abbreviation (input) xsdp_length :: "u32 \<Rightarrow> u32" where "xsdp_length p \<equiv> p + 20"
abbreviation (input) xsdp_xsdt_addr :: "u32 \<Rightarrow> u32" where "xsdp_xsdt_addr p \<equiv> p + 24"
abbreviation (input) sdt_length :: "u32 \<Rightarrow> u32" where "sdt_length p \<equiv> p + 4"
abbreviation (input) sdt_rev :: "u32 \<Rightarrow> u32" where "sdt_rev p \<equiv> p + 8"
abbreviation (input) fadt_dsdt_addr :: "u32 \<Rightarrow> u32" where "fadt_dsdt_addr p \<equiv> p + 40"
abbreviation (input) fadt_sci_int :: "u32 \<Rightarrow> u32" where "fadt_sci_int p \<equiv> p + 46"
abbreviation (input) fadt_smi_cmd :: "u32 \<Rightarrow> u32" where "fadt_smi_cmd p \<equiv> p + 48"
abbreviation (input) fadt_acpi_enable :: "u32 \<Rightarrow> u32" where "fadt_acpi_enable p \<equiv> p + 52"
abbreviation (input) fadt_pm1a_cnt_blk :: "u32 \<Rightarrow> u32" where "fadt_pm1a_cnt_blk p \<equiv> p + 64"
abbreviation (input) fadt_x_dsdt_addr :: "u32 \<Rightarrow> u32" where "fadt_x_dsdt_addr p \<equiv> p + 140"
abbreviation (input) fadt_x_pm1a_cnt_blk :: "u32 \<Rightarrow> u32" where "fadt_x_pm1a_cnt_blk p \<equiv> p + 172"
abbreviation (input) gas_address :: "u32 \<Rightarrow> u32" where "gas_address p \<equiv> p + 4"

section \<open>Checksums and the root pointer\<close>

function acpi_checksum_loop :: "u32 \<Rightarrow> u32 \<Rightarrow> u8 \<Rightarrow> 'a vmm_scheme \<Rightarrow> u8 option" where
  "acpi_checksum_loop p len acc s =
     (if len = 0 then Some acc else Option.bind (vbyte p s) (\<lambda>b. acpi_checksum_loop (p + 1) (len - 1) (acc + b) s))"
  by pat_completeness auto
termination
  by (relation "measure (\<lambda>(p, len, acc, s). unat len)") (auto simp: unat_minus_one unat_gt_0)

declare acpi_checksum_loop.simps [simp del]

definition acpi_checksum :: "u32 \<Rightarrow> u32 \<Rightarrow> 'a vmm_scheme \<Rightarrow> u8 option" where
  "acpi_checksum p len s = acpi_checksum_loop p len 0 s"

text \<open>The loop of the search, from \<open>ptr\<close> in steps of 16; 0 when there is none before \<open>e\<close>.\<close>

partial_function (option) rsdp_scan :: "u32 \<Rightarrow> u32 \<Rightarrow> 'a vmm_scheme \<Rightarrow> u32 option" where
  "rsdp_scan ptr e s =
     (if ptr + 20 \<le> e then
        Option.bind (sig_matches ptr RSDP_SIGNATURE s) (\<lambda>m.
        if m then Option.bind (acpi_checksum ptr 20 s) (\<lambda>c. if c = 0 then Some ptr else rsdp_scan (ptr + 16) e s)
        else rsdp_scan (ptr + 16) e s)
      else Some 0)"

definition acpi_find_rsdp :: "'a vmm_scheme \<Rightarrow> u32 option" where
  "acpi_find_rsdp s =
     Option.bind (read16 0x40E s) (\<lambda>ebda_seg.
     let ebda_addr = push_bit 4 (ucast ebda_seg) :: u32
     in Option.bind (if ebda_addr \<noteq> 0 then rsdp_scan ebda_addr (ebda_addr + 1024) s else Some 0) (\<lambda>r.
        if r \<noteq> 0 then Some r else rsdp_scan 0xE0000 0x100000 s))"

section \<open>Tables\<close>

text \<open>An entry of the root table has 8 or 4 bytes.\<close>

definition table_entry :: "u32 \<Rightarrow> 'a acpi_state_scheme \<Rightarrow> u64 option" where
  "table_entry p s = (if entry_size s = 8 then read64 p s else map_option ucast (read32 p s))"

definition cached_table :: "u8 list \<Rightarrow> 'a acpi_state_scheme \<Rightarrow> (u32 option \<times> unit) option" where
  "cached_table sig s =
     for_ret 0 (num_entries s) (\<lambda>i _.
       let h = slot s (tables s + 4 * i)
       in if tables s \<noteq> 0 \<and> h \<noteq> 0 then map_option (\<lambda>m. (if m then Some h else None, ())) (sig_matches h sig s)
          else Some (None, ())) ()"

definition listed_table :: "u8 list \<Rightarrow> 'a acpi_state_scheme \<Rightarrow> (u32 option \<times> unit) option" where
  "listed_table sig s =
     for_ret 0 (num_entries s) (\<lambda>i _.
       Option.bind (table_entry (sdt_ptr s + i * entry_size s) s) (\<lambda>table_addr.
       if table_addr > 0xFFFFFFFF then Some (None, ())
       else let hdr = ucast table_addr
            in Option.bind (read32 (sdt_length hdr) s) (\<lambda>len.
               Option.bind (acpi_checksum hdr len s) (\<lambda>c.
               if c = 0 then map_option (\<lambda>m. (if m then Some hdr else None, ())) (sig_matches hdr sig s)
               else Some (None, ()))))) ()"

text \<open>The signature is given by its four bytes; the callers pass literals, never a null pointer.\<close>

definition acpi_get_table :: "u8 list \<Rightarrow> 'a acpi_state_scheme \<Rightarrow> u32 option" where
  "acpi_get_table sig s =
     (if rsdp s = 0 then Some 0
      else Option.bind (cached_table sig s) (\<lambda>(r, _). case r of Some h \<Rightarrow> Some h
        | None \<Rightarrow> map_option (\<lambda>(r, _). case r of Some h \<Rightarrow> h | None \<Rightarrow> 0) (listed_table sig s)))"

section \<open>The fixed table\<close>

definition pm1_read :: "acpi_hardware \<Rightarrow> pm1_reg \<Rightarrow> 'a acpi_state_scheme \<Rightarrow> (u16 \<times> 'a acpi_state_scheme) option" where
  "pm1_read hw r s =
     (if (case r of PortReg p \<Rightarrow> True | MmioReg a \<Rightarrow> mmu s a \<noteq> None)
      then let v = hw (acpi_io s) r in Some (v, s\<lparr>acpi_io := acpi_io s @ [ReadReg r v]\<rparr>)
      else None)"

function pm1_wait :: "acpi_hardware \<Rightarrow> pm1_reg \<Rightarrow> u32 \<Rightarrow> 'a acpi_state_scheme \<Rightarrow> (bool \<times> 'a acpi_state_scheme) option" where
  "pm1_wait hw r t s =
     (if t = 0 then Some (False, s)
      else Option.bind (pm1_read hw r s) (\<lambda>(v, s). if v AND 1 \<noteq> 0 then Some (True, s) else pm1_wait hw r (t - 1) s))"
  by pat_completeness auto
termination
  by (relation "measure (\<lambda>(hw, r, t, s). unat t)") (auto simp: unat_minus_one unat_gt_0)

declare pm1_wait.simps [simp del]

text \<open>What the log reports last; the function itself returns nothing.\<close>

datatype fadt_outcome =
  Fadt_Missing | Pm1_Invalid | Pm1_Misaligned | Pm1_Unmapped | Pm1_Unsupported | Sci_Already | No_Smi_Cmd | Sci_Enabled | Sci_Timeout

text \<open>The register at an address of a space, mapped when it has to be.\<close>

definition pm1_register :: "u32 \<Rightarrow> u8 \<Rightarrow> 'a acpi_state_scheme \<Rightarrow> ((fadt_outcome + pm1_reg) \<times> 'a acpi_state_scheme) option" where
  "pm1_register a addr_space s =
     (if addr_space = 1 then Some (Inr (PortReg (ucast a)), s)
      else if addr_space = 0 then
        if a AND 1 \<noteq> 0 then Some (Inl Pm1_Misaligned, s)
        else Option.bind (vmm_get_physical_addr a s) (\<lambda>phys.
          if phys = 0
          then map_option (\<lambda>(st, s). (if st \<noteq> KERNEL_OK then Inl Pm1_Unmapped else Inr (MmioReg a), s)) (vmm_map_if_not_mapped a PAGE_SIZE s)
          else Some (Inr (MmioReg a), s))
      else Some (Inl Pm1_Unsupported, s))"

text \<open>The address and space of the control register; the extended field counts from revision 3 on.\<close>

definition pm1_address :: "u32 \<Rightarrow> u8 \<Rightarrow> 'a acpi_state_scheme \<Rightarrow> (u64 \<times> u8) option" where
  "pm1_address fadt revision s =
     Option.bind (if revision \<ge> 3 then read64 (gas_address (fadt_x_pm1a_cnt_blk fadt)) s else Some 0) (\<lambda>x.
       if x \<noteq> 0 then map_option (Pair x) (vbyte (fadt_x_pm1a_cnt_blk fadt) s)
       else map_option (\<lambda>a. (ucast a, 1)) (read32 (fadt_pm1a_cnt_blk fadt) s))"

definition dsdt_address :: "u32 \<Rightarrow> u8 \<Rightarrow> 'a acpi_state_scheme \<Rightarrow> u64 option" where
  "dsdt_address fadt revision s =
     Option.bind (if revision \<ge> 3 then read64 (fadt_x_dsdt_addr fadt) s else Some 0) (\<lambda>x.
       if x \<noteq> 0 then Some x else map_option ucast (read32 (fadt_dsdt_addr fadt) s))"

text \<open>The enable command and the wait for its effect.\<close>

definition acpi_enable :: "acpi_hardware \<Rightarrow> u32 \<Rightarrow> pm1_reg \<Rightarrow> 'a acpi_state_scheme \<Rightarrow> (fadt_outcome \<times> 'a acpi_state_scheme) option" where
  "acpi_enable hw fadt r s =
     Option.bind (pm1_read hw r s) (\<lambda>(pm1_cnt, s).
     if pm1_cnt AND 1 \<noteq> 0 then Some (Sci_Already, s)
     else Option.bind (read32 (fadt_smi_cmd fadt) s) (\<lambda>smi_cmd.
       if smi_cmd = 0 then Some (No_Smi_Cmd, s)
       else Option.bind (vbyte (fadt_acpi_enable fadt) s) (\<lambda>enable.
         map_option (\<lambda>(up, s). (if up then Sci_Enabled else Sci_Timeout, s))
           (pm1_wait hw r TIMEOUT (s\<lparr>acpi_io := acpi_io s @ [WritePort (ucast smi_cmd) enable]\<rparr>)))))"

definition acpi_parse_fadt :: "acpi_hardware \<Rightarrow> u32 \<Rightarrow> 'a acpi_state_scheme \<Rightarrow> (fadt_outcome \<times> 'a acpi_state_scheme) option" where
  "acpi_parse_fadt hw fadt s =
     (if fadt = 0 then Some (Fadt_Missing, s)
      else Option.bind (vbyte (sdt_rev fadt) s) (\<lambda>revision.
        Option.bind (dsdt_address fadt revision s) (\<lambda>_.
        Option.bind (pm1_address fadt revision s) (\<lambda>(pm1a_cnt_addr, addr_space).
        Option.bind (read16 (fadt_sci_int fadt) s) (\<lambda>_.
        Option.bind (read32 (fadt_smi_cmd fadt) s) (\<lambda>_.
        if pm1a_cnt_addr = 0 \<or> pm1a_cnt_addr > 0xFFFFFFFF then Some (Pm1_Invalid, s)
        else Option.bind (pm1_register (ucast pm1a_cnt_addr) addr_space s) (\<lambda>(r, s).
          case r of Inl why \<Rightarrow> Some (why, s) | Inr reg \<Rightarrow> acpi_enable hw fadt reg s)))))))"

section \<open>The interrupt controller table\<close>

datatype madt_entry = Lapic u8 u8 u32 | Ioapic u8 u32 u32 | Unknown_Entry u8 u8

text \<open>What an entry adds to the log.\<close>

definition madt_entry_at :: "u32 \<Rightarrow> u8 \<Rightarrow> u8 \<Rightarrow> 'a vmm_scheme \<Rightarrow> madt_entry list option" where
  "madt_entry_at ptr typ len s =
     (if typ = 0 then
        if len \<ge> 8 then
          Option.bind (vbyte (ptr + 2) s) (\<lambda>proc. Option.bind (vbyte (ptr + 3) s) (\<lambda>apic.
            map_option (\<lambda>flags. [Lapic proc apic flags]) (read32 (ptr + 4) s)))
        else Some []
      else if typ = 1 then
        if len \<ge> 12 then
          Option.bind (vbyte (ptr + 2) s) (\<lambda>id. Option.bind (read32 (ptr + 4) s) (\<lambda>addr.
            map_option (\<lambda>gsi. [Ioapic id addr gsi]) (read32 (ptr + 8) s)))
        else Some []
      else Some [Unknown_Entry typ len])"

text \<open>The loop over the entries: the log, the number of entries, and whether an invalid entry ended it.\<close>

partial_function (option) madt_walk ::
    "u32 \<Rightarrow> u32 \<Rightarrow> madt_entry list \<Rightarrow> u32 \<Rightarrow> 'a vmm_scheme \<Rightarrow> (madt_entry list \<times> u32 \<times> bool) option" where
  "madt_walk ptr e es entry_count s =
     (if ptr + 2 \<le> e then
        Option.bind (vbyte ptr s) (\<lambda>typ. Option.bind (vbyte (ptr + 1) s) (\<lambda>len.
        if len < 2 \<or> ptr + ucast len > e then Some (es, entry_count, True)
        else Option.bind (madt_entry_at ptr typ len s) (\<lambda>x. madt_walk (ptr + ucast len) e (es @ x) (entry_count + 1) s)))
      else Some (es, entry_count, False))"

definition acpi_parse_madt :: "u32 \<Rightarrow> 'a vmm_scheme \<Rightarrow> (madt_entry list \<times> u32 \<times> bool) option" where
  "acpi_parse_madt madt s =
     (if madt = 0 then Some ([], 0, False)
      else Option.bind (read32 (sdt_length madt) s) (\<lambda>len.
        Option.bind (read32 (madt + 36) s) (\<lambda>_. Option.bind (read32 (madt + 40) s) (\<lambda>_.
        madt_walk (madt + sizeof_sdt_header + 8) (madt + len) [] 0 s))))"

section \<open>Initialisation\<close>

text \<open>The address of the root table and whether it is the extended one; \<open>Some None\<close> is an early return.\<close>

definition root_table :: "'a acpi_state_scheme \<Rightarrow> (u32 \<times> bool) option option" where
  "root_table s =
     Option.bind (vbyte (rsdp_revision (rsdp s)) s) (\<lambda>revision.
     if revision \<ge> 2 then
       Option.bind (read32 (xsdp_length (rsdp s)) s) (\<lambda>len.
       Option.bind (acpi_checksum (rsdp s) len s) (\<lambda>c.
       if c \<noteq> 0 then Some None
       else map_option (\<lambda>xsdt. if xsdt > 0xFFFFFFFF then None else Some (ucast xsdt, True)) (read64 (xsdp_xsdt_addr (rsdp s)) s)))
     else map_option (\<lambda>rsdt. Some (rsdt, False)) (read32 (rsdp_rsdt_addr (rsdp s)) s))"

text \<open>The checks of one table: whether it goes into the cache.\<close>

definition check_table :: "u32 \<Rightarrow> 'a acpi_state_scheme \<Rightarrow> (bool \<times> 'a acpi_state_scheme) option" where
  "check_table t s =
     Option.bind (vmm_map_if_not_mapped t PAGE_SIZE s) (\<lambda>(st, s).
     if st \<noteq> KERNEL_OK then Some (False, s)
     else Option.bind (acpi_checksum t sizeof_sdt_header s) (\<lambda>c.
       if c \<noteq> 0 then Some (False, s)
       else Option.bind (read32 (sdt_length t) s) (\<lambda>table_len.
         Option.bind (vmm_map_if_not_mapped t table_len s) (\<lambda>(st, s).
         if st \<noteq> KERNEL_OK then Some (False, s)
         else map_option (\<lambda>c. (c = 0, s)) (acpi_checksum t table_len s)))))"

text \<open>One entry of the root table; the result \<open>Some ()\<close> ends the loop, because the cache is full.\<close>

definition cache_step :: "u32 \<Rightarrow> u32 \<times> 'a acpi_state_scheme \<Rightarrow> (unit option \<times> u32 \<times> 'a acpi_state_scheme) option" where
  "cache_step i = (\<lambda>(cached, s).
     if \<not> cached < MAX_TABLES then Some (Some (), cached, s)
     else Option.bind (table_entry (sdt_ptr s + i * entry_size s) s) (\<lambda>table_phys.
       if table_phys > 0xFFFFFFFF then Some (None, cached, s)
       else let t = ucast table_phys
       in map_option (\<lambda>(ok, s). if ok then (None, cached + 1, s\<lparr>slot := (slot s)(tables s + 4 * cached := t)\<rparr>) else (None, cached, s))
            (check_table t s)))"

definition cache_tables :: "'a acpi_state_scheme \<Rightarrow> 'a acpi_state_scheme option" where
  "cache_tables s = map_option (\<lambda>(_, _, s). s) (for_ret 0 (num_entries s) cache_step (0, s))"

text \<open>\<^verbatim>\<open>kcalloc\<close> clears the new array in every view of the heap.\<close>

definition alloc_table_cache :: "'a acpi_state_scheme \<Rightarrow> 'a acpi_state_scheme option" where
  "alloc_table_cache s =
     map_option (\<lambda>(p, s). s\<lparr>tables := p, slot := (\<lambda>x. if p \<noteq> 0 \<and> x - p < MAX_TABLES * 4 then 0 else slot s x)\<rparr>) (kcalloc MAX_TABLES 4 s)"

text \<open>The part that maps and checks the root table; \<open>False\<close> is an early return.\<close>

definition open_root_table :: "u32 \<Rightarrow> bool \<Rightarrow> 'a acpi_state_scheme \<Rightarrow> (bool \<times> 'a acpi_state_scheme) option" where
  "open_root_table sdt_phys is_xsdt s =
     Option.bind (vmm_map_if_not_mapped sdt_phys PAGE_SIZE s) (\<lambda>(st, s).
     if st \<noteq> KERNEL_OK then Some (False, s)
     else Option.bind (sig_matches sdt_phys (if is_xsdt then SIG_XSDT else SIG_RSDT) s) (\<lambda>m.
       if \<not> m then Some (False, s)
       else Option.bind (read32 (sdt_length sdt_phys) s) (\<lambda>sdt_len.
         Option.bind (vmm_map_if_not_mapped sdt_phys sdt_len s) (\<lambda>(st, s).
         if st \<noteq> KERNEL_OK then Some (False, s)
         else map_option (\<lambda>c.
           if c \<noteq> 0 then (False, s)
           else let sz = (if is_xsdt then 8 else 4)
                in (True, s\<lparr>sdt_ptr := sdt_phys + sizeof_sdt_header, entry_size := sz,
                            num_entries := (sdt_len - sizeof_sdt_header) div sz\<rparr>))
           (acpi_checksum sdt_phys sdt_len s)))))"

text \<open>The result reports what was found of the two tables.\<close>

definition acpi_init ::
    "acpi_hardware \<Rightarrow> 'a acpi_state_scheme \<Rightarrow> (fadt_outcome option \<times> (madt_entry list \<times> u32 \<times> bool) option \<times> 'a acpi_state_scheme) option" where
  "acpi_init hw s =
     Option.bind (acpi_find_rsdp s) (\<lambda>p.
     let s = s\<lparr>rsdp := p\<rparr>
     in if p = 0 then Some (None, None, s)
        else Option.bind (root_table s) (\<lambda>root.
          case root of None \<Rightarrow> Some (None, None, s)
          | Some (sdt_phys, is_xsdt) \<Rightarrow>
            Option.bind (open_root_table sdt_phys is_xsdt s) (\<lambda>(ready, s).
            if \<not> ready then Some (None, None, s)
            else Option.bind (alloc_table_cache s) (\<lambda>s.
              if tables s = 0 then Some (None, None, s)
              else Option.bind (cache_tables s) (\<lambda>s.
                Option.bind (acpi_get_table SIG_FACP s) (\<lambda>fadt.
                Option.bind (if fadt \<noteq> 0 then map_option (map_prod Some id) (acpi_parse_fadt hw fadt s) else Some (None, s)) (\<lambda>(f, s).
                Option.bind (acpi_get_table SIG_APIC s) (\<lambda>madt.
                map_option (\<lambda>m. (f, m, s)) (if madt \<noteq> 0 then map_option Some (acpi_parse_madt madt s) else Some None)))))))))"

section \<open>Reading tables\<close>

text \<open>The \<open>n\<close> bytes at \<open>a\<close> can be read, and are those of \<open>m\<close>.\<close>

definition sees :: "'a vmm_scheme \<Rightarrow> memory \<Rightarrow> u32 \<Rightarrow> nat \<Rightarrow> bool" where
  "sees s m a n \<longleftrightarrow> (\<forall>i < n. vbyte (a + of_nat i) s = Some (m (a + of_nat i)))"

lemma sees_byte: "sees s m a n \<Longrightarrow> i < n \<Longrightarrow> vbyte (a + of_nat i) s = Some (m (a + of_nat i))"
  by (simp add: sees_def)

lemma sees_Suc: "sees s m a (Suc n) \<longleftrightarrow> vbyte a s = Some (m a) \<and> sees s m (a + 1) n"
  by (auto simp: sees_def less_Suc_eq_0_disj add.assoc)

lemma sees_mono: "sees s m a n \<Longrightarrow> k \<le> n \<Longrightarrow> sees s m a k"
  by (simp add: sees_def)

lemma sees_shift:
  assumes "sees s m a n" "d + k \<le> n"
  shows "sees s m (a + of_nat d) k"
proof -
  have "vbyte (a + of_nat d + of_nat i) s = Some (m (a + of_nat d + of_nat i))" if "i < k" for i
    using sees_byte [OF assms(1), of "d + i"] assms(2) that by (simp add: add.assoc)
  then show ?thesis by (simp add: sees_def)
qed

text \<open>Little-endian numbers in a byte memory.\<close>

definition le16 :: "memory \<Rightarrow> u32 \<Rightarrow> u16" where
  "le16 m a = ucast (m a) OR push_bit 8 (ucast (m (a + 1)))"

definition le32 :: "memory \<Rightarrow> u32 \<Rightarrow> u32" where
  "le32 m a = ucast (le16 m a) OR push_bit 16 (ucast (le16 m (a + 2)))"

lemma read16_sees: "sees s m a 2 \<Longrightarrow> read16 a s = Some (le16 m a)"
  using sees_byte [of s m a 2 0] sees_byte [of s m a 2 1] by (simp add: read16_def le16_def)

lemma read32_sees:
  assumes "sees s m a 4"
  shows "read32 a s = Some (le32 m a)"
  using read16_sees [OF sees_mono [OF assms]] read16_sees [OF sees_shift [OF assms, of 2 2]] by (simp add: read32_def le32_def)

lemma sig_matches_sees:
  "sees s m p (length cs) \<Longrightarrow> sig_matches p cs s = Some (\<forall>i < length cs. m (p + of_nat i) = cs ! i)"
proof (induction cs arbitrary: p)
  case (Cons c cs)
  then have "vbyte p s = Some (m p)" "sig_matches (p + 1) cs s = Some (\<forall>i < length cs. m (p + 1 + of_nat i) = cs ! i)"
    by (simp_all add: sees_Suc)
  then show ?case by (auto simp: less_Suc_eq_0_disj add.assoc)
qed simp

text \<open>The sum of \<open>n\<close> bytes, modulo 256.\<close>

definition byte_sum :: "memory \<Rightarrow> u32 \<Rightarrow> nat \<Rightarrow> u8" where
  "byte_sum m p n = sum_list (map (\<lambda>i. m (p + of_nat i)) [0..<n])"

lemma byte_sum_Suc: "byte_sum m p (Suc n) = m p + byte_sum m (p + 1) n"
  unfolding byte_sum_def by (subst upt_conv_Cons) (simp_all add: map_Suc_upt [symmetric] o_def add.assoc del: upt_Suc)

lemma acpi_checksum_loop_sees: "sees s m p (unat len) \<Longrightarrow> acpi_checksum_loop p len acc s = Some (acc + byte_sum m p (unat len))"
proof (induction p len acc s rule: acpi_checksum_loop.induct)
  case (1 p len acc s)
  show ?case
  proof (cases "len = 0")
    case True
    then show ?thesis by (simp add: acpi_checksum_loop.simps byte_sum_def)
  next
    case False
    then have "unat len = Suc (unat (len - 1))" by (simp add: unat_minus_one unat_gt_0)
    then show ?thesis using 1 False by (subst acpi_checksum_loop.simps) (simp add: sees_Suc byte_sum_Suc add.assoc)
  qed
qed

lemma acpi_checksum_sees: "sees s m p (unat len) \<Longrightarrow> acpi_checksum p len s = Some (byte_sum m p (unat len))"
  by (simp add: acpi_checksum_def acpi_checksum_loop_sees)

section \<open>The search for the root pointer\<close>

definition rsdp_at :: "memory \<Rightarrow> u32 \<Rightarrow> bool" where
  "rsdp_at m p \<longleftrightarrow> (\<forall>i < 8. m (p + of_nat i) = RSDP_SIGNATURE ! i) \<and> byte_sum m p 20 = 0"

text \<open>The places where the pointer may be: \<open>n\<close> steps of 16 bytes.\<close>

definition paragraphs :: "u32 \<Rightarrow> nat \<Rightarrow> u32 list" where
  "paragraphs a n = map (\<lambda>k. a + 16 * of_nat k) [0..<n]"

definition first_rsdp :: "memory \<Rightarrow> u32 list \<Rightarrow> u32" where
  "first_rsdp m ps = (case find (rsdp_at m) ps of None \<Rightarrow> 0 | Some p \<Rightarrow> p)"

lemma paragraphs_Suc: "paragraphs a (Suc n) = a # paragraphs (a + 16) n"
  unfolding paragraphs_def by (subst upt_conv_Cons) (simp_all add: map_Suc_upt [symmetric] o_def algebra_simps del: upt_Suc)

lemma rsdp_scan_eq:
  assumes "sees s m ptr n" "unat ptr + n + 36 < 2 ^ 32"
  shows "rsdp_scan ptr (ptr + of_nat n) s = Some (first_rsdp m (paragraphs ptr ((n - 4) div 16)))"
  using assms
proof (induction "(n - 4) div 16" arbitrary: ptr n)
  case 0
  then have n: "n < 20" by (simp add: div_eq_0_iff)
  have "unat (ptr + 20) = unat ptr + 20" using "0.prems"(2) by (subst unat_add_small) simp_all
  moreover have "unat (ptr + of_nat n) = unat ptr + n" using "0.prems"(2) by (subst unat_add_small) (simp_all add: unat_of_nat_small)
  ultimately have "\<not> ptr + 20 \<le> ptr + of_nat n" using n by (simp only: word_le_nat_alt)
  then show ?case using "0.hyps" by (subst rsdp_scan.simps) (simp add: paragraphs_def first_rsdp_def)
next
  case (Suc k)
  then have n: "20 \<le> n" by (cases "20 \<le> n") (simp_all add: not_le)
  have "unat (ptr + 20) = unat ptr + 20" using Suc.prems(2) n by (subst unat_add_small) simp_all
  moreover have "unat (ptr + of_nat n) = unat ptr + n" using Suc.prems(2) by (subst unat_add_small) (simp_all add: unat_of_nat_small)
  ultimately have le: "ptr + 20 \<le> ptr + of_nat n" using n by (simp only: word_le_nat_alt)
  have 16: "unat (ptr + 16) = unat ptr + 16" using Suc.prems(2) n by (subst unat_add_small) simp_all
  have sees: "sees s m (ptr + 16) (n - 16)" using sees_shift [OF Suc.prems(1), of 16 "n - 16"] n by simp
  have k: "k = (n - 16 - 4) div 16" using Suc.hyps(2) n by linarith
  have step: "rsdp_scan (ptr + 16) (ptr + of_nat n) s = Some (first_rsdp m (paragraphs (ptr + 16) k))"
    using Suc.hyps(1) [OF k sees] Suc.prems(2) n k by (simp add: 16 of_nat_diff)
  have len: "length RSDP_SIGNATURE = 8" by (simp add: RSDP_SIGNATURE_def)
  have "sig_matches ptr RSDP_SIGNATURE s = Some (\<forall>i < 8. m (ptr + of_nat i) = RSDP_SIGNATURE ! i)"
    using sig_matches_sees [OF sees_mono [OF Suc.prems(1)], of RSDP_SIGNATURE] n by (simp add: len)
  moreover have "acpi_checksum ptr 20 s = Some (byte_sum m ptr 20)"
    using acpi_checksum_sees [OF sees_mono [OF Suc.prems(1)], of 20] n by simp
  ultimately show ?case using le step
    by (subst rsdp_scan.simps) (auto simp: Suc.hyps(2) [symmetric] paragraphs_Suc first_rsdp_def rsdp_at_def)
qed

text \<open>
  \<^verbatim>\<open>acpi_find_rsdp\<close> returns the first root pointer: when the areas it searches can be read, it returns the first
  16-byte boundary of the first kilobyte of the extended BIOS data area, whose segment is stored at \<open>0x40E\<close>, and then of the
  BIOS area, where the signature stands and the 20 bytes sum up to zero; and the null pointer when there is none.
\<close>

theorem acpi_find_rsdp_first:
  assumes "sees s m 0x40E 2" and "sees s m 0xE0000 0x20000"
    and "ebda = push_bit 4 (ucast (le16 m 0x40E))" and "ebda \<noteq> 0 \<longrightarrow> sees s m ebda 1024"
  shows "acpi_find_rsdp s = Some (first_rsdp m ((if ebda \<noteq> 0 then paragraphs ebda 63 else []) @ paragraphs 0xE0000 8191))"
proof -
  have small: "unat ebda \<le> 0xFFFF0"
  proof -
    have "unat (le16 m 0x40E) < 65536" by (rule unat_lt(2))
    then have "unat (ucast (le16 m 0x40E) :: u32) < 2 ^ 16" by (simp add: unsigned_ucast_eq take_bit_nat_eq_self del: unat_lt)
    then have "unat (ucast (le16 m 0x40E) * 16 :: u32) \<le> 0xFFFF0" by (subst unat_mult_small) simp_all
    then show ?thesis by (simp add: assms(3) push_bit_eq_mult)
  qed
  have bios: "rsdp_scan 0xE0000 0x100000 s = Some (first_rsdp m (paragraphs 0xE0000 8191))"
    using rsdp_scan_eq [OF assms(2)] by simp
  have data: "rsdp_scan ebda (ebda + 1024) s = Some (first_rsdp m (paragraphs ebda 63))" if "ebda \<noteq> 0"
    using rsdp_scan_eq [of s m ebda 1024] assms(4) that small by simp
  have pos: "p \<noteq> 0" if e: "ebda \<noteq> 0" and p: "p \<in> set (paragraphs ebda 63)" for p
  proof -
    obtain k where k: "k < 63" "p = ebda + 16 * of_nat k" using p by (auto simp: paragraphs_def)
    have "unat (16 * of_nat k :: u32) = 16 * k" using k(1) by (subst unat_mult_small) (simp_all add: unat_of_nat_small)
    then have "unat p = unat ebda + 16 * k" unfolding k(2) using small k(1) by (subst unat_add_small) simp_all
    with e show ?thesis by (auto simp: unat_gt_0 [symmetric])
  qed
  show ?thesis
  proof (cases "ebda = 0")
    case True
    then show ?thesis using bios by (simp add: acpi_find_rsdp_def read16_sees [OF assms(1)] assms(3) [symmetric] Let_def)
  next
    case False
    have "first_rsdp m (paragraphs ebda 63) \<noteq> 0 \<longleftrightarrow> find (rsdp_at m) (paragraphs ebda 63) \<noteq> None"
    proof (cases "find (rsdp_at m) (paragraphs ebda 63)")
      case (Some p)
      then have "p \<in> set (paragraphs ebda 63)" by (auto simp: find_Some_iff)
      then show ?thesis using pos [OF False] Some by (simp add: first_rsdp_def)
    qed (simp add: first_rsdp_def)
    moreover have "find (rsdp_at m) (xs @ ys) = (case find (rsdp_at m) xs of None \<Rightarrow> find (rsdp_at m) ys | Some p \<Rightarrow> Some p)" for xs ys
      by (induction xs) simp_all
    ultimately show ?thesis using False bios data [OF False]
      by (auto simp: acpi_find_rsdp_def read16_sees [OF assms(1)] assms(3) [symmetric] Let_def first_rsdp_def split: option.splits)
  qed
qed

text \<open>A machine without paging whose memory holds given bytes.\<close>

definition byte_machine :: "memory \<Rightarrow> vmm" where
  "byte_machine m = small_machine\<lparr>paging := False, mem := le32 m\<rparr>"

lemma le32_byte: "ucast (drop_bit (8 * unat (a AND 3)) (le32 m (a AND - 4))) = m a"
proof -
  have "(a AND NOT 3) AND (a AND 3) = 0" by (rule bit_word_eqI) (auto simp: bit_simps)
  moreover have "(a AND NOT 3) OR (a AND 3) = a" by (rule bit_word_eqI) (auto simp: bit_simps)
  ultimately have a: "a = (a AND - 4) + (a AND 3)" by (subst disjunctive_add_eq_or) simp_all
  have "unat (a AND 3) < 4" using unat_and_mask [of a 2] by (simp add: mask_eq_exp_minus_1)
  then have "unat (a AND 3) \<in> {0, 1, 2, 3}" by auto
  then have "a AND 3 \<in> {0, 1, 2, 3}" by (auto simp: word_unat_eq_iff)
  moreover define b where "b = a AND - 4"
  moreover have "ucast (drop_bit 0 (le32 m b)) = m b" "ucast (drop_bit 8 (le32 m b)) = m (b + 1)"
    "ucast (drop_bit 16 (le32 m b)) = m (b + 2)" "ucast (drop_bit 24 (le32 m b)) = m (b + 3)"
    by (rule bit_word_eqI; auto simp: le32_def le16_def bit_simps add.assoc dest: bit_imp_le_length)+
  ultimately show ?thesis using a by auto
qed

lemma unpaged_sees: "\<not> paging s \<Longrightarrow> mem s = le32 m \<Longrightarrow> sees s m a n"
  by (simp add: sees_def vbyte_def mmu_def le32_byte)

lemma byte_machine_sees: "sees (byte_machine m) m a n"
  by (rule unpaged_sees) (simp_all add: byte_machine_def)

definition rsdp_example :: memory where
  "rsdp_example = (\<lambda>_. 0)(0xE0010 := 0x52, 0xE0011 := 0x53, 0xE0012 := 0x44, 0xE0013 := 0x20, 0xE0014 := 0x50,
     0xE0015 := 0x54, 0xE0016 := 0x52, 0xE0017 := 0x20, 0xE0018 := 0xE1)"

lemma rsdp_example_at: "\<not> rsdp_at rsdp_example 0xE0000" "rsdp_at rsdp_example 0xE0010"
proof -
  show "\<not> rsdp_at rsdp_example 0xE0000" by (auto simp: rsdp_at_def rsdp_example_def RSDP_SIGNATURE_def intro!: exI [of _ 0])
  have "\<forall>i \<in> set [0..<8]. rsdp_example (0xE0010 + of_nat i) = RSDP_SIGNATURE ! i"
    by (simp add: rsdp_example_def RSDP_SIGNATURE_def upt_rec)
  then have "\<forall>i < 8. rsdp_example (0xE0010 + of_nat i) = RSDP_SIGNATURE ! i" by simp
  then show "rsdp_at rsdp_example 0xE0010" 
    by (simp add: rsdp_at_def byte_sum_def upt_rec rsdp_example_def)
qed

theorem acpi_find_rsdp_first_witness: "acpi_find_rsdp (byte_machine rsdp_example) = Some 0xE0010"
proof -
  have z: "push_bit 4 (ucast (le16 rsdp_example 0x40E)) = (0 :: u32)" by (simp add: le16_def rsdp_example_def)
  have "(8191 :: nat) = Suc (Suc 8189)" by simp
  then have "first_rsdp rsdp_example (paragraphs 0xE0000 8191) = 0xE0010"
    using rsdp_example_at by (simp only: paragraphs_Suc first_rsdp_def) simp
  then show ?thesis
    using acpi_find_rsdp_first [OF byte_machine_sees byte_machine_sees z [symmetric]] by simp
qed

section \<open>Looking up a table\<close>

text \<open>A loop that looks for the first index with a property.\<close>

lemma for_ret_find:
  fixes s e :: "'a::len word"
  assumes "\<And>i. s \<le> i \<Longrightarrow> i < e \<Longrightarrow> body i () = Some (if P i then Some (h i) else None, ())"
  shows "for_ret s e body () = Some (map_option h (find P (map of_nat [unat s..<unat e])), ())"
  using assms
proof (induction "unat e - unat s" arbitrary: s)
  case 0
  then have "\<not> s < e" by (simp add: word_less_nat_alt)
  moreover have "unat e \<le> unat s" using 0 by simp
  ultimately show ?case by (simp add: for_ret.simps [of s])
next
  case (Suc n)
  then have less: "s < e" by (simp add: word_less_nat_alt)
  have body: "body s () = Some (if P s then Some (h s) else None, ())" by (rule Suc.prems) (use less in simp_all)
  have "n = unat e - unat (s + 1)" using Suc.hyps(2) less by (simp add: unat_inc_less)
  moreover have "s \<le> i" if "s + 1 \<le> i" for i using that less by (simp add: word_le_nat_alt unat_inc_less)
  ultimately have rest: "for_ret (s + 1) e body () = Some (map_option h (find P (map of_nat [unat (s + 1)..<unat e])), ())"
    using Suc.hyps(1) Suc.prems by blast
  have "[unat s..<unat e] = unat s # [unat (s + 1)..<unat e]" using less by (simp add: upt_conv_Cons unat_inc_less word_less_nat_alt)
  then show ?case using less body rest by (simp add: for_ret.simps [of s])
qed

definition sig_at :: "memory \<Rightarrow> u8 list \<Rightarrow> u32 \<Rightarrow> bool" where
  "sig_at m sig h \<longleftrightarrow> (\<forall>i < length sig. m (h + of_nat i) = sig ! i)"

text \<open>Slot \<open>i\<close> of the cache holds a table of the signature; entry \<open>i\<close> of the root table, \<open>ent i\<close>, is a valid one.\<close>

definition cached_match :: "memory \<Rightarrow> u8 list \<Rightarrow> 'a acpi_state_scheme \<Rightarrow> u32 \<Rightarrow> bool" where
  "cached_match m sig s i \<longleftrightarrow> tables s \<noteq> 0 \<and> slot s (tables s + 4 * i) \<noteq> 0 \<and> sig_at m sig (slot s (tables s + 4 * i))"

definition valid_table :: "memory \<Rightarrow> u32 \<Rightarrow> bool" where
  "valid_table m h \<longleftrightarrow> byte_sum m h (unat (le32 m (h + 4))) = 0"

definition listed_match :: "memory \<Rightarrow> u8 list \<Rightarrow> u64 \<Rightarrow> bool" where
  "listed_match m sig ta \<longleftrightarrow> ta \<le> 0xFFFFFFFF \<and> valid_table m (ucast ta) \<and> sig_at m sig (ucast ta)"

text \<open>Everything the search reads can be read: the cached tables, the root table, and each listed table to its full length.\<close>

definition tables_readable :: "memory \<Rightarrow> (u32 \<Rightarrow> u64) \<Rightarrow> 'a acpi_state_scheme \<Rightarrow> bool" where
  "tables_readable m ent s \<longleftrightarrow>
     (\<forall>i < num_entries s. tables s \<noteq> 0 \<and> slot s (tables s + 4 * i) \<noteq> 0 \<longrightarrow> sees s m (slot s (tables s + 4 * i)) 4) \<and>
     (\<forall>i < num_entries s. table_entry (sdt_ptr s + i * entry_size s) s = Some (ent i)) \<and>
     (\<forall>i < num_entries s. ent i \<le> 0xFFFFFFFF \<longrightarrow> sees s m (ucast (ent i)) (max 8 (unat (le32 m (ucast (ent i) + 4)))))"

text \<open>Property C18. \<^verbatim>\<open>acpi_get_table\<close> returns the right table: the first cached table of that signature, and if there is none the
  first entry of the root table below 4 GiB whose table has the signature and sums up to zero over its length, and otherwise
  the null pointer.
\<close>

theorem acpi_get_table_first:
  assumes "rsdp s \<noteq> 0" and "length sig = 4" and "tables_readable m ent s"
  shows "acpi_get_table sig s = Some (
    let entries = map of_nat [0..<unat (num_entries s)]
    in case find (cached_match m sig s) entries of Some i \<Rightarrow> slot s (tables s + 4 * i)
       | None \<Rightarrow> (case find (\<lambda>i. listed_match m sig (ent i)) entries of Some i \<Rightarrow> ucast (ent i) | None \<Rightarrow> 0))"
proof -
  have sig: "sig_matches h sig s = Some (sig_at m sig h)" if "sees s m h 4" for h
    using sig_matches_sees [of s m h sig] that assms(2) by (simp add: sig_at_def)
  have cached: "cached_table sig s = Some (map_option (\<lambda>i. slot s (tables s + 4 * i))
      (find (cached_match m sig s) (map of_nat [unat (0 :: u32)..<unat (num_entries s)])), ())"
    unfolding cached_table_def
    by (rule for_ret_find) (use assms(3) sig in \<open>auto simp: tables_readable_def cached_match_def Let_def\<close>)
  have listed: "listed_table sig s = Some (map_option (\<lambda>i. ucast (ent i))
      (find (\<lambda>i. listed_match m sig (ent i)) (map of_nat [unat (0 :: u32)..<unat (num_entries s)])), ())"
    unfolding listed_table_def
  proof (rule for_ret_find)
    fix i assume i: "0 \<le> i" "i < num_entries s"
    define h :: u32 where "h = ucast (ent i)"
    define len where "len = le32 m (h + 4)"
    have ent: "table_entry (sdt_ptr s + i * entry_size s) s = Some (ent i)" using assms(3) i by (simp add: tables_readable_def)
    show "Option.bind (table_entry (sdt_ptr s + i * entry_size s) s) (\<lambda>table_addr.
       if table_addr > 0xFFFFFFFF then Some (None, ())
       else let hdr = ucast table_addr
            in Option.bind (read32 (hdr + 4) s) (\<lambda>len.
               Option.bind (acpi_checksum hdr len s) (\<lambda>c.
               if c = 0 then map_option (\<lambda>m. (if m then Some hdr else None, ())) (sig_matches hdr sig s)
               else Some (None, ())))) =
       Some (if listed_match m sig (ent i) then Some (ucast (ent i)) else None, ())"
    proof (cases "ent i \<le> 0xFFFFFFFF")
      case True
      then have see: "sees s m h (max 8 (unat len))" using assms(3) i by (simp add: tables_readable_def h_def len_def)
      have "read32 (h + 4) s = Some len" using read32_sees [OF sees_shift [OF see, of 4 4]] by (simp add: len_def)
      moreover have "acpi_checksum h len s = Some (byte_sum m h (unat len))" by (rule acpi_checksum_sees [OF sees_mono [OF see]]) simp
      moreover have "sig_matches h sig s = Some (sig_at m sig h)" by (rule sig [OF sees_mono [OF see]]) simp
      ultimately show ?thesis using True ent
        by (auto simp: listed_match_def valid_table_def h_def [symmetric] len_def [symmetric] Let_def)
    next
      case False
      then show ?thesis using ent by (auto simp: listed_match_def)
    qed
  qed
  show ?thesis
    using assms(1) by (simp add: acpi_get_table_def cached listed Let_def split: option.splits)
qed

text \<open>A root table with one entry of 32 bits, which leads to a valid fixed table.\<close>

definition acpi_example_mem :: memory where
  "acpi_example_mem = (\<lambda>_. 0)(0x2025 := 0x30, 0x3000 := 0x46, 0x3001 := 0x41, 0x3002 := 0x43, 0x3003 := 0x50, 0x3004 := 9, 0x3008 := 0xDD)"

definition acpi_example :: acpi_state where
  "acpi_example = heap.extend (empty_heap\<lparr>paging := False, mem := le32 acpi_example_mem\<rparr>)
     (acpi_state.fields 0x1000 0x2024 4 1 0 (\<lambda>_. 0) [])"

lemmas acpi_example_simps = acpi_example_def heap.extend_def acpi_state.fields_def

lemma acpi_example_sees: "sees acpi_example acpi_example_mem a n"
  by (rule unpaged_sees) (simp_all add: acpi_example_simps)

lemma acpi_example_readable: "tables_readable acpi_example_mem (\<lambda>_. 0x3000) acpi_example"
proof -
  have "le32 acpi_example_mem 0x2024 = 0x3000" by (simp add: le32_def le16_def acpi_example_mem_def)
  then have "table_entry 0x2024 acpi_example = Some 0x3000"
    using read32_sees [OF acpi_example_sees, of "0x2024"] by (simp add: table_entry_def acpi_example_simps)
  moreover have "i < num_entries acpi_example \<Longrightarrow> i = 0" for i
    by (simp add: acpi_example_simps word_less_nat_alt word_unat_eq_iff)
  ultimately show ?thesis
    by (auto simp: tables_readable_def acpi_example_sees) (simp_all add: acpi_example_simps)
qed

theorem acpi_get_table_first_witness: "acpi_get_table [0x46, 0x41, 0x43, 0x50] acpi_example = Some 0x3000"
proof -
  have "le32 acpi_example_mem 0x3004 = 9" by (simp add: le32_def le16_def acpi_example_mem_def)
  then have "valid_table acpi_example_mem 0x3000" by (simp add: valid_table_def byte_sum_def upt_rec) (simp add: acpi_example_mem_def)
  moreover have "\<forall>i \<in> set [0..<4]. acpi_example_mem (0x3000 + of_nat i) = [0x46, 0x41, 0x43, 0x50] ! i"
    by (simp add: acpi_example_mem_def upt_rec)
  then have "\<forall>i < 4. acpi_example_mem (0x3000 + of_nat i) = [0x46, 0x41, 0x43, 0x50] ! i" by simp
  ultimately have "listed_match acpi_example_mem [0x46, 0x41, 0x43, 0x50] 0x3000"
    by (simp add: listed_match_def sig_at_def)
  moreover have "\<not> cached_match acpi_example_mem sig acpi_example i" for sig i by (simp add: cached_match_def acpi_example_simps)
  moreover have "num_entries acpi_example = 1" "rsdp acpi_example \<noteq> 0" by (simp_all add: acpi_example_simps)
  ultimately show ?thesis using acpi_get_table_first [OF _ _ acpi_example_readable, of "[0x46, 0x41, 0x43, 0x50]"] by simp
qed

text \<open>
  The cache misses valid tables: its loop also wants the 36 bytes of the header alone to sum up to zero, which holds of the
  whole table only, so a table with a correct checksum is skipped unless its body happens to sum up to zero.
\<close>

lemma cache_step_header:
  assumes "cached < 32" and "table_entry (sdt_ptr s + i * entry_size s) s = Some t" and "t \<le> 0xFFFFFFFF"
    and "vmm_map_if_not_mapped (ucast t) PAGE_SIZE s = Some (KERNEL_OK, s')" and "sees s' m (ucast t) 36" and "byte_sum m (ucast t) 36 \<noteq> 0"
  shows "cache_step i (cached, s) = Some (None, cached, s')"
proof -
  have "acpi_checksum (ucast t) 36 s' = Some (byte_sum m (ucast t) 36)" using acpi_checksum_sees [of s' m "ucast t" 36] assms(5) by simp
  moreover have "\<not> t > 0xFFFFFFFF" using assms(3) by (rule leD)
  ultimately show ?thesis using assms(1,2,4,6) by (simp add: cache_step_def check_table_def Let_def)
qed

section \<open>The entries of the interrupt controller table\<close>

text \<open>An entry is its type and the bytes after its length; what the walk reports of it.\<close>

definition madt_encode :: "u8 \<times> u8 list \<Rightarrow> u8 list" where
  "madt_encode = (\<lambda>(ty, p). ty # of_nat (length p + 2) # p)"

definition madt_log :: "u8 \<times> u8 list \<Rightarrow> madt_entry list" where
  "madt_log = (\<lambda>(ty, p).
     if ty = 0 then if length p \<ge> 6 then [Lapic (p ! 0) (p ! 1) (le32 (\<lambda>a. p ! unat a) 2)] else []
     else if ty = 1 then if length p \<ge> 10 then [Ioapic (p ! 0) (le32 (\<lambda>a. p ! unat a) 2) (le32 (\<lambda>a. p ! unat a) 6)] else []
     else [Unknown_Entry ty (of_nat (length p + 2))])"

text \<open>The bytes \<open>bs\<close> stand at \<open>a\<close> and can be read.\<close>

definition shows_bytes :: "'a vmm_scheme \<Rightarrow> u32 \<Rightarrow> u8 list \<Rightarrow> bool" where
  "shows_bytes s a bs \<longleftrightarrow> (\<forall>i < length bs. vbyte (a + of_nat i) s = Some (bs ! i))"

lemma shows_bytes_append: "shows_bytes s a (xs @ ys) \<longleftrightarrow> shows_bytes s a xs \<and> shows_bytes s (a + of_nat (length xs)) ys"
proof -
  have "shows_bytes s (a + of_nat (length xs)) ys" if "shows_bytes s a (xs @ ys)"
    unfolding shows_bytes_def
  proof (intro allI impI)
    fix i assume "i < length ys"
    then show "vbyte (a + of_nat (length xs) + of_nat i) s = Some (ys ! i)"
      using that [unfolded shows_bytes_def, rule_format, of "length xs + i"] by (simp add: nth_append add.assoc)
  qed
  moreover have "shows_bytes s a xs" if "shows_bytes s a (xs @ ys)"
    using that by (auto simp: shows_bytes_def nth_append)
  moreover have "shows_bytes s a (xs @ ys)" if "shows_bytes s a xs" "shows_bytes s (a + of_nat (length xs)) ys"
    unfolding shows_bytes_def
  proof (intro allI impI)
    fix i assume i: "i < length (xs @ ys)"
    show "vbyte (a + of_nat i) s = Some ((xs @ ys) ! i)"
    proof (cases "i < length xs")
      case False
      then have "a + of_nat (length xs) + of_nat (i - length xs) = a + of_nat i" by (simp add: of_nat_diff)
      then show ?thesis using False that(2) [unfolded shows_bytes_def, rule_format, of "i - length xs"] i by (simp add: nth_append)
    qed (use that(1) in \<open>simp add: shows_bytes_def nth_append\<close>)
  qed
  ultimately show ?thesis by blast
qed

lemma shows_bytes_Cons: "shows_bytes s a (x # xs) \<longleftrightarrow> vbyte a s = Some x \<and> shows_bytes s (a + 1) xs"
  using shows_bytes_append [of s a "[x]" xs] by (simp add: shows_bytes_def)

lemma read32_shows:
  assumes "shows_bytes s a p" "k + 4 \<le> length p" "k < 256"
  shows "read32 (a + of_nat k) s = Some (le32 (\<lambda>x. p ! unat x) (of_nat k))"
proof -
  have b: "vbyte (a + of_nat k + of_nat i) s = Some (p ! (k + i))" if "i < 4" for i
    using assms(1) [unfolded shows_bytes_def, rule_format, of "k + i"] assms(2) that by (simp add: add.assoc)
  have u: "unat (of_nat k + of_nat i :: u32) = k + i" if "i < 4" for i
    using unat_of_nat_small [where 'a = 32, of "k + i"] that assms(3) by simp
  show ?thesis using b [of 0] b [of 1] b [of 2] b [of 3] u [of 0] u [of 1] u [of 2] u [of 3]
    by (simp add: read32_def read16_def le32_def le16_def add.assoc)
qed

lemma madt_entry_at_log:
  assumes "shows_bytes s a (madt_encode (ty, p))" "length p < 254"
  shows "madt_entry_at a ty (of_nat (length p + 2)) s = Some (madt_log (ty, p))"
proof -
  have p: "shows_bytes s (a + 2) p" using assms(1) by (simp add: madt_encode_def shows_bytes_Cons add.assoc)
  have len: "unat (of_nat (length p + 2) :: u8) = length p + 2" by (rule unat_of_nat_small) (use assms(2) in simp)
  have b: "vbyte (a + 2 + of_nat i) s = Some (p ! i)" if "i < length p" for i using p that by (simp add: shows_bytes_def)
  have w: "read32 (a + 2 + of_nat k) s = Some (le32 (\<lambda>x. p ! unat x) (of_nat k))" if "k + 4 \<le> length p" for k
    using read32_shows [OF p that] that assms(2) by simp
  have "of_nat (length p + 2) \<ge> (8 :: u8) \<longleftrightarrow> length p \<ge> 6" "of_nat (length p + 2) \<ge> (12 :: u8) \<longleftrightarrow> length p \<ge> 10"
    unfolding word_le_nat_alt len by auto
  moreover have "length p \<ge> 6 \<Longrightarrow> vbyte (a + 2) s = Some (p ! 0)" using b [of 0] by fastforce
  ultimately show ?thesis
    using b [of 1] w [of 2] w [of 6] by (auto simp: madt_entry_at_def madt_log_def add.assoc)
qed

lemma madt_walk_entries:
  assumes "shows_bytes s a (concat (map madt_encode es))" "\<forall>(ty, p) \<in> set es. length p < 254"
    and "unat a + length (concat (map madt_encode es)) + 2 < 2 ^ 32"
  shows "madt_walk a (a + of_nat (length (concat (map madt_encode es)))) xs n s = Some (xs @ concat (map madt_log es), n + of_nat (length es), False)"
  using assms
proof (induction es arbitrary: a xs n)
  case Nil
  have "unat (a + 2) = unat a + 2" using Nil(3) by (subst unat_add_small) simp_all
  then have "\<not> a + 2 \<le> a" by (simp only: word_le_nat_alt)
  then show ?case by (subst madt_walk.simps) simp
next
  case (Cons x es)
  obtain ty p where x: "x = (ty, p)" by (cases x)
  define r where "r = length (concat (map madt_encode es))"
  define l where "l = length p + 2"
  have lp: "length p < 254" using Cons.prems(2) x by simp
  have enc: "length (madt_encode x) = l" "madt_encode x = ty # of_nat l # p" by (simp_all add: madt_encode_def x l_def)
  have len: "unat (of_nat l :: u8) = l" "unat (ucast (of_nat l :: u8) :: u32) = l" "ucast (of_nat l :: u8) = (of_nat l :: u32)"
  proof -
    have "l < 256" using lp by (simp add: l_def)
    then show l: "unat (of_nat l :: u8) = l" by (simp add: unat_of_nat_small)
    then show u: "unat (ucast (of_nat l :: u8) :: u32) = l" using \<open>l < 256\<close> by (simp add: unsigned_ucast_eq take_bit_nat_eq_self)
    then show "ucast (of_nat l :: u8) = (of_nat l :: u32)" using \<open>l < 256\<close> by (simp add: word_unat_eq_iff unat_of_nat_small)
  qed
  have bound: "unat a + l + r + 2 < 2 ^ 32" using Cons.prems(3) enc by (simp add: r_def)
  have lr: "unat (of_nat (l + r) :: u32) = l + r" by (rule unat_of_nat_small) (use bound in simp)
  have e: "unat (a + of_nat (l + r)) = unat a + l + r" using bound by (subst unat_add_small) (simp_all only: lr, simp_all)
  have al: "unat (a + of_nat l) = unat a + l" using bound by (subst unat_add_small) (simp_all add: unat_of_nat_small)
  have a2: "unat (a + 2) = unat a + 2" using bound by (subst unat_add_small) simp_all
  have shown: "shows_bytes s a (madt_encode x)" "shows_bytes s (a + of_nat l) (concat (map madt_encode es))"
    using Cons.prems(1) by (simp_all add: shows_bytes_append enc(1))
  have "a + 2 \<le> a + of_nat (l + r)" by (simp only: word_le_nat_alt e a2) (simp add: l_def)
  moreover have "vbyte a s = Some ty" "vbyte (a + 1) s = Some (of_nat l)" using shown(1) by (simp_all add: enc(2) shows_bytes_Cons)
  moreover have "\<not> (of_nat l :: u8) < 2" by (simp only: word_less_nat_alt len) (simp add: l_def)
  moreover have "\<not> a + of_nat l > a + of_nat (l + r)" by (simp only: word_less_nat_alt al e)
  moreover have "madt_entry_at a ty (of_nat l) s = Some (madt_log x)"
    unfolding l_def x by (rule madt_entry_at_log [OF _ lp]) (use shown(1) x in simp)
  moreover have "madt_walk (a + of_nat l) (a + of_nat (l + r)) (xs @ madt_log x) (n + 1) s =
      Some ((xs @ madt_log x) @ concat (map madt_log es), n + 1 + of_nat (length es), False)"
    using Cons.IH [OF shown(2)] Cons.prems(2) bound by (simp add: al r_def add.assoc)
  ultimately show ?case
    by (subst madt_walk.simps) (simp add: enc(1) r_def [symmetric] len(3) add.assoc)
qed

text \<open>Property C19. \<^verbatim>\<open>acpi_parse_madt\<close> reads back what the table encodes: a table that consists of its header, the eight bytes of
  fixed fields and any list of entries is reported entry by entry, and the count is the number of entries.
\<close>

theorem acpi_parse_madt_entries:
  assumes "madt \<noteq> 0" and "\<forall>(ty, p) \<in> set es. length p < 254" and "n = length (concat (map madt_encode es))"
    and "sees s m madt 44" and "le32 m (madt + 4) = 44 + of_nat n" and "unat madt + 46 + n < 2 ^ 32"
    and "shows_bytes s (madt + 44) (concat (map madt_encode es))"
  shows "acpi_parse_madt madt s = Some (concat (map madt_log es), of_nat (length es), False)"
proof -
  have "read32 (madt + 4) s = Some (44 + of_nat n)" using read32_sees [OF sees_shift [OF assms(4), of 4 4]] assms(5) by simp
  moreover have "read32 (madt + 36) s \<noteq> None" "read32 (madt + 40) s \<noteq> None"
    using read32_sees [OF sees_shift [OF assms(4), of 36 4]] read32_sees [OF sees_shift [OF assms(4), of 40 4]] by simp_all
  moreover have "unat (madt + 44) = unat madt + 44" using assms(6) by (subst unat_add_small) simp_all
  then have "madt_walk (madt + 44) (madt + 44 + of_nat n) [] 0 s = Some (concat (map madt_log es), of_nat (length es), False)"
    unfolding assms(3) using assms(6) by (subst madt_walk_entries [OF assms(7,2)]) (simp_all add: assms(3))
  ultimately show ?thesis using assms(1) by (auto simp: acpi_parse_madt_def add.assoc)
qed

text \<open>Whatever the bytes are, an entry that fits is read without a fault, and adds at most one line.\<close>

lemma madt_entry_at_total:
  assumes "sees s m a (unat len)"
  shows "\<exists>x. madt_entry_at a ty len s = Some x \<and> length x \<le> 1"
proof -
  have b: "vbyte (a + of_nat i) s = Some (m (a + of_nat i))" if "i < unat len" for i using sees_byte [OF assms that] .
  have w: "read32 (a + of_nat i) s = Some (le32 m (a + of_nat i))" if "i + 4 \<le> unat len" for i
    using read32_sees [OF sees_shift [OF assms that]] .
  have "len \<ge> 8 \<Longrightarrow> unat len \<ge> 8" "len \<ge> 12 \<Longrightarrow> unat len \<ge> 12" by (simp_all add: word_le_nat_alt)
  then show ?thesis using b [of 2] b [of 3] w [of 4] w [of 8] by (auto simp: madt_entry_at_def)
qed

lemma madt_walk_total:
  assumes "sees s m a n" "unat a + n + 257 < 2 ^ 32"
  shows "\<exists>ys c bad. madt_walk a (a + of_nat n) xs k s = Some (xs @ ys, k + of_nat c, bad) \<and> 2 * c \<le> n \<and> length ys \<le> c"
  using assms
proof (induction n arbitrary: a xs k rule: less_induct)
  case (less n)
  have e: "unat (a + of_nat n) = unat a + n" using less.prems(2) by (subst unat_add_small) (simp_all add: unat_of_nat_small)
  have a2: "unat (a + 2) = unat a + 2" using less.prems(2) by (subst unat_add_small) simp_all
  show ?case
  proof (cases "n < 2")
    case True
    then have "\<not> a + 2 \<le> a + of_nat n" by (simp only: word_le_nat_alt e a2)
    then have "madt_walk a (a + of_nat n) xs k s = Some (xs @ [], k + of_nat 0, False)" by (subst madt_walk.simps) simp
    then show ?thesis by (intro exI [of _ "[]"] exI [of _ 0] exI [of _ False]) simp
  next
    case False
    then have go: "a + 2 \<le> a + of_nat n" by (simp only: word_le_nat_alt e a2)
    define l where "l = m (a + 1)"
    have bytes: "vbyte a s = Some (m a)" "vbyte (a + 1) s = Some l"
      using sees_byte [OF less.prems(1), of 0] sees_byte [OF less.prems(1), of 1] False by (simp_all add: l_def)
    have l: "unat (ucast l :: u32) = unat l" "unat l < 256"
      using unat_lt(1) [of l] by (simp_all add: unsigned_ucast_eq take_bit_nat_eq_self word_unat_eq_iff unat_of_nat_small del: unat_lt)
    have "unat a + unat l < 4294967296" using less.prems(2) l(2) by (simp del: unat_lt)
    then have al: "unat (a + ucast l) = unat a + unat l" by (subst unat_add_small) (simp_all add: l(1) del: unat_lt)
    show ?thesis
    proof (cases "l < 2 \<or> a + ucast l > a + of_nat n")
      case True
      then have "madt_walk a (a + of_nat n) xs k s = Some (xs @ [], k + of_nat 0, True)" using go bytes by (subst madt_walk.simps) simp
      then show ?thesis by (intro exI [of _ "[]"] exI [of _ 0] exI [of _ True]) simp
    next
      case fits: False
      have u: "2 \<le> unat l" "unat l \<le> n" using fits by (simp_all only: word_less_nat_alt e al de_Morgan_disj) simp_all
      obtain x where x: "madt_entry_at a (m a) l s = Some x" "length x \<le> 1"
        using madt_entry_at_total [OF sees_mono [OF less.prems(1) u(2)]] by blast
      have i: "n - unat l < n" "sees s m (a + ucast l) (n - unat l)" "unat (a + ucast l) + (n - unat l) + 257 < 2 ^ 32"
        using u sees_shift [OF less.prems(1), of "unat l" "n - unat l"] less.prems(2) al by simp_all
      obtain ys c bad where rest: "madt_walk (a + ucast l) (a + ucast l + of_nat (n - unat l)) (xs @ x) (k + 1) s =
          Some ((xs @ x) @ ys, k + 1 + of_nat c, bad)" "2 * c \<le> n - unat l" "length ys \<le> c"
        using less.IH [OF i, of "xs @ x" "k + 1"] by blast
      have "madt_walk a (a + of_nat n) xs k s = Some (xs @ (x @ ys), k + of_nat (Suc c), bad)"
        using go bytes fits x(1) rest(1) u(2) by (subst madt_walk.simps) (simp add: of_nat_diff add.assoc)
      then show ?thesis using rest(2,3) x(2) u by (intro exI [of _ "x @ ys"] exI [of _ "Suc c"] exI [of _ bad]) simp
    qed
  qed
qed

text \<open>Property C20. \<^verbatim>\<open>acpi_parse_madt\<close> always returns: whatever bytes a table of the given length holds, the walk ends without
  reading outside the table, after at most one entry for every two bytes.
\<close>

theorem acpi_parse_madt_returns:
  assumes "sees s m madt (max 44 (unat len))" and "len = le32 m (madt + 4)" and "unat madt + unat len + 301 < 2 ^ 32"
  shows "\<exists>es n bad. acpi_parse_madt madt s = Some (es, n, bad) \<and> unat n \<le> (unat len - 44) div 2 \<and> length es \<le> unat n"
proof (cases "madt = 0")
  case False
  note see = assms(1)
  have fields: "read32 (madt + 4) s = Some len" "read32 (madt + 36) s \<noteq> None" "read32 (madt + 40) s \<noteq> None"
    using read32_sees [OF sees_shift [OF see, of 4 4]] read32_sees [OF sees_shift [OF see, of 36 4]]
      read32_sees [OF sees_shift [OF see, of 40 4]] assms(2) by simp_all
  have m44: "unat (madt + 44) = unat madt + 44" using assms(3) by (subst unat_add_small) simp_all
  obtain ys c bad where walk: "madt_walk (madt + 44) (madt + len) [] 0 s = Some (ys, of_nat c, bad)" "2 * c \<le> unat len - 44" "length ys \<le> c"
  proof (cases "44 \<le> unat len")
    case True
    have "madt + 44 + of_nat (unat len - 44) = madt + len" using True by (simp add: of_nat_diff)
    then show ?thesis using that madt_walk_total [OF sees_shift [OF see, of 44 "unat len - 44"], of "[]" 0] m44 assms(3) True by auto
  next
    case no: False
    have "unat (madt + len) = unat madt + unat len" "unat (madt + 46) = unat madt + 46"
      using assms(3) by (subst unat_add_small; simp)+
    then have "\<not> madt + 44 + 2 \<le> madt + len" using no by (simp add: word_le_nat_alt add.assoc)
    then have "madt_walk (madt + 44) (madt + len) [] 0 s = Some ([], 0, False)" by (subst madt_walk.simps) simp
    then show ?thesis using that [of "[]" 0 False] by simp
  qed
  have "c < 4294967296" using walk(2) unat_lt(3) [of len] by linarith
  then have "unat (of_nat c :: u32) = c" by (simp add: unat_of_nat_small)
  then show ?thesis using walk fields False by (auto simp: acpi_parse_madt_def add.assoc)
qed (auto simp: acpi_parse_madt_def)

definition madt_example :: "(u8 \<times> u8 list) list" where
  "madt_example = [(0, [1, 2, 3, 0, 0, 0]), (1, [5, 0, 0, 0, 0xC0, 0xFE, 0, 0, 0, 0])]"

definition madt_example_mem :: memory where
  "madt_example_mem a = (if a = 0x1004 then 64 else if a - 0x102C < 20 then concat (map madt_encode madt_example) ! unat (a - 0x102C) else 0)"

lemma madt_example_shown: "shows_bytes (byte_machine madt_example_mem) 0x102C (concat (map madt_encode madt_example))"
proof -
  have "length (concat (map madt_encode madt_example)) = 20" by (simp add: madt_example_def madt_encode_def)
  moreover have "vbyte (0x102C + of_nat i) (byte_machine madt_example_mem) = Some (concat (map madt_encode madt_example) ! i)" if "i < 20" for i
  proof -
    have u: "unat (of_nat i :: u32) = i" using that by (simp add: unat_of_nat_small)
    then have "of_nat i < (20 :: u32)" using that by (simp add: word_less_nat_alt)
    moreover have "0x102C + of_nat i \<noteq> (0x1004 :: u32)"
    proof
      assume eq: "0x102C + of_nat i = (0x1004 :: u32)"
      have "unat (0x102C + of_nat i :: u32) = 0x1004" unfolding eq by simp
      moreover have "unat (0x102C + of_nat i :: u32) = 0x102C + i" using that u by (subst unat_add_small) simp_all
      ultimately show False by simp
    qed
    ultimately have "madt_example_mem (0x102C + of_nat i) = concat (map madt_encode madt_example) ! i"
      using u by (simp add: madt_example_mem_def)
    then show ?thesis using sees_byte [OF byte_machine_sees, of i 20 "0x102C" madt_example_mem] that by simp
  qed
  ultimately show ?thesis by (simp add: shows_bytes_def)
qed

lemma madt_example_length: "le32 madt_example_mem 0x1004 = 64"
  by (simp add: le32_def le16_def madt_example_mem_def word_less_nat_alt)

theorem acpi_parse_madt_entries_witness:
  "acpi_parse_madt 0x1000 (byte_machine madt_example_mem) = Some ([Lapic 1 2 3, Ioapic 5 0xFEC00000 0], 2, False)"
proof -
  have log: "concat (map madt_log madt_example) = [Lapic 1 2 3, Ioapic 5 0xFEC00000 0]"
    by (simp add: madt_example_def madt_log_def le32_def le16_def nth_Cons')
  have enc: "20 = length (concat (map madt_encode madt_example))" and count: "length madt_example = 2"
    by (simp_all add: madt_example_def madt_encode_def)
  have small: "\<forall>(ty, p) \<in> set madt_example. length p < 254" by (simp add: madt_example_def)
  have at: "0x1000 + 4 = (0x1004 :: u32)" "0x1000 + 44 = (0x102C :: u32)" by simp_all
  have len: "le32 madt_example_mem (0x1000 + 4) = 44 + of_nat 20" unfolding at madt_example_length by simp
  show ?thesis
    using acpi_parse_madt_entries [OF _ small enc byte_machine_sees len, unfolded log count at, OF _ _ madt_example_shown] by simp
qed

theorem acpi_parse_madt_returns_witness:
  "\<exists>es n bad. acpi_parse_madt 0x1000 (byte_machine madt_example_mem) = Some (es, n, bad) \<and> unat n \<le> 10"
  using acpi_parse_madt_returns [OF byte_machine_sees, of 64 madt_example_mem "0x1000"] madt_example_length by auto

section \<open>Switching to ACPI mode\<close>

lemma pm1_wait_log:
  assumes "case r of PortReg p \<Rightarrow> True | MmioReg a \<Rightarrow> mmu s a \<noteq> None"
  shows "\<exists>vs up. pm1_wait hw r t s = Some (up, s\<lparr>acpi_io := acpi_io s @ map (ReadReg r) vs\<rparr>) \<and> length vs \<le> unat t \<and>
    (\<forall>v \<in> set (butlast vs). v AND 1 = 0) \<and>
    (if up then vs \<noteq> [] \<and> last vs AND 1 \<noteq> 0 else length vs = unat t \<and> (\<forall>v \<in> set vs. v AND 1 = 0))"
  using assms
proof (induction "unat t" arbitrary: t s)
  case 0
  then have "t = 0" by (simp add: unat_eq_0)
  then have "pm1_wait hw r t s = Some (False, s\<lparr>acpi_io := acpi_io s @ map (ReadReg r) []\<rparr>)" by (simp add: pm1_wait.simps)
  with \<open>t = 0\<close> show ?case by fastforce
next
  case (Suc n)
  have t: "t \<noteq> 0" "n = unat (t - 1)"
  proof -
    show "t \<noteq> 0" using Suc.hyps(2) by auto
    then show "n = unat (t - 1)" using Suc.hyps(2) by (simp add: unat_minus_one)
  qed
  define v where "v = hw (acpi_io s) r"
  define s1 where "s1 = s\<lparr>acpi_io := acpi_io s @ [ReadReg r v]\<rparr>"
  have read: "pm1_read hw r s = Some (v, s1)" using Suc.prems by (simp add: pm1_read_def v_def s1_def Let_def)
  show ?case
  proof (cases "v AND 1 = 0")
    case False
    then have "pm1_wait hw r t s = Some (True, s\<lparr>acpi_io := acpi_io s @ map (ReadReg r) [v]\<rparr>)"
      using t(1) read by (subst pm1_wait.simps) (simp add: s1_def)
    then show ?thesis using False t by (intro exI [of _ "[v]"] exI [of _ True]) (simp add: Suc.hyps(2) [symmetric])
  next
    case True
    have mmu: "mmu s1 = mmu s" by (simp add: fun_eq_iff mmu_def s1_def)
    have "case r of PortReg p \<Rightarrow> True | MmioReg a \<Rightarrow> mmu s1 a \<noteq> None"
      using Suc.prems unfolding mmu .
    from Suc.hyps(1) [OF t(2) this] obtain vs up where rest: "pm1_wait hw r (t - 1) s1 = Some (up, s1\<lparr>acpi_io := acpi_io s1 @ map (ReadReg r) vs\<rparr>)"
      "length vs \<le> n" "\<forall>v \<in> set (butlast vs). v AND 1 = 0"
      "if up then vs \<noteq> [] \<and> last vs AND 1 \<noteq> 0 else length vs = n \<and> (\<forall>v \<in> set vs. v AND 1 = 0)" unfolding t(2) by blast
    have "pm1_wait hw r t s = Some (up, s\<lparr>acpi_io := acpi_io s @ map (ReadReg r) (v # vs)\<rparr>)"
      using t(1) read True rest(1) by (subst pm1_wait.simps) (simp add: s1_def)
    then show ?thesis using rest(2-4) True
      by (intro exI [of _ "v # vs"] exI [of _ up]) (auto simp: Suc.hyps(2) [symmetric])
  qed
qed

lemma sees_io [simp]: "sees (s\<lparr>acpi_io := l\<rparr>) m a n \<longleftrightarrow> sees s m a n"
  by (simp add: sees_def vbyte_def mmu_def)

lemma acpi_enable_port:
  assumes "sees s m fadt 53" and "v = hw (acpi_io s) (PortReg p)" and "smi = le32 m (fadt + 48)"
  shows "\<exists>out vs. acpi_enable hw fadt (PortReg p) s = Some (out, s\<lparr>acpi_io := acpi_io s @ ReadReg (PortReg p) v #
      (if v AND 1 \<noteq> 0 \<or> smi = 0 then [] else WritePort (ucast smi) (m (fadt + 52)) # map (ReadReg (PortReg p)) vs)\<rparr>) \<and>
    length vs \<le> 1000000 \<and>
    out = (if v AND 1 \<noteq> 0 then Sci_Already else if smi = 0 then No_Smi_Cmd
           else if \<exists>w \<in> set vs. w AND 1 \<noteq> 0 then Sci_Enabled else Sci_Timeout) \<and>
    (out = Sci_Timeout \<longrightarrow> length vs = 1000000)"
proof -
  define s1 where "s1 = s\<lparr>acpi_io := acpi_io s @ [ReadReg (PortReg p) v]\<rparr>"
  have read: "pm1_read hw (PortReg p) s = Some (v, s1)" by (simp add: pm1_read_def Let_def s1_def assms(2))
  have see: "sees s1 m fadt 53" using assms(1) by (simp add: s1_def)
  have smi: "read32 (fadt + 48) s1 = Some smi" using read32_sees [OF sees_shift [OF see, of 48 4]] by (simp add: assms(3))
  have en: "vbyte (fadt + 52) s1 = Some (m (fadt + 52))" using sees_byte [OF see, of 52] by simp
  show ?thesis
  proof (cases "v AND 1 \<noteq> 0 \<or> smi = 0")
    case True
    then have "acpi_enable hw fadt (PortReg p) s = Some (if v AND 1 \<noteq> 0 then Sci_Already else No_Smi_Cmd, s1)"
      using read smi by (auto simp: acpi_enable_def)
    then show ?thesis using True by (intro exI [of _ "if v AND 1 \<noteq> 0 then Sci_Already else No_Smi_Cmd"] exI [of _ "[]"]) (simp add: s1_def)
  next
    case False
    define s2 where "s2 = s1\<lparr>acpi_io := acpi_io s1 @ [WritePort (ucast smi) (m (fadt + 52))]\<rparr>"
    obtain vs up where wait: "pm1_wait hw (PortReg p) 1000000 s2 = Some (up, s2\<lparr>acpi_io := acpi_io s2 @ map (ReadReg (PortReg p)) vs\<rparr>)"
      "length vs \<le> 1000000"
      "if up then vs \<noteq> [] \<and> last vs AND 1 \<noteq> 0 else length vs = 1000000 \<and> (\<forall>v \<in> set vs. v AND 1 = 0)"
      using pm1_wait_log [where r = "PortReg p" and s = s2 and hw = hw and t = 1000000] by auto
    have up: "up \<longleftrightarrow> (\<exists>w \<in> set vs. w AND 1 \<noteq> 0)" "\<not> up \<longrightarrow> length vs = 1000000"
      using wait(3) last_in_set by (auto split: if_splits)
    have "acpi_enable hw fadt (PortReg p) s = Some (if up then Sci_Enabled else Sci_Timeout, s2\<lparr>acpi_io := acpi_io s2 @ map (ReadReg (PortReg p)) vs\<rparr>)"
      using read smi en False wait(1) by (simp add: acpi_enable_def s2_def)
    then show ?thesis using False wait(2) up
      by (intro exI [of _ "if up then Sci_Enabled else Sci_Timeout"] exI [of _ vs]) (simp add: s1_def s2_def)
  qed
qed


text \<open>A table of revision 1 with the control register at port \<open>0x604\<close> and the command port \<open>0xB2\<close>.\<close>

definition fadt_example :: acpi_state where
  "fadt_example = acpi_example\<lparr>mem := le32 ((\<lambda>_. 0)(0x3008 := 1, 0x3030 := 0xB2, 0x3034 := 0xF1, 0x3040 := 4, 0x3041 := 6))\<rparr>"

text \<open>The register reads as 0 until the command has been written.\<close>

definition pm1_device :: acpi_hardware where
  "pm1_device l r = (if WritePort 0xB2 0xF1 \<in> set l then 1 else 0)"


section \<open>The table cache\<close>

lemma map_keeps_cache:
  assumes "vmm_map_if_not_mapped a n s = Some (st, s')"
  shows "slot s' = slot s \<and> tables s' = tables s"
  using vmm_map_if_not_mapped_rest [OF assms] by (cases s; cases s') (simp add: rest_def)

lemma check_table_keeps:
  assumes "check_table t s = Some (ok, s')"
  shows "slot s' = slot s \<and> tables s' = tables s"
proof -
  obtain st1 s1 where 1: "vmm_map_if_not_mapped t PAGE_SIZE s = Some (st1, s1)"
    using assms by (auto simp: check_table_def bind_eq_Some_conv)
  then have "s' = s1 \<or> (\<exists>len st2. vmm_map_if_not_mapped t len s1 = Some (st2, s'))"
    using assms by (auto simp: check_table_def bind_eq_Some_conv split: if_splits)
  with map_keeps_cache [OF 1] show ?thesis by (auto dest: map_keeps_cache)
qed

text \<open>One step fills the next of the 32 slots or none.\<close>

lemma cache_step_slots:
  assumes "cache_step i (c, s) = Some (r, c', s')"
  shows "tables s' = tables s \<and> ((c' = c \<and> slot s' = slot s) \<or> (c < 32 \<and> c' = c + 1 \<and> (\<exists>t. slot s' = (slot s)(tables s + 4 * c := t))))"
  using assms
  by (auto simp: cache_step_def Let_def bind_eq_Some_conv dest!: check_table_keeps split: if_splits)

text \<open>
  The cache of tables never overflows: whatever the tables say, the loop of \<^verbatim>\<open>acpi_init\<close> stores at most 32
  pointers and only inside the 128 bytes that were allocated for them.
\<close>

theorem cache_tables_bounded:
  assumes "cache_tables s = Some s'"
  shows "tables s' = tables s \<and> (\<forall>p. \<not> p - tables s < 128 \<longrightarrow> slot s' p = slot s p)"
proof -
  define P where "P = (\<lambda>(c :: u32, t :: 'a acpi_state_scheme). c \<le> 32 \<and> tables t = tables s \<and> (\<forall>p. \<not> p - tables s < 128 \<longrightarrow> slot t p = slot s p))"
  obtain r c where run: "for_ret 0 (num_entries s) cache_step (0, s) = Some (r, c, s')" using assms by (auto simp: cache_tables_def)
  have "P (c, s')"
  proof (rule for_ret_invariant [OF _ run])
    show "P (0, s)" by (simp add: P_def)
    fix i st r1 st'
    assume p: "P st" and step: "cache_step i st = Some (r1, st')"
    obtain c1 t c2 t' where st: "st = (c1, t)" "st' = (c2, t')" by (cases st; cases st')
    from cache_step_slots [OF step [unfolded st]] have keep: "tables t' = tables s"
      and cases: "(c2 = c1 \<and> slot t' = slot t) \<or> (c1 < 32 \<and> c2 = c1 + 1 \<and> (\<exists>x. slot t' = (slot t)(tables s + 4 * c1 := x)))"
      using p by (simp_all add: P_def st)
    show "P st'"
    proof (cases "c2 = c1 \<and> slot t' = slot t")
      case True
      then show ?thesis using p keep by (simp add: P_def st)
    next
      case False
      then obtain x where x: "c1 < 32" "c2 = c1 + 1" "slot t' = (slot t)(tables s + 4 * c1 := x)" using cases by auto
      have "unat c1 < 32" using x(1) by (simp add: word_less_nat_alt)
      then have "unat (4 * c1) < 128" "unat (c1 + 1) \<le> 32" by (subst unat_mult_small unat_add_small; simp)+
      then have "4 * c1 < 128" "c2 \<le> 32" by (simp_all add: x(2) word_less_nat_alt word_le_nat_alt)
      then show ?thesis using p keep x(3) by (auto simp: P_def st)
    qed
  qed
  then show ?thesis by (simp add: P_def)
qed

text \<open>A root table of 64-bit entries whose only entry lies above 4 GiB and is skipped.\<close>

definition high_entry_example :: acpi_state where
  "high_entry_example = acpi_example\<lparr>entry_size := 8, mem := le32 ((\<lambda>_. 0)(0x2028 := 1))\<rparr>"

theorem cache_tables_bounded_witness: "cache_tables high_entry_example = Some high_entry_example \<and> tables high_entry_example = 0"
proof -
  define m :: memory where "m = (\<lambda>_. 0)(0x2028 := 1)"
  have see: "sees high_entry_example m x n" for x n
    by (rule unpaged_sees) (simp_all add: high_entry_example_def m_def acpi_example_simps)
  have "read64 0x2024 high_entry_example = Some 0x100000000"
    using read32_sees [OF see, of "0x2024"] read32_sees [OF see, of "0x2028"] by (simp add: read64_def m_def le32_def le16_def)
  moreover have f: "entry_size high_entry_example = 8" "sdt_ptr high_entry_example = 0x2024" "num_entries high_entry_example = 1"
    "tables high_entry_example = 0" by (simp_all add: high_entry_example_def acpi_example_simps)
  ultimately have "cache_step 0 (0, high_entry_example) = Some (None, 0, high_entry_example)"
    by (simp add: cache_step_def table_entry_def)
  then have "cache_tables high_entry_example = Some high_entry_example" by (simp add: cache_tables_def f for_ret.simps)
  from cache_tables_bounded [OF this] show ?thesis using f(4) \<open>cache_tables high_entry_example = Some high_entry_example\<close> by simp
qed

end
