(* ===== verification/Initrd.thy ===== *)
theory Initrd
  imports Vmm_Frames Multiboot Tar
begin

text \<open>
  The initial ramdisk, \<^verbatim>\<open>src/drivers/initrd.c\<close>: the first boot module is mapped at its own address and registered, and
  its files are looked up with the tar routines. The record extends the machine of theory \<open>Vmm\<close> with the two static
  variables of the file. Log output is not modelled.
\<close>

record initrd_state = vmm +
  g_initrd_data :: u32
  g_initrd_size :: u32

text \<open>\<open>md p\<close> is the module record at address \<open>p\<close>; reading it can fault.\<close>

definition initrd_init ::
    "(u32 \<Rightarrow> mb_module) \<Rightarrow> multiboot_info option \<Rightarrow> 'a initrd_state_scheme \<Rightarrow> (kernel_status \<times> 'a initrd_state_scheme) option" where
  "initrd_init md mb_info s =
     (case mb_info of None \<Rightarrow> Some (KERNEL_INVALID_PARAM, s)
      | Some mb \<Rightarrow>
        if mb_flags mb AND MULTIBOOT_INFO_MODS = 0 then Some (KERNEL_OK, s)
        else if mods_count mb = 0 then Some (KERNEL_OK, s)
        else if mods_addr mb = 0 then Some (KERNEL_ERROR, s)
        else if mmu s (mods_addr mb) = None \<or> mmu s (mods_addr mb + 4) = None then None
        else let phys_start = mod_start (md (mods_addr mb)); phys_end = mod_end (md (mods_addr mb));
                 sz = phys_end - phys_start
             in if sz = 0 then Some (KERNEL_ERROR, s)
                else let aligned_start = phys_start AND NOT (PAGE_SIZE - 1);
                         aligned_end = (phys_end + PAGE_SIZE - 1) AND NOT (PAGE_SIZE - 1);
                         map_size = aligned_end - aligned_start
                     in map_option (\<lambda>(st, s). if st \<noteq> KERNEL_OK then (st, s)
                            else (KERNEL_OK, s\<lparr>g_initrd_data := phys_start, g_initrd_size := sz\<rparr>))
                          (vmm_map_if_not_mapped aligned_start map_size s))"

definition initrd_get_data :: "'a initrd_state_scheme \<Rightarrow> u32" where
  "initrd_get_data s = g_initrd_data s"

definition initrd_get_size :: "'a initrd_state_scheme \<Rightarrow> u32" where
  "initrd_get_size s = g_initrd_size s"

text \<open>The archive is read from the byte memory \<open>m\<close>; \<open>f\<close> places the local arrays of the tar routines.\<close>

definition initrd_list ::
    "tar_frame \<Rightarrow> memory \<Rightarrow> 'a initrd_state_scheme \<Rightarrow> (kernel_status \<times> (bool \<times> u32 \<times> u8 list) list) option" where
  "initrd_list f m s =
     (if g_initrd_data s = 0 \<or> g_initrd_size s = 0 then Some (KERNEL_ERROR, [])
      else map_option (Pair KERNEL_OK) (tar_list f (g_initrd_data s) (g_initrd_size s) m))"

definition initrd_find :: "tar_frame \<Rightarrow> u32 \<Rightarrow> memory \<Rightarrow> 'a initrd_state_scheme \<Rightarrow> (u32 \<times> u32) option option" where
  "initrd_find f path m s =
     (if g_initrd_data s = 0 \<or> g_initrd_size s = 0 then Some None
      else tar_find f (g_initrd_data s) (g_initrd_size s) path m)"

section \<open>Registration\<close>

text \<open>A page mapped at its own address maps every byte in it at its own address.\<close>

lemma aspace_identity_page:
  assumes "aspace s (frame a) = Some (frame a)"
  shows "aspace s a = Some a"
proof -
  have idx: "pd_index (frame a) = pd_index a" "pt_index (frame a) = pt_index a" using same_page_iff [of "frame a" a] frame_frame by simp_all
  have "frame a AND 0xFFF = 0" by (rule bit_word_eqI) (auto simp: bit_simps)
  moreover have "frame a OR (a AND 0xFFF) = a" by (rule bit_word_eqI) (auto simp: bit_simps)
  ultimately show ?thesis using assms idx
    by (auto simp: aspace_def translate_def page_walk_def below_window_def Let_def split: if_splits)
qed

lemma initrd_upd_vmm [simp]:
  fixes s :: "'a initrd_state_scheme"
  shows "vmm_wf (s\<lparr>g_initrd_data := d, g_initrd_size := n\<rparr>) = vmm_wf s" "aspace (s\<lparr>g_initrd_data := d, g_initrd_size := n\<rparr>) = aspace s"
  by (simp_all add: vmm_wf_def pmm_inv_def free_frames_def page_used_def bitmap_wf_def capacity_def
      has_table_def table_def pde_def frame_taken_def fun_eq_iff aspace_def translate_def)

lemma map_keeps_initrd:
  assumes "vmm_map_if_not_mapped a n s = Some (st, s')"
  shows "g_initrd_data s' = g_initrd_data s" "g_initrd_size s' = g_initrd_size s"
  using vmm_map_if_not_mapped_rest [OF assms] by (cases s; cases s'; simp add: rest_def)+

text \<open>The pages of a range of bytes, rounded out to page boundaries the way \<^verbatim>\<open>initrd_init\<close> does.\<close>

lemma rounded_range:
  fixes p e :: u32
  assumes "unat p < unat e" and "unat e \<le> 1023 * 2 ^ 22"
  defines "a \<equiv> p AND NOT (PAGE_SIZE - 1)" and "n \<equiv> ((e + PAGE_SIZE - 1) AND NOT (PAGE_SIZE - 1)) - (p AND NOT (PAGE_SIZE - 1))"
  shows "frame a = a" "unat a = unat p div 4096 * 4096" "n \<noteq> 0" "unat a + unat n = (unat e + 4095) div 4096 * 4096"
    "unat a + unat n \<le> 1023 * 2 ^ 22"
proof -
  have a: "unat a = unat p div 4096 * 4096" by (simp add: a_def unat_page_base_minus)
  have "unat (PAGE_ALIGN e) = (unat e + 4095) div 4096 * 4096" using assms(2) by (intro unat_ALIGN_UP_page) simp
  then have E: "unat ((e + PAGE_SIZE - 1) AND NOT (PAGE_SIZE - 1)) = (unat e + 4095) div 4096 * 4096" by (simp add: ALIGN_UP_def)
  have less: "unat p div 4096 * 4096 < (unat e + 4095) div 4096 * 4096" using assms(1) by linarith
  then have "unat n = (unat e + 4095) div 4096 * 4096 - unat p div 4096 * 4096"
    unfolding n_def a_def [symmetric] by (subst unat_sub_small) (use E a in simp_all)
  with less a show "unat a + unat n = (unat e + 4095) div 4096 * 4096" "n \<noteq> 0" by (auto simp: unat_gt_0 [symmetric])
  moreover have "unat e \<le> 4290772992" using assms(2) by simp
  then have "(unat e + 4095) div 4096 * 4096 \<le> 4290772992" using div_le_mono [of "unat e + 4095" "4290772992 + 4095" 4096] by simp
  ultimately show "unat a + unat n \<le> 1023 * 2 ^ 22" by simp
  show "frame a = a" by (simp add: a_def)
qed (simp add: a_def unat_page_base_minus)

text \<open>
  \<^verbatim>\<open>initrd_init\<close> registers the first boot module: for a module of at least one byte that ends below the recursive
  window it returns, and when it reports success every byte of the module is mapped at its own address and the recorded
  address and size are those of the module; when it fails nothing is registered. In both cases the address space stays well
  formed and no page outside the module changes.
\<close>

lemma initrd_init_registers:
  assumes "vmm_wf s" and "mb_flags mb AND MULTIBOOT_INFO_MODS \<noteq> 0" and "mods_count mb \<noteq> 0" and "mods_addr mb \<noteq> 0"
    and "mmu s (mods_addr mb) \<noteq> None" and "mmu s (mods_addr mb + 4) \<noteq> None"
    and "p = mod_start (md (mods_addr mb))" and "e = mod_end (md (mods_addr mb))"
    and "unat p < unat e" and "unat e \<le> 1023 * 2 ^ 22"
  shows "\<exists>st s'. initrd_init md (Some mb) s = Some (st, s') \<and> vmm_wf s' \<and>
    (\<forall>va. unat va div 4096 < unat p div 4096 \<or> (unat e + 4095) div 4096 \<le> unat va div 4096 \<longrightarrow> aspace s' va = aspace s va) \<and>
    (if st = KERNEL_OK
     then initrd_get_data s' = p \<and> initrd_get_size s' = e - p \<and> (\<forall>a. unat p \<le> unat a \<and> unat a < unat e \<longrightarrow> aspace s' a = Some a)
     else initrd_get_data s' = initrd_get_data s \<and> initrd_get_size s' = initrd_get_size s)"
proof -
  define a where "a = p AND NOT (PAGE_SIZE - 1)"
  define n where "n = ((e + PAGE_SIZE - 1) AND NOT (PAGE_SIZE - 1)) - a"
  note r = rounded_range [OF assms(9,10), folded a_def, folded n_def]
  define k where "k = (unat a + unat n + 4095) div 4096 - unat a div 4096"
  have k: "k = (unat e + 4095) div 4096 - unat p div 4096" using r(2,4) by (simp add: k_def)
  obtain st s1 where map: "vmm_map_if_not_mapped a n s = Some (st, s1)" and wf: "vmm_wf s1"
    and out: "\<forall>vb. \<not> in_run a k vb \<longrightarrow> aspace s1 vb = aspace s vb"
    and id: "st = KERNEL_OK \<longrightarrow> (\<forall>i :: u32. unat i < k \<longrightarrow> aspace s1 (a + i * PAGE_SIZE) = Some (a + i * PAGE_SIZE))"
    using vmm_map_if_not_mapped_identity [OF assms(1) r(3,5)] unfolding r(1) k_def by blast
  have inside: "aspace s1 x = Some x" if ok: "st = KERNEL_OK" and x: "unat p \<le> unat x" "unat x < unat e" for x
  proof (rule aspace_identity_page)
    define i :: u32 where "i = of_nat (unat x div 4096 - unat p div 4096)"
    have i: "unat i = unat x div 4096 - unat p div 4096" unfolding i_def
      by (rule unat_of_nat_small) (use unat_lt(3) [of x] in \<open>simp, linarith\<close>)
    have "unat i < k" using x i k by linarith
    moreover have "a + i * PAGE_SIZE = frame x"
    proof -
      have le: "unat p div 4096 \<le> unat x div 4096" using x by (simp add: div_le_mono)
      have "unat (i * PAGE_SIZE) = unat i * 4096" by (subst unat_mult_small) (use i x unat_lt(3) [of x] in \<open>simp_all, linarith\<close>)
      then have "unat (a + i * PAGE_SIZE) = unat a + unat i * 4096"
        by (subst unat_add_small) (use i x r(2) le unat_lt(3) [of x] in \<open>simp_all, linarith\<close>)
      also have "\<dots> = unat (frame x)" using i r(2) le by (simp add: unat_page_base_minus algebra_simps)
      finally show ?thesis by (simp add: word_unat_eq_iff)
    qed
    ultimately show "aspace s1 (frame x) = Some (frame x)" using id ok by metis
  qed
  have away: "aspace s1 va = aspace s va"
    if "unat va div 4096 < unat p div 4096 \<or> (unat e + 4095) div 4096 \<le> unat va div 4096" for va
  proof -
    have "\<not> in_run a k va" using that r(2) k unfolding in_run_def by auto
    with out show ?thesis by blast
  qed
  have ne: "e - p \<noteq> 0" using assms(9) by auto
  have run: "initrd_init md (Some mb) s = Some (if st \<noteq> KERNEL_OK then (st, s1) else (KERNEL_OK, s1\<lparr>g_initrd_data := p, g_initrd_size := e - p\<rparr>))"
    using assms(2-6) ne map [unfolded n_def a_def] by (auto simp: initrd_init_def Let_def assms(7,8) [symmetric])
  show ?thesis
  proof (cases "st = KERNEL_OK")
    case True
    then show ?thesis using run wf away inside by (intro exI [of _ KERNEL_OK] exI [of _ "s1\<lparr>g_initrd_data := p, g_initrd_size := e - p\<rparr>"])
      (simp add: initrd_get_data_def initrd_get_size_def)
  next
    case False
    then show ?thesis using run wf away map_keeps_initrd [OF map] by (intro exI [of _ st] exI [of _ s1])
      (simp add: initrd_get_data_def initrd_get_size_def)
  qed
qed


definition initrd_example :: initrd_state where
  "initrd_example = vmm.extend mapped_machine (initrd_state.fields 0 0)"

definition initrd_mb :: multiboot_info where
  "initrd_mb = \<lparr>mb_flags = 8, mem_lower = 0, mem_upper = 0, mods_count = 1, mods_addr = 0x400000, mmap_length = 0, mmap_addr = 0\<rparr>"

lemma initrd_example_wf: "vmm_wf initrd_example" "mmu initrd_example 0x400000 \<noteq> None" "mmu initrd_example 0x400004 \<noteq> None"
proof -
  have f: "mem initrd_example = mem mapped_machine" "kpd initrd_example = kpd mapped_machine" "cr3 initrd_example = cr3 mapped_machine"
    "paging initrd_example = paging mapped_machine" "bits initrd_example = bits mapped_machine"
    "total_pages initrd_example = total_pages mapped_machine" "bm_size initrd_example = bm_size mapped_machine"
    "free_pages initrd_example = free_pages mapped_machine" "used_pages initrd_example = used_pages mapped_machine"
    by (simp_all add: initrd_example_def vmm.extend_def initrd_state.fields_def)
  show "vmm_wf initrd_example" using mapped_machine_wf
    by (simp add: vmm_wf_def pmm_inv_def free_frames_def page_used_def bitmap_wf_def capacity_def
        has_table_def table_def pde_def frame_taken_def f)
  show "mmu initrd_example 0x400000 \<noteq> None" "mmu initrd_example 0x400004 \<noteq> None"
    by (simp_all add: mmu_def f page_walk_def pd_index_def pt_index_def cell_def mapped_machine_def small_machine_def drop_bit_eq_div)
qed


end
