(* ===== verification/Symbols.thy ===== *)
theory Symbols
  imports Printf
begin

text \<open>
  The symbol table, \<^verbatim>\<open>src/kernel/ksym.c\<close>, and the stack trace that is printed with it, \<^verbatim>\<open>src/kernel/stacktrace.c\<close>. The stack
  frames and the strings are in the byte memory of theory \<open>Printf\<close>.
\<close>

section \<open>The symbol table\<close>

record ksym =
  ks_addr :: u32
  ks_name :: u32

text \<open>
  The \<^verbatim>\<open>.ksym\<close> section, between \<^verbatim>\<open>__start_ksym\<close> and \<^verbatim>\<open>__stop_ksym\<close>, the legacy table \<^verbatim>\<open>symbols\<close> (both weak: an absent table
  is empty), and the addresses of the two literals that stand for an unknown name.
\<close>

record symbol_tables =
  ksym_section :: "ksym list"
  legacy_symbols :: "ksym list"
  lit_unknown :: u32
  lit_no_symbols :: u32

text \<open>The linear search: the best address so far and its name.\<close>

fun best_symbol :: "u32 \<Rightarrow> ksym list \<Rightarrow> u32 \<times> u32 \<Rightarrow> u32 \<times> u32" where
  "best_symbol addr [] best = best"
| "best_symbol addr (s # ss) best =
     best_symbol addr ss (if ks_addr s \<le> addr \<and> ks_addr s > fst best then (ks_addr s, ks_name s) else best)"

text \<open>The name and \<^verbatim>\<open>*offset\<close>.\<close>

definition ksym_lookup :: "symbol_tables \<Rightarrow> u32 \<Rightarrow> u32 \<times> u32" where
  "ksym_lookup T addr =
     (if ksym_section T \<noteq> [] then
        let (best_addr, best_name) = best_symbol addr (ksym_section T) (0, lit_unknown T)
        in (best_name, addr - best_addr)
      else if legacy_symbols T \<noteq> [] then
        let (best_addr, best_name) = best_symbol addr (legacy_symbols T) (0, lit_unknown T)
        in (if best_addr = 0 then lit_no_symbols T else best_name, addr - best_addr)
      else (lit_no_symbols T, addr))"

definition ksym_count :: "symbol_tables \<Rightarrow> nat" where
  "ksym_count T =
     (if ksym_section T \<noteq> [] then length (ksym_section T)
      else if legacy_symbols T \<noteq> [] then length (legacy_symbols T) else 0)"

section \<open>The stack trace\<close>

definition load32 :: "memory \<Rightarrow> u32 \<Rightarrow> u32" where
  "load32 m a = ucast (m a) OR push_bit 8 (ucast (m (a + 1))) OR push_bit 16 (ucast (m (a + 2))) OR push_bit 24 (ucast (m (a + 3)))"

text \<open>The members of a \<^verbatim>\<open>struct stackframe\<close>, and the addresses of the three format literals.\<close>

abbreviation (input) sf_ebp :: "u32 \<Rightarrow> u32" where "sf_ebp f \<equiv> f"
abbreviation (input) sf_eip :: "u32 \<Rightarrow> u32" where "sf_eip f \<equiv> f + 4"

record trace_literals =
  tl_head :: u32
  tl_line :: u32
  tl_tail :: u32

text \<open>\<^verbatim>\<open>off += snprintf(buf + off, (off < bufsize) ? bufsize - off : 0, ...)\<close>\<close>

definition trace_print :: "u32 \<Rightarrow> u32 \<Rightarrow> u32 \<Rightarrow> va_list \<Rightarrow> u32 \<times> pf_state \<Rightarrow> (u32 \<times> pf_state) option" where
  "trace_print buf bufsize fmt va = (\<lambda>(off, s).
     map_option (\<lambda>(r, s). (off + word_of_int r, s)) (snprintf (buf + off) (if off < bufsize then bufsize - off else 0) fmt va s))"

function trace_frames :: "symbol_tables \<Rightarrow> u32 \<Rightarrow> u32 \<Rightarrow> u32 \<Rightarrow> u32 \<Rightarrow> u32 \<Rightarrow> u32 \<times> pf_state \<Rightarrow> (u32 \<times> pf_state) option" where
  "trace_frames T buf bufsize fmt i frm st =
     (if frm \<noteq> 0 \<and> i < 32 then
        let ret = load32 (pf_mem (snd st)) (sf_eip frm)
        in if ret = 0 then Some st
           else let (name, sym_off) = ksym_lookup T ret
                in Option.bind (trace_print buf bufsize fmt [i, ret, name, sym_off] st) (\<lambda>st.
                   let nxt = load32 (pf_mem (snd st)) (sf_ebp frm)
                   in if nxt = 0 then Some st
                      else if nxt \<le> frm then Some st
                      else if nxt > 0xF0000000 then Some st
                      else trace_frames T buf bufsize fmt (i + 1) nxt st)
      else Some st)"
  by pat_completeness auto
termination
  by (relation "measure (\<lambda>(T, buf, bufsize, fmt, i, frm, st). unat (32 :: u32) - unat i)") (auto dest: loop_measure [of _ "32 :: u32"])

declare trace_frames.simps [simp del]

text \<open>\<open>ebp\<close> is the frame pointer register.\<close>

definition stack_trace_to_buffer ::
    "symbol_tables \<Rightarrow> trace_literals \<Rightarrow> u32 \<Rightarrow> u32 \<Rightarrow> u32 \<Rightarrow> pf_state \<Rightarrow> pf_state option" where
  "stack_trace_to_buffer T L ebp buf bufsize s =
     (if buf = 0 \<or> bufsize = 0 then Some s
      else Option.bind (trace_print buf bufsize (tl_head L) [] (0, s)) (\<lambda>st.
        Option.bind (trace_frames T buf bufsize (tl_line L) 0 ebp st) (\<lambda>st.
        map_option (\<lambda>(off, s). if off \<ge> bufsize then s\<lparr>pf_mem := (pf_mem s)(buf + (bufsize - 1) := 0)\<rparr> else s)
          (trace_print buf bufsize (tl_tail L) [] st))))"

section \<open>The nearest symbol\<close>

lemma best_symbol_spec:
  assumes "best_symbol addr ss (a0, n0) = (a, n)"
  shows "a0 \<le> a" "(a, n) = (a0, n0) \<or> (\<exists>s \<in> set ss. ks_addr s = a \<and> ks_name s = n \<and> a \<le> addr \<and> a0 < a)"
    "\<forall>s \<in> set ss. ks_addr s \<le> addr \<longrightarrow> ks_addr s \<le> a"
  using assms
proof (induction ss arbitrary: a0 n0)
  case (Cons x ss)
  {
    case 1
    then show ?case using Cons.IH(1) by (auto split: if_splits intro: order.trans [OF less_imp_le])
  next
    case 2
    then show ?case using Cons.IH(1,2) by (fastforce split: if_splits intro: less_le_trans less_trans)
  next
    case 3
    have "ks_addr x \<le> a" if "ks_addr x \<le> addr"
      using 3 Cons.IH(1) that by (fastforce split: if_splits intro: order.trans)
    then show ?case using Cons.IH(3) 3 by (auto split: if_splits)
  }
qed simp_all

text \<open>
  \<^verbatim>\<open>ksym_lookup\<close> finds the function an address lies in: in the table that is in use, it returns the name of a symbol
  with the greatest address not above the query, and the distance to it; when the table has no symbol at or below the
  address (an address of zero does not count), it returns a placeholder and the address itself.
\<close>

theorem ksym_lookup_nearest:
  assumes "ksym_lookup T addr = (name, off)"
    and "tab = (if ksym_section T \<noteq> [] then ksym_section T else legacy_symbols T)"
  shows "if \<exists>s \<in> set tab. ks_addr s \<le> addr \<and> ks_addr s \<noteq> 0
    then \<exists>s \<in> set tab. name = ks_name s \<and> off = addr - ks_addr s \<and> ks_addr s \<le> addr \<and>
           (\<forall>s' \<in> set tab. ks_addr s' \<le> addr \<longrightarrow> ks_addr s' \<le> ks_addr s)
    else name \<in> {lit_unknown T, lit_no_symbols T} \<and> off = addr"
proof -
  obtain a n where b: "best_symbol addr tab (0, lit_unknown T) = (a, n)" by fastforce
  note spec = best_symbol_spec [OF b]
  have name: "(name, off) = (if a = 0 \<and> ksym_section T = [] then lit_no_symbols T else n, addr - a)"
    using assms b by (auto simp: ksym_lookup_def split: if_splits)
  show ?thesis
  proof (cases "a = 0")
    case True
    then have "\<not> (\<exists>s \<in> set tab. ks_addr s \<le> addr \<and> ks_addr s \<noteq> 0)" using spec(3) by (auto simp: word_le_nat_alt unat_eq_0)
    moreover have "n = lit_unknown T" using spec(2) True by auto
    ultimately show ?thesis using name True by auto
  next
    case False
    then obtain s where s: "s \<in> set tab" "ks_addr s = a" "ks_name s = n" "a \<le> addr" using spec(2) by auto
    then have "\<exists>s \<in> set tab. ks_addr s \<le> addr \<and> ks_addr s \<noteq> 0" using False by auto
    moreover have "name = n" "off = addr - a" using name False by auto
    ultimately show ?thesis using s spec(3) by auto
  qed
qed

definition symbols_example :: symbol_tables where
  "symbols_example = \<lparr>ksym_section = [\<lparr>ks_addr = 0x1000, ks_name = 500\<rparr>, \<lparr>ks_addr = 0x3000, ks_name = 520\<rparr>, \<lparr>ks_addr = 0x2000, ks_name = 540\<rparr>],
     legacy_symbols = [], lit_unknown = 600, lit_no_symbols = 620\<rparr>"

theorem ksym_lookup_nearest_witness: "ksym_lookup symbols_example 0x2010 = (540, 0x10)"
  using ksym_lookup_nearest [of symbols_example "0x2010" 540 "0x10"] by (simp add: symbols_example_def ksym_lookup_def)

section \<open>A trace never leaves its buffer\<close>

text \<open>The literals: \<^verbatim>\<open>"--- STACK TRACE ---\n"\<close>, \<^verbatim>\<open>"  [%02u] 0x%08x: %s+0x%x\n"\<close> and the closing line.\<close>

definition trace_head :: "u8 list" where
  "trace_head = [0x2D, 0x2D, 0x2D, 0x20, 0x53, 0x54, 0x41, 0x43, 0x4B, 0x20, 0x54, 0x52, 0x41, 0x43, 0x45, 0x20, 0x2D, 0x2D, 0x2D, 0x0A]"

definition trace_line :: "u8 list" where
  "trace_line = [0x20, 0x20, 0x5B] @ [0x25, 0x30, 0x32, 0x75] @ [0x5D, 0x20, 0x30, 0x78] @ [0x25, 0x30, 0x38, 0x78] @ [0x3A, 0x20] @
     [0x25, 0x73] @ [0x2B, 0x30, 0x78] @ [0x25, 0x78] @ [0x0A]"

definition trace_tail :: "u8 list" where
  "trace_tail = [0x2D, 0x2D, 0x2D, 0x2D, 0x2D, 0x2D, 0x2D, 0x2D, 0x2D, 0x2D, 0x2D, 0x2D, 0x2D, 0x2D, 0x2D, 0x2D, 0x2D, 0x2D, 0x2D, 0x2D, 0x0A]"

text \<open>
  A format with its arguments prints a text of fewer than \<open>2 ^ 21\<close> characters, whatever the output function does to the
  buffer.
\<close>

definition prints :: "memory \<Rightarrow> u32 \<Rightarrow> u32 \<Rightarrow> u32 \<Rightarrow> va_list \<Rightarrow> bool" where
  "prints m b n fmt va \<longleftrightarrow> (\<forall>out st. writes_only out b n \<and> (\<forall>a. \<not> a - b < n \<longrightarrow> pf_mem (snd st) a = m a) \<longrightarrow>
     (\<exists>txt. length txt < 2 ^ 21 \<and> format_loop out n fmt va st = Some (fold (emit out n) txt st)))"

lemma prints_literals:
  assumes "chars_off m b n fmt (cs @ [0])" "\<forall>c \<in> set cs. c \<noteq> 0 \<and> c \<noteq> 0x25" "length cs < 2 ^ 21"
  shows "prints m b n fmt va"
  unfolding prints_def
proof (intro allI impI, elim conjE)
  fix out :: out_fct and st :: "u32 \<times> pf_state"
  assume w: "writes_only out b n" and m: "\<forall>a. \<not> a - b < n \<longrightarrow> pf_mem (snd st) a = m a"
  have off: "chars_off (pf_mem (snd st)) b n fmt (cs @ [0])" using m by (intro chars_off_cong [OF assms(1)]) simp
  have "chars_off (pf_mem (snd (fold (emit out n) cs st))) b n (fmt + of_nat (length cs)) [0]"
    by (rule chars_off_fold [OF w]) (use off in \<open>simp add: chars_off_append\<close>)
  then have "format_loop out n (fmt + of_nat (length cs)) va (fold (emit out n) cs st) = Some (fold (emit out n) cs st)"
    by (subst format_loop.simps) simp
  then have "format_loop out n fmt va st = Some (fold (emit out n) cs st)"
    using format_literals [OF w _ assms(2), of st fmt va] off by (simp add: chars_off_append)
  with assms(3) show "\<exists>txt. length txt < 2 ^ 21 \<and> format_loop out n fmt va st = Some (fold (emit out n) txt st)" by blast
qed

lemma number_text_short: "length (number_text 0x78 v) \<le> 32"
  using ntoa_digits_length [of "[]" 0 16 v] by (simp add: number_text_def)

lemma prints_line:
  assumes "chars_off m b n fmt (trace_line @ [0])" "chars_off m b n name (nm @ [0])" "\<forall>c \<in> set nm. c \<noteq> 0" "length nm < 2 ^ 20"
  shows "prints m b n fmt [i, ret, name, off]"
  unfolding prints_def
proof (intro allI impI, elim conjE)
  fix out :: out_fct and st :: "u32 \<times> pf_state"
  assume w: "writes_only out b n" and m: "\<forall>a. \<not> a - b < n \<longrightarrow> pf_mem (snd st) a = m a"
  note keep = chars_off_fold [OF w]
  define E where "E = fold (emit out n)"
  define t1 where "t1 = [0x20, 0x20, 0x5B] @ zero_number 10 2 i @ [0x5D, 0x20, 0x30, 0x78 :: u8]"
  define t2 where "t2 = t1 @ zero_number 16 8 ret @ [0x3A, 0x20]"
  define t3 where "t3 = t2 @ nm @ [0x2B, 0x30, 0x78]"
  define t4 where "t4 = t3 @ number_text 0x78 off @ [0x0A]"
  have line: "chars_off (pf_mem (snd (E xs st))) b n fmt (trace_line @ [0])" for xs
    unfolding E_def by (rule keep) (use m in \<open>intro chars_off_cong [OF assms(1)], simp\<close>)
  have nm: "chars_off (pf_mem (snd (E xs st))) b n name (nm @ [0])" for xs
    unfolding E_def by (rule keep) (use m in \<open>intro chars_off_cong [OF assms(2)], simp\<close>)
  have add: "E ys (E xs st) = E (xs @ ys) st" for xs ys by (simp add: E_def)
  have nil: "E [] st = st" by (simp add: E_def)
  have lits: "format_loop out n p va (E xs st) = format_loop out n (p + of_nat (length cs)) va (E (xs @ cs) st)"
    if "chars_off (pf_mem (snd (E xs st))) b n p cs" "\<forall>c \<in> set cs. c \<noteq> 0 \<and> c \<noteq> 0x25" for p va xs cs
    using format_literals [OF w that, of va] by (simp add: add [symmetric] E_def)
  have "format_loop out n fmt [i, ret, name, off] (E [] st) = format_loop out n (fmt + 3) [i, ret, name, off] (E [0x20, 0x20, 0x5B] st)"
    using lits [of "[]" fmt "[0x20, 0x20, 0x5B]"] line [of "[]"] by (simp add: trace_line_def)
  also have "\<dots> = format_loop out n (fmt + 7) [ret, name, off] (E ([0x20, 0x20, 0x5B] @ zero_number 10 2 i) st)"
    using format_zero [of "E [0x20, 0x20, 0x5B] st" "fmt + 3" 2 "0x75" out n i] line [of "[0x20, 0x20, 0x5B]"]
    by (simp add: trace_line_def add.assoc add [symmetric] E_def)
  also have "\<dots> = format_loop out n (fmt + 11) [ret, name, off] (E t1 st)"
    using lits [of "[0x20, 0x20, 0x5B] @ zero_number 10 2 i" "fmt + 7" "[0x5D, 0x20, 0x30, 0x78]"] line [of "[0x20, 0x20, 0x5B] @ zero_number 10 2 i"]
    by (simp add: trace_line_def t1_def add.assoc)
  also have "\<dots> = format_loop out n (fmt + 15) [name, off] (E (t1 @ zero_number 16 8 ret) st)"
    using format_zero [of "E t1 st" "fmt + 11" 8 "0x78" out n ret] line [of t1] by (simp add: trace_line_def add.assoc add [symmetric] E_def)
  also have "\<dots> = format_loop out n (fmt + 17) [name, off] (E t2 st)"
    using lits [of "t1 @ zero_number 16 8 ret" "fmt + 15" "[0x3A, 0x20]"] line [of "t1 @ zero_number 16 8 ret"]
    by (simp add: trace_line_def t2_def add.assoc)
  also have "\<dots> = format_loop out n (fmt + 19) [off] (E (t2 @ nm) st)"
    using format_string [OF w _ _ nm [of t2] assms(3), of "fmt + 17"] line [of t2] by (simp add: trace_line_def add.assoc add [symmetric] E_def)
  also have "\<dots> = format_loop out n (fmt + 22) [off] (E t3 st)"
    using lits [of "t2 @ nm" "fmt + 19" "[0x2B, 0x30, 0x78]"] line [of "t2 @ nm"] by (simp add: trace_line_def t3_def add.assoc)
  also have "\<dots> = format_loop out n (fmt + 24) [] (E (t3 @ number_text 0x78 off) st)"
    using format_number [of "E t3 st" "fmt + 22" "0x78" out n off] line [of t3] by (simp add: trace_line_def add.assoc add [symmetric] E_def)
  also have "\<dots> = format_loop out n (fmt + 25) [] (E t4 st)"
    using lits [of "t3 @ number_text 0x78 off" "fmt + 24" "[0x0A]"] line [of "t3 @ number_text 0x78 off"] by (simp add: trace_line_def t4_def add.assoc)
  also have "\<dots> = Some (E t4 st)" using line [of t4] by (subst format_loop.simps) (simp add: trace_line_def add.assoc)
  finally have "format_loop out n fmt [i, ret, name, off] st = Some (fold (emit out n) t4 st)" by (simp add: nil E_def)
  moreover have "length t4 < 2 ^ 21"
    using zero_number_length [of 10 2 i] zero_number_length [of 16 8 ret] number_text_short [of off] assms(4)
    by (simp add: t4_def t3_def t2_def t1_def)
  ultimately show "\<exists>txt. length txt < 2 ^ 21 \<and> format_loop out n fmt [i, ret, name, off] st = Some (fold (emit out n) txt st)" by blast
qed

definition agree :: "memory \<Rightarrow> u32 \<Rightarrow> u32 \<Rightarrow> pf_state \<Rightarrow> bool" where
  "agree m b n s \<longleftrightarrow> (\<forall>a. \<not> a - b < n \<longrightarrow> pf_mem s a = m a)"

text \<open>The rest of the buffer after \<open>off\<close> bytes, as each call is given it.\<close>

definition room :: "u32 \<Rightarrow> u32 \<Rightarrow> u32" where
  "room n off = (if off < n then n - off else 0)"

lemma room_part: "\<not> a - b < n \<Longrightarrow> \<not> a - (b + off) < room n off"
proof -
  define d where "d = a - b"
  have "d < n" if "d - off < n - off" "off < n"
  proof (cases "off \<le> d")
    case True
    then show ?thesis using that by (simp add: word_less_nat_alt word_le_nat_alt unat_sub_if_size word_size)
  next
    case False
    then have "unat (d - off) = unat d + 4294967296 - unat off" by (simp add: unat_sub_if_size word_size word_le_nat_alt)
    moreover have "unat (n - off) = unat n - unat off" using that(2) by (simp add: unat_sub_if_size word_size word_less_nat_alt)
    ultimately have "unat d + 4294967296 - unat off < unat n - unat off" using that(1) by (simp only: word_less_nat_alt)
    moreover have "unat n < 4294967296" by (rule unat_lt(3))
    ultimately have False by linarith
    then show ?thesis ..
  qed
  then show "\<not> a - b < n \<Longrightarrow> \<not> a - (b + off) < room n off" by (auto simp: room_def d_def diff_diff_eq)
qed

lemma chars_off_room: "chars_off m b n p cs \<Longrightarrow> chars_off m (b + off) (room n off) p cs"
  by (induction cs arbitrary: p) (use room_part in auto)

lemma trace_print_ok:
  assumes "prints (pf_mem s) (buf + off) (room bufsize off) fmt va" "agree m buf bufsize s" "buf \<noteq> 0" "unat buf + unat bufsize \<le> 2 ^ 32"
  shows "\<exists>k s'. trace_print buf bufsize fmt va (off, s) = Some (off + of_nat k, s') \<and> k < 2 ^ 21 \<and> agree m buf bufsize s' \<and>
    (off < bufsize \<longrightarrow> (if unat off + k < unat bufsize then pf_mem s' (buf + off + of_nat k) = 0 else pf_mem s' (buf + (bufsize - 1)) = 0))"
proof -
  define b n where "b = buf + off" and "n = room bufsize off"
  define out where "out = (if b = 0 then out_null else out_buffer b)"
  have w: "writes_only out b n" by (simp add: out_def writes_only_sinks)
  then obtain cs where cs: "length cs < 2 ^ 21" "format_loop out n fmt va (0, s) = Some (fold (emit out n) cs (0, s))"
    using assms(1) [unfolded prints_def, rule_format, of out "(0, s)"] by (auto simp: b_def n_def)
  define k idx s1 where "k = length cs" and "idx = (of_nat k :: u32)" and "s1 = snd (fold (emit out n) cs (0, s))"
  have fold: "fold (emit out n) cs (0, s) = (idx, s1)" using fst_fold_emit [of out n cs "(0, s)"] by (simp add: idx_def k_def s1_def prod_eq_iff)
  define s' where "s' = out 0 (if idx < n then idx else n - 1) n s1"
  have run: "snprintf b n fmt va s = Some (sint idx, s')"
    using cs(2) fold by (simp add: snprintf_def internal_vsnprintf_def out_def s'_def)
  have idx: "unat idx = k" unfolding idx_def using cs(1) by (intro unat_of_nat_u32) (simp add: k_def)
  have keep: "pf_mem s' a = pf_mem s a" if "\<not> a - b < n" for a
    using writes_only_fold [OF w that, of cs "(0, s)"] w that by (simp add: s'_def s1_def writes_only_def)
  have "agree m buf bufsize s'"
    using assms(2) keep room_part [of _ buf bufsize off] by (simp add: agree_def b_def n_def)
  moreover have "if unat off + k < unat bufsize then pf_mem s' (buf + off + of_nat k) = 0 else pf_mem s' (buf + (bufsize - 1)) = 0"
    if o: "off < bufsize"
  proof -
    have n: "n = bufsize - off" "unat n = unat bufsize - unat off" "unat off < unat bufsize"
      using o by (simp_all add: n_def room_def unat_sub_if_size word_size word_less_nat_alt)
    have "unat b = unat buf + unat off" unfolding b_def using n(3) assms(4) by (subst unat_add_small) simp_all
    then have "out = out_buffer b" using assms(3) by (auto simp: out_def unat_gt_0 [symmetric])
    moreover have "(if idx < n then idx else n - 1) < n"
      using n(2,3) by (auto simp: word_less_nat_alt unat_minus_one unat_gt_0 [symmetric])
    ultimately have zero: "pf_mem s' (b + (if idx < n then idx else n - 1)) = 0" by (simp add: s'_def out_buffer_def)
    have lt: "idx < n \<longleftrightarrow> unat off + k < unat bufsize" unfolding word_less_nat_alt idx n(2) using n(3) by linarith
    have last: "b + (n - 1) = buf + (bufsize - 1)" by (simp add: b_def n(1))
    show ?thesis unfolding b_def [symmetric] idx_def [symmetric] lt [symmetric] last [symmetric] using zero by (simp split: if_splits)
  qed
  moreover have "trace_print buf bufsize fmt va (off, s) = Some (off + of_nat k, s')"
    using run by (simp add: trace_print_def b_def n_def room_def idx_def)
  moreover have "k < 2 ^ 21" using cs(1) by (simp add: k_def)
  ultimately show ?thesis by blast
qed

text \<open>The strings of the tables, away from the buffer and of a sane length.\<close>

definition name_ok :: "memory \<Rightarrow> u32 \<Rightarrow> u32 \<Rightarrow> u32 \<Rightarrow> bool" where
  "name_ok m b n p \<longleftrightarrow> (\<exists>nm. chars_off m b n p (nm @ [0]) \<and> (\<forall>c \<in> set nm. c \<noteq> 0) \<and> length nm < 2 ^ 20)"

definition symbol_names :: "symbol_tables \<Rightarrow> u32 set" where
  "symbol_names T = {lit_unknown T, lit_no_symbols T} \<union> ks_name ` set (ksym_section T) \<union> ks_name ` set (legacy_symbols T)"

lemma best_symbol_name: "snd (best_symbol addr ss best) \<in> insert (snd best) (ks_name ` set ss)"
  by (induction ss arbitrary: best) (fastforce split: if_splits)+

lemma ksym_lookup_name: "ksym_lookup T addr = (name, off) \<Longrightarrow> name \<in> symbol_names T"
  using best_symbol_name [of addr "ksym_section T" "(0, lit_unknown T)"] best_symbol_name [of addr "legacy_symbols T" "(0, lit_unknown T)"]
  by (auto simp: ksym_lookup_def symbol_names_def split: if_splits prod.splits)

lemma agree_chars: "agree m b n s \<Longrightarrow> chars_off m b n p cs \<Longrightarrow> chars_off (pf_mem s) b n p cs"
  by (erule chars_off_cong) (simp add: agree_def)

lemma trace_frames_ok:
  assumes "chars_off m buf bufsize fmt (trace_line @ [0])" "\<forall>p \<in> symbol_names T. name_ok m buf bufsize p"
    and buf: "buf \<noteq> 0" "unat buf + unat bufsize \<le> 2 ^ 32"
    and "agree m buf bufsize s" "unat off \<le> (unat i + 1) * 2 ^ 21" "i \<le> 32"
  shows "\<exists>off' s'. trace_frames T buf bufsize fmt i frm (off, s) = Some (off', s') \<and> agree m buf bufsize s' \<and> unat off' \<le> 33 * 2 ^ 21"
  using assms(5-)
proof (induction "32 - unat i" arbitrary: i frm off s)
  case 0
  then have "\<not> i < 32" by (simp add: word_less_nat_alt)
  then have "trace_frames T buf bufsize fmt i frm (off, s) = Some (off, s)" by (simp add: trace_frames.simps)
  moreover have "unat i \<le> 32" using 0 by (simp add: word_le_nat_alt)
  ultimately show ?case using 0 by auto
next
  case (Suc n)
  have i: "i < 32" "unat i < 32" using Suc.hyps(2) by (simp_all add: word_less_nat_alt)
  define ret where "ret = load32 (pf_mem s) (frm + 4)"
  obtain name sym_off where look: "ksym_lookup T ret = (name, sym_off)" by fastforce
  have small: "unat off \<le> 33 * 2 ^ 21" using Suc.prems(2) i(2) by (simp add: order.trans)
  show ?case
  proof (cases "frm = 0 \<or> ret = 0")
    case True
    then have "trace_frames T buf bufsize fmt i frm (off, s) = Some (off, s)"
      by (subst trace_frames.simps) (auto simp: ret_def)
    then show ?thesis using Suc.prems(1) small by blast
  next
    case False
    obtain nm where nm: "chars_off m buf bufsize name (nm @ [0])" "\<forall>c \<in> set nm. c \<noteq> 0" "length nm < 2 ^ 20"
      using assms(2) ksym_lookup_name [OF look] by (auto simp: name_ok_def)
    have "prints (pf_mem s) (buf + off) (room bufsize off) fmt [i, ret, name, sym_off]"
      by (rule prints_line [OF _ _ nm(2,3)]) (intro chars_off_room agree_chars [OF Suc.prems(1)] assms(1) nm(1))+
    from trace_print_ok [OF this Suc.prems(1) buf] obtain k s1 where p: "trace_print buf bufsize fmt [i, ret, name, sym_off] (off, s) = Some (off + of_nat k, s1)"
      "k < 2 ^ 21" "agree m buf bufsize s1" by blast
    have i1: "unat (i + 1) = unat i + 1" using i by (subst unat_add_small) simp_all
    have k: "unat (off + of_nat k) = unat off + k"
      using p(2) small by (subst unat_add_small) (simp_all add: unat_of_nat_u32)
    have bound: "unat (off + of_nat k) \<le> (unat (i + 1) + 1) * 2 ^ 21" using Suc.prems(2) p(2) by (simp add: k i1)
    then have small1: "unat (off + of_nat k) \<le> 33 * 2 ^ 21" using i(2) by (simp add: i1 order.trans)
    define nxt where "nxt = load32 (pf_mem s1) frm"
    have step: "trace_frames T buf bufsize fmt i frm (off, s) =
        (if nxt = 0 \<or> nxt \<le> frm \<or> nxt > 0xF0000000 then Some (off + of_nat k, s1)
         else trace_frames T buf bufsize fmt (i + 1) nxt (off + of_nat k, s1))"
      using False i(1) look p(1) by (subst trace_frames.simps) (simp add: ret_def nxt_def Let_def)
    have "n = 32 - unat (i + 1)" "i + 1 \<le> 32" using Suc.hyps(2) i1 i by (simp_all add: word_le_nat_alt)
    from Suc.hyps(1) [OF this(1) p(3) bound this(2)] show ?thesis using step p(3) small1 by auto
  qed
qed


definition trace_example :: pf_state where
  "trace_example = \<lparr>pf_mem = write_bytes 0x1000 trace_head (write_bytes 0x1100 trace_line (write_bytes 0x1200 trace_tail (\<lambda>_. 0))), pf_sent = []\<rparr>"


end
