(* ===== verification/Shell.thy ===== *)
theory Shell
  imports Slab Vma Tar Keyboard Printf Vbe
begin

text \<open>
  The shell, \<^verbatim>\<open>src/misc/shell.c\<close>, with \<^verbatim>\<open>dump_mmap\<close> of \<^verbatim>\<open>src/mm/vma.c\<close>: the line editor, every command and the
  command loop. The lemmas follow a line from the keyboard through the editor, the tokenizer and the comparison of names to the
  command that it runs. \<open>None\<close> is a loop that does not end, a reader that still waits for keys, or a fault in an operation of
  the memory managers. Output is the list \<open>printed\<close>; what the terminal does with it is the subject of theory \<open>Terminal\<close>.
\<close>

section \<open>State\<close>

text \<open>
  What the shell prints: a call of \<^verbatim>\<open>printf\<close> is its format, without the newline at its end, and its arguments, \<open>Named\<close> when the
  first of them is a string; the characters of the line editor and of \<^verbatim>\<open>initrd_cat\<close>, and the lines of a listing, are separate.
\<close>

datatype shell_output = Msg string "u32 list" | Named string "u8 list" "u32 list" | Echo u8 | Erase | Newline
  | Listing "(bool \<times> u32 \<times> u8 list) list" | Chars "u8 list"

text \<open>
  The shell works on all memory managers: the record extends that of the slab allocator by the views of the area lists and
  by the other state it reaches. Bytes are those of the heap's byte memory, which stands for all kernel memory.
\<close>

record shell_state = slab_state +
  sh_areas :: "u32 \<Rightarrow> vm_area_struct"
  sh_mms :: "u32 \<Rightarrow> mm_struct"
  g_test_mm :: u32
  kbd :: keyboard
  keys :: "u8 list"
  strtok_last :: u32
  sh_initrd_data :: u32
  sh_initrd_size :: u32
  display :: vbe_device
  printed :: "shell_output list"

text \<open>The code and data the shell refers to: its literals, its input array and the locals of the tar routines.\<close>

record shell_env =
  lit_space :: u32
  lit_empty :: u32
  input :: u32
  tar_locals :: tar_frame

definition emit_out :: "shell_output \<Rightarrow> shell_state \<Rightarrow> shell_state" where
  "emit_out x s = s\<lparr>printed := printed s @ [x]\<rparr>"

abbreviation (input) say :: "string \<Rightarrow> u32 list \<Rightarrow> shell_state \<Rightarrow> shell_state" where
  "say fmt args \<equiv> emit_out (Msg fmt args)"

text \<open>A message whose first argument is the string at \<open>p\<close>.\<close>

definition say_str :: "string \<Rightarrow> u32 \<Rightarrow> u32 list \<Rightarrow> shell_state \<Rightarrow> shell_state option" where
  "say_str fmt p args s = map_option (\<lambda>w. emit_out (Named fmt w args) s) (string_at (hmem s) p)"

text \<open>An operation of theory \<open>Vma\<close> on the part of the state it works on.\<close>

definition as_vma :: "shell_state \<Rightarrow> vma_state" where
  "as_vma s = heap.extend (heap.truncate s) (vma_state.fields (sh_areas s) (sh_mms s))"

definition put_vma :: "vma_state \<Rightarrow> shell_state \<Rightarrow> shell_state" where
  "put_vma v s = s\<lparr>bits := bits v, bits_addr := bits_addr v, bm_size := bm_size v, total_pages := total_pages v,
     free_pages := free_pages v, used_pages := used_pages v, mem := mem v, cr3 := cr3 v, paging := paging v, kpd := kpd v,
     hblk := hblk v, hmem := hmem v, heap_head := heap_head v, heap_current_end := heap_current_end v,
     sh_areas := areas v, sh_mms := mms v\<rparr>"

section \<open>Reading a line\<close>

partial_function (option) readline_from :: "u32 \<Rightarrow> u32 \<Rightarrow> u32 \<Rightarrow> shell_state \<Rightarrow> shell_state option" where
  "readline_from buf buf_size i s =
     (if i < buf_size - 1 then
        Option.bind (ps2_get_char (keys s) (kbd s)) (\<lambda>(c, ks, k).
        let s = s\<lparr>keys := ks, kbd := k\<rparr>
        in if c = 0x0A \<or> c = 0x0D then Some (emit_out Newline (s\<lparr>hmem := (hmem s)(buf + i := 0)\<rparr>))
           else if c = 0x08 then if i > 0 then readline_from buf buf_size (i - 1) (emit_out Erase s) else readline_from buf buf_size i s
           else if sint c \<ge> 0x20 \<and> sint c \<le> 0x7E
           then readline_from buf buf_size (i + 1) (emit_out (Echo c) (s\<lparr>hmem := (hmem s)(buf + i := c)\<rparr>))
           else readline_from buf buf_size i s)
      else Some (s\<lparr>hmem := (hmem s)(buf + i := 0)\<rparr>))"

definition readline :: "u32 \<Rightarrow> u32 \<Rightarrow> shell_state \<Rightarrow> shell_state option" where
  "readline buf buf_size s = readline_from buf buf_size 0 s"

section \<open>Words of the line\<close>

definition token :: "u32 \<Rightarrow> u32 \<Rightarrow> shell_state \<Rightarrow> (u32 \<times> shell_state) option" where
  "token str delim s = map_option (\<lambda>(p, saved, m). (p, s\<lparr>strtok_last := saved, hmem := m\<rparr>)) (strtok str delim (strtok_last s) (hmem s))"

definition next_word :: "shell_env \<Rightarrow> shell_state \<Rightarrow> (u32 \<times> shell_state) option" where
  "next_word E s = token 0 (lit_space E) s"

text \<open>\<^verbatim>\<open>strcmp(p, "...") == 0\<close>\<close>

fun bytes_at :: "memory \<Rightarrow> u32 \<Rightarrow> u8 list \<Rightarrow> bool" where
  "bytes_at m p [] = True"
| "bytes_at m p (c # cs) = (m p = c \<and> bytes_at m (p + 1) cs)"

definition word_is :: "u32 \<Rightarrow> string \<Rightarrow> shell_state \<Rightarrow> bool" where
  "word_is p w s = bytes_at (hmem s) p (map of_char w @ [0])"

text \<open>The arguments of a command; a missing one is \<open>None\<close> inside.\<close>

definition one_word :: "shell_env \<Rightarrow> shell_state \<Rightarrow> (u32 option \<times> shell_state) option" where
  "one_word E s = map_option (\<lambda>(a, s). (if a \<noteq> 0 then Some a else None, s)) (next_word E s)"

definition two_words :: "shell_env \<Rightarrow> shell_state \<Rightarrow> ((u32 \<times> u32) option \<times> shell_state) option" where
  "two_words E s =
     Option.bind (next_word E s) (\<lambda>(a, s).
       map_option (\<lambda>(b, s). (if a \<noteq> 0 \<and> b \<noteq> 0 then Some (a, b) else None, s)) (next_word E s))"

definition three_words :: "shell_env \<Rightarrow> shell_state \<Rightarrow> ((u32 \<times> u32 \<times> u32) option \<times> shell_state) option" where
  "three_words E s =
     Option.bind (next_word E s) (\<lambda>(a, s). Option.bind (next_word E s) (\<lambda>(b, s).
       map_option (\<lambda>(c, s). (if a \<noteq> 0 \<and> b \<noteq> 0 \<and> c \<noteq> 0 then Some (a, b, c) else None, s)) (next_word E s)))"

section \<open>Commands on memory\<close>

definition cmd_heap_info :: "shell_state \<Rightarrow> shell_state option" where
  "cmd_heap_info s =
     Option.bind (heap_get_total_size s) (\<lambda>tot. map_option (\<lambda>free.
       say ''Heap Total: %zu bytes, Free: %zu bytes'' [tot, free] s) (heap_get_free_size s))"

definition cmd_pmm_info :: "shell_state \<Rightarrow> shell_state" where
  "cmd_pmm_info s = say ''Physical Memory Total Pages: %u, Free Pages: %u'' [pmm_get_total_pages s, pmm_get_free_pages s] s"

definition cmd_alloc_page :: "shell_state \<Rightarrow> shell_state" where
  "cmd_alloc_page s =
     (let (addr, s) = pmm_alloc_page s
      in if addr \<noteq> 0 then say ''Allocated physical page at 0x%x'' [addr] s else say ''Failed to allocate physical page'' [] s)"

definition cmd_free_page :: "shell_env \<Rightarrow> shell_state \<Rightarrow> shell_state option" where
  "cmd_free_page E s =
     Option.bind (one_word E s) (\<lambda>(arg, s). case arg of None \<Rightarrow> Some (say ''Usage: free_page <hex_addr>'' [] s)
       | Some a \<Rightarrow> map_option (\<lambda>addr. say ''Freed physical page at 0x%x'' [addr] (pmm_free_page addr s)) (hex_to_u32 (hmem s) a))"

definition cmd_kmalloc :: "shell_env \<Rightarrow> shell_state \<Rightarrow> shell_state option" where
  "cmd_kmalloc E s =
     Option.bind (one_word E s) (\<lambda>(arg, s). case arg of None \<Rightarrow> Some (say ''Usage: kmalloc <size>'' [] s)
       | Some a \<Rightarrow> Option.bind (atoi (hmem s) a) (\<lambda>sz. map_option (\<lambda>(ptr, s).
           if ptr \<noteq> 0 then say ''Allocated %zu bytes at 0x%p'' [sz, ptr] s else say ''Failed to allocate %zu bytes'' [sz] s) (kmalloc sz s)))"

definition cmd_kfree :: "shell_env \<Rightarrow> shell_state \<Rightarrow> shell_state option" where
  "cmd_kfree E s =
     Option.bind (one_word E s) (\<lambda>(arg, s). case arg of None \<Rightarrow> Some (say ''Usage: kfree <hex_ptr>'' [] s)
       | Some a \<Rightarrow> map_option (\<lambda>ptr. say ''Freed memory at 0x%p'' [ptr] (kfree ptr s)) (hex_to_u32 (hmem s) a))"

definition cmd_vmm_map :: "shell_env \<Rightarrow> shell_state \<Rightarrow> shell_state option" where
  "cmd_vmm_map E s =
     Option.bind (three_words E s) (\<lambda>(args, s). case args of None \<Rightarrow> Some (say ''Usage: vmm_map <virt_hex> <phys_hex> <flags>'' [] s)
       | Some (a, b, c) \<Rightarrow> Option.bind (hex_to_u32 (hmem s) a) (\<lambda>virt. Option.bind (hex_to_u32 (hmem s) b) (\<lambda>phys.
           Option.bind (atoi (hmem s) c) (\<lambda>flags. map_option (\<lambda>(st, s).
             if st = KERNEL_OK then say ''Mapped virtual 0x%x to physical 0x%x with flags %u'' [virt, phys, flags] s
             else say ''Failed to map virtual 0x%x to physical 0x%x'' [virt, phys] s) (vmm_map_page virt phys flags s)))))"

definition cmd_vmm_unmap :: "shell_env \<Rightarrow> shell_state \<Rightarrow> shell_state option" where
  "cmd_vmm_unmap E s =
     Option.bind (one_word E s) (\<lambda>(arg, s). case arg of None \<Rightarrow> Some (say ''Usage: vmm_unmap <virt_hex>'' [] s)
       | Some a \<Rightarrow> Option.bind (hex_to_u32 (hmem s) a) (\<lambda>virt. map_option (\<lambda>(st, s).
           if st = KERNEL_OK then say ''Unmapped virtual address 0x%x'' [virt] s
           else say ''Failed to unmap virtual address 0x%x'' [virt] s) (vmm_unmap_page virt s)))"

section \<open>Commands on areas\<close>

definition cmd_vma_mmap :: "shell_env \<Rightarrow> shell_state \<Rightarrow> shell_state option" where
  "cmd_vma_mmap E s =
     Option.bind (three_words E s) (\<lambda>(args, s). case args of
         None \<Rightarrow> Some (say ''Usage: vma_mmap <addr_hex> <len_decimal> <flags_decimal>'' [] s)
       | Some (a, b, c) \<Rightarrow> Option.bind (strtoul (hmem s) a 16) (\<lambda>(addr, _). Option.bind (atoi (hmem s) b) (\<lambda>len.
           Option.bind (atoi (hmem s) c) (\<lambda>flags. map_option (\<lambda>(st, out_addr, v).
             case out_addr of Some at \<Rightarrow> say ''Mapped anonymous region at 0x%lx (requested start: 0x%lx)'' [at, addr] (put_vma v s)
             | None \<Rightarrow> say ''Failed to map: error %d'' [of_int (status_code st)] (put_vma v s))
             (mmap_anonymous (g_test_mm s) addr len flags (as_vma s))))))"

definition cmd_vma_munmap :: "shell_env \<Rightarrow> shell_state \<Rightarrow> shell_state option" where
  "cmd_vma_munmap E s =
     Option.bind (two_words E s) (\<lambda>(args, s). case args of
         None \<Rightarrow> Some (say ''Usage: vma_munmap <addr_hex> <len_decimal>'' [] s)
       | Some (a, b) \<Rightarrow> Option.bind (strtoul (hmem s) a 16) (\<lambda>(addr, _). Option.bind (atoi (hmem s) b) (\<lambda>len.
           map_option (\<lambda>(st, v).
             if st = KERNEL_OK then say ''Unmapped range starting at 0x%lx (length %zu)'' [addr, len] (put_vma v s)
             else say ''Failed to unmap: error %d'' [of_int (status_code st)] (put_vma v s))
             (munmap_range (g_test_mm s) addr len (as_vma s)))))"

partial_function (option) dump_from :: "u32 \<Rightarrow> u32 \<Rightarrow> shell_state \<Rightarrow> shell_state option" where
  "dump_from v index s =
     (if v \<noteq> 0
      then let a = sh_areas s v
           in dump_from (vm_next a) (index + 1)
                (say ''VMA #%d: start=0x%lx, end=0x%lx, size=%lu pages, flags=0x%x, pgoff=0x%lx''
                   [index, vm_start a, vm_end a, vma_pages a, vm_flags a, vm_pgoff a] s)
      else Some s)"

definition dump_mmap :: "u32 \<Rightarrow> shell_state \<Rightarrow> shell_state option" where
  "dump_mmap mm s =
     (if mm = 0 then Some (say ''No mm_struct provided.'' [] s)
      else map_option (\<lambda>s. if map_count (sh_mms s mm) = 0 then say ''No VMAs currently mapped.'' [] s else s)
        (dump_from (mmap (sh_mms s mm)) 0 (say ''MM has %d mappings:'' [map_count (sh_mms s mm)] s)))"

definition cmd_vma_destroy :: "shell_state \<Rightarrow> shell_state option" where
  "cmd_vma_destroy s =
     (if g_test_mm s \<noteq> 0
      then map_option (\<lambda>v. say ''Test VMA address space destroyed.'' [] ((put_vma v s)\<lparr>g_test_mm := 0\<rparr>))
             (mm_destroy (g_test_mm s) (as_vma s))
      else Some (say ''No test VMA address space active.'' [] s))"

section \<open>Commands on slabs\<close>

partial_function (option) find_cache_from :: "u32 \<Rightarrow> u32 \<Rightarrow> shell_state \<Rightarrow> u32 option" where
  "find_cache_from name pos s =
     (if pos \<noteq> kmem_caches s
      then let cache = pos - 48
           in Option.bind (strcmp (hmem s) (kc_name (caches s cache)) name) (\<lambda>d.
                if d = 0 then Some cache else find_cache_from name (lh_next (lnodes s pos)) s)
      else Some 0)"

definition find_cache_by_name :: "u32 \<Rightarrow> shell_state \<Rightarrow> u32 option" where
  "find_cache_by_name name s = find_cache_from name (lh_next (lnodes s (kmem_caches s))) s"

text \<open>A quoted name in a message.\<close>

abbreviation (input) quoted_name :: string where "quoted_name \<equiv> CHR 0x27 # ''%s'' @ [CHR 0x27]"

definition cmd_slab_create :: "shell_env \<Rightarrow> shell_state \<Rightarrow> shell_state option" where
  "cmd_slab_create E s =
     Option.bind (three_words E s) (\<lambda>(args, s). case args of
         None \<Rightarrow> Some (say ''Usage: slab_create <name> <size> <align>'' [] s)
       | Some (name, b, c) \<Rightarrow> Option.bind (atoi (hmem s) b) (\<lambda>sz. Option.bind (atoi (hmem s) c) (\<lambda>align.
           Option.bind (kmem_cache_create name sz align 0 0 s) (\<lambda>(cache, s).
             if cache \<noteq> 0 then say_str (''Created slab cache '' @ quoted_name @ '' (size=%u, align=%u)'') name [sz, align] s
             else say_str (''Failed to create slab cache '' @ quoted_name) name [] s))))"

text \<open>A command on the cache that its first argument names.\<close>

definition on_cache :: "u32 \<Rightarrow> (u32 \<Rightarrow> shell_state \<Rightarrow> shell_state option) \<Rightarrow> shell_state \<Rightarrow> shell_state option" where
  "on_cache name act s =
     Option.bind (find_cache_by_name name s) (\<lambda>cache.
       if cache \<noteq> 0 then act cache s else say_str (''Slab cache '' @ quoted_name @ '' not found'') name [] s)"

definition cmd_slab_destroy :: "shell_env \<Rightarrow> shell_state \<Rightarrow> shell_state option" where
  "cmd_slab_destroy E s =
     Option.bind (one_word E s) (\<lambda>(arg, s). case arg of None \<Rightarrow> Some (say ''Usage: slab_destroy <name>'' [] s)
       | Some name \<Rightarrow> on_cache name (\<lambda>cache s.
           Option.bind (kmem_cache_destroy cache s) (say_str (''Destroyed slab cache '' @ quoted_name) name [])) s)"

definition cmd_slab_alloc ::
    "(u32 \<Rightarrow> u32 \<Rightarrow> shell_state \<Rightarrow> shell_state) \<Rightarrow> shell_env \<Rightarrow> shell_state \<Rightarrow> shell_state option" where
  "cmd_slab_alloc call E s =
     Option.bind (one_word E s) (\<lambda>(arg, s). case arg of None \<Rightarrow> Some (say ''Usage: slab_alloc <name>'' [] s)
       | Some name \<Rightarrow> on_cache name (\<lambda>cache s. Option.bind (kmem_cache_alloc call cache s) (\<lambda>(obj, s).
           if obj \<noteq> 0 then say_str (''Allocated object from '' @ quoted_name @ '' at 0x%p'') name [obj] s
           else say_str (''Failed to allocate from '' @ quoted_name) name [] s)) s)"

definition cmd_slab_free :: "shell_env \<Rightarrow> shell_state \<Rightarrow> shell_state option" where
  "cmd_slab_free E s =
     Option.bind (two_words E s) (\<lambda>(args, s). case args of None \<Rightarrow> Some (say ''Usage: slab_free <name> <hex_ptr>'' [] s)
       | Some (name, b) \<Rightarrow> on_cache name (\<lambda>cache s. Option.bind (hex_to_u32 (hmem s) b) (\<lambda>obj.
           say_str (''Freed object in '' @ quoted_name @ '' at 0x%p'') name [obj] (kmem_cache_free cache obj s))) s)"

text \<open>The counting loops over the three lists of a cache.\<close>

definition slab_count :: "u32 \<Rightarrow> shell_state \<Rightarrow> u32 option" where
  "slab_count h s = map_option (\<lambda>xs. of_nat (length xs)) (list_for_each h (lnodes s))"

definition cmd_slab_info :: "shell_env \<Rightarrow> shell_state \<Rightarrow> shell_state option" where
  "cmd_slab_info E s =
     Option.bind (one_word E s) (\<lambda>(arg, s). case arg of None \<Rightarrow> Some (say ''Usage: slab_info <name>'' [] s)
       | Some name \<Rightarrow> on_cache name (\<lambda>cache s.
           Option.bind (slab_count (slabs_full cache) s) (\<lambda>full_slabs.
           Option.bind (slab_count (slabs_partial cache) s) (\<lambda>partial_slabs.
           Option.bind (slab_count (slabs_free cache) s) (\<lambda>free_slabs.
             map_option (say ''Slabs: full=%u, partial=%u, free=%u'' [full_slabs, partial_slabs, free_slabs])
               (say_str (''Slab cache '' @ quoted_name @ '': obj_size=%u, objs_per_slab=%u'') name
                  [object_size (caches s cache), objects_per_slab (caches s cache)] s))))) s)"

section \<open>Commands on the initial ramdisk\<close>

definition cmd_initrd_info :: "shell_state \<Rightarrow> shell_state" where
  "cmd_initrd_info s =
     (if sh_initrd_data s \<noteq> 0 \<and> sh_initrd_size s \<noteq> 0
      then say ''INITRD present: size=%u bytes at %p'' [sh_initrd_size s, sh_initrd_data s] s
      else say ''No initrd present'' [] s)"

definition cmd_initrd_ls :: "shell_env \<Rightarrow> shell_state \<Rightarrow> shell_state option" where
  "cmd_initrd_ls E s =
     (if sh_initrd_data s = 0 \<or> sh_initrd_size s = 0 then Some (say ''No initrd present'' [] s)
      else map_option (\<lambda>l. emit_out (Listing l) s) (tar_list (tar_locals E) (sh_initrd_data s) (sh_initrd_size s) (hmem s)))"

definition show_file :: "u32 \<Rightarrow> u32 \<Rightarrow> shell_state \<Rightarrow> shell_state" where
  "show_file ptr fsz s =
     (let to_print = (if fsz < 4096 then fsz else 4096);
          s = emit_out (Chars (map (\<lambda>i. hmem s (ptr + of_nat i)) [0..<unat to_print])) s
      in if fsz > to_print then say ''... (truncated %u/%u bytes)'' [to_print, fsz] s else s)"

definition cmd_initrd_cat :: "shell_env \<Rightarrow> shell_state \<Rightarrow> shell_state option" where
  "cmd_initrd_cat E s =
     Option.bind (one_word E s) (\<lambda>(arg, s). case arg of None \<Rightarrow> Some (say ''Usage: initrd_cat <path>'' [] s)
       | Some path \<Rightarrow>
           if sh_initrd_data s = 0 \<or> sh_initrd_size s = 0 then Some (say ''No initrd present'' [] s)
           else Option.bind (tar_find (tar_locals E) (sh_initrd_data s) (sh_initrd_size s) path (hmem s)) (\<lambda>r.
             case r of None \<Rightarrow> say_str ''File not found: %s'' path [] s
             | Some (ptr, fsz) \<Rightarrow> if ptr = 0 then say_str ''File not found: %s'' path [] s else Some (show_file ptr fsz s)))"

section \<open>The command loop\<close>

definition help_lines :: "string list" where
  "help_lines =
    [''Available commands:'',
     ''  help          - Display this help message'',
     ''  echo <text>   - Print the provided text'',
     ''  clear         - Clear the screen'',
     ''  heap_info     - Display heap total and free size'',
     ''  pmm_info      - Display physical memory total and free pages'',
     ''  alloc_page    - Allocate a physical page and print address'',
     ''  free_page <hex_addr> - Free a physical page at the given address'',
     ''  kmalloc <size> - Allocate heap memory of given size and print pointer'',
     ''  kfree <hex_ptr> - Free heap memory at the given pointer'',
     ''  vmm_map <virt_hex> <phys_hex> <flags> - Map virtual to physical address'',
     ''  vmm_unmap <virt_hex> - Unmap the virtual address'',
     ''  slab_create <name> <size> <align> - Create a slab cache'',
     ''  slab_destroy <name> - Destroy a slab cache'',
     ''  slab_alloc <name> - Allocate an object from the cache'',
     ''  slab_free <name> <hex_ptr> - Free an object back to the cache'',
     ''  slab_info <name> - Display cache statistics'',
     ''  vma_mmap <addr_hex> <len_decimal> <flags_decimal> - Map anonymous VMA'',
     ''  vma_munmap <addr_hex> <len_decimal> - Unmap VMA range'',
     ''  vma_info      - Display current VMAs in test address space'',
     ''  vma_destroy   - Destroy test VMA address space'',
     ''  initrd_info   - Show initrd presence and size'',
     ''  initrd_ls     - List files in initrd tar archive'',
     ''  initrd_cat <path> - Print a file from initrd'']"

definition cmd_help :: "shell_state \<Rightarrow> shell_state" where
  "cmd_help s = fold (\<lambda>l. say l []) help_lines s"

text \<open>\<^verbatim>\<open>strtok(NULL, "")\<close> gives the rest of the line.\<close>

definition cmd_echo :: "shell_env \<Rightarrow> shell_state \<Rightarrow> shell_state option" where
  "cmd_echo E s = Option.bind (token 0 (lit_empty E) s) (\<lambda>(arg, s). if arg \<noteq> 0 then say_str ''%s'' arg [] s else Some s)"

definition cmd_clear :: "shell_state \<Rightarrow> shell_state" where
  "cmd_clear s = s\<lparr>display := snd (vbe_clear_screen VBE_COLOR_BLACK (display s))\<rparr>"

text \<open>The branches of the command loop, in the order of the code.\<close>

definition commands ::
    "(u32 \<Rightarrow> u32 \<Rightarrow> shell_state \<Rightarrow> shell_state) \<Rightarrow> shell_env \<Rightarrow> (string \<times> (shell_state \<Rightarrow> shell_state option)) list" where
  "commands call E =
    [(''help'', Some \<circ> cmd_help),
     (''echo'', cmd_echo E),
     (''clear'', Some \<circ> cmd_clear),
     (''heap_info'', cmd_heap_info),
     (''pmm_info'', Some \<circ> cmd_pmm_info),
     (''alloc_page'', Some \<circ> cmd_alloc_page),
     (''free_page'', cmd_free_page E),
     (''kmalloc'', cmd_kmalloc E),
     (''kfree'', cmd_kfree E),
     (''vmm_map'', cmd_vmm_map E),
     (''vmm_unmap'', cmd_vmm_unmap E),
     (''vma_mmap'', cmd_vma_mmap E),
     (''vma_munmap'', cmd_vma_munmap E),
     (''vma_info'', \<lambda>s. dump_mmap (g_test_mm s) s),
     (''vma_destroy'', cmd_vma_destroy),
     (''slab_create'', cmd_slab_create E),
     (''slab_destroy'', cmd_slab_destroy E),
     (''slab_alloc'', cmd_slab_alloc call E),
     (''slab_free'', cmd_slab_free E),
     (''slab_info'', cmd_slab_info E),
     (''initrd_info'', Some \<circ> cmd_initrd_info),
     (''initrd_ls'', cmd_initrd_ls E),
     (''initrd_cat'', cmd_initrd_cat E)]"

text \<open>The chain of comparisons with the first word of the line, at \<open>p\<close>.\<close>

fun dispatch :: "(string \<times> (shell_state \<Rightarrow> shell_state option)) list \<Rightarrow> u32 \<Rightarrow> shell_state \<Rightarrow> shell_state option" where
  "dispatch [] p s = say_str ''Unknown command: %s'' p [] s"
| "dispatch ((w, cmd) # cs) p s = (if word_is p w s then cmd s else dispatch cs p s)"

definition shell_line :: "(u32 \<Rightarrow> u32 \<Rightarrow> shell_state \<Rightarrow> shell_state) \<Rightarrow> shell_env \<Rightarrow> shell_state \<Rightarrow> shell_state option" where
  "shell_line call E s =
     Option.bind (token (input E) (lit_space E) s) (\<lambda>(cmd, s).
       if cmd = 0 then Some s else dispatch (commands call E) cmd s)"

definition shell_iteration :: "(u32 \<Rightarrow> u32 \<Rightarrow> shell_state \<Rightarrow> shell_state) \<Rightarrow> shell_env \<Rightarrow> shell_state \<Rightarrow> shell_state option" where
  "shell_iteration call E s = Option.bind (readline (input E) 256 (say ''$ '' [] s)) (shell_line call E)"

fun shell_iterations ::
    "(u32 \<Rightarrow> u32 \<Rightarrow> shell_state \<Rightarrow> shell_state) \<Rightarrow> shell_env \<Rightarrow> nat \<Rightarrow> shell_state \<Rightarrow> shell_state option" where
  "shell_iterations call E 0 s = Some s"
| "shell_iterations call E (Suc n) s = Option.bind (shell_iteration call E s) (shell_iterations call E n)"

text \<open>The state after \<open>n\<close> lines; the loop has no end.\<close>

definition shell_start ::
    "(u32 \<Rightarrow> u32 \<Rightarrow> shell_state \<Rightarrow> shell_state) \<Rightarrow> shell_env \<Rightarrow> nat \<Rightarrow> shell_state \<Rightarrow> shell_state option" where
  "shell_start call E n s =
     (let s = say ''Type 'help' for commands'' [] (say ''Shell started'' [] s)
      in Option.bind (mm_create (as_vma s)) (\<lambda>(mm, v).
           let s = (put_vma v s)\<lparr>g_test_mm := mm\<rparr>
           in if mm = 0 then Some s else shell_iterations call E n s))"

section \<open>The line editor\<close>

text \<open>The characters that the keyboard will still deliver: those that wait, and those of the scan codes to come.\<close>

definition typed :: "u8 list \<Rightarrow> keyboard \<Rightarrow> u8 list" where
  "typed codes k = pending (fold spec_key codes (kb_abs k))"

lemma typed_waiting:
  assumes "kb_abs k = (kb_abs k0)\<lparr>pending := q\<rparr>" "pending (kb_abs k0) = c # q"
  shows "typed codes k0 = c # typed codes k"
proof -
  have "kb_abs k0 = (kb_abs k)\<lparr>pending := [c] @ pending (kb_abs k)\<rparr>" using assms by simp
  then show ?thesis using spec_keys_append [of codes "[c]" "kb_abs k"] by (simp add: typed_def)
qed

lemma ps2_get_char_typed:
  assumes "kb_wf k" "typed codes k = c # cs"
  shows "\<exists>codes' k'. ps2_get_char codes k = Some (c, codes', k') \<and> kb_wf k' \<and> typed codes' k' = cs"
  using assms
proof (induction codes arbitrary: k)
  case Nil
  have ne: "buffer_head k \<noteq> buffer_tail k" using kb_empty_iff [OF Nil.prems(1)] Nil.prems(2) by (auto simp: typed_def)
  obtain d q t where t: "ps2_get_char [] k = Some (d, [], t)" "kb_wf t" "pending (kb_abs k) = d # q" "kb_abs t = (kb_abs k)\<lparr>pending := q\<rparr>"
    by (rule ps2_read_refines [OF Nil.prems(1) ne])
  with t(1,2) show ?case using typed_waiting [where codes = "[]", OF t(4,3)] Nil.prems(2) by auto
next
  case (Cons x codes)
  show ?case
  proof (cases "buffer_head k = buffer_tail k")
    case True
    then have "kb_count k < 255" using kb_empty_iff [OF Cons.prems(1)] by (simp add: kb_abs_def)
    note r = key_event_refines [OF Cons.prems(1) this, of x]
    have "ps2_get_char (x # codes) k = ps2_get_char codes (key_event x k)" using True by (subst ps2_get_char.simps) simp
    then show ?thesis using Cons.IH [of "key_event x k"] r Cons.prems(2) by (simp add: typed_def)
  next
    case False
    obtain d q t where t: "ps2_get_char (x # codes) k = Some (d, x # codes, t)" "kb_wf t" "pending (kb_abs k) = d # q" "kb_abs t = (kb_abs k)\<lparr>pending := q\<rparr>"
      by (rule ps2_read_refines [OF Cons.prems(1) False])
    with t(1,2) show ?thesis using typed_waiting [where codes = "x # codes", OF t(4,3)] Cons.prems(2) by auto
  qed
qed

text \<open>
  What a line editor does with a sequence of characters: a line end finishes the line, a backspace drops the last character,
  a printable character is appended, and a full line of \<open>n\<close> characters is finished at once. The result is the line and the
  characters that were not consumed.
\<close>

fun line_edit :: "nat \<Rightarrow> u8 list \<Rightarrow> u8 list \<Rightarrow> (u8 list \<times> u8 list) option" where
  "line_edit n l [] = (if length l < n then None else Some (l, []))"
| "line_edit n l (c # cs) =
     (if \<not> length l < n then Some (l, c # cs)
      else if c = 0x0A \<or> c = 0x0D then Some (l, cs)
      else if c = 0x08 then line_edit n (butlast l) cs
      else if 0x20 \<le> c \<and> c \<le> 0x7E then line_edit n (l @ [c]) cs
      else line_edit n l cs)"

definition printable :: "u8 \<Rightarrow> bool" where
  "printable c \<longleftrightarrow> 0x20 \<le> c \<and> c \<le> 0x7E"

lemma sint_printable: "sint c \<ge> 0x20 \<and> sint c \<le> 0x7E \<longleftrightarrow> printable c" for c :: u8
proof -
  have b: "0 \<le> uint c" "uint c < 256" using uint_lt2p [of c] by simp_all
  have "sint c = (uint c + 128) mod 256 - 128" by (simp add: sint_uint signed_take_bit_eq_take_bit_shift take_bit_eq_mod)
  moreover have "(uint c + 128) mod 256 = (if uint c < 128 then uint c + 128 else uint c - 128)"
    using b mod_pos_pos_trivial [of "uint c - 128" 256] mod_pos_pos_trivial [of "uint c + 128" 256] mod_add_self2 [of "uint c - 128" 256]
    by (cases "uint c < 128") (simp_all add: add.commute)
  ultimately show ?thesis using b by (auto simp: printable_def word_le_def)
qed

text \<open>The buffer holds the characters \<open>l\<close>, without a terminator.\<close>

definition buffered :: "memory \<Rightarrow> u32 \<Rightarrow> u8 list \<Rightarrow> bool" where
  "buffered m p l \<longleftrightarrow> (\<forall>i < length l. m (p + of_nat i) = l ! i)"

lemma buffered_cstr: "buffered m p l \<Longrightarrow> m (p + of_nat (length l)) = 0 \<Longrightarrow> 0 \<notin> set l \<Longrightarrow> cstr m p l"
proof (induction l arbitrary: p)
  case Nil
  then show ?case by simp
next
  case (Cons c l)
  have "buffered m (p + 1) l" using Cons.prems(1) unfolding buffered_def by (metis Suc_less_eq ab_semigroup_add_class.add_ac(1) length_Cons nth_Cons_Suc of_nat_Suc)
  moreover have "m p = c" using Cons.prems(1) by (auto simp: buffered_def)
  ultimately show ?case using Cons.IH [of "p + 1"] Cons.prems(2,3) by (simp add: add.assoc)
qed

lemma offset_eq_iff:
  assumes "i < 2 ^ 32" "j < 2 ^ 32"
  shows "(p :: u32) + of_nat i = p + of_nat j \<longleftrightarrow> i = j"
  using assms by (metis add_left_cancel unat_of_nat_u32)

lemma offset_less:
  fixes p n :: u32
  assumes "i < unat n" shows "(p + of_nat i) - p < n"
proof -
  have "i < 2 ^ 32" using less_trans [OF assms unat_lt(3)] by simp
  then show ?thesis using assms by (simp add: word_less_nat_alt unat_of_nat_u32)
qed

text \<open>What reading a line keeps: everything but the buffer, the keyboard and the output.\<close>

definition only_reads :: "u32 \<Rightarrow> u32 \<Rightarrow> shell_state \<Rightarrow> shell_state \<Rightarrow> bool" where
  "only_reads buf n s s' \<longleftrightarrow> (\<exists>m ks k out. s' = s\<lparr>hmem := m, keys := ks, kbd := k, printed := out\<rparr> \<and>
     (\<forall>x. \<not> x - buf < n \<longrightarrow> m x = hmem s x))"

lemma only_reads_trans: "only_reads buf n s t \<Longrightarrow> only_reads buf n t u \<Longrightarrow> only_reads buf n s u"
  unfolding only_reads_def by (elim exE conjE) (simp, blast)

lemma only_readsI: "s' = s\<lparr>hmem := m, keys := ks, kbd := k, printed := out\<rparr> \<Longrightarrow> (\<And>x. \<not> x - buf < n \<Longrightarrow> m x = hmem s x) \<Longrightarrow> only_reads buf n s s'"
  unfolding only_reads_def by blast

lemma only_reads_refl: "only_reads buf n s s"
  by (rule only_readsI [where m = "hmem s" and ks = "keys s" and k = "kbd s" and out = "printed s"]) simp_all

lemma only_reads_write: "x - buf < n \<Longrightarrow> only_reads buf n s (s\<lparr>hmem := (hmem s)(x := c)\<rparr>)"
  by (rule only_readsI [where m = "(hmem s)(x := c)" and ks = "keys s" and k = "kbd s" and out = "printed s"]) auto

lemma only_reads_emit: "only_reads buf n s (emit_out x s)"
  by (rule only_readsI [where m = "hmem s" and ks = "keys s" and k = "kbd s" and out = "printed s @ [x]"]) (simp_all add: emit_out_def)

lemma only_reads_key: "only_reads buf n s (s\<lparr>keys := ks, kbd := k\<rparr>)"
  by (rule only_readsI [where m = "hmem s" and ks = ks and k = k and out = "printed s"]) simp_all

text \<open>The two writes of the loop: the terminator at the end, and one more character.\<close>

lemma terminate_line:
  fixes s :: shell_state
  assumes "length l < unat n" "buffered (hmem s) buf l" "\<forall>c \<in> set l. printable c"
  shows "cstr ((hmem s)(buf + of_nat (length l) := 0)) buf l" "only_reads buf n s (s\<lparr>hmem := (hmem s)(buf + of_nat (length l) := 0)\<rparr>)"
proof -
  have lt: "length l < 2 ^ 32" using less_trans [OF assms(1) unat_lt(3)] by simp
  then have "buffered ((hmem s)(buf + of_nat (length l) := 0)) buf l" using assms(2) offset_eq_iff [of _ "length l" buf] by (simp add: buffered_def)
  moreover have "0 \<notin> set l" using assms(3) by (auto simp: printable_def)
  ultimately show "cstr ((hmem s)(buf + of_nat (length l) := 0)) buf l" by (intro buffered_cstr) simp_all
  show "only_reads buf n s (s\<lparr>hmem := (hmem s)(buf + of_nat (length l) := 0)\<rparr>)" by (rule only_reads_write [OF offset_less [OF assms(1)]])
qed

lemma extend_line:
  fixes n :: u32
  assumes "length l < unat n" "buffered m buf l"
  shows "buffered (m(buf + of_nat (length l) := c)) buf (l @ [c])"
proof -
  have "length l < 2 ^ 32" using less_trans [OF assms(1) unat_lt(3)] by simp
  then show ?thesis using assms(2) offset_eq_iff [of _ "length l" buf] by (auto simp: buffered_def nth_append less_Suc_eq)
qed

lemma emit_out_simps [simp]:
  "hmem (emit_out x s) = hmem s" "keys (emit_out x s) = keys s" "kbd (emit_out x s) = kbd s"
  by (simp_all add: emit_out_def)

text \<open>The loop, unfolded: it stops on a full line, and otherwise handles one character.\<close>

lemma index_less_iff:
  fixes n :: u32
  assumes "n \<noteq> 0" "length l \<le> unat n - 1"
  shows "of_nat (length l) < n - 1 \<longleftrightarrow> length l < unat n - 1"
proof -
  have "length l < unat n" using assms by (simp add: unat_gt_0 [symmetric])
  then have "length l < 2 ^ 32" using less_trans [OF _ unat_lt(3)] by simp
  then show ?thesis using assms(1) by (simp add: word_less_nat_alt unat_of_nat_u32 unat_minus_one)
qed

text \<open>\<open>reads_line buf n i s line cs\<close>: the loop returns with the string \<open>line\<close> in the buffer and \<open>cs\<close> still to be delivered.\<close>

definition reads_line :: "u32 \<Rightarrow> u32 \<Rightarrow> u32 \<Rightarrow> shell_state \<Rightarrow> u8 list \<Rightarrow> u8 list \<Rightarrow> bool" where
  "reads_line buf n i s line cs \<longleftrightarrow> (\<exists>s'. readline_from buf n i s = Some s' \<and> only_reads buf n s s' \<and> cstr (hmem s') buf line \<and>
     length line < unat n \<and> (\<forall>c \<in> set line. printable c) \<and> kb_wf (kbd s') \<and> typed (keys s') (kbd s') = cs)"

lemma readline_full:
  fixes s :: shell_state
  assumes "n \<noteq> 0" "length l = unat n - 1" "buffered (hmem s) buf l" "\<forall>c \<in> set l. printable c" "kb_wf (kbd s)"
  shows "reads_line buf n (of_nat (length l)) s l (typed (keys s) (kbd s))"
proof -
  let ?s = "s\<lparr>hmem := (hmem s)(buf + of_nat (length l) := 0)\<rparr>"
  have lt: "length l < unat n" using assms(1,2) by (simp add: unat_gt_0 [symmetric])
  have "readline_from buf n (of_nat (length l)) s = Some ?s"
    using index_less_iff [OF assms(1), of l] assms(2) by (subst readline_from.simps) simp
  then show ?thesis unfolding reads_line_def using terminate_line [OF lt assms(3,4)] lt assms(4,5)
    by (intro exI [of _ ?s]) simp
qed

lemma reads_line_step:
  assumes "readline_from buf n i s = readline_from buf n j t" "only_reads buf n s t" "reads_line buf n j t line cs"
  shows "reads_line buf n i s line cs"
  using assms only_reads_trans [OF assms(2)] unfolding reads_line_def by metis

lemma readline_step:
  fixes s :: shell_state
  assumes "n \<noteq> 0" "length l < unat n - 1" and get: "ps2_get_char (keys s) (kbd s) = Some (c, ks, k)"
  defines "t \<equiv> s\<lparr>keys := ks, kbd := k\<rparr>"
  shows "readline_from buf n (of_nat (length l)) s =
    (if c = 0x0A \<or> c = 0x0D then Some (emit_out Newline (t\<lparr>hmem := (hmem s)(buf + of_nat (length l) := 0)\<rparr>))
     else if c = 0x08 then readline_from buf n (of_nat (length (butlast l))) (if l = [] then t else emit_out Erase t)
     else if printable c then readline_from buf n (of_nat (length (l @ [c])))
       (emit_out (Echo c) (t\<lparr>hmem := (hmem s)(buf + of_nat (length l) := c)\<rparr>))
     else readline_from buf n (of_nat (length l)) t)"
proof -
  have "length l < 2 ^ 32" using less_trans [OF less_le_trans [OF assms(2) diff_le_self] unat_lt(3)] by simp
  then have "(of_nat (length l) :: u32) > 0 \<longleftrightarrow> l \<noteq> []" by (auto simp: word_less_nat_alt unat_of_nat_u32)
  moreover have "(of_nat (length l) :: u32) - 1 = of_nat (length (butlast l))" if "l \<noteq> []" using that by (cases l rule: rev_cases) simp_all
  moreover have "of_nat (length l) < n - 1" using index_less_iff [OF assms(1), of l] assms(2) by simp
  ultimately show ?thesis using get by (subst readline_from.simps) (simp add: t_def sint_printable add.commute)
qed

lemma readline_from_edits:
  fixes s :: shell_state
  assumes "kb_wf (kbd s)" and "typed (keys s) (kbd s) = cs" "line_edit (unat n - 1) l cs = Some (line, cs')" and "n \<noteq> 0"
    and "length l \<le> unat n - 1" "buffered (hmem s) buf l" "\<forall>c \<in> set l. printable c"
  shows "reads_line buf n (of_nat (length l)) s line cs'"
  using assms
proof (induction cs arbitrary: l s)
  case (Nil l s)
  then have full: "length l = unat n - 1" "line = l" "cs' = []" by (simp_all split: if_splits)
  show ?case using readline_full [OF \<open>n \<noteq> 0\<close> full(1) Nil.prems(6,7,1)] Nil.prems(2) full(2,3) by simp
next
  case (Cons c cs l s)
  show ?case
  proof (cases "length l < unat n - 1")
    case False
    with Cons.prems(3,5) have full: "length l = unat n - 1" "line = l" "cs' = c # cs" by simp_all
    show ?thesis using readline_full [OF \<open>n \<noteq> 0\<close> full(1) Cons.prems(6,7,1)] Cons.prems(2) full(2,3) by simp
  next
    case True
    then have lt: "length l < unat n" by simp
    obtain ks k where k: "ps2_get_char (keys s) (kbd s) = Some (c, ks, k)" "kb_wf k" "typed ks k = cs"
      using ps2_get_char_typed [OF Cons.prems(1,2)] by blast
    let ?t = "s\<lparr>keys := ks, kbd := k\<rparr>"
    note step = readline_step [where buf = buf, OF \<open>n \<noteq> 0\<close> True k(1)]
    note key = only_reads_key [where ks = ks and k = k and s = s and buf = buf and n = n]
    note wr = only_reads_trans [OF key only_reads_write [OF offset_less [OF lt]]]
    consider (eol) "c = 0x0A \<or> c = 0x0D" | (erase) "c = 0x08" | (char) "printable c" "c \<noteq> 0x0A" "c \<noteq> 0x0D" "c \<noteq> 0x08"
      | (skip) "\<not> printable c" "c \<noteq> 0x0A" "c \<noteq> 0x0D" "c \<noteq> 0x08" by blast
    then show ?thesis
    proof cases
      case eol
      then have "line = l" "cs' = cs" using Cons.prems(3) True by auto
      then show ?thesis unfolding reads_line_def using step eol k(2,3) terminate_line [OF lt Cons.prems(6,7)] lt Cons.prems(7)
          only_reads_trans [OF wr only_reads_emit] by simp
    next
      case erase
      let ?u = "if l = [] then ?t else emit_out Erase ?t"
      have "only_reads buf n s ?u" using key only_reads_trans [OF key only_reads_emit] by simp
      moreover have "reads_line buf n (of_nat (length (butlast l))) ?u line cs'"
        using k Cons.prems(3-7) True erase by (intro Cons.IH) (auto simp: buffered_def nth_butlast dest: in_set_butlastD)
      ultimately show ?thesis using reads_line_step step erase by simp
    next
      case char
      let ?u = "emit_out (Echo c) (?t\<lparr>hmem := (hmem s)(buf + of_nat (length l) := c)\<rparr>)"
      have "only_reads buf n s ?u" using only_reads_trans [OF wr only_reads_emit] by simp
      moreover have "reads_line buf n (of_nat (length (l @ [c]))) ?u line cs'"
        using k Cons.prems(3-7) True char extend_line [OF lt Cons.prems(6)] by (intro Cons.IH) (auto simp: printable_def fun_upd_def)
      ultimately show ?thesis using reads_line_step step char by simp
    next
      case skip
      have "reads_line buf n (of_nat (length l)) ?t line cs'"
        using k Cons.prems(3-7) True skip by (intro Cons.IH) (auto simp: printable_def)
      then show ?thesis using reads_line_step [OF _ key] step skip by simp
    qed
  qed
qed

text \<open>Property C16. The line editor of the shell: given a well-formed keyboard and a buffer of \<open>n > 0\<close> bytes, when the characters the
  keyboard delivers complete a line, \<^verbatim>\<open>readline\<close> returns; the buffer then holds that line, the edited one, as a string that
  fits with its terminator, exactly the characters of the line were consumed, and nothing but the buffer, the keyboard and the
  output has changed.
\<close>

theorem readline_edits:
  fixes s :: shell_state
  assumes "kb_wf (kbd s)" "n \<noteq> 0" and "line_edit (unat n - 1) [] (typed (keys s) (kbd s)) = Some (line, cs)"
  shows "\<exists>s'. readline buf n s = Some s' \<and> cstr (hmem s') buf line \<and> length line < unat n \<and> (\<forall>c \<in> set line. printable c) \<and>
    kb_wf (kbd s') \<and> typed (keys s') (kbd s') = cs \<and> (\<exists>m ks k out. s' = s\<lparr>hmem := m, keys := ks, kbd := k, printed := out\<rparr>) \<and>
    (\<forall>x. \<not> x - buf < n \<longrightarrow> hmem s' x = hmem s x)"
proof -
  have "reads_line buf n (of_nat (length ([] :: u8 list))) s line cs"
    by (rule readline_from_edits [OF assms(1) refl assms(3,2)]) (simp_all add: buffered_def)
  then obtain s' where s': "readline_from buf n 0 s = Some s'" "only_reads buf n s s'" "cstr (hmem s') buf line"
    "length line < unat n" "\<forall>c \<in> set line. printable c" "kb_wf (kbd s')" "typed (keys s') (kbd s') = cs"
    unfolding reads_line_def by auto
  have "(\<exists>m ks k out. s' = s\<lparr>hmem := m, keys := ks, kbd := k, printed := out\<rparr>)" "\<forall>x. \<not> x - buf < n \<longrightarrow> hmem s' x = hmem s x"
    using s'(2) by (auto simp: only_reads_def)
  with s' show ?thesis unfolding readline_def by blast
qed

section \<open>Words\<close>

lemma strchr_space:
  assumes "cstr m d [0x20]" "d \<noteq> 0" "c \<noteq> 0"
  shows "strchr m d c = Some (if c = 0x20 then d else 0)"
  using strchr_from_eq [OF assms(1,3)] assms(2) by (simp add: strchr_def)

lemma skip_spaces_run:
  assumes "cstr m d [0x20]" "d \<noteq> 0" "cstr m p (replicate k 0x20 @ xs)" "xs = [] \<or> hd xs \<noteq> 0x20"
  shows "skip_while True m d p = Some (p + of_nat k)"
  using assms(3)
proof (induction k arbitrary: p)
  case 0
  have "m p \<noteq> 0 \<longrightarrow> m p \<noteq> 0x20" using 0 assms(4) by (cases xs) auto
  then show ?case using strchr_space [OF assms(1,2), of "m p"] by (subst skip_while.simps) simp
next
  case (Suc k)
  then have "m p = 0x20" "cstr m (p + 1) (replicate k 0x20 @ xs)" by simp_all
  then show ?case using Suc.IH [of "p + 1"] strchr_space [OF assms(1,2), of "0x20"] assms(2)
    by (subst skip_while.simps) (simp add: add.assoc)
qed

lemma skip_word:
  assumes "cstr m d [0x20]" "d \<noteq> 0" "cstr m p (w @ r)" "0x20 \<notin> set w" "r = [] \<or> hd r = 0x20"
  shows "skip_while False m d p = Some (p + of_nat (length w))"
  using assms(3,4)
proof (induction w arbitrary: p)
  case Nil
  have "m p \<noteq> 0 \<longrightarrow> m p = 0x20" using Nil assms(5) by (cases r) auto
  then show ?case using strchr_space [OF assms(1,2), of "m p"] assms(2) by (subst skip_while.simps) auto
next
  case (Cons c w)
  then have "m p = c" "c \<noteq> 0" "c \<noteq> 0x20" "cstr m (p + 1) (w @ r)" by auto
  then show ?case using Cons.IH [of "p + 1"] Cons.prems(2) strchr_space [OF assms(1,2), of c]
    by (subst skip_while.simps) (simp add: add.assoc)
qed

text \<open>One call of \<^verbatim>\<open>strtok\<close> with the delimiter \<^verbatim>\<open>" "\<close> on a string that holds another word.\<close>

lemma strtok_word:
  assumes d: "cstr m d [0x20]" "d \<noteq> 0" and p: "(if str \<noteq> 0 then str else saved) = p" "p \<noteq> 0"
    and s: "cstr m p (replicate k 0x20 @ w @ r)" and w: "w \<noteq> []" "0x20 \<notin> set w" and r: "r = [] \<or> hd r = 0x20"
  defines "e \<equiv> p + of_nat k + of_nat (length w)"
  shows "strtok str d saved m = Some (p + of_nat k, if r = [] then 0 else e + 1, if r = [] then m else m(e := 0))"
proof -
  have at: "cstr m (p + of_nat k) (w @ r)" using s by (simp add: cstr_append)
  then have start: "m (p + of_nat k) \<noteq> 0" using w(1) by (cases w) auto
  have "m p \<noteq> 0" using s start by (cases k) auto
  moreover have "hd (w @ r) \<noteq> 0x20" using w by (cases w) auto
  moreover have "skip_while True m d p = Some (p + of_nat k)" using skip_spaces_run [OF d s] \<open>hd (w @ r) \<noteq> 0x20\<close> by simp
  moreover have "skip_while False m d (p + of_nat k) = Some e" unfolding e_def by (rule skip_word [OF d at w(2) r])
  moreover have "m e = 0 \<longleftrightarrow> r = []" using at unfolding e_def cstr_append by (cases r) auto
  ultimately show ?thesis using p start by (simp add: strtok_def Let_def)
qed

text \<open>The memory it leaves: the word alone, and what follows it.\<close>

lemma cut_word:
  assumes "cstr m p (w @ c # r)" "length (w @ c # r) < 2 ^ 32"
  shows "cstr (m(p + of_nat (length w) := 0)) p w" "cstr (m(p + of_nat (length w) := 0)) (p + of_nat (length w) + 1) r"
proof -
  have s: "cstr m p (w @ [c] @ r)" using assms(1) by simp
  have ne: "p + of_nat i \<noteq> p + of_nat (length w)" if "i \<noteq> length w" "i \<le> length (w @ c # r)" for i
    using offset_eq_iff [of i "length w" p] that assms(2) by simp
  have "cstr (m(p + of_nat (length w) := 0)) p (w @ []) \<longleftrightarrow> cstr (m(p + of_nat (length w) := 0)) p w" by simp
  moreover have "\<forall>i < length w. m (p + of_nat i) = w ! i \<and> w ! i \<noteq> 0" using assms(1) unfolding cstr_append by blast
  ultimately show "cstr (m(p + of_nat (length w) := 0)) p w" unfolding cstr_append using ne by auto
  have "cstr m (p + of_nat (length w) + 1) r" using assms(1) unfolding cstr_append by simp
  moreover have "p + of_nat (length w) + 1 + of_nat i = p + of_nat (length w + 1 + i)" for i by (simp add: algebra_simps)
  ultimately show "cstr (m(p + of_nat (length w) := 0)) (p + of_nat (length w) + 1) r"
    using ne [of "length w + 1 + i" for i] by (subst cstr_cong [where m = m]) auto
qed

section \<open>Command names\<close>

lemma inj_of_char_u8: "(of_char a :: u8) = of_char b \<longleftrightarrow> a = b"
proof
  assume "(of_char a :: u8) = of_char b"
  then have "(of_nat (of_char a) :: u8) = of_nat (of_char b)" by (simp only: of_nat_of_char)
  then have "unat (of_nat (of_char a) :: u8) = unat (of_nat (of_char b) :: u8)" by simp
  then have "(of_char a :: nat) = of_char b" by (simp add: unat_of_nat)
  then show "a = b" by simp
qed simp

lemma of_char_nonzero: "(of_char a :: u8) = 0 \<longleftrightarrow> a = CHR 0x00"
  using inj_of_char_u8 [of a "CHR 0x00"] by simp

lemma bytes_at_cstr: "cstr m p w \<Longrightarrow> 0 \<notin> set cs \<Longrightarrow> bytes_at m p (cs @ [0]) \<longleftrightarrow> cs = w"
proof (induction cs arbitrary: p w)
  case Nil
  then show ?case by (cases w) auto
next
  case (Cons c cs)
  then show ?case by (cases w) auto
qed

text \<open>\<open>word_is\<close> is a comparison by \<^verbatim>\<open>strcmp\<close> with the literal.\<close>

lemma word_is_strcmp:
  assumes "cstr (hmem s) p w" "p \<noteq> 0" "cstr (hmem s) q (map of_char n)" "q \<noteq> 0" "CHR 0x00 \<notin> set n"
  shows "word_is p n s \<longleftrightarrow> strcmp (hmem s) p q = Some 0"
proof -
  have "0 \<notin> set (map of_char n :: u8 list)" using assms(5) by (auto simp: of_char_nonzero)
  then have "word_is p n s \<longleftrightarrow> map of_char n = w" unfolding word_is_def by (rule bytes_at_cstr [OF assms(1)])
  moreover obtain d where "strcmp_from (hmem s) p q = Some d" "d = 0 \<longleftrightarrow> w = map of_char n" using strcmp_from_eq [OF assms(1,3)] by blast
  ultimately show ?thesis using assms(2,4) by (auto simp: strcmp_def)
qed

lemma word_is_name:
  assumes "cstr (hmem s) p (map of_char w)" "CHR 0x00 \<notin> set n"
  shows "word_is p n s \<longleftrightarrow> n = w"
proof -
  have "0 \<notin> set (map of_char n :: u8 list)" using assms(2) by (auto simp: of_char_nonzero)
  then have "word_is p n s \<longleftrightarrow> map of_char n = (map of_char w :: u8 list)" unfolding word_is_def by (rule bytes_at_cstr [OF assms(1)])
  then show ?thesis by (simp add: inj_map_eq_map inj_def inj_of_char_u8)
qed

lemma dispatch_map_of:
  assumes "cstr (hmem s) p (map of_char w)" "\<forall>n \<in> fst ` set cs. CHR 0x00 \<notin> set n"
  shows "dispatch cs p s = (case map_of cs w of Some cmd \<Rightarrow> cmd s | None \<Rightarrow> say_str ''Unknown command: %s'' p [] s)"
  using assms(2)
proof (induction cs)
  case (Cons x cs)
  obtain n cmd where x: "x = (n, cmd)" by fastforce
  then show ?case using Cons word_is_name [OF assms(1), of n] by auto
qed simp

lemma command_names: "\<forall>n \<in> fst ` set (commands call E). CHR 0x00 \<notin> set n"
  by (simp add: commands_def)

section \<open>From keys to commands\<close>

text \<open>The literal \<^verbatim>\<open>" "\<close> and the input array are where the compiler put them: apart, and not at address 0.\<close>

definition env_ok :: "shell_env \<Rightarrow> memory \<Rightarrow> bool" where
  "env_ok E m \<longleftrightarrow> cstr m (lit_space E) [0x20] \<and> lit_space E \<noteq> 0 \<and> input E \<noteq> 0 \<and> unat (input E) + 256 \<le> 2 ^ 32 \<and>
     \<not> lit_space E - input E < 256 \<and> \<not> lit_space E + 1 - input E < 256"

lemma env_ok_cong:
  "env_ok E m \<Longrightarrow> (\<And>x. \<not> x - input E < 256 \<Longrightarrow> m' x = m x) \<Longrightarrow> env_ok E m'"
  by (simp add: env_ok_def)

lemma input_offset:
  assumes "env_ok E m" "i < 256"
  shows "input E + of_nat i \<noteq> 0" "input E + of_nat i - input E < 256"
proof -
  have i: "unat (of_nat i :: u32) = i" using assms(2) by (simp add: unat_of_nat_u32)
  have "unat (input E + of_nat i) = unat (input E) + i" using assms by (subst unat_add_small) (simp_all add: i env_ok_def)
  moreover have "0 < unat (input E)" using assms(1) by (simp add: env_ok_def unat_gt_0)
  ultimately show "input E + of_nat i \<noteq> 0" by auto
  show "input E + of_nat i - input E < 256" using i assms(2) by (simp add: word_less_nat_alt)
qed

text \<open>Cutting the first word off the line in the input array.\<close>

lemma shell_line_word:
  fixes s :: shell_state
  assumes E: "env_ok E (hmem s)" and line: "cstr (hmem s) (input E) (replicate k 0x20 @ map of_char w @ args)"
    and len: "length (replicate k 0x20 @ map of_char w @ args) < 256" and w: "w \<noteq> []" "CHR '' '' \<notin> set w" and args: "args = [] \<or> hd args = 0x20"
  defines "p \<equiv> input E + of_nat k" and "e \<equiv> input E + of_nat (k + length w)"
  defines "t \<equiv> s\<lparr>strtok_last := if args = [] then 0 else e + 1, hmem := if args = [] then hmem s else (hmem s)(e := 0)\<rparr>"
  shows "shell_line call E s = (case map_of (commands call E) w of Some cmd \<Rightarrow> cmd t | None \<Rightarrow> say_str ''Unknown command: %s'' p [] t)"
    "cstr (hmem t) p (map of_char w)" "args \<noteq> [] \<Longrightarrow> cstr (hmem t) (e + 1) (tl args)" "\<And>x. \<not> x - input E < 256 \<Longrightarrow> hmem t x = hmem s x"
proof -
  have E': "cstr (hmem s) (lit_space E) [0x20]" "lit_space E \<noteq> 0" "input E \<noteq> 0" using E by (simp_all add: env_ok_def)
  have e: "e = input E + of_nat k + of_nat (length (map of_char w :: u8 list))" by (simp add: e_def add.assoc)
  have "(0x20 :: u8) = of_char (CHR '' '')" by simp
  then have sp: "0x20 \<notin> set (map of_char w :: u8 list)" using w(2) by (auto simp: inj_of_char_u8 simp del: of_char_Char)
  have "strtok (input E) (lit_space E) (strtok_last s) (hmem s) = Some (p, strtok_last t, hmem t)"
    using strtok_word [OF E'(1,2) _ E'(3) line _ sp args] w(1) E'(3) unfolding p_def t_def e by simp
  then have tok: "token (input E) (lit_space E) s = Some (p, t)" by (simp add: token_def t_def)
  have at: "cstr (hmem s) p (map of_char w @ args)" using line unfolding p_def cstr_append by simp
  have "cstr (hmem t) p (map of_char w) \<and> (args \<noteq> [] \<longrightarrow> cstr (hmem t) (e + 1) (tl args))"
  proof (cases args)
    case Nil
    then show ?thesis using at by (simp add: t_def)
  next
    case (Cons c r)
    with at len cut_word [of "hmem s" p "map of_char w" c r] show ?thesis unfolding t_def p_def e by simp
  qed
  then show cs: "cstr (hmem t) p (map of_char w)" "args \<noteq> [] \<Longrightarrow> cstr (hmem t) (e + 1) (tl args)" by blast+
  have "p \<noteq> 0" unfolding p_def using input_offset(1) [OF E, of k] len by simp
  then show "shell_line call E s = (case map_of (commands call E) w of Some cmd \<Rightarrow> cmd t | None \<Rightarrow> say_str ''Unknown command: %s'' p [] t)"
    unfolding shell_line_def tok using dispatch_map_of [OF cs(1) command_names] by simp
  have "e - input E < 256" unfolding e_def using input_offset(2) [OF E, of "k + length w"] len by simp
  then show "\<And>x. \<not> x - input E < 256 \<Longrightarrow> hmem t x = hmem s x" by (auto simp: t_def)
qed

lemma shell_reads:
  fixes s :: shell_state
  assumes "kb_wf (kbd s)" "env_ok E (hmem s)" "line_edit 255 [] (typed (keys s) (kbd s)) = Some (line, cs)"
  obtains u where "readline (input E) 256 (say ''$ '' [] s) = Some u" "only_reads (input E) 256 s u" "cstr (hmem u) (input E) line"
    "length line < 256" "kb_wf (kbd u)" "typed (keys u) (kbd u) = cs" "env_ok E (hmem u)"
proof -
  have r: "reads_line (input E) 256 (of_nat (length ([] :: u8 list))) (say ''$ '' [] s) line cs"
    by (rule readline_from_edits [OF _ refl]) (use assms in \<open>simp_all add: buffered_def\<close>)
  then obtain u where u: "readline_from (input E) 256 0 (say ''$ '' [] s) = Some u" "only_reads (input E) 256 (say ''$ '' [] s) u"
    "cstr (hmem u) (input E) line" "length line < 256" "kb_wf (kbd u)" "typed (keys u) (kbd u) = cs"
    unfolding reads_line_def by auto
  have only: "only_reads (input E) 256 s u" by (rule only_reads_trans [OF only_reads_emit u(2)])
  moreover from only have "env_ok E (hmem u)" by (intro env_ok_cong [OF assms(2)]) (auto simp: only_reads_def)
  ultimately show thesis using that u by (simp add: readline_def)
qed

text \<open>One round of the shell on a line that holds a word: the state \<open>t\<close> in which the command starts.\<close>

definition starts_command :: "shell_env \<Rightarrow> u8 list \<Rightarrow> nat \<Rightarrow> u8 list \<Rightarrow> shell_state \<Rightarrow> shell_state \<Rightarrow> bool" where
  "starts_command E args n cs s t \<longleftrightarrow>
     (if args = [] then strtok_last t = 0 else strtok_last t = input E + of_nat (n + 1) \<and> cstr (hmem t) (strtok_last t) (tl args)) \<and>
     kb_wf (kbd t) \<and> typed (keys t) (kbd t) = cs \<and> env_ok E (hmem t) \<and>
     (\<exists>m ks kb out l. t = s\<lparr>hmem := m, keys := ks, kbd := kb, printed := out, strtok_last := l\<rparr>) \<and>
     (\<forall>x. \<not> x - input E < 256 \<longrightarrow> hmem t x = hmem s x)"

lemma shell_round:
  fixes s :: shell_state
  assumes "kb_wf (kbd s)" "env_ok E (hmem s)"
    and "line_edit 255 [] (typed (keys s) (kbd s)) = Some (replicate k 0x20 @ map of_char w @ args, cs)"
    and "w \<noteq> []" "CHR '' '' \<notin> set w" "args = [] \<or> hd args = 0x20"
  shows "\<exists>t. shell_iteration call E s = (case map_of (commands call E) w of Some cmd \<Rightarrow> cmd t
        | None \<Rightarrow> Some (emit_out (Named ''Unknown command: %s'' (map of_char w) []) t)) \<and>
      starts_command E args (k + length w) cs s t \<and> length (replicate k 0x20 @ map of_char w @ args) < 256"
proof -
  obtain u where u: "readline (input E) 256 (say ''$ '' [] s) = Some u" "only_reads (input E) 256 s u"
    "cstr (hmem u) (input E) (replicate k 0x20 @ map of_char w @ args)" "length (replicate k 0x20 @ map of_char w @ args) < 256"
    "kb_wf (kbd u)" "typed (keys u) (kbd u) = cs" "env_ok E (hmem u)"
    by (rule shell_reads [OF assms(1-3)])
  define e where "e = input E + of_nat (k + length w)"
  define t where "t = u\<lparr>strtok_last := if args = [] then 0 else e + 1, hmem := if args = [] then hmem u else (hmem u)(e := 0)\<rparr>"
  note line = shell_line_word [OF u(7,3,4) assms(4-6), folded e_def, folded t_def]
  have p: "input E + of_nat k \<noteq> 0" by (rule input_offset(1) [OF u(7)]) (use u(4) in simp)
  have mem: "hmem t x = hmem s x" if "\<not> x - input E < 256" for x using line(4) [OF that] u(2) that by (auto simp: only_reads_def)
  obtain m ks kb out where "u = s\<lparr>hmem := m, keys := ks, kbd := kb, printed := out\<rparr>" using u(2) by (auto simp: only_reads_def)
  then have "t = s\<lparr>hmem := hmem t, keys := ks, kbd := kb, printed := out, strtok_last := strtok_last t\<rparr>" by (simp add: t_def)
  then have rest: "\<exists>m ks kb out l. t = s\<lparr>hmem := m, keys := ks, kbd := kb, printed := out, strtok_last := l\<rparr>" by blast
  have "strlen (hmem t) (input E + of_nat k) = Some (of_nat (length w))"
    using strlen_from_eq [of "hmem t" "input E + of_nat k" 0 "map of_char w"] line(2) p by (simp add: strlen_def)
  moreover have "length w < 2 ^ 32" using u(4) by simp
  ultimately have "string_at (hmem t) (input E + of_nat k) = Some (map of_char w)"
    using line(2) unfolding cstr_nth string_at_def by (auto simp: unat_of_nat_u32 intro!: nth_equalityI)
  then have run: "shell_iteration call E s = (case map_of (commands call E) w of Some cmd \<Rightarrow> cmd t
        | None \<Rightarrow> Some (emit_out (Named ''Unknown command: %s'' (map of_char w) []) t))"
    unfolding shell_iteration_def u(1) using line(1) by (simp add: say_str_def split: option.splits)
  have args: "if args = [] then strtok_last t = 0 else strtok_last t = input E + of_nat (k + length w + 1) \<and> cstr (hmem t) (strtok_last t) (tl args)"
    using line(3) by (simp add: t_def e_def algebra_simps)
  have env: "env_ok E (hmem t)" by (rule env_ok_cong [OF u(7)]) (rule line(4))
  have "kb_wf (kbd t)" "typed (keys t) (kbd t) = cs" using u(5,6) by (simp_all add: t_def)
  with run args env rest mem u(4) show ?thesis unfolding starts_command_def by blast
qed

lemma pmm_fields_cong:
  fixes a :: "'a pmm_scheme" and b :: "'b pmm_scheme"
  assumes "bits a = bits b" "bm_size a = bm_size b" "total_pages a = total_pages b" "free_pages a = free_pages b" "used_pages a = used_pages b"
  shows "pmm_inv a = pmm_inv b" "free_frames a = free_frames b"
  using assms by (simp_all add: pmm_inv_def free_frames_def page_used_def bitmap_wf_def capacity_def fun_eq_iff)

lemma digit_not_space: "digits_of 16 ds \<Longrightarrow> 0x20 \<notin> set ds"
  by (auto simp: digits_of_def hex_digit_def)

lemma cmd_free_page_digits:
  fixes t :: shell_state
  assumes E: "env_ok E (hmem t)" and p: "strtok_last t = input E + of_nat i" "i + j < 256"
    and arg: "cstr (hmem t) (strtok_last t) (replicate j 0x20 @ ds)" and ds: "digits_of 16 ds" "ds \<noteq> []"
  defines "v \<equiv> of_nat (digits_value 16 ds 0)"
  shows "cmd_free_page E t = Some (say ''Freed physical page at 0x%x'' [v] (pmm_free_page v (t\<lparr>strtok_last := 0\<rparr>)))"
proof -
  have E': "cstr (hmem t) (lit_space E) [0x20]" "lit_space E \<noteq> 0" using E by (simp_all add: env_ok_def)
  have nz: "strtok_last t \<noteq> 0" using input_offset(1) [OF E, of i] p by simp
  have q: "strtok_last t + of_nat j \<noteq> 0" using input_offset(1) [OF E, of "i + j"] p by (simp add: add.assoc)
  have "strtok 0 (lit_space E) (strtok_last t) (hmem t) = Some (strtok_last t + of_nat j, 0, hmem t)"
    using strtok_word [OF E' _ nz, of 0 "strtok_last t" j ds "[]"] arg ds digit_not_space [OF ds(1)] by simp
  moreover have "cstr (hmem t) (strtok_last t + of_nat j) ds" using arg unfolding cstr_append by simp
  then have "hex_to_u32 (hmem t) (strtok_last t + of_nat j) = Some v" unfolding v_def by (rule hex_to_u32_digits [OF _ ds])
  ultimately show ?thesis using q by (simp add: cmd_free_page_def one_word_def next_word_def token_def)
qed

text \<open>Property C15. What is typed is what runs: when the characters the keyboard delivers complete a line that consists of spaces, a
  word and possibly arguments after a space, one round of the shell runs exactly the command of that name, or reports the word as
  unknown when no command has it. The command starts in a state that differs from the one before in the input array, the keyboard,
  the output and the tokenizer only, and the tokenizer stands at the arguments.
\<close>

theorem shell_runs_command:
  fixes s :: shell_state
  assumes "kb_wf (kbd s)" "env_ok E (hmem s)"
    and "line_edit 255 [] (typed (keys s) (kbd s)) = Some (replicate k 0x20 @ map of_char w @ args, cs)"
    and "w \<noteq> []" "CHR '' '' \<notin> set w" "args = [] \<or> hd args = 0x20"
  shows "\<exists>t. shell_iteration call E s = (case map_of (commands call E) w of Some cmd \<Rightarrow> cmd t
        | None \<Rightarrow> Some (emit_out (Named ''Unknown command: %s'' (map of_char w) []) t)) \<and>
      (if args = [] then strtok_last t = 0 else strtok_last t = input E + of_nat (k + length w + 1) \<and> cstr (hmem t) (strtok_last t) (tl args)) \<and>
      kb_wf (kbd t) \<and> typed (keys t) (kbd t) = cs \<and> env_ok E (hmem t) \<and>
      (\<exists>m ks kb out l. t = s\<lparr>hmem := m, keys := ks, kbd := kb, printed := out, strtok_last := l\<rparr>) \<and>
      (\<forall>x. \<not> x - input E < 256 \<longrightarrow> hmem t x = hmem s x)"
  using shell_round [OF assms, of call] unfolding starts_command_def by blast

text \<open>Property C14. From the keys to the page allocator: when the line typed is \<^verbatim>\<open>free_page\<close> and a number in hexadecimal, and the number is an
  address above the first page and below the end of memory, the round of the shell returns, reports that address, and makes exactly the
  page of that address free; the allocator stays consistent.
\<close>

theorem shell_free_page:
  fixes s :: shell_state
  assumes "kb_wf (kbd s)" "env_ok E (hmem s)" "pmm_inv s"
    and "line_edit 255 [] (typed (keys s) (kbd s)) = Some (map of_char ''free_page'' @ 0x20 # replicate j 0x20 @ ds, cs)"
    and "digits_of 16 ds" "ds \<noteq> []" "v = of_nat (digits_value 16 ds 0)" "4096 \<le> unat v" "unat v div 4096 < unat (total_pages s)"
  shows "\<exists>s'. shell_iteration call E s = Some s' \<and> last (printed s') = Msg ''Freed physical page at 0x%x'' [v] \<and>
    pmm_inv s' \<and> free_frames s' = insert (unat v div 4096) (free_frames s) \<and> typed (keys s') (kbd s') = cs"
proof -
  let ?args = "0x20 # replicate j 0x20 @ ds"
  have cmd: "map_of (commands call E) ''free_page'' = Some (cmd_free_page E)" by (simp add: commands_def)
  obtain t where t: "shell_iteration call E s = cmd_free_page E t" "starts_command E ?args (0 + length ''free_page'') cs s t"
      "length (replicate 0 (0x20 :: u8) @ map of_char ''free_page'' @ ?args) < 256"
    using shell_round [OF assms(1,2), of 0 "''free_page''" ?args cs call] assms(4) unfolding cmd by auto
  have st: "strtok_last t = input E + of_nat 10" "cstr (hmem t) (strtok_last t) (replicate j 0x20 @ ds)" "env_ok E (hmem t)"
    "typed (keys t) (kbd t) = cs" using t(2) by (auto simp: starts_command_def)
  obtain m ks kb out l where eq: "t = s\<lparr>hmem := m, keys := ks, kbd := kb, printed := out, strtok_last := l\<rparr>"
    using t(2) unfolding starts_command_def by blast
  let ?u = "t\<lparr>strtok_last := 0\<rparr>"
  have u: "pmm_inv ?u" "free_frames ?u = free_frames s" "total_pages ?u = total_pages s"
    using assms(3) pmm_fields_cong [of ?u s] eq by simp_all
  have run: "shell_iteration call E s = Some (say ''Freed physical page at 0x%x'' [v] (pmm_free_page v ?u))"
    unfolding t(1) assms(7) by (rule cmd_free_page_digits [OF st(3,1) _ st(2) assms(5,6)]) (use t(3) in simp)
  have free: "pmm_inv (pmm_free_page v ?u)" "free_frames (pmm_free_page v ?u) = insert (unat v div 4096) (free_frames s)"
    using pmm_free_page_spec [OF u(1) assms(8)] assms(9) u(2,3) by simp_all
  have keep: "keys (pmm_free_page v ?u) = keys t" "kbd (pmm_free_page v ?u) = kbd t"
    by (simp_all add: pmm_free_page_def mark_page_free_def count_free_def Let_def bitmap_clear_bit_def)
  let ?s' = "say ''Freed physical page at 0x%x'' [v] (pmm_free_page v ?u)"
  have "pmm_inv ?s'" "free_frames ?s' = free_frames (pmm_free_page v ?u)"
    using free(1) pmm_fields_cong [of ?s' "pmm_free_page v ?u"] by (simp_all add: emit_out_def)
  moreover have "last (printed ?s') = Msg ''Freed physical page at 0x%x'' [v]" by (simp add: emit_out_def)
  ultimately show ?thesis unfolding run using free(2) keep st(4) by (intro exI [of _ ?s']) simp
qed

text \<open>A machine with eight pages, four of them used, and an empty keyboard, for lines that are about to be typed.\<close>

definition sh_example :: "u8 list \<Rightarrow> shell_state" where
  "sh_example codes = slab_state.extend (one_free_slab\<lparr>bits := [15], bits_addr := 0x2000, bm_size := 1, total_pages := 8, free_pages := 4,
      used_pages := 4, hmem := (\<lambda>_. 0)(0x1000 := 0x20)\<rparr>)
    (shell_state.fields (\<lambda>_. null_area) (\<lambda>_. \<lparr>mmap = 0, map_count = 0\<rparr>) 0 kb_init codes 0 0 0 vbe_small [])"

definition env_example :: shell_env where
  "env_example = \<lparr>lit_space = 0x1000, lit_empty = 0x1001, input = 0x2000, tar_locals = small_frame\<rparr>"

lemma sh_example_simps [simp]:
  "kbd (sh_example codes) = kb_init" "keys (sh_example codes) = codes" "hmem (sh_example codes) = (\<lambda>_. 0)(0x1000 := 0x20)"
  "total_pages (sh_example codes) = 8" "bits (sh_example codes) = [15]" "bm_size (sh_example codes) = 1"
  "free_pages (sh_example codes) = 4" "used_pages (sh_example codes) = 4"
  by (simp_all add: sh_example_def slab_state.defs shell_state.defs)

lemma env_example_ok: "env_ok env_example (hmem (sh_example codes))"
  by (simp add: env_ok_def env_example_def)

lemma sh_example_inv: "pmm_inv (sh_example codes)" "free_frames (sh_example codes) = {4, 5, 6, 7}"
proof -
  let ?a = "small_pmm\<lparr>bits := [15], free_pages := 4, used_pages := 4\<rparr>"
  have alloc: "pmm_alloc_page small_pmm = (0x3000, ?a)" by code_simp
  have a: "bits ?a = [15]" "bm_size ?a = 1" "total_pages ?a = 8" "free_pages ?a = 4" "used_pages ?a = 4" by (simp_all add: small_pmm_def)
  show "pmm_inv (sh_example codes)" "free_frames (sh_example codes) = {4, 5, 6, 7}"
    using pmm_alloc_page_cases [OF small_pmm_inv alloc] pmm_fields_cong [of "sh_example codes" ?a] a small_pmm_free
    by (auto 4 3 elim!: meta_allE)
qed

abbreviation (input) clear_codes :: "u8 list" where "clear_codes \<equiv> [0x2E, 0x26, 0x12, 0x1E, 0x13, 0x1C]"

lemma clear_typed: "typed clear_codes kb_init = map of_char ''clear'' @ [0x0A]"
  by (simp add: typed_def kb_init_simps key_eval)

theorem readline_edits_witness:
  "\<exists>s'. readline 0x2000 256 (sh_example clear_codes) = Some s' \<and> cstr (hmem s') 0x2000 (map of_char ''clear'')"
  using readline_edits [of "sh_example clear_codes" 256 "map of_char ''clear''" "[]" "0x2000"] clear_typed
  by (auto simp: kb_init_simps)

theorem shell_runs_command_witness:
  "\<exists>t. shell_iteration (\<lambda>_ _ s. s) env_example (sh_example clear_codes) = Some (cmd_clear t) \<and> strtok_last t = 0"
  using shell_runs_command [of "sh_example clear_codes" env_example 0 "''clear''" "[]" "[]" "\<lambda>_ _ s. s"] clear_typed env_example_ok
  by (auto simp: kb_init_simps commands_def)

abbreviation (input) free_codes :: "u8 list" where
  "free_codes \<equiv> [0x21, 0x13, 0x12, 0x12, 0x2A, 0x0C, 0xAA, 0x19, 0x1E, 0x22, 0x12, 0x39, 0x04, 0x0B, 0x0B, 0x0B, 0x1C]"

lemma free_typed: "typed free_codes kb_init = map of_char ''free_page'' @ 0x20 # [0x33, 0x30, 0x30, 0x30] @ [0x0A]"
  by (simp add: typed_def kb_init_simps key_eval)

theorem shell_free_page_witness:
  "\<exists>s'. shell_iteration (\<lambda>_ _ s. s) env_example (sh_example free_codes) = Some s' \<and> pmm_inv s' \<and> free_frames s' = {3, 4, 5, 6, 7}"
  using shell_free_page [of "sh_example free_codes" env_example 0 "[0x33, 0x30, 0x30, 0x30]" "[]" "0x3000" "\<lambda>_ _ s. s"]
    free_typed env_example_ok sh_example_inv
  by (auto simp: kb_init_simps digits_of_def hex_digit_def)

end
