(* ===== verification/Serial.thy ===== *)
theory Serial
  imports Interrupts Printf Vbe
begin

text \<open>
  The serial port, \<^verbatim>\<open>src/drivers/serial.c\<close>: initialisation, the polled transmitter and receiver, and formatted output through
  \<^verbatim>\<open>vfctprintf\<close>. The device is the hardware parameter of theory \<open>Interrupts\<close>; a busy wait that never ends is \<open>None\<close>.
\<close>

section \<open>Operations\<close>

abbreviation (input) SERIAL_PORT :: u16 where "SERIAL_PORT \<equiv> 0x3F8"

definition serial_is_transmit_empty :: "hardware \<Rightarrow> io \<Rightarrow> bool \<times> io" where
  "serial_is_transmit_empty hw l = (let (v, l) = inb hw (SERIAL_PORT + 5) l in (v AND 0x20 \<noteq> 0, l))"

definition serial_is_data_ready :: "hardware \<Rightarrow> io \<Rightarrow> bool \<times> io" where
  "serial_is_data_ready hw l = (let (v, l) = inb hw (SERIAL_PORT + 5) l in (v AND 0x01 \<noteq> 0, l))"

definition serial_init :: "hardware \<Rightarrow> io \<Rightarrow> kernel_status \<times> io" where
  "serial_init hw l =
     (let l = outb (SERIAL_PORT + 1) 0x00 l;
          l = outb (SERIAL_PORT + 3) 0x80 l;
          l = outb (SERIAL_PORT + 0) 0x03 l;
          l = outb (SERIAL_PORT + 1) 0x00 l;
          l = outb (SERIAL_PORT + 3) 0x03 l;
          l = outb (SERIAL_PORT + 2) 0xC7 l;
          l = outb (SERIAL_PORT + 4) 0x0B l;
          l = outb (SERIAL_PORT + 4) 0x1E l;
          l = outb (SERIAL_PORT + 0) 0xAE l;
          (v, l) = inb hw (SERIAL_PORT + 0) l
      in if v \<noteq> 0xAE then (KERNEL_ERROR, l) else (KERNEL_OK, outb (SERIAL_PORT + 4) 0x0F l))"

text \<open>The two busy waits.\<close>

partial_function (option) wait_until :: "(io \<Rightarrow> bool \<times> io) \<Rightarrow> io \<Rightarrow> io option" where
  "wait_until ready l = (case ready l of (ok, l) \<Rightarrow> if ok then Some l else wait_until ready l)"

definition serial_write_char :: "hardware \<Rightarrow> u8 \<Rightarrow> io \<Rightarrow> io option" where
  "serial_write_char hw c l = map_option (outb SERIAL_PORT c) (wait_until (serial_is_transmit_empty hw) l)"

partial_function (option) serial_write_string :: "hardware \<Rightarrow> memory \<Rightarrow> u32 \<Rightarrow> io \<Rightarrow> io option" where
  "serial_write_string hw m s l =
     (if m s \<noteq> 0 then Option.bind (serial_write_char hw (m s) l) (serial_write_string hw m (s + 1)) else Some l)"

definition serial_read_ready :: "hardware \<Rightarrow> io \<Rightarrow> u32 \<times> io" where
  "serial_read_ready hw l = (case serial_is_data_ready hw l of (r, l) \<Rightarrow> (if r then 1 else 0, l))"

definition serial_read_char :: "hardware \<Rightarrow> io \<Rightarrow> (u8 \<times> io) option" where
  "serial_read_char hw l = map_option (inb hw SERIAL_PORT) (wait_until (serial_is_data_ready hw) l)"

definition serial_out :: "hardware \<Rightarrow> u8 \<Rightarrow> io \<Rightarrow> io option" where
  "serial_out hw c l = (if c \<noteq> 0 then serial_write_char hw c l else Some l)"

text \<open>The output function is called once per character of the formatted text, in order; it does not touch memory.\<close>

fun send_all :: "hardware \<Rightarrow> u8 list \<Rightarrow> io \<Rightarrow> io option" where
  "send_all hw [] l = Some l"
| "send_all hw (c # cs) l = Option.bind (serial_out hw c l) (send_all hw cs)"

definition serial_printf :: "hardware \<Rightarrow> u32 \<Rightarrow> va_list \<Rightarrow> memory \<Rightarrow> io \<Rightarrow> (int \<times> io) option" where
  "serial_printf hw fmt va m l =
     Option.bind (vfctprintf (\<lambda>c s. s\<lparr>pf_sent := pf_sent s @ [c]\<rparr>) fmt va \<lparr>pf_mem = m, pf_sent = []\<rparr>) (\<lambda>(ret, s).
       map_option (Pair ret) (send_all hw (pf_sent s) l))"

text \<open>\<open>fmt\<close> is the address of the escape sequence's format.\<close>

definition serial_set_ansi_fg :: "hardware \<Rightarrow> u32 \<Rightarrow> vbe_color \<Rightarrow> memory \<Rightarrow> io \<Rightarrow> (int \<times> io) option" where
  "serial_set_ansi_fg hw fmt color m l = serial_printf hw fmt [ucast (red color), ucast (green color), ucast (blue color)] m l"

definition serial_set_ansi_bg :: "hardware \<Rightarrow> u32 \<Rightarrow> vbe_color \<Rightarrow> memory \<Rightarrow> io \<Rightarrow> (int \<times> io) option" where
  "serial_set_ansi_bg hw fmt color m l = serial_printf hw fmt [ucast (red color), ucast (green color), ucast (blue color)] m l"

text \<open>\<^verbatim>\<open>getchar\<close> of \<^verbatim>\<open>src/lib/libc/stdio.c\<close>.\<close>

definition getchar :: "hardware \<Rightarrow> io \<Rightarrow> (u8 \<times> io) option" where
  "getchar hw l = serial_read_char hw l"

section \<open>What arrives\<close>

text \<open>The bytes handed to the transmitter, and that each of them was handed over right after it had reported to be empty.\<close>

fun sent_bytes :: "io \<Rightarrow> u8 list" where
  "sent_bytes [] = []"
| "sent_bytes (Out p v # l) = (if p = SERIAL_PORT then v # sent_bytes l else sent_bytes l)"
| "sent_bytes (In p v # l) = sent_bytes l"

fun polled :: "bool \<Rightarrow> io \<Rightarrow> bool" where
  "polled ok [] = True"
| "polled ok (Out p v # l) = ((p = SERIAL_PORT \<longrightarrow> ok) \<and> polled False l)"
| "polled ok (In p v # l) = polled (p = SERIAL_PORT + 5 \<and> v AND 0x20 \<noteq> 0) l"

lemma sent_bytes_append [simp]: "sent_bytes (l @ l') = sent_bytes l @ sent_bytes l'"
  by (induction l rule: sent_bytes.induct) auto

text \<open>What the code relies on: after any history, the status register shows an empty transmitter after finitely many reads.\<close>

fun polls :: "hardware \<Rightarrow> u16 \<Rightarrow> nat \<Rightarrow> io \<Rightarrow> io" where
  "polls hw p 0 l = l"
| "polls hw p (Suc n) l = polls hw p n (snd (inb hw p l))"

definition becomes_ready :: "hardware \<Rightarrow> bool" where
  "becomes_ready hw \<longleftrightarrow> (\<forall>l. \<exists>n. hw (polls hw 0x3FD n l) 0x3FD AND 0x20 \<noteq> 0)"

lemma wait_transmit_step:
  "wait_until (serial_is_transmit_empty hw) l =
     (if hw l 0x3FD AND 0x20 \<noteq> 0 then Some (l @ [In 0x3FD (hw l 0x3FD)])
      else wait_until (serial_is_transmit_empty hw) (l @ [In 0x3FD (hw l 0x3FD)]))"
  by (subst wait_until.simps) (simp add: serial_is_transmit_empty_def inb_def Let_def)

lemma wait_transmit:
  assumes "hw (polls hw 0x3FD n l) 0x3FD AND 0x20 \<noteq> 0"
  shows "\<exists>vs v. wait_until (serial_is_transmit_empty hw) l = Some (l @ map (In 0x3FD) vs @ [In 0x3FD v]) \<and> v AND 0x20 \<noteq> 0"
  using assms
proof (induction n arbitrary: l)
  case 0
  then have "wait_until (serial_is_transmit_empty hw) l = Some (l @ map (In 0x3FD) [] @ [In 0x3FD (hw l 0x3FD)])" by (simp add: wait_transmit_step)
  with 0 show ?case by (metis polls.simps(1))
next
  case (Suc n)
  show ?case
  proof (cases "hw l 0x3FD AND 0x20 = 0")
    case True
    have "hw (polls hw 0x3FD n (l @ [In 0x3FD (hw l 0x3FD)])) 0x3FD AND 0x20 \<noteq> 0" using Suc.prems by (simp add: inb_def Let_def)
    from Suc.IH [OF this] obtain vs v where vs: "wait_until (serial_is_transmit_empty hw) (l @ [In 0x3FD (hw l 0x3FD)]) =
        Some (l @ map (In 0x3FD) (hw l 0x3FD # vs) @ [In 0x3FD v])" "v AND 0x20 \<noteq> 0" by auto
    have "wait_until (serial_is_transmit_empty hw) l = Some (l @ map (In 0x3FD) (hw l 0x3FD # vs) @ [In 0x3FD v])"
      by (subst wait_transmit_step) (simp add: True vs(1))
    then show ?thesis using vs(2) by blast
  next
    case False
    then have "wait_until (serial_is_transmit_empty hw) l = Some (l @ map (In 0x3FD) [] @ [In 0x3FD (hw l 0x3FD)])" by (simp add: wait_transmit_step)
    with False show ?thesis by blast
  qed
qed

lemma polled_reads: "polled ok (map (In 0x3FD) vs @ In 0x3FD v # l) \<longleftrightarrow> polled (v AND 0x20 \<noteq> 0) l"
  by (induction vs arbitrary: ok) simp_all

lemma sent_reads: "sent_bytes (map (In p) vs) = []"
  by (induction vs) simp_all

lemma serial_write_char_sends:
  assumes "becomes_ready hw"
  shows "\<exists>l'. serial_write_char hw c l = Some (l @ l') \<and> sent_bytes l' = [c] \<and> (\<forall>ok k. polled False k \<longrightarrow> polled ok (l' @ k))"
proof -
  obtain n where "hw (polls hw 0x3FD n l) 0x3FD AND 0x20 \<noteq> 0" using assms unfolding becomes_ready_def by blast
  from wait_transmit [where hw = hw, OF this] obtain vs v where w: "wait_until (serial_is_transmit_empty hw) l = Some (l @ map (In 0x3FD) vs @ [In 0x3FD v])"
    "v AND 0x20 \<noteq> 0" by blast
  show ?thesis using w by (intro exI [of _ "map (In 0x3FD) vs @ [In 0x3FD v, Out 0x3F8 c]"])
    (simp add: serial_write_char_def outb_def polled_reads sent_reads)
qed

lemma send_all_sends:
  assumes "becomes_ready hw" "0 \<notin> set cs"
  shows "\<exists>l'. send_all hw cs l = Some (l @ l') \<and> sent_bytes l' = cs \<and> (\<forall>ok. polled ok l')"
  using assms(2)
proof (induction cs arbitrary: l)
  case (Cons c cs)
  obtain l1 where 1: "serial_write_char hw c l = Some (l @ l1)" "sent_bytes l1 = [c]" "\<forall>ok k. polled False k \<longrightarrow> polled ok (l1 @ k)"
    using serial_write_char_sends [OF assms(1)] by blast
  obtain l2 where 2: "send_all hw cs (l @ l1) = Some ((l @ l1) @ l2)" "sent_bytes l2 = cs" "\<forall>ok. polled ok l2"
    using Cons.IH [of "l @ l1"] Cons.prems by auto
  show ?case using 1 2 Cons.prems by (intro exI [of _ "l1 @ l2"]) (simp add: serial_out_def)
qed simp

lemma serial_write_string_send_all:
  "cstr m p cs \<Longrightarrow> serial_write_string hw m p l = send_all hw cs l"
proof (induction cs arbitrary: p l)
  case Nil
  then show ?case by (subst serial_write_string.simps) simp
next
  case (Cons c cs)
  then have "serial_write_string hw m (p + 1) = send_all hw cs" by (auto simp: fun_eq_iff)
  then show ?case using Cons.prems by (subst serial_write_string.simps) (simp add: serial_out_def)
qed

section \<open>Properties\<close>

text \<open>Property C23. The serial line carries the string: for a device whose transmitter always becomes empty again after finitely many
  reads of its status, \<^verbatim>\<open>serial_write_string\<close> returns, the bytes handed to the transmitter are exactly the characters of the string in
  order, and each was handed over right after the device had reported an empty transmitter.
\<close>

theorem serial_write_string_sends:
  assumes "becomes_ready hw" "cstr m p cs"
  shows "\<exists>l'. serial_write_string hw m p l = Some (l @ l') \<and> sent_bytes l' = cs \<and> polled False l'"
proof -
  have "0 \<notin> set cs" using assms(2) unfolding cstr_nth by (metis in_set_conv_nth)
  from send_all_sends [OF assms(1) this, of l] show ?thesis unfolding serial_write_string_send_all [OF assms(2)] by blast
qed

text \<open>A device that is busy at every second look.\<close>

definition slow_uart :: hardware where
  "slow_uart l p = (if p = 0x3FD \<and> even (length l) then 0x60 else 0)"

lemma slow_uart_ready: "becomes_ready slow_uart"
  unfolding becomes_ready_def
proof
  fix l
  show "\<exists>n. slow_uart (polls slow_uart 0x3FD n l) 0x3FD AND 0x20 \<noteq> 0"
  proof (cases "even (length l)")
    case True
    then show ?thesis by (intro exI [of _ 0]) (simp add: slow_uart_def)
  next
    case False
    then show ?thesis by (intro exI [of _ 1]) (simp add: slow_uart_def inb_def Let_def)
  qed
qed

theorem serial_write_string_sends_witness:
  "\<exists>l'. serial_write_string slow_uart ((\<lambda>_. 0)(100 := 0x68, 101 := 0x69)) 100 [] = Some l' \<and> sent_bytes l' = [0x68, 0x69]"
  using serial_write_string_sends [OF slow_uart_ready, of "(\<lambda>_. 0)(100 := 0x68, 101 := 0x69)" 100 "[0x68, 0x69]" "[]"] by auto

text \<open>\<^verbatim>\<open>serial_init\<close> reports success exactly when the loop-back test gives the byte back, and only then leaves loop-back mode.\<close>

lemma serial_init_loopback:
  "fst (serial_init hw l) = KERNEL_OK \<longleftrightarrow> (\<exists>v. last (snd (serial_init hw l)) = Out 0x3FC v)"
  by (simp add: serial_init_def inb_def outb_def Let_def)

end
