(* ===== verification/Cpuid.thy ===== *)
theory Cpuid
  imports Cstring
begin

text \<open>
  Processor identification, \<^verbatim>\<open>src/arch/i386/cpuid.c\<close>. The flags register and the \<^verbatim>\<open>cpuid\<close> instruction are a parameter; the strings
  are written to a byte memory.
\<close>

section \<open>Operations\<close>

text \<open>
  The processor: \<open>eflags\<close> is the flags register, \<open>popf v\<close> what it reads as after \<open>v\<close> was written to it, and \<open>leaf f\<close> the registers
  \<^verbatim>\<open>eax\<close>, \<^verbatim>\<open>ebx\<close>, \<^verbatim>\<open>ecx\<close> and \<^verbatim>\<open>edx\<close> that the \<^verbatim>\<open>cpuid\<close> instruction gives for the function \<open>f\<close>.
\<close>

record cpuid_regs =
  eax :: u32
  ebx :: u32
  ecx :: u32
  edx :: u32

record cpu =
  eflags :: u32
  popf :: "u32 \<Rightarrow> u32"
  leaf :: "u32 \<Rightarrow> cpuid_regs"

abbreviation CPUID_GET_VENDOR_ID :: u32 where "CPUID_GET_VENDOR_ID \<equiv> 0x0"
abbreviation CPUID_GET_FEATURES :: u32 where "CPUID_GET_FEATURES \<equiv> 0x1"
abbreviation CPUID_GET_EXTENDED_INFO :: u32 where "CPUID_GET_EXTENDED_INFO \<equiv> 0x80000000"

definition cpuid_is_supported :: "cpu \<Rightarrow> bool" where
  "cpuid_is_supported C =
     (let flags_before = eflags C; flags_after = popf C (flags_before XOR push_bit 21 1) in flags_before \<noteq> flags_after)"

definition cpuid_init :: "cpu \<Rightarrow> kernel_status" where
  "cpuid_init C = (if cpuid_is_supported C then KERNEL_OK else KERNEL_ERROR)"

text \<open>\<^verbatim>\<open>memcpy(ptr, &reg, 4)\<close> of a register, least significant byte first.\<close>

definition copy_reg :: "u32 \<Rightarrow> u32 \<Rightarrow> memory \<Rightarrow> memory" where
  "copy_reg p v m = m(p := ucast v, p + 1 := ucast (drop_bit 8 v), p + 2 := ucast (drop_bit 16 v), p + 3 := ucast (drop_bit 24 v))"

definition cpuid_get_vendor :: "cpu \<Rightarrow> u32 \<Rightarrow> memory \<Rightarrow> kernel_status \<times> memory" where
  "cpuid_get_vendor C vendor m =
     (if vendor = 0 then (KERNEL_INVALID_PARAM, m)
      else if \<not> cpuid_is_supported C then (KERNEL_ERROR, m)
      else let r = leaf C CPUID_GET_VENDOR_ID;
               m = copy_reg vendor (ebx r) m;
               m = copy_reg (vendor + 4) (edx r) m;
               m = copy_reg (vendor + 8) (ecx r) m
           in (KERNEL_OK, m(vendor + 12 := 0)))"

text \<open>The structure written through the pointer, when it is not \<^verbatim>\<open>NULL\<close>.\<close>

definition cpuid_get_features :: "cpu \<Rightarrow> cpuid_regs option \<Rightarrow> kernel_status \<times> cpuid_regs option" where
  "cpuid_get_features C features =
     (if features = None then (KERNEL_INVALID_PARAM, features)
      else if \<not> cpuid_is_supported C then (KERNEL_ERROR, features)
      else (KERNEL_OK, Some (leaf C CPUID_GET_FEATURES)))"

text \<open>\<open>max_extended_id\<close> and the address of \<open>brand_string\<close>, which follows it.\<close>

definition copy_leaf :: "cpu \<Rightarrow> u32 \<Rightarrow> u32 \<Rightarrow> memory \<Rightarrow> memory" where
  "copy_leaf C func ptr m =
     (let r = leaf C func
      in copy_reg (ptr + 12) (edx r) (copy_reg (ptr + 8) (ecx r) (copy_reg (ptr + 4) (ebx r) (copy_reg ptr (eax r) m))))"

function brand_loop :: "cpu \<Rightarrow> u32 \<Rightarrow> u32 \<Rightarrow> memory \<Rightarrow> memory" where
  "brand_loop C func ptr m =
     (if func \<le> 0x80000004 then brand_loop C (func + 1) (ptr + 16) (copy_leaf C func ptr m) else m)"
  by pat_completeness auto
termination
proof (relation "measure (\<lambda>(C, func, ptr, m). unat (0x80000005 :: u32) - unat func)")
  fix C :: cpu and func ptr :: u32 and m :: memory
  assume "func \<le> 0x80000004"
  then have le: "unat func \<le> 0x80000004" by (simp add: word_le_nat_alt)
  then have "unat (func + 1) = unat func + 1" by (subst unat_add_small) simp_all
  with le show "((C, func + 1, ptr + 16, copy_leaf C func ptr m), C, func, ptr, m) \<in> measure (\<lambda>(C, func, ptr, m). unat (0x80000005 :: u32) - unat func)"
    by simp
qed simp

declare brand_loop.simps [simp del]

definition cpuid_get_extended :: "cpu \<Rightarrow> u32 \<Rightarrow> memory \<Rightarrow> kernel_status \<times> memory" where
  "cpuid_get_extended C extended m =
     (if extended = 0 then (KERNEL_INVALID_PARAM, m)
      else if \<not> cpuid_is_supported C then (KERNEL_ERROR, m)
      else let max_extended_id = eax (leaf C CPUID_GET_EXTENDED_INFO);
               m = copy_reg extended max_extended_id m;
               brand_string = extended + 4
           in if max_extended_id \<ge> 0x80000004
              then (KERNEL_OK, (brand_loop C 0x80000002 brand_string m)(brand_string + 47 := 0))
              else (KERNEL_OK, m(brand_string := 0)))"

section \<open>Strings\<close>

text \<open>The four bytes of a register and the sixteen of a leaf, in memory order.\<close>

definition reg_bytes :: "u32 \<Rightarrow> u8 list" where
  "reg_bytes v = [ucast v, ucast (drop_bit 8 v), ucast (drop_bit 16 v), ucast (drop_bit 24 v)]"

definition leaf_bytes :: "cpuid_regs \<Rightarrow> u8 list" where
  "leaf_bytes r = reg_bytes (eax r) @ reg_bytes (ebx r) @ reg_bytes (ecx r) @ reg_bytes (edx r)"

text \<open>\<open>stores p bs m m'\<close>: \<open>m'\<close> is \<open>m\<close> with the bytes \<open>bs\<close> at \<open>p\<close>.\<close>

definition stores :: "u32 \<Rightarrow> u8 list \<Rightarrow> memory \<Rightarrow> memory" where
  "stores p bs m = (\<lambda>x. if unat (x - p) < length bs then bs ! unat (x - p) else m x)"

lemma copy_reg_stores: "copy_reg p v m = stores p (reg_bytes v) m"
proof
  fix x
  show "copy_reg p v m x = stores p (reg_bytes v) m x"
  proof (cases "unat (x - p) < 4")
    case True
    then have "unat (x - p) \<in> {0, 1, 2, 3}" by auto
    moreover have "x - p = of_nat (unat (x - p))" by simp
    ultimately have "x - p = of_nat 0 \<or> x - p = of_nat 1 \<or> x - p = of_nat 2 \<or> x - p = of_nat 3" by (metis insert_iff singletonD)
    then have "x = p \<or> x = p + 1 \<or> x = p + 2 \<or> x = p + 3" by (auto simp: diff_eq_eq add.commute)
    then show ?thesis by (auto simp: copy_reg_def stores_def reg_bytes_def)
  next
    case False
    then have "x \<noteq> p" "x \<noteq> p + 1" "x \<noteq> p + 2" "x \<noteq> p + 3" by auto
    with False show ?thesis by (simp add: copy_reg_def stores_def reg_bytes_def)
  qed
qed

lemma stores_append:
  assumes "length (as @ bs) < 2 ^ 32" and "q = p + of_nat (length as)"
  shows "stores q bs (stores p as m) = stores p (as @ bs) m"
proof
  fix x
  have la: "unat (of_nat (length as) :: u32) = length as" using assms(1) by (subst unat_of_nat_small) simp_all
  have xq: "x - q = x - p - of_nat (length as)" by (simp add: assms(2) algebra_simps)
  show "stores q bs (stores p as m) x = stores p (as @ bs) m x"
  proof (cases "unat (x - p) < length as")
    case True
    then have "unat (x - q) = 2 ^ 32 - (length as - unat (x - p))"
      unfolding xq using la by (simp add: unat_sub_if')
    then have "\<not> unat (x - q) < length bs" using assms(1) True by simp
    with True show ?thesis by (simp add: stores_def nth_append)
  next
    case False
    then have "unat (x - q) = unat (x - p) - length as" unfolding xq using la by (simp add: unat_sub_if')
    with False show ?thesis by (auto simp: stores_def nth_append)
  qed
qed

lemma length_reg_bytes [simp]: "length (reg_bytes v) = 4" "length (leaf_bytes r) = 16"
  by (simp_all add: reg_bytes_def leaf_bytes_def)

lemma stores_single: "m(p := c) = stores p [c] m"
  by (auto simp: stores_def fun_eq_iff unat_eq_zero)

lemma stores_last:
  assumes "bs \<noteq> []" "length bs < 2 ^ 32"
  shows "(stores p bs m)(p + of_nat (length bs - 1) := c) = stores p (butlast bs @ [c]) m"
proof
  fix x
  have l: "unat (of_nat (length bs - 1) :: u32) = length bs - 1" using assms(2) by (subst unat_of_nat_small) simp_all
  have "x = p + of_nat (length bs - 1) \<longleftrightarrow> unat (x - p) = length bs - 1"
    using l by (metis add_diff_cancel_left' diff_add_cancel add.commute word_unat_eq_iff)
  then show "((stores p bs m)(p + of_nat (length bs - 1) := c)) x = stores p (butlast bs @ [c]) m x"
    using assms(1) by (auto simp: stores_def nth_append nth_butlast less_Suc_eq)
qed

lemma copy_leaf_stores: "copy_leaf C func p m = stores p (leaf_bytes (leaf C func)) m"
proof -
  let ?r = "leaf C func"
  have "copy_leaf C func p m = stores (p + 12) (reg_bytes (edx ?r)) (stores (p + 8) (reg_bytes (ecx ?r))
      (stores (p + 4) (reg_bytes (ebx ?r)) (stores p (reg_bytes (eax ?r)) m)))"
    by (simp add: copy_leaf_def Let_def copy_reg_stores)
  also have "\<dots> = stores p (leaf_bytes ?r) m" by (simp add: stores_append leaf_bytes_def)
  finally show ?thesis .
qed

lemma brand_loop_stores:
  "brand_loop C 0x80000002 p m = stores p (leaf_bytes (leaf C 0x80000002) @ leaf_bytes (leaf C 0x80000003) @ leaf_bytes (leaf C 0x80000004)) m"
proof -
  have "brand_loop C 0x80000002 p m = copy_leaf C 0x80000004 (p + 32) (copy_leaf C 0x80000003 (p + 16) (copy_leaf C 0x80000002 p m))"
    by (simp add: brand_loop.simps add.assoc)
  then show ?thesis by (simp add: copy_leaf_stores stores_append)
qed

section \<open>Properties\<close>

text \<open>The identification strings: on a processor that supports the instruction, \<^verbatim>\<open>cpuid_get_vendor\<close> stores the twelve bytes of
  \<^verbatim>\<open>ebx\<close>, \<^verbatim>\<open>edx\<close> and \<^verbatim>\<open>ecx\<close>, in this order, and a terminator, thirteen bytes in all; \<^verbatim>\<open>cpuid_get_extended\<close> stores the highest function and, if
  the three brand functions exist, their 48 bytes with the last one replaced by the terminator. Nothing else in memory changes.
\<close>

theorem cpuid_strings:
  assumes "cpuid_is_supported C" "p \<noteq> 0"
  shows "cpuid_get_vendor C p m =
      (KERNEL_OK, stores p (reg_bytes (ebx (leaf C 0)) @ reg_bytes (edx (leaf C 0)) @ reg_bytes (ecx (leaf C 0)) @ [0]) m) \<and>
    (eax (leaf C 0x80000000) \<ge> 0x80000004 \<longrightarrow> cpuid_get_extended C p m = (KERNEL_OK, stores p (reg_bytes (eax (leaf C 0x80000000)) @
      butlast (leaf_bytes (leaf C 0x80000002) @ leaf_bytes (leaf C 0x80000003) @ leaf_bytes (leaf C 0x80000004)) @ [0]) m))"
proof -
  let ?b = "leaf_bytes (leaf C 0x80000002) @ leaf_bytes (leaf C 0x80000003) @ leaf_bytes (leaf C 0x80000004)"
  let ?m = "stores p (reg_bytes (eax (leaf C 0x80000000))) m"
  have "cpuid_get_vendor C p m =
      (KERNEL_OK, stores p (reg_bytes (ebx (leaf C 0)) @ reg_bytes (edx (leaf C 0)) @ reg_bytes (ecx (leaf C 0)) @ [0]) m)"
    using assms by (simp add: cpuid_get_vendor_def Let_def copy_reg_stores stores_single stores_append)
  moreover have "(brand_loop C 0x80000002 (p + 4) ?m)(p + 4 + 47 := 0) = stores p (reg_bytes (eax (leaf C 0x80000000)) @ butlast ?b @ [0]) m"
  proof -
    have len: "length ?b = 48" by simp
    have "?b \<noteq> []" using len by (metis list.size(3) zero_neq_numeral)
    moreover have "length ?b < 2 ^ 32" "of_nat (length ?b - 1) = (47 :: u32)" by (simp_all only: len) simp_all
    ultimately have "(brand_loop C 0x80000002 (p + 4) ?m)(p + 4 + 47 := 0) = stores (p + 4) (butlast ?b @ [0]) ?m"
      using stores_last [of ?b "p + 4" ?m 0] by (simp only: brand_loop_stores simp_thms not_False_eq_True)
    also have "\<dots> = stores p (reg_bytes (eax (leaf C 0x80000000)) @ butlast ?b @ [0]) m" by (rule stores_append) simp_all
    finally show ?thesis .
  qed
  then have "eax (leaf C 0x80000000) \<ge> 0x80000004 \<longrightarrow> cpuid_get_extended C p m =
      (KERNEL_OK, stores p (reg_bytes (eax (leaf C 0x80000000)) @ butlast ?b @ [0]) m)"
    using assms by (simp only: cpuid_get_extended_def Let_def copy_reg_stores if_True if_False simp_thms not_False_eq_True cong: imp_cong)
  ultimately show ?thesis by blast
qed

definition some_cpu :: cpu where
  "some_cpu = \<lparr>eflags = 2, popf = id, leaf = (\<lambda>_. \<lparr>eax = 0x80000004, ebx = 0x756E6547, ecx = 0x6C65746E, edx = 0x49656E69\<rparr>)\<rparr>"

theorem cpuid_strings_witness:
  "fst (cpuid_get_vendor some_cpu 0x1000 (\<lambda>_. 0)) = KERNEL_OK \<and> snd (cpuid_get_vendor some_cpu 0x1000 (\<lambda>_. 0)) 0x1000 = 0x47 \<and>
   snd (cpuid_get_vendor some_cpu 0x1000 (\<lambda>_. 0)) 0x100B = 0x6C \<and> snd (cpuid_get_vendor some_cpu 0x1000 (\<lambda>_. 0)) 0x100C = 0"
proof -
  have "cpuid_is_supported some_cpu" by (simp add: cpuid_is_supported_def some_cpu_def)
  from cpuid_strings [OF this, of "0x1000" "\<lambda>_. 0"] show ?thesis by (simp add: some_cpu_def stores_def reg_bytes_def)
qed

end
