(* ===== verification/Panic.thy ===== *)
theory Panic
  imports Symbols Font
begin

text \<open>
  Kernel messages: the logger, \<^verbatim>\<open>src/misc/logger.c\<close>, and \<^verbatim>\<open>kernel_panic\<close>, \<^verbatim>\<open>src/kernel/panic.c\<close>, with its screen on the
  framebuffer (the message, the stack trace line by line, the version) and its fallback on the text screen. The memory of the
  framebuffer device holds the strings and local arrays; \<open>None\<close> is a string without an end.
\<close>

section \<open>The logger\<close>

datatype log_level = LOG_INFO | LOG_WARN | LOG_ERR | LOG_OKAY

text \<open>The addresses of the literals and of the local array \<^verbatim>\<open>buf\<close>.\<close>

record log_frame =
  lf_buf :: u32
  lf_format :: u32
  lf_level_str :: "log_level \<Rightarrow> u32"
  lf_color :: "log_level \<Rightarrow> u32"

definition log_message :: "log_frame \<Rightarrow> log_level \<Rightarrow> u32 \<Rightarrow> va_list \<Rightarrow> pf_state \<Rightarrow> pf_state option" where
  "log_message F level fmt va s =
     Option.bind (vsnprintf (lf_buf F) 1024 fmt va s) (\<lambda>(_, s).
       map_option snd (printf (lf_format F) [lf_color F level, lf_level_str F level, lf_buf F] s))"

text \<open>A message changes its own array and adds to the output, nothing else.\<close>

lemma log_message_frame:
  assumes "log_message F level fmt va s = Some s'" "lf_buf F \<noteq> 0"
  shows "prefix (pf_sent s) (pf_sent s') \<and> (\<forall>a. \<not> a - lf_buf F < 1024 \<longrightarrow> pf_mem s' a = pf_mem s a)"
proof -
  obtain r t r' where t: "internal_vsnprintf (out_buffer (lf_buf F)) 1024 fmt va s = Some (r, t)"
    "internal_vsnprintf out_char (- 1) (lf_format F) [lf_color F level, lf_level_str F level, lf_buf F] t = Some (r', s')"
    using assms by (auto simp: log_message_def vsnprintf_def printf_def bind_eq_Some_conv)
  show ?thesis using buf.frame_vsnprintf [OF t(1)] con.frame_vsnprintf [OF t(2)] by (simp add: buffer_frame_def)
qed

section \<open>The panic screen\<close>

text \<open>The addresses of the literals and local arrays of \<^verbatim>\<open>draw_panic\<close> and \<^verbatim>\<open>kernel_panic\<close>, and what the stack trace uses.\<close>

record panic_frame =
  pn_title :: u32
  pn_unknown :: u32
  pn_restart :: u32
  pn_version_format :: u32
  pn_version :: u32
  pn_prefix :: u32
  pn_buf :: u32
  pn_line :: u32
  pn_version_str :: u32
  pn_tables :: symbol_tables
  pn_trace :: trace_literals
  pn_ebp :: u32

abbreviation VBE_COLOR_DARK_BLUE :: vbe_color where "VBE_COLOR_DARK_BLUE \<equiv> \<lparr>red = 0, green = 0, blue = 128, alpha = 255\<rparr>"
abbreviation VBE_COLOR_LIGHT_GRAY :: vbe_color where "VBE_COLOR_LIGHT_GRAY \<equiv> \<lparr>red = 192, green = 192, blue = 192, alpha = 255\<rparr>"

text \<open>A formatting call on the memory of the device.\<close>

definition in_memory :: "(pf_state \<Rightarrow> pf_state option) \<Rightarrow> vbe_device \<Rightarrow> vbe_device option" where
  "in_memory f d = map_option (\<lambda>s. d\<lparr>vd_mem := pf_mem s\<rparr>) (f \<lparr>pf_mem = vd_mem d, pf_sent = []\<rparr>)"

text \<open>One line of the trace: the characters up to the line end or the size of the array, and where they end.\<close>

function copy_line :: "u32 \<Rightarrow> u32 \<Rightarrow> u32 \<Rightarrow> memory \<Rightarrow> u32 \<times> u32 \<times> memory" where
  "copy_line line p i m =
     (if m p \<noteq> 0 \<and> m p \<noteq> 0x0A \<and> i < 255 then copy_line line (p + 1) (i + 1) (m(line + i := m p)) else (p, i, m))"
  by pat_completeness auto
termination
  by (relation "measure (\<lambda>(line, p, i, m). unat (255 :: u32) - unat i)") (auto dest: loop_measure [of _ "255 :: u32"])

declare copy_line.simps [simp del]

partial_function (option) panic_lines :: "font \<Rightarrow> u32 \<Rightarrow> u32 \<Rightarrow> int \<Rightarrow> vbe_device \<Rightarrow> vbe_device option" where
  "panic_lines g_font line p y_pos d =
     (if vd_mem d p \<noteq> 0 \<and> y_pos < int (unat (vd_height d)) - 50
      then case copy_line line p 0 (vd_mem d) of (p, i, m) \<Rightarrow>
        let m = m(line + i := 0); p = (if m p = 0x0A then p + 1 else p); d = d\<lparr>vd_mem := m\<rparr>
        in if i > 0
           then Option.bind (vbe_draw_string g_font 20 (word_of_int y_pos) line VBE_COLOR_WHITE VBE_COLOR_DARK_BLUE d)
                  (panic_lines g_font line p (y_pos + 16))
           else panic_lines g_font line p y_pos d
      else Some d)"

definition draw_panic :: "panic_frame \<Rightarrow> (u8 \<Rightarrow> u8 \<Rightarrow> u8) \<Rightarrow> u32 \<Rightarrow> vbe_device \<Rightarrow> vbe_device option" where
  "draw_panic F charset message d =
     (let (_, g_font) = font_init charset;
          text_line = (\<lambda>y str color. vbe_draw_string_centered g_font y str color VBE_COLOR_DARK_BLUE);
          d = snd (vbe_clear_screen VBE_COLOR_DARK_BLUE d)
      in Option.bind (text_line 50 (pn_title F) VBE_COLOR_RED d) (\<lambda>d.
         Option.bind (text_line 80 (if message \<noteq> 0 then message else pn_unknown F) VBE_COLOR_YELLOW d) (\<lambda>d.
         Option.bind (text_line 110 (pn_restart F) VBE_COLOR_WHITE d) (\<lambda>d.
         Option.bind (in_memory (stack_trace_to_buffer (pn_tables F) (pn_trace F) (pn_ebp F) (pn_buf F) 1024) d) (\<lambda>d.
         Option.bind (panic_lines g_font (pn_line F) (pn_buf F) 150 d) (\<lambda>d.
         Option.bind (in_memory (\<lambda>s. map_option snd (snprintf (pn_version_str F) 64 (pn_version_format F) [pn_version F] s)) d) (\<lambda>d.
           text_line (vd_height d - 30) (pn_version_str F) VBE_COLOR_LIGHT_GRAY d)))))))"

section \<open>The text mode fallback\<close>

text \<open>The cells of the VGA text buffer, by index, and a cell in the panic colour; a character is signed.\<close>

type_synonym vga_cells = "u32 \<Rightarrow> u16"

definition panic_cell :: "u8 \<Rightarrow> u16" where
  "panic_cell c = scast c OR push_bit 8 0x4F"

function panic_text :: "memory \<Rightarrow> u32 \<Rightarrow> u32 \<Rightarrow> u32 \<Rightarrow> vga_cells \<Rightarrow> u32 \<times> vga_cells" where
  "panic_text m p limit pos v =
     (if m p \<noteq> 0 \<and> pos < limit then panic_text m (p + 1) limit (pos + 1) (v(pos := panic_cell (m p))) else (pos, v))"
  by pat_completeness auto
termination
  by (relation "measure (\<lambda>(m, p, limit, pos, v). unat limit - unat pos)") (auto dest: loop_measure)

declare panic_text.simps [simp del]

text \<open>\<^verbatim>\<open>while (pos < limit) vga_buffer[pos++] = ' ' | ...\<close>\<close>

definition panic_fill :: "u32 \<Rightarrow> u32 \<Rightarrow> vga_cells \<Rightarrow> vga_cells" where
  "panic_fill pos limit v = for_loop pos limit (\<lambda>i v. v(i := panic_cell 0x20)) v"

definition panic_fallback :: "panic_frame \<Rightarrow> memory \<Rightarrow> u32 \<Rightarrow> vga_cells \<Rightarrow> vga_cells" where
  "panic_fallback F m message v =
     (if message = 0 then v
      else let v = panic_fill 0 160 v;
               (pos, v) = panic_text m (pn_prefix F) 80 0 v;
               (pos, v) = panic_text m message 80 pos v;
               v = panic_fill pos 80 v;
               (pos, v) = panic_text m (pn_restart F) 160 80 v
           in panic_fill pos 160 v)"

text \<open>The state in which the processor is halted; \<open>d\<close> also holds the memory that strings are read from.\<close>

definition kernel_panic :: "panic_frame \<Rightarrow> (u8 \<Rightarrow> u8 \<Rightarrow> u8) \<Rightarrow> u32 \<Rightarrow> vbe_device \<times> vga_cells \<Rightarrow> (vbe_device \<times> vga_cells) option" where
  "kernel_panic F charset message = (\<lambda>(d, v).
     if vbe_is_available d \<and> vd_initialized d
     then map_option (\<lambda>d. (d, v)) (draw_panic F charset (if message \<noteq> 0 then message else pn_unknown F) d)
     else Some (d, panic_fallback F (vd_mem d) message v))"

section \<open>What the fallback shows\<close>

lemma panic_fill_cells:
  "pos \<le> limit \<Longrightarrow> panic_fill pos limit v = (\<lambda>x. if pos \<le> x \<and> x < limit then panic_cell 0x20 else v x)"
proof -
  assume le: "pos \<le> limit"
  have "\<forall>x. panic_fill pos limit v x = (if unat pos \<le> unat x \<and> unat x < unat limit then panic_cell 0x20 else v x)"
    unfolding panic_fill_def
    by (rule for_loop_counting [where P = "\<lambda>n w. \<forall>x. w x = (if unat pos \<le> unat x \<and> unat x < n then panic_cell 0x20 else v x)", OF _ le])
      (auto simp: word_le_nat_alt less_Suc_eq word_unat_eq_iff)
  then show ?thesis by (simp add: fun_eq_iff word_le_nat_alt word_less_nat_alt)
qed

lemma panic_text_cells:
  assumes "cstr m p cs" "unat pos \<le> unat limit"
  defines "n \<equiv> min (length cs) (unat limit - unat pos)"
  shows "panic_text m p limit pos v =
    (pos + of_nat n, \<lambda>x. if unat pos \<le> unat x \<and> unat x < unat pos + n then panic_cell (cs ! (unat x - unat pos)) else v x)"
  unfolding n_def using assms(1,2)
proof (induction cs arbitrary: p pos v)
  case Nil
  then show ?case by (subst panic_text.simps) (auto simp: fun_eq_iff)
next
  case (Cons c cs)
  then have c: "m p = c" "c \<noteq> 0" "cstr m (p + 1) cs" by auto
  show ?case
  proof (cases "pos < limit")
    case False
    then show ?thesis using Cons.prems(2) by (subst panic_text.simps) (auto simp: word_less_nat_alt fun_eq_iff)
  next
    case True
    then have pos: "unat (pos + 1) = Suc (unat pos)" "unat pos < unat limit" using unat_inc_less by (auto simp: word_less_nat_alt)
    let ?v = "v(pos := panic_cell c)" and ?n = "min (length cs) (unat limit - unat (pos + 1))"
    have n: "min (length (c # cs)) (unat limit - unat pos) = Suc ?n" using pos by auto
    have "panic_text m p limit pos v = panic_text m (p + 1) limit (pos + 1) ?v" using c True by (subst panic_text.simps) simp
    also have "\<dots> = (pos + 1 + of_nat ?n, \<lambda>x. if unat (pos + 1) \<le> unat x \<and> unat x < unat (pos + 1) + ?n
        then panic_cell (cs ! (unat x - unat (pos + 1))) else ?v x)"
      by (rule Cons.IH [OF c(3)]) (use pos in simp)
    also have "\<dots> = (pos + of_nat (Suc ?n), \<lambda>x. if unat pos \<le> unat x \<and> unat x < unat pos + Suc ?n
        then panic_cell ((c # cs) ! (unat x - unat pos)) else v x)"
      using pos by (auto simp: fun_eq_iff nth_Cons' word_unat_eq_iff algebra_simps)
    finally show ?thesis unfolding n .
  qed
qed

text \<open>A row of 80 cells that shows a text, cut off or filled up with spaces.\<close>

definition panic_row :: "u8 list \<Rightarrow> nat \<Rightarrow> u16" where
  "panic_row cs i = panic_cell (if i < length cs then cs ! i else 0x20)"

text \<open>Text up to a limit and spaces after it; \<open>shown\<close> are the characters already there from \<open>start\<close>.\<close>

lemma panic_row_completed:
  assumes "cstr m p cs" and pos: "unat pos = start + length shown" "unat pos \<le> unat limit"
    and v: "\<And>x. start \<le> unat x \<Longrightarrow> unat x < unat pos \<Longrightarrow> v x = panic_cell (shown ! (unat x - start))"
  shows "(case panic_text m p limit pos v of (q, w) \<Rightarrow> panic_fill q limit w) =
    (\<lambda>x. if start \<le> unat x \<and> unat x < unat limit then panic_row (shown @ cs) (unat x - start) else v x)"
proof -
  let ?n = "min (length cs) (unat limit - unat pos)"
  have lim: "unat limit < 4294967296" by (rule unat_lt(3))
  have "?n \<le> unat limit - unat pos" by simp
  with lim pos(2) have "unat pos + ?n < 4294967296" by linarith
  then have q: "unat (pos + of_nat ?n) = unat pos + ?n" by (subst unat_add_small) (simp_all add: unat_of_nat_u32)
  then have le: "pos + of_nat ?n \<le> limit" using pos(2) by (simp add: word_le_nat_alt)
  have "panic_fill (pos + of_nat ?n) limit w = (\<lambda>x. if unat pos + ?n \<le> unat x \<and> unat x < unat limit then panic_cell 0x20 else w x)" for w
    using panic_fill_cells [OF le, of w] by (simp add: word_le_nat_alt word_less_nat_alt q)
  then have "(case panic_text m p limit pos v of (q, w) \<Rightarrow> panic_fill q limit w) =
      (\<lambda>x. if unat pos + ?n \<le> unat x \<and> unat x < unat limit then panic_cell 0x20
        else if unat pos \<le> unat x \<and> unat x < unat pos + ?n then panic_cell (cs ! (unat x - unat pos)) else v x)"
    unfolding panic_text_cells [OF assms(1) pos(2)] by simp
  also have "\<dots> = (\<lambda>x. if start \<le> unat x \<and> unat x < unat limit then panic_row (shown @ cs) (unat x - start) else v x)"
  proof
    fix x :: u32
    consider "unat x < start" | "start \<le> unat x" "unat x < unat pos" | "unat pos \<le> unat x" "unat x < unat pos + ?n"
      | "unat pos + ?n \<le> unat x" "unat x < unat limit" | "unat limit \<le> unat x" by linarith
    then show "(if unat pos + ?n \<le> unat x \<and> unat x < unat limit then panic_cell 0x20
        else if unat pos \<le> unat x \<and> unat x < unat pos + ?n then panic_cell (cs ! (unat x - unat pos)) else v x) =
      (if start \<le> unat x \<and> unat x < unat limit then panic_row (shown @ cs) (unat x - start) else v x)"
      using v [of x] pos by cases (auto simp: panic_row_def nth_append)
  qed
  finally show ?thesis .
qed

definition panic_prefix :: "u8 list" where "panic_prefix = map of_char ''KERNEL PANIC: ''"
definition panic_restart :: "u8 list" where "panic_restart = map of_char ''System halted. Please restart your computer.''"

section \<open>Properties\<close>

text \<open>The last words on a text screen: without a framebuffer, \<^verbatim>\<open>kernel_panic\<close> shows in the first row \<^verbatim>\<open>KERNEL PANIC:\<close> and the
  message, whatever its length, cut off at 80 columns, in the second row the request to restart, fills both rows up with spaces in the
  panic colour, and changes no other cell.
\<close>

theorem kernel_panic_shows:
  assumes "\<not> vd_initialized d" "message \<noteq> 0" "cstr (vd_mem d) message cs"
    and "cstr (vd_mem d) (pn_prefix F) panic_prefix" "cstr (vd_mem d) (pn_restart F) panic_restart"
  shows "kernel_panic F charset message (d, v) = Some (d, \<lambda>x. if unat x < 80 then panic_row (panic_prefix @ cs) (unat x)
    else if unat x < 160 then panic_row panic_restart (unat x - 80) else v x)"
proof -
  define v1 where "v1 = panic_fill 0 160 v"
  define v2 where "v2 = (\<lambda>x :: u32. if unat x < 14 then panic_cell (panic_prefix ! unat x) else v1 x)"
  define v4 where "v4 = (\<lambda>x :: u32. if unat x < 80 then panic_row (panic_prefix @ cs) (unat x) else v2 x)"
  have len: "length panic_prefix = 14" by (simp add: panic_prefix_def)
  have t1: "panic_text (vd_mem d) (pn_prefix F) 80 0 v1 = (14, v2)"
    using panic_text_cells [OF assms(4), of 0 80 v1] by (simp add: len v2_def cong: if_cong)
  have t2: "(case panic_text (vd_mem d) message 80 14 v2 of (q, w) \<Rightarrow> panic_fill q 80 w) = v4"
    using panic_row_completed [OF assms(3), of 14 0 panic_prefix 80 v2] by (simp add: len v2_def v4_def cong: if_cong)
  have t3: "(case panic_text (vd_mem d) (pn_restart F) 160 80 v4 of (q, w) \<Rightarrow> panic_fill q 160 w) =
      (\<lambda>x. if 80 \<le> unat x \<and> unat x < 160 then panic_row panic_restart (unat x - 80) else v4 x)"
    using panic_row_completed [OF assms(5), of 80 80 "[]" 160 v4] by (simp cong: if_cong)
  have "panic_fallback F (vd_mem d) message v = (\<lambda>x. if 80 \<le> unat x \<and> unat x < 160 then panic_row panic_restart (unat x - 80) else v4 x)"
    using assms(2) t1 t2 t3 by (simp add: panic_fallback_def Let_def v1_def [symmetric] split: prod.splits)
  also have "\<dots> = (\<lambda>x. if unat x < 80 then panic_row (panic_prefix @ cs) (unat x)
      else if unat x < 160 then panic_row panic_restart (unat x - 80) else v x)"
    by (auto simp: fun_eq_iff v4_def v2_def v1_def panic_fill_cells word_less_nat_alt)
  finally show ?thesis using assms(1) by (simp add: kernel_panic_def vbe_is_available_def)
qed

text \<open>A machine without a framebuffer whose memory holds the two literals and the message \<^verbatim>\<open>x\<close>.\<close>

definition dark_screen :: vbe_device where
  "dark_screen = vbe_small\<lparr>vd_initialized := False, vd_mem := (\<lambda>a. if a - 0x200 < 14 then panic_prefix ! unat (a - 0x200)
     else if a - 0x300 < 44 then panic_restart ! unat (a - 0x300) else if a = 0x100 then 0x78 else 0)\<rparr>"

definition dark_frame :: panic_frame where
  "dark_frame = \<lparr>pn_title = 0, pn_unknown = 0, pn_restart = 0x300, pn_version_format = 0, pn_version = 0, pn_prefix = 0x200, pn_buf = 0,
     pn_line = 0, pn_version_str = 0, pn_tables = \<lparr>ksym_section = [], legacy_symbols = [], lit_unknown = 0, lit_no_symbols = 0\<rparr>,
     pn_trace = \<lparr>tl_head = 0, tl_line = 0, tl_tail = 0\<rparr>, pn_ebp = 0\<rparr>"

theorem kernel_panic_shows_witness:
  "\<exists>v. kernel_panic dark_frame (\<lambda>_ _. 0) 0x100 (dark_screen, \<lambda>_. 0) = Some (dark_screen, v) \<and> v 14 = panic_cell 0x78 \<and> v 160 = 0"
proof -
  have "cstr (vd_mem dark_screen) 0x100 [0x78]" by (simp add: dark_screen_def)
  moreover have "cstr (vd_mem dark_screen) (pn_prefix dark_frame) panic_prefix" by (simp add: dark_screen_def dark_frame_def panic_prefix_def)
  moreover have "cstr (vd_mem dark_screen) (pn_restart dark_frame) panic_restart"
    by (simp add: dark_screen_def dark_frame_def panic_restart_def)
  moreover have "\<not> vd_initialized dark_screen" by (simp add: dark_screen_def)
  ultimately show ?thesis using kernel_panic_shows [of dark_screen "0x100" "[0x78]" dark_frame "\<lambda>_ _. 0" "\<lambda>_. 0"]
    by (simp add: panic_row_def panic_prefix_def)
qed

end
