(* ===== verification/Spec2Isabelle.thy ===== *)
theory Spec2Isabelle
  imports Heap Vma Slab Tar Vga_Text Terminal Keyboard Timer Acpi Initrd Symbols Shell Serial Cpuid Panic
begin

text \<open>
  A verification of FrostixOS, a small monolithic kernel for 32-bit x86 (\<^verbatim>\<open>src/src\<close> and \<^verbatim>\<open>src/include\<close>).

  \<^bold>\<open>The system.\<close> The boot loader hands the kernel a Multiboot structure. \<^verbatim>\<open>kernel_main\<close> brings up the consoles (VGA text,
  serial, framebuffer and font, terminal), the descriptor tables and the timer, and then memory: the physical page
  allocator is built from the boot memory map, the virtual memory manager turns paging on with a recursive page directory,
  the E820 table is recorded, the initial ramdisk is mapped, the slab allocator and the heap come up on top of the two
  memory managers, and ACPI tables are read through the new mappings. After that the clock and the keyboard deliver
  interrupts and a shell reads commands.

  \<^bold>\<open>Theories and sources.\<close> Each theory models the files named with it; a definition carries the name of its C function, and
  pieces of long functions are definitions of their own.
  \<^item> \<open>Prelude\<close>: machine words, \<^verbatim>\<open>kernel_status_t\<close>, \<^verbatim>\<open>ALIGN_UP\<close> and \<^verbatim>\<open>ALIGN_DOWN\<close> (\<^verbatim>\<open>kernel.h\<close>), and the two loop combinators
    \<open>for_loop\<close> and \<open>for_ret\<close> with their rules.
  \<^item> \<open>Bitmap\<close>, \<open>Pmm_Init\<close>: \<^verbatim>\<open>mm/bitmap.c\<close>. The allocator hands out free pages only, over any client history; the run search
    equals a plain scan and is complete; initialisation frees exactly the pages it should.
  \<^item> \<open>Multiboot\<close>: \<^verbatim>\<open>arch/i386/multiboot.c\<close> and \<^verbatim>\<open>e820.c\<close>.
  \<^item> \<open>Vmm\<close>, \<open>Vmm_Pages\<close>, \<open>Vmm_Init\<close>, \<open>Vmm_Frames\<close>: \<^verbatim>\<open>mm/vmm.c\<close> over physical memory and the processor's page walk. The
    operations on single pages and runs refine a map from addresses to addresses; \<^verbatim>\<open>vmm_init\<close> establishes the invariant.
  \<^item> \<open>Heap\<close>: \<^verbatim>\<open>mm/heap.c\<close>. Blocks in memory are tiles of one region; allocation returns disjoint blocks and keeps contents.
  \<^item> \<open>Vma\<close>: \<^verbatim>\<open>mm/vma.c\<close>. The area list stays sorted and disjoint, except in the two cases that are shown to go wrong.
  \<^item> \<open>Klist\<close>, \<open>Slab\<close>: \<^verbatim>\<open>misc/list.h\<close> and \<^verbatim>\<open>mm/slab.c\<close>. Lists refine lists of elements; the layout of a slab; the shrink error.
  \<^item> \<open>Cstring\<close>: \<^verbatim>\<open>lib/libc/string.c\<close>, \<^verbatim>\<open>stdlib.c\<close> and \<^verbatim>\<open>ctype.h\<close> over a byte memory.
  \<^item> \<open>Printf\<close>: \<^verbatim>\<open>lib/libc/printf.c\<close> without floating point. Bounds of every output, and round trips with the number scanners.
  \<^item> \<open>Tar\<close>, \<open>Initrd\<close>: \<^verbatim>\<open>fs/tar.c\<close> and \<^verbatim>\<open>drivers/initrd.c\<close>. Lookup in a well-formed archive, alone and from the boot module.
  \<^item> \<open>Vga_Text\<close>: \<^verbatim>\<open>drivers/vga_text.c\<close>, a refinement of an abstract screen.
  \<^item> \<open>Vbe\<close>, \<open>Font\<close>, \<open>Terminal\<close>: \<^verbatim>\<open>drivers/vbe.c\<close>, \<^verbatim>\<open>lib/font.c\<close>, \<^verbatim>\<open>lib/ansi.c\<close> and \<^verbatim>\<open>lib/terminal.c\<close>. Drawing stays inside the
    framebuffer; what rectangles, lines, moves and glyphs look like; the cursor stays inside the grid.
  \<^item> \<open>Interrupts\<close>: port access, \<^verbatim>\<open>arch/i386/pic.c\<close>, \<^verbatim>\<open>gdt.c\<close>, \<^verbatim>\<open>idt.c\<close> and \<^verbatim>\<open>isr.c\<close>, read back the way the hardware reads them.
  \<^item> \<open>Keyboard\<close>: \<^verbatim>\<open>drivers/ps2.c\<close>, a refinement of a queue of characters. \<open>Timer\<close>: \<^verbatim>\<open>arch/i386/pit.c\<close> and \<^verbatim>\<open>drivers/time.c\<close>.
  \<^item> \<open>Acpi\<close>: \<^verbatim>\<open>arch/i386/acpi.c\<close>. The searches find the first valid table, the parsers return on any contents.
  \<^item> \<open>Symbols\<close>: \<^verbatim>\<open>kernel/ksym.c\<close> and \<^verbatim>\<open>stacktrace.c\<close>. The lookup gives the nearest symbol below an address; a trace of any stack
    ends and stays in its buffer.
  \<^item> \<open>Shell\<close>: \<^verbatim>\<open>misc/shell.c\<close>. The line editor refines an abstract one over the keyboard's queue; a typed line runs the command that
    its first word names; one command is followed from the keys to the page allocator.
  \<^item> \<open>Serial\<close>: \<^verbatim>\<open>drivers/serial.c\<close>; strings arrive on the line. \<open>Cpuid\<close>: \<^verbatim>\<open>arch/i386/cpuid.c\<close>. \<open>Panic\<close>: \<^verbatim>\<open>misc/logger.c\<close> and
    \<^verbatim>\<open>kernel/panic.c\<close>; what the text screen shows at the end.

  \<^bold>\<open>State.\<close> The records of the memory managers extend each other the way the code is layered: \<open>pmm\<close>, \<open>vmm\<close>, \<open>heap\<close>, and on
  top \<open>vma_state\<close>, \<open>slab_state\<close>, \<open>initrd_state\<close> and \<open>acpi_state\<close>; \<open>shell_state\<close> extends \<open>slab_state\<close>. Static variables are fields; structures in memory are
  typed views indexed by their address, byte arrays are byte memories. Operations are polymorphic in the extension, so an
  upper layer calls a lower one on its own state, and that it leaves the upper fields alone is a lemma.

  \<^bold>\<open>Conventions.\<close> Integers keep their width; wrap-around is that of the word types. A result \<open>None\<close> means that the code does
  not return (a page fault, a loop that does not end, an argument that is not there); properties that say an operation
  works prove that the result is \<open>Some\<close>. No fuel is used: loops are \<open>for_loop\<close>, \<open>for_ret\<close>, functions with a termination proof
  or partial functions whose termination is proved from the invariant. Status codes are values of \<open>kernel_status\<close>. Devices
  are parameters: a function from the history of accesses to the value a read returns.

  \<^bold>\<open>Interfaces.\<close> \<open>page_allocator\<close> (what the users of \<open>Bitmap\<close> rely on), \<open>address_space\<close> (the map that page tables implement),
  \<open>dynamic_memory\<close> (allocation and release of blocks), \<open>pixel_surface\<close> (drawing by storing pixels) and \<open>printf_sink\<close> (an
  output function and what its calls preserve) are locales, each interpreted on the model's own definitions.

  \<^bold>\<open>Not modelled.\<close> The assembly files; \<^verbatim>\<open>kernel_main\<close>, which only calls the initialisation routines one after the other, as a
  run over one state of the whole machine; the translation look-aside buffer; the floating-point conversions of \<^verbatim>\<open>printf\<close>;
  log output inside the other components and the routines that only print; concurrency beyond interrupts between operations.
\<close>

end
